(* ===== verification/Prelude.thy ===== *)
theory Prelude
  imports Main "HOL-Library.Word"
begin

text \<open>
  What every theory of the development shares: the machine integers of the C sources, the
  identifier \<open>LIMBA_NONE\<close>, the collections of simplification rules the component proofs name,
  and generic lemmas on lists and words.

  An array of the C code with a count and a capacity is a list whose length is the count: the
  growth of \<^verbatim>\<open>src/src/common/xalloc.h\<close> keeps the elements and never fails (it stops the
  process), so the capacity is part of the state only where the code lets it show.
\<close>

unbundle bit_operations_syntax

type_synonym u8 = "8 word"
type_synonym u16 = "16 word"
type_synonym u32 = "32 word"
type_synonym u64 = "64 word"

text \<open>The identifier that names nothing (\<open>LIMBA_NONE\<close> of \<^verbatim>\<open>limba/ir.h\<close>, \<open>UINT32_MAX\<close>).\<close>

abbreviation (input) LIMBA_NONE :: nat where
  "LIMBA_NONE \<equiv> 4294967295"

named_theorems word_to_nat \<open>unat of word operations whose result is known not to wrap\<close>

section \<open>Words as natural numbers\<close>

lemma unat_u64_lt [simp]: "unat (x :: u64) < 18446744073709551616"
  using unsigned_less [of x, where ?'a = nat] by simp

lemma unat_u32_lt [simp]: "unat (x :: u32) < 4294967296"
  using unsigned_less [of x, where ?'a = nat] by simp

lemma unat_u8_lt [simp]: "unat (x :: u8) < 256"
  using unsigned_less [of x, where ?'a = nat] by simp

lemma uint_u32_lt [simp]: "uint (x :: u32) < 4294967296"
  using unsigned_less [of x, where ?'a = int] by simp

lemma uint_u64_lt [simp]: "uint (x :: u64) < 18446744073709551616"
  using unsigned_less [of x, where ?'a = int] by simp

lemma unat_drop_bit: "unat (drop_bit n (x :: 'a::len word)) = unat x div 2 ^ n"
  unfolding unat_drop_bit_eq by (rule drop_bit_eq_div)

lemma unat_and_mask: "unat ((x :: 'a::len word) AND mask n) = unat x mod 2 ^ n"
  unfolding take_bit_eq_mask [symmetric] unsigned_take_bit_eq by (rule take_bit_eq_mod)

lemma unat_ucast_u32_u64 [simp]: "unat (ucast (x :: u32) :: u64) = unat x"
  by (simp add: unsigned_ucast_eq take_bit_eq_mod less_trans [OF unat_u32_lt])

lemma unat_ucast_u8_u64 [simp]: "unat (ucast (x :: u8) :: u64) = unat x"
  by (simp add: unsigned_ucast_eq take_bit_eq_mod less_trans [OF unat_u8_lt])

lemma unat_ucast_u64_u32: "unat (ucast (x :: u64) :: u32) = unat x mod 4294967296"
  by (simp add: unsigned_ucast_eq take_bit_eq_mod)

lemma unat_ucast_u64_u8: "unat (ucast (x :: u64) :: u8) = unat x mod 256"
  by (simp add: unsigned_ucast_eq take_bit_eq_mod)

lemma unat_add_u64:
  "unat (x :: u64) + unat y < 18446744073709551616 \<Longrightarrow> unat (x + y) = unat x + unat y"
  by (simp add: unat_word_ariths)

lemma unat_mult_u64:
  "unat (x :: u64) * unat y < 18446744073709551616 \<Longrightarrow> unat (x * y) = unat x * unat y"
  by (simp add: unat_word_ariths)

lemma unat_add_ucast_u32 [simp]:
  "unat (ucast (x :: u32) + ucast (y :: u32) :: u64) = unat x + unat y"
proof -
  have "unat x + unat y < 18446744073709551616"
    using unat_u32_lt [of x] unat_u32_lt [of y] by linarith
  then show ?thesis using unat_add_u64 [of "ucast x" "ucast y"] by simp
qed

lemma unat_add_u32:
  "unat (x :: u32) + unat y < 4294967296 \<Longrightarrow> unat (x + y) = unat x + unat y"
  by (simp add: unat_word_ariths)

lemma unat_of_nat_u32: "n < 4294967296 \<Longrightarrow> unat (of_nat n :: u32) = n"
  by (simp add: unat_of_nat take_bit_eq_mod)

lemma take_bit_id_if_lt: "unat (v :: 'a::len word) < 2 ^ s \<Longrightarrow> take_bit s v = v"
  by (metis take_bit_nat_eq_self unsigned_take_bit_eq unsigned_word_eqI)

lemma add_mult_lt_pow:
  fixes v y :: nat
  assumes "v < 2 ^ s" and "y * 2 ^ s < 2 ^ n" and "v < 2 ^ n"
  shows "v + y * 2 ^ s < 2 ^ n"
proof (cases "s \<le> n")
  case True
  then have n: "(2 :: nat) ^ n = 2 ^ (n - s) * 2 ^ s" by (simp flip: power_add)
  then have "y < 2 ^ (n - s)" using assms(2) by simp
  then have "(y + 1) * 2 ^ s \<le> 2 ^ n"
    unfolding n by (intro mult_le_mono1) simp
  then show ?thesis using assms(1) by simp
next
  case False
  then have "(2 :: nat) ^ n \<le> 2 ^ s" by (intro power_increasing) auto
  moreover have "y = 0 \<or> 2 ^ s \<le> y * 2 ^ s" by (cases y) auto
  ultimately have "y = 0" using assms(2) by linarith
  then show ?thesis using assms(3) by simp
qed

lemma unat_or_push:
  assumes "unat (v :: 'a::len word) < 2 ^ s" and "unat y * 2 ^ s < 2 ^ LENGTH('a)"
  shows "unat (v OR push_bit s y) = unat v + unat y * 2 ^ s"
proof -
  have "unat (push_bit s y) = take_bit LENGTH('a) (push_bit s (unat y))"
    by (rule unsigned_push_bit_eq)
  then have y: "unat (push_bit s y) = unat y * 2 ^ s"
    using assms(2) by (simp add: take_bit_eq_mod push_bit_eq_mult)
  have "take_bit s v OR push_bit s y = take_bit s v + push_bit s y"
    by (subst disjunctive_add) (auto simp: bit_take_bit_iff bit_push_bit_iff)
  then have eq: "v OR push_bit s y = v + push_bit s y"
    by (simp add: take_bit_id_if_lt [OF assms(1)])
  have "unat v + unat y * 2 ^ s < 2 ^ LENGTH('a)"
    by (rule add_mult_lt_pow [OF assms]) simp
  then show ?thesis
    by (simp add: eq unat_word_ariths y)
qed

section \<open>Signed words\<close>

lemma bit_63_iff:
  assumes "(0 :: int) \<le> k" "k < 18446744073709551616"
  shows "bit k 63 \<longleftrightarrow> 9223372036854775808 \<le> k"
proof (cases "9223372036854775808 \<le> k")
  case True
  then have "k div 9223372036854775808 = 1" using assms by (intro int_div_pos_eq [of _ _ _ "k - 9223372036854775808"]) simp_all
  then show ?thesis using True by (simp add: bit_iff_odd)
next
  case False
  then have "k div 9223372036854775808 = 0" using assms by (intro div_pos_pos_trivial) simp_all
  then show ?thesis using False by (simp add: bit_iff_odd)
qed

lemma sint_u64:
  "sint (v :: u64) = (if unat v < 9223372036854775808 then int (unat v) else int (unat v) - 18446744073709551616)"
proof -
  have "sint v = take_bit 64 (uint v) - 18446744073709551616 * of_bool (bit (uint v) 63)"
    using signed_take_bit_eq_take_bit_minus [of 63 "uint v"] by (simp add: sint_uint)
  also have "take_bit 64 (uint v) = uint v"
    using uint_u64_lt [of v] by (intro take_bit_int_eq_self) simp_all
  also have "bit (uint v) 63 \<longleftrightarrow> 9223372036854775808 \<le> uint v"
    by (intro bit_63_iff) simp_all
  finally have "sint v = (if uint v < 9223372036854775808 then uint v else uint v - 18446744073709551616)"
    by auto
  moreover have "unat v < 9223372036854775808 \<longleftrightarrow> uint v < 9223372036854775808"
    using of_nat_less_iff [of "unat v" 9223372036854775808, where ?'a = int] by simp
  ultimately show ?thesis by simp
qed

lemma unat_uminus_u64:
  assumes "v \<noteq> 0"
  shows "unat (- v :: u64) = 18446744073709551616 - unat v"
proof -
  have pos: "0 < uint v" using assms by (metis unsigned_0 unsigned_greater_eq order_le_less word_uint_eqI)
  have "uint (- v) = (- uint v) mod 18446744073709551616"
    by (simp add: uint_word_ariths)
  also have "\<dots> = 18446744073709551616 - uint v"
    using pos uint_u64_lt [of v] by (simp add: zmod_zminus1_eq_if)
  finally have "int (unat (- v)) = 18446744073709551616 - int (unat v)" by simp
  then show ?thesis by linarith
qed

section \<open>Lists\<close>

lemma take_Suc_snoc: "n < length xs \<Longrightarrow> take (Suc n) xs = take n xs @ [xs ! n]"
  by (rule take_Suc_conv_app_nth)

lemma Collect_less_Suc: "{f i |i. i < Suc n} = insert (f n) {f i |i. i < n}"
  by (auto simp: less_Suc_eq)

lemma nth_append_last [simp]: "(xs @ [x]) ! length xs = x"
  by simp

end
