(* ===== verification/Leb128.thy ===== *)
theory Leb128
  imports Prelude
begin

text \<open>
  The variable-length integers of the binary form: \<^verbatim>\<open>src/src/common/leb128.c\<close> and
  \<^verbatim>\<open>leb128.h\<close>. The writer is a byte buffer that grows; the reader is a bounded cursor with a
  sticky error flag, which every reading function is a state transformer of.
\<close>

section \<open>The writer\<close>

text \<open>
  \<open>wbytes\<close> are the bytes written so far (\<open>buf[0..len)\<close>), so \<open>len\<close> is its length;
  \<open>wcap\<close> is the capacity, kept because the unchecked stores of \<open>limba_put_uleb\<close> rely on it.
\<close>

record wbuf =
  wbytes :: "u8 list"
  wcap :: nat

definition wlen :: "wbuf \<Rightarrow> nat" where
  "wlen w = length (wbytes w)"

definition wbuf_ok :: "wbuf \<Rightarrow> bool" where
  "wbuf_ok w \<longleftrightarrow> wlen w \<le> wcap w"

text \<open>The loop of \<open>limba_w_reserve\<close>: double the capacity until \<open>n\<close> more bytes fit.\<close>

function grow_cap :: "nat \<Rightarrow> nat \<Rightarrow> nat" where
  "grow_cap need cap =
     (if need > cap then grow_cap need (if cap \<noteq> 0 then 2 * cap else 4096) else cap)"
  by pat_completeness auto
termination
  by (relation "measure (\<lambda>(need, cap). if cap = 0 then need + 1 else need - cap)")
    (auto split: if_splits)

declare grow_cap.simps [simp del]

definition limba_w_reserve :: "wbuf \<Rightarrow> nat \<Rightarrow> wbuf" where
  "limba_w_reserve w n = w\<lparr>wcap := grow_cap (wlen w + n) (wcap w)\<rparr>"

definition limba_w_bytes :: "wbuf \<Rightarrow> u8 list \<Rightarrow> wbuf" where
  "limba_w_bytes w p =
     (let w = limba_w_reserve w (length p) in w\<lparr>wbytes := wbytes w @ p\<rparr>)"

definition limba_w_byte :: "wbuf \<Rightarrow> u8 \<Rightarrow> wbuf" where
  "limba_w_byte w b =
     (let w = (if wlen w = wcap w then limba_w_reserve w 1 else w)
      in w\<lparr>wbytes := wbytes w @ [b]\<rparr>)"

text \<open>Eight bytes, little endian.\<close>

definition u64_bytes :: "u64 \<Rightarrow> u8 list" where
  "u64_bytes v = map (\<lambda>i. ucast (drop_bit (8 * i) v)) [0..<8]"

definition limba_w_u64 :: "wbuf \<Rightarrow> u64 \<Rightarrow> wbuf" where
  "limba_w_u64 w v = limba_w_bytes w (u64_bytes v)"

text \<open>The bytes \<open>limba_put_uleb\<close> and \<open>limba_put_sleb\<close> store at \<open>p\<close>, in order.\<close>

function limba_put_uleb :: "u64 \<Rightarrow> u8 list" where
  "limba_put_uleb v =
     (if v \<ge> 0x80 then ucast (v OR 0x80) # limba_put_uleb (drop_bit 7 v) else [ucast v])"
  by pat_completeness auto
termination
  by (relation "measure unat") (auto simp: word_le_nat_alt unat_drop_bit)

declare limba_put_uleb.simps [simp del]

text \<open>An \<open>int64_t\<close> is the word of its bits; its right shift is arithmetic, as gcc and clang define it.\<close>

lemma sint_signed_drop_bit: "sint (signed_drop_bit n (v :: u64)) = sint v div 2 ^ n"
  by (simp add: sint_signed_drop_bit_eq drop_bit_eq_div)

function limba_put_sleb :: "u64 \<Rightarrow> u8 list" where
  "limba_put_sleb v =
     (let x = ucast (v AND 0x7f) :: u8; v' = signed_drop_bit 7 v
      in if (v' = 0 \<and> x AND 0x40 = 0) \<or> (v' = - 1 \<and> x AND 0x40 \<noteq> 0) then [x]
         else (x OR 0x80) # limba_put_sleb v')"
  by pat_completeness auto

termination
proof (relation "measure (\<lambda>v. nat \<bar>2 * sint v + 1\<bar>)")
  show "wf (measure (\<lambda>v :: u64. nat \<bar>2 * sint v + 1\<bar>))" by simp
next
  fix v :: u64 and x :: u8 and v'
  assume x: "x = ucast (v AND 0x7f)" and v': "v' = signed_drop_bit 7 v"
    and c: "\<not> ((v' = 0 \<and> x AND 0x40 = 0) \<or> (v' = - 1 \<and> x AND 0x40 \<noteq> 0))"
  have s: "sint v' = sint v div 128"
    by (simp add: v' sint_signed_drop_bit)
  have "v \<noteq> 0" using c by (auto simp: x v')
  then have "sint v \<noteq> 0" by (metis signed_0 signed_word_eqI)
  moreover have "v \<noteq> - 1" using c by (auto simp: x v')
  then have "sint v \<noteq> - 1" by (metis sint_n1 signed_word_eqI)
  ultimately have "\<bar>2 * (sint v div 128) + 1\<bar> < \<bar>2 * sint v + 1\<bar>" by linarith
  then show "(v', v) \<in> measure (\<lambda>v. nat \<bar>2 * sint v + 1\<bar>)"
    by (simp add: s)
qed

declare limba_put_sleb.simps [simp del]

definition limba_w_uleb :: "wbuf \<Rightarrow> u64 \<Rightarrow> wbuf" where
  "limba_w_uleb w v =
     (let w = (if wcap w - wlen w < 10 then limba_w_reserve w 10 else w)
      in w\<lparr>wbytes := wbytes w @ limba_put_uleb v\<rparr>)"

definition limba_w_sleb :: "wbuf \<Rightarrow> u64 \<Rightarrow> wbuf" where
  "limba_w_sleb w v =
     (let w = (if wcap w - wlen w < 10 then limba_w_reserve w 10 else w)
      in w\<lparr>wbytes := wbytes w @ limba_put_sleb v\<rparr>)"

section \<open>The reader\<close>

text \<open>\<open>rrest\<close> are the bytes from \<open>p\<close> to \<open>end\<close>.\<close>

record rbuf =
  rrest :: "u8 list"
  rbad :: bool

definition limba_r_byte :: "rbuf \<Rightarrow> u8 \<times> rbuf" where
  "limba_r_byte r =
     (if rbad r \<or> rrest r = [] then (0, r\<lparr>rbad := True\<rparr>)
      else (hd (rrest r), r\<lparr>rrest := tl (rrest r)\<rparr>))"

function uleb_loop :: "u64 \<Rightarrow> nat \<Rightarrow> rbuf \<Rightarrow> u64 \<times> rbuf" where
  "uleb_loop v shift r =
     (if shift < 64 then
        let (b, r) = limba_r_byte r
        in if rbad r then (0, r)
           else if shift = 63 \<and> b AND 0x7e \<noteq> 0 then (0, r\<lparr>rbad := True\<rparr>)
           else let v = v OR push_bit shift (ucast (b AND 0x7f))
                in if b AND 0x80 = 0 then (v, r) else uleb_loop v (shift + 7) r
      else (0, r\<lparr>rbad := True\<rparr>))"
  by pat_completeness auto
termination
  by (relation "measure (\<lambda>(v, shift, r). 64 - shift)") auto

declare uleb_loop.simps [simp del]

definition limba_r_uleb :: "rbuf \<Rightarrow> u64 \<times> rbuf" where
  "limba_r_uleb r = uleb_loop 0 0 r"

text \<open>The \<open>do\<close> loop of \<open>limba_r_sleb\<close>, with the sign extension after it.\<close>

function sleb_loop :: "u64 \<Rightarrow> nat \<Rightarrow> rbuf \<Rightarrow> u64 \<times> rbuf" where
  "sleb_loop v shift r =
     (if shift \<ge> 64 then (0, r\<lparr>rbad := True\<rparr>)
      else let (b, r) = limba_r_byte r
           in if rbad r then (0, r)
              else let v = v OR push_bit shift (ucast (b AND 0x7f)); shift = shift + 7
                   in if b AND 0x80 \<noteq> 0 then sleb_loop v shift r
                      else (if shift < 64 \<and> b AND 0x40 \<noteq> 0
                            then v OR push_bit shift (NOT 0) else v, r))"
  by pat_completeness auto
termination
  by (relation "measure (\<lambda>(v, shift, r). 64 - shift)") auto

declare sleb_loop.simps [simp del]

definition limba_r_sleb :: "rbuf \<Rightarrow> u64 \<times> rbuf" where
  "limba_r_sleb r = sleb_loop 0 0 r"

text \<open>\<open>limba_r_bytes\<close> gives \<open>n\<close> bytes in place, or \<open>NULL\<close> and the flag.\<close>

definition limba_r_bytes :: "rbuf \<Rightarrow> nat \<Rightarrow> u8 list option \<times> rbuf" where
  "limba_r_bytes r n =
     (if rbad r \<or> n > length (rrest r) then (None, r\<lparr>rbad := True\<rparr>)
      else (Some (take n (rrest r)), r\<lparr>rrest := drop n (rrest r)\<rparr>))"

definition limba_r_u64 :: "rbuf \<Rightarrow> u64 \<times> rbuf" where
  "limba_r_u64 r =
     (case limba_r_bytes r 8 of
        (None, r) \<Rightarrow> (0, r)
      | (Some p, r) \<Rightarrow> (fold (\<lambda>i v. v OR push_bit (8 * i) (ucast (p ! i))) [0..<8] 0, r))"

text \<open>A count: it must fit 32 bits and, times \<open>min_bytes\<close> each (no overflow of \<open>size_t\<close>), the input.\<close>

definition limba_r_count :: "rbuf \<Rightarrow> u64 \<Rightarrow> u32 \<times> rbuf" where
  "limba_r_count r min_bytes =
     (let (n, r) = limba_r_uleb r
      in if rbad r \<or> n > 0xffffffff \<or> unat n * unat min_bytes \<ge> 2 ^ 64 \<or>
            unat (n * min_bytes) > length (rrest r)
         then (0, r\<lparr>rbad := True\<rparr>) else (ucast n, r))"

section \<open>Properties of the writer\<close>

lemma grow_cap_enough: "need \<le> grow_cap need cap"
  by (induction need cap rule: grow_cap.induct) (subst grow_cap.simps, auto)

lemma grow_cap_mono: "cap \<le> grow_cap need cap"
proof (induction need cap rule: grow_cap.induct)
  case (1 need cap)
  then show ?case
    by (subst grow_cap.simps) (auto split: if_splits)
qed

lemma limba_w_reserve_room:
  "wlen (limba_w_reserve w n) + n \<le> wcap (limba_w_reserve w n)"
  "wbytes (limba_w_reserve w n) = wbytes w"
  by (simp_all add: limba_w_reserve_def grow_cap_enough wlen_def)

lemma limba_put_uleb_length: "unat v < 128 ^ Suc k \<Longrightarrow> length (limba_put_uleb v) \<le> Suc k"
proof (induction k arbitrary: v)
  case 0
  then show ?case by (subst limba_put_uleb.simps) (simp add: word_le_nat_alt)
next
  case (Suc k)
  have "unat (drop_bit 7 v) < 128 ^ Suc k"
    using Suc.prems by (simp add: unat_drop_bit less_mult_imp_div_less)
  then show ?case
    using Suc.IH by (subst limba_put_uleb.simps) simp
qed

lemma limba_put_uleb_10: "length (limba_put_uleb v) \<le> 10"
  using limba_put_uleb_length [of v 9] less_trans [OF unat_u64_lt [of v]] by simp

lemma bit_u64_sint:
  assumes "n < 64"
  shows "bit (v :: u64) n \<longleftrightarrow> odd (sint v div 2 ^ n)"
proof -
  have "bit v n \<longleftrightarrow> bit (sint v) n" using assms by (cases "n = 63") (simp_all add: bit_signed_iff min_def)
  then show ?thesis by (simp only: bit_iff_odd)
qed

lemma and_40_bit: "(ucast (v AND 0x7f) :: u8) AND 0x40 = 0 \<longleftrightarrow> \<not> bit (v :: u64) 6"
proof -
  have "bit (ucast (v AND 0x7f) :: u8) 6 \<longleftrightarrow> (ucast (v AND 0x7f) :: u8) AND push_bit 6 1 \<noteq> 0"
    by (rule bit_iff_and_push_bit_not_eq_0)
  moreover have "bit (ucast (v AND 0x7f) :: u8) 6 \<longleftrightarrow> bit v 6"
    by (simp add: bit_simps)
  ultimately show ?thesis by simp
qed

lemma limba_put_sleb_length:
  "- 64 * 128 ^ k \<le> sint v \<Longrightarrow> sint v < 64 * 128 ^ k \<Longrightarrow> length (limba_put_sleb v) \<le> Suc k"
proof (induction k arbitrary: v)
  case 0
  have d: "sint (signed_drop_bit 7 v) = sint v div 128" by (simp add: sint_signed_drop_bit)
  show ?case
  proof (cases "sint v < 0")
    case True
    then have "sint v div 64 = - 1" "sint v div 128 = - 1" using "0.prems" by auto
    then have "bit v 6" "signed_drop_bit 7 v = - 1"
      using d by (auto simp: bit_u64_sint intro: signed_word_eqI)
    then show ?thesis by (subst limba_put_sleb.simps) (simp add: Let_def and_40_bit)
  next
    case False
    then have "sint v div 64 = 0" "sint v div 128 = 0" using "0.prems" by auto
    then have "\<not> bit v 6" "signed_drop_bit 7 v = 0"
      using d by (auto simp: bit_u64_sint intro: signed_word_eqI)
    then show ?thesis by (subst limba_put_sleb.simps) (simp add: Let_def and_40_bit)
  qed
next
  case (Suc k)
  have "- 64 * 128 ^ k \<le> sint (signed_drop_bit 7 v)" "sint (signed_drop_bit 7 v) < 64 * 128 ^ k"
    using Suc.prems by (simp_all add: sint_signed_drop_bit)
  then show ?case
    using Suc.IH by (subst limba_put_sleb.simps) (simp add: Let_def)
qed

lemma limba_put_sleb_10: "length (limba_put_sleb v) \<le> 10"
proof -
  have "- (2 ^ 63) \<le> sint v" "sint v < 2 ^ 63"
    using sint_ge [of v] sint_lt [of v] by simp_all
  then show ?thesis using limba_put_sleb_length [of 9 v] by simp
qed

text \<open>
  Every writing operation keeps the length within the capacity: in particular the ten bytes the
  unchecked stores of \<open>limba_put_uleb\<close> and \<open>limba_put_sleb\<close> may take are always there.
\<close>

lemma limba_w_bytes_ok: "wbuf_ok w \<Longrightarrow> wbuf_ok (limba_w_bytes w p)"
  using limba_w_reserve_room [of w "length p"]
  by (simp add: limba_w_bytes_def wbuf_ok_def wlen_def Let_def)

lemma limba_w_byte_ok: "wbuf_ok w \<Longrightarrow> wbuf_ok (limba_w_byte w b)"
  using limba_w_reserve_room [of w 1]
  by (auto simp: limba_w_byte_def wbuf_ok_def wlen_def Let_def)

lemma limba_w_uleb_ok: "wbuf_ok w \<Longrightarrow> wbuf_ok (limba_w_uleb w v)"
  using limba_w_reserve_room [of w 10] limba_put_uleb_10 [of v]
  by (auto simp: limba_w_uleb_def wbuf_ok_def wlen_def Let_def)

lemma limba_w_sleb_ok: "wbuf_ok w \<Longrightarrow> wbuf_ok (limba_w_sleb w v)"
  using limba_w_reserve_room [of w 10] limba_put_sleb_10 [of v]
  by (auto simp: limba_w_sleb_def wbuf_ok_def wlen_def Let_def)

lemma limba_w_contents:
  "wbytes (limba_w_bytes w p) = wbytes w @ p"
  "wbytes (limba_w_byte w b) = wbytes w @ [b]"
  "wbytes (limba_w_u64 w v) = wbytes w @ u64_bytes v"
  "wbytes (limba_w_uleb w v) = wbytes w @ limba_put_uleb v"
  "wbytes (limba_w_sleb w v) = wbytes w @ limba_put_sleb v"
  by (simp_all add: limba_w_bytes_def limba_w_byte_def limba_w_u64_def limba_w_uleb_def
      limba_w_sleb_def limba_w_reserve_room Let_def)

section \<open>Properties of the reader\<close>

lemma mask_7: "(0x7f :: 'a::len word) = mask 7"
  by (simp add: mask_eq_exp_minus_1)

lemma ucast_or: "(ucast (x OR y :: 'a::len word) :: 'b::len word) = ucast x OR ucast y"
  by (rule bit_word_eqI) (auto simp: bit_simps)

lemma u8_low7:
  "ucast ((ucast ((x :: u64) OR 0x80) :: u8) AND 0x7f) = x AND 0x7f"
  "ucast ((ucast x :: u8) AND 0x7f) = x AND 0x7f"
proof -
  show low: "ucast ((ucast x :: u8) AND 0x7f) = x AND 0x7f"
    unfolding mask_7 by (rule bit_word_eqI) (auto simp: bit_simps)
  have "(ucast (x OR 0x80) :: u8) AND 0x7f = ucast x AND 0x7f"
    by (simp only: ucast_or word_ao_dist) simp
  with low show "ucast ((ucast (x OR 0x80) :: u8) AND 0x7f) = x AND 0x7f" by metis
qed

lemma and_80_bit: "(b :: u8) AND 0x80 = 0 \<longleftrightarrow> \<not> bit b 7"
  using bit_iff_and_push_bit_not_eq_0 [of b 7] by simp

lemma u8_high:
  "\<not> (ucast ((x :: u64) OR 0x80) :: u8) AND 0x80 = 0"
  "x < 0x80 \<Longrightarrow> (ucast x :: u8) AND 0x80 = 0"
proof -
  show "\<not> (ucast (x OR 0x80) :: u8) AND 0x80 = 0"
    unfolding and_80_bit by (simp add: bit_simps)
  assume "x < 0x80"
  then have "take_bit 7 x = x"
    by (intro take_bit_id_if_lt) (simp add: word_less_nat_alt)
  then have "\<not> bit x 7" by (metis bit_take_bit_iff less_irrefl)
  then show "(ucast x :: u8) AND 0x80 = 0"
    unfolding and_80_bit by (simp add: bit_simps)
qed

lemma push_low7_rest:
  "push_bit s (x AND 0x7f) OR push_bit (s + 7) (drop_bit 7 x) = push_bit s (x :: u64)"
  unfolding mask_7
proof (rule bit_word_eqI)
  fix n
  show "bit (push_bit s (x AND mask 7) OR push_bit (s + 7) (drop_bit 7 x)) n = bit (push_bit s x) n"
  proof (cases "s + 7 \<le> n")
    case True
    then have "7 + (n - (s + 7)) = n - s" by arith
    with True show ?thesis by (auto simp: bit_simps)
  qed (auto simp: bit_simps)
qed

lemma uleb_loop_step:
  assumes "s < 64" "s = 63 \<Longrightarrow> b AND 0x7e = 0"
  shows "uleb_loop v s \<lparr>rrest = b # bs, rbad = False\<rparr> =
    (if b AND 0x80 = 0 then (v OR push_bit s (ucast (b AND 0x7f)), \<lparr>rrest = bs, rbad = False\<rparr>)
     else uleb_loop (v OR push_bit s (ucast (b AND 0x7f))) (s + 7) \<lparr>rrest = bs, rbad = False\<rparr>)"
  using assms
  by (cases "s = 63"; subst uleb_loop.simps) (simp_all add: limba_r_byte_def Let_def del: push_bit_and)

lemma uleb_loop_put:
  assumes "unat x * 2 ^ s < 2 ^ 64" "s mod 7 = 0" "s < 64"
  shows "uleb_loop v s \<lparr>rrest = limba_put_uleb x @ rest, rbad = False\<rparr> =
    (v OR push_bit s x, \<lparr>rrest = rest, rbad = False\<rparr>)"
  using assms
proof (induction x arbitrary: v s rule: limba_put_uleb.induct)
  case (1 x)
  show ?case
  proof (cases "x \<ge> 0x80")
    case True
    then have "2 ^ (s + 7) \<le> unat x * 2 ^ s" by (simp add: word_le_nat_alt power_add)
    then have "(2 :: nat) ^ (s + 7) < 2 ^ 64"
      using "1.prems"(1) by (rule le_less_trans)
    then have s: "s + 7 < 64" by (simp only: power_strict_increasing_iff)
    have "unat (drop_bit 7 x) * 2 ^ (s + 7) = unat x div 128 * 128 * 2 ^ s"
      by (simp add: unat_drop_bit power_add)
    also have "\<dots> \<le> unat x * 2 ^ s" by simp
    finally have "unat (drop_bit 7 x) * 2 ^ (s + 7) < 2 ^ 64" using "1.prems"(1) by simp
    then have IH: "uleb_loop (v OR push_bit s (x AND 0x7f)) (s + 7)
        \<lparr>rrest = limba_put_uleb (drop_bit 7 x) @ rest, rbad = False\<rparr> =
      ((v OR push_bit s (x AND 0x7f)) OR push_bit (s + 7) (drop_bit 7 x), \<lparr>rrest = rest, rbad = False\<rparr>)"
      using s "1.prems"(2) True by (intro "1.IH") (auto simp: mod_add_right_eq)
    have put: "limba_put_uleb x = ucast (x OR 0x80) # limba_put_uleb (drop_bit 7 x)"
      using True by (subst limba_put_uleb.simps) simp
    have "\<not> s = 63" using s by simp
    with IH show ?thesis
      using s u8_high(1) [of x] push_low7_rest [of s x]
        uleb_loop_step [of s "ucast (x OR 0x80)" v "limba_put_uleb (drop_bit 7 x) @ rest", unfolded u8_low7(1)]
      by (simp only: put append_Cons if_False or.assoc)
  next
    case False
    have low: "x AND 0x7f = x"
      using False unfolding mask_7 take_bit_eq_mask [symmetric]
      by (intro take_bit_id_if_lt) (simp add: word_le_nat_alt)
    have "(ucast x :: u8) AND 0x7e = 0" if "s = 63"
    proof -
      have "unat x < 2" using "1.prems"(1) that by simp
      then have "unat x = unat (0 :: u64) \<or> unat x = unat (1 :: u64)" by auto
      then have "x = 0 \<or> x = 1" by (metis unsigned_word_eqI)
      then show ?thesis by auto
    qed
    moreover have "limba_put_uleb x = [ucast x]"
      using False by (subst limba_put_uleb.simps) simp
    ultimately show ?thesis
      using False "1.prems"(3) u8_high(2) [of x] by (simp add: uleb_loop_step u8_low7 low del: push_bit_and)
  qed
qed

text \<open>The same for the signed form: after \<open>s\<close> bits, the reader holds the low \<open>s\<close> bits of the value.\<close>

lemma sleb_loop_step:
  assumes "s < 64"
  shows "sleb_loop v s \<lparr>rrest = b # bs, rbad = False\<rparr> =
    (let v' = v OR push_bit s (ucast (b AND 0x7f))
     in if b AND 0x80 \<noteq> 0 then sleb_loop v' (s + 7) \<lparr>rrest = bs, rbad = False\<rparr>
        else (if s + 7 < 64 \<and> b AND 0x40 \<noteq> 0 then v' OR push_bit (s + 7) (NOT 0) else v',
              \<lparr>rrest = bs, rbad = False\<rparr>))"
  using assms
  by (subst sleb_loop.simps) (simp add: limba_r_byte_def Let_def del: push_bit_and)

lemma bit_sar: "n < 64 \<Longrightarrow> bit (signed_drop_bit s (X :: u64)) n \<longleftrightarrow> bit X (min (s + n) 63)"
proof (cases "64 - s \<le> n")
  case True
  moreover assume "n < 64"
  moreover have "s + n = 63 \<or> \<not> s + n \<le> 63" using True by arith
  ultimately show ?thesis by (auto simp add: bit_signed_drop_bit_iff min_def)
next
  case False
  then show ?thesis by (auto simp add: bit_signed_drop_bit_iff min_def)
qed

lemma low7_next:
  assumes "s < 64"
  shows "take_bit s X OR push_bit s (signed_drop_bit s X AND 0x7f) = take_bit (s + 7) (X :: u64)"
  unfolding mask_7
proof (rule bit_word_eqI)
  fix n assume "n < LENGTH(64)"
  then show "bit (take_bit s X OR push_bit s (signed_drop_bit s X AND mask 7)) n =
      bit (take_bit (s + 7) X) n"
    by (cases "s \<le> n") (auto simp: bit_or_iff bit_and_iff bit_take_bit_iff bit_push_bit_iff bit_mask_iff bit_sar min_def)
qed

lemma sar_sar: "signed_drop_bit 7 (signed_drop_bit s (X :: u64)) = signed_drop_bit (s + 7) X"
  by (rule bit_word_eqI) (simp add: bit_sar min_def add.assoc [symmetric] add.commute [of 7])

text \<open>The last byte: the bits from \<open>s + 7\<close> on are copies of its bit 6.\<close>

lemma sleb_last_byte:
  assumes "s < 64" and "signed_drop_bit (s + 7) X = 0 \<and> \<not> bit (signed_drop_bit s X) 6 \<or>
    signed_drop_bit (s + 7) X = - 1 \<and> bit (signed_drop_bit s X) 6"
  shows "(if s + 7 < 64 \<and> bit (signed_drop_bit s X) 6
      then take_bit (s + 7) X OR push_bit (s + 7) (NOT 0) else take_bit (s + 7) X) = (X :: u64)"
proof (cases "s + 7 < 64")
  case True
  have top: "bit X n \<longleftrightarrow> bit (signed_drop_bit s X) 6" if "s + 7 \<le> n" "n < 64" for n
  proof -
    have "bit (signed_drop_bit (s + 7) X) (n - (s + 7)) \<longleftrightarrow> bit X n"
      using that by (subst bit_sar) auto
    with assms(2) that show ?thesis by auto
  qed
  show ?thesis
  proof (rule bit_word_eqI)
    fix n assume n: "n < LENGTH(64)"
    show "bit (if s + 7 < 64 \<and> bit (signed_drop_bit s X) 6
        then take_bit (s + 7) X OR push_bit (s + 7) (NOT 0) else take_bit (s + 7) X) n = bit X n"
      using n top [of n] True
      by (cases "n < s + 7") (auto simp: bit_or_iff bit_take_bit_iff bit_push_bit_iff bit_not_iff bit_mask_iff)
  qed
next
  case False
  then show ?thesis by (simp add: take_bit_word_beyond_length_eq)
qed

lemma sleb_loop_put:
  assumes "s < 64" "Y = signed_drop_bit s X" "s mod 7 = 0"
  shows "sleb_loop (take_bit s X) s \<lparr>rrest = limba_put_sleb Y @ rest, rbad = False\<rparr> =
    (X, \<lparr>rrest = rest, rbad = False\<rparr>)"
  using assms
proof (induction Y arbitrary: s rule: limba_put_sleb.induct)
  case (1 Y)
  let ?x = "ucast (Y AND 0x7f) :: u8"
  let ?stop = "signed_drop_bit 7 Y = 0 \<and> ?x AND 0x40 = 0 \<or> signed_drop_bit 7 Y = - 1 \<and> ?x AND 0x40 \<noteq> 0"
  have Y7: "signed_drop_bit 7 Y = signed_drop_bit (s + 7) X"
    by (simp only: "1.prems" sar_sar)
  have low: "take_bit s X OR push_bit s (Y AND 0x7f) = take_bit (s + 7) X"
    using low7_next "1.prems" by simp
  have x7: "ucast (?x AND 0x7f) = Y AND 0x7f"
    unfolding mask_7 by (rule bit_word_eqI) (auto simp: bit_simps)
  have x7': "(?x OR 0x80) AND 0x7f = ?x AND 0x7f"
    by (simp add: word_ao_dist)
  have x8: "?x AND 0x80 = 0" "\<not> (?x OR 0x80) AND 0x80 = 0"
    unfolding and_80_bit mask_7 by (auto simp: bit_simps)
  have x6: "?x AND 0x40 = 0 \<longleftrightarrow> \<not> bit (signed_drop_bit s X) 6"
    by (simp only: "1.prems"(2) and_40_bit not_False_eq_True)
  show ?case
  proof (cases ?stop)
    case True
    then have put: "limba_put_sleb Y = [?x]"
      by (subst limba_put_sleb.simps) (simp add: Let_def)
    show ?thesis
      using sleb_loop_step [OF "1.prems"(1), of "take_bit s X" ?x rest] sleb_last_byte [OF "1.prems"(1), of X]
        True
      unfolding put append_Cons append_Nil x7 low x6 Y7
      by (simp only: x8 Let_def if_False simp_thms prod.inject)
  next
    case False
    then have put: "limba_put_sleb Y = (?x OR 0x80) # limba_put_sleb (signed_drop_bit 7 Y)"
      by (subst limba_put_sleb.simps) (auto simp: Let_def)
    have s: "s + 7 < 64"
    proof (rule ccontr)
      assume "\<not> s + 7 < 64"
      then have "s \<in> {57..63}" using "1.prems"(1) by simp
      moreover have "{57..63} = {57, 58, 59, 60, 61, 62, 63 :: nat}" by auto
      ultimately have "s = 63" using "1.prems"(3) by auto
      then have "sint Y = sint X div 2 ^ 63" by (simp add: "1.prems"(2) sint_signed_drop_bit)
      then have "sint Y = 0 \<or> sint Y = - 1"
        using sint_ge [of X] sint_lt [of X] by auto
      then have "Y = 0 \<or> Y = - 1" by (metis signed_0 sint_n1 signed_word_eqI)
      with False show False by auto
    qed
    have "sleb_loop (take_bit (s + 7) X) (s + 7)
        \<lparr>rrest = limba_put_sleb (signed_drop_bit 7 Y) @ rest, rbad = False\<rparr> = (X, \<lparr>rrest = rest, rbad = False\<rparr>)"
      using "1.prems"(3) by (intro "1.IH" [OF refl refl False s Y7]) (simp add: mod_add_right_eq)
    then show ?thesis
      using sleb_loop_step [OF "1.prems"(1), of "take_bit s X" "?x OR 0x80" "limba_put_sleb (signed_drop_bit 7 Y) @ rest"]
      unfolding put append_Cons x7' x7 low
      by (simp only: x8 Let_def if_True simp_thms)
  qed
qed

lemma limba_r_uleb_put:
  "limba_r_uleb \<lparr>rrest = limba_put_uleb v @ rest, rbad = False\<rparr> = (v, \<lparr>rrest = rest, rbad = False\<rparr>)"
  using uleb_loop_put [of v 0 0 rest] by (simp add: limba_r_uleb_def)

lemma limba_r_sleb_put:
  "limba_r_sleb \<lparr>rrest = limba_put_sleb v @ rest, rbad = False\<rparr> = (v, \<lparr>rrest = rest, rbad = False\<rparr>)"
  using sleb_loop_put [of 0 v v rest] by (simp add: limba_r_sleb_def)

lemma length_u64_bytes [simp]: "length (u64_bytes v) = 8"
  by (simp add: u64_bytes_def)

lemma u64_bytes_join_upto:
  "k \<le> 8 \<Longrightarrow>
   fold (\<lambda>i v. v OR push_bit (8 * i) (ucast (u64_bytes w ! i))) [0..<k] 0 = take_bit (8 * k) w"
proof (induction k)
  case (Suc k)
  have "take_bit (8 * k) w OR push_bit (8 * k) (ucast (ucast (drop_bit (8 * k) w) :: u8)) =
      take_bit (8 * Suc k) w" (is "?l = ?r")
  proof (rule bit_word_eqI)
    fix n assume "n < LENGTH(64)"
    then show "bit ?l n = bit ?r n"
      by (cases "8 * k \<le> n") (auto simp: bit_simps)
  qed
  with Suc show ?case by (simp add: u64_bytes_def)
qed simp

lemma u64_bytes_join:
  "fold (\<lambda>i v. v OR push_bit (8 * i) (ucast (u64_bytes w ! i))) [0..<8] 0 = w"
  using u64_bytes_join_upto [of 8 w] by (simp add: take_bit_word_beyond_length_eq)

lemma limba_r_u64_put:
  "limba_r_u64 \<lparr>rrest = u64_bytes v @ rest, rbad = False\<rparr> = (v, \<lparr>rrest = rest, rbad = False\<rparr>)"
proof -
  have "fold (\<lambda>i w. w OR push_bit (8 * i) (ucast ((u64_bytes v @ rest) ! i))) [0..<8] 0 =
      fold (\<lambda>i w. w OR push_bit (8 * i) (ucast (u64_bytes v ! i))) [0..<8] (0 :: u64)"
    by (rule fold_cong) (simp_all add: nth_append)
  then show ?thesis
    by (simp add: limba_r_u64_def limba_r_bytes_def u64_bytes_join del: upt_Suc cong: fold_cong)
qed

text \<open>A cursor moves forward only, inside its buffer, and its error flag stays.\<close>

definition moves :: "rbuf \<Rightarrow> rbuf \<Rightarrow> bool" where
  "moves r r' \<longleftrightarrow> (\<exists>bs. rrest r = bs @ rrest r') \<and> (rbad r \<longrightarrow> rbad r' \<and> rrest r' = rrest r)"

lemma moves_refl [simp]: "moves r r"
  by (simp add: moves_def)

lemma moves_trans: "moves r s \<Longrightarrow> moves s t \<Longrightarrow> moves r t"
  unfolding moves_def by (metis append.assoc)

lemma moves_byte: "moves r (snd (limba_r_byte r))"
  by (cases "rrest r") (auto simp: limba_r_byte_def moves_def)

lemma moves_set_bad: "moves r s \<Longrightarrow> moves r (s\<lparr>rbad := True\<rparr>)"
  by (auto simp: moves_def)

lemma moves_uleb_loop: "moves r (snd (uleb_loop v s r))"
proof (induction v s r rule: uleb_loop.induct)
  case (1 v s r)
  obtain b r' where b: "limba_r_byte r = (b, r')" by fastforce
  then have "moves r r'" using moves_byte [of r] by simp
  then show ?case
    using "1.IH" [OF _ b [symmetric]] b
    by (subst uleb_loop.simps)
      (auto simp: Let_def split: if_splits intro: moves_trans moves_set_bad)
qed

lemma moves_sleb_loop: "moves r (snd (sleb_loop v s r))"
proof (induction v s r rule: sleb_loop.induct)
  case (1 v s r)
  obtain b r' where b: "limba_r_byte r = (b, r')" by fastforce
  then have "moves r r'" using moves_byte [of r] by simp
  then show ?case
    using "1.IH" [OF _ b [symmetric]] b
    by (subst sleb_loop.simps)
      (auto simp: Let_def split: if_splits intro: moves_trans moves_set_bad)
qed

lemma moves_bytes: "moves r (snd (limba_r_bytes r n))"
  by (auto simp: limba_r_bytes_def moves_def) (metis append_take_drop_id)

lemma moves_u64: "moves r (snd (limba_r_u64 r))"
  using moves_bytes [of r 8]
  by (auto simp: limba_r_u64_def split: prod.splits option.splits)

lemma moves_count: "moves r (snd (limba_r_count r m))"
  using moves_uleb_loop [of r 0 0]
  by (auto simp: limba_r_count_def limba_r_uleb_def split: prod.splits
      intro: moves_set_bad)

text \<open>The number a run of LEB128 bytes stands for, in full.\<close>

primrec uleb_value :: "u8 list \<Rightarrow> nat" where
  "uleb_value [] = 0"
| "uleb_value (b # bs) = unat (b AND 0x7f) + 128 * uleb_value bs"

lemma low7_bound: "unat (b AND 0x7f :: u8) < 128"
  using unat_and_mask [of b 7] by (simp add: mask_eq_exp_minus_1)

lemma uleb_accepted_digit:
  assumes "s mod 7 = 0" "s < 64" "s = 63 \<longrightarrow> b AND 0x7e = 0"
  shows "unat (b AND 0x7f :: u8) * 2 ^ s < 2 ^ 64"
proof (cases "s = 63")
  case True
  have "b AND 0x7f = (b AND 0x7e) OR (b AND 1)"
    by (simp add: word_ao_dist2 [symmetric])
  then have "b AND 0x7f = b AND 1" using True assms(3) by simp
  then have "unat (b AND 0x7f) \<le> 1"
    by (metis word_and_le1 word_le_nat_alt unat_1)
  then show ?thesis using True by auto
next
  case False
  have "s \<le> 56"
  proof (rule ccontr)
    assume "\<not> s \<le> 56"
    then have "s \<in> {57, 58, 59, 60, 61, 62}" using assms(2) False by auto
    then show False using assms(1) by auto
  qed
  then have "(2 :: nat) ^ s \<le> 2 ^ 56" by (intro power_increasing) auto
  then have "unat (b AND 0x7f) * 2 ^ s \<le> 127 * 2 ^ 56"
    using low7_bound [of b] by (intro mult_le_mono) auto
  then show ?thesis by (rule le_less_trans) simp
qed

lemma uleb_loop_exact:
  "uleb_loop v s r = (w, r') \<Longrightarrow> \<not> rbad r' \<Longrightarrow> unat v < 2 ^ s \<Longrightarrow> s mod 7 = 0 \<Longrightarrow>
   \<exists>bs. rrest r = bs @ rrest r' \<and> bs \<noteq> [] \<and> 7 * length bs + s \<le> 70 \<and>
     unat w = unat v + 2 ^ s * uleb_value bs"
proof (induction v s r arbitrary: w r' rule: uleb_loop.induct)
  case (1 v s r)
  have s: "s < 64" using "1.prems"(1,2) by (subst (asm) uleb_loop.simps) (auto split: if_splits)
  obtain b r1 where br: "limba_r_byte r = (b, r1)" by fastforce
  let ?v = "v OR push_bit s (ucast (b AND 0x7f))"
  have ok: "\<not> rbad r1" "s = 63 \<longrightarrow> b AND 0x7e = 0"
    and eq: "(if b AND 0x80 = 0 then (?v, r1) else uleb_loop ?v (s + 7) r1) = (w, r')"
    using "1.prems"(1,2) s br
    by (subst (asm) uleb_loop.simps, auto simp: Let_def simp del: push_bit_and split: if_splits)+
  have rest: "rrest r = b # rrest r1"
    using br ok(1) by (cases "rrest r") (auto simp: limba_r_byte_def split: if_splits)
  have dig: "unat (b AND 0x7f) * 2 ^ s < 2 ^ 64"
    by (rule uleb_accepted_digit [OF "1.prems"(4) s ok(2)])
  have v: "unat ?v = unat v + unat (b AND 0x7f) * 2 ^ s"
    using unat_or_push [of v s "ucast (b AND 0x7f)"] "1.prems"(3) dig by simp
  have bound: "7 + s \<le> 70" using s "1.prems"(4) by presburger
  show ?case
  proof (cases "b AND 0x80 = 0")
    case True
    then have "w = ?v" "r' = r1" using eq by auto
    then show ?thesis
      using rest v bound by (intro exI [of _ "[b]"]) simp
  next
    case False
    have "unat ?v < 2 ^ (s + 7)"
    proof -
      have "unat (b AND 0x7f) * 2 ^ s \<le> 127 * 2 ^ s"
        using low7_bound [of b] by (intro mult_le_mono1) simp
      moreover have "2 ^ (s + 7) = 128 * (2 :: nat) ^ s" by (simp add: power_add)
      ultimately show ?thesis using v "1.prems"(3) by linarith
    qed
    then obtain bs where bs: "rrest r1 = bs @ rrest r'" "bs \<noteq> []" "7 * length bs + (s + 7) \<le> 70"
        "unat w = unat ?v + 2 ^ (s + 7) * uleb_value bs"
      using "1.IH" [OF s br [symmetric] refl ok(1) _ refl False, of w r'] False eq "1.prems"(2,4) ok(2)
      by (auto simp: mod_add_right_eq)
    then show ?thesis
      using rest v by (intro exI [of _ "b # bs"]) (simp add: power_add algebra_simps)
  qed
qed

lemma limba_r_uleb_exact:
  assumes "limba_r_uleb r = (v, r')" "\<not> rbad r'"
  shows "\<exists>bs. rrest r = bs @ rrest r' \<and> bs \<noteq> [] \<and> length bs \<le> 10 \<and> unat v = uleb_value bs"
  using uleb_loop_exact [of 0 0 r v r'] assms by (auto simp: limba_r_uleb_def)

lemma limba_r_count_fits:
  assumes "limba_r_count r m = (n, r')" "\<not> rbad r'"
  shows "unat n * unat m \<le> length (rrest r')"
proof -
  obtain w r1 where w: "limba_r_uleb r = (w, r1)" by fastforce
  then have "\<not> w > 0xffffffff" "unat w * unat m < 2 ^ 64" "unat (w * m) \<le> length (rrest r1)"
      "n = ucast w" "r' = r1"
    using assms by (auto simp: limba_r_count_def split: if_splits)
  then show ?thesis
    by (simp add: unat_ucast_u64_u32 unat_mult_u64 word_le_nat_alt not_less)
qed

section \<open>What the writer and the reader promise\<close>

text \<open>
  C32: What \<open>limba_w_uleb\<close> appends to a buffer, at most ten bytes, is read back by \<open>limba_r_uleb\<close> as the
  same 64-bit number, whatever follows, and the reader stands right after it with no error.
\<close>

theorem uleb_roundtrip:
  "\<exists>bs. wbytes (limba_w_uleb w v) = wbytes w @ bs \<and> length bs \<le> 10 \<and>
     (\<forall>rest. limba_r_uleb \<lparr>rrest = bs @ rest, rbad = False\<rparr> = (v, \<lparr>rrest = rest, rbad = False\<rparr>))"
  using limba_w_contents(4) limba_put_uleb_10 limba_r_uleb_put by blast

text \<open>
  C33: What \<open>limba_w_sleb\<close> appends to a buffer, at most ten bytes, is read back by \<open>limba_r_sleb\<close> as the
  same signed 64-bit number, whatever follows, and the reader stands right after it with no error.
\<close>

theorem sleb_roundtrip:
  "\<exists>bs. wbytes (limba_w_sleb w v) = wbytes w @ bs \<and> length bs \<le> 10 \<and>
     (\<forall>rest. limba_r_sleb \<lparr>rrest = bs @ rest, rbad = False\<rparr> = (v, \<lparr>rrest = rest, rbad = False\<rparr>))"
  using limba_w_contents(5) limba_put_sleb_10 limba_r_sleb_put by blast

text \<open>
  C34: A number \<open>limba_r_uleb\<close> accepts is exactly the unbounded value of the bytes it consumed, at least
  one and at most ten of them: a number past 64 bits is never cut, it raises the error flag.
\<close>

theorem uleb_never_cut:
  assumes "limba_r_uleb r = (v, r')" "\<not> rbad r'"
  shows "\<exists>bs. rrest r = bs @ rrest r' \<and> bs \<noteq> [] \<and> length bs \<le> 10 \<and> unat v = uleb_value bs"
  using assms by (rule limba_r_uleb_exact)

theorem uleb_never_cut_witness:
  "\<exists>bs. [0xe5, 0x8e, 0x26, 7] = bs @ [7 :: u8] \<and> bs \<noteq> [] \<and> length bs \<le> 10 \<and> unat (624485 :: u64) = uleb_value bs"
  using uleb_never_cut [of "\<lparr>rrest = [0xe5, 0x8e, 0x26, 7], rbad = False\<rparr>" 624485 "\<lparr>rrest = [7], rbad = False\<rparr>"]
  by (simp add: limba_r_uleb_def uleb_loop.simps limba_r_byte_def)

text \<open>
  C35: A count \<open>limba_r_count\<close> accepts is one whose elements, at their smallest size, fit in the bytes that
  are left: a forged count never makes the reader allocate more than the input could fill.
\<close>

theorem count_fits_input:
  assumes "limba_r_count r m = (n, r')" "\<not> rbad r'"
  shows "unat n * unat m \<le> length (rrest r')"
  using assms by (rule limba_r_count_fits)

theorem count_fits_input_witness: "unat (2 :: u32) * unat (3 :: u64) \<le> length [1, 2, 3, 4, 5, 6 :: u8]"
  using count_fits_input [of "\<lparr>rrest = [2, 1, 2, 3, 4, 5, 6], rbad = False\<rparr>" 3 2 "\<lparr>rrest = [1, 2, 3, 4, 5, 6], rbad = False\<rparr>"]
  by (simp add: limba_r_count_def limba_r_uleb_def uleb_loop.simps limba_r_byte_def)

end
