(* ===== verification/Hash.thy ===== *)
theory Hash
  imports Prelude
begin

text \<open>
  The index from 64-bit hashes to identifiers (\<^verbatim>\<open>src/src/common/hash.c\<close>, \<^verbatim>\<open>hash.h\<close>): open
  addressing with linear probing, at most half full. The table stores no keys: the caller's
  predicate says whether a candidate is the one it looks for. The interface its clients rely on
  is the locale \<open>id_index\<close>, interpreted at the end on the table of the code.
\<close>

section \<open>The hash functions\<close>

definition LIMBA_FNV_SEED :: u64 where
  "LIMBA_FNV_SEED = 0xcbf29ce484222325"

text \<open>FNV-1a over the bytes of a block.\<close>

definition limba_fnv :: "u8 list \<Rightarrow> u64 \<Rightarrow> u64" where
  "limba_fnv s h = fold (\<lambda>c h. (h XOR ucast c) * 0x100000001b3) s h"

definition limba_mix :: "u64 \<Rightarrow> u64 \<Rightarrow> u64" where
  "limba_mix h w = (let h = (h XOR w) * 0x9e3779b97f4a7c15 in h XOR drop_bit 32 h)"

section \<open>The table\<close>

record limba_hash =
  hkeys :: "u64 list"
  hids :: "u32 list"
  hcap :: u32
  hcount :: u32

definition alloc_table :: "limba_hash \<Rightarrow> u32 \<Rightarrow> limba_hash" where
  "alloc_table h cap =
     h\<lparr>hcap := cap, hkeys := replicate (unat cap) 0, hids := replicate (unat cap) 0xffffffff\<rparr>"

definition limba_hash_new :: limba_hash where
  "limba_hash_new = alloc_table \<lparr>hkeys = [], hids = [], hcap = 0, hcount = 0\<rparr> 64"

text \<open>
  The two probing loops have no bound in the code: each takes here as many steps as the table has
  slots, \<open>None\<close> being a loop that goes round for ever. \<open>hash_ok\<close> below excludes that value.
\<close>

fun find_from :: "nat \<Rightarrow> limba_hash \<Rightarrow> u64 \<Rightarrow> (u32 \<Rightarrow> bool) \<Rightarrow> u32 \<Rightarrow> u32 option" where
  "find_from 0 h key eq i = None"
| "find_from (Suc fuel) h key eq i =
     (if hids h ! unat i = 0xffffffff then Some 0xffffffff
      else if hkeys h ! unat i = key \<and> eq (hids h ! unat i) then Some (hids h ! unat i)
      else find_from fuel h key eq ((i + 1) AND (hcap h - 1)))"

definition limba_hash_find :: "limba_hash \<Rightarrow> u64 \<Rightarrow> (u32 \<Rightarrow> bool) \<Rightarrow> u32 option" where
  "limba_hash_find h key eq =
     (let mask = hcap h - 1 in find_from (unat (hcap h)) h key eq (ucast key AND mask))"

fun free_from :: "nat \<Rightarrow> limba_hash \<Rightarrow> u32 \<Rightarrow> u32 option" where
  "free_from 0 h i = None"
| "free_from (Suc fuel) h i =
     (if hids h ! unat i \<noteq> 0xffffffff then free_from fuel h ((i + 1) AND (hcap h - 1)) else Some i)"

definition insert_slot :: "limba_hash \<Rightarrow> u64 \<Rightarrow> u32 \<Rightarrow> limba_hash option" where
  "insert_slot h key ident =
     (let mask = hcap h - 1
      in case free_from (unat (hcap h)) h (ucast key AND mask) of
           None \<Rightarrow> None
         | Some i \<Rightarrow> Some (h\<lparr>hkeys := (hkeys h)[unat i := key], hids := (hids h)[unat i := ident]\<rparr>))"

text \<open>The rehash loop: the used slots of the old table, in order, into the new one.\<close>

fun reinsert :: "(u64 \<times> u32) list \<Rightarrow> limba_hash \<Rightarrow> limba_hash option" where
  "reinsert [] h = Some h"
| "reinsert ((k, v) # rest) h =
     (if v \<noteq> 0xffffffff
      then case insert_slot h k v of None \<Rightarrow> None | Some h \<Rightarrow> reinsert rest h
      else reinsert rest h)"

definition limba_hash_put :: "limba_hash \<Rightarrow> u64 \<Rightarrow> u32 \<Rightarrow> limba_hash option" where
  "limba_hash_put h key ident =
     (case (if 2 * (hcount h + 1) > hcap h
            then reinsert (zip (hkeys h) (hids h)) (alloc_table h (2 * hcap h)) else Some h) of
        None \<Rightarrow> None
      | Some h \<Rightarrow>
          (case insert_slot h key ident of
             None \<Rightarrow> None
           | Some h \<Rightarrow> Some (h\<lparr>hcount := hcount h + 1\<rparr>)))"

section \<open>The invariant\<close>

definition used :: "limba_hash \<Rightarrow> nat \<Rightarrow> bool" where
  "used h j \<longleftrightarrow> hids h ! j \<noteq> 0xffffffff"

definition slots_used :: "limba_hash \<Rightarrow> nat set" where
  "slots_used h = {j. j < unat (hcap h) \<and> used h j}"

text \<open>The slot of the \<open>d\<close>-th probe for a key.\<close>

definition probe :: "limba_hash \<Rightarrow> u64 \<Rightarrow> nat \<Rightarrow> nat" where
  "probe h key d = (unat key + d) mod unat (hcap h)"

definition chained :: "limba_hash \<Rightarrow> nat \<Rightarrow> bool" where
  "chained h j \<longleftrightarrow> (\<exists>d < unat (hcap h). probe h (hkeys h ! j) d = j \<and> (\<forall>e < d. used h (probe h (hkeys h ! j) e)))"

text \<open>A table of a power of two slots in which every used slot is reached from its key.\<close>

definition table_ok :: "limba_hash \<Rightarrow> bool" where
  "table_ok h \<longleftrightarrow> (\<exists>k. 6 \<le> k \<and> k < 32 \<and> unat (hcap h) = 2 ^ k) \<and>
     length (hkeys h) = unat (hcap h) \<and> length (hids h) = unat (hcap h) \<and>
     (\<forall>j \<in> slots_used h. chained h j)"

definition hash_ok :: "limba_hash \<Rightarrow> bool" where
  "hash_ok h \<longleftrightarrow> table_ok h \<and> card (slots_used h) = unat (hcount h) \<and>
     2 * unat (hcount h) \<le> unat (hcap h)"

definition hash_entries :: "limba_hash \<Rightarrow> (u64 \<times> u32) set" where
  "hash_entries h = (\<lambda>j. (hkeys h ! j, hids h ! j)) ` slots_used h"

section \<open>Probing\<close>

lemma table_ok_cap:
  assumes "table_ok h"
  shows "0 < unat (hcap h)" "unat (hcap h) < 4294967296"
  using assms by (auto simp: table_ok_def)

lemma cap_mask:
  assumes "table_ok h"
  shows "unat (i AND (hcap h - 1)) = unat i mod unat (hcap h)"
proof -
  obtain k where k: "k < 32" "unat (hcap h) = 2 ^ k" using assms by (auto simp: table_ok_def)
  have "of_nat (unat (hcap h)) = hcap h" by simp
  then have "hcap h = 2 ^ k" by (simp add: k(2) del: ucast_id)
  then have "hcap h - 1 = mask k" by (simp add: mask_eq_exp_minus_1)
  then show ?thesis using unat_and_mask [of i k] k by simp
qed

lemma cap_dvd: "table_ok h \<Longrightarrow> unat (hcap h) dvd 4294967296"
proof -
  assume "table_ok h"
  then obtain k where k: "k < 32" "unat (hcap h) = 2 ^ k" by (auto simp: table_ok_def)
  then have "(2 :: nat) ^ k dvd 2 ^ 32" by (intro le_imp_power_dvd) simp
  then show ?thesis using k by simp
qed

lemma probe_start: "table_ok h \<Longrightarrow> unat (ucast key AND (hcap h - 1)) = probe h key 0"
  by (simp add: cap_mask probe_def unat_ucast_u64_u32 mod_mod_cancel cap_dvd)

lemma probe_next:
  assumes "table_ok h" "unat i = probe h key d"
  shows "unat ((i + 1) AND (hcap h - 1)) = probe h key (Suc d)"
proof -
  have "unat ((i + 1) AND (hcap h - 1)) = (unat i + 1) mod 4294967296 mod unat (hcap h)"
    by (simp add: cap_mask [OF assms(1)] unat_word_ariths)
  also have "\<dots> = (unat i + 1) mod unat (hcap h)"
    by (rule mod_mod_cancel [OF cap_dvd [OF assms(1)]])
  finally show ?thesis
    by (simp add: assms(2) probe_def mod_simps)
qed

lemma probe_lt: "table_ok h \<Longrightarrow> probe h key d < unat (hcap h)"
  by (simp add: probe_def table_ok_cap)

text \<open>Every slot is one of the first \<open>cap\<close> probes of every key.\<close>

lemma probe_onto:
  assumes "table_ok h" "j < unat (hcap h)"
  obtains d where "d < unat (hcap h)" "probe h key d = j"
proof
  let ?n = "unat (hcap h)" and ?d = "(j + (unat (hcap h) - unat key mod unat (hcap h))) mod unat (hcap h)"
  have n: "0 < ?n" using assms by simp
  show "?d < ?n" using n by simp
  have "probe h key ?d = (unat key mod ?n + (j + (?n - unat key mod ?n))) mod ?n"
    unfolding probe_def by (metis mod_add_left_eq mod_add_right_eq)
  also have "\<dots> = (j + ?n) mod ?n"
    using mod_less_divisor [OF n, of "unat key"]
    by (intro arg_cong [of _ _ "\<lambda>x. x mod ?n"]) arith
  finally show "probe h key ?d = j" using assms(2) by simp
qed

lemma table_ok_chained: "table_ok h \<Longrightarrow> j < unat (hcap h) \<Longrightarrow> used h j \<Longrightarrow> chained h j"
  by (auto simp: table_ok_def slots_used_def)

text \<open>
  A scan from the \<open>d\<close>-th probe, the ones before all used and no match, ends when some slot is
  free: at a match, or at a free slot when there is no match in the chain.
\<close>

definition matches :: "limba_hash \<Rightarrow> u64 \<Rightarrow> (u32 \<Rightarrow> bool) \<Rightarrow> nat \<Rightarrow> bool" where
  "matches h key eq j \<longleftrightarrow> used h j \<and> hkeys h ! j = key \<and> eq (hids h ! j)"

lemma find_from_spec:
  assumes ok: "table_ok h" and free: "f < unat (hcap h)" "\<not> used h (probe h key f)"
    and i: "unat i = probe h key d" and df: "d \<le> f" and fuel: "f - d < fuel"
    and before: "\<forall>e < d. used h (probe h key e) \<and> \<not> matches h key eq (probe h key e)"
  shows "\<exists>e \<le> f. (\<forall>x < e. used h (probe h key x) \<and> \<not> matches h key eq (probe h key x)) \<and>
     (find_from fuel h key eq i = Some 0xffffffff \<and> \<not> used h (probe h key e) \<or>
      find_from fuel h key eq i = Some (hids h ! probe h key e) \<and> matches h key eq (probe h key e))"
  using i df fuel before
proof (induction fuel arbitrary: i d)
  case (Suc fuel)
  show ?case
  proof (cases "used h (probe h key d) \<and> \<not> matches h key eq (probe h key d)")
    case True
    then have "d < f" using free Suc.prems(2) by (cases "d = f") auto
    moreover have "find_from (Suc fuel) h key eq i = find_from fuel h key eq ((i + 1) AND (hcap h - 1))"
      using True Suc.prems(1) by (auto simp: used_def matches_def)
    moreover have "\<forall>e < Suc d. used h (probe h key e) \<and> \<not> matches h key eq (probe h key e)"
      using True Suc.prems(4) by (simp add: less_Suc_eq)
    ultimately show ?thesis
      using Suc.IH [OF probe_next [OF ok Suc.prems(1)]] Suc.prems(3) by simp
  next
    case False
    then show ?thesis
      using Suc.prems by (intro exI [of _ d]) (auto simp: used_def matches_def)
  qed
qed simp

lemma free_from_spec:
  assumes ok: "table_ok h" and free: "f < unat (hcap h)" "\<not> used h (probe h key f)"
    and i: "unat i = probe h key d" and df: "d \<le> f" and fuel: "f - d < fuel"
    and before: "\<forall>e < d. used h (probe h key e)"
  shows "\<exists>e \<le> f. \<exists>s. free_from fuel h i = Some s \<and> unat s = probe h key e \<and>
     \<not> used h (probe h key e) \<and> (\<forall>x < e. used h (probe h key x))"
  using i df fuel before
proof (induction fuel arbitrary: i d)
  case (Suc fuel)
  show ?case
  proof (cases "used h (probe h key d)")
    case True
    then have "d < f" using free Suc.prems(2) by (cases "d = f") auto
    moreover have "free_from (Suc fuel) h i = free_from fuel h ((i + 1) AND (hcap h - 1))"
      using True Suc.prems(1) by (auto simp: used_def)
    moreover have "\<forall>e < Suc d. used h (probe h key e)"
      using True Suc.prems(4) by (simp add: less_Suc_eq)
    ultimately show ?thesis
      using Suc.IH [OF probe_next [OF ok Suc.prems(1)]] Suc.prems(3) by simp
  next
    case False
    then show ?thesis
      using Suc.prems by (intro exI [of _ d]) (auto simp: used_def)
  qed
qed simp

section \<open>Finding\<close>

lemma slots_used_finite [simp]: "finite (slots_used h)"
  by (simp add: slots_used_def)

lemma free_slot:
  assumes "table_ok h" "card (slots_used h) < unat (hcap h)"
  obtains f where "f < unat (hcap h)" "\<not> used h (probe h key f)"
proof -
  have "\<exists>j < unat (hcap h). \<not> used h j"
  proof (rule ccontr)
    assume "\<not> ?thesis"
    then have "slots_used h = {..< unat (hcap h)}" by (auto simp: slots_used_def)
    then show False using assms(2) by simp
  qed
  then obtain j where j: "j < unat (hcap h)" "\<not> used h j" by auto
  then show thesis using that probe_onto [OF assms(1) j(1), of key] by metis
qed

lemma find_spec:
  assumes ok: "table_ok h" and room: "card (slots_used h) < unat (hcap h)"
  shows "\<exists>r. limba_hash_find h key eq = Some r \<and>
     (r = 0xffffffff \<and> (\<forall>ident. (key, ident) \<in> hash_entries h \<longrightarrow> \<not> eq ident) \<or>
      r \<noteq> 0xffffffff \<and> (key, r) \<in> hash_entries h \<and> eq r)"
proof -
  obtain f where f: "f < unat (hcap h)" "\<not> used h (probe h key f)"
    using free_slot [OF assms] by blast
  obtain e where e: "\<forall>x < e. used h (probe h key x) \<and> \<not> matches h key eq (probe h key x)"
    "limba_hash_find h key eq = Some 0xffffffff \<and> \<not> used h (probe h key e) \<or>
     limba_hash_find h key eq = Some (hids h ! probe h key e) \<and> matches h key eq (probe h key e)"
    using find_from_spec [OF ok f probe_start [OF ok], of "unat (hcap h)" eq] f
    by (auto simp: limba_hash_find_def Let_def)
  have none: "\<not> eq v" if "\<not> used h (probe h key e)" "(key, v) \<in> hash_entries h" for v
  proof
    assume "eq v"
    obtain j where j: "j < unat (hcap h)" "used h j" "hkeys h ! j = key" "hids h ! j = v"
      using \<open>(key, v) \<in> hash_entries h\<close> by (auto simp: hash_entries_def slots_used_def)
    then obtain d where d: "probe h key d = j" "\<forall>x < d. used h (probe h key x)"
      using table_ok_chained [OF ok j(1,2)] by (auto simp: chained_def)
    then have "d < e" using \<open>\<not> used h (probe h key e)\<close> j(2) by (metis linorder_neqE_nat)
    then have "\<not> matches h key eq j" using e(1) d(1) by auto
    then show False using j \<open>eq v\<close> by (simp add: matches_def)
  qed
  have "(key, hids h ! probe h key e) \<in> hash_entries h" if "matches h key eq (probe h key e)"
    using that probe_lt [OF ok, of key e]
    by (auto simp: matches_def hash_entries_def slots_used_def intro!: image_eqI [of _ _ "probe h key e"])
  then show ?thesis
    using e(2) none by (auto simp: matches_def used_def)
qed

section \<open>Inserting\<close>

lemma insert_slot_spec:
  assumes ok: "table_ok h" and room: "card (slots_used h) < unat (hcap h)" and v: "v \<noteq> 0xffffffff"
  shows "\<exists>h'. insert_slot h key v = Some h' \<and> table_ok h' \<and> hcap h' = hcap h \<and>
     hcount h' = hcount h \<and> card (slots_used h') = Suc (card (slots_used h)) \<and>
     hash_entries h' = insert (key, v) (hash_entries h)"
proof -
  obtain f where f: "f < unat (hcap h)" "\<not> used h (probe h key f)"
    using free_slot [OF ok room] by blast
  obtain e s where e: "e \<le> f" and s: "free_from (unat (hcap h)) h (ucast key AND (hcap h - 1)) = Some s"
      "unat s = probe h key e" and free: "\<not> used h (probe h key e)"
      and before: "\<forall>x < e. used h (probe h key x)"
    using free_from_spec [OF ok f probe_start [OF ok], of "unat (hcap h)"] f by auto
  define p where "p = probe h key e"
  define h' where "h' = h\<lparr>hkeys := (hkeys h)[p := key], hids := (hids h)[p := v]\<rparr>"
  have h': "insert_slot h key v = Some h'"
    by (simp add: insert_slot_def Let_def s h'_def p_def)
  have p: "p < unat (hcap h)" by (simp add: p_def probe_lt [OF ok])
  have len: "length (hkeys h) = unat (hcap h)" "length (hids h) = unat (hcap h)"
    using ok by (simp_all add: table_ok_def)
  have used': "used h' j \<longleftrightarrow> j = p \<or> used h j" if "j < unat (hcap h)" for j
    using that p len v by (auto simp: used_def h'_def nth_list_update)
  have probe': "probe h' k d = probe h k d" for k d by (simp add: probe_def h'_def)
  have slots': "slots_used h' = insert p (slots_used h)"
    using p used' by (auto simp: slots_used_def h'_def)
  have p_new: "p \<notin> slots_used h" using free by (simp add: slots_used_def p_def)
  have chained': "chained h' j" if "j \<in> slots_used h'" for j
  proof (cases "j = p")
    case True
    have "hkeys h' ! j = key" "hcap h' = hcap h" using True p len by (simp_all add: h'_def)
    moreover have "used h' (probe h key x)" if "x < e" for x
      using before that used' probe_lt [OF ok] by blast
    moreover have "e < unat (hcap h)" using e f(1) by simp
    ultimately show ?thesis
      unfolding chained_def using True by (intro exI [of _ e]) (simp add: probe' p_def)
  next
    case False
    then have j: "j < unat (hcap h)" "used h j" using that slots' by (auto simp: slots_used_def)
    then obtain d where d: "d < unat (hcap h)" "probe h (hkeys h ! j) d = j"
        "\<forall>x < d. used h (probe h (hkeys h ! j) x)"
      using table_ok_chained [OF ok] by (auto simp: chained_def)
    have "hkeys h' ! j = hkeys h ! j" "hcap h' = hcap h" using False by (simp_all add: h'_def)
    moreover have "used h' (probe h (hkeys h ! j) x)" if "x < d" for x
      using d(3) that used' probe_lt [OF ok] by blast
    ultimately show ?thesis
      unfolding chained_def using d(1,2) by (intro exI [of _ d]) (simp add: probe')
  qed
  have "hash_entries h' = (\<lambda>j. (hkeys h' ! j, hids h' ! j)) ` insert p (slots_used h)"
    by (simp add: hash_entries_def slots')
  also have "\<dots> = insert (key, v) (hash_entries h)"
    using p len p_new by (auto simp: hash_entries_def h'_def image_iff nth_list_update)
  finally have "hash_entries h' = insert (key, v) (hash_entries h)" .
  moreover have "table_ok h'"
    using ok chained' len by (simp add: table_ok_def h'_def)
  moreover have "card (slots_used h') = Suc (card (slots_used h))"
    using slots' p_new by simp
  ultimately show ?thesis
    using h' by (auto simp: h'_def)
qed

lemma reinsert_spec:
  assumes "table_ok h" "card (slots_used h) + length kvs \<le> unat (hcap h)"
  shows "\<exists>h'. reinsert kvs h = Some h' \<and> table_ok h' \<and> hcap h' = hcap h \<and> hcount h' = hcount h \<and>
     card (slots_used h') = card (slots_used h) + length (filter (\<lambda>(k, v). v \<noteq> 0xffffffff) kvs) \<and>
     hash_entries h' = hash_entries h \<union> {(k, v) \<in> set kvs. v \<noteq> 0xffffffff}"
  using assms
proof (induction kvs arbitrary: h)
  case Nil
  then show ?case by simp
next
  case (Cons kv kvs)
  obtain k v where kv: "kv = (k, v)" by fastforce
  show ?case
  proof (cases "v = 0xffffffff")
    case True
    then show ?thesis using Cons.IH [of h] Cons.prems by (auto simp: kv)
  next
    case False
    obtain h1 where h1: "insert_slot h k v = Some h1" "table_ok h1" "hcap h1 = hcap h"
        "hcount h1 = hcount h" "card (slots_used h1) = Suc (card (slots_used h))"
        "hash_entries h1 = insert (k, v) (hash_entries h)"
      using insert_slot_spec [OF Cons.prems(1) _ False, of k] Cons.prems(2) by auto
    then obtain h2 where "reinsert kvs h1 = Some h2" "table_ok h2" "hcap h2 = hcap h1"
        "hcount h2 = hcount h1"
        "card (slots_used h2) = card (slots_used h1) + length (filter (\<lambda>(k, v). v \<noteq> 0xffffffff) kvs)"
        "hash_entries h2 = hash_entries h1 \<union> {(k, v) \<in> set kvs. v \<noteq> 0xffffffff}"
      using Cons.IH [of h1] Cons.prems(2) by auto
    then show ?thesis using h1 False by (auto simp: kv)
  qed
qed

lemma alloc_table_spec:
  assumes "6 \<le> k" "k < 32" "unat cap = 2 ^ k"
  shows "table_ok (alloc_table h cap)" "slots_used (alloc_table h cap) = {}"
    "hash_entries (alloc_table h cap) = {}" "hcap (alloc_table h cap) = cap"
    "hcount (alloc_table h cap) = hcount h"
proof -
  show u: "slots_used (alloc_table h cap) = {}"
    by (simp add: slots_used_def used_def alloc_table_def)
  then show "hash_entries (alloc_table h cap) = {}"
    by (simp add: hash_entries_def)
  show "table_ok (alloc_table h cap)"
    using assms u by (auto simp: table_ok_def alloc_table_def)
qed (simp_all add: alloc_table_def)

lemma hash_ok_new: "hash_ok limba_hash_new" "hash_entries limba_hash_new = {}" "hcount limba_hash_new = 0"
  using alloc_table_spec [of 6 "64 :: u32"]
  by (simp_all add: hash_ok_def limba_hash_new_def)

text \<open>The used slots of a table, as the rehash loop reads them.\<close>

lemma used_zip:
  assumes "table_ok h"
  shows "card (slots_used h) = length (filter (\<lambda>(k, v). v \<noteq> 0xffffffff) (zip (hkeys h) (hids h)))"
    and "hash_entries h = {(k, v) \<in> set (zip (hkeys h) (hids h)). v \<noteq> 0xffffffff}"
proof -
  have len: "length (hkeys h) = unat (hcap h)" "length (hids h) = unat (hcap h)"
    using assms by (simp_all add: table_ok_def)
  have "{j. j < unat (hcap h) \<and> (case zip (hkeys h) (hids h) ! j of (k, v) \<Rightarrow> v \<noteq> 0xffffffff)} =
      slots_used h"
    using len by (auto simp: slots_used_def used_def)
  then show "card (slots_used h) =
      length (filter (\<lambda>(k, v). v \<noteq> 0xffffffff) (zip (hkeys h) (hids h)))"
    by (simp add: length_filter_conv_card len)
  show "hash_entries h = {(k, v) \<in> set (zip (hkeys h) (hids h)). v \<noteq> 0xffffffff}"
    using len by (auto simp: hash_entries_def slots_used_def used_def set_zip image_iff)
qed

lemma put_spec:
  assumes ok: "hash_ok h" and v: "v \<noteq> 0xffffffff" and room: "unat (hcount h) < 2 ^ 30"
  shows "\<exists>h'. limba_hash_put h key v = Some h' \<and> hash_ok h' \<and>
     unat (hcount h') = Suc (unat (hcount h)) \<and> hash_entries h' = insert (key, v) (hash_entries h)"
proof -
  have t: "table_ok h" and card: "card (slots_used h) = unat (hcount h)"
    and half: "2 * unat (hcount h) \<le> unat (hcap h)"
    using ok by (simp_all add: hash_ok_def)
  obtain k where k: "6 \<le> k" "k < 32" "unat (hcap h) = 2 ^ k" using t by (auto simp: table_ok_def)
  have cnt: "unat (hcount h + 1) = Suc (unat (hcount h))"
    using room by (simp add: unat_word_ariths)
  then have twice: "unat (2 * (hcount h + 1)) = 2 * Suc (unat (hcount h))"
    using room by (simp add: unat_word_ariths)
  have len: "length (zip (hkeys h) (hids h)) = unat (hcap h)" using t by (simp add: table_ok_def)
  obtain g where g: "(if 2 * (hcount h + 1) > hcap h
        then reinsert (zip (hkeys h) (hids h)) (alloc_table h (2 * hcap h)) else Some h) = Some g"
      "table_ok g" "hcount g = hcount h" "card (slots_used g) = unat (hcount h)"
      "2 * Suc (unat (hcount h)) \<le> unat (hcap g)" "hash_entries g = hash_entries h"
  proof (cases "2 * (hcount h + 1) > hcap h")
    case True
    then have "unat (hcap h) < 2 * Suc (unat (hcount h))"
      unfolding word_less_nat_alt twice .
    also have "\<dots> \<le> 2 ^ 31" using room by simp
    finally have "(2 :: nat) ^ k < 2 ^ 31" unfolding k(3) .
    then have k31: "Suc k < 32" using power_less_imp_less_exp [of "2 :: nat" k 31] by simp
    then have "unat (hcap h) < 2 ^ 31" unfolding k(3) by (intro power_strict_increasing) auto
    have cap2: "unat (2 * hcap h) = 2 ^ Suc k" using k \<open>unat (hcap h) < 2 ^ 31\<close> by (simp add: unat_word_ariths)
    have "(2 :: nat) ^ 6 \<le> 2 ^ k" using k(1) by (intro power_increasing) auto
    note a = this alloc_table_spec [of "Suc k" "2 * hcap h" h, OF _ k31 cap2]
    show thesis
      using reinsert_spec [OF a(2), of "zip (hkeys h) (hids h)"] k(1) a len used_zip [OF t] card True that cap2 k half
      by auto
  next
    case False
    then show thesis
      using that [of h] t card twice by (auto simp: word_less_nat_alt not_less)
  qed
  obtain h' where h': "insert_slot g key v = Some h'" "table_ok h'" "hcap h' = hcap g" "hcount h' = hcount g"
      "card (slots_used h') = Suc (card (slots_used g))" "hash_entries h' = insert (key, v) (hash_entries g)"
    using insert_slot_spec [OF g(2) _ v, of key] g(4,5) by auto
  let ?h = "h'\<lparr>hcount := hcount h' + 1\<rparr>"
  have same: "table_ok ?h" "slots_used ?h = slots_used h'" "hash_entries ?h = hash_entries h'"
    using h'(2) by (simp_all add: table_ok_def slots_used_def used_def hash_entries_def chained_def probe_def)
  have "limba_hash_put h key v = Some ?h"
    using g(1) h'(1) by (simp add: limba_hash_put_def)
  moreover have "hash_ok ?h"
    using same h' g cnt by (simp add: hash_ok_def)
  ultimately show ?thesis
    using same h' g cnt by auto
qed

section \<open>The interface\<close>

text \<open>
  What a client relies on: an index that starts empty, takes any pair whose identifier is not
  \<open>LIMBA_NONE\<close> while it holds fewer than \<open>2 ^ 30\<close>, and finds an identifier of a key that satisfies the
  client's predicate exactly when it holds one.
\<close>

locale id_index =
  fixes empty :: 't
    and put :: "'t \<Rightarrow> u64 \<Rightarrow> u32 \<Rightarrow> 't option"
    and find :: "'t \<Rightarrow> u64 \<Rightarrow> (u32 \<Rightarrow> bool) \<Rightarrow> u32 option"
    and entries :: "'t \<Rightarrow> (u64 \<times> u32) set"
    and count :: "'t \<Rightarrow> nat"
    and ok :: "'t \<Rightarrow> bool"
  assumes empty_ok: "ok empty" "entries empty = {}" "count empty = 0"
    and put_ok: "ok t \<Longrightarrow> v \<noteq> 0xffffffff \<Longrightarrow> count t < 2 ^ 30 \<Longrightarrow>
      \<exists>t'. put t k v = Some t' \<and> ok t' \<and> count t' = Suc (count t) \<and> entries t' = insert (k, v) (entries t)"
    and find_ok: "ok t \<Longrightarrow> \<exists>r. find t k eq = Some r \<and>
      (r = 0xffffffff \<and> (\<forall>v. (k, v) \<in> entries t \<longrightarrow> \<not> eq v) \<or>
       r \<noteq> 0xffffffff \<and> (k, r) \<in> entries t \<and> eq r)"
begin

lemma find_returns: "ok t \<Longrightarrow> find t k eq \<noteq> None"
  using find_ok by fastforce

lemma find_only:
  assumes "ok t" "(k, v) \<in> entries t" "eq v" "\<And>w. (k, w) \<in> entries t \<Longrightarrow> eq w \<Longrightarrow> w = v"
  shows "find t k eq = Some v"
  using find_ok [OF assms(1), of k eq] assms(2-4) by blast

lemma find_none:
  assumes "ok t" "\<And>w. (k, w) \<in> entries t \<Longrightarrow> \<not> eq w"
  shows "find t k eq = Some 0xffffffff"
  using find_ok [OF assms(1), of k eq] assms(2) by blast

end

interpretation idx: id_index limba_hash_new limba_hash_put limba_hash_find hash_entries
  "\<lambda>h. unat (hcount h)" hash_ok
proof (unfold_locales, goal_cases)
  case 1 show ?case by (rule hash_ok_new)
next
  case 2 show ?case by (rule hash_ok_new)
next
  case 3 show ?case by (simp add: hash_ok_new)
next
  case (4 t v k)
  then show ?case by (rule put_spec)
next
  case (5 t k eq)
  then have "table_ok t" "card (slots_used t) < unat (hcap t)"
    using table_ok_cap [of t] by (auto simp: hash_ok_def)
  then show ?case by (rule find_spec)
qed

section \<open>What the table promises\<close>

text \<open>
  C30: Putting a pair, with an identifier other than \<open>UINT32_MAX\<close>, into a well-formed table of fewer than
  \<open>2 ^ 30\<close> entries always ends, keeps it well formed and adds exactly that pair; a search then always ends, and gives an identifier of the key that satisfies the predicate
  exactly when the table holds one.
\<close>

theorem hash_put_then_find:
  assumes "hash_ok h" "v \<noteq> 0xffffffff" "unat (hcount h) < 2 ^ 30"
  shows "\<exists>h'. limba_hash_put h k v = Some h' \<and> hash_ok h' \<and> hash_entries h' = insert (k, v) (hash_entries h) \<and>
    (\<exists>r. limba_hash_find h' key eq = Some r \<and>
      (if \<exists>w. (key, w) \<in> hash_entries h' \<and> eq w then (key, r) \<in> hash_entries h' \<and> eq r else r = 0xffffffff))"
proof -
  obtain h' where h': "limba_hash_put h k v = Some h'" "hash_ok h'" "hash_entries h' = insert (k, v) (hash_entries h)"
    using idx.put_ok [OF assms] by blast
  then show ?thesis using idx.find_ok [OF h'(2), of key eq] by fastforce
qed

theorem hash_put_then_find_witness:
  "\<exists>h'. limba_hash_put limba_hash_new 5 7 = Some h' \<and> limba_hash_find h' 5 (\<lambda>_. True) = Some 7"
  using hash_put_then_find [OF hash_ok_new(1), of 7 5 5 "\<lambda>_. True"] by (auto simp: hash_ok_new split: if_splits)

end
