(* ===== verification/Strtab.thy ===== *)
theory Strtab
  imports Hash
begin

text \<open>
  Interned byte strings (\<^verbatim>\<open>src/src/common/strtab.c\<close>): one buffer of bytes in which every string is
  followed by a NUL, the offset and the length of each, and the hash index from a string to its
  identifier. The identifiers are dense and given in the order of first interning.
\<close>

section \<open>The table\<close>

record limba_strtab =
  st_bytes :: "u8 list"
  st_start :: "u32 list"
  st_len :: "u32 list"
  st_index :: limba_hash

definition limba_strtab_new :: limba_strtab where
  "limba_strtab_new = \<lparr>st_bytes = [], st_start = [], st_len = [], st_index = limba_hash_new\<rparr>"

definition limba_strtab_count :: "limba_strtab \<Rightarrow> u32" where
  "limba_strtab_count t = of_nat (length (st_start t))"

definition limba_strtab_get :: "limba_strtab \<Rightarrow> u32 \<Rightarrow> u8 list" where
  "limba_strtab_get t ident =
     take (unat (st_len t ! unat ident)) (drop (unat (st_start t ! unat ident)) (st_bytes t))"

definition same :: "limba_strtab \<Rightarrow> u8 list \<Rightarrow> u32 \<Rightarrow> bool" where
  "same t s ident \<longleftrightarrow> unat (st_len t ! unat ident) = length s \<and>
     take (length s) (drop (unat (st_start t ! unat ident)) (st_bytes t)) = s"

definition limba_strtab_find :: "limba_strtab \<Rightarrow> u8 list \<Rightarrow> u32 option" where
  "limba_strtab_find t s = limba_hash_find (st_index t) (limba_fnv s LIMBA_FNV_SEED) (same t s)"

text \<open>
  \<open>None\<close> is the call of \<open>abort\<close> (or a search of the index that never ends, which the invariant
  excludes).
\<close>

definition limba_strtab_intern_hashed ::
    "limba_strtab \<Rightarrow> u8 list \<Rightarrow> u64 \<Rightarrow> (limba_strtab \<times> u32) option" where
  "limba_strtab_intern_hashed t s hash =
     (case limba_hash_find (st_index t) hash (same t s) of
        None \<Rightarrow> None
      | Some ident \<Rightarrow>
          if ident \<noteq> 0xffffffff then Some (t, ident)
          else if length s > 0xffffffff - 1 \<or> length (st_bytes t) + length s + 1 > 0xffffffff then None
          else
            let ident = limba_strtab_count t
            in case limba_hash_put (st_index t) hash ident of
                 None \<Rightarrow> None
               | Some index \<Rightarrow>
                   Some (\<lparr>st_bytes = st_bytes t @ s @ [0],
                          st_start = st_start t @ [of_nat (length (st_bytes t))],
                          st_len = st_len t @ [of_nat (length s)],
                          st_index = index\<rparr>, ident))"

definition limba_strtab_intern :: "limba_strtab \<Rightarrow> u8 list \<Rightarrow> (limba_strtab \<times> u32) option" where
  "limba_strtab_intern t s = limba_strtab_intern_hashed t s (limba_fnv s LIMBA_FNV_SEED)"

section \<open>The strings a table holds, and its invariant\<close>

definition strs :: "limba_strtab \<Rightarrow> u8 list list" where
  "strs t = map (\<lambda>i. limba_strtab_get t (of_nat i)) [0 ..< length (st_start t)]"

definition strtab_ok :: "limba_strtab \<Rightarrow> bool" where
  "strtab_ok t \<longleftrightarrow> hash_ok (st_index t) \<and>
     unat (hcount (st_index t)) = length (st_start t) \<and>
     length (st_len t) = length (st_start t) \<and>
     (\<forall>i < length (st_start t). unat (st_start t ! i) + unat (st_len t ! i) < length (st_bytes t) \<and>
        st_bytes t ! (unat (st_start t ! i) + unat (st_len t ! i)) = 0) \<and>
     length (st_bytes t) = (\<Sum>s \<leftarrow> strs t. length s + 1) \<and> length (st_bytes t) \<le> 0xffffffff \<and>
     distinct (strs t) \<and>
     hash_entries (st_index t) =
       {(limba_fnv (strs t ! i) LIMBA_FNV_SEED, of_nat i) |i. i < length (st_start t)}"

text \<open>
  The table never reaches \<open>2 ^ 30\<close> strings, where the doubled capacity of its index would no longer
  fit in 32 bits: fewer than \<open>2 ^ 25\<close> distinct strings are shorter than four bytes, and each of the
  others takes five bytes or more of the 4 GB.
\<close>

lemma card_short_strings: "card {s :: u8 list. length s \<le> 3} = 16843009"
proof -
  have "card {s :: u8 list. set s \<subseteq> UNIV \<and> length s \<le> 3} = (\<Sum>i \<le> 3. card (UNIV :: u8 set) ^ i)"
    by (rule card_lists_length_le) simp
  also have "{..3 :: nat} = {0, 1, 2, 3}" by auto
  also have "(\<Sum>i \<in> {0, 1, 2, 3}. card (UNIV :: u8 set) ^ i) = 16843009"
    by (simp add: card_word)
  finally show ?thesis by simp
qed

lemma finite_short_strings: "finite {s :: u8 list. length s \<le> 3}"
  using finite_lists_length_le [of "UNIV :: u8 set" 3] by simp

lemma long_strings_bytes:
  "5 * length (filter (\<lambda>s. \<not> length s \<le> 3) xs) \<le> (\<Sum>s \<leftarrow> xs. length (s :: u8 list) + 1)"
  by (induction xs) auto

lemma few_strings:
  assumes "distinct (xs :: u8 list list)" "(\<Sum>s \<leftarrow> xs. length s + 1) \<le> 0xffffffff"
  shows "length xs < 2 ^ 30"
proof -
  have "length (filter (\<lambda>s. length s \<le> 3) xs) = card (set (filter (\<lambda>s. length s \<le> 3) xs))"
    using assms(1) by (metis distinct_card distinct_filter)
  also have "\<dots> \<le> card {s :: u8 list. length s \<le> 3}"
    by (rule card_mono [OF finite_short_strings]) auto
  finally have "length (filter (\<lambda>s. length s \<le> 3) xs) \<le> 16843009"
    by (simp add: card_short_strings)
  moreover have "5 * length (filter (\<lambda>s. \<not> length s \<le> 3) xs) \<le> 4294967295"
    using long_strings_bytes [of xs] assms(2) by simp
  moreover have "length xs = length (filter (\<lambda>s. length s \<le> 3) xs) + length (filter (\<lambda>s. \<not> length s \<le> 3) xs)"
    by (rule sum_length_filter_compl [symmetric])
  ultimately show ?thesis by simp
qed

lemma strtab_ok_bounds:
  assumes "strtab_ok t" "i < length (st_start t)"
  shows "unat (st_start t ! i) + unat (st_len t ! i) < length (st_bytes t)"
    "st_bytes t ! (unat (st_start t ! i) + unat (st_len t ! i)) = 0"
  using assms unfolding strtab_ok_def by blast+

lemma strtab_okD:
  assumes "strtab_ok t"
  shows "hash_ok (st_index t)" "unat (hcount (st_index t)) = length (st_start t)"
    "length (st_len t) = length (st_start t)" "distinct (strs t)"
    "hash_entries (st_index t) =
       {(limba_fnv (strs t ! i) LIMBA_FNV_SEED, of_nat i) |i. i < length (st_start t)}"
  using assms unfolding strtab_ok_def by blast+

lemma strtab_ok_bytes:
  "strtab_ok t \<Longrightarrow> length (st_bytes t) = (\<Sum>s \<leftarrow> strs t. length s + 1)"
  unfolding strtab_ok_def by blast

lemma length_strs [simp]: "length (strs t) = length (st_start t)"
  by (simp add: strs_def)

lemma nth_strs [simp]: "i < length (st_start t) \<Longrightarrow> strs t ! i = limba_strtab_get t (of_nat i)"
  by (simp add: strs_def)

lemma strtab_ok_few: "strtab_ok t \<Longrightarrow> length (st_start t) < 2 ^ 30"
  using few_strings [of "strs t"] by (simp add: strtab_ok_def)

lemma strtab_ok_ident:
  assumes "strtab_ok t" "i < length (st_start t)"
  shows "unat (of_nat i :: u32) = i" "of_nat i \<noteq> (0xffffffff :: u32)"
proof -
  have "i < 2 ^ 30" using strtab_ok_few [OF assms(1)] assms(2) by simp
  then show u: "unat (of_nat i :: u32) = i" by (simp add: unat_of_nat_u32)
  show "of_nat i \<noteq> (0xffffffff :: u32)"
  proof
    assume "of_nat i = (0xffffffff :: u32)"
    then have "i = 4294967295" using u by simp
    then show False using \<open>i < 2 ^ 30\<close> by simp
  qed
qed

lemma same_get:
  assumes "strtab_ok t" "i < length (st_start t)"
  shows "same t s (of_nat i) \<longleftrightarrow> limba_strtab_get t (of_nat i) = s"
proof -
  show ?thesis
    using strtab_ok_ident [OF assms] strtab_ok_bounds [OF assms] by (auto simp: same_def limba_strtab_get_def)
qed

lemma strtab_ok_new: "strtab_ok limba_strtab_new" "strs limba_strtab_new = []"
  by (auto simp: strtab_ok_def limba_strtab_new_def strs_def hash_ok_new)

section \<open>Finding and interning\<close>

lemma strtab_uniq:
  assumes ok: "strtab_ok t" and i: "i < length (strs t)" "j < length (strs t)" "strs t ! i = strs t ! j"
  shows "i = j"
  using nth_eq_iff_index_eq [OF strtab_okD(4) [OF ok] i(1,2)] i(3) by blast

lemma find_in_strtab:
  assumes ok: "strtab_ok t" and i: "i < length (strs t)" "strs t ! i = s"
  shows "limba_hash_find (st_index t) (limba_fnv s LIMBA_FNV_SEED) (same t s) = Some (of_nat i)"
proof (rule idx.find_only)
  show "hash_ok (st_index t)" by (rule strtab_okD(1) [OF ok])
  show "(limba_fnv s LIMBA_FNV_SEED, of_nat i) \<in> hash_entries (st_index t)"
    unfolding strtab_okD(5) [OF ok] using i by (auto simp del: nth_strs)
  show "same t s (of_nat i)" using i by (simp add: same_get [OF ok])
  fix w assume "(limba_fnv s LIMBA_FNV_SEED, w) \<in> hash_entries (st_index t)" "same t s w"
  then obtain j where j: "j < length (st_start t)" "w = of_nat j"
    unfolding strtab_okD(5) [OF ok] by blast
  then have "strs t ! j = s" using \<open>same t s w\<close> by (simp add: same_get [OF ok])
  then show "w = of_nat i" using strtab_uniq [OF ok i(1), of j] i j by simp
qed

lemma find_not_in_strtab:
  assumes ok: "strtab_ok t" and new: "s \<notin> set (strs t)"
  shows "limba_hash_find (st_index t) (limba_fnv s LIMBA_FNV_SEED) (same t s) = Some 0xffffffff"
proof (rule idx.find_none)
  show "hash_ok (st_index t)" by (rule strtab_okD(1) [OF ok])
  fix w assume "(limba_fnv s LIMBA_FNV_SEED, w) \<in> hash_entries (st_index t)"
  then obtain j where j: "j < length (st_start t)" "w = of_nat j"
    unfolding strtab_okD(5) [OF ok] by blast
  then have "strs t ! j \<in> set (strs t)" by (intro nth_mem) simp
  then have "limba_strtab_get t (of_nat j) \<noteq> s" using new j(1) by auto
  then show "\<not> same t s w" using j by (simp add: same_get [OF ok])
qed

text \<open>Interning a string the table does not hold: it goes at the end, and the others keep their place.\<close>

lemma intern_new:
  assumes ok: "strtab_ok t" and new: "s \<notin> set (strs t)"
    and room: "length (st_bytes t) + length s + 1 \<le> 0xffffffff"
  shows "\<exists>t'. limba_strtab_intern t s = Some (t', of_nat (length (strs t))) \<and> strtab_ok t' \<and>
    strs t' = strs t @ [s]"
proof -
  let ?h = "limba_fnv s LIMBA_FNV_SEED" and ?n = "length (st_start t)"
  have few: "?n < 2 ^ 30" by (rule strtab_ok_few [OF ok])
  note hok = strtab_okD(1) [OF ok] and cnt = strtab_okD(2) [OF ok] and lens = strtab_okD(3) [OF ok]
  have un: "unat (of_nat ?n :: u32) = ?n" using few by (simp add: unat_of_nat_u32)
  have "of_nat ?n \<noteq> (0xffffffff :: u32)"
  proof
    assume "of_nat ?n = (0xffffffff :: u32)"
    then have "?n = 4294967295" using un by simp
    then show False using few by simp
  qed
  then obtain index where index: "limba_hash_put (st_index t) ?h (of_nat ?n) = Some index" "hash_ok index"
      "unat (hcount index) = Suc ?n" "hash_entries index = insert (?h, of_nat ?n) (hash_entries (st_index t))"
    using idx.put_ok [OF hok, of "of_nat ?n" ?h] few cnt by auto
  define t' where "t' = \<lparr>st_bytes = st_bytes t @ s @ [0],
      st_start = st_start t @ [of_nat (length (st_bytes t))],
      st_len = st_len t @ [of_nat (length s)], st_index = index\<rparr>"
  have t': "limba_strtab_intern t s = Some (t', of_nat (length (strs t)))"
    using find_not_in_strtab [OF ok new] room index(1)
    by (simp add: limba_strtab_intern_def limba_strtab_intern_hashed_def limba_strtab_count_def t'_def)
  have ub: "unat (of_nat (length (st_bytes t)) :: u32) = length (st_bytes t)"
    "unat (of_nat (length s) :: u32) = length s"
    using room by (simp_all add: unat_of_nat_u32)
  have old: "limba_strtab_get t' (of_nat i) = limba_strtab_get t (of_nat i)" if "i < ?n" for i
  proof -
    show ?thesis
      using strtab_ok_bounds [OF ok that] strtab_ok_ident [OF ok that] that lens by (simp add: limba_strtab_get_def t'_def nth_append)
  qed
  have last: "limba_strtab_get t' (of_nat ?n) = s"
    using un ub lens by (simp add: limba_strtab_get_def t'_def nth_append)
  have len': "length (st_start t') = Suc ?n" by (simp add: t'_def)
  have strs': "strs t' = strs t @ [s]"
    unfolding strs_def len' by (simp add: old last)
  have ends: "unat (st_start t' ! i) + unat (st_len t' ! i) < length (st_bytes t') \<and>
      st_bytes t' ! (unat (st_start t' ! i) + unat (st_len t' ! i)) = 0" if "i < Suc ?n" for i
  proof (cases "i = ?n")
    case True
    then show ?thesis using ub lens by (simp add: t'_def nth_append)
  next
    case False
    then have "i < ?n" using that by simp
    then show ?thesis using strtab_ok_bounds [OF ok, of i] lens by (simp add: t'_def nth_append)
  qed
  have "length (st_bytes t') = (\<Sum>s \<leftarrow> strs t'. length s + 1)"
  proof -
    have "length (st_bytes t') = length (st_bytes t) + (length s + 1)" by (simp add: t'_def)
    also have "\<dots> = (\<Sum>s \<leftarrow> strs t @ [s]. length s + 1)"
      unfolding strtab_ok_bytes [OF ok] by simp
    finally show ?thesis unfolding strs' .
  qed
  moreover have "hash_entries (st_index t') = {(limba_fnv (strs t' ! i) LIMBA_FNV_SEED, of_nat i) |i. i < Suc ?n}"
  proof -
    have "(strs t @ [s]) ! i = strs t ! i" if "i < ?n" for i
      using that by (simp add: nth_append del: nth_strs)
    then have "{(limba_fnv ((strs t @ [s]) ! i) LIMBA_FNV_SEED, of_nat i :: u32) |i. i < Suc ?n} =
        insert (?h, of_nat ?n) {(limba_fnv (strs t ! i) LIMBA_FNV_SEED, of_nat i) |i. i < ?n}"
      unfolding Collect_less_Suc using nth_append_last [of "strs t" s]
      by (intro arg_cong2 [where f = insert] Collect_cong) (simp, metis)
    moreover have "st_index t' = index" by (simp add: t'_def)
    ultimately show ?thesis
      unfolding strs' using index(4) strtab_okD(5) [OF ok] by metis
  qed
  moreover have "distinct (strs t')" using strtab_okD(4) [OF ok] new by (simp add: strs')
  moreover have "length (st_bytes t') \<le> 0xffffffff" using room by (simp add: t'_def)
  moreover have "st_index t' = index" "length (st_len t') = Suc ?n"
    using lens by (simp_all add: t'_def)
  moreover have "hash_ok (st_index t')" "unat (hcount (st_index t')) = Suc ?n"
    using index(2,3) calculation by simp_all
  ultimately have "strtab_ok t'"
    unfolding strtab_ok_def len' using ends by blast
  then show ?thesis using t' strs' by blast
qed

lemma intern_old:
  assumes ok: "strtab_ok t" and old: "i < length (strs t)" "strs t ! i = s"
  shows "limba_strtab_intern t s = Some (t, of_nat i)"
  using find_in_strtab [OF assms] strtab_ok_ident(2) [OF ok, of i] old(1)
  by (simp add: limba_strtab_intern_def limba_strtab_intern_hashed_def)

lemma intern_full:
  assumes "strtab_ok t" "s \<notin> set (strs t)" "length (st_bytes t) + length s + 1 > 0xffffffff"
  shows "limba_strtab_intern t s = None"
  using find_not_in_strtab [OF assms(1,2)] assms(3)
  by (simp add: limba_strtab_intern_def limba_strtab_intern_hashed_def)

section \<open>What interning promises\<close>

text \<open>
  C31: Interning refines a list of distinct strings: a string the table holds keeps its place and nothing
  changes, a new one goes at the end, and the identifier given is the one place of the string.
\<close>

theorem strtab_intern_refines:
  assumes "strtab_ok t" "length (st_bytes t) + length s + 1 \<le> 0xffffffff"
  shows "\<exists>t' i. limba_strtab_intern t s = Some (t', of_nat i) \<and> strtab_ok t' \<and>
    strs t' = (if s \<in> set (strs t) then strs t else strs t @ [s]) \<and> i < length (strs t') \<and>
    limba_strtab_get t' (of_nat i) = s"
proof (cases "s \<in> set (strs t)")
  case True
  then obtain i where i: "i < length (strs t)" "strs t ! i = s" by (metis in_set_conv_nth)
  then show ?thesis
    using intern_old [OF assms(1) i] assms(1) True by (intro exI [of _ t] exI [of _ i]) simp
next
  case False
  obtain t' where t': "limba_strtab_intern t s = Some (t', of_nat (length (strs t)))" "strtab_ok t'" "strs t' = strs t @ [s]"
    using intern_new [OF assms(1) False assms(2)] by blast
  have lt: "length (strs t) < length (strs t')" unfolding t'(3) by simp
  then have "limba_strtab_get t' (of_nat (length (strs t))) = strs t' ! length (strs t)"
    unfolding length_strs [of t'] by (rule nth_strs [symmetric])
  also have "\<dots> = s" unfolding t'(3) by (rule nth_append_last)
  finally show ?thesis
    using t' False lt by (intro exI [of _ t'] exI [of _ "length (strs t)"]) simp
qed

theorem strtab_intern_refines_witness:
  "\<exists>t' i. limba_strtab_intern limba_strtab_new [65] = Some (t', of_nat i) \<and> strs t' = [[65]]"
proof -
  have "st_bytes limba_strtab_new = []" by (simp add: limba_strtab_new_def)
  then show ?thesis
    using strtab_intern_refines [OF strtab_ok_new(1), of "[65]"] by (simp add: strtab_ok_new) blast
qed

text \<open>
  The table refuses a string, without changing, exactly when it is new and its bytes with the final
  zero would take the table past 4 GB; in every other case it gives an identifier.
\<close>

theorem strtab_intern_error:
  assumes "strtab_ok t"
  shows "limba_strtab_intern t s = None \<longleftrightarrow>
    s \<notin> set (strs t) \<and> length (st_bytes t) + length s + 1 > 0xffffffff"
proof (cases "s \<in> set (strs t)")
  case True
  then obtain i where i: "i < length (strs t)" "strs t ! i = s" by (metis in_set_conv_nth)
  then show ?thesis using intern_old [OF assms i] True by simp
next
  case False
  then show ?thesis
    using intern_full [OF assms False] intern_new [OF assms False] by fastforce
qed

theorem strtab_intern_error_witness:
  "limba_strtab_intern limba_strtab_new [65, 66] \<noteq> None"
  using strtab_intern_error [OF strtab_ok_new(1), of "[65, 66]"] by (simp add: limba_strtab_new_def)

end
