(* ===== verification/Bigint.thy ===== *)
theory Bigint
  imports Prelude
begin

text \<open>
  Integers of any size (\<^verbatim>\<open>src/src/common/bigint.c\<close>, first half): a sign and a magnitude in 32-bit
  words, least significant first. A list of words stands for the array \<open>w\<close> with its count \<open>n\<close>.
  The functions of the code write their result through a pointer that may be one of the operands:
  they build it in a temporary and move it, so an operation is here a function from the operands,
  and from the old value of \<open>*r\<close> where it can leave that in place.
\<close>

record limba_big =
  bw :: "u32 list"
  bneg :: bool

definition LIMBA_BIG_MAXBITS :: u64 where
  "LIMBA_BIG_MAXBITS = 16384"

definition limba_big_init :: limba_big where
  "limba_big_init = \<lparr>bw = [], bneg = False\<rparr>"

section \<open>The operations\<close>

definition trim_words :: "u32 list \<Rightarrow> u32 list" where
  "trim_words ws = rev (dropWhile (\<lambda>w. w = 0) (rev ws))"

definition trim :: "limba_big \<Rightarrow> limba_big" where
  "trim a = (let ws = trim_words (bw a) in \<lparr>bw = ws, bneg = (if ws = [] then False else bneg a)\<rparr>)"

definition limba_big_copy :: "limba_big \<Rightarrow> limba_big" where
  "limba_big_copy a = \<lparr>bw = bw a, bneg = bneg a\<rparr>"

definition limba_big_set_u64 :: "u64 \<Rightarrow> limba_big" where
  "limba_big_set_u64 v = trim \<lparr>bw = [ucast v, ucast (drop_bit 32 v)], bneg = False\<rparr>"

definition limba_big_set_i64 :: "u64 \<Rightarrow> limba_big" where
  "limba_big_set_i64 v =
     (let m = (if sint v < 0 then - v else v)
      in (limba_big_set_u64 m)\<lparr>bneg := sint v < 0 \<and> m \<noteq> 0\<rparr>)"

text \<open>The number of leading zero bits of a word (\<open>__builtin_clz\<close>).\<close>

definition clz32 :: "u32 \<Rightarrow> nat" where
  "clz32 w = length (takeWhile (\<lambda>i. \<not> bit w i) (rev [0..<32]))"

definition limba_big_bits :: "limba_big \<Rightarrow> u32" where
  "limba_big_bits a =
     (if bw a = [] then 0
      else (of_nat (length (bw a)) - 1) * 32 + (32 - of_nat (clz32 (last (bw a)))))"

definition limba_big_is_zero :: "limba_big \<Rightarrow> bool" where
  "limba_big_is_zero a \<longleftrightarrow> bw a = []"

definition limba_big_sign :: "limba_big \<Rightarrow> int" where
  "limba_big_sign a = (if bw a = [] then 0 else if bneg a then - 1 else 1)"

text \<open>The comparison loop, from the most significant word down.\<close>

fun words_cmp :: "u32 list \<Rightarrow> u32 list \<Rightarrow> int" where
  "words_cmp (x # xs) (y # ys) = (if x \<noteq> y then (if x < y then - 1 else 1) else words_cmp xs ys)"
| "words_cmp _ _ = 0"

definition mag_cmp :: "limba_big \<Rightarrow> limba_big \<Rightarrow> int" where
  "mag_cmp a b =
     (if length (bw a) \<noteq> length (bw b) then (if length (bw a) < length (bw b) then - 1 else 1)
      else words_cmp (rev (bw a)) (rev (bw b)))"

definition limba_big_cmp :: "limba_big \<Rightarrow> limba_big \<Rightarrow> int" where
  "limba_big_cmp a b =
     (let sa = limba_big_sign a; sb = limba_big_sign b
      in if sa \<noteq> sb then (if sa < sb then - 1 else 1)
         else let m = mag_cmp a b in if sa < 0 then - m else m)"

text \<open>The word at \<open>i\<close> of the shorter operand, 0 past its end.\<close>

definition word_or_0 :: "u32 list \<Rightarrow> u32" where
  "word_or_0 ys = (case ys of [] \<Rightarrow> 0 | y # _ \<Rightarrow> y)"

fun add_words :: "u64 \<Rightarrow> u32 list \<Rightarrow> u32 list \<Rightarrow> u32 list" where
  "add_words carry [] ys = [ucast carry]"
| "add_words carry (x # xs) ys =
     (let carry = carry + (ucast x + ucast (word_or_0 ys))
      in ucast carry # add_words (drop_bit 32 carry) xs (tl ys))"

definition mag_add :: "limba_big \<Rightarrow> limba_big \<Rightarrow> limba_big" where
  "mag_add a b =
     (let (a, b) = (if length (bw a) < length (bw b) then (b, a) else (a, b))
      in trim \<lparr>bw = add_words 0 (bw a) (bw b), bneg = False\<rparr>)"

text \<open>The differences of \<open>mag_sub\<close> stay within 34 bits of the code's \<open>int64_t\<close>.\<close>

fun sub_words :: "int \<Rightarrow> u32 list \<Rightarrow> u32 list \<Rightarrow> u32 list" where
  "sub_words borrow [] ys = []"
| "sub_words borrow (x # xs) ys =
     (let d = int (unat x) - int (unat (word_or_0 ys)) - borrow;
          borrow = (if d < 0 then 1 else 0)
      in of_int (d + (if borrow = 1 then 2 ^ 32 else 0)) # sub_words borrow xs (tl ys))"

definition mag_sub :: "limba_big \<Rightarrow> limba_big \<Rightarrow> limba_big" where
  "mag_sub a b = trim \<lparr>bw = sub_words 0 (bw a) (bw b), bneg = False\<rparr>"

definition fits :: "limba_big \<Rightarrow> u64 \<Rightarrow> bool" where
  "fits a maxbits \<longleftrightarrow> ucast (limba_big_bits a) \<le> maxbits"

definition addsub :: "limba_big \<Rightarrow> limba_big \<Rightarrow> bool \<Rightarrow> u64 \<Rightarrow> bool \<times> limba_big" where
  "addsub a b bneg' maxbits =
     (let t = (if bneg a = bneg' then (mag_add a b)\<lparr>bneg := bneg a\<rparr>
               else if mag_cmp a b \<ge> 0 then (mag_sub a b)\<lparr>bneg := bneg a\<rparr>
               else (mag_sub b a)\<lparr>bneg := bneg'\<rparr>);
          t = trim t
      in (fits t maxbits, t))"

definition limba_big_add_lim :: "limba_big \<Rightarrow> limba_big \<Rightarrow> u64 \<Rightarrow> bool \<times> limba_big" where
  "limba_big_add_lim a b maxbits = addsub a b (bneg b) maxbits"

definition limba_big_sub_lim :: "limba_big \<Rightarrow> limba_big \<Rightarrow> u64 \<Rightarrow> bool \<times> limba_big" where
  "limba_big_sub_lim a b maxbits = addsub a b (if bw b \<noteq> [] then \<not> bneg b else False) maxbits"

definition limba_big_add :: "limba_big \<Rightarrow> limba_big \<Rightarrow> bool \<times> limba_big" where
  "limba_big_add a b = limba_big_add_lim a b LIMBA_BIG_MAXBITS"

definition limba_big_sub :: "limba_big \<Rightarrow> limba_big \<Rightarrow> bool \<times> limba_big" where
  "limba_big_sub a b = limba_big_sub_lim a b LIMBA_BIG_MAXBITS"

definition limba_big_neg :: "limba_big \<Rightarrow> limba_big" where
  "limba_big_neg a = (limba_big_copy a)\<lparr>bneg := if bw a \<noteq> [] then \<not> bneg a else False\<rparr>"

definition limba_big_abs :: "limba_big \<Rightarrow> limba_big" where
  "limba_big_abs a = (limba_big_copy a)\<lparr>bneg := False\<rparr>"

text \<open>
  One row of the schoolbook product: \<open>ts\<close> are the words of the result from position \<open>i\<close> on, to which
  \<open>x\<close> times the words of \<open>b\<close> is added, the carry out replacing the word after them.
\<close>

fun mul_row :: "u64 \<Rightarrow> u32 \<Rightarrow> u32 list \<Rightarrow> u32 list \<Rightarrow> u32 list" where
  "mul_row carry x [] ts = ucast carry # tl ts"
| "mul_row carry x (y # ys) ts =
     (let carry = carry + (ucast x * ucast y + ucast (hd ts))
      in ucast carry # mul_row (drop_bit 32 carry) x ys (tl ts))"

fun mul_rows :: "u32 list \<Rightarrow> u32 list \<Rightarrow> u32 list \<Rightarrow> u32 list" where
  "mul_rows [] ys ts = ts"
| "mul_rows (x # xs) ys ts =
     (let ts = mul_row 0 x ys ts in hd ts # mul_rows xs ys (tl ts))"

definition limba_big_mul_lim :: "limba_big \<Rightarrow> limba_big \<Rightarrow> limba_big \<Rightarrow> u64 \<Rightarrow> bool \<times> limba_big" where
  "limba_big_mul_lim r a b maxbits =
     (if ucast (limba_big_bits a) + ucast (limba_big_bits b) > maxbits + 1 then (False, r)
      else
        let n = length (bw a) + length (bw b);
            t = trim \<lparr>bw = mul_rows (bw a) (bw b) (replicate n 0), bneg = (bneg a \<noteq> bneg b)\<rparr>
        in (fits t maxbits, t))"

definition limba_big_mul :: "limba_big \<Rightarrow> limba_big \<Rightarrow> limba_big \<Rightarrow> bool \<times> limba_big" where
  "limba_big_mul r a b = limba_big_mul_lim r a b LIMBA_BIG_MAXBITS"

text \<open>The shift loop: \<open>t\<close> is what the word before left in the current one.\<close>

fun shl_words :: "nat \<Rightarrow> u32 \<Rightarrow> u32 list \<Rightarrow> u32 list" where
  "shl_words bs t [] = [t]"
| "shl_words bs t (x # xs) =
     (let v = push_bit bs (ucast x :: u64)
      in (t OR ucast v) # shl_words bs (ucast (drop_bit 32 v)) xs)"

definition shl_raw :: "limba_big \<Rightarrow> u32 \<Rightarrow> limba_big" where
  "shl_raw a bits =
     (if bw a = [] then limba_big_set_u64 0
      else let ws = unat bits div 32; bs = unat bits mod 32
           in trim \<lparr>bw = replicate ws 0 @ shl_words bs 0 (bw a), bneg = bneg a\<rparr>)"

definition limba_big_shl_lim :: "limba_big \<Rightarrow> limba_big \<Rightarrow> u32 \<Rightarrow> u64 \<Rightarrow> bool \<times> limba_big" where
  "limba_big_shl_lim r a bits maxbits =
     (if bw a \<noteq> [] \<and> ucast (limba_big_bits a) + ucast bits > maxbits then (False, r)
      else (True, shl_raw a bits))"

definition limba_big_shl :: "limba_big \<Rightarrow> limba_big \<Rightarrow> u32 \<Rightarrow> bool \<times> limba_big" where
  "limba_big_shl r a bits = limba_big_shl_lim r a bits LIMBA_BIG_MAXBITS"

definition limba_big_to_u64 :: "limba_big \<Rightarrow> u64 option" where
  "limba_big_to_u64 a =
     (if bneg a \<or> length (bw a) > 2 then None
      else Some (if length (bw a) = 0 then 0
                 else if length (bw a) = 1 then ucast (bw a ! 0)
                 else push_bit 32 (ucast (bw a ! 1)) OR ucast (bw a ! 0)))"

definition limba_big_to_i64 :: "limba_big \<Rightarrow> u64 option" where
  "limba_big_to_i64 a =
     (case limba_big_to_u64 (a\<lparr>bneg := False\<rparr>) of
        None \<Rightarrow> None
      | Some m \<Rightarrow>
          if bneg a then (if m > push_bit 63 1 then None else Some (0 - m))
          else (if m > 0x7fffffffffffffff then None else Some m))"

section \<open>The value of a number\<close>

fun wval :: "u32 list \<Rightarrow> nat" where
  "wval [] = 0"
| "wval (w # ws) = unat w + 4294967296 * wval ws"

definition mag :: "limba_big \<Rightarrow> nat" where
  "mag a = wval (bw a)"

definition val :: "limba_big \<Rightarrow> int" where
  "val a = (if bneg a then - int (mag a) else int (mag a))"

text \<open>No leading zero word, and no sign for zero.\<close>

definition big_ok :: "limba_big \<Rightarrow> bool" where
  "big_ok a \<longleftrightarrow> (bw a \<noteq> [] \<longrightarrow> last (bw a) \<noteq> 0) \<and> (bw a = [] \<longrightarrow> \<not> bneg a)"


section \<open>Words and their value\<close>

lemma wval_append: "wval (xs @ ys) = wval xs + 4294967296 ^ length xs * wval ys"
  by (induction xs) (simp_all add: algebra_simps)

lemma wval_less: "wval xs < 4294967296 ^ length xs"
proof (induction xs)
  case (Cons x xs)
  have "wval (x # xs) < 4294967296 + 4294967296 * wval xs" by simp
  also have "\<dots> = 4294967296 * Suc (wval xs)" by simp
  also have "\<dots> \<le> 4294967296 * 4294967296 ^ length xs"
    using Cons.IH by (intro mult_le_mono2) simp
  finally show ?case by simp
qed simp

lemma wval_replicate_0 [simp]: "wval (replicate n 0) = 0"
  by (induction n) simp_all

lemma wval_snoc_0 [simp]: "wval (xs @ [0]) = wval xs"
  by (simp add: wval_append)

lemma trim_words_snoc:
  "trim_words (xs @ [x]) = (if x = 0 then trim_words xs else xs @ [x])"
  by (simp add: trim_words_def)

lemma trim_words_Nil [simp]: "trim_words [] = []"
  by (simp add: trim_words_def)

lemma wval_trim [simp]: "wval (trim_words xs) = wval xs"
  by (induction xs rule: rev_induct) (simp_all add: trim_words_snoc)

lemma last_trim: "trim_words xs \<noteq> [] \<Longrightarrow> last (trim_words xs) \<noteq> 0"
  by (induction xs rule: rev_induct) (auto simp: trim_words_snoc split: if_splits)

lemma length_trim: "length (trim_words xs) \<le> length xs"
  by (induction xs rule: rev_induct) (auto simp: trim_words_snoc)

lemma trim_words_id: "(xs \<noteq> [] \<Longrightarrow> last xs \<noteq> 0) \<Longrightarrow> trim_words xs = xs"
  by (cases xs rule: rev_cases) (auto simp: trim_words_snoc)

lemma big_ok_trim [simp]: "big_ok (trim a)"
  by (simp add: big_ok_def trim_def Let_def last_trim)

lemma mag_trim [simp]: "mag (trim a) = mag a"
  by (simp add: mag_def trim_def Let_def)

lemma wval_0_trim: "wval xs = 0 \<longleftrightarrow> trim_words xs = []"
  by (induction xs rule: rev_induct) (auto simp: trim_words_snoc wval_append unat_eq_0)

lemma val_trim [simp]: "val (trim a) = val a"
  by (auto simp: val_def mag_def trim_def Let_def simp flip: wval_0_trim)

lemma mag_0_iff: "big_ok a \<Longrightarrow> mag a = 0 \<longleftrightarrow> bw a = []"
  using trim_words_id [of "bw a"] by (auto simp: mag_def wval_0_trim big_ok_def)

lemma val_0_iff: "big_ok a \<Longrightarrow> val a = 0 \<longleftrightarrow> bw a = []"
  using mag_0_iff by (simp add: val_def)

lemma bneg_iff: "big_ok a \<Longrightarrow> bneg a \<longleftrightarrow> val a < 0"
  using mag_0_iff [of a] by (cases "mag a = 0") (auto simp: val_def big_ok_def)

lemma mag_val: "mag a = nat \<bar>val a\<bar>"
  by (simp add: val_def)

text \<open>A magnitude with no leading zero word is determined by its value, and so is a number.\<close>

lemma wval_ge: "xs \<noteq> [] \<Longrightarrow> last xs \<noteq> 0 \<Longrightarrow> 4294967296 ^ (length xs - 1) \<le> wval xs"
proof (cases xs rule: rev_cases)
  case (snoc ys y)
  assume "last xs \<noteq> 0"
  then have "0 < unat y" using snoc by (simp add: unat_gt_0)
  then show ?thesis using snoc by (simp add: wval_append trans_le_add2)
qed simp

lemma length_less_wval:
  assumes "length xs < length ys" "last ys \<noteq> 0"
  shows "wval xs < wval ys"
proof -
  have "ys \<noteq> []" using assms(1) by auto
  have "wval xs < 4294967296 ^ length xs" by (rule wval_less)
  also have "\<dots> \<le> 4294967296 ^ (length ys - 1)" using assms(1) by (intro power_increasing) auto
  also have "\<dots> \<le> wval ys" by (rule wval_ge [OF \<open>ys \<noteq> []\<close> assms(2)])
  finally show ?thesis .
qed

lemma wval_inj: "length xs = length ys \<Longrightarrow> wval xs = wval ys \<Longrightarrow> xs = ys"
proof (induction xs ys rule: list_induct2)
  case (Cons x xs y ys)
  have split: "wval (w # ws) mod 4294967296 = unat w" "wval (w # ws) div 4294967296 = wval ws" for w ws
    by (simp_all add: mod_less div_less)
  have m: "unat x = unat y" "wval xs = wval ys"
    using split [of x xs] split [of y ys] Cons.prems by metis+
  then show ?case using Cons.IH by (simp add: unsigned_word_eqI)
qed simp

lemma big_eqI:
  assumes "big_ok a" "big_ok b" "val a = val b"
  shows "a = b"
proof -
  have sign: "bneg a = bneg b" using assms bneg_iff by metis
  have "mag a = mag b" using assms(3) by (simp add: mag_val)
  then have m: "wval (bw a) = wval (bw b)" by (simp add: mag_def)
  have "length (bw a) = length (bw b)"
  proof (rule linorder_cases)
    assume "length (bw a) < length (bw b)"
    then show ?thesis using length_less_wval [of "bw a" "bw b"] m assms(2) by (auto simp: big_ok_def)
  next
    assume "length (bw b) < length (bw a)"
    then show ?thesis using length_less_wval [of "bw b" "bw a"] m assms(1) by (auto simp: big_ok_def)
  qed
  then have "bw a = bw b" using m by (rule wval_inj)
  then show ?thesis using sign by (simp add: limba_big.equality)
qed

section \<open>Bits\<close>

lemma takeWhile_rev_upt:
  "n \<le> m \<Longrightarrow> (\<And>i. n \<le> i \<Longrightarrow> i < m \<Longrightarrow> \<not> P i) \<Longrightarrow> (n = 0 \<or> P (n - 1)) \<Longrightarrow>
   length (takeWhile (\<lambda>i. \<not> P i) (rev [0..<m])) = m - n"
proof (induction m)
  case (Suc m)
  then show ?case
    by (cases "n = Suc m") (auto simp: Suc_diff_le)
qed simp

lemma top_bit:
  assumes "w \<noteq> (0 :: u32)"
  obtains n where "0 < n" "n \<le> 32" "bit w (n - 1)" "\<And>i. n \<le> i \<Longrightarrow> \<not> bit w i"
proof -
  define n where "n = Max {i. bit w i}"
  have fin: "finite {i. bit w i}"
    by (rule finite_subset [of _ "{..<32}"]) (auto dest: bit_imp_le_length)
  have "{i. bit w i} \<noteq> {}"
    using assms by (auto simp: bit_eq_iff)
  then have "bit w n" using Max_in [OF fin] by (auto simp: n_def)
  moreover have "\<not> bit w i" if "Suc n \<le> i" for i
  proof
    assume "bit w i"
    then have "i \<le> n" unfolding n_def by (intro Max_ge [OF fin]) simp
    then show False using that by simp
  qed
  ultimately show thesis using that [of "Suc n"] by (auto dest: bit_imp_le_length)
qed

lemma clz32_spec:
  assumes "w \<noteq> 0"
  shows "clz32 w < 32" "2 ^ (31 - clz32 w) \<le> unat w" "unat w < 2 ^ (32 - clz32 w)"
proof -
  obtain n where n: "0 < n" "n \<le> 32" "bit w (n - 1)" "\<And>i. n \<le> i \<Longrightarrow> \<not> bit w i"
    using top_bit [OF assms] by metis
  have c: "clz32 w = 32 - n"
    unfolding clz32_def by (rule takeWhile_rev_upt) (use n in auto)
  then show "clz32 w < 32" using n(1) by simp
  have "take_bit n w = w" by (rule bit_word_eqI) (use n(4) not_less in \<open>auto simp: bit_take_bit_iff\<close>)
  then have "take_bit n (unat w) = unat w" by (metis unsigned_take_bit_eq)
  then have "unat w < 2 ^ n" by (simp add: take_bit_nat_eq_self_iff)
  then show "unat w < 2 ^ (32 - clz32 w)" using c n(2) by simp
  have "bit (unat w) (n - 1)" using n(1,2,3) by (simp add: bit_unsigned_iff)
  then have "\<not> unat w < 2 ^ (n - 1)"
    by (metis bit_take_bit_iff less_irrefl take_bit_nat_eq_self)
  moreover have "31 - clz32 w = n - 1" using c n(1,2) by simp
  ultimately show "2 ^ (31 - clz32 w) \<le> unat w" by simp
qed

text \<open>
  Numbers of fewer than \<open>2 ^ 27\<close> words: their count of bits fits the 32 bits of \<open>limba_big_bits\<close>, which
  wraps beyond (\<open>big_root_wraps\<close> in \<open>Bignum\<close> shows what that does).
\<close>

definition small :: "limba_big \<Rightarrow> bool" where
  "small a \<longleftrightarrow> length (bw a) < 2 ^ 27"

lemma bits_snoc:
  assumes "bw a = ws @ [w]" "small a" "w \<noteq> 0"
  shows "unat (limba_big_bits a) = 32 * length ws + (32 - clz32 w)"
proof -
  have n: "length ws < 134217727" using assms(1,2) by (simp add: small_def)
  have c: "clz32 w < 32" by (rule clz32_spec(1) [OF assms(3)])
  have "(32 - of_nat (clz32 w) :: u32) = of_nat (32 - clz32 w)" using c by simp
  then have "limba_big_bits a = of_nat (32 * length ws + (32 - clz32 w))"
    using assms(1) by (simp add: limba_big_bits_def algebra_simps)
  moreover have "32 * length ws + (32 - clz32 w) < 4294967296" using n by simp
  ultimately show ?thesis using unat_of_nat_u32 by presburger
qed

lemma bits_bounds:
  assumes "big_ok a" "small a" "mag a \<noteq> 0"
  shows "0 < unat (limba_big_bits a)" "2 ^ (unat (limba_big_bits a) - 1) \<le> mag a"
    "mag a < 2 ^ unat (limba_big_bits a)"
proof -
  have ne: "bw a \<noteq> []" using mag_0_iff [OF assms(1)] assms(3) by simp
  then obtain ws w where w: "bw a = ws @ [w]" by (cases "bw a" rule: rev_cases) auto
  have "w \<noteq> 0" using assms(1) ne w by (simp add: big_ok_def)
  note b = bits_snoc [OF w assms(2) this] and c = clz32_spec [OF this]
  have p: "(2 :: nat) ^ (32 * length ws) = 4294967296 ^ length ws" by (simp add: power_mult)
  have m: "mag a = wval ws + 2 ^ (32 * length ws) * unat w"
    using w by (simp add: mag_def wval_append p)
  show "0 < unat (limba_big_bits a)" using b c(1) by simp
  have "unat (limba_big_bits a) - 1 = 32 * length ws + (31 - clz32 w)" using b c(1) by simp
  then have "2 ^ (unat (limba_big_bits a) - 1) = 2 ^ (32 * length ws) * (2 :: nat) ^ (31 - clz32 w)"
    by (simp add: power_add)
  also have "\<dots> \<le> 2 ^ (32 * length ws) * unat w" using c(2) by (rule mult_le_mono2)
  finally show "2 ^ (unat (limba_big_bits a) - 1) \<le> mag a" using m by simp
  have "wval ws < 2 ^ (32 * length ws)" using wval_less [of ws] p by simp
  then have "mag a < 2 ^ (32 * length ws) * Suc (unat w)" using m by simp
  also have "\<dots> \<le> 2 ^ (32 * length ws) * 2 ^ (32 - clz32 w)" using c(3) by (intro mult_le_mono2) simp
  also have "\<dots> = 2 ^ unat (limba_big_bits a)" using b by (simp add: power_add)
  finally show "mag a < 2 ^ unat (limba_big_bits a)" .
qed

lemma bits_0: "mag a = 0 \<Longrightarrow> big_ok a \<Longrightarrow> limba_big_bits a = 0"
  by (simp add: mag_0_iff limba_big_bits_def)

lemma bits_le_iff:
  assumes "big_ok a" "small a"
  shows "unat (limba_big_bits a) \<le> n \<longleftrightarrow> mag a < 2 ^ n"
proof (cases "mag a = 0")
  case True
  then show ?thesis using bits_0 assms by simp
next
  case False
  note b = bits_bounds [OF assms False]
  show ?thesis
  proof
    assume "unat (limba_big_bits a) \<le> n"
    then have "(2 :: nat) ^ unat (limba_big_bits a) \<le> 2 ^ n" by (intro power_increasing) auto
    with b(3) show "mag a < 2 ^ n" by (rule less_le_trans)
  next
    assume "mag a < 2 ^ n"
    with b(2) have "(2 :: nat) ^ (unat (limba_big_bits a) - 1) < 2 ^ n" by (rule le_less_trans)
    then have "unat (limba_big_bits a) - 1 < n" by simp
    then show "unat (limba_big_bits a) \<le> n" using b(1) by simp
  qed
qed

lemma fits_iff: "big_ok a \<Longrightarrow> small a \<Longrightarrow> fits a maxbits \<longleftrightarrow> mag a < 2 ^ unat maxbits"
  by (simp add: fits_def word_le_nat_alt bits_le_iff)


section \<open>Comparing\<close>

lemma words_cmp_val:
  "length xs = length ys \<Longrightarrow>
   words_cmp xs ys = sgn (int (wval (rev xs)) - int (wval (rev ys)))"
proof (induction xs ys rule: list_induct2)
  case (Cons x xs y ys)
  let ?B = "4294967296 ^ length xs :: nat"
  have lt: "wval (rev us) + ?B * unat u < wval (rev vs) + ?B * unat v"
    if "unat u < unat v" "length us = length xs" for u v :: u32 and us vs
  proof -
    have "wval (rev us) < ?B" using wval_less [of "rev us"] that(2) by simp
    then have "wval (rev us) + ?B * unat u < ?B * Suc (unat u)" by simp
    also have "\<dots> \<le> ?B * unat v" using that(1) by (intro mult_le_mono2) simp
    finally show ?thesis by simp
  qed
  have v: "wval (rev (x # xs)) = wval (rev xs) + ?B * unat x" "wval (rev (y # ys)) = wval (rev ys) + ?B * unat y"
    using Cons.hyps by (simp_all add: wval_append)
  consider "x = y" | "x < y" | "y < x" by (rule linorder_cases [of x y]) auto
  then show ?case
  proof cases
    case 1
    then show ?thesis using Cons.IH v by simp
  next
    case 2
    then have "wval (rev (x # xs)) < wval (rev (y # ys))"
      unfolding v by (intro lt) (simp_all add: word_less_nat_alt)
    then show ?thesis using 2 by auto
  next
    case 3
    then have "wval (rev (y # ys)) < wval (rev (x # xs))"
      unfolding v by (intro lt) (simp_all add: word_less_nat_alt Cons.hyps)
    moreover have "\<not> x < y" "x \<noteq> y" using 3 by auto
    ultimately show ?thesis by simp
  qed
qed simp

lemma mag_cmp_val:
  assumes "big_ok a" "big_ok b"
  shows "mag_cmp a b = sgn (int (mag a) - int (mag b))"
proof -
  consider "length (bw a) = length (bw b)" | "length (bw a) < length (bw b)" | "length (bw b) < length (bw a)"
    by linarith
  then show ?thesis
  proof cases
    case 1
    then show ?thesis by (simp add: mag_cmp_def mag_def words_cmp_val)
  next
    case 2
    then have "wval (bw a) < wval (bw b)" using assms(2) by (intro length_less_wval) (auto simp: big_ok_def)
    then show ?thesis using 2 by (simp add: mag_cmp_def mag_def)
  next
    case 3
    then have "wval (bw b) < wval (bw a)" using assms(1) by (intro length_less_wval) (auto simp: big_ok_def)
    then show ?thesis using 3 by (simp add: mag_cmp_def mag_def)
  qed
qed

lemma mag_cmp_ge: "big_ok a \<Longrightarrow> big_ok b \<Longrightarrow> 0 \<le> mag_cmp a b \<longleftrightarrow> mag b \<le> mag a"
  by (simp add: mag_cmp_val sgn_if)

lemma sign_val: "big_ok a \<Longrightarrow> limba_big_sign a = sgn (val a)"
  using mag_0_iff [of a] bneg_iff [of a] by (auto simp: limba_big_sign_def val_def sgn_if)

lemma cmp_val:
  assumes "big_ok a" "big_ok b"
  shows "limba_big_cmp a b = sgn (val a - val b)"
  using bneg_iff [OF assms(1)] bneg_iff [OF assms(2)]
  by (auto simp: limba_big_cmp_def Let_def sign_val assms mag_cmp_val mag_val sgn_if abs_if split: if_splits)

section \<open>Adding and subtracting\<close>

lemma int_unat_of_int_u32:
  assumes "0 \<le> d" "d < 4294967296"
  shows "int (unat (of_int d :: u32)) = d"
proof -
  have "uint (of_int d :: u32) = d"
    using assms by (simp only: uint_word_of_int take_bit_eq_mod) simp
  then show ?thesis by simp
qed

lemma word_or_0_tl: "wval ys = unat (word_or_0 ys) + 4294967296 * wval (tl ys)"
  by (cases ys) (simp_all add: word_or_0_def)

text \<open>A 64-bit accumulator is its low word and what carries over.\<close>

lemma carry_split: "unat (ucast (c :: u64) :: u32) + 4294967296 * unat (drop_bit 32 c) = unat c"
  using div_mult_mod_eq [of "unat c" 4294967296]
  by (simp add: unat_ucast_u64_u32 unat_drop_bit)

lemma unat_shift32: "unat (drop_bit 32 (c :: u64)) = unat c div 4294967296"
  by (simp add: unat_drop_bit)

lemma add_words_val:
  "length ys \<le> length xs \<Longrightarrow> unat c \<le> 1 \<Longrightarrow> wval (add_words c xs ys) = unat c + wval xs + wval ys"
proof (induction c xs ys rule: add_words.induct)
  case (1 c ys)
  then show ?case by (simp add: unat_ucast_u64_u32)
next
  case (2 c x xs ys)
  let ?c = "c + (ucast x + ucast (word_or_0 ys)) :: u64"
  have b: "unat x < 4294967296" "unat (word_or_0 ys) < 4294967296" by simp_all
  have s: "unat (ucast x + ucast (word_or_0 ys) :: u64) = unat x + unat (word_or_0 ys)"
    using unat_add_u64 [of "ucast x" "ucast (word_or_0 ys)"] b by simp
  then have u: "unat ?c = unat c + unat x + unat (word_or_0 ys)"
    using unat_add_u64 [of c "ucast x + ucast (word_or_0 ys)"] b 2(3) by simp
  then have "unat ?c < 2 * 4294967296" using b 2(3) by linarith
  then have "unat (drop_bit 32 ?c) \<le> 1" using less_mult_imp_div_less unfolding unat_shift32 by fastforce
  then have "wval (add_words (drop_bit 32 ?c) xs (tl ys)) = unat (drop_bit 32 ?c) + wval xs + wval (tl ys)"
    using 2(1) [OF refl] 2(2) by simp
  then have "wval (add_words c (x # xs) ys) =
      unat (ucast ?c :: u32) + 4294967296 * unat (drop_bit 32 ?c) + 4294967296 * wval xs + 4294967296 * wval (tl ys)"
    by (simp add: Let_def algebra_simps)
  then show ?case unfolding carry_split u using word_or_0_tl [of ys] by simp
qed

lemma length_add_words [simp]: "length (add_words c xs ys) = Suc (length xs)"
  by (induction c xs ys rule: add_words.induct) (simp_all add: Let_def)

lemma length_sub_words [simp]: "length (sub_words b xs ys) = length xs"
  by (induction b xs ys rule: sub_words.induct) (simp_all add: Let_def)

lemma borrow_range:
  assumes "0 \<le> x" "x < 4294967296" "0 \<le> y" "y < 4294967296" "b = 0 \<or> b = (1 :: int)"
  shows "0 \<le> x - y - b + 4294967296 * (if x - y - b < 0 then 1 else 0)"
    "x - y - b + 4294967296 * (if x - y - b < 0 then 1 else 0) < 4294967296"
  using assms by auto

lemma sub_words_val:
  "length ys \<le> length xs \<Longrightarrow> b = 0 \<or> b = 1 \<Longrightarrow>
   \<exists>k. (k = 0 \<or> k = 1) \<and>
     int (wval (sub_words b xs ys)) = int (wval xs) - int (wval ys) - b + 4294967296 ^ length xs * k"
proof (induction b xs ys rule: sub_words.induct)
  case (1 b ys)
  then show ?case by auto
next
  case (2 b x xs ys)
  let ?d = "int (unat x) - int (unat (word_or_0 ys)) - b"
  let ?b = "if ?d < 0 then 1 else 0 :: int"
  let ?w = "of_int (?d + (if ?b = 1 then 2 ^ 32 else 0)) :: u32"
  have "int (unat x) < 4294967296" "int (unat (word_or_0 ys)) < 4294967296"
    by (simp_all del: unat_u32_lt)
  then have "0 \<le> ?d + 4294967296 * ?b" "?d + 4294967296 * ?b < 4294967296"
    using borrow_range [of "int (unat x)" "int (unat (word_or_0 ys))" b] 2(3) by presburger+
  then have "int (unat (of_int (?d + 4294967296 * ?b) :: u32)) = ?d + 4294967296 * ?b"
    by (rule int_unat_of_int_u32)
  moreover have "?w = of_int (?d + 4294967296 * ?b)" by simp
  ultimately have w: "int (unat ?w) = ?d + 4294967296 * ?b" by presburger
  obtain k where k: "k = 0 \<or> k = (1 :: int)" "int (wval (sub_words ?b xs (tl ys))) =
      int (wval xs) - int (wval (tl ys)) - ?b + 4294967296 ^ length xs * k"
  proof -
    have "length (tl ys) \<le> length xs" "?b = 0 \<or> ?b = 1" using 2(2) by auto
    then show thesis using 2(1) [OF refl refl] that by blast
  qed
  have "sub_words b (x # xs) ys = ?w # sub_words ?b xs (tl ys)"
    by (simp add: Let_def)
  then have "int (wval (sub_words b (x # xs) ys)) = int (unat ?w) + 4294967296 * int (wval (sub_words ?b xs (tl ys)))"
    by simp
  also have "\<dots> = int (wval (x # xs)) - int (wval ys) - b + 4294967296 ^ length (x # xs) * k"
    unfolding w k(2) using word_or_0_tl [of ys] by (simp add: algebra_simps)
  finally show ?case using k(1) by blast
qed

lemma mag_add_val: "mag (mag_add a b) = mag a + mag b" "big_ok (mag_add a b)" "\<not> bneg (mag_add a b)"
  unfolding mag_add_def
  by (auto simp: Let_def mag_def add_words_val trim_def)
     (auto simp: big_ok_def last_trim)

lemma mag_sub_val:
  assumes "big_ok a" "big_ok b" "mag b \<le> mag a"
  shows "mag (mag_sub a b) = mag a - mag b" "big_ok (mag_sub a b)" "\<not> bneg (mag_sub a b)"
proof -
  have len: "length (bw b) \<le> length (bw a)"
    using assms length_less_wval [of "bw a" "bw b"] by (fastforce simp: mag_def big_ok_def not_le [symmetric])
  obtain k where k: "k = 0 \<or> k = (1 :: int)" "int (wval (sub_words 0 (bw a) (bw b))) =
      int (mag a) - int (mag b) + 4294967296 ^ length (bw a) * k"
    using sub_words_val [OF len, of 0] by (auto simp: mag_def)
  have "int (wval (sub_words 0 (bw a) (bw b))) < 4294967296 ^ length (bw a)"
    using wval_less [of "sub_words 0 (bw a) (bw b)"] by (simp flip: of_nat_less_iff)
  then have "k = 0" using k assms(3) by auto
  then have "wval (sub_words 0 (bw a) (bw b)) = mag a - mag b" using k(2) assms(3) by (simp add: nat_diff_distrib')
  then show "mag (mag_sub a b) = mag a - mag b"
    by (simp add: mag_sub_def) (simp add: mag_def)
qed (simp_all add: mag_sub_def, simp add: trim_def Let_def)

lemma small_add: "length (bw (mag_add a b)) \<le> Suc (max (length (bw a)) (length (bw b)))"
proof -
  have "length (bw (trim c)) \<le> length (bw c)" for c by (simp add: trim_def Let_def length_trim)
  from this [of "\<lparr>bw = add_words 0 (bw a) (bw b), bneg = False\<rparr>"]
    this [of "\<lparr>bw = add_words 0 (bw b) (bw a), bneg = False\<rparr>"]
  show ?thesis by (auto simp: mag_add_def Let_def max_def)
qed

lemma addsub_val:
  assumes a: "big_ok a" and b: "big_ok b"
    and r: "addsub a b neg' maxbits = (ok, r)"
  shows "val r = val a + (if neg' then - int (mag b) else int (mag b))" "big_ok r" "ok = fits r maxbits"
proof -
  define t where "t = (if bneg a = neg' then (mag_add a b)\<lparr>bneg := bneg a\<rparr>
      else if mag_cmp a b \<ge> 0 then (mag_sub a b)\<lparr>bneg := bneg a\<rparr> else (mag_sub b a)\<lparr>bneg := neg'\<rparr>)"
  have r: "r = trim t" "ok = fits r maxbits" using r by (auto simp: addsub_def Let_def t_def)
  have "val t = val a + (if neg' then - int (mag b) else int (mag b))"
    using mag_add_val(1) [of a b] mag_sub_val(1) [OF a b] mag_sub_val(1) [OF b a]
    by (auto simp: t_def val_def mag_def [of "_ \<lparr>bneg := _\<rparr>"] mag_cmp_ge a b
        simp flip: mag_def split: if_splits)
  then show "val r = val a + (if neg' then - int (mag b) else int (mag b))" "big_ok r" "ok = fits r maxbits"
    using r by simp_all
qed

lemma add_lim_val:
  assumes "big_ok a" "big_ok b" "limba_big_add_lim a b maxbits = (ok, r)"
  shows "val r = val a + val b" "big_ok r" "ok = fits r maxbits"
  using addsub_val [OF assms(1,2) assms(3) [unfolded limba_big_add_lim_def]] by (simp_all add: val_def)

lemma sub_lim_val:
  assumes "big_ok a" "big_ok b" "limba_big_sub_lim a b maxbits = (ok, r)"
  shows "val r = val a - val b" "big_ok r" "ok = fits r maxbits"
  using addsub_val [OF assms(1,2) assms(3) [unfolded limba_big_sub_lim_def]] assms(2)
  by (auto simp: val_def mag_0_iff big_ok_def split: if_splits)

lemma neg_val: "big_ok a \<Longrightarrow> val (limba_big_neg a) = - val a" "big_ok a \<Longrightarrow> big_ok (limba_big_neg a)"
  by (auto simp: limba_big_neg_def limba_big_copy_def val_def mag_def big_ok_def)

lemma abs_val: "val (limba_big_abs a) = \<bar>val a\<bar>" "big_ok a \<Longrightarrow> big_ok (limba_big_abs a)"
  "mag (limba_big_abs a) = mag a" "bw (limba_big_abs a) = bw a"
  by (auto simp: limba_big_abs_def limba_big_copy_def val_def mag_def big_ok_def)


section \<open>Multiplying and shifting\<close>

lemma mul_acc_bound:
  assumes "unat c < 4294967296"
  shows "unat (c + (ucast x * ucast y + ucast z) :: u64) = unat c + unat (x :: u32) * unat (y :: u32) + unat (z :: u32)"
    "unat (drop_bit 32 (c + (ucast x * ucast y + ucast z) :: u64)) < 4294967296"
proof -
  have "unat x * unat y \<le> 4294967295 * 4294967295"
    using unat_u32_lt [of x] unat_u32_lt [of y] by (intro mult_le_mono) linarith+
  then have p: "unat x * unat y \<le> 18446744065119617025" by simp
  have "unat (ucast x * ucast y :: u64) = unat x * unat y"
    using p by (subst unat_mult_u64) simp_all
  moreover have z: "unat x * unat y + unat z \<le> 18446744069414584320"
    using p unat_u32_lt [of z] by linarith
  ultimately have "unat (ucast x * ucast y + ucast z :: u64) = unat x * unat y + unat z"
    using unat_add_u64 [of "ucast x * ucast y" "ucast z"] by simp
  then show "unat (c + (ucast x * ucast y + ucast z) :: u64) = unat c + unat x * unat y + unat z"
    using z assms unat_add_u64 [of c "ucast x * ucast y + ucast z"] by simp
qed (use unat_u64_lt in \<open>simp add: unat_shift32 less_mult_imp_div_less\<close>)

lemma mul_row_val:
  "length us = length ys \<Longrightarrow> unat c < 4294967296 \<Longrightarrow>
   \<exists>vs. mul_row c x ys (us @ z # zs) = vs @ zs \<and> length vs = Suc (length ys) \<and>
     wval vs = unat c + unat x * wval ys + wval us"
proof (induction ys arbitrary: c us)
  case Nil
  then show ?case by (intro exI [of _ "[ucast c]"]) (simp add: unat_ucast_u64_u32)
next
  case (Cons y ys)
  then obtain u us' where us: "us = u # us'" "length us' = length ys" by (cases us) auto
  let ?c = "c + (ucast x * ucast y + ucast u) :: u64"
  note acc = mul_acc_bound [OF Cons.prems(2), of x y u]
  obtain vs where vs: "mul_row (drop_bit 32 ?c) x ys (us' @ z # zs) = vs @ zs" "length vs = Suc (length ys)"
      "wval vs = unat (drop_bit 32 ?c) + unat x * wval ys + wval us'"
    using Cons.IH [OF us(2) acc(2)] by blast
  have "wval (ucast ?c # vs) = unat (ucast ?c :: u32) + 4294967296 * unat (drop_bit 32 ?c) +
      4294967296 * (unat x * wval ys) + 4294967296 * wval us'"
    using vs(3) by (simp add: algebra_simps)
  also have "\<dots> = unat c + unat x * wval (y # ys) + wval us"
    unfolding carry_split acc(1) us(1) by (simp add: algebra_simps)
  finally show ?case
    using vs(1,2) us(1) by (intro exI [of _ "ucast ?c # vs"]) (simp add: Let_def)
qed

lemma mul_rows_val:
  "length us = length ys \<Longrightarrow>
   wval (mul_rows xs ys (us @ replicate (length xs) 0)) = wval us + wval xs * wval ys \<and>
   length (mul_rows xs ys (us @ replicate (length xs) 0)) = length xs + length ys"
proof (induction xs arbitrary: us)
  case (Cons x xs)
  obtain vs where vs: "mul_row 0 x ys (us @ 0 # replicate (length xs) 0) = vs @ replicate (length xs) 0"
      "length vs = Suc (length ys)" "wval vs = unat x * wval ys + wval us"
    using mul_row_val [OF Cons.prems, of 0 x 0 "replicate (length xs) 0"] by auto
  then obtain v vs' where v: "vs = v # vs'" "length vs' = length ys" by (cases vs) auto
  note IH = Cons.IH [OF v(2)]
  have "mul_rows (x # xs) ys (us @ replicate (length (x # xs)) 0) =
      v # mul_rows xs ys (vs' @ replicate (length xs) 0)"
    using vs(1) v(1) by (simp add: Let_def)
  moreover have "unat v + 4294967296 * wval vs' = unat x * wval ys + wval us"
    using vs(3) v(1) by simp
  ultimately show ?case using IH by (simp add: algebra_simps)
qed simp

lemma mul_words_val: "wval (mul_rows xs ys (replicate (length xs + length ys) 0)) = wval xs * wval ys"
  using mul_rows_val [of "replicate (length ys) 0" ys xs]
  by (simp add: replicate_add [symmetric] add.commute)

text \<open>
  Up to this limit on the bits of a number the 32-bit count of \<open>limba_big_bits\<close> is exact for all that
  the operations compute: what the limit lets through, and the sums and products it then rejects.
  Under a larger limit the count is exact as long as the result itself is below this many bits.
\<close>

definition MAXBITS_EXACT :: nat where
  "MAXBITS_EXACT = 4294967200"

definition within :: "u64 \<Rightarrow> limba_big \<Rightarrow> bool" where
  "within maxbits a \<longleftrightarrow> big_ok a \<and> mag a < 2 ^ unat maxbits"

lemma small_if_bits:
  assumes "big_ok a" "mag a < 2 ^ n" "n \<le> MAXBITS_EXACT + 64"
  shows "small a"
proof (rule ccontr)
  assume "\<not> small a"
  then have len: "134217728 \<le> length (bw a)" by (simp add: small_def)
  then have "bw a \<noteq> []" by auto
  then have "4294967296 ^ (length (bw a) - 1) \<le> wval (bw a)"
    using assms(1) by (intro wval_ge) (auto simp: big_ok_def)
  then have "(2 :: nat) ^ (32 * (length (bw a) - 1)) \<le> wval (bw a)" by (simp add: power_mult)
  then have "(2 :: nat) ^ (32 * (length (bw a) - 1)) < 2 ^ n"
    using assms(2) unfolding mag_def by (rule le_less_trans)
  then have "32 * (length (bw a) - 1) < n" by (rule power_less_imp_less_exp [rotated]) simp
  then show False using len assms(3) by (simp add: MAXBITS_EXACT_def)
qed

lemma small_iff: "big_ok a \<Longrightarrow> small a \<longleftrightarrow> mag a < 2 ^ (MAXBITS_EXACT + 64)"
proof
  assume "small a"
  have "mag a < 4294967296 ^ length (bw a)" unfolding mag_def by (rule wval_less)
  also have "(4294967296 :: nat) ^ length (bw a) = 2 ^ (32 * length (bw a))" by (simp add: power_mult)
  also have "\<dots> \<le> 2 ^ (MAXBITS_EXACT + 64)"
    using \<open>small a\<close> by (intro power_increasing) (simp_all add: small_def MAXBITS_EXACT_def)
  finally show "mag a < 2 ^ (MAXBITS_EXACT + 64)" .
qed (use small_if_bits [of a "MAXBITS_EXACT + 64"] in simp)

lemma small_mono: "big_ok a \<Longrightarrow> big_ok b \<Longrightarrow> small b \<Longrightarrow> mag a \<le> mag b \<Longrightarrow> small a"
  by (simp add: small_iff)

text \<open>The value \<open>v\<close> is one of which the count of bits is exact under the limit.\<close>

definition counted :: "u64 \<Rightarrow> nat \<Rightarrow> bool" where
  "counted maxbits v \<longleftrightarrow> unat maxbits \<le> MAXBITS_EXACT \<or> v < 2 ^ MAXBITS_EXACT"

lemma counted_le: "counted mb w \<Longrightarrow> v \<le> w \<Longrightarrow> counted mb v"
  by (auto simp: counted_def)

lemma counted_0 [simp]: "counted mb 0"
  by (simp add: counted_def)

lemma counted_pow: "v < 2 ^ k \<Longrightarrow> k \<le> 64 \<Longrightarrow> counted mb v"
  unfolding counted_def
  by (rule disjI2, rule less_le_trans [OF _ power_increasing [of k]]) (simp_all add: MAXBITS_EXACT_def del: power_numeral)

lemma counted_small:
  assumes "big_ok a" "counted mb (mag a)" "mag a < 2 ^ (unat mb + 1)"
  shows "small a"
proof (cases "unat mb \<le> MAXBITS_EXACT")
  case True
  then show ?thesis using assms by (intro small_if_bits [of a "unat mb + 1"]) simp_all
next
  case False
  then show ?thesis using assms by (intro small_if_bits [of a MAXBITS_EXACT]) (simp_all add: counted_def)
qed

lemma within_small: "within mb a \<Longrightarrow> unat mb \<le> MAXBITS_EXACT \<Longrightarrow> small a"
  using small_if_bits [of a "unat mb"] by (simp add: within_def)

lemma within_le: "within mb a \<Longrightarrow> unat mb \<le> unat mb' \<Longrightarrow> within mb' a"
  unfolding within_def by (meson less_le_trans one_le_numeral power_increasing)

lemma add_lim_within:
  assumes "within mb a" "within mb b" "unat mb \<le> MAXBITS_EXACT" "limba_big_add_lim a b mb = (ok, r)"
  shows "val r = val a + val b" "big_ok r" "ok \<longleftrightarrow> within mb r"
proof -
  have ok: "big_ok a" "big_ok b" using assms(1,2) by (simp_all add: within_def)
  note r = add_lim_val [OF ok assms(4)]
  show "val r = val a + val b" "big_ok r" by (rule r)+
  have "mag r \<le> mag a + mag b" using r(1) by (simp add: mag_val)
  also have "\<dots> < 2 ^ Suc (unat mb)" using assms(1,2) by (simp add: within_def)
  finally have "small r" using r(2) assms(3) by (intro small_if_bits [of r "Suc (unat mb)"]) simp_all
  then show "ok \<longleftrightarrow> within mb r" using r by (simp add: fits_iff within_def)
qed

lemma sub_lim_within:
  assumes "within mb a" "within mb b" "unat mb \<le> MAXBITS_EXACT" "limba_big_sub_lim a b mb = (ok, r)"
  shows "val r = val a - val b" "big_ok r" "ok \<longleftrightarrow> within mb r"
proof -
  have ok: "big_ok a" "big_ok b" using assms(1,2) by (simp_all add: within_def)
  note r = sub_lim_val [OF ok assms(4)]
  show "val r = val a - val b" "big_ok r" by (rule r)+
  have "mag r \<le> mag a + mag b" using r(1) by (simp add: mag_val)
  also have "\<dots> < 2 ^ Suc (unat mb)" using assms(1,2) by (simp add: within_def)
  finally have "small r" using r(2) assms(3) by (intro small_if_bits [of r "Suc (unat mb)"]) simp_all
  then show "ok \<longleftrightarrow> within mb r" using r by (simp add: fits_iff within_def)
qed

lemma mul_early:
  assumes "big_ok a" "small a" "big_ok b" "small b" "n + 1 < unat (limba_big_bits a) + unat (limba_big_bits b)"
  shows "mag a \<noteq> 0 \<Longrightarrow> mag b \<noteq> 0 \<Longrightarrow> 2 ^ n \<le> mag a * mag b"
proof -
  assume nz: "mag a \<noteq> 0" "mag b \<noteq> 0"
  note a = bits_bounds [OF assms(1,2) nz(1)] and b = bits_bounds [OF assms(3,4) nz(2)]
  have "(2 :: nat) ^ n \<le> 2 ^ (unat (limba_big_bits a) - 1 + (unat (limba_big_bits b) - 1))"
    using assms(5) a(1) b(1) by (intro power_increasing) simp_all
  also have "\<dots> \<le> mag a * mag b"
    unfolding power_add by (rule mult_le_mono [OF a(2) b(2)])
  finally show ?thesis .
qed

text \<open>
  The product is computed and stored unless the bits of the factors add up to more than the limit
  plus 1, and then accepted when its own count of bits is within the limit.
\<close>

lemma mul_lim_exact:
  assumes "unat mb + 1 < 2 ^ 64" and r: "limba_big_mul_lim r a b mb = (ok, r')"
  shows "unat mb + 1 < unat (limba_big_bits a) + unat (limba_big_bits b) \<Longrightarrow> \<not> ok \<and> r' = r"
    and "unat (limba_big_bits a) + unat (limba_big_bits b) \<le> unat mb + 1 \<Longrightarrow>
      val r' = val a * val b \<and> big_ok r' \<and> mag r' = mag a * mag b \<and> ok = fits r' mb"
proof -
  have s: "unat (ucast (limba_big_bits a) + ucast (limba_big_bits b) :: u64) =
      unat (limba_big_bits a) + unat (limba_big_bits b)"
    by simp
  have m: "unat (mb + 1) = unat mb + 1"
    using assms(1) unat_add_u64 [of mb 1] by simp
  define t where "t = trim \<lparr>bw = mul_rows (bw a) (bw b) (replicate (length (bw a) + length (bw b)) 0),
      bneg = (bneg a \<noteq> bneg b)\<rparr>"
  have t: "big_ok t" "mag t = mag a * mag b" "val t = val a * val b"
    by (auto simp: t_def) (auto simp: mag_def val_def mul_words_val)
  show "unat mb + 1 < unat (limba_big_bits a) + unat (limba_big_bits b) \<Longrightarrow> \<not> ok \<and> r' = r"
    using r by (auto simp: limba_big_mul_lim_def word_less_nat_alt s m)
  assume "unat (limba_big_bits a) + unat (limba_big_bits b) \<le> unat mb + 1"
  then have "ok = fits t mb \<and> r' = t"
    using r by (auto simp: limba_big_mul_lim_def Let_def word_less_nat_alt s m t_def)
  with t show "val r' = val a * val b \<and> big_ok r' \<and> mag r' = mag a * mag b \<and> ok = fits r' mb" by simp
qed

lemma mul_bits_mag:
  assumes "big_ok a" "small a" "big_ok b" "small b"
    and "unat (limba_big_bits a) + unat (limba_big_bits b) \<le> n"
  shows "mag a * mag b < 2 ^ n"
proof -
  have "mag a < 2 ^ unat (limba_big_bits a)" "mag b < 2 ^ unat (limba_big_bits b)"
    using bits_le_iff assms(1-4) by blast+
  then have "mag a * mag b < 2 ^ unat (limba_big_bits a) * 2 ^ unat (limba_big_bits b)"
    by (rule mult_strict_mono) simp_all
  also have "\<dots> \<le> 2 ^ n" unfolding power_add [symmetric] by (intro power_increasing assms(5)) simp
  finally show ?thesis .
qed

text \<open>
  The product is accepted exactly when it is within the limit. A factor of more bits than the limit
  times zero is the one product the early test may refuse.
\<close>

lemma mul_lim_spec:
  assumes "big_ok a" "small a" "big_ok b" "small b" "unat mb + 1 < 2 ^ 64" "counted mb (mag a * mag b)"
    and r: "limba_big_mul_lim r a b mb = (ok, r')"
  shows "ok \<Longrightarrow> val r' = val a * val b \<and> within mb r' \<and> small r'"
    and "\<not> ok \<Longrightarrow> mag a \<noteq> 0 \<Longrightarrow> mag b \<noteq> 0 \<Longrightarrow> 2 ^ unat mb \<le> mag a * mag b"
    and "unat (limba_big_bits a) \<le> unat mb + 1 \<Longrightarrow> unat (limba_big_bits b) \<le> unat mb + 1 \<Longrightarrow> \<not> ok \<Longrightarrow>
      2 ^ unat mb \<le> mag a * mag b"
proof -
  let ?ba = "unat (limba_big_bits a)" and ?bb = "unat (limba_big_bits b)"
  note x = mul_lim_exact [OF assms(5) r]
  have small: "small r'" if "?ba + ?bb \<le> unat mb + 1"
    using x(2) [OF that] mul_bits_mag [OF assms(1-4) that] assms(6) by (intro counted_small [of r' mb]) simp_all
  show "ok \<Longrightarrow> val r' = val a * val b \<and> within mb r' \<and> small r'"
    using x small by (cases "unat mb + 1 < ?ba + ?bb") (auto simp: fits_iff within_def not_less)
  show no: "\<not> ok \<Longrightarrow> mag a \<noteq> 0 \<Longrightarrow> mag b \<noteq> 0 \<Longrightarrow> 2 ^ unat mb \<le> mag a * mag b"
    using x small mul_early [OF assms(1-4)] by (cases "unat mb + 1 < ?ba + ?bb") (auto simp: fits_iff not_less)
  show "?ba \<le> unat mb + 1 \<Longrightarrow> ?bb \<le> unat mb + 1 \<Longrightarrow> \<not> ok \<Longrightarrow> 2 ^ unat mb \<le> mag a * mag b"
  proof (cases "mag a = 0 \<or> mag b = 0")
    case True
    assume "?ba \<le> unat mb + 1" "?bb \<le> unat mb + 1" "\<not> ok"
    then have le: "?ba + ?bb \<le> unat mb + 1" using True bits_0 assms(1,3) by auto
    then have "fits r' mb" using x(2) [OF le] small [OF le] True by (auto simp: fits_iff)
    then show ?thesis using x(2) [OF le] \<open>\<not> ok\<close> by simp
  next
    case False
    then show "\<not> ok \<Longrightarrow> ?thesis" using no by simp
  qed
qed

lemma mul_lim_counted:
  assumes "big_ok a" "small a" "big_ok b" "small b" "unat mb + 1 < 2 ^ 64" "counted mb (mag a * mag b)"
    and r: "limba_big_mul_lim r a b mb = (ok, r')"
    and w: "within mb a \<and> within mb b \<or> mag a \<noteq> 0 \<and> mag b \<noteq> 0"
  shows "ok \<longleftrightarrow> mag a * mag b < 2 ^ unat mb"
    "ok \<Longrightarrow> val r' = val a * val b \<and> mag r' = mag a * mag b \<and> within mb r' \<and> small r'"
proof -
  note sp = mul_lim_spec [OF assms(1-7)]
  have m: "mag r' = mag a * mag b" if ok
    using sp(1) [OF that] by (simp add: mag_val nat_mult_distrib abs_mult)
  then show "ok \<Longrightarrow> val r' = val a * val b \<and> mag r' = mag a * mag b \<and> within mb r' \<and> small r'"
    using sp(1) by blast
  have "2 ^ unat mb \<le> mag a * mag b" if no: "\<not> ok"
  proof (cases "mag a \<noteq> 0 \<and> mag b \<noteq> 0")
    case True
    then show ?thesis using sp(2) [OF no] by blast
  next
    case False
    then have "mag a < 2 ^ unat mb" "mag b < 2 ^ unat mb" using w by (auto simp: within_def)
    then have "unat (limba_big_bits a) \<le> unat mb + 1" "unat (limba_big_bits b) \<le> unat mb + 1"
      using bits_le_iff [OF assms(1,2), of "unat mb"] bits_le_iff [OF assms(3,4), of "unat mb"] by simp_all
    then show ?thesis using sp(3) no by blast
  qed
  then show "ok \<longleftrightarrow> mag a * mag b < 2 ^ unat mb"
    using sp(1) m by (fastforce simp: within_def not_less)
qed

lemma mul_lim_within:
  assumes "within mb a" "within mb b" "unat mb \<le> MAXBITS_EXACT" "limba_big_mul_lim r a b mb = (ok, r')"
  shows "ok \<longleftrightarrow> mag a * mag b < 2 ^ unat mb" "ok \<Longrightarrow> val r' = val a * val b \<and> within mb r'"
proof -
  have ab: "big_ok a" "small a" "big_ok b" "small b"
    using assms(1-3) by (simp_all add: within_small) (simp_all add: within_def)
  have mb: "unat mb + 1 < 2 ^ 64" using assms(3) by (simp add: MAXBITS_EXACT_def)
  have c: "counted mb (mag a * mag b)" using assms(3) by (simp add: counted_def)
  show "ok \<longleftrightarrow> mag a * mag b < 2 ^ unat mb" "ok \<Longrightarrow> val r' = val a * val b \<and> within mb r'"
    using mul_lim_counted [OF ab mb c assms(4)] assms(1,2) by blast+
qed

lemma shl_words_val:
  "bs < 32 \<Longrightarrow> unat t < 2 ^ bs \<Longrightarrow> wval (shl_words bs t xs) = wval xs * 2 ^ bs + unat t"
proof (induction bs t xs rule: shl_words.induct)
  case (2 bs t x xs)
  let ?v = "push_bit bs (ucast x :: u64)"
  have "unat x * 2 ^ bs < 4294967296 * 2 ^ 32"
    using 2(2) by (intro mult_strict_mono power_strict_increasing) simp_all
  then have v: "unat ?v = unat x * 2 ^ bs"
    by (simp add: unsigned_push_bit_eq take_bit_eq_mod del: push_bit_of_0)
       (simp add: push_bit_eq_mult)
  have "unat x * 2 ^ bs < 2 ^ bs * 4294967296" by simp
  then have "unat (drop_bit 32 ?v) < 2 ^ bs"
    unfolding unat_shift32 v by (rule less_mult_imp_div_less)
  moreover have "(2 :: nat) ^ bs < 2 ^ 32" using 2(2) by (intro power_strict_increasing) simp_all
  ultimately have hi: "unat (drop_bit 32 ?v) < 2 ^ bs" "unat (ucast (drop_bit 32 ?v) :: u32) = unat (drop_bit 32 ?v)"
    by (simp_all add: unat_ucast_u64_u32)
  define y where "y = take_bit (32 - bs) x"
  have low: "ucast ?v = push_bit bs y"
    using 2(2) by (auto simp: y_def bit_eq_iff bit_ucast_iff bit_push_bit_iff bit_take_bit_iff)
  have "unat y < 2 ^ (32 - bs)" by (simp add: y_def unsigned_take_bit_eq)
  then have "unat y * 2 ^ bs < 2 ^ (32 - bs) * 2 ^ bs" by simp
  also have "\<dots> = 2 ^ 32" using 2(2) by (simp flip: power_add)
  finally have y: "unat y * 2 ^ bs < 2 ^ LENGTH(32)" by simp
  have or: "unat (t OR ucast ?v) = unat t + unat (ucast ?v :: u32)"
    unfolding low using unat_or_push [OF 2(3) y] unat_or_push [OF _ y, of 0] by simp
  have "wval (shl_words bs t (x # xs)) =
      unat t + (unat (ucast ?v :: u32) + 4294967296 * unat (drop_bit 32 ?v)) + 4294967296 * (wval xs * 2 ^ bs)"
    using 2(1) [OF refl 2(2)] hi or by (simp add: Let_def algebra_simps)
  also have "\<dots> = wval (x # xs) * 2 ^ bs + unat t"
    unfolding carry_split v by (simp add: algebra_simps)
  finally show ?case .
qed simp

lemma set_u64_val: "val (limba_big_set_u64 v) = int (unat v)" "big_ok (limba_big_set_u64 v)"
  "mag (limba_big_set_u64 v) = unat v" "\<not> bneg (limba_big_set_u64 v)"
proof -
  have "unat (ucast (drop_bit 32 v) :: u32) = unat (drop_bit 32 v)"
    using less_mult_imp_div_less [of "unat v" 4294967296 4294967296]
    by (simp add: unat_ucast_u64_u32 unat_shift32)
  then show "mag (limba_big_set_u64 v) = unat v" "\<not> bneg (limba_big_set_u64 v)" "big_ok (limba_big_set_u64 v)"
    using carry_split [of v] by (simp_all add: limba_big_set_u64_def) (simp_all add: mag_def trim_def Let_def)
  then show "val (limba_big_set_u64 v) = int (unat v)" by (simp add: val_def)
qed

lemma shl_raw_val:
  assumes "big_ok a"
  shows "val (shl_raw a bits) = val a * 2 ^ unat bits" "big_ok (shl_raw a bits)"
proof -
  show "big_ok (shl_raw a bits)" by (simp add: shl_raw_def limba_big_set_u64_def Let_def)
  have "(2 :: nat) ^ unat bits = 2 ^ (unat bits mod 32) * 2 ^ (32 * (unat bits div 32))"
    unfolding power_add [symmetric] by simp
  then have p: "(2 :: nat) ^ unat bits = 2 ^ (unat bits mod 32) * 4294967296 ^ (unat bits div 32)"
    by (simp add: power_mult)
  have "mag (shl_raw a bits) = mag a * 2 ^ unat bits" if "bw a \<noteq> []"
    using that unfolding shl_raw_def Let_def p
    by simp (simp add: mag_def wval_append shl_words_val)
  moreover have "bneg (shl_raw a bits) = bneg a"  if "bw a \<noteq> []"
  proof -
    have "mag (shl_raw a bits) \<noteq> 0" using calculation that mag_0_iff [OF assms] by simp
    then have "bw (shl_raw a bits) \<noteq> []" by (auto simp: mag_def)
    then show ?thesis using that by (auto simp: shl_raw_def Let_def trim_def split: if_splits)
  qed
  moreover have "val (shl_raw a bits) = 0" if "bw a = []"
    using that set_u64_val(1) [of 0] by (simp add: shl_raw_def)
  ultimately show "val (shl_raw a bits) = val a * 2 ^ unat bits"
    using val_0_iff [OF assms] by (cases "bw a = []") (simp_all add: val_def)
qed

lemma shl_lim_val:
  assumes ok: "big_ok a" "small a" and "limba_big_shl_lim r a bits mb = (ok, r')"
  shows "ok \<longleftrightarrow> mag a * 2 ^ unat bits < 2 ^ unat mb" "ok \<Longrightarrow> val r' = val a * 2 ^ unat bits \<and> big_ok r'"
proof -
  show v: "ok \<Longrightarrow> val r' = val a * 2 ^ unat bits \<and> big_ok r'"
    using assms(3) shl_raw_val [OF ok(1)] by (auto simp: limba_big_shl_lim_def split: if_splits)
  have iff: "ok \<longleftrightarrow> bw a = [] \<or> unat (limba_big_bits a) + unat bits \<le> unat mb"
    using assms(3) by (auto simp: limba_big_shl_lim_def word_less_nat_alt split: if_splits)
  show "ok \<longleftrightarrow> mag a * 2 ^ unat bits < 2 ^ unat mb"
  proof (cases "mag a = 0")
    case True
    then show ?thesis using iff mag_0_iff [OF ok(1)] by simp
  next
    case False
    have *: "mag a * 2 ^ unat bits < 2 ^ unat mb \<longleftrightarrow> unat bits \<le> unat mb \<and> mag a < 2 ^ (unat mb - unat bits)"
    proof (cases "unat bits \<le> unat mb")
      case True
      then have "(2 :: nat) ^ unat mb = 2 ^ (unat mb - unat bits) * 2 ^ unat bits" by (simp flip: power_add)
      then show ?thesis using True by simp
    next
      case False
      then have "(2 :: nat) ^ unat mb \<le> 2 ^ unat bits" by (intro power_increasing) simp_all
      also have "\<dots> \<le> mag a * 2 ^ unat bits" using \<open>mag a \<noteq> 0\<close> by simp
      finally show ?thesis using False by simp
    qed
    show ?thesis
      unfolding * bits_le_iff [OF ok, symmetric] using iff False mag_0_iff [OF ok(1)] by auto
  qed
qed

section \<open>To and from machine integers\<close>

lemma set_i64_val: "val (limba_big_set_i64 v) = sint v" "big_ok (limba_big_set_i64 v)"
proof -
  define m where "m = (if sint v < 0 then - v else v)"
  have m: "int (unat m) = \<bar>sint v\<bar>"
  proof (cases "sint v < 0")
    case True
    then have "v \<noteq> 0" "\<not> unat v < 9223372036854775808" "sint v = int (unat v) - 18446744073709551616"
      unfolding sint_u64 by (auto split: if_splits)
    moreover from this(2) have "int (unat v) \<ge> 9223372036854775808" by linarith
    moreover have "int (unat (- v)) = 18446744073709551616 - int (unat v)"
      using unat_uminus_u64 [OF \<open>v \<noteq> 0\<close>] unat_u64_lt [of v] by linarith
    ultimately show ?thesis using True by (simp add: m_def abs_if)
  next
    case False
    then have "sint v = int (unat v)"
      unfolding sint_u64 using unat_u64_lt [of v] by (auto split: if_splits)
    then show ?thesis using False by (simp add: m_def)
  qed
  let ?n = "sint v < 0 \<and> m \<noteq> 0"
  have e: "limba_big_set_i64 v = (limba_big_set_u64 m)\<lparr>bneg := ?n\<rparr>"
    by (simp add: limba_big_set_i64_def m_def)
  have n: "?n \<longleftrightarrow> sint v < 0" using m by auto
  have mg: "mag (limba_big_set_i64 v) = unat m" unfolding e using set_u64_val(3) [of m] by (simp add: mag_def)
  then show "val (limba_big_set_i64 v) = sint v" using m n by (auto simp: val_def e)
  have "bw (limba_big_set_u64 m) = [] \<longleftrightarrow> m = 0"
    using mag_0_iff [OF set_u64_val(2) [of m]] set_u64_val(3) [of m] by (simp add: unat_eq_0)
  then show "big_ok (limba_big_set_i64 v)"
    using set_u64_val(2) [of m] unfolding e by (auto simp: big_ok_def)
qed

lemma to_u64_val:
  assumes "big_ok a"
  shows "limba_big_to_u64 a = (if 0 \<le> val a \<and> val a < 2 ^ 64 then Some (of_int (val a)) else None)"
proof -
  have n: "bneg a \<longleftrightarrow> \<not> 0 \<le> val a" using bneg_iff [OF assms] by auto
  consider "length (bw a) > 2" | "bw a = []" | x where "bw a = [x]" | x y where "bw a = [x, y]"
    by (cases "bw a" rule: list.exhaust; cases "tl (bw a)" rule: list.exhaust; cases "tl (tl (bw a))") auto
  then show ?thesis
  proof cases
    case 1
    have "bw a \<noteq> []" using 1 by auto
    then have "4294967296 ^ (length (bw a) - 1) \<le> mag a"
      using assms unfolding mag_def by (intro wval_ge) (auto simp: big_ok_def)
    moreover have "(4294967296 :: nat) ^ 2 \<le> 4294967296 ^ (length (bw a) - 1)"
      using 1 by (intro power_increasing) simp_all
    ultimately have "(4294967296 :: nat) ^ 2 \<le> mag a" by (rule order.trans [rotated])
    then show ?thesis using 1 by (auto simp: limba_big_to_u64_def val_def)
  next
    case 2
    then show ?thesis using assms by (auto simp: limba_big_to_u64_def val_def mag_def big_ok_def)
  next
    case (3 x)
    have "(of_nat (unat x) :: u64) = ucast x" by (simp add: unsigned_word_eqI)
    then show ?thesis using n 3 less_trans [OF uint_u32_lt [of x], of 18446744073709551616]
      by (auto simp: limba_big_to_u64_def val_def mag_def)
  next
    case (4 x y)
    have y: "unat (ucast y :: u64) * 2 ^ 32 < 2 ^ LENGTH(64)" by simp
    have m: "mag a = unat x + unat y * 2 ^ 32" using 4 by (simp add: mag_def)
    have "unat (push_bit 32 (ucast y) OR ucast x :: u64) = mag a"
      using unat_or_push [OF _ y, of "ucast x"] m by (simp add: or.commute)
    then have "push_bit 32 (ucast y) OR ucast x = (of_nat (mag a) :: u64)"
      by (metis of_nat_unat ucast_id)
    moreover have "unat x + unat y * 4294967296 < 18446744073709551616"
      using unat_u32_lt [of x] unat_u32_lt [of y] by linarith
    then have "mag a < 2 ^ 64" unfolding m by simp
    ultimately show ?thesis using n 4
      by (auto simp: limba_big_to_u64_def val_def simp del: push_bit_of_0)
  qed
qed

text \<open>The result is the two's complement representation of the value.\<close>

lemma to_i64_val:
  assumes "big_ok a"
  shows "limba_big_to_i64 a =
    (if - (2 ^ 63) \<le> val a \<and> val a < 2 ^ 63 then Some (of_int (val a)) else None)"
proof -
  let ?a = "a\<lparr>bneg := False\<rparr>"
  have ok: "big_ok ?a" and v: "val ?a = int (mag a)"
    using assms by (auto simp: big_ok_def val_def mag_def)
  have n: "bneg a \<longleftrightarrow> \<not> 0 \<le> val a" using bneg_iff [OF assms] by auto
  have b: "unat (push_bit 63 1 :: u64) = 2 ^ 63" by simp
  show ?thesis
  proof (cases "mag a < 2 ^ 64")
    case True
    then have u: "unat (of_nat (mag a) :: u64) = mag a"
      by (simp add: unat_of_nat take_bit_nat_eq_self)
    then show ?thesis
      using True n unfolding limba_big_to_i64_def to_u64_val [OF ok] v
      by (auto simp: word_less_nat_alt b val_def)
  next
    case False
    then show ?thesis
      unfolding limba_big_to_i64_def to_u64_val [OF ok] v by (auto simp: val_def)
  qed
qed

section \<open>What the operations compute\<close>

lemma set_i64_mag: "mag (limba_big_set_i64 v) = nat \<bar>sint v\<bar>"
proof -
  have "int (mag (limba_big_set_i64 v)) = \<bar>val (limba_big_set_i64 v)\<bar>" by (simp add: val_def)
  then show ?thesis by (simp add: set_i64_val)
qed

lemma set_i64_within:
  assumes "\<bar>sint v\<bar> < 2 ^ unat mb"
  shows "within mb (limba_big_set_i64 v)"
proof -
  have "nat \<bar>sint v\<bar> < 2 ^ unat mb" using assms by (simp add: nat_less_iff)
  then show ?thesis by (simp add: within_def set_i64_val set_i64_mag)
qed

text \<open>
  \<open>limba_big_cmp\<close> orders big numbers as integers: -1, 0 or 1 as the value of the first is below,
  equal to or above that of the second.
\<close>

theorem big_cmp_orders:
  assumes "big_ok a" "big_ok b"
  shows "limba_big_cmp a b = sgn (val a - val b)"
  using assms by (rule cmp_val)

theorem big_cmp_orders_witness: "limba_big_cmp (limba_big_set_i64 (- 3)) (limba_big_set_i64 2) = - 1"
  using big_cmp_orders [of "limba_big_set_i64 (- 3)" "limba_big_set_i64 2"] by (simp add: set_i64_val)

lemma less_pow_unat: "x < 2 ^ k \<Longrightarrow> k \<le> unat mb \<Longrightarrow> (x :: nat) < 2 ^ unat mb"
  by (rule less_le_trans [OF _ power_increasing]) simp_all

lemma set_i64_small: "small (limba_big_set_i64 v)"
proof (rule small_if_bits [of _ 64])
  have "\<bar>sint v\<bar> < 2 ^ 64" using sint_ge [of v] sint_less [of v] by simp
  then show "mag (limba_big_set_i64 v) < 2 ^ 64" by (simp add: set_i64_mag nat_less_iff)
qed (simp_all add: set_i64_val MAXBITS_EXACT_def)

text \<open>
  C19: Addition and subtraction of any two numbers in normal form under any limit of bits: the result
  is the exact sum or difference in normal form, stored whether it fits or not, and the answer is true
  exactly when the magnitude of the result is below 2 to the limit, as long as the result has fewer than
  \<open>2 ^ 27\<close> words (\<open>small\<close>), the most whose bits \<open>limba_big_bits\<close> counts without wrapping.
\<close>

theorem big_add_sub_exact:
  assumes "big_ok a" "big_ok b"
    and "limba_big_add_lim a b mb = (ok, r)" "limba_big_sub_lim a b mb = (ok', r')"
  shows "val r = val a + val b \<and> big_ok r \<and> (small r \<longrightarrow> (ok \<longleftrightarrow> mag r < 2 ^ unat mb)) \<and>
    val r' = val a - val b \<and> big_ok r' \<and> (small r' \<longrightarrow> (ok' \<longleftrightarrow> mag r' < 2 ^ unat mb))"
  using add_lim_val [OF assms(1-3)] sub_lim_val [OF assms(1,2,4)] by (simp add: fits_iff)

theorem big_add_sub_exact_witness:
  "\<exists>r r'. limba_big_add_lim (limba_big_set_i64 200) (limba_big_set_i64 100) 8 = (False, r) \<and>
     limba_big_sub_lim (limba_big_set_i64 200) (limba_big_set_i64 100) 8 = (True, r') \<and> val r = 300 \<and> val r' = 100"
proof -
  obtain ok r ok' r' where r: "limba_big_add_lim (limba_big_set_i64 200) (limba_big_set_i64 100) 8 = (ok, r)"
      "limba_big_sub_lim (limba_big_set_i64 200) (limba_big_set_i64 100) 8 = (ok', r')"
    by (metis surj_pair)
  note x = big_add_sub_exact [OF set_i64_val(2) set_i64_val(2) r]
  then have v: "val r = 300" "val r' = 100" by (simp_all add: set_i64_val)
  then have m: "mag r = 300" "mag r' = 100" by (simp_all add: mag_val)
  then have "small r" "small r'"
    using x by (auto intro!: small_if_bits [of _ 9] simp: MAXBITS_EXACT_def)
  then have "\<not> ok" "ok'" using x m by simp_all
  then show ?thesis using r v by simp
qed

text \<open>
  C20: Multiplication of two numbers of fewer than \<open>2 ^ 27\<close> words under any limit of bits below
  \<open>2 ^ 64 - 1\<close>. When the bits of the factors add up to more than the limit plus 1, the answer is false
  and the result is left as it was. Otherwise the exact product is computed in normal form and stored,
  also when it turns out past the limit by a bit. Whenever the answer is true the result is the exact
  product; and if both factors are within the limit, or neither is zero, the answer is true exactly when
  the product is below 2 to the limit. This last holds for every limit of up to 4294967200 bits, and for
  every product of fewer bits than that under a larger limit (\<open>counted\<close>): beyond, the 32-bit count of the
  bits of the product wraps.
\<close>

theorem big_mul_exact:
  assumes "big_ok a" "small a" "big_ok b" "small b" "unat mb + 1 < 2 ^ 64"
    and "limba_big_mul_lim r a b mb = (ok, r')"
  shows "(unat mb + 1 < unat (limba_big_bits a) + unat (limba_big_bits b) \<longrightarrow> \<not> ok \<and> r' = r) \<and>
    (unat (limba_big_bits a) + unat (limba_big_bits b) \<le> unat mb + 1 \<longrightarrow> val r' = val a * val b \<and> big_ok r') \<and>
    (ok \<longrightarrow> val r' = val a * val b \<and> big_ok r') \<and>
    (counted mb (mag a * mag b) \<and> (within mb a \<and> within mb b \<or> val a \<noteq> 0 \<and> val b \<noteq> 0) \<longrightarrow>
      (ok \<longleftrightarrow> mag a * mag b < 2 ^ unat mb))"
proof -
  note x = mul_lim_exact [OF assms(5,6)]
  have "ok \<longleftrightarrow> mag a * mag b < 2 ^ unat mb"
    if "counted mb (mag a * mag b)" "within mb a \<and> within mb b \<or> val a \<noteq> 0 \<and> val b \<noteq> 0"
    using mul_lim_counted(1) [OF assms(1-5) that(1) assms(6)] that(2) by (simp add: mag_val)
  moreover have "val r' = val a * val b \<and> big_ok r'" if ok
    using x that by (meson not_less)
  ultimately show ?thesis using x by blast
qed

theorem big_mul_exact_witness:
  "\<exists>r'. limba_big_mul_lim limba_big_init (limba_big_set_i64 (- 12)) (limba_big_set_i64 10) 8589934592 = (True, r') \<and>
     val r' = - 120"
proof -
  define mb :: u64 where "mb = 8589934592"
  have mb: "unat mb + 1 < 2 ^ 64" "7 \<le> unat mb" by (simp_all add: mb_def)
  obtain ok r' where r: "limba_big_mul_lim limba_big_init (limba_big_set_i64 (- 12)) (limba_big_set_i64 10) mb = (ok, r')"
    by (metis surj_pair)
  note x = big_mul_exact [OF set_i64_val(2) set_i64_small set_i64_val(2) set_i64_small mb(1) r]
  have p: "mag (limba_big_set_i64 (- 12)) * mag (limba_big_set_i64 10) = 120" by (simp add: set_i64_mag)
  have "(120 :: nat) < 2 ^ unat mb" using mb(2) by (intro less_pow_unat [of _ 7]) simp_all
  moreover have "counted mb 120" by (rule counted_pow [of _ 7]) simp_all
  ultimately have "ok" using x unfolding p by (simp add: set_i64_val)
  moreover from this have "val r' = - 120" using x by (simp add: set_i64_val)
  ultimately show ?thesis using r unfolding mb_def by auto
qed

end
