(* ===== verification/Bigdiv.thy ===== *)
theory Bigdiv
  imports Bigint
begin

text \<open>
  The division of \<^verbatim>\<open>src/src/common/bigint.c\<close>: a word at a time by a divisor of one word, and Knuth's
  algorithm D (\<open>mag_divmod\<close>) by a longer one. Both give the quotient and the remainder, whatever the
  operands: the estimate of a word of the quotient is at most one too large when it is used, and is
  then corrected.
\<close>

section \<open>The operations\<close>

text \<open>The division by one word, from the most significant word of the dividend.\<close>

fun div_word :: "u64 \<Rightarrow> u64 \<Rightarrow> u32 list \<Rightarrow> u32 list \<times> u64" where
  "div_word d rem [] = ([], rem)"
| "div_word d rem (w # ws) =
     (let cur = push_bit 32 rem OR ucast w;
          (qs, r) = div_word d (cur mod d) ws
      in (ucast (cur div d) # qs, r))"

text \<open>The words shifted left by \<open>s\<close>, \<open>prev\<close> being the word below.\<close>

fun norm_words :: "nat \<Rightarrow> u32 \<Rightarrow> u32 list \<Rightarrow> u32 list" where
  "norm_words s prev [] = []"
| "norm_words s prev (w # ws) =
     (push_bit s w OR ucast (drop_bit (32 - s) (ucast prev :: u64))) # norm_words s w ws"

text \<open>The words shifted right by \<open>s\<close>.\<close>

fun denorm_words :: "nat \<Rightarrow> u32 list \<Rightarrow> u32 list" where
  "denorm_words s [] = []"
| "denorm_words s [x] = [drop_bit s x]"
| "denorm_words s (x # y # ws) =
     (drop_bit s x OR ucast (push_bit (32 - s) (ucast y :: u64))) # denorm_words s (y # ws)"

text \<open>
  The loop that lowers the estimate of a word of the quotient. It goes on only while the estimate
  is positive, so it ends.
\<close>

definition too_large :: "u64 \<Rightarrow> u32 \<Rightarrow> u64 \<Rightarrow> u64 \<Rightarrow> bool" where
  "too_large v2 u2 qhat rhat \<longleftrightarrow>
     qhat \<ge> 0x100000000 \<or> qhat * v2 > (push_bit 32 rhat OR ucast u2)"

lemma too_large_pos: "too_large v2 u2 qhat rhat \<Longrightarrow> unat (qhat - 1) < unat qhat"
  by (cases "qhat = 0") (auto simp: too_large_def unat_minus_one unat_gt_0)

function lower :: "u64 \<Rightarrow> u64 \<Rightarrow> u32 \<Rightarrow> u64 \<Rightarrow> u64 \<Rightarrow> u64" where
  "lower v1 v2 u2 qhat rhat =
     (if too_large v2 u2 qhat rhat
      then let qhat = qhat - 1; rhat = rhat + v1
           in if rhat \<ge> 0x100000000 then qhat else lower v1 v2 u2 qhat rhat
      else qhat)"
  by pat_completeness auto
termination
  by (relation "measure (\<lambda>(v1, v2, u2, qhat, rhat). unat qhat)") (auto dest: too_large_pos)

declare lower.simps [simp del]

text \<open>
  \<open>un[j .. j + n] -= qhat * vn\<close>, with the signed borrow \<open>k\<close>: the new words, and whether the last
  difference is negative. The values of \<open>t\<close> and \<open>k\<close> stay within 34 bits of the code's \<open>int64_t\<close>.
\<close>

fun mul_sub :: "u64 \<Rightarrow> int \<Rightarrow> u32 list \<Rightarrow> u32 list \<Rightarrow> u32 list \<times> bool" where
  "mul_sub qhat k [] us = (let t = int (unat (hd us)) - k in ([of_int t], t < 0))"
| "mul_sub qhat k (v # vs) us =
     (let p = qhat * ucast v;
          t = int (unat (hd us)) - k - int (unat (p AND 0xffffffff));
          k = int (unat (drop_bit 32 p)) - t div 2 ^ 32;
          (rs, neg) = mul_sub qhat k vs (tl us)
      in (of_int t # rs, neg))"

fun add_back :: "u64 \<Rightarrow> u32 list \<Rightarrow> u32 list \<Rightarrow> u32 list" where
  "add_back c [] us = [hd us + ucast c]"
| "add_back c (v # vs) us =
     (let c = c + (ucast (hd us) + ucast v)
      in ucast c # add_back (drop_bit 32 c) vs (tl us))"

text \<open>One turn of the loop on \<open>j\<close>: \<open>us\<close> are the words \<open>un[j .. j + n]\<close>.\<close>

definition div_step :: "u32 list \<Rightarrow> u32 list \<Rightarrow> u64 \<times> u32 list" where
  "div_step vn us =
     (let n = length vn;
          num = push_bit 32 (ucast (us ! n)) OR ucast (us ! (n - 1));
          v1 = ucast (vn ! (n - 1));
          qhat = lower v1 (ucast (vn ! (n - 2))) (us ! (n - 2)) (num div v1) (num mod v1);
          (us, neg) = mul_sub qhat 0 vn us
      in if neg then (qhat - 1, add_back 0 vn us) else (qhat, us))"

fun div_loop :: "nat \<Rightarrow> u32 list \<Rightarrow> u32 list \<Rightarrow> u32 list \<Rightarrow> u32 list \<times> u32 list" where
  "div_loop 0 vn un qs = (qs, un)"
| "div_loop (Suc j) vn un qs =
     (let n = length vn;
          (qhat, us) = div_step vn (take (n + 1) (drop j un))
      in div_loop j vn (take j un @ us @ drop (j + n + 1) un) (ucast qhat # qs))"

definition mag_divmod :: "limba_big \<Rightarrow> limba_big \<Rightarrow> limba_big \<times> limba_big" where
  "mag_divmod u v =
     (let m = length (bw u); n = length (bw v);
          s = clz32 (bw v ! (n - 1));
          vn = norm_words s 0 (bw v);
          un = norm_words s 0 (bw u) @ [ucast (drop_bit (32 - s) (ucast (bw u ! (m - 1)) :: u64))];
          (qs, un) = div_loop (m - n + 1) vn un []
      in (trim \<lparr>bw = qs, bneg = False\<rparr>, trim \<lparr>bw = denorm_words s (take n un), bneg = False\<rparr>))"

definition limba_big_divmod :: "limba_big \<Rightarrow> limba_big \<Rightarrow> limba_big \<times> limba_big" where
  "limba_big_divmod a b =
     (let (tq, tr) =
            (if length (bw b) = 1 then
               let (qs, rem) = div_word (ucast (bw b ! 0)) 0 (rev (bw a))
               in (trim \<lparr>bw = rev qs, bneg = False\<rparr>, limba_big_set_u64 rem)
             else if mag_cmp a b < 0 then (limba_big_init, limba_big_abs a)
             else mag_divmod a b)
      in (tq\<lparr>bneg := bw tq \<noteq> [] \<and> bneg a \<noteq> bneg b\<rparr>, tr\<lparr>bneg := bw tr \<noteq> [] \<and> bneg a\<rparr>))"

section \<open>One word\<close>

lemma unat_join:
  assumes "unat hi < 4294967296"
  shows "unat (push_bit 32 hi OR ucast (lo :: u32) :: u64) = unat hi * 4294967296 + unat lo"
proof -
  have "unat hi * 2 ^ 32 < 2 ^ LENGTH(64)" using assms by simp
  then show ?thesis
    using unat_or_push [of "ucast lo :: u64" 32 hi] by (simp add: or.commute del: push_bit_of_0)
qed

lemma div_word_val:
  assumes "0 < unat d" "unat d < 4294967296"
  shows "unat rem < unat d \<Longrightarrow> div_word d rem ws = (qs, r) \<Longrightarrow>
    length qs = length ws \<and> unat r < unat d \<and>
    unat rem * 4294967296 ^ length ws + wval (rev ws) = wval (rev qs) * unat d + unat r"
proof (induction ws arbitrary: rem qs)
  case (Cons w ws)
  let ?cur = "push_bit 32 rem OR ucast w :: u64"
  obtain qs' where qs': "div_word d (?cur mod d) ws = (qs', r)" "qs = ucast (?cur div d) # qs'"
    using Cons.prems(2) by (auto simp: Let_def split: prod.splits)
  have cur: "unat ?cur = unat rem * 4294967296 + unat w"
    using Cons.prems(1) assms by (intro unat_join) simp
  have "unat rem * 4294967296 + unat w < Suc (unat rem) * 4294967296" by simp
  also have "\<dots> \<le> unat d * 4294967296" using Cons.prems(1) by (intro mult_le_mono1) simp
  finally have "unat ?cur div unat d < 4294967296"
    unfolding cur by (metis less_mult_imp_div_less mult.commute)
  then have q: "unat (ucast (?cur div d) :: u32) = unat ?cur div unat d"
    by (simp add: unat_ucast_u64_u32 unat_div)
  have m: "unat (?cur mod d) = unat ?cur mod unat d" by (simp add: unat_mod)
  then have "unat (?cur mod d) < unat d" using assms(1) by simp
  note IH = Cons.IH [OF this qs'(1)]
  let ?P = "4294967296 ^ length ws :: nat"
  have "unat rem * 4294967296 ^ length (w # ws) + wval (rev (w # ws)) = unat ?cur * ?P + wval (rev ws)"
    unfolding cur by (simp add: wval_append algebra_simps)
  also have "\<dots> = (unat ?cur div unat d * unat d + unat ?cur mod unat d) * ?P + wval (rev ws)"
    by simp
  also have "\<dots> = unat ?cur div unat d * unat d * ?P + (unat (?cur mod d) * ?P + wval (rev ws))"
    unfolding m by (simp only: add_mult_distrib add.assoc)
  also have "\<dots> = (wval (rev qs') + ?P * (unat ?cur div unat d)) * unat d + unat r"
    using IH by (simp add: algebra_simps)
  also have "\<dots> = wval (rev qs) * unat d + unat r"
    using IH q qs'(2) by (simp add: wval_append)
  finally show ?case using IH qs'(2) by simp
qed simp


section \<open>Normalising\<close>

lemma norm_shl:
  assumes "s < 32"
  shows "norm_words s prev ws @ [ucast (drop_bit (32 - s) (ucast (last (prev # ws)) :: u64))] =
    shl_words s (ucast (drop_bit (32 - s) (ucast prev :: u64))) ws"
proof (induction ws arbitrary: prev)
  case (Cons w ws)
  have "ucast (drop_bit 32 (push_bit s (ucast w :: u64))) = (ucast (drop_bit (32 - s) (ucast w :: u64)) :: u32)"
    using assms by (auto simp: bit_eq_iff bit_ucast_iff bit_drop_bit_eq bit_push_bit_iff)
  moreover have "ucast (push_bit s (ucast w :: u64)) = push_bit s w"
    by (auto simp: bit_eq_iff bit_ucast_iff bit_push_bit_iff)
  ultimately show ?case
    using Cons.IH [of w] by (simp add: Let_def or.commute)
qed simp

lemma norm_val:
  assumes "s < 32" "ws \<noteq> []"
  shows "wval (norm_words s 0 ws @ [ucast (drop_bit (32 - s) (ucast (last ws) :: u64))]) = wval ws * 2 ^ s"
  using norm_shl [OF assms(1), of 0 ws] shl_words_val [OF assms(1), of 0 ws] assms(2) by simp

lemma length_norm_words [simp]: "length (norm_words s prev ws) = length ws"
  by (induction s prev ws rule: norm_words.induct) simp_all

lemma norm_val_fits:
  assumes "s < 32" "ws \<noteq> []" "unat (last ws) < 2 ^ (32 - s)"
  shows "wval (norm_words s 0 ws) = wval ws * 2 ^ s"
proof -
  have "unat (drop_bit (32 - s) (ucast (last ws) :: u64)) = 0"
    using assms(3) by (simp add: unat_drop_bit)
  then have "ucast (drop_bit (32 - s) (ucast (last ws) :: u64)) = (0 :: u32)"
    by (simp add: unat_eq_0)
  then show ?thesis using norm_val [OF assms(1,2)] by simp
qed

lemma denorm_word:
  assumes "s < 32"
  shows "unat (drop_bit s x OR ucast (push_bit (32 - s) (ucast (y :: u32) :: u64)) :: u32) =
    unat x div 2 ^ s + 2 ^ (32 - s) * (unat y mod 2 ^ s)"
proof -
  define z where "z = take_bit s y"
  have low: "ucast (push_bit (32 - s) (ucast y :: u64)) = (push_bit (32 - s) z :: u32)"
    using assms by (auto simp: z_def bit_eq_iff bit_ucast_iff bit_push_bit_iff bit_take_bit_iff)
  have z: "unat z = unat y mod 2 ^ s" unfolding z_def unsigned_take_bit_eq by (rule take_bit_eq_mod)
  have b: "(2 :: nat) ^ 32 = 2 ^ s * 2 ^ (32 - s)" using assms by (simp flip: power_add)
  have "unat z * 2 ^ (32 - s) < 2 ^ s * 2 ^ (32 - s)" by (simp add: z)
  then have "unat z * 2 ^ (32 - s) < 2 ^ 32" unfolding b .
  then have zl: "unat z * 2 ^ (32 - s) < 2 ^ LENGTH(32)" by simp
  have "unat x < 2 ^ (32 - s) * 2 ^ s" using b unat_u32_lt [of x] by (simp add: mult.commute)
  then have "unat x div 2 ^ s < 2 ^ (32 - s)" by (simp add: less_mult_imp_div_less)
  then have "unat (drop_bit s x) < 2 ^ (32 - s)" by (simp add: unat_drop_bit)
  from unat_or_push [OF this zl] show ?thesis
    unfolding low by (simp add: z unat_drop_bit mult.commute)
qed

lemma denorm_val: "s < 32 \<Longrightarrow> wval (denorm_words s ws) = wval ws div 2 ^ s"
proof (induction s ws rule: denorm_words.induct)
  case (2 s x)
  then show ?case by (simp add: unat_drop_bit)
next
  case (3 s x y ws)
  let ?W = "wval (y # ws)"
  have b: "(4294967296 :: nat) = 2 ^ s * 2 ^ (32 - s)" using 3(2) by (simp flip: power_add)
  have "4294967296 * wval ws = 2 ^ s * (2 ^ (32 - s) * wval ws)"
    by (subst b) (simp only: mult.assoc)
  then have m: "?W mod 2 ^ s = unat y mod 2 ^ s"
    unfolding wval.simps(2) by (simp only: mod_mult_self2)
  have "wval (x # y # ws) div 2 ^ s = (unat x + 2 ^ s * (2 ^ (32 - s) * ?W)) div 2 ^ s"
    unfolding wval.simps(2) [of x] by (subst b) (simp only: mult.assoc)
  also have "\<dots> = unat x div 2 ^ s + 2 ^ (32 - s) * ?W" by simp
  also have "\<dots> = unat x div 2 ^ s + 2 ^ (32 - s) * (2 ^ s * (?W div 2 ^ s) + ?W mod 2 ^ s)"
    by (simp only: mult_div_mod_eq)
  also have "\<dots> = unat x div 2 ^ s + 2 ^ (32 - s) * (unat y mod 2 ^ s) + 4294967296 * (?W div 2 ^ s)"
  proof -
    have "4294967296 * c = 2 ^ (32 - s) * (2 ^ s * c)" for c :: nat
      by (subst b) (simp only: ac_simps)
    then show ?thesis unfolding m by (simp only: add_mult_distrib2 ac_simps)
  qed
  also have "\<dots> = wval (denorm_words s (x # y # ws))"
    using 3(1) [OF 3(2)] denorm_word [OF 3(2)] by simp
  finally show ?case by simp
qed simp

section \<open>The estimate of a word of the quotient\<close>

text \<open>
  The arithmetic of algorithm D: the divisor is \<open>(v1 b + v2) p + v'\<close>, the dividend
  \<open>(num b + u2) p + u'\<close>, and \<open>qhat\<close>, \<open>rhat\<close> are such that \<open>num = qhat v1 + rhat\<close>.
\<close>

lemma estimate_not_below:
  fixes num :: int
  assumes num: "num = qhat * v1 + rhat" and u: "u = (num * b + u2) * p + u'" "u' < p"
    and v: "v = (v1 * b + v2) * p + v'" "0 \<le> v'" and pos: "0 < p" "0 \<le> qhat"
    and large: "rhat * b + u2 < qhat * v2"
  shows "u < qhat * v"
proof -
  have "qhat * v - u = (qhat * v2 - rhat * b - u2) * p + qhat * v' - u'"
    unfolding u v num by (simp add: algebra_simps)
  moreover have "1 * p \<le> (qhat * v2 - rhat * b - u2) * p"
    using large pos(1) by (intro mult_right_mono) simp_all
  moreover have "0 \<le> qhat * v'" using v(2) pos(2) by simp
  ultimately show ?thesis using u(2) by linarith
qed

lemma estimate_not_above:
  fixes num :: int
  assumes num: "num = qhat * v1 + rhat" and u: "u = (num * b + u2) * p + u'" "0 \<le> u'"
    and v: "v = (v1 * b + v2) * p + v'" "0 \<le> v'" "v' < p"
    and pos: "0 < p" "0 \<le> qhat" "qhat \<le> b" "0 < b" "1 \<le> v1" "0 \<le> v2" "v2 < b" "0 \<le> u2"
    and exit: "qhat * v2 \<le> rhat * b + u2 \<or> b \<le> rhat"
  shows "(qhat - 1) * v < u"
proof -
  have d: "u - qhat * v = (rhat * b + u2 - qhat * v2) * p + u' - qhat * v'"
    unfolding u v num by (simp add: algebra_simps)
  have qv: "qhat * v' \<le> b * v'" using pos v by (intro mult_right_mono) simp_all
  have bv: "b * v' < b * p" using pos v by (intro mult_strict_left_mono) simp_all
  have vb: "b * p \<le> v"
  proof -
    have "1 * b * p \<le> v1 * b * p" using pos by (intro mult_right_mono) simp_all
    moreover have "0 \<le> v2 * p" using pos by simp
    ultimately show ?thesis unfolding v(1) using v(2) by (simp add: algebra_simps)
  qed
  have "- v < u - qhat * v"
  proof (cases "qhat * v2 \<le> rhat * b + u2")
    case True
    then have "0 \<le> (rhat * b + u2 - qhat * v2) * p" using pos by simp
    then show ?thesis unfolding d using qv bv vb u(2) by linarith
  next
    case False
    then have "b * b \<le> rhat * b" using exit pos by (intro mult_right_mono) simp_all
    moreover have "qhat * v2 \<le> b * v2" using pos by (intro mult_right_mono) simp_all
    moreover have "b * v2 \<le> b * (b - 1)" using pos by (intro mult_left_mono) simp_all
    moreover have "b * (b - 1) = b * b - b" by (simp add: algebra_simps)
    ultimately have "b \<le> rhat * b + u2 - qhat * v2" using pos(8) by linarith
    then have "b * p \<le> (rhat * b + u2 - qhat * v2) * p" using pos by (intro mult_right_mono) simp_all
    moreover have "0 < b * p" using pos by simp
    ultimately show ?thesis unfolding d using qv bv vb u(2) by linarith
  qed
  then show "(qhat - 1) * v < u" by (simp add: algebra_simps)
qed


text \<open>What the dividend, the divisor and the two leading words of each are to one another.\<close>

definition leading :: "int \<Rightarrow> int \<Rightarrow> int \<Rightarrow> int \<Rightarrow> int \<Rightarrow> int \<Rightarrow> int \<Rightarrow> bool" where
  "leading u v num v1 v2 u2 p \<longleftrightarrow> 0 < p \<and> 2147483648 \<le> v1 \<and> v1 < 4294967296 \<and>
     0 \<le> v2 \<and> v2 < 4294967296 \<and> 0 \<le> u2 \<and> 0 \<le> num \<and>
     (\<exists>u' v'. u = (num * 4294967296 + u2) * p + u' \<and> 0 \<le> u' \<and> u' < p \<and>
        v = (v1 * 4294967296 + v2) * p + v' \<and> 0 \<le> v' \<and> v' < p) \<and> u < 4294967296 * v"

lemma leading_pos: "leading u v num v1 v2 u2 p \<Longrightarrow> 0 < v"
proof -
  assume a: "leading u v num v1 v2 u2 p"
  then obtain v' where v: "v = (v1 * 4294967296 + v2) * p + v'" "0 \<le> v'" by (auto simp: leading_def)
  have "0 < v1 * 4294967296 + v2" "0 < p" using a by (auto simp: leading_def)
  then have "0 < (v1 * 4294967296 + v2) * p" by (rule mult_pos_pos)
  then show ?thesis using v by linarith
qed

lemma leading_num: "leading u v num v1 v2 u2 p \<Longrightarrow> num < 4294967296 * (v1 + 1)"
proof -
  assume a: "leading u v num v1 v2 u2 p"
  then obtain u' v' where *: "u = (num * 4294967296 + u2) * p + u'" "0 \<le> u'"
      "v = (v1 * 4294967296 + v2) * p + v'" "v' < p" by (auto simp: leading_def)
  have b: "0 < p" "0 \<le> u2" "v2 < 4294967296" "u < 4294967296 * v" using a by (auto simp: leading_def)
  have "num * 4294967296 * p \<le> u" using * b by (simp add: algebra_simps)
  also have "\<dots> < 4294967296 * v" by (rule b)
  also have "v < (v1 * 4294967296 + v2 + 1) * p" using * by (simp add: algebra_simps)
  also have "\<dots> \<le> (v1 + 1) * 4294967296 * p" using b by (intro mult_right_mono) simp_all
  finally have "num * (4294967296 * p) < 4294967296 * (v1 + 1) * (4294967296 * p)"
    by (simp add: algebra_simps)
  then show ?thesis using b(1) by (simp only: mult_less_cancel_right)
qed

lemma lower_spec:
  assumes "leading u v num (int (unat v1)) (int (unat v2)) (int (unat u2)) p"
  shows "num = int (unat qhat) * int (unat v1) + int (unat rhat) \<Longrightarrow> unat rhat < 4294967296 \<Longrightarrow>
    unat qhat \<le> 4294967297 \<Longrightarrow> u < (int (unat qhat) + 1) * v \<Longrightarrow>
    u < (int (unat (lower v1 v2 u2 qhat rhat)) + 1) * v \<and>
    (int (unat (lower v1 v2 u2 qhat rhat)) - 1) * v < u \<and> unat (lower v1 v2 u2 qhat rhat) \<le> 4294967296"
  using assms
proof (induction v1 v2 u2 qhat rhat rule: lower.induct)
  case (1 v1 v2 u2 qhat rhat)
  note lead = 1(6) and num = 1(2)
  obtain u' v' where uv: "u = (num * 4294967296 + int (unat u2)) * p + u'" "0 \<le> u'" "u' < p"
      "v = (int (unat v1) * 4294967296 + int (unat v2)) * p + v'" "0 \<le> v'" "v' < p"
    using lead by (auto simp: leading_def)
  have i: "0 < p" "2147483648 \<le> int (unat v1)" "int (unat v1) < 4294967296"
    "int (unat v2) < 4294967296" "u < 4294967296 * v"
    using lead unfolding leading_def by blast+
  then have b: "0 < p" "1 \<le> int (unat v1)" "unat v1 < 4294967296" "unat v2 < 4294967296" "u < 4294967296 * v"
    by linarith+
  have join: "unat (push_bit 32 rhat OR ucast u2 :: u64) = unat rhat * 4294967296 + unat u2"
    using 1(3) by (rule unat_join)
  have prod: "unat (qhat * v2) = unat qhat * unat v2" if "unat qhat < 4294967296"
  proof (rule unat_mult_u64)
    have "unat qhat * unat v2 < 4294967296 * 4294967296" using that b(4) by (intro mult_strict_mono) simp_all
    then show "unat qhat * unat v2 < 18446744073709551616" by simp
  qed
  have exit: "(int (unat q) - 1) * v < u"
    if "num = int (unat q) * int (unat v1) + int r" "unat q \<le> 4294967296"
      "int (unat q) * int (unat v2) \<le> int r * 4294967296 + int (unat u2) \<or> 4294967296 \<le> int r" for q :: u64 and r
    by (rule estimate_not_above [OF that(1) uv(1,2,4,5,6) b(1)]; use that(2,3) i in linarith)
  show ?case
  proof (cases "too_large v2 u2 qhat rhat")
    case False
    then have q: "unat qhat < 4294967296" and "unat qhat * unat v2 \<le> unat rhat * 4294967296 + unat u2"
      using prod by (auto simp: too_large_def word_less_nat_alt word_le_nat_alt not_less not_le join)
    then have "int (unat qhat * unat v2) \<le> int (unat rhat * 4294967296 + unat u2)" by (simp only: of_nat_le_iff)
    then have "(int (unat qhat) - 1) * v < u"
      using exit [OF num] q by (simp del: of_nat_unat)
    then show ?thesis using False q 1(5) by (simp add: lower.simps [of v1] del: of_nat_unat)
  next
    case True
    then have pos: "unat qhat \<noteq> 0" using too_large_pos by fastforce
    then have q1: "unat (qhat - 1) = unat qhat - 1" by (intro unat_minus_one) auto
    have low: "u < int (unat qhat) * v"
    proof (cases "unat qhat < 4294967296")
      case True
      then have "unat rhat * 4294967296 + unat u2 < unat qhat * unat v2"
        using \<open>too_large v2 u2 qhat rhat\<close> prod [OF True]
        by (auto simp: too_large_def word_less_nat_alt word_le_nat_alt join)
      then have "int (unat rhat * 4294967296 + unat u2) < int (unat qhat * unat v2)" by (simp only: of_nat_less_iff)
      then show ?thesis by (intro estimate_not_below [OF num uv(1,3,4,5) b(1)]) (simp_all del: of_nat_unat)
    next
      case False
      then have "4294967296 * v \<le> int (unat qhat) * v"
        using leading_pos [OF lead] by (intro mult_right_mono) linarith+
      then show ?thesis using b(5) by linarith
    qed
    have r1: "unat (rhat + v1) = unat rhat + unat v1" using 1(3) b(3) by (intro unat_add_u64) simp
    have num1: "num = int (unat (qhat - 1)) * int (unat v1) + int (unat (rhat + v1))"
      using num pos unfolding q1 r1 by (simp add: of_nat_diff algebra_simps del: of_nat_unat)
    have low1: "u < (int (unat (qhat - 1)) + 1) * v"
      using low pos unfolding q1 by (simp add: of_nat_diff del: of_nat_unat)
    have b1: "unat (qhat - 1) \<le> 4294967296" using 1(4) q1 by simp
    show ?thesis
    proof (cases "rhat + v1 \<ge> 0x100000000")
      case True
      then have "4294967296 \<le> int (unat (rhat + v1))" by (simp add: word_le_nat_alt del: of_nat_unat)
      then have "(int (unat (qhat - 1)) - 1) * v < u" using exit [OF num1 b1] by simp
      then show ?thesis
        using True \<open>too_large v2 u2 qhat rhat\<close> low1 b1 by (simp add: lower.simps [of v1] Let_def del: of_nat_unat)
    next
      case False
      then have "unat (rhat + v1) < 4294967296" by (simp add: word_le_nat_alt not_le)
      from 1(1) [OF \<open>too_large v2 u2 qhat rhat\<close> refl refl False num1 this _ low1 lead] b1
      show ?thesis
        using False \<open>too_large v2 u2 qhat rhat\<close> by (simp add: lower.simps [of v1 v2 u2 qhat] Let_def del: of_nat_unat)
    qed
  qed
qed


section \<open>Multiply and subtract, and add back\<close>

lemma low_word_eq:
  "int (unat (of_int t :: u32)) = t - 4294967296 * (t div 4294967296)"
proof -
  have "int (unat (of_int t :: u32)) = t mod 4294967296"
    by (simp add: uint_word_of_int take_bit_eq_mod)
  then show ?thesis by (simp only: minus_mult_div_eq_mod)
qed

lemma mul_sub_val:
  "length us = Suc (length vs) \<Longrightarrow> unat qhat \<le> 4294967296 \<Longrightarrow>
   \<exists>rs t. mul_sub qhat k vs us = (rs, t < 0) \<and> length rs = Suc (length vs) \<and>
     int (wval rs) + 4294967296 ^ Suc (length vs) * (t div 4294967296) =
       int (wval us) - k - int (unat qhat) * int (wval vs)"
proof (induction vs arbitrary: us k)
  case Nil
  then obtain u where us: "us = [u]" by (cases us) auto
  let ?t = "int (unat u) - k"
  have "mul_sub qhat k [] us = ([of_int ?t], ?t < 0)" by (simp add: us)
  moreover have "int (wval [of_int ?t]) + 4294967296 * (?t div 4294967296) = ?t"
    using low_word_eq [of ?t] by (simp del: of_nat_unat)
  ultimately show ?case using us by (intro exI [of _ "[of_int ?t]"] exI [of _ ?t]) (simp del: of_nat_unat)
next
  case (Cons v vs)
  obtain u us' where us: "us = u # us'" "length us' = Suc (length vs)" using Cons.prems(1) by (cases us) auto
  define p where "p = qhat * ucast v"
  define t where "t = int (unat u) - k - int (unat (p AND 0xffffffff))"
  define k' where "k' = int (unat (drop_bit 32 p)) - t div 4294967296"
  obtain rs f where rs: "mul_sub qhat k' vs us' = (rs, f < 0)" "length rs = Suc (length vs)"
      "int (wval rs) + 4294967296 ^ Suc (length vs) * (f div 4294967296) =
        int (wval us') - k' - int (unat qhat) * int (wval vs)"
    using Cons.IH [OF us(2) Cons.prems(2)] by blast
  have "unat qhat * unat v \<le> 4294967296 * 4294967295"
    using Cons.prems(2) unat_u32_lt [of v] by (intro mult_le_mono) linarith+
  then have "unat qhat * unat (ucast v :: u64) < 18446744073709551616" by simp
  then have p: "unat p = unat qhat * unat v" unfolding p_def by (subst unat_mult_u64) simp_all
  have "(0xffffffff :: u64) = mask 32" by (simp add: mask_eq_exp_minus_1)
  then have "unat (p AND 0xffffffff) = unat p mod 4294967296" using unat_and_mask [of p 32] by simp
  then have "unat (p AND 0xffffffff) + 4294967296 * unat (drop_bit 32 p) = unat qhat * unat v"
    using mod_mult_div_eq [of "unat p" 4294967296] p by (simp add: unat_shift32)
  from arg_cong [OF this, of int] have split: "int (unat (p AND 0xffffffff)) + 4294967296 * int (unat (drop_bit 32 p)) = int (unat qhat) * int (unat v)"
    by (simp only: of_nat_add of_nat_mult of_nat_numeral)
  let ?P = "4294967296 ^ Suc (length vs) :: int"
  have "int (wval (of_int t # rs)) + 4294967296 ^ Suc (length (v # vs)) * (f div 4294967296) =
      int (unat (of_int t :: u32)) + 4294967296 * (int (wval rs) + ?P * (f div 4294967296))"
    by (simp add: algebra_simps del: of_nat_unat)
  also have "\<dots> = t - 4294967296 * (t div 4294967296) + 4294967296 * (int (wval us') - k' - int (unat qhat) * int (wval vs))"
    unfolding rs(3) low_word_eq ..
  also have "\<dots> = int (unat u) - k - (int (unat (p AND 0xffffffff)) + 4294967296 * int (unat (drop_bit 32 p)))
      + 4294967296 * (int (wval us') - int (unat qhat) * int (wval vs))"
    unfolding t_def [symmetric] k'_def by (simp add: t_def algebra_simps del: of_nat_unat)
  also have "\<dots> = int (wval us) - k - int (unat qhat) * int (wval (v # vs))"
    unfolding split us(1) by (simp add: algebra_simps del: of_nat_unat)
  finally have "int (wval (of_int t # rs)) + 4294967296 ^ Suc (length (v # vs)) * (f div 4294967296) =
      int (wval us) - k - int (unat qhat) * int (wval (v # vs))" .
  moreover have "mul_sub qhat k (v # vs) us = (of_int t # rs, f < 0)"
    using rs(1) by (simp add: us(1) Let_def p_def t_def k'_def del: of_nat_unat)
  ultimately show ?case
    using rs(2) by (intro exI [of _ "of_int t # rs"] exI [of _ f]) simp
qed

lemma add_back_val:
  "length us = Suc (length vs) \<Longrightarrow> unat c \<le> 1 \<Longrightarrow>
   \<exists>e. wval (add_back c vs us) + 4294967296 ^ Suc (length vs) * e = unat c + wval us + wval vs \<and>
     length (add_back c vs us) = Suc (length vs)"
proof (induction vs arbitrary: us c)
  case Nil
  then obtain u where us: "us = [u]" by (cases us) auto
  have "unat (u + ucast c) = (unat u + unat c) mod 4294967296"
    using Nil.prems(2) by (simp add: unat_word_ariths unat_ucast_u64_u32)
  then have "unat (u + ucast c) + 4294967296 * ((unat u + unat c) div 4294967296) = unat c + unat u"
    by (simp add: add.commute)
  then show ?case using us by (auto intro: exI [of _ "(unat u + unat c) div 4294967296"])
next
  case (Cons v vs)
  obtain u us' where us: "us = u # us'" "length us' = Suc (length vs)" using Cons.prems(1) by (cases us) auto
  let ?c = "c + (ucast u + ucast v) :: u64"
  have b: "unat c + (unat u + unat v) < 2 * 4294967296"
    using Cons.prems(2) unat_u32_lt [of u] unat_u32_lt [of v] by linarith
  then have c: "unat ?c = unat c + unat u + unat v"
    using unat_add_u64 [of c "ucast u + ucast v"] by simp
  have "unat (drop_bit 32 ?c) \<le> 1"
    using b less_mult_imp_div_less [of "unat ?c" 2 4294967296] unfolding unat_shift32 c by (simp add: add.assoc)
  then obtain e where e: "wval (add_back (drop_bit 32 ?c) vs us') + 4294967296 ^ Suc (length vs) * e =
      unat (drop_bit 32 ?c) + wval us' + wval vs" "length (add_back (drop_bit 32 ?c) vs us') = Suc (length vs)"
    using Cons.IH [OF us(2)] by blast
  have "wval (add_back c (v # vs) us) + 4294967296 ^ Suc (length (v # vs)) * e =
      unat (ucast ?c :: u32) + 4294967296 * (wval (add_back (drop_bit 32 ?c) vs us') + 4294967296 ^ Suc (length vs) * e)"
    by (simp add: us(1) Let_def algebra_simps)
  also have "\<dots> = unat (ucast ?c :: u32) + 4294967296 * unat (drop_bit 32 ?c) + 4294967296 * (wval us' + wval vs)"
    unfolding e(1) by (simp add: algebra_simps)
  also have "\<dots> = unat c + wval us + wval (v # vs)"
    unfolding carry_split c us(1) by (simp add: algebra_simps)
  finally show ?case using e(2) us(1) by (intro exI [of _ e]) (simp add: Let_def)
qed


section \<open>One word of the quotient\<close>

text \<open>A number below \<open>M\<close> and a multiple of \<open>M\<close> are determined by a sum that lies in \<open>[-M, M)\<close>.\<close>

lemma carry_cases:
  fixes r d M f :: int
  assumes "r + M * f = d" "0 \<le> r" "r < M" "- M \<le> d" "d < M"
  shows "f = (if 0 \<le> d then 0 else - 1)"
proof -
  have "0 < M" using assms(2,3) by linarith
  have "M * f < M * 1" "M * (- 2) < M * f" using assms by linarith+
  then have "f < 1" "- 2 < f" using \<open>0 < M\<close> by (auto simp only: mult_less_cancel_left_pos)
  then have "f = 0 \<or> f = - 1" by auto
  then show ?thesis using assms by auto
qed

lemma carry_unique:
  fixes r d M e :: nat
  assumes "r + M * e = M + d" "r < M" "d < M"
  shows "r = d"
proof -
  have "(r + M * e) mod M = (M + d) mod M" using assms(1) by simp
  then show ?thesis using assms(2,3) by simp
qed

lemma estimate_start:
  assumes lead: "leading u v num v1 v2 u2 p" and q: "num = q * v1 + r" "0 \<le> r" "r < v1" "u2 < 4294967296"
  shows "q \<le> 4294967297" "u < (q + 1) * v"
proof -
  have b: "2147483648 \<le> v1" "0 < p" "0 \<le> v2" "0 \<le> num" using lead by (auto simp: leading_def)
  have "4294967296 * (v1 + 1) \<le> 4294967298 * v1" using b(1) by simp
  moreover have "q * v1 \<le> num" using q(1,2) by simp
  ultimately have "q * v1 < 4294967298 * v1" using leading_num [OF lead] by linarith
  then show "q \<le> 4294967297" using b(1) by (simp add: mult_less_cancel_right)
  have "0 \<le> q"
  proof (rule ccontr)
    assume "\<not> 0 \<le> q"
    then have "q * v1 \<le> (- 1) * v1" using b(1) by (intro mult_right_mono) simp_all
    then show False using q b by linarith
  qed
  obtain u' v' where uv: "u = (num * 4294967296 + u2) * p + u'" "u' < p"
      "v = (v1 * 4294967296 + v2) * p + v'" "0 \<le> v'" using lead by (auto simp: leading_def)
  have "u < (num * 4294967296 + u2) * p + 1 * p" using uv by simp
  also have "\<dots> = (num * 4294967296 + u2 + 1) * p" by (simp only: distrib_right)
  also have "\<dots> \<le> ((num + 1) * 4294967296) * p" using q(4) b(2) by (intro mult_right_mono) simp_all
  also have "\<dots> \<le> ((q + 1) * v1 * 4294967296) * p"
  proof -
    have "num + 1 \<le> (q + 1) * v1" using q by (simp add: distrib_right)
    then show ?thesis using b(2) by (intro mult_right_mono) simp_all
  qed
  also have "\<dots> = (q + 1) * (v1 * 4294967296 * p)" by (simp only: ac_simps)
  also have "\<dots> \<le> (q + 1) * v"
  proof (rule mult_left_mono)
    have "0 \<le> v2 * p" using b by simp
    then show "v1 * 4294967296 * p \<le> v" unfolding uv(3) using uv(4) by (simp add: distrib_right)
    show "0 \<le> q + 1" using \<open>0 \<le> q\<close> by simp
  qed
  finally show "u < (q + 1) * v" .
qed

lemma list_last2: "2 \<le> length xs \<Longrightarrow> \<exists>ys a b. xs = ys @ [a, b]"
proof (cases xs rule: rev_cases)
  case (snoc ys b)
  moreover assume "2 \<le> length xs"
  ultimately show ?thesis by (cases ys rule: rev_cases) auto
qed simp

lemma div_step_leading:
  assumes "vn = vs @ [v2, v1]" "us = ls @ [u2, u1, u0]" "length ls = length vs"
    "2147483648 \<le> unat v1" "wval us < 4294967296 * wval vn"
  shows "leading (int (wval us)) (int (wval vn)) (int (unat u0 * 4294967296 + unat u1))
    (int (unat v1)) (int (unat v2)) (int (unat u2)) (4294967296 ^ length vs)"
  unfolding leading_def
proof (intro conjI exI)
  let ?P = "4294967296 ^ length vs :: int"
  show "int (wval us) = (int (unat u0 * 4294967296 + unat u1) * 4294967296 + int (unat u2)) * ?P + int (wval ls)"
    using assms(2,3) by (simp add: wval_append algebra_simps del: of_nat_unat)
  show "int (wval vn) = (int (unat v1) * 4294967296 + int (unat v2)) * ?P + int (wval vs)"
    using assms(1) by (simp add: wval_append algebra_simps del: of_nat_unat)
  have l: "int (wval xs) < 4294967296 ^ length xs" for xs
    using wval_less [of xs] by (simp flip: of_nat_less_iff)
  show "int (wval ls) < ?P" "int (wval vs) < ?P" using l [of ls] l [of vs] assms(3) by simp_all
  show "2147483648 \<le> int (unat v1)" using assms(4) by linarith
  show "int (wval us) < 4294967296 * int (wval vn)" using assms(5) by linarith
qed simp_all

lemma div_step_val:
  assumes len: "2 \<le> length vn" "length us = Suc (length vn)"
    and top: "2147483648 \<le> unat (last vn)" and lt: "wval us < 4294967296 * wval vn"
    and r: "div_step vn us = (q, us')"
  shows "unat q = wval us div wval vn" "wval us' = wval us mod wval vn" "length us' = Suc (length vn)"
proof -
  obtain vs v2 v1 where vn: "vn = vs @ [v2, v1]" using list_last2 [OF len(1)] by blast
  obtain ls u2 u1 u0 where us: "us = ls @ [u2, u1, u0]" "length ls = length vs"
  proof -
    obtain ys a b where "us = ys @ [a, b]" using list_last2 [of us] len by auto
    then show thesis using that len vn by (cases ys rule: rev_cases) auto
  qed
  let ?u = "int (wval us)" and ?v = "int (wval vn)"
  have v1: "2147483648 \<le> unat v1" using top vn by simp
  note lead = div_step_leading [OF vn us v1 lt]
  define num where "num = (push_bit 32 (ucast u0) OR ucast u1 :: u64)"
  have num: "unat num = unat u0 * 4294967296 + unat u1"
    unfolding num_def by (subst unat_join) simp_all
  define qh where "qh = lower (ucast v1) (ucast v2) u2 (num div ucast v1) (num mod ucast v1)"
  obtain rs neg where rs: "mul_sub qh 0 vn us = (rs, neg)" by fastforce
  have step: "(q, us') = (if neg then (qh - 1, add_back 0 vn rs) else (qh, rs))"
  proof -
    have "vn ! (length vn - 1) = v1" "vn ! (length vn - 2) = v2" "us ! length vn = u0"
      "us ! (length vn - 1) = u1" "us ! (length vn - 2) = u2"
      using us(2) by (simp_all add: vn us(1) nth_append)
    then show ?thesis using r rs unfolding div_step_def Let_def num_def qh_def by (simp split: if_splits)
  qed
  have dm: "int (unat num) = int (unat (num div ucast v1)) * int (unat v1) + int (unat (num mod ucast v1))"
    unfolding unat_div unat_mod using div_mult_mod_eq [of "unat num" "unat v1"]
    by (simp del: of_nat_unat flip: of_nat_mult of_nat_add)
  have rb: "unat (num mod ucast v1) < unat v1" using v1 by (simp add: unat_mod)
  have start: "int (unat (num div ucast v1)) \<le> 4294967297"
    "?u < (int (unat (num div ucast v1)) + 1) * ?v"
    using estimate_start [OF lead dm [unfolded num]] rb by (simp_all del: of_nat_unat add: num)
  have low: "?u < (int (unat qh) + 1) * ?v \<and> (int (unat qh) - 1) * ?v < ?u \<and> unat qh \<le> 4294967296"
    unfolding qh_def
  proof (rule lower_spec)
    show "leading ?u ?v (int (unat num)) (int (unat (ucast v1 :: u64))) (int (unat (ucast v2 :: u64)))
        (int (unat u2)) (4294967296 ^ length vs)"
      using lead by (simp add: num del: of_nat_unat)
    show "int (unat num) = int (unat (num div ucast v1)) * int (unat (ucast v1 :: u64)) + int (unat (num mod ucast v1))"
      using dm by (simp del: of_nat_unat)
    show "unat (num mod ucast v1) < 4294967296" using rb unat_u32_lt [of v1] by linarith
  qed (use start in \<open>simp_all del: of_nat_unat\<close>)
  define d where "d = ?u - int (unat qh) * ?v"
  have d: "- ?v < d" "d < ?v" using low by (simp_all add: d_def algebra_simps del: of_nat_unat)
  let ?M = "4294967296 ^ Suc (length vn) :: nat"
  obtain t where t: "neg \<longleftrightarrow> t < 0" "length rs = Suc (length vn)" "int (wval rs) + int ?M * (t div 4294967296) = d"
    using mul_sub_val [OF len(2), of qh 0] low rs by (auto simp: d_def simp del: of_nat_unat)
  have rM: "wval rs < ?M" using wval_less [of rs] t(2) by simp
  have vM: "wval vn < ?M"
    using wval_less [of vn] by (rule less_le_trans) simp
  have f: "t div 4294967296 = (if 0 \<le> d then 0 else - 1)"
  proof (rule carry_cases [OF t(3)])
    show "- int ?M \<le> d" "d < int ?M" using d vM by linarith+
    show "int (wval rs) < int ?M" using rM by (simp only: of_nat_less_iff)
  qed simp
  have vpos: "0 < ?v" by (rule leading_pos [OF lead])
  have res: "unat q = wval us div wval vn \<and> wval us' = wval us mod wval vn"
    if "int (wval us') = ?u - int (unat q) * ?v" "wval us' < wval vn"
  proof -
    have "int (unat q * wval vn + wval us') = int (wval us)" using that(1) by (simp del: of_nat_unat)
    then have "unat q * wval vn + wval us' = wval us" by (simp only: of_nat_eq_iff)
    then have "wval us = wval us' + unat q * wval vn" by simp
    then show ?thesis using that(2) by simp
  qed
  show "length us' = Suc (length vn)"
    using step t(2) add_back_val [OF t(2), of 0] by (auto split: if_splits)
  have "int (wval us') = ?u - int (unat q) * ?v \<and> wval us' < wval vn"
  proof (cases "0 \<le> d")
    case True
    then have "t div 4294967296 = 0" using f by simp
    then have "\<not> neg" using t(1) by (simp add: neg_imp_zdiv_neg_iff not_less [symmetric])
    then have "q = qh" "us' = rs" using step by simp_all
    then show ?thesis using t(3) True d f by (simp add: d_def del: of_nat_unat)
  next
    case False
    then have "neg" using f t(1) by (metis neg_equal_zero pos_imp_zdiv_nonneg_iff not_less zero_less_numeral le_minus_one_simps(3))
    then have q: "q = qh - 1" "us' = add_back 0 vn rs" using step by simp_all
    have "unat qh \<noteq> 0"
    proof
      assume "unat qh = 0"
      then have "d = ?u" unfolding d_def by (simp only: of_nat_0 mult_zero_left diff_zero)
      then show False using False by simp
    qed
    then have "unat q = unat qh - 1" unfolding q(1) by (intro unat_minus_one) auto
    then have qh: "int (unat q) = int (unat qh) - 1" using \<open>unat qh \<noteq> 0\<close> by linarith
    obtain e where e: "wval us' + ?M * e = wval rs + wval vn"
      using add_back_val [OF t(2), of 0] q(2) by auto
    define dv where "dv = nat (d + ?v)"
    have dv: "int dv = d + ?v" "dv < wval vn" using d False by (auto simp: dv_def)
    have "int (wval rs) = d + int ?M" using t(3) f False by simp
    then have "int (wval us' + ?M * e) = int (?M + dv)" unfolding e using dv(1) by simp
    then have "wval us' + ?M * e = ?M + dv" by (simp only: of_nat_eq_iff)
    moreover have "wval us' < ?M" using wval_less [of us'] \<open>length us' = Suc (length vn)\<close> by simp
    moreover have "dv < ?M" using dv(2) vM by linarith
    ultimately have "wval us' = dv" by (rule carry_unique)
    then show ?thesis using dv unfolding qh d_def by (simp add: algebra_simps del: of_nat_unat)
  qed
  then show "unat q = wval us div wval vn" "wval us' = wval us mod wval vn" using res by blast+
qed


section \<open>Algorithm D\<close>

lemma wval_take_drop: "j \<le> length ws \<Longrightarrow> wval ws = wval (take j ws) + 4294967296 ^ j * wval (drop j ws)"
  using wval_append [of "take j ws" "drop j ws"] by simp

text \<open>A number of more than \<open>n\<close> words that is below \<open>4294967296 ^ n\<close> is its low \<open>n\<close> words.\<close>

lemma high_words_0:
  assumes "wval ws < 4294967296 ^ n"
  shows "wval (drop n ws) = 0" "wval (take n ws) = wval ws"
proof -
  have "wval ws = wval (take n ws) + 4294967296 ^ n * wval (drop n ws)"
    by (cases "n \<le> length ws") (simp_all add: wval_take_drop)
  moreover from this show "wval (drop n ws) = 0"
    using assms by (cases "wval (drop n ws)") auto
  ultimately show "wval (take n ws) = wval ws" by simp
qed

lemma div_loop_val:
  assumes vn: "2 \<le> length vn" "2147483648 \<le> unat (last vn)"
  shows "length vn + j \<le> length un \<Longrightarrow> wval (drop j un) < wval vn \<Longrightarrow> div_loop j vn un qs = (qs', un') \<Longrightarrow>
    length un' = length un \<and> wval un' < wval vn \<and>
    wval un + 4294967296 ^ j * wval qs * wval vn = wval un' + wval qs' * wval vn"
proof (induction j arbitrary: un qs)
  case (Suc j)
  let ?n = "length vn" and ?V = "wval vn"
  define us where "us = take (?n + 1) (drop j un)"
  have lus: "length us = Suc ?n" using Suc.prems(1) by (simp add: us_def)
  obtain q us' where step: "div_step vn us = (q, us')" by fastforce
  have "?V < 4294967296 ^ ?n" by (rule wval_less)
  then have "wval (drop (Suc j) un) < 4294967296 ^ ?n" using Suc.prems(2) by simp
  from high_words_0 [OF this] have high: "wval (drop (j + ?n + 1) un) = 0"
    by (simp add: add.commute)
  have un0: "wval un = wval (take j un) + 4294967296 ^ j * wval (drop j un)"
    using wval_take_drop [of j un] Suc.prems(1) by simp
  have "wval (drop j un) = wval us + 4294967296 ^ (?n + 1) * wval (drop (?n + 1) (drop j un))"
    unfolding us_def using Suc.prems(1) by (intro wval_take_drop) simp
  then have us: "wval (drop j un) = wval us" using high by (simp add: add.commute)
  have "drop j un = un ! j # drop (Suc j) un" using Suc.prems(1) by (intro Cons_nth_drop_Suc [symmetric]) simp
  then have "wval us = unat (un ! j) + 4294967296 * wval (drop (Suc j) un)" unfolding us [symmetric] by simp
  also have "\<dots> < 4294967296 * Suc (wval (drop (Suc j) un))" by simp
  also have "\<dots> \<le> 4294967296 * ?V" using Suc.prems(2) by (intro mult_le_mono2) simp
  finally have lt: "wval us < 4294967296 * ?V" .
  note d = div_step_val [OF vn(1) lus vn(2) lt step]
  have Vpos: "0 < ?V" using lt by (cases ?V) auto
  define un1 where "un1 = take j un @ us' @ drop (j + ?n + 1) un"
  have len1: "length un1 = length un" "length (take j un) = j"
    using Suc.prems(1) d(3) by (simp_all add: un1_def)
  have dr1: "wval (drop j un1) = wval us'" using len1(2) high by (simp add: un1_def wval_append)
  have "div_loop j vn un1 (ucast q # qs) = (qs', un')"
    using Suc.prems(3) step unfolding us_def un1_def by (simp add: Let_def)
  moreover have "wval (drop j un1) < ?V" using dr1 d(2) Vpos by simp
  moreover have "?n + j \<le> length un1" using len1(1) Suc.prems(1) by simp
  ultimately have IH: "length un' = length un1 \<and> wval un' < ?V \<and>
      wval un1 + 4294967296 ^ j * wval (ucast q # qs) * ?V = wval un' + wval qs' * ?V"
    using Suc.IH by blast
  have q: "unat (ucast q :: u32) = unat q"
  proof -
    have "wval us div ?V < 4294967296" using lt by (simp add: less_mult_imp_div_less)
    then show ?thesis using d(1) by (simp add: unat_ucast_u64_u32)
  qed
  have un1: "wval un1 = wval (take j un) + 4294967296 ^ j * wval us'"
    using wval_take_drop [of j un1] dr1 len1 Suc.prems(1) by (simp add: un1_def)
  have "wval us = unat q * ?V + wval us'" using d(1,2) by simp
  then have "wval un + 4294967296 ^ Suc j * wval qs * ?V = wval un1 + 4294967296 ^ j * wval (ucast q # qs) * ?V"
    unfolding un0 us un1 by (simp add: q algebra_simps)
  then show ?case using IH len1(1) by simp
qed simp

lemma mag_divmod_val:
  assumes ok: "big_ok u" "big_ok v" and len: "2 \<le> length (bw v)" and le: "mag v \<le> mag u"
    and r: "mag_divmod u v = (q, r)"
  shows "mag q = mag u div mag v" "mag r = mag u mod mag v" "big_ok q" "big_ok r"
proof -
  let ?m = "length (bw u)" and ?n = "length (bw v)"
  define s where "s = clz32 (bw v ! (?n - 1))"
  define vn where "vn = norm_words s 0 (bw v)"
  define un where "un = norm_words s 0 (bw u) @ [ucast (drop_bit (32 - s) (ucast (bw u ! (?m - 1)) :: u64))]"
  have nv: "bw v \<noteq> []" using len by auto
  then have lastv: "last (bw v) \<noteq> 0" using ok(2) by (simp add: big_ok_def)
  have mn: "?n \<le> ?m"
    using length_less_wval [of "bw u" "bw v"] lastv le by (auto simp: mag_def not_le [symmetric])
  then have nu: "bw u \<noteq> []" using len by auto
  have s: "s = clz32 (last (bw v))" using nv by (simp add: s_def last_conv_nth)
  note clz = clz32_spec [OF lastv, folded s]
  have vV: "wval vn = mag v * 2 ^ s"
    unfolding vn_def mag_def by (rule norm_val_fits [OF clz(1) nv clz(3)])
  have uU: "wval un = mag u * 2 ^ s"
    unfolding un_def mag_def using norm_val [OF clz(1) nu] nu by (simp add: last_conv_nth)
  have ln: "length vn = ?n" "length un = Suc ?m" by (simp_all add: vn_def un_def)
  have top: "2147483648 \<le> unat (last vn)"
  proof -
    obtain ws w where ws: "bw v = ws @ [w]" using nv by (cases "bw v" rule: rev_cases) auto
    obtain xs x where xs: "vn = xs @ [x]" using ln(1) nv by (cases vn rule: rev_cases) auto
    have lx: "length xs = length ws" using ln(1) ws xs by simp
    have "4294967296 ^ length ws * (unat w * 2 ^ s) \<le> wval vn"
      unfolding vV mag_def ws by (simp add: wval_append algebra_simps)
    also have "\<dots> < 4294967296 ^ length ws * Suc (unat x)"
      using wval_less [of xs] lx by (simp add: xs wval_append)
    finally have "unat w * 2 ^ s < Suc (unat x)" by (simp only: nat_mult_less_cancel_disj)
    then have "unat w * 2 ^ s \<le> unat x" by simp
    moreover have "2 ^ (31 - s) * 2 ^ s \<le> unat w * 2 ^ s" using clz(2) ws by (intro mult_le_mono1) simp
    moreover have "(2 :: nat) ^ (31 - s) * 2 ^ s = 2147483648" using clz(1) by (simp flip: power_add)
    ultimately show ?thesis using xs by simp
  qed
  have start: "wval (drop (?m - ?n + 1) un) < wval vn"
  proof -
    let ?k = "?m - ?n + 1"
    have "4294967296 ^ ?k * wval (drop ?k un) \<le> wval un"
      using wval_take_drop [of ?k un] ln(2) mn len by simp
    also have "\<dots> < 4294967296 ^ ?m * 2 ^ s" unfolding uU mag_def using wval_less [of "bw u"] by simp
    also have "\<dots> = 4294967296 ^ ?k * (4294967296 ^ (?n - 1) * 2 ^ s)"
    proof -
      have "?m = ?k + (?n - 1)" using mn nv by (cases "bw v") simp_all
      then have "(4294967296 :: nat) ^ ?m = 4294967296 ^ ?k * 4294967296 ^ (?n - 1)" by (metis power_add)
      then show ?thesis by simp
    qed
    finally have "wval (drop ?k un) < 4294967296 ^ (?n - 1) * 2 ^ s" by (simp only: nat_mult_less_cancel_disj)
    also have "\<dots> \<le> mag v * 2 ^ s"
      unfolding mag_def using wval_ge [OF nv lastv] by (rule mult_le_mono1)
    finally show ?thesis unfolding vV .
  qed
  obtain qs un' where loop: "div_loop (?m - ?n + 1) vn un [] = (qs, un')" by fastforce
  have res: "q = trim \<lparr>bw = qs, bneg = False\<rparr>" "r = trim \<lparr>bw = denorm_words s (take ?n un'), bneg = False\<rparr>"
    using r loop unfolding mag_divmod_def Let_def s_def [symmetric] vn_def [symmetric] un_def [symmetric] by auto
  show "big_ok q" "big_ok r" unfolding res by simp_all
  have dl: "wval un' < wval vn" "wval un = wval un' + wval qs * wval vn"
    using div_loop_val [OF _ top _ start loop] len ln mn by simp_all
  have "wval un' < 4294967296 ^ ?n" using dl(1) wval_less [of vn] ln(1) by simp
  then have low: "wval (take ?n un') = wval un'" by (rule high_words_0)
  have rm: "mag r = wval un' div 2 ^ s"
    unfolding res mag_trim using denorm_val [OF clz(1)] low by (simp add: mag_def)
  have qm: "mag q = wval qs" unfolding res mag_trim by (simp add: mag_def)
  have p: "(0 :: nat) < 2 ^ s" by simp
  have "mag u * 2 ^ s = wval un' + mag q * mag v * 2 ^ s" using dl(2) uU vV qm by simp
  then have "2 ^ s dvd wval un'" by (metis dvd_add_left_iff dvd_triv_right)
  then have un': "wval un' = mag r * 2 ^ s" using rm by simp
  then have "mag u * 2 ^ s = (mag r + mag q * mag v) * 2 ^ s"
    using \<open>mag u * 2 ^ s = _\<close> by (simp add: algebra_simps)
  then have "mag u = mag r + mag q * mag v" by simp
  moreover have "mag r < mag v" using dl(1) unfolding un' vV by simp
  ultimately show "mag q = mag u div mag v" "mag r = mag u mod mag v" by simp_all
qed

section \<open>The division\<close>

text \<open>Truncated division of integers, as C divides.\<close>

definition tdiv :: "int \<Rightarrow> int \<Rightarrow> int" where
  "tdiv a b = sgn a * sgn b * (\<bar>a\<bar> div \<bar>b\<bar>)"

definition tmod :: "int \<Rightarrow> int \<Rightarrow> int" where
  "tmod a b = sgn a * (\<bar>a\<bar> mod \<bar>b\<bar>)"

lemma tdiv_tmod: "a = tdiv a b * b + tmod a b"
proof -
  have "sgn a * \<bar>a\<bar> = sgn a * (\<bar>a\<bar> div \<bar>b\<bar> * \<bar>b\<bar> + \<bar>a\<bar> mod \<bar>b\<bar>)" by simp
  moreover have "\<bar>b\<bar> = sgn b * b" by (simp add: abs_sgn mult.commute)
  moreover have "sgn a * \<bar>a\<bar> = a" by (rule sgn_mult_abs)
  ultimately show ?thesis
    by (simp only: tdiv_def tmod_def distrib_left ac_simps)
qed

lemma tmod_bound: "b \<noteq> 0 \<Longrightarrow> \<bar>tmod a b\<bar> < \<bar>b\<bar>"
  by (cases "a = 0") (auto simp: tmod_def abs_mult)

lemma divmod_mag:
  assumes ok: "big_ok a" "big_ok b" and nz: "mag b \<noteq> 0" and r: "limba_big_divmod a b = (q, m)"
  shows "mag q = mag a div mag b" "mag m = mag a mod mag b" "big_ok q" "big_ok m"
    "bneg q \<longleftrightarrow> bw q \<noteq> [] \<and> bneg a \<noteq> bneg b" "bneg m \<longleftrightarrow> bw m \<noteq> [] \<and> bneg a"
proof -
  define t where "t = (if length (bw b) = 1 then
      let (qs, rem) = div_word (ucast (bw b ! 0)) 0 (rev (bw a))
      in (trim \<lparr>bw = rev qs, bneg = False\<rparr>, limba_big_set_u64 rem)
    else if mag_cmp a b < 0 then (limba_big_init, limba_big_abs a) else mag_divmod a b)"
  obtain tq tr where t: "t = (tq, tr)" by fastforce
  have qm: "q = tq\<lparr>bneg := bw tq \<noteq> [] \<and> bneg a \<noteq> bneg b\<rparr>" "m = tr\<lparr>bneg := bw tr \<noteq> [] \<and> bneg a\<rparr>"
    using r t unfolding limba_big_divmod_def t_def [symmetric] by simp_all
  have "mag tq = mag a div mag b \<and> mag tr = mag a mod mag b \<and> big_ok tq \<and> big_ok tr"
  proof (cases "length (bw b) = 1")
    case True
    then obtain d where d: "bw b = [d]" by (cases "bw b") auto
    obtain qs rem where w: "div_word (ucast d) 0 (rev (bw a)) = (qs, rem)" by fastforce
    have tt: "tq = trim \<lparr>bw = rev qs, bneg = False\<rparr>" "tr = limba_big_set_u64 rem"
      using t w True d by (simp_all add: t_def)
    have md: "mag b = unat d" using d by (simp add: mag_def)
    have "unat rem < unat d \<and> wval (bw a) = wval (rev qs) * unat d + unat rem"
      using div_word_val [of "ucast d" 0 "rev (bw a)"] w nz md by simp
    then have "unat rem < unat d" "mag a = unat rem + mag tq * unat d"
      unfolding tt mag_trim by (simp_all add: mag_def)
    then show ?thesis using md tt set_u64_val [of rem] by simp
  next
    case False
    have "bw b \<noteq> []" using nz mag_0_iff [OF ok(2)] by simp
    then have len: "2 \<le> length (bw b)" using False by (cases "bw b"; cases "tl (bw b)") auto
    show ?thesis
    proof (cases "mag_cmp a b < 0")
      case True
      then have "mag a < mag b" using mag_cmp_ge [OF ok] by simp
      moreover have "tq = limba_big_init" "tr = limba_big_abs a" using t True False by (simp_all add: t_def)
      ultimately show ?thesis using abs_val ok by (simp add: limba_big_init_def mag_def big_ok_def)
    next
      case Fmag: False
      then have "mag b \<le> mag a" using mag_cmp_ge [OF ok] by simp
      moreover have "mag_divmod a b = (tq, tr)" using t Fmag False by (simp add: t_def)
      ultimately show ?thesis using mag_divmod_val [OF ok len] by blast
    qed
  qed
  then show "mag q = mag a div mag b" "mag m = mag a mod mag b" "big_ok q" "big_ok m"
    by (auto simp: qm mag_def big_ok_def)
  show "bneg q \<longleftrightarrow> bw q \<noteq> [] \<and> bneg a \<noteq> bneg b" "bneg m \<longleftrightarrow> bw m \<noteq> [] \<and> bneg a"
    by (simp_all add: qm)
qed

lemma divmod_val:
  assumes ok: "big_ok a" "big_ok b" and nz: "val b \<noteq> 0" and r: "limba_big_divmod a b = (q, m)"
  shows "val q = tdiv (val a) (val b)" "val m = tmod (val a) (val b)" "big_ok q" "big_ok m"
proof -
  have "mag b \<noteq> 0" using nz by (simp add: mag_val)
  note d = divmod_mag [OF ok this r]
  show "big_ok q" "big_ok m" by (rule d)+
  have q0: "bw q = [] \<longleftrightarrow> mag q = 0" and m0: "bw m = [] \<longleftrightarrow> mag m = 0" using mag_0_iff d(3,4) by auto
  show "val q = tdiv (val a) (val b)"
    using d(1,5) q0 \<open>mag b \<noteq> 0\<close> by (cases "mag a = 0") (auto simp: val_def tdiv_def simp flip: of_nat_div)
  show "val m = tmod (val a) (val b)"
    using d(2,6) m0 by (cases "mag a = 0") (auto simp: val_def tmod_def simp flip: of_nat_mod)
qed

section \<open>What the division promises\<close>

text \<open>
  C18: \<open>limba_big_divmod\<close> (Knuth's algorithm D, with its estimate and its correction) gives the quotient
  truncated toward zero and the remainder with the sign of the dividend, in normal form, for every
  divisor but zero.
\<close>

theorem big_divmod_exact:
  assumes "big_ok a" "big_ok b" "val b \<noteq> 0" "limba_big_divmod a b = (q, m)"
  shows "val a = val q * val b + val m \<and> \<bar>val m\<bar> < \<bar>val b\<bar> \<and> (val m = 0 \<or> sgn (val m) = sgn (val a)) \<and>
    big_ok q \<and> big_ok m"
proof -
  have v: "val q = tdiv (val a) (val b)" "val m = tmod (val a) (val b)" "big_ok q" "big_ok m"
    using divmod_val [OF assms] by blast+
  have "\<bar>tmod (val a) (val b)\<bar> < \<bar>val b\<bar>"
    using assms(3) by (simp add: tmod_def abs_mult abs_sgn_eq)
  moreover have "tmod (val a) (val b) = 0 \<or> sgn (tmod (val a) (val b)) = sgn (val a)"
    by (auto simp: tmod_def sgn_mult sgn_if) (use assms(3) in \<open>smt (verit) mod_pos_pos_trivial pos_mod_sign\<close>)+
  ultimately show ?thesis using v tdiv_tmod [of "val a" "val b"] by simp
qed

theorem big_divmod_exact_witness:
  "val (fst (limba_big_divmod (limba_big_set_i64 (- 7)) (limba_big_set_i64 2))) * 2 +
     val (snd (limba_big_divmod (limba_big_set_i64 (- 7)) (limba_big_set_i64 2))) = - 7"
  using big_divmod_exact [of "limba_big_set_i64 (- 7)" "limba_big_set_i64 2"]
  by (cases "limba_big_divmod (limba_big_set_i64 (- 7)) (limba_big_set_i64 2)") (auto simp: set_i64_val)

end
