(* ===== verification/Bignum.thy ===== *)
theory Bignum
  imports Bigdiv
begin

text \<open>
  Powers, common divisors and multiples, roots and modular powers
  (\<^verbatim>\<open>src/src/common/bigint.c\<close>). The result of an operation is a flag and the number \<open>*r\<close> holds after it;
  \<open>r\<close> is the old value, which some failures leave in place.

  The loops whose end depends on the value of the operands are partial functions: \<open>None\<close> is a loop
  that does not end, and the theorems show that this does not happen.
\<close>

section \<open>Powers\<close>

lemma unat_half: "unat (drop_bit 1 (e :: u64)) = unat e div 2" "unat (drop_bit (Suc 0) e) = unat e div 2"
  by (simp_all add: unat_drop_bit)

lemma half_less: "(e :: u64) \<noteq> 0 \<Longrightarrow> unat (drop_bit 1 e) < unat e"
  unfolding unat_half using unat_eq_0 [of e] by simp

function pow_loop :: "limba_big \<Rightarrow> limba_big \<Rightarrow> u64 \<Rightarrow> bool \<Rightarrow> u64 \<Rightarrow> bool \<times> limba_big" where
  "pow_loop result base e ok maxbits =
     (if e \<noteq> 0 \<and> ok
      then let (ok, result) =
             (if e AND 1 \<noteq> 0 then limba_big_mul_lim result result base maxbits else (ok, result));
             e = drop_bit 1 e;
             (ok, base) = (if e \<noteq> 0 \<and> ok then limba_big_mul_lim base base base maxbits else (ok, base))
           in pow_loop result base e ok maxbits
      else (ok, result))"
  by pat_completeness auto
termination
  by (relation "measure (\<lambda>(result, base, e, ok, maxbits). unat e)")
     (use half_less in simp_all)

declare pow_loop.simps [simp del]

definition limba_big_pow_lim :: "limba_big \<Rightarrow> limba_big \<Rightarrow> u64 \<Rightarrow> u64 \<Rightarrow> bool \<times> limba_big" where
  "limba_big_pow_lim r a e maxbits =
     (let bits = limba_big_bits a
      in if bits > 1 \<and> e > 0 \<and> (e > maxbits \<or> ucast (bits - 1) * e > maxbits) then (False, r)
         else pow_loop (limba_big_set_u64 1) (limba_big_copy a) e True maxbits)"

definition limba_big_pow :: "limba_big \<Rightarrow> limba_big \<Rightarrow> u64 \<Rightarrow> bool \<times> limba_big" where
  "limba_big_pow r a e = limba_big_pow_lim r a e LIMBA_BIG_MAXBITS"

section \<open>Common divisors and multiples\<close>

partial_function (option) gcd_loop :: "limba_big \<Rightarrow> limba_big \<Rightarrow> limba_big option" where
  "gcd_loop x y =
     (if bw y \<noteq> [] then let (_, t) = limba_big_divmod x y in gcd_loop y t else Some x)"

definition limba_big_gcd :: "limba_big \<Rightarrow> limba_big \<Rightarrow> limba_big option" where
  "limba_big_gcd a b = gcd_loop (limba_big_abs a) (limba_big_abs b)"

definition limba_big_lcm_lim ::
    "limba_big \<Rightarrow> limba_big \<Rightarrow> limba_big \<Rightarrow> u64 \<Rightarrow> (bool \<times> limba_big) option" where
  "limba_big_lcm_lim r a b maxbits =
     (if bw a = [] \<or> bw b = [] then Some (True, limba_big_set_u64 0)
      else case limba_big_gcd a b of
             None \<Rightarrow> None
           | Some g \<Rightarrow>
               let (q, _) = limba_big_divmod (limba_big_abs a) g
               in Some (limba_big_mul_lim r q (limba_big_abs b) maxbits))"

section \<open>Roots\<close>

text \<open>
  Newton's loop. A \<open>None\<close> inside is a step past the limit, at which the code leaves \<open>*r\<close> alone; the
  temporaries \<open>p\<close> and \<open>y\<close> are empty before the first step and hold no result of their own.
\<close>

definition newton_step :: "limba_big \<Rightarrow> limba_big \<Rightarrow> u64 \<Rightarrow> u64 \<Rightarrow> u64 \<Rightarrow> limba_big option" where
  "newton_step m x k bits maxbits =
     (let (ok, p) = limba_big_pow_lim limba_big_init x (k - 1) (maxbits + bits)
      in if \<not> ok then None
         else let (q, _) = limba_big_divmod m p;
                  (ok, y) = limba_big_mul_lim limba_big_init x (limba_big_set_u64 (k - 1)) maxbits
              in if \<not> ok then None
                 else let (ok, y) = limba_big_add_lim y q maxbits
                      in if \<not> ok then None
                         else Some (fst (limba_big_divmod y (limba_big_set_u64 k))))"

partial_function (option) newton_loop ::
    "limba_big \<Rightarrow> u64 \<Rightarrow> u64 \<Rightarrow> u64 \<Rightarrow> limba_big \<Rightarrow> limba_big option option" where
  "newton_loop m k bits maxbits x =
     (case newton_step m x k bits maxbits of
        None \<Rightarrow> Some None
      | Some y \<Rightarrow>
          if limba_big_cmp y x \<ge> 0 then Some (Some x)
          else newton_loop m k bits maxbits (limba_big_copy y))"

definition limba_big_root_lim ::
    "limba_big \<Rightarrow> limba_big \<Rightarrow> u64 \<Rightarrow> u64 \<Rightarrow> (bool \<times> limba_big) option" where
  "limba_big_root_lim r a k maxbits =
     (let neg = bneg a; m = limba_big_abs a; bits = limba_big_bits m
      in if bits = 0 \<or> k = 1 \<or> k \<ge> ucast bits
         then Some (True, if k = 1 then limba_big_copy a
                          else limba_big_set_i64 (if bits = 0 then 0 else if neg then - 1 else 1))
         else
           let (ok, x) = limba_big_shl_lim (limba_big_set_u64 1) (limba_big_set_u64 1)
                           (ucast ((ucast bits + k - 1) div k)) maxbits
           in if \<not> ok then Some (False, r)
              else case newton_loop m k (ucast bits) maxbits x of
                     None \<Rightarrow> None
                   | Some None \<Rightarrow> Some (False, r)
                   | Some (Some x) \<Rightarrow> Some (True, limba_big_copy (if neg then limba_big_neg x else x)))"

section \<open>Modular powers\<close>

text \<open>The bits of the exponent, from the most significant one: \<open>i\<close> of them are left.\<close>

fun powmod_loop :: "nat \<Rightarrow> limba_big \<Rightarrow> limba_big \<Rightarrow> limba_big \<Rightarrow> limba_big \<Rightarrow> limba_big \<Rightarrow> u64 \<Rightarrow> limba_big option" where
  "powmod_loop 0 acc t base e mm maxbits = Some acc"
| "powmod_loop (Suc i) acc t base e mm maxbits =
     (let (ok, t) = limba_big_mul_lim t acc acc maxbits
      in if \<not> ok then None
         else let acc = snd (limba_big_divmod t mm)
              in if drop_bit (i mod 32) (bw e ! (i div 32)) AND 1 \<noteq> 0
                 then let (ok, t) = limba_big_mul_lim t acc base maxbits
                      in if \<not> ok then None
                         else powmod_loop i (snd (limba_big_divmod t mm)) t base e mm maxbits
                 else powmod_loop i acc t base e mm maxbits)"

definition limba_big_powmod_lim ::
    "limba_big \<Rightarrow> limba_big \<Rightarrow> limba_big \<Rightarrow> limba_big \<Rightarrow> u64 \<Rightarrow> bool \<times> limba_big" where
  "limba_big_powmod_lim r b e m maxbits =
     (let mm = limba_big_abs m;
          base = snd (limba_big_divmod b mm);
          (ok, base) = (if bneg base then limba_big_add_lim base mm maxbits else (True, base));
          acc = snd (limba_big_divmod (limba_big_set_u64 1) mm)
      in if \<not> ok then (False, r)
         else case powmod_loop (unat (limba_big_bits e)) acc limba_big_init base e mm maxbits of
                None \<Rightarrow> (False, r)
              | Some acc \<Rightarrow> (True, limba_big_copy acc))"

section \<open>What the operations compute\<close>

lemma copy_eq [simp]: "limba_big_copy a = a"
  by (simp add: limba_big_copy_def)

lemma mag_eq_val: "int (mag a) = \<bar>val a\<bar>"
  by (simp add: mag_val)

lemma mag_prod: "val c = val a * val b \<Longrightarrow> mag c = mag a * mag b"
  by (simp only: mag_val abs_mult nat_mult_distrib abs_ge_zero)

lemma odd_and_1: "(e :: u64) AND 1 \<noteq> 0 \<longleftrightarrow> odd (unat e)"
proof -
  have "(mask 1 :: u64) = 1" by (simp add: mask_eq_exp_minus_1)
  then have "unat (e AND 1) = unat e mod 2" using unat_and_mask [of e 1] by (simp only: power_one_right)
  then show ?thesis using unat_eq_0 [of "e AND 1"] by (simp add: even_iff_mod_2_eq_zero)
qed

lemma pow_loop_False: "pow_loop result base e False maxbits = (False, result)"
  by (simp add: pow_loop.simps)

lemma power_le_power_times:
  fixes x :: nat
  assumes "r \<noteq> 0" "x \<noteq> 0" "0 < e"
  shows "x \<le> r * x ^ e"
proof -
  have "1 * x ^ 1 \<le> r * x ^ e" using assms by (intro mult_le_mono power_increasing) simp_all
  then show ?thesis by simp
qed

lemma power_half:
  fixes x :: "'a :: comm_monoid_mult"
  assumes "n' = n div 2"
  shows "x ^ n = (if odd n then x else 1) * (x * x) ^ n'"
proof (cases "odd n")
  case True
  then have "n = Suc (2 * n')" using assms by simp
  then show ?thesis by (simp add: power_mult power2_eq_square)
next
  case False
  then have "n = 2 * n'" using assms by simp
  then show ?thesis by (simp add: power_mult power2_eq_square)
qed

lemma pow_loop_val:
  assumes mb: "unat maxbits + 1 < 2 ^ 64"
  shows "within maxbits result \<Longrightarrow> small result \<Longrightarrow> big_ok base \<Longrightarrow> small base \<Longrightarrow>
    mag result \<noteq> 0 \<or> mag base = 0 \<Longrightarrow> counted maxbits (mag result * mag base ^ unat e) \<Longrightarrow>
    pow_loop result base e True maxbits = (ok, r) \<Longrightarrow>
    (ok \<longleftrightarrow> mag result * mag base ^ unat e < 2 ^ unat maxbits) \<and>
    (ok \<longrightarrow> within maxbits r \<and> small r \<and> val r = val result * val base ^ unat e)"
proof (induction "unat e" arbitrary: result base e rule: less_induct)
  case less
  have okr: "big_ok result" using less.prems(1) by (simp add: within_def)
  show ?case
  proof (cases "e = 0")
    case True
    then show ?thesis using less.prems by (auto simp: pow_loop.simps [of result base] within_def)
  next
    case False
    define e' where "e' = drop_bit 1 e"
    have e': "unat e' = unat e div 2" "unat e' < unat e"
      using half_less [OF False] by (simp_all add: e'_def unat_half)
    obtain ok1 r1 where 1: "(if e AND 1 \<noteq> 0 then limba_big_mul_lim result result base maxbits else (True, result)) = (ok1, r1)"
      by fastforce
    obtain ok2 b2 where 2: "(if e' \<noteq> 0 \<and> ok1 then limba_big_mul_lim base base base maxbits else (ok1, base)) = (ok2, b2)"
      by fastforce
    have loop: "pow_loop r1 b2 e' ok2 maxbits = (ok, r)"
      using less.prems(7) False 1 2 unfolding pow_loop.simps [of result base] e'_def [symmetric] Let_def by simp
    let ?R1 = "mag result * (if odd (unat e) then mag base else 1)"
    let ?T = "?R1 * (mag base * mag base) ^ unat e'"
    have m: "mag result * mag base ^ unat e = ?T"
      by (subst power_half [OF e'(1)]) simp
    have v: "val result * val base ^ unat e =
        val result * (if odd (unat e) then val base else 1) * (val base * val base) ^ unat e'"
      by (subst power_half [OF e'(1)]) simp
    have cT: "counted maxbits ?T" using less.prems(6) unfolding m .
    have w0: "mag base = 0 \<Longrightarrow> within maxbits base" using less.prems(3) by (simp add: within_def)
    have R1le: "?R1 \<le> ?T" if "mag base \<noteq> 0 \<or> odd (unat e)" using that by auto
    have sqle: "mag base * mag base \<le> ?T" if "unat e' \<noteq> 0"
    proof (cases "mag base = 0")
      case False
      then show ?thesis using less.prems(5) that by (intro power_le_power_times) auto
    qed simp
    have r1: "(ok1 \<longleftrightarrow> ?R1 < 2 ^ unat maxbits) \<and> (ok1 \<longrightarrow> within maxbits r1 \<and> small r1 \<and> mag r1 = ?R1 \<and>
        val r1 = val result * (if odd (unat e) then val base else 1))"
    proof (cases "odd (unat e)")
      case True
      have "counted maxbits (mag result * mag base)" using counted_le [OF cT] R1le True by simp
      note mul = mul_lim_counted [OF okr less.prems(2-4) mb this]
      show ?thesis using True 1 mul [of result ok1 r1] less.prems(1,5) w0 by (auto simp: odd_and_1)
    next
      case False
      then show ?thesis using 1 less.prems(1,2) by (auto simp: odd_and_1 within_def)
    qed
    have b2: "(ok2 \<longleftrightarrow> mag base * mag base < 2 ^ unat maxbits) \<and> (ok2 \<longrightarrow> within maxbits b2 \<and> small b2 \<and>
        mag b2 = mag base * mag base \<and> val b2 = val base * val base)" if "ok1" "e' \<noteq> 0"
    proof -
      have "unat e' \<noteq> 0" using that(2) by (simp add: unat_eq_0)
      then have "counted maxbits (mag base * mag base)" using counted_le [OF cT] sqle by blast
      from mul_lim_counted [OF less.prems(3,4,3,4) mb this, of base ok2 b2] show ?thesis using 2 that w0 by auto
    qed
    consider "\<not> ok1" | "ok1" "e' = 0" | "ok1" "e' \<noteq> 0" "\<not> ok2" | "ok1" "e' \<noteq> 0" "ok2" by blast
    then show ?thesis
    proof cases
      case 1
      then have ok: "\<not> ok" using loop 2 by (auto simp: pow_loop_False)
      have "mag base \<noteq> 0 \<or> odd (unat e)"
        using 1 r1 less.prems(1) by (cases "odd (unat e)") (auto simp: within_def)
      then have "\<not> ?T < 2 ^ unat maxbits" using 1 r1 R1le by (meson le_less_trans)
      then show ?thesis using ok unfolding m by blast
    next
      case 2
      then have "(ok, r) = (True, r1)" using loop \<open>(if e' \<noteq> 0 \<and> ok1 then _ else _) = _\<close>
        by (simp add: pow_loop.simps [of r1])
      then show ?thesis unfolding m v using 2 r1 by simp
    next
      case 3
      then have ok: "\<not> ok" using loop by (simp add: pow_loop_False)
      have "\<not> mag base * mag base < 2 ^ unat maxbits" using 3 b2 by blast
      moreover have "unat e' \<noteq> 0" using 3(2) by (simp add: unat_eq_0)
      ultimately have "\<not> ?T < 2 ^ unat maxbits" using sqle by (meson le_less_trans)
      then show ?thesis using ok unfolding m by blast
    next
      case 4
      note b = conjunct2 [OF b2 [OF 4(1,2)], rule_format, OF 4(3)]
      note r = conjunct2 [OF r1, rule_format, OF 4(1)]
      have "mag r1 \<noteq> 0 \<or> mag b2 = 0" using r b less.prems(5) by auto
      moreover have "counted maxbits (mag r1 * mag b2 ^ unat e')" using cT r b by (simp only:)
      ultimately have "(ok \<longleftrightarrow> mag r1 * mag b2 ^ unat e' < 2 ^ unat maxbits) \<and>
          (ok \<longrightarrow> within maxbits r \<and> small r \<and> val r = val r1 * val b2 ^ unat e')"
        using less.hyps [OF e'(2), of r1 b2] loop 4 r b by (simp add: within_def)
      moreover have "mag r1 = ?R1" "mag b2 = mag base * mag base" "val b2 = val base * val base"
        "val r1 = val result * (if odd (unat e) then val base else 1)" using r b by blast+
      ultimately show ?thesis unfolding m v by simp
    qed
  qed
qed

text \<open>The power is computed exactly when it is within the limit.\<close>

lemma pow_lim_val:
  assumes a: "big_ok a" "small a" and mb: "unat maxbits + 1 < 2 ^ 64" "1 \<le> unat maxbits"
    and c: "counted maxbits (mag a ^ unat e)"
    and r: "limba_big_pow_lim r a e maxbits = (ok, r')"
  shows "ok \<longleftrightarrow> mag a ^ unat e < 2 ^ unat maxbits"
    "ok \<Longrightarrow> within maxbits r' \<and> small r' \<and> val r' = val a ^ unat e"
proof -
  let ?bits = "limba_big_bits a"
  have one: "within maxbits (limba_big_set_u64 1)" "small (limba_big_set_u64 1)" "mag (limba_big_set_u64 1) = 1"
    "val (limba_big_set_u64 1) = 1"
  proof -
    have "(2 :: nat) ^ 1 \<le> 2 ^ unat maxbits" using mb(2) by (intro power_increasing) simp_all
    then show "within maxbits (limba_big_set_u64 1)" by (simp add: within_def set_u64_val)
    show "small (limba_big_set_u64 1)"
      by (rule small_if_bits [of _ 1]) (simp_all add: set_u64_val)
  qed (simp_all add: set_u64_val)
  have "(ok \<longleftrightarrow> mag a ^ unat e < 2 ^ unat maxbits) \<and>
    (ok \<longrightarrow> within maxbits r' \<and> small r' \<and> val r' = val a ^ unat e)"
  proof (cases "?bits > 1 \<and> e > 0 \<and> (e > maxbits \<or> ucast (?bits - 1) * e > maxbits)")
    case True
    then have ok: "\<not> ok" using r by (simp add: limba_big_pow_lim_def Let_def)
    have b: "1 < unat ?bits" using True by (simp add: word_less_nat_alt)
    then have b1: "unat (?bits - 1) = unat ?bits - 1" by (intro unat_minus_one) auto
    have "unat maxbits \<le> (unat ?bits - 1) * unat e"
    proof (cases "e > maxbits")
      case True
      have "1 * unat e \<le> (unat ?bits - 1) * unat e" using b by (intro mult_le_mono1) simp
      then have "unat e \<le> (unat ?bits - 1) * unat e" by simp
      moreover have "unat maxbits \<le> unat e" using True by (simp add: word_less_nat_alt)
      ultimately show ?thesis by (rule order.trans [rotated])
    next
      case False
      then have "unat maxbits < unat (ucast (?bits - 1) * e)" using True by (simp add: word_less_nat_alt)
      also have "\<dots> \<le> unat (ucast (?bits - 1) :: u64) * unat e"
        by (simp only: unat_word_ariths mod_less_eq_dividend)
      finally show ?thesis using b1 by simp
    qed
    then have "(2 :: nat) ^ unat maxbits \<le> 2 ^ ((unat ?bits - 1) * unat e)" by (intro power_increasing) simp_all
    also have "\<dots> = (2 ^ (unat ?bits - 1)) ^ unat e" by (rule power_mult)
    also have "\<dots> \<le> mag a ^ unat e"
    proof (rule power_mono)
      have "mag a \<noteq> 0" using b bits_0 [of a] a by (cases "mag a = 0") auto
      then show "2 ^ (unat ?bits - 1) \<le> mag a" using bits_bounds(2) a by simp
    qed simp
    finally show ?thesis using ok by simp
  next
    case False
    then have "pow_loop (limba_big_set_u64 1) a e True maxbits = (ok, r')"
      using r by (auto simp: limba_big_pow_lim_def Let_def)
    from pow_loop_val [OF mb(1) one(1,2) a _ _ this] one c show ?thesis by simp
  qed
  then show "ok \<longleftrightarrow> mag a ^ unat e < 2 ^ unat maxbits"
    "ok \<Longrightarrow> within maxbits r' \<and> small r' \<and> val r' = val a ^ unat e"
    by blast+
qed

lemma pow_lim_within:
  assumes a: "within maxbits a" and mb: "unat maxbits \<le> MAXBITS_EXACT" "1 \<le> unat maxbits"
    and r: "limba_big_pow_lim r a e maxbits = (ok, r')"
  shows "ok \<longleftrightarrow> mag a ^ unat e < 2 ^ unat maxbits" "ok \<Longrightarrow> within maxbits r' \<and> val r' = val a ^ unat e"
proof -
  have "big_ok a" "small a" using a within_small [OF a mb(1)] by (simp_all add: within_def)
  moreover have "unat maxbits + 1 < 2 ^ 64" using mb(1) by (simp add: MAXBITS_EXACT_def)
  moreover have "counted maxbits (mag a ^ unat e)" using mb(1) by (simp add: counted_def)
  ultimately show "ok \<longleftrightarrow> mag a ^ unat e < 2 ^ unat maxbits" "ok \<Longrightarrow> within maxbits r' \<and> val r' = val a ^ unat e"
    using pow_lim_val [OF _ _ _ mb(2) _ r] by blast+
qed

section \<open>Divisors and multiples\<close>

lemma gcd_loop_val:
  "big_ok x \<Longrightarrow> big_ok y \<Longrightarrow> 0 \<le> val x \<Longrightarrow> 0 \<le> val y \<Longrightarrow>
   \<exists>g. gcd_loop x y = Some g \<and> big_ok g \<and> val g = gcd (val x) (val y) \<and> 0 \<le> val g"
proof (induction "mag y" arbitrary: x y rule: less_induct)
  case less
  show ?case
  proof (cases "bw y = []")
    case True
    then have "val y = 0" using val_0_iff [OF less.prems(2)] by simp
    then show ?thesis using True less.prems by (simp add: gcd_loop.simps)
  next
    case False
    then have y: "val y \<noteq> 0" using val_0_iff [OF less.prems(2)] by simp
    obtain q t where qt: "limba_big_divmod x y = (q, t)" by fastforce
    note d = divmod_val [OF less.prems(1,2) y qt]
    have t: "val t = val x mod val y"
      using d(2) less.prems(3,4) y by (cases "val x = 0") (auto simp: tmod_def sgn_if)
    then have "0 \<le> val t" using less.prems(4) y by simp
    moreover have "mag t < mag y"
      using t less.prems(4) y by (simp add: mag_val nat_less_iff)
    ultimately obtain g where "gcd_loop y t = Some g" "big_ok g" "val g = gcd (val y) (val t)" "0 \<le> val g"
      using less.hyps less.prems d(4) by blast
    moreover have "gcd (val y) (val t) = gcd (val x) (val y)"
      unfolding t by (metis gcd.commute gcd_red_int)
    ultimately show ?thesis using False qt by (simp add: gcd_loop.simps [of x])
  qed
qed

lemma gcd_val:
  assumes "big_ok a" "big_ok b"
  shows "\<exists>g. limba_big_gcd a b = Some g \<and> big_ok g \<and> val g = gcd (val a) (val b)"
proof -
  obtain g where "limba_big_gcd a b = Some g" "big_ok g" "val g = gcd \<bar>val a\<bar> \<bar>val b\<bar>"
    using gcd_loop_val [of "limba_big_abs a" "limba_big_abs b"] abs_val assms
    by (auto simp: limba_big_gcd_def)
  then show ?thesis by simp
qed

lemma within_le_mag: "within mb b \<Longrightarrow> big_ok a \<Longrightarrow> mag a \<le> mag b \<Longrightarrow> within mb a"
  by (simp add: within_def)

lemma lcm_lim_within:
  assumes "within mb a" "within mb b" "unat mb \<le> MAXBITS_EXACT"
  shows "\<exists>ok r'. limba_big_lcm_lim r a b mb = Some (ok, r') \<and>
    (ok \<longleftrightarrow> nat (lcm (val a) (val b)) < 2 ^ unat mb) \<and>
    (ok \<longrightarrow> val r' = lcm (val a) (val b) \<and> within mb r')"
proof (cases "bw a = [] \<or> bw b = []")
  case True
  then have "val a = 0 \<or> val b = 0" using assms(1,2) val_0_iff by (auto simp: within_def)
  then show ?thesis using True by (auto simp: limba_big_lcm_lim_def set_u64_val within_def)
next
  case False
  have ok: "big_ok a" "big_ok b" using assms(1,2) by (simp_all add: within_def)
  then have nz: "val a \<noteq> 0" "val b \<noteq> 0" using False val_0_iff by auto
  obtain g where g: "limba_big_gcd a b = Some g" "big_ok g" "val g = gcd (val a) (val b)"
    using gcd_val [OF ok] by blast
  have gnz: "val g \<noteq> 0" using g(3) nz by simp
  obtain q m where qm: "limba_big_divmod (limba_big_abs a) g = (q, m)" by fastforce
  note d = divmod_val [OF abs_val(2) [OF ok(1)] g(2) gnz qm]
  have gpos: "0 < val g" using g(3) nz by simp
  then have vq: "val q = \<bar>val a\<bar> div val g" using d(1) nz by (simp add: tdiv_def abs_val sgn_if)
  have wq: "within mb q"
  proof (rule within_le_mag [OF assms(1) d(3)])
    have "mag g \<noteq> 0" using gnz by (simp add: mag_val)
    then show "mag q \<le> mag a"
      using divmod_mag(1) [OF abs_val(2) [OF ok(1)] g(2) _ qm] abs_val(3) [of a] by simp
  qed
  have wb: "within mb (limba_big_abs b)" using assms(2) abs_val(2,3) by (simp add: within_def)
  obtain o' r' where mul: "limba_big_mul_lim r q (limba_big_abs b) mb = (o', r')" by fastforce
  have l: "val q * val (limba_big_abs b) = lcm (val a) (val b)"
  proof -
    have "val g dvd \<bar>val a\<bar>" using g(3) by simp
    then have "val g * (val q * \<bar>val b\<bar>) = val g * lcm (val a) (val b)"
      using prod_gcd_lcm_int [of "val a" "val b"] g(3) vq by (simp add: dvd_mult_div_cancel mult.assoc [symmetric])
    then show ?thesis using gnz by (simp add: abs_val)
  qed
  moreover have "int (mag q * mag (limba_big_abs b)) = lcm (val a) (val b)"
    using l [symmetric] vq gpos abs_val(1) [of b]
    by (simp add: mag_eq_val abs_mult [symmetric] pos_imp_zdiv_nonneg_iff)
  then have "mag q * mag (limba_big_abs b) = nat (lcm (val a) (val b))" by linarith
  ultimately show ?thesis
    using mul_lim_within [OF wq wb assms(3) mul] False g(1) qm mul
    by (simp add: limba_big_lcm_lim_def)
qed

section \<open>Roots\<close>

text \<open>The tangent of \<open>t ^ Suc j\<close> at \<open>x\<close> is below the curve: what makes Newton's step stop above the root.\<close>

lemma tangent_le:
  fixes s x :: int
  assumes "0 \<le> s" "0 \<le> x"
  shows "(int j + 1) * s * x ^ j \<le> s ^ Suc j + int j * x ^ Suc j"
proof (induction j)
  case (Suc j)
  have "0 \<le> (int j + 1) * x ^ j * ((s - x) * (s - x))"
    by (rule mult_nonneg_nonneg [OF mult_nonneg_nonneg zero_le_square]) (use assms in simp_all)
  moreover have "s * ((int j + 1) * s * x ^ j) \<le> s * (s ^ Suc j + int j * x ^ Suc j)"
    using Suc assms(1) by (rule mult_left_mono)
  moreover have "s ^ Suc (Suc j) + int (Suc j) * x ^ Suc (Suc j) - (int (Suc j) + 1) * s * x ^ Suc j =
      s * (s ^ Suc j + int j * x ^ Suc j) - s * ((int j + 1) * s * x ^ j) +
      (int j + 1) * x ^ j * ((s - x) * (s - x))"
    by (simp add: algebra_simps)
  ultimately show ?case by linarith
qed simp

lemma div_mult_le: "0 < d \<Longrightarrow> t div d * d \<le> (t :: int)"
  using pos_mod_sign [of d t] by (simp flip: minus_mod_eq_div_mult)

lemma le_div: "0 < d \<Longrightarrow> s * d \<le> t \<Longrightarrow> s \<le> t div (d :: int)"
  using zdiv_mono1 [of "s * d" t d] by simp

lemma newton_above:
  fixes s x m :: int
  assumes "0 \<le> s" "0 < x" "s ^ Suc j \<le> m"
  shows "s \<le> (int j * x + m div x ^ j) div (int j + 1)"
proof -
  have "(int j + 1) * s * x ^ j \<le> m + int j * x * x ^ j"
    using tangent_le [of s x j] assms by (simp add: mult.assoc)
  then have "((int j + 1) * s - int j * x) * x ^ j \<le> m" by (simp add: algebra_simps)
  then have "(int j + 1) * s - int j * x \<le> m div x ^ j"
    using assms(2) by (intro le_div) simp_all
  then have "s * (int j + 1) \<le> int j * x + m div x ^ j" by (simp add: algebra_simps)
  then show ?thesis by (intro le_div) simp_all
qed

lemma newton_stop:
  fixes x m :: int
  assumes "0 < x" "x \<le> (int j * x + m div x ^ j) div (int j + 1)"
  shows "x ^ Suc j \<le> m"
proof -
  have "x * (int j + 1) \<le> (int j * x + m div x ^ j) div (int j + 1) * (int j + 1)"
    using assms(2) by (rule mult_right_mono) simp
  also have "\<dots> \<le> int j * x + m div x ^ j"
    by (rule div_mult_le) simp
  finally have "x \<le> m div x ^ j" by (simp add: algebra_simps)
  then have "x * x ^ j \<le> m div x ^ j * x ^ j" using assms(1) by (intro mult_right_mono) simp_all
  also have "\<dots> \<le> m"
    using assms(1) by (intro div_mult_le) simp
  finally show ?thesis by simp
qed

text \<open>
  What Newton's iteration computes with: an operand of at most \<open>n\<close> bits, a root below \<open>2 ^ c\<close> of it, and
  the power of the root, of at most \<open>2 * n\<close> bits.
\<close>

definition ROOT_BITS :: nat where
  "ROOT_BITS = 2147483600"

lemma small_le_pow: "big_ok a \<Longrightarrow> mag a \<le> 2 ^ n \<Longrightarrow> n \<le> MAXBITS_EXACT \<Longrightarrow> small a"
  using small_if_bits [of a "Suc n"] le_less_trans [OF _ power_strict_increasing [of n "Suc n" "2 :: nat"]] by simp

lemma counted_le_pow: "v \<le> 2 ^ n \<Longrightarrow> n < MAXBITS_EXACT \<Longrightarrow> counted mb v"
  unfolding counted_def by (rule disjI2, rule le_less_trans, assumption) (rule power_strict_increasing, simp_all)

lemma mult_le_pow: "x \<le> 2 ^ i \<Longrightarrow> y \<le> 2 ^ j \<Longrightarrow> x * y \<le> (2 :: nat) ^ (i + j)"
  unfolding power_add by (rule mult_le_mono)

lemma set_u64_small: "small (limba_big_set_u64 v)"
  using unsigned_less [of v] by (intro small_if_bits [of _ 64]) (simp_all add: set_u64_val MAXBITS_EXACT_def)

lemma newton_step_val:
  assumes m: "big_ok m" "0 \<le> val m" "mag m < 2 ^ n" and x: "big_ok x" "0 < val x" "mag x \<le> 2 ^ c"
    and k: "1 < unat k" "unat k < n" and c: "c \<le> n" "c * (unat k - 1) < n + unat k" and n: "n \<le> ROOT_BITS"
    and mb: "unat mb < 2 ^ 64 - 2 ^ 32" "unat bits = n"
  shows "newton_step m x k bits mb = None \<and> unat mb < n + 64 \<or>
    (\<exists>y. newton_step m x k bits mb = Some y \<and> big_ok y \<and>
      val y = (int (unat k - 1) * val x + val m div val x ^ (unat k - 1)) div int (unat k))"
proof -
  have n2: "2 * n \<le> MAXBITS_EXACT" "n < 2147483648" "n + 64 < MAXBITS_EXACT" "n + 34 \<le> MAXBITS_EXACT"
    using n by (simp_all add: ROOT_BITS_def MAXBITS_EXACT_def)
  have k1: "unat (k - 1) = unat k - 1" using k(1) by (intro unat_minus_one) auto
  have mbb: "unat (mb + bits) = unat mb + n"
    using mb n2(2) unat_add_u64 [of mb bits] by simp
  have mb1: "unat mb + 1 < 2 ^ 64" "unat (mb + bits) + 1 < 2 ^ 64" "1 \<le> unat (mb + bits)"
    using mb n2(2) k unfolding mbb by simp_all
  have xnz: "mag x \<noteq> 0" using x(2) by (simp add: mag_val)
  have sx: "small x" by (rule small_le_pow [OF x(1,3)]) (use c(1) n2 in linarith)
  have pw: "mag x ^ (unat k - 1) \<le> 2 ^ (c * (unat k - 1))"
    unfolding power_mult by (rule power_mono [OF x(3)]) simp
  obtain ok1 p where p: "limba_big_pow_lim limba_big_init x (k - 1) (mb + bits) = (ok1, p)" by fastforce
  obtain q q' where q: "limba_big_divmod m p = (q, q')" by fastforce
  obtain ok2 z where z: "limba_big_mul_lim limba_big_init x (limba_big_set_u64 (k - 1)) mb = (ok2, z)" by fastforce
  obtain ok3 w where w: "limba_big_add_lim z q mb = (ok3, w)" by fastforce
  obtain y y' where y: "limba_big_divmod w (limba_big_set_u64 k) = (y, y')" by fastforce
  have step: "newton_step m x k bits mb = (if ok1 \<and> ok2 \<and> ok3 then Some y else None)"
    using p q z w y by (simp add: newton_step_def Let_def)
  have c1: "counted (mb + bits) (mag x ^ unat (k - 1))"
    unfolding k1 by (rule counted_le_pow [OF pw]) (use c(2) k(2) n2 in linarith)
  note pl = pow_lim_val [OF x(1) sx mb1(2,3) c1 p, unfolded k1]
  have ok1: "ok1" if "n + 64 \<le> unat mb"
    unfolding pl(1) by (rule le_less_trans [OF pw power_strict_increasing]) (use that c(2) k mbb in simp_all)
  have k64: "unat k - 1 \<le> 2 ^ 32" using k(2) n2(2) by simp
  have xk: "mag x * mag (limba_big_set_u64 (k - 1)) \<le> 2 ^ (c + 32)"
    unfolding set_u64_val k1 by (rule mult_le_pow [OF x(3) k64])
  have c2: "counted mb (mag x * mag (limba_big_set_u64 (k - 1)))"
    by (rule counted_le_pow [OF xk]) (use c(1) n2 in linarith)
  have nz: "mag (limba_big_set_u64 (k - 1)) \<noteq> 0" unfolding set_u64_val k1 using k(1) by simp
  note zl = mul_lim_counted [OF x(1) sx set_u64_val(2) set_u64_small mb1(1) c2 z disjI2 [OF conjI [OF xnz nz]]]
  have ok2: "ok2" if "n + 64 \<le> unat mb"
    unfolding zl(1) by (rule le_less_trans [OF xk power_strict_increasing]) (use that c(1) in simp_all)
  show ?thesis
  proof (cases "ok1 \<and> ok2")
    case False
    then have "unat mb < n + 64" using ok1 ok2 by (meson not_less)
    then show ?thesis using step False by auto
  next
    case True
    have vp: "val p = val x ^ (unat k - 1)" "big_ok p" using pl(2) True by (simp_all add: within_def)
    then have ppos: "0 < val p" using x(2) by simp
    note dq = divmod_val [OF m(1) vp(2) _ q]
    have vq: "val q = val m div val p" using dq(1) ppos m(2) by (cases "val m = 0") (auto simp: tdiv_def sgn_if)
    have "mag p \<noteq> 0" using ppos by (simp add: mag_val)
    then have "mag q \<le> mag m" using divmod_mag(1) [OF m(1) vp(2) _ q] by simp
    then have mq: "mag q \<le> 2 ^ n" using m(3) by linarith
    have vz: "val z = val x * int (unat k - 1)" "big_ok z" "mag z \<le> 2 ^ (c + 32)"
      using zl(2) True xk k1 by (simp_all add: set_u64_val within_def del: of_nat_unat)
    have okq: "big_ok q" using dq(3) ppos by simp
    note vw = add_lim_val [OF vz(2) okq w]
    have mw: "mag w \<le> 2 ^ (n + 33)"
    proof -
      have "mag w \<le> mag z + mag q" using vw(1) by (simp add: mag_val)
      also have "\<dots> \<le> 2 ^ (n + 32) + 2 ^ (n + 32)"
      proof (rule add_mono)
        have "(2 :: nat) ^ (c + 32) \<le> 2 ^ (n + 32)" using c(1) by (intro power_increasing) simp_all
        with vz(3) show "mag z \<le> 2 ^ (n + 32)" by (rule order.trans)
        have "(2 :: nat) ^ n \<le> 2 ^ (n + 32)" by (intro power_increasing) simp_all
        with mq show "mag q \<le> 2 ^ (n + 32)" by (rule order.trans)
      qed
      finally show ?thesis by (simp add: power_add)
    qed
    have sw: "small w" by (rule small_le_pow [OF vw(2) mw]) (use n2 in linarith)
    have ok3: "ok3 \<longleftrightarrow> mag w < 2 ^ unat mb" using vw sw by (simp add: fits_iff)
    have wpos: "0 \<le> val w" unfolding vw(1) vz(1) vq using x(2) m(2) ppos
      by (simp add: pos_imp_zdiv_nonneg_iff)
    have kpos: "0 < int (unat k)" using k(1) by linarith
    have knz: "val (limba_big_set_u64 k) \<noteq> 0" using kpos by (simp add: set_u64_val del: of_nat_unat)
    note dy = divmod_val [OF vw(2) set_u64_val(2) knz y]
    have "val y = val w div int (unat k)"
      using dy(1) wpos kpos by (cases "val w = 0") (auto simp: tdiv_def sgn_if set_u64_val simp del: of_nat_unat)
    then have vy: "val y = (int (unat k - 1) * val x + val m div val x ^ (unat k - 1)) div int (unat k)"
      unfolding vw(1) vz(1) vq vp(1) by (simp only: mult.commute)
    show ?thesis
    proof (cases ok3)
      case True
      then show ?thesis using step \<open>ok1 \<and> ok2\<close> vy dy(3) by simp
    next
      case False
      have "unat mb < n + 64"
      proof (rule ccontr)
        assume "\<not> unat mb < n + 64"
        then have "mag w < 2 ^ unat mb"
          by (intro le_less_trans [OF mw power_strict_increasing]) simp_all
        then show False using ok3 False by simp
      qed
      then show ?thesis using step False by simp
    qed
  qed
qed

lemma newton_loop_val:
  assumes m: "big_ok m" "0 < val m" "mag m < 2 ^ n"
    and k: "1 < unat k" "unat k < n" and c: "c \<le> n" "c * (unat k - 1) < n + unat k" and n: "n \<le> ROOT_BITS"
    and mb: "unat mb < 2 ^ 64 - 2 ^ 32" "unat bits = n"
  shows "big_ok x \<Longrightarrow> mag x \<le> 2 ^ c \<Longrightarrow> 0 < val x \<Longrightarrow> val m < (val x + 1) ^ unat k \<Longrightarrow>
    \<exists>res. newton_loop m k bits mb x = Some res \<and> (res = None \<longrightarrow> unat mb < n + 64) \<and>
      (\<forall>r. res = Some r \<longrightarrow> big_ok r \<and> 0 < val r \<and> val r ^ unat k \<le> val m \<and> val m < (val r + 1) ^ unat k)"
proof (induction "mag x" arbitrary: x rule: less_induct)
  case less
  have m0: "0 \<le> val m" using m(2) by simp
  note ys = newton_step_val [OF m(1) m0 m(3) less.prems(1,3,2) k c n mb]
  show ?case
  proof (cases "newton_step m x k bits mb")
    case None
    then show ?thesis using ys by (simp add: newton_loop.simps [of _ _ _ _ x])
  next
    case (Some y)
    define j where "j = unat k - 1"
    have j: "unat k = Suc j" using k(1) by (simp add: j_def)
    have y: "val y = (int j * val x + val m div val x ^ j) div (int j + 1)" "big_ok y"
      using ys Some by (simp_all add: j add.commute)
    have above: "s \<le> val y" if "0 \<le> s" "s ^ Suc j \<le> val m" for s
      unfolding y(1) using newton_above [OF that(1) less.prems(3) that(2)] .
    have ypos: "0 < val y" using above [of 1] m(2) by simp
    have ym: "val m < (val y + 1) ^ unat k"
    proof (rule ccontr)
      assume "\<not> ?thesis"
      then have "val y + 1 \<le> val y" using ypos by (intro above) (simp_all add: j)
      then show False by simp
    qed
    show ?thesis
    proof (cases "limba_big_cmp y x \<ge> 0")
      case True
      then have "val x \<le> val y" using cmp_val [OF y(2) less.prems(1)] by (simp add: sgn_if split: if_splits)
      then have "val x ^ unat k \<le> val m" unfolding y(1) j using less.prems(3) by (intro newton_stop)
      then show ?thesis using True Some less.prems by (simp add: newton_loop.simps [of _ _ _ _ x])
    next
      case False
      then have "val y < val x" using cmp_val [OF y(2) less.prems(1)] by (simp add: sgn_if split: if_splits)
      then have lt: "mag y < mag x" using ypos by (simp add: mag_val nat_less_iff)
      then have "mag y \<le> 2 ^ c" using less.prems(2) by linarith
      from less.hyps [OF lt y(2) this ypos ym] show ?thesis
        using False Some by (simp add: newton_loop.simps [of _ _ _ _ x])
    qed
  qed
qed

text \<open>
  The root is exact, truncated toward zero. \<open>k\<close> is at least 1 and odd for a negative number, as the
  caller checks.
\<close>

lemma root_lim_val:
  assumes a: "big_ok a" "mag a < 2 ^ ROOT_BITS" and mb: "unat mb < 2 ^ 64 - 2 ^ 32"
    and k: "1 \<le> unat k" "val a < 0 \<longrightarrow> odd (unat k)"
  shows "\<exists>ok r'. limba_big_root_lim r a k mb = Some (ok, r') \<and> (\<not> ok \<longrightarrow> r' = r) \<and>
    (64 \<le> unat mb \<and> mag a < 2 ^ (unat mb - 64) \<longrightarrow> ok) \<and>
    (ok \<longrightarrow> big_ok r' \<and> \<bar>val r'\<bar> ^ unat k \<le> \<bar>val a\<bar> \<and> \<bar>val a\<bar> < (\<bar>val r'\<bar> + 1) ^ unat k \<and> (val a = 0 \<or> val r' = 0 \<or> sgn (val r') = sgn (val a)))"
proof -
  define m where "m = limba_big_abs a"
  let ?bits = "limba_big_bits m"
  note ok = a(1)
  have m: "big_ok m" "val m = \<bar>val a\<bar>" "mag m = mag a" using abs_val [of a] ok by (simp_all add: m_def)
  have "ROOT_BITS \<le> MAXBITS_EXACT + 64" by (simp add: ROOT_BITS_def MAXBITS_EXACT_def)
  then have sm: "small m" using small_if_bits [OF m(1)] a(2) m(3) by simp
  have room: "unat ?bits + 64 \<le> unat mb" if "64 \<le> unat mb" "mag a < 2 ^ (unat mb - 64)"
  proof -
    have "unat ?bits \<le> unat mb - 64" using bits_le_iff [OF m(1) sm] that(2) m(3) by simp
    then show ?thesis using that(1) by linarith
  qed
  have nR: "unat ?bits \<le> ROOT_BITS" using bits_le_iff [OF m(1) sm] a(2) m(3) by simp
  have b0: "unat ?bits = 0 \<longleftrightarrow> val a = 0"
    using bits_le_iff [OF m(1) sm, of 0] m(2) by (simp add: mag_val)
  have neg: "bneg a \<longleftrightarrow> val a < 0" by (rule bneg_iff [OF ok])
  have am: "\<bar>val a\<bar> < 2 ^ unat ?bits"
  proof -
    have "int (mag a) < int (2 ^ unat ?bits)"
      using bits_le_iff [OF m(1) sm, of "unat ?bits"] m(3) by (simp only: of_nat_less_iff) simp
    then show ?thesis by (simp add: mag_eq_val)
  qed
  show ?thesis
  proof (cases "?bits = 0 \<or> k = 1 \<or> k \<ge> ucast ?bits")
    case True
    define v where "v = (if ?bits = 0 then 0 else if bneg a then - 1 else 1 :: u64)"
    have r: "limba_big_root_lim r a k mb = Some (True, if k = 1 then a else limba_big_set_i64 v)"
      using True unfolding limba_big_root_lim_def Let_def m_def [symmetric] v_def by simp
    show ?thesis
    proof (cases "k = 1")
      case True
      then show ?thesis using r ok by auto
    next
      case False
      have sv: "val (limba_big_set_i64 v) = sgn (val a)"
        using b0 neg by (auto simp: set_i64_val v_def sgn_if unat_eq_0)
      have "\<bar>val a\<bar> < 2 ^ unat k" if "val a \<noteq> 0"
      proof -
        have "?bits \<noteq> 0" using b0 that by auto
        then have "unat ?bits \<le> unat k" using True False by (simp add: word_le_nat_alt)
        then have "(2 :: int) ^ unat ?bits \<le> 2 ^ unat k" by (intro power_increasing) simp_all
        with am show ?thesis by (rule less_le_trans)
      qed
      moreover have "limba_big_root_lim r a k mb = Some (True, limba_big_set_i64 v)" using r False by simp
      moreover have "val a \<noteq> 0 \<Longrightarrow> 1 \<le> \<bar>val a\<bar>" "0 < unat k" using k(1) by linarith+
      ultimately show ?thesis using sv
        by (intro exI [of _ True] exI [of _ "limba_big_set_i64 v"]; cases "val a = 0")
           (simp_all add: abs_sgn_eq zero_power set_i64_val(2))
    qed
  next
    case False
    have "unat k \<noteq> 1" using False by (metis unsigned_1 unsigned_word_eqI)
    with False have kb: "1 < unat k" "unat k < unat ?bits" "unat ?bits \<noteq> 0" "val a \<noteq> 0"
      using k(1) b0 by (auto simp: word_le_nat_alt unat_eq_0 le_less)
    let ?c = "ucast ((ucast ?bits + k - 1) div k) :: u32"
    obtain ok1 x where x: "limba_big_shl_lim (limba_big_set_u64 1) (limba_big_set_u64 1) ?c mb = (ok1, x)"
      by fastforce
    note shl = shl_lim_val [OF set_u64_val(2) set_u64_small x]
    have uc: "unat ?c = (unat ?bits + unat k - 1) div unat k"
    proof -
      have "unat ?bits < 4294967296" "unat k < 4294967296" using kb unat_u32_lt [of ?bits] by linarith+
      then have "unat ?bits + unat k < 18446744073709551616" by linarith
      then have "unat (ucast ?bits + k) = unat ?bits + unat k" using unat_add_u64 [of "ucast ?bits" k] by simp
      moreover have "ucast ?bits + k \<noteq> 0" using calculation kb by (metis add_is_0 unsigned_0)
      ultimately have n: "unat (ucast ?bits + k - 1) = unat ?bits + unat k - 1"
        by (simp add: unat_minus_one)
      have d: "(unat ?bits + unat k - 1) div unat k < 4294967296"
      proof -
        have "unat ?bits + unat k - 1 < 4294967296 * 2" using kb(2) unat_u32_lt [of ?bits] by linarith
        also have "\<dots> \<le> 4294967296 * unat k" using kb(1) by simp
        finally show ?thesis by (rule less_mult_imp_div_less)
      qed
      then show ?thesis by (simp add: unat_ucast_u64_u32 unat_div n)
    qed
    have c: "unat ?bits \<le> unat k * unat ?c"
    proof -
      have "unat ?bits + unat k - 1 < unat k * Suc ((unat ?bits + unat k - 1) div unat k)"
        using kb(1) by (simp add: dividend_less_times_div)
      then show ?thesis unfolding uc by simp
    qed
    have ck: "unat k * unat ?c \<le> unat ?bits + unat k - 1" unfolding uc by (rule times_div_less_eq_dividend)
    have c1: "unat ?c \<le> unat ?bits" "unat ?c * (unat k - 1) < unat ?bits + unat k"
    proof -
      have "unat ?c * (unat k - 1) \<le> unat k * unat ?c" by (simp add: mult.commute)
      then show "unat ?c * (unat k - 1) < unat ?bits + unat k" using ck kb(1) by linarith
      have "2 * unat ?c \<le> unat k * unat ?c" using kb(1) by (intro mult_le_mono1) simp
      then show "unat ?c \<le> unat ?bits" using ck kb(2) by linarith
    qed
    have ok1: "unat ?bits + 64 \<le> unat mb \<Longrightarrow> ok1"
      unfolding shl(1) using c1(1) by (simp add: set_u64_val power_strict_increasing)
    show ?thesis
    proof (cases ok1)
      case False
      then have "\<not> (64 \<le> unat mb \<and> mag a < 2 ^ (unat mb - 64))" using ok1 room by blast
      then show ?thesis using x False \<open>\<not> (?bits = 0 \<or> k = 1 \<or> k \<ge> ucast ?bits)\<close>
        unfolding limba_big_root_lim_def Let_def m_def [symmetric]
        by (intro exI [of _ False] exI [of _ r]) simp
    next
      case True
      have vx: "val x = 2 ^ unat ?c" "big_ok x" using shl(2) [OF True] by (simp_all add: set_u64_val)
      then have mx: "mag x \<le> 2 ^ unat ?c" by (simp add: mag_val nat_power_eq)
      have xm: "val m < (val x + 1) ^ unat k"
      proof -
        have "val m < 2 ^ unat ?bits" using am m(2) by simp
        also have "(2 :: int) ^ unat ?bits \<le> 2 ^ (unat ?c * unat k)"
          using c by (intro power_increasing) (simp_all add: mult.commute)
        also have "\<dots> = (2 ^ unat ?c) ^ unat k" by (rule power_mult)
        also have "\<dots> \<le> (val x + 1) ^ unat k" unfolding vx(1) by (intro power_mono) simp_all
        finally show ?thesis .
      qed
      have pos: "0 < val m" "0 < val x" using kb(4) m(2) vx(1) by simp_all
      have mm: "mag m < 2 ^ unat ?bits" using bits_le_iff [OF m(1) sm] by blast
      have ub: "unat (ucast ?bits :: u64) = unat ?bits" by simp
      obtain res where res: "newton_loop m k (ucast ?bits) mb x = Some res" "res = None \<Longrightarrow> unat mb < unat ?bits + 64"
        "\<And>r. res = Some r \<Longrightarrow> big_ok r \<and> 0 < val r \<and> val r ^ unat k \<le> val m \<and> val m < (val r + 1) ^ unat k"
        using newton_loop_val [OF m(1) pos(1) mm kb(1,2) c1 nR mb ub vx(2) mx pos(2) xm] by auto
      show ?thesis
      proof (cases res)
        case None
        then have "\<not> (64 \<le> unat mb \<and> mag a < 2 ^ (unat mb - 64))" using res(2) room by force
        then show ?thesis using x True res(1) None \<open>\<not> (?bits = 0 \<or> k = 1 \<or> k \<ge> ucast ?bits)\<close>
          unfolding limba_big_root_lim_def Let_def m_def [symmetric]
          by (intro exI [of _ False] exI [of _ r]) simp
      next
        case (Some y)
        note y = res(3) [OF Some]
        let ?r = "if bneg a then limba_big_neg y else y"
        have "limba_big_root_lim r a k mb = Some (True, ?r)"
          using x True res(1) Some \<open>\<not> (?bits = 0 \<or> k = 1 \<or> k \<ge> ucast ?bits)\<close>
          unfolding limba_big_root_lim_def Let_def m_def [symmetric] by simp
        moreover have "val ?r = (if val a < 0 then - val y else val y)"
          using neg neg_val(1) y by simp
        moreover have "big_ok ?r" using neg_val(2) y by simp
        ultimately show ?thesis using y m(2) kb(4)
          by (intro exI [of _ True] exI [of _ ?r]) (auto simp: sgn_if)
      qed
    qed
  qed
qed

section \<open>Modular powers\<close>

lemma wval_bit:
  "i < 32 * length ws \<Longrightarrow> odd (wval ws div 2 ^ i) \<longleftrightarrow> drop_bit (i mod 32) (ws ! (i div 32)) AND 1 \<noteq> (0 :: u32)"
proof (induction ws arbitrary: i)
  case (Cons w ws)
  have and1: "v AND 1 \<noteq> 0 \<longleftrightarrow> odd (unat v)" for v :: u32
  proof -
    have "(mask 1 :: u32) = 1" by (simp add: mask_eq_exp_minus_1)
    then have "unat (v AND 1) = unat v mod 2" using unat_and_mask [of v 1] by (simp only: power_one_right)
    then show ?thesis using unat_eq_0 [of "v AND 1"] by (simp add: even_iff_mod_2_eq_zero)
  qed
  show ?case
  proof (cases "i < 32")
    case True
    have "(4294967296 :: nat) = 2 ^ i * (2 * 2 ^ (31 - i))" using True by (simp flip: power_add power_Suc)
    then have "wval (w # ws) = unat w + 2 ^ i * (2 * (2 ^ (31 - i) * wval ws))"
      by (simp only: wval.simps mult.assoc)
    also have "\<dots> div 2 ^ i = unat w div 2 ^ i + 2 * (2 ^ (31 - i) * wval ws)" by simp
    finally have "wval (w # ws) div 2 ^ i = unat w div 2 ^ i + 2 * (2 ^ (31 - i) * wval ws)" .
    then show ?thesis using True and1 by (simp add: unat_drop_bit)
  next
    case False
    define i' where "i' = i - 32"
    have i: "i = 32 + i'" using False by (simp add: i'_def)
    have "wval (w # ws) div 2 ^ i = wval (w # ws) div 4294967296 div 2 ^ i'"
      unfolding i power_add by (simp add: div_mult2_eq)
    also have "wval (w # ws) div 4294967296 = wval ws" by simp
    moreover have "i div 32 = Suc (i' div 32)" "i mod 32 = i' mod 32" "i' < 32 * length ws"
      using Cons.prems by (simp_all add: i)
    ultimately show ?thesis using Cons.IH [of i'] by simp
  qed
qed simp

lemma tmod_nonneg: "0 \<le> a \<Longrightarrow> 0 < b \<Longrightarrow> tmod a b = a mod b"
  by (cases "a = 0") (simp_all add: tmod_def sgn_if)

lemma square_mod_step:
  fixes b M :: int
  shows "(b ^ n mod M) * (b ^ n mod M) mod M = b ^ (2 * n) mod M"
  by (simp add: mod_mult_eq power_mult power2_eq_square power_mult_distrib mult.commute [of 2])

lemma powmod_loop_val:
  assumes mm: "big_ok mm" "small mm" "0 < val mm" and mb: "unat mb + 1 < 2 ^ 64" "counted mb (mag mm * mag mm)"
    and base: "big_ok base" "0 \<le> val base" "val base < val mm" and i: "i \<le> 32 * length (bw e)"
  shows "big_ok acc \<Longrightarrow> val acc = val base ^ (mag e div 2 ^ i) mod val mm \<Longrightarrow>
    powmod_loop i acc t base e mm mb = res \<Longrightarrow>
    (\<forall>r. res = Some r \<longrightarrow> big_ok r \<and> val r = val base ^ mag e mod val mm) \<and>
    (mag mm * mag mm \<le> 2 ^ unat mb \<longrightarrow> res \<noteq> None)"
  using i
proof (induction i arbitrary: acc t res)
  case 0
  then show ?case by auto
next
  case (Suc i)
  let ?M = "val mm" and ?b = "val base" and ?n = "mag e div 2 ^ Suc i"
  have below: "small z \<and> mag z < mag mm" if "big_ok z" "0 \<le> val z" "val z < ?M" for z
  proof -
    have "mag z < mag mm" using that by (simp add: mag_val nat_less_iff)
    then show ?thesis using small_mono [OF that(1) mm(1,2)] by simp
  qed
  have red: "big_ok (snd (limba_big_divmod z mm))" "val (snd (limba_big_divmod z mm)) = val z mod ?M"
    if "big_ok z" "0 \<le> val z" for z
  proof -
    obtain q r where qr: "limba_big_divmod z mm = (q, r)" by fastforce
    have nz: "?M \<noteq> 0" using mm(3) by simp
    note d = divmod_val [OF that(1) mm(1) nz qr]
    show "big_ok (snd (limba_big_divmod z mm))" "val (snd (limba_big_divmod z mm)) = val z mod ?M"
      using d(2,4) qr tmod_nonneg [OF that(2) mm(3)] by simp_all
  qed
  have mul: "(\<forall>t'. o' \<and> t' = r' \<longrightarrow> big_ok t' \<and> val t' = val x * val y) \<and> (mag mm * mag mm \<le> 2 ^ unat mb \<longrightarrow> o')"
    if "limba_big_mul_lim t x y mb = (o', r')" "big_ok x" "0 \<le> val x" "val x < ?M"
      "big_ok y" "0 \<le> val y" "val y < ?M" for t x y o' r'
  proof -
    have xy: "small x" "small y" "mag x < mag mm" "mag y < mag mm" using below that by blast+
    then have lt: "mag x * mag y < mag mm * mag mm" by (intro mult_strict_mono) simp_all
    then have c: "counted mb (mag x * mag y)" using counted_le [OF mb(2)] by simp
    note sp = mul_lim_spec [OF that(2) xy(1) that(5) xy(2) mb(1) c that(1)]
    have "mag mm * mag mm \<le> 2 ^ unat mb \<Longrightarrow> o'"
    proof (rule ccontr)
      assume le: "mag mm * mag mm \<le> 2 ^ unat mb"
      assume no: "\<not> o'"
      have "mag mm * 1 \<le> mag mm * mag mm" using mm(3) by (intro mult_le_mono2) (simp add: mag_val)
      then have "mag x < 2 ^ unat mb" "mag y < 2 ^ unat mb" using xy(3,4) le by linarith+
      then have "within mb x \<and> within mb y" using that(2,5) by (simp add: within_def)
      from mul_lim_counted(1) [OF that(2) xy(1) that(5) xy(2) mb(1) c that(1) disjI1 [OF this]]
      show False using no lt le by linarith
    qed
    then show ?thesis using sp(1) by (auto simp: within_def)
  qed
  obtain o1 t1 where 1: "limba_big_mul_lim t acc acc mb = (o1, t1)" by fastforce
  have acc: "0 \<le> val acc" "val acc < ?M" using Suc.prems(2) mm(3) by simp_all
  note m1 = mul [OF 1 Suc.prems(1) acc Suc.prems(1) acc]
  show ?case
  proof (cases o1)
    case False
    then show ?thesis using 1 m1 Suc.prems(3) by auto
  next
    case True
    let ?a1 = "snd (limba_big_divmod t1 mm)"
    have t1: "big_ok t1" "val t1 = val acc * val acc" using m1 True by auto
    then have a1: "big_ok ?a1" "val ?a1 = ?b ^ (2 * ?n) mod ?M"
      using red [of t1] acc square_mod_step [of ?b ?n ?M] Suc.prems(2) by simp_all
    then have a1r: "0 \<le> val ?a1" "val ?a1 < ?M" using mm(3) by simp_all
    let ?bit = "drop_bit (i mod 32) (bw e ! (i div 32)) AND 1 \<noteq> (0 :: u32)"
    have half: "mag e div 2 ^ i = 2 * ?n + (if ?bit then 1 else 0)"
    proof -
      have "mag e div 2 ^ i = 2 * (mag e div 2 ^ i div 2) + mag e div 2 ^ i mod 2" by simp
      moreover have "mag e div 2 ^ i div 2 = ?n" by (simp add: div_mult2_eq [symmetric] mult.commute)
      moreover have "odd (mag e div 2 ^ i) \<longleftrightarrow> ?bit"
        unfolding mag_def using Suc.prems(4) by (intro wval_bit) simp
      ultimately show ?thesis by (auto simp: odd_iff_mod_2_eq_one)
    qed
    show ?thesis
    proof (cases ?bit)
      case False
      then have "mag e div 2 ^ i = 2 * ?n" using half by presburger
      then have v: "val ?a1 = ?b ^ (mag e div 2 ^ i) mod ?M" using a1(2) by (simp only:)
      have "powmod_loop i ?a1 t1 base e mm mb = res" using Suc.prems(3) 1 True False by simp
      from Suc.IH [OF a1(1) v this Suc_leD [OF Suc.prems(4)]] show ?thesis .
    next
      case bit: True
      obtain o2 t2 where 2: "limba_big_mul_lim t1 ?a1 base mb = (o2, t2)" by fastforce
      note m2 = mul [OF 2 a1(1) a1r base]
      show ?thesis
      proof (cases o2)
        case False
        then show ?thesis using 1 2 True bit m2 Suc.prems(3) by auto
      next
        case o2: True
        let ?a2 = "snd (limba_big_divmod t2 mm)"
        have t2: "big_ok t2" "val t2 = val ?a1 * ?b" using m2 o2 by auto
        then have a2: "big_ok ?a2" "val ?a2 = (val ?a1 * ?b) mod ?M"
          using red [of t2] a1r base(2) by simp_all
        have "mag e div 2 ^ i = Suc (2 * ?n)" using half bit by presburger
        then have v: "val ?a2 = ?b ^ (mag e div 2 ^ i) mod ?M"
          unfolding a2(2) a1(2) by (simp only: power_Suc mod_mult_left_eq mod_mult_right_eq mult.commute)
        have "powmod_loop i ?a2 t2 base e mm mb = res" using Suc.prems(3) 1 2 True o2 bit by simp
        from Suc.IH [OF a2(1) v this Suc_leD [OF Suc.prems(4)]] show ?thesis .
      qed
    qed
  qed
qed

text \<open>
  The modular power is right when it is computed, and it is whenever the square of the modulus is
  within the limit.
\<close>

lemma powmod_lim_val:
  assumes b: "big_ok b" and m: "big_ok m" "small m" "val m \<noteq> 0" and e: "big_ok e" "small e" "0 \<le> val e"
    and mb: "unat mb + 1 < 2 ^ 64" "counted mb (mag m * mag m)" and r: "limba_big_powmod_lim r b e m mb = (ok, r')"
  shows "ok \<Longrightarrow> val r' = val b ^ nat (val e) mod \<bar>val m\<bar>"
    and "mag m * mag m \<le> 2 ^ unat mb \<Longrightarrow> ok"
proof -
  define mm where "mm = limba_big_abs m"
  have mm: "big_ok mm" "val mm = \<bar>val m\<bar>" "mag mm = mag m" using abs_val [of m] m(1) by (simp_all add: mm_def)
  have sm: "small mm" using small_mono [OF mm(1) m(1,2)] mm(3) by simp
  have Mpos: "0 < val mm" using mm(2) m(3) by simp
  then have Mnz: "val mm \<noteq> 0" by simp
  obtain q b0 where b0: "limba_big_divmod b mm = (q, b0)" by fastforce
  obtain q1 acc where acc: "limba_big_divmod (limba_big_set_u64 1) mm = (q1, acc)" by fastforce
  note db = divmod_val [OF b mm(1) Mnz b0] and da = divmod_val [OF set_u64_val(2) mm(1) Mnz acc]
  have vacc: "val acc = 1 mod val mm" using da(2) Mpos by (simp add: tmod_nonneg set_u64_val)
  have b0r: "\<bar>val b0\<bar> < val mm" using tmod_bound [OF Mnz, of "val b"] db(2) Mpos by simp
  have b0m: "val b0 mod val mm = val b mod val mm"
    using tdiv_tmod [of "val b" "val mm"] db(2) by (metis mod_mult_self3)
  obtain ok1 base where base: "(if bneg b0 then limba_big_add_lim b0 mm mb else (True, b0)) = (ok1, base)"
    by fastforce
  have vb: "big_ok base \<and> 0 \<le> val base \<and> val base < val mm \<and> val base mod val mm = val b mod val mm \<and>
      (mag m * mag m \<le> 2 ^ unat mb \<longrightarrow> ok1)"
  proof (cases "bneg b0")
    case False
    then show ?thesis using base b0r b0m db(4) bneg_iff [OF db(4)] by auto
  next
    case True
    have add: "limba_big_add_lim b0 mm mb = (ok1, base)" using base True by simp
    note ad = add_lim_val [OF db(4) mm(1) add]
    have "val b0 < 0" using True bneg_iff [OF db(4)] by simp
    then have r: "0 \<le> val base" "val base < val mm" using ad(1) b0r by linarith+
    then have lt: "mag base < mag mm" by (simp add: mag_val nat_less_iff)
    then have "small base" using small_mono [OF ad(2) mm(1) sm] by simp
    moreover have "mag m * mag m \<le> 2 ^ unat mb \<longrightarrow> mag base < 2 ^ unat mb"
    proof
      assume "mag m * mag m \<le> 2 ^ unat mb"
      moreover have "mag m * 1 \<le> mag m * mag m" using lt mm(3) by (intro mult_le_mono2) simp
      ultimately show "mag base < 2 ^ unat mb" using lt mm(3) by linarith
    qed
    ultimately show ?thesis using ad r b0m by (auto simp: fits_iff)
  qed
  define i where "i = unat (limba_big_bits e)"
  have i: "i \<le> 32 * length (bw e)"
  proof (cases "mag e = 0")
    case False
    then have "bw e \<noteq> []" using mag_0_iff [OF e(1)] by simp
    then obtain ws w where "bw e = ws @ [w]" by (cases "bw e" rule: rev_cases) auto
    then show ?thesis using bits_snoc [OF _ e(2)] e(1) unfolding i_def by (auto simp: big_ok_def)
  qed (simp add: i_def bits_0 e(1))
  have "mag e < 2 ^ i" unfolding i_def using bits_le_iff [OF e(1,2)] by blast
  then have acc_i: "val acc = val base ^ (mag e div 2 ^ i) mod val mm" using vacc by simp
  have ne: "nat (val e) = mag e" using e(3) by (simp add: mag_val)
  have pw: "val base ^ mag e mod val mm = val b ^ nat (val e) mod \<bar>val m\<bar>"
    unfolding ne using vb mm(2) by (metis power_mod)
  obtain res where res: "powmod_loop i acc limba_big_init base e mm mb = res" by blast
  have snds: "snd (limba_big_divmod b mm) = b0" "snd (limba_big_divmod (limba_big_set_u64 1) mm) = acc"
    using b0 acc by simp_all
  have "(ok, r') = (if ok1 then case res of None \<Rightarrow> (False, r) | Some a \<Rightarrow> (True, a) else (False, r))"
    using r unfolding limba_big_powmod_lim_def Let_def mm_def [symmetric] i_def [symmetric] snds base
    by (cases ok1; cases res) (simp_all add: res)
  moreover have "counted mb (mag mm * mag mm)" using mb(2) mm(3) by simp
  moreover note powmod_loop_val [OF mm(1) sm Mpos mb(1) this _ _ _ i da(4) acc_i res]
  ultimately show "ok \<Longrightarrow> val r' = val b ^ nat (val e) mod \<bar>val m\<bar>"
    "mag m * mag m \<le> 2 ^ unat mb \<Longrightarrow> ok"
    using vb pw mm(3) by (auto split: option.splits if_splits)
qed

section \<open>What the number theory promises\<close>

text \<open>
  C22: \<open>limba_big_gcd\<close> ends on every pair of numbers and gives their greatest common divisor, never
  negative, in normal form.
\<close>

theorem big_gcd_total:
  assumes "big_ok a" "big_ok b"
  shows "\<exists>g. limba_big_gcd a b = Some g \<and> big_ok g \<and> val g = gcd (val a) (val b)"
  using assms by (rule gcd_val)

theorem big_gcd_total_witness:
  "\<exists>g. limba_big_gcd (limba_big_set_i64 (- 12)) (limba_big_set_i64 18) = Some g \<and> val g = 6"
proof -
  have "gcd (- 12) (18 :: int) = 6" by (simp add: gcd_non_0_int)
  then show ?thesis
    using big_gcd_total [of "limba_big_set_i64 (- 12)" "limba_big_set_i64 18"] by (auto simp: set_i64_val)
qed

text \<open>
  C21: The power of a number of fewer than \<open>2 ^ 27\<close> words under a limit of bits from 1 to
  \<open>2 ^ 64 - 2\<close>: true exactly when the magnitude of the power is below 2 to the limit, and then the exact
  power in normal form; the squarings never reject a power that fits. The base may be past the limit.
  This holds for every limit of up to 4294967200 bits, and under a larger one (the evaluator's default is
  about \<open>2 ^ 33\<close>) for every power of fewer bits than that (\<open>counted\<close>): beyond, the 32-bit count of bits wraps.
\<close>

theorem big_pow_exact:
  assumes "big_ok a" "small a" "unat mb + 1 < 2 ^ 64" "1 \<le> unat mb" "counted mb (mag a ^ unat e)"
    and "limba_big_pow_lim r a e mb = (ok, r')"
  shows "(ok \<longleftrightarrow> mag a ^ unat e < 2 ^ unat mb) \<and> (ok \<longrightarrow> big_ok r' \<and> val r' = val a ^ unat e)"
  using pow_lim_val [OF assms] by (simp add: within_def)

theorem big_pow_exact_witness:
  "\<exists>r'. limba_big_pow_lim limba_big_init (limba_big_set_i64 (- 3)) 5 8589934592 = (True, r') \<and> val r' = - 243"
proof -
  define mb :: u64 where "mb = 8589934592"
  have mb: "unat mb + 1 < 2 ^ 64" "1 \<le> unat mb" "8 \<le> unat mb" by (simp_all add: mb_def)
  obtain ok r' where r: "limba_big_pow_lim limba_big_init (limba_big_set_i64 (- 3)) 5 mb = (ok, r')"
    by (metis surj_pair)
  have p: "mag (limba_big_set_i64 (- 3)) ^ unat (5 :: u64) = 243" by (simp add: set_i64_mag)
  have "counted mb 243" by (rule counted_pow [of _ 8]) simp_all
  note x = big_pow_exact [OF set_i64_val(2) set_i64_small mb(1,2) this [folded p] r, unfolded p]
  have "(243 :: nat) < 2 ^ unat mb" using mb(3) by (intro less_pow_unat [of _ 8]) simp_all
  then have "ok" "val r' = - 243" using x by (simp_all add: set_i64_val)
  then show ?thesis using r unfolding mb_def by auto
qed

text \<open>
  C23: The \<open>k\<close>-th root of a number below 2 to the 2147483600, for \<open>k\<close> at least 1 and odd when the number
  is negative (the evaluator checks both before the call), under any limit of bits below
  \<open>2 ^ 64 - 2 ^ 32\<close>. Newton's iteration from above decreases until it stops, so the call returns. It
  answers true at least when the number has 64 bits fewer than the limit; then its result is the exact
  root truncated toward zero, in normal form, with the sign of the operand. When it answers false the
  result is left as it was.
\<close>

theorem big_root_exact:
  assumes "big_ok a" "mag a < 2 ^ ROOT_BITS" "unat mb < 2 ^ 64 - 2 ^ 32"
    and "1 \<le> unat k" "val a < 0 \<longrightarrow> odd (unat k)"
  shows "\<exists>ok r'. limba_big_root_lim r a k mb = Some (ok, r') \<and> (\<not> ok \<longrightarrow> r' = r) \<and>
    (64 \<le> unat mb \<and> mag a < 2 ^ (unat mb - 64) \<longrightarrow> ok) \<and>
    (ok \<longrightarrow> big_ok r' \<and> \<bar>val r'\<bar> ^ unat k \<le> \<bar>val a\<bar> \<and> \<bar>val a\<bar> < (\<bar>val r'\<bar> + 1) ^ unat k \<and>
       (val a = 0 \<or> val r' = 0 \<or> sgn (val r') = sgn (val a)))"
  using assms by (rule root_lim_val)

theorem big_root_exact_witness:
  "\<exists>r'. limba_big_root_lim limba_big_init (limba_big_set_i64 (- 30)) 3 100 = Some (True, r') \<and> val r' = - 3"
proof -
  have "mag (limba_big_set_i64 (- 30)) < 2 ^ ROOT_BITS"
    by (rule less_le_trans [OF _ power_increasing [of 5]]) (simp_all add: set_i64_mag ROOT_BITS_def)
  then obtain r' where r: "limba_big_root_lim limba_big_init (limba_big_set_i64 (- 30)) 3 100 = Some (True, r')"
    and v: "\<bar>val r'\<bar> ^ 3 \<le> 30" "30 < (\<bar>val r'\<bar> + 1) ^ 3" "val r' = 0 \<or> sgn (val r') = - 1"
    using big_root_exact [of "limba_big_set_i64 (- 30)" 100 3 limba_big_init]
    by (auto simp: set_i64_val set_i64_mag)
  have "\<bar>val r'\<bar> = 3"
  proof (rule ccontr)
    assume "\<bar>val r'\<bar> \<noteq> 3"
    then consider "\<bar>val r'\<bar> + 1 \<le> 3" | "4 \<le> \<bar>val r'\<bar>" by linarith
    then show False
    proof cases
      case 1
      then have "(\<bar>val r'\<bar> + 1) ^ 3 \<le> 3 ^ 3" by (intro power_mono) simp_all
      then show False using v(2) by simp
    next
      case 2
      then have "4 ^ 3 \<le> \<bar>val r'\<bar> ^ 3" by (intro power_mono) simp_all
      then show False using v(1) by simp
    qed
  qed
  then have "val r' = - 3" using v(3) by (auto simp: sgn_if split: if_splits)
  then show ?thesis using r by blast
qed

text \<open>
  C24: Modular exponentiation of a base of any size with an exponent not negative, exponent and modulus
  of fewer than \<open>2 ^ 27\<close> words and the modulus not zero (the evaluator checks the signs), under any limit
  of bits below \<open>2 ^ 64 - 1\<close>: true only with the exact residue in \<open>0 .. |m| - 1\<close>, and always true when
  the square of the modulus is at most 2 to the limit. This holds for every limit of up to 4294967200
  bits, and under a larger one when the square of the modulus has fewer bits than that (\<open>counted\<close>).
\<close>

theorem big_powmod_exact:
  assumes "big_ok b" "big_ok m" "small m" "val m \<noteq> 0" "big_ok e" "small e" "0 \<le> val e"
    and "unat mb + 1 < 2 ^ 64" "counted mb (mag m * mag m)" "limba_big_powmod_lim r b e m mb = (ok, r')"
  shows "(ok \<longrightarrow> val r' = val b ^ nat (val e) mod \<bar>val m\<bar>) \<and> (mag m * mag m \<le> 2 ^ unat mb \<longrightarrow> ok)"
  using powmod_lim_val [OF assms] by blast

theorem big_powmod_exact_witness:
  "\<exists>r'. limba_big_powmod_lim limba_big_init (limba_big_set_i64 4) (limba_big_set_i64 3) (limba_big_set_i64 5) 8589934592 =
     (True, r') \<and> val r' = 4"
proof -
  define mb :: u64 where "mb = 8589934592"
  have mb: "unat mb + 1 < 2 ^ 64" "5 \<le> unat mb" by (simp_all add: mb_def)
  obtain ok r' where r: "limba_big_powmod_lim limba_big_init (limba_big_set_i64 4) (limba_big_set_i64 3) (limba_big_set_i64 5) mb =
      (ok, r')"
    by (metis surj_pair)
  have p: "mag (limba_big_set_i64 5) * mag (limba_big_set_i64 5) = 25" by (simp add: set_i64_mag)
  have c: "counted mb 25" by (rule counted_pow [of _ 5]) simp_all
  have nz: "val (limba_big_set_i64 5) \<noteq> 0" "0 \<le> val (limba_big_set_i64 3)" by (simp_all add: set_i64_val)
  note x = big_powmod_exact [OF set_i64_val(2) set_i64_val(2) set_i64_small nz(1) set_i64_val(2) set_i64_small nz(2)
      mb(1) c [folded p] r, unfolded p]
  have "(25 :: nat) < 2 ^ unat mb" using mb(2) by (intro less_pow_unat [of _ 5]) simp_all
  then have "ok" "val r' = 4" using x by (simp_all add: set_i64_val)
  then show ?thesis using r unfolding mb_def by auto
qed

text \<open>
  What the 32-bit count does at \<open>2 ^ 27\<close> words, which the evaluator's default limit of about \<open>2 ^ 33\<close> bits
  lets through: a number of that many words with the top bit set counts as having no bits, and every
  root of it but the first is said to be 0.
\<close>

theorem big_root_wraps:
  assumes "length (bw a) = 2 ^ 27" "clz32 (last (bw a)) = 0" "k \<noteq> 1"
  shows "limba_big_bits a = 0 \<and> limba_big_root_lim r a k mb = Some (True, limba_big_set_i64 0) \<and>
    val (limba_big_set_i64 0) = 0"
proof -
  have "bw a \<noteq> []" using assms(1) by auto
  then have b: "limba_big_bits a = 0" using assms(1,2) by (simp add: limba_big_bits_def)
  moreover have "limba_big_bits (limba_big_abs a) = limba_big_bits a"
    by (simp add: limba_big_bits_def limba_big_abs_def)
  ultimately show ?thesis using assms(3) by (simp add: limba_big_root_lim_def Let_def set_i64_val)
qed

theorem big_root_wraps_witness:
  "limba_big_root_lim limba_big_init \<lparr>bw = replicate (2 ^ 27) 0x80000000, bneg = False\<rparr> 2 8589934592 =
     Some (True, limba_big_set_i64 0)"
proof -
  define n :: nat where "n = 2 ^ 27"
  have "clz32 0x80000000 = 0" by code_simp
  moreover have "n \<noteq> 0" by (simp add: n_def)
  ultimately show ?thesis
    using big_root_wraps [of "\<lparr>bw = replicate n 0x80000000, bneg = False\<rparr>" 2 limba_big_init 8589934592]
    unfolding n_def [symmetric] by simp
qed

end
