(* ===== verification/Bigtext.thy ===== *)
theory Bigtext
  imports Bignum
begin

text \<open>
  Integers of any size as text (\<^verbatim>\<open>src/src/common/bigint.c\<close>: \<open>limba_big_parse_lim\<close>,
  \<open>limba_big_str\<close>). Characters are bytes.
\<close>

section \<open>Parsing\<close>

definition digit_of :: "u8 \<Rightarrow> nat" where
  "digit_of c =
     (if 0x30 \<le> c \<and> c \<le> 0x39 then unat (c - 0x30)
      else if 0x61 \<le> c \<and> c \<le> 0x66 then unat (c - 0x61 + 10)
      else if 0x41 \<le> c \<and> c \<le> 0x46 then unat (c - 0x41 + 10)
      else 99)"

text \<open>The magnitude times \<open>base\<close> plus \<open>carry\<close>: the words and what carries over.\<close>

fun mul_small :: "u64 \<Rightarrow> u64 \<Rightarrow> u32 list \<Rightarrow> u32 list \<times> u64" where
  "mul_small base carry [] = ([], carry)"
| "mul_small base carry (w # ws) =
     (let carry = carry + ucast w * base;
          (ws, c) = mul_small base (drop_bit 32 carry) ws
      in (ucast carry # ws, c))"

fun parse_loop :: "nat \<Rightarrow> u64 \<Rightarrow> u8 list \<Rightarrow> u32 list \<Rightarrow> u32 list option" where
  "parse_loop base maxbits [] ws = Some ws"
| "parse_loop base maxbits (c # cs) ws =
     (let d = digit_of c
      in if d \<ge> base then parse_loop base maxbits cs ws
         else let (ws, carry) = mul_small (of_nat base) (of_nat d) ws
              in if carry \<noteq> 0
                 then if length ws \<ge> unat maxbits div 32 + 2 then None
                      else parse_loop base maxbits cs (ws @ [ucast carry])
                 else parse_loop base maxbits cs ws)"

definition limba_big_parse_lim :: "limba_big \<Rightarrow> u8 list \<Rightarrow> nat \<Rightarrow> u64 \<Rightarrow> bool \<times> limba_big" where
  "limba_big_parse_lim r s base maxbits =
     (case parse_loop base maxbits s [] of
        None \<Rightarrow> (False, r)
      | Some ws \<Rightarrow> let t = \<lparr>bw = ws, bneg = False\<rparr> in (fits t maxbits, t))"

definition limba_big_parse :: "limba_big \<Rightarrow> u8 list \<Rightarrow> nat \<Rightarrow> bool \<times> limba_big" where
  "limba_big_parse r s base = limba_big_parse_lim r s base LIMBA_BIG_MAXBITS"

section \<open>Printing\<close>





section \<open>The value of a text\<close>

fun text_value :: "nat \<Rightarrow> u8 list \<Rightarrow> nat \<Rightarrow> nat" where
  "text_value base [] v = v"
| "text_value base (c # cs) v =
     text_value base cs (if digit_of c \<ge> base then v else v * base + digit_of c)"

lemma text_value_mono: "0 < base \<Longrightarrow> v \<le> text_value base cs v"
proof (induction cs arbitrary: v)
  case (Cons c cs)
  let ?v = "if digit_of c \<ge> base then v else v * base + digit_of c"
  have "v * 1 \<le> v * base" using Cons.prems by (intro mult_le_mono2) simp
  then have "v \<le> v * base + digit_of c" by linarith
  then have "v \<le> ?v" by simp
  also have "?v \<le> text_value base cs ?v" by (rule Cons.IH [OF Cons.prems])
  finally show ?case by simp
qed simp

lemma mul_small_val:
  assumes "unat base \<le> 16"
  shows "unat carry < 16 \<Longrightarrow> mul_small base carry ws = (ws', c) \<Longrightarrow>
    length ws' = length ws \<and> unat c < 16 \<and>
    wval ws' + 4294967296 ^ length ws * unat c = wval ws * unat base + unat carry"
proof (induction ws arbitrary: carry ws' c)
  case (Cons w ws)
  let ?c = "carry + ucast w * base"
  have wb: "unat w * unat base \<le> 4294967295 * 16"
    using assms unat_u32_lt [of w] by (intro mult_le_mono) linarith+
  then have "unat (ucast w * base) = unat w * unat base" by (subst unat_mult_u64) simp_all
  then have c: "unat ?c = unat carry + unat w * unat base"
    using wb Cons.prems(1) unat_add_u64 [of carry "ucast w * base"] by simp
  then have "unat ?c < 16 * 4294967296" using wb Cons.prems(1) by simp
  then have lt: "unat (drop_bit 32 ?c) < 16" unfolding unat_shift32 by (rule less_mult_imp_div_less)
  obtain ws1 where ws1: "mul_small base (drop_bit 32 ?c) ws = (ws1, c)" "ws' = ucast ?c # ws1"
    using Cons.prems(2) by (auto simp: Let_def split: prod.splits)
  note IH = Cons.IH [OF lt ws1(1)]
  have "wval ws' + 4294967296 ^ length (w # ws) * unat c =
      unat (ucast ?c :: u32) + 4294967296 * (wval ws1 + 4294967296 ^ length ws * unat c)"
    by (simp add: ws1(2) algebra_simps)
  also have "\<dots> = unat (ucast ?c :: u32) + 4294967296 * unat (drop_bit 32 ?c) + 4294967296 * (wval ws * unat base)"
    using IH by (simp add: algebra_simps)
  also have "\<dots> = wval (w # ws) * unat base + unat carry"
    unfolding carry_split c by (simp add: algebra_simps)
  finally show ?case using IH ws1(2) by simp
qed simp

text \<open>Appending the carry keeps the number without a leading zero word.\<close>

lemma mul_small_canon:
  assumes base: "1 \<le> unat base" "unat base \<le> 16" "unat carry < 16" and r: "mul_small base carry ws = (ws', c)"
    and ws: "ws \<noteq> [] \<longrightarrow> last ws \<noteq> 0"
  shows "(let zs = if c \<noteq> 0 then ws' @ [ucast c] else ws'
    in wval zs = wval ws * unat base + unat carry \<and> (zs \<noteq> [] \<longrightarrow> last zs \<noteq> 0))"
proof -
  note v = mul_small_val [OF base(2,3) r]
  have uc: "unat (ucast c :: u32) = unat c" using v by (simp add: unat_ucast_u64_u32)
  show ?thesis
  proof (cases "c = 0")
    case False
    then have "unat c \<noteq> 0" by (simp add: unat_eq_0)
    then have "ucast c \<noteq> (0 :: u32)" using uc by auto
    then show ?thesis using False v uc by (simp add: wval_append)
  next
    case True
    then have w': "wval ws' = wval ws * unat base + unat carry" using v by simp
    have "last ws' \<noteq> 0" if ne': "ws' \<noteq> []"
    proof
      assume z: "last ws' = 0"
      obtain zs where zs: "ws' = zs @ [0]" using ne' z by (metis append_butlast_last_id)
      have ne: "ws \<noteq> []" and lz: "length zs = length ws - 1" using v ne' zs by auto
      have "4294967296 ^ (length ws - 1) * 1 \<le> wval ws * unat base"
        using wval_ge [OF ne] ws ne base(1) by (intro mult_le_mono) auto
      also have "\<dots> \<le> wval ws'" unfolding w' by simp
      also have "\<dots> < 4294967296 ^ (length ws - 1)" using wval_less [of zs] lz by (simp add: zs)
      finally show False by simp
    qed
    then show ?thesis using True w' by simp
  qed
qed

lemma parse_loop_val:
  assumes base: "2 \<le> base" "base \<le> 16"
  shows "(ws \<noteq> [] \<longrightarrow> last ws \<noteq> 0) \<Longrightarrow>
    (case parse_loop base mb cs ws of
       None \<Rightarrow> 2 ^ unat mb \<le> text_value base cs (wval ws)
     | Some zs \<Rightarrow> wval zs = text_value base cs (wval ws) \<and> (zs \<noteq> [] \<longrightarrow> last zs \<noteq> 0) \<and>
         length zs \<le> max (length ws) (unat mb div 32 + 2))"
proof (induction cs arbitrary: ws)
  case (Cons c cs)
  let ?d = "digit_of c"
  show ?case
  proof (cases "?d \<ge> base")
    case True
    then show ?thesis using Cons.IH [OF Cons.prems] by (simp split: option.splits)
  next
    case False
    obtain ws' cy where r: "mul_small (of_nat base) (of_nat ?d) ws = (ws', cy)" by fastforce
    have ub: "unat (of_nat base :: u64) = base" "unat (of_nat ?d :: u64) = ?d"
      using base False by (simp_all add: unat_of_nat take_bit_nat_eq_self)
    define zs where "zs = (if cy \<noteq> 0 then ws' @ [ucast cy] else ws')"
    have zs: "wval zs = wval ws * base + ?d" "zs \<noteq> [] \<longrightarrow> last zs \<noteq> 0"
      using mul_small_canon [OF _ _ _ r Cons.prems] ub base False by (simp_all add: zs_def Let_def)
    have len: "length ws' = length ws" using mul_small_val [OF _ _ r] ub base False by simp
    show ?thesis
    proof (cases "cy \<noteq> 0 \<and> length ws' \<ge> unat mb div 32 + 2")
      case True
      then have "zs \<noteq> []" "length ws' = length zs - 1" by (simp_all add: zs_def)
      then have "4294967296 ^ length ws' \<le> wval zs" using wval_ge [of zs] zs(2) by simp
      then have "(2 :: nat) ^ (32 * length ws') \<le> wval zs" by (simp add: power_mult)
      moreover have "unat mb \<le> 32 * length ws'" using True by linarith
      then have "(2 :: nat) ^ unat mb \<le> 2 ^ (32 * length ws')" by (intro power_increasing) simp_all
      moreover have "wval zs \<le> text_value base cs (wval zs)" using base by (intro text_value_mono) simp
      ultimately have "2 ^ unat mb \<le> text_value base cs (wval zs)" by (meson order.trans)
      then show ?thesis using True False r by (simp add: zs(1))
    next
      case nfull: False
      then have "parse_loop base mb (c # cs) ws = parse_loop base mb cs zs"
        using False r by (auto simp: zs_def Let_def)
      moreover have "max (length zs) (unat mb div 32 + 2) \<le> max (length ws) (unat mb div 32 + 2)"
        using nfull len by (auto simp: zs_def)
      ultimately show ?thesis using Cons.IH [OF zs(2)] False zs(1)
        by (auto split: option.splits)
    qed
  qed
qed simp

text \<open>A text is accepted exactly when its value is within the limit, and then gives that value.\<close>

lemma parse_lim_val:
  assumes base: "2 \<le> base" "base \<le> 16" and c: "counted mb (text_value base s 0)"
    and r: "limba_big_parse_lim r s base mb = (ok, r')"
  shows "ok \<longleftrightarrow> text_value base s 0 < 2 ^ unat mb" "ok \<Longrightarrow> within mb r' \<and> val r' = int (text_value base s 0)"
proof -
  note p = parse_loop_val [OF base, of "[]" mb s]
  have "(ok \<longleftrightarrow> text_value base s 0 < 2 ^ unat mb) \<and> (ok \<longrightarrow> within mb r' \<and> val r' = int (text_value base s 0))"
  proof (cases "parse_loop base mb s []")
    case None
    then show ?thesis using p r by (simp add: limba_big_parse_lim_def)
  next
    case (Some zs)
    let ?t = "\<lparr>bw = zs, bneg = False\<rparr>"
    have z: "mag ?t = text_value base s 0" "big_ok ?t" "length zs \<le> unat mb div 32 + 2"
      using p Some by (simp_all add: mag_def big_ok_def)
    have "small ?t"
    proof (cases "unat mb \<le> MAXBITS_EXACT")
      case True
      then show ?thesis using z(3) by (simp add: small_def MAXBITS_EXACT_def)
    next
      case False
      then show ?thesis using small_if_bits [OF z(2), of MAXBITS_EXACT] z(1) c by (simp add: counted_def)
    qed
    moreover have "(ok, r') = (fits ?t mb, ?t)" using r Some by (auto simp: limba_big_parse_lim_def Let_def)
    ultimately show ?thesis using z by (auto simp: fits_iff within_def val_def)
  qed
  then show "ok \<longleftrightarrow> text_value base s 0 < 2 ^ unat mb" "ok \<Longrightarrow> within mb r' \<and> val r' = int (text_value base s 0)"
    by blast+
qed

section \<open>The decimal digits of a number\<close>











section \<open>The groups\<close>






section \<open>What reading and writing promise\<close>

text \<open>
  C25: Reading digits in a base of 2 to 16 (the evaluator passes 2, 8, 10 or 16) under any limit of bits:
  true exactly when the value of the text is below 2 to the limit, and then the number is that value in
  normal form; a character that is no digit of the base (a separator) is passed over. This holds for every
  limit of up to 4294967200 bits, and under a larger one (the evaluator's default is about \<open>2 ^ 33\<close>) for
  every text whose value has fewer bits than that (\<open>counted\<close>): beyond, the 32-bit count of bits wraps.
\<close>

theorem big_parse_exact:
  assumes "2 \<le> base" "base \<le> 16" "counted mb (text_value base s 0)" "limba_big_parse_lim r s base mb = (ok, r')"
  shows "(ok \<longleftrightarrow> text_value base s 0 < 2 ^ unat mb) \<and>
    (ok \<longrightarrow> big_ok r' \<and> val r' = int (text_value base s 0))"
  using parse_lim_val [OF assms] by (simp add: within_def)

theorem big_parse_exact_witness:
  "\<exists>r'. limba_big_parse_lim limba_big_init [0x31, 0x5f, 0x30, 0x35] 10 8589934592 = (True, r') \<and> val r' = 105"
proof -
  define mb :: u64 where "mb = 8589934592"
  have mb: "7 \<le> unat mb" by (simp add: mb_def)
  obtain ok r' where r: "limba_big_parse_lim limba_big_init [0x31, 0x5f, 0x30, 0x35] 10 mb = (ok, r')"
    by (metis surj_pair)
  have t: "text_value 10 [0x31, 0x5f, 0x30, 0x35] 0 = 105" by (simp add: digit_of_def word_le_nat_alt)
  have "counted mb 105" by (rule counted_pow [of _ 7]) simp_all
  note x = big_parse_exact [OF _ _ this [folded t] r, unfolded t]
  have "(105 :: nat) < 2 ^ unat mb" using mb by (intro less_pow_unat [of _ 7]) simp_all
  then have "ok" "val r' = 105" using x by simp_all
  then show ?thesis using r unfolding mb_def by auto
qed



end
