(* ===== verification/Rational.thy ===== *)
theory Rational
  imports Bignum
begin

text \<open>
  Rationals (\<^verbatim>\<open>src/src/common/bigint.c\<close>, second half): a positive denominator and no common factor.
  The compiler's 128-bit integers serve the operands that fit them; both ways of normalising are
  modelled, and give the same. \<open>None\<close> stands for a loop that does not end, as in \<open>Bignum\<close>.
\<close>

type_synonym u128 = "128 word"

record limba_rat =
  rnum :: limba_big
  rden :: limba_big

section \<open>The operations\<close>

definition limba_rat_init :: limba_rat where
  "limba_rat_init = \<lparr>rnum = limba_big_init, rden = limba_big_set_u64 1\<rparr>"

definition limba_rat_copy :: "limba_rat \<Rightarrow> limba_rat" where
  "limba_rat_copy a = \<lparr>rnum = limba_big_copy (rnum a), rden = limba_big_copy (rden a)\<rparr>"

definition limba_rat_set_big :: "limba_big \<Rightarrow> limba_rat" where
  "limba_rat_set_big a = \<lparr>rnum = limba_big_copy a, rden = limba_big_set_u64 1\<rparr>"

definition limba_rat_is_int :: "limba_rat \<Rightarrow> bool" where
  "limba_rat_is_int a \<longleftrightarrow> length (bw (rden a)) = 1 \<and> bw (rden a) ! 0 = 1"

definition set_u128 :: "u128 \<Rightarrow> limba_big" where
  "set_u128 v = trim \<lparr>bw = map (\<lambda>k. ucast (drop_bit (32 * k) v)) [0..<4], bneg = False\<rparr>"

definition mag128 :: "limba_big \<Rightarrow> u128 option" where
  "mag128 a =
     (if length (bw a) > 4 then None
      else Some (fold (\<lambda>w m. push_bit 32 m OR ucast w) (rev (bw a)) 0))"

function gcd128 :: "u128 \<Rightarrow> u128 \<Rightarrow> u128" where
  "gcd128 a b = (if b \<noteq> 0 then gcd128 b (a mod b) else a)"
  by pat_completeness auto
termination
  by (relation "measure (\<lambda>(a, b). unat b)") (simp_all add: unat_mod unat_gt_0)

declare gcd128.simps [simp del]

definition normalise :: "limba_rat \<Rightarrow> limba_rat option" where
  "normalise r =
     (let r = (if bneg (rden r)
               then r\<lparr>rden := (rden r)\<lparr>bneg := False\<rparr>,
                      rnum := (rnum r)\<lparr>bneg := if bw (rnum r) \<noteq> [] then \<not> bneg (rnum r) else False\<rparr>\<rparr>
               else r)
      in if bw (rnum r) = [] then Some (r\<lparr>rden := limba_big_set_u64 1\<rparr>)
         else case (mag128 (rnum r), mag128 (rden r)) of
                (Some n, Some d) \<Rightarrow>
                  let g = gcd128 n d
                  in if g \<noteq> 1
                     then Some \<lparr>rnum = (set_u128 (n div g))\<lparr>bneg := bneg (rnum r)\<rparr>, rden = set_u128 (d div g)\<rparr>
                     else Some r
              | _ \<Rightarrow>
                  (case limba_big_gcd (rnum r) (rden r) of
                     None \<Rightarrow> None
                   | Some g \<Rightarrow>
                       if \<not> (length (bw g) = 1 \<and> bw g ! 0 = 1)
                       then Some \<lparr>rnum = fst (limba_big_divmod (rnum r) g), rden = fst (limba_big_divmod (rden r) g)\<rparr>
                       else Some r))"

text \<open>
  The comparison multiplies across; a product past the limit leaves its variable at zero, and the
  comparison goes on with that.
\<close>

definition limba_rat_cmp :: "limba_rat \<Rightarrow> limba_rat \<Rightarrow> int" where
  "limba_rat_cmp a b =
     (let (_, x) = limba_big_mul limba_big_init (rnum a) (rden b);
          (_, y) = limba_big_mul limba_big_init (rnum b) (rden a)
      in limba_big_cmp x y)"

definition rat_addsub :: "limba_rat \<Rightarrow> limba_rat \<Rightarrow> limba_rat \<Rightarrow> bool \<Rightarrow> (bool \<times> limba_rat) option" where
  "rat_addsub r a b sub =
     (let (okx, x) = limba_big_mul limba_big_init (rnum a) (rden b);
          (oky, y) = limba_big_mul limba_big_init (rnum b) (rden a);
          (okn, n) = (if sub then limba_big_sub x y else limba_big_add x y);
          (okd, d) = limba_big_mul (limba_big_set_u64 1) (rden a) (rden b)
      in if okx \<and> oky \<and> okn \<and> okd
         then map_option (\<lambda>t. (True, limba_rat_copy t)) (normalise \<lparr>rnum = n, rden = d\<rparr>)
         else Some (False, r))"

definition limba_rat_add :: "limba_rat \<Rightarrow> limba_rat \<Rightarrow> limba_rat \<Rightarrow> (bool \<times> limba_rat) option" where
  "limba_rat_add r a b = rat_addsub r a b False"

definition limba_rat_sub :: "limba_rat \<Rightarrow> limba_rat \<Rightarrow> limba_rat \<Rightarrow> (bool \<times> limba_rat) option" where
  "limba_rat_sub r a b = rat_addsub r a b True"

definition rat_muldiv ::
    "limba_rat \<Rightarrow> limba_big \<Rightarrow> limba_big \<Rightarrow> limba_big \<Rightarrow> limba_big \<Rightarrow> (bool \<times> limba_rat) option" where
  "rat_muldiv r n1 n2 d1 d2 =
     (let (okn, n) = limba_big_mul limba_big_init n1 n2;
          (okd, d) = limba_big_mul (limba_big_set_u64 1) d1 d2
      in if okn \<and> okd then map_option (\<lambda>t. (True, limba_rat_copy t)) (normalise \<lparr>rnum = n, rden = d\<rparr>)
         else Some (False, r))"

definition limba_rat_mul :: "limba_rat \<Rightarrow> limba_rat \<Rightarrow> limba_rat \<Rightarrow> (bool \<times> limba_rat) option" where
  "limba_rat_mul r a b = rat_muldiv r (rnum a) (rnum b) (rden a) (rden b)"

definition limba_rat_div :: "limba_rat \<Rightarrow> limba_rat \<Rightarrow> limba_rat \<Rightarrow> (bool \<times> limba_rat) option" where
  "limba_rat_div r a b = rat_muldiv r (rnum a) (rden b) (rden a) (rnum b)"

definition limba_rat_neg :: "limba_rat \<Rightarrow> limba_rat" where
  "limba_rat_neg a = (let r = limba_rat_copy a in r\<lparr>rnum := limba_big_neg (rnum r)\<rparr>)"

definition limba_rat_pow :: "limba_rat \<Rightarrow> limba_rat \<Rightarrow> u64 \<Rightarrow> (bool \<times> limba_rat) option" where
  "limba_rat_pow r a e =
     (let m = (if sint e < 0 then - e else e);
          (okn, n) = limba_big_pow limba_big_init (if sint e < 0 then rden a else rnum a) m;
          (okd, d) = limba_big_pow (limba_big_set_u64 1) (if sint e < 0 then rnum a else rden a) m
      in if okn \<and> okd then map_option (\<lambda>t. (True, limba_rat_copy t)) (normalise \<lparr>rnum = n, rden = d\<rparr>)
         else Some (False, r))"

section \<open>The 128-bit way\<close>

lemma unat_u128_lt: "unat (x :: u128) < 340282366920938463463374607431768211456"
  using unsigned_less [of x, where ?'a = nat] by simp

lemma gcd128_val: "unat (gcd128 a b) = gcd (unat a) (unat b)"
proof (induction a b rule: gcd128.induct)
  case (1 a b)
  show ?case
  proof (cases "b = 0")
    case True
    then show ?thesis by (simp add: gcd128.simps)
  next
    case False
    then have "unat (gcd128 a b) = gcd (unat b) (unat a mod unat b)"
      using 1 by (simp add: gcd128.simps [of a] unat_mod)
    then show ?thesis by (metis gcd.commute gcd_red_nat)
  qed
qed

lemma mag128_fold:
  "length ws \<le> n \<Longrightarrow> n \<le> 4 \<Longrightarrow> unat m < 4294967296 ^ (4 - n) \<Longrightarrow>
   unat (fold (\<lambda>w m. push_bit 32 m OR ucast w) ws (m :: u128)) = unat m * 4294967296 ^ length ws + wval (rev ws)"
proof (induction ws arbitrary: m n)
  case (Cons w ws)
  obtain n' where n: "n = Suc n'" using Cons.prems(1) by (cases n) auto
  let ?m = "push_bit 32 m OR ucast w :: u128"
  have p: "(4294967296 :: nat) ^ (4 - n') = 4294967296 ^ (4 - n) * 4294967296"
  proof -
    have "4 - n' = Suc (4 - n)" using Cons.prems(2) unfolding n by simp
    then show ?thesis by simp
  qed
  have "unat m * 2 ^ 32 < 4294967296 ^ (4 - n) * 4294967296" using Cons.prems(3) by simp
  also have "\<dots> \<le> 4294967296 ^ 4" unfolding p [symmetric] by (intro power_increasing) simp_all
  finally have "unat m * 2 ^ 32 < 2 ^ LENGTH(128)" by simp
  moreover have uw: "unat (ucast w :: u128) = unat w"
    using less_trans [OF unat_u32_lt [of w], of "2 ^ 128"] by (simp add: unsigned_ucast_eq take_bit_nat_eq_self)
  ultimately have m: "unat ?m = unat w + unat m * 4294967296"
    using unat_or_push [of "ucast w :: u128" 32 m] by (simp add: or.commute del: push_bit_of_0)
  have "unat ?m < 4294967296 * Suc (unat m)" unfolding m by simp
  also have "\<dots> \<le> 4294967296 * 4294967296 ^ (4 - n)" using Cons.prems(3) by (intro mult_le_mono2) simp
  finally have "unat ?m < 4294967296 ^ (4 - n')" unfolding p by (simp add: mult.commute)
  then have "unat (fold (\<lambda>w m. push_bit 32 m OR ucast w) ws ?m) = unat ?m * 4294967296 ^ length ws + wval (rev ws)"
    using Cons.IH [of n' ?m] Cons.prems(1,2) n by simp
  then show ?case unfolding m by (simp add: wval_append algebra_simps)
qed simp

lemma mag128_val: "mag128 a = Some v \<Longrightarrow> unat v = mag a"
  using mag128_fold [of "rev (bw a)" 4 0] by (auto simp: mag128_def mag_def split: if_splits)

lemma four_words:
  fixes x :: nat
  assumes "x < 340282366920938463463374607431768211456"
  shows "x mod 4294967296 + 4294967296 * (x div 4294967296 ^ 1 mod 4294967296 +
    4294967296 * (x div 4294967296 ^ 2 mod 4294967296 + 4294967296 * (x div 4294967296 ^ 3 mod 4294967296))) = x"
proof -
  define a b c where "a = x div 4294967296" and "b = a div 4294967296" and "c = b div 4294967296"
  have "a < 79228162514264337593543950336" using assms by (simp add: a_def less_mult_imp_div_less)
  then have "b < 18446744073709551616" by (simp add: b_def less_mult_imp_div_less)
  then have "c < 4294967296" by (simp add: c_def less_mult_imp_div_less)
  then have c: "c mod 4294967296 = c" by (rule mod_less)
  have f: "x div 4294967296 ^ 1 = a" "x div 4294967296 ^ 2 = b" "x div 4294967296 ^ 3 = c"
    by (simp_all only: a_def b_def c_def power_one_right power2_eq_square power3_eq_cube div_mult2_eq)
  have "b mod 4294967296 + 4294967296 * c = b" "a mod 4294967296 + 4294967296 * b = a"
    "x mod 4294967296 + 4294967296 * a = x"
    by (simp_all only: a_def b_def c_def mod_mult_div_eq)
  then show ?thesis by (simp only: f c)
qed

lemma set_u128_val: "mag (set_u128 v) = unat v" "big_ok (set_u128 v)" "\<not> bneg (set_u128 v)"
proof -
  have d: "unat (drop_bit (32 * k) v) = unat v div 4294967296 ^ k" for k
    by (simp add: unat_drop_bit power_mult)
  have u: "unat (ucast (x :: u128) :: u32) = unat x mod 4294967296" for x
    by (simp add: unsigned_ucast_eq take_bit_eq_mod)
  have "[0..<4] = [0, 1, 2, 3 :: nat]" "unat (drop_bit 0 v) = unat v" by (simp_all add: upt_conv_Cons)
  then have "wval (map (\<lambda>k. ucast (drop_bit (32 * k) v)) [0..<4]) = unat v"
    using four_words [OF unat_u128_lt [of v]]
    by (simp only: list.map wval.simps u d mult_0_right add_0_right)
  then show "mag (set_u128 v) = unat v" by (simp add: set_u128_def) (simp add: mag_def)
  show "big_ok (set_u128 v)" "\<not> bneg (set_u128 v)" by (simp_all add: set_u128_def) (simp add: trim_def Let_def)
qed

section \<open>Normalising\<close>

text \<open>The numbers a rational is: a fraction in lowest terms, with the sign on top.\<close>

definition rat_ok :: "limba_rat \<Rightarrow> bool" where
  "rat_ok r \<longleftrightarrow> big_ok (rnum r) \<and> big_ok (rden r) \<and> 0 < val (rden r) \<and>
     gcd (val (rnum r)) (val (rden r)) = 1"

lemma gcd_cofactors:
  fixes n d :: int
  assumes "d \<noteq> 0"
  shows "gcd (n div gcd n d) (d div gcd n d) = 1"
  using assms by (simp add: div_gcd_coprime coprime_iff_gcd_eq_1 [symmetric])

lemma tdiv_dvd: "b dvd a \<Longrightarrow> 0 < b \<Longrightarrow> tdiv a b = a div b"
  by (cases "a = 0"; cases "0 < a") (auto simp: tdiv_def sgn_if dvd_neg_div)

lemma gcd_mag: "gcd (val a) (val b) = int (gcd (mag a) (mag b))"
  by (simp add: mag_eq_val flip: gcd_int_int_eq)

lemma val_1_iff: "big_ok g \<Longrightarrow> val g = 1 \<longleftrightarrow> length (bw g) = 1 \<and> bw g ! 0 = 1 \<and> \<not> bneg g"
proof
  assume ok: "big_ok g" and v: "val g = 1"
  have "g = limba_big_set_u64 1" using ok v by (intro big_eqI) (simp_all add: set_u64_val)
  moreover have "limba_big_set_u64 1 = \<lparr>bw = [1], bneg = False\<rparr>"
    by (simp add: limba_big_set_u64_def trim_def trim_words_def)
  ultimately show "length (bw g) = 1 \<and> bw g ! 0 = 1 \<and> \<not> bneg g" by simp
next
  assume "length (bw g) = 1 \<and> bw g ! 0 = 1 \<and> \<not> bneg g"
  then have "bw g = [1]" "\<not> bneg g" by (cases "bw g"; simp)+
  then show "val g = 1" by (simp add: val_def mag_def)
qed

lemma normalise_pos:
  assumes ok: "big_ok (rnum r)" "big_ok (rden r)" "0 < val (rden r)"
  shows "\<exists>r'. normalise r = Some r' \<and> rat_ok r' \<and> val (rnum r') * val (rden r) = val (rnum r) * val (rden r')"
proof -
  let ?n = "rnum r" and ?d = "rden r"
  have dneg: "\<not> bneg ?d" using bneg_iff [OF ok(2)] ok(3) by simp
  show ?thesis
  proof (cases "bw ?n = []")
    case True
    then have "val ?n = 0" using val_0_iff [OF ok(1)] by simp
    then show ?thesis using True dneg ok(1)
      by (simp add: normalise_def Let_def rat_ok_def set_u64_val)
  next
    case False
    then have nz: "val ?n \<noteq> 0" using val_0_iff [OF ok(1)] by simp
    let ?g = "gcd (val ?n) (val ?d)"
    have gpos: "0 < ?g" using ok(3) by (simp add: gcd_pos_int)
    have gd: "?g dvd val ?n" "?g dvd val ?d" by simp_all
    have main: "rat_ok r' \<and> val (rnum r') * val ?d = val ?n * val (rden r')"
      if r': "big_ok (rnum r')" "big_ok (rden r')" "val (rnum r') = val ?n div ?g" "val (rden r') = val ?d div ?g" for r'
    proof -
      have "0 < val (rden r')" unfolding r'(4) using ok(3) gpos gd(2) by (simp add: pos_imp_zdiv_pos_iff zdvd_imp_le)
      moreover have "gcd (val (rnum r')) (val (rden r')) = 1"
        unfolding r'(3,4) using ok(3) by (intro gcd_cofactors) simp
      moreover have "val ?n div ?g * val ?d = val ?n * (val ?d div ?g)"
        using gd by (metis div_mult_swap dvd_div_mult)
      ultimately show ?thesis using r' by (simp add: rat_ok_def)
    qed
    show ?thesis
    proof (cases "mag128 ?n \<noteq> None \<and> mag128 ?d \<noteq> None")
      case True
      then obtain n d where nd: "mag128 ?n = Some n" "mag128 ?d = Some d" by auto
      note un = mag128_val [OF nd(1)] and ud = mag128_val [OF nd(2)]
      let ?h = "gcd128 n d"
      have h: "int (unat ?h) = ?g" unfolding gcd_mag gcd128_val un ud ..
      show ?thesis
      proof (cases "?h = 1")
        case True
        then have "?g = 1" using h by simp
        then show ?thesis using True False nd dneg ok by (simp add: normalise_def Let_def rat_ok_def)
      next
        case h1: False
        let ?r = "\<lparr>rnum = (set_u128 (n div ?h))\<lparr>bneg := bneg ?n\<rparr>, rden = set_u128 (d div ?h)\<rparr>"
        have norm: "normalise r = Some ?r" using h1 False nd dneg by (simp add: normalise_def Let_def)
        have mn: "mag (set_u128 (n div ?h)) = mag ?n div nat ?g" "mag (set_u128 (d div ?h)) = mag ?d div nat ?g"
          by (simp_all add: set_u128_val unat_div un ud gcd128_val gcd_mag)
        have mnz: "mag ?n div nat ?g \<noteq> 0"
        proof -
          have "nat ?g dvd mag ?n" by (simp add: gcd_mag)
          moreover have "mag ?n \<noteq> 0" using nz by (simp add: mag_val)
          ultimately show ?thesis by (metis dvd_div_eq_0_iff)
        qed
        have vn: "val ((set_u128 (n div ?h))\<lparr>bneg := bneg ?n\<rparr>) = val ?n div ?g"
        proof -
          define G where "G = ?g"
          have G: "0 < G" "G dvd int (mag ?n)" using gpos by (simp_all add: G_def gcd_mag)
          have "val ((set_u128 (n div ?h))\<lparr>bneg := bneg ?n\<rparr>) =
              (if bneg ?n then - int (mag ?n div nat G) else int (mag ?n div nat G))"
            using mn(1) unfolding G_def by (simp add: val_def [of "_ \<lparr>bneg := _\<rparr>"]) (simp add: mag_def)
          also have "\<dots> = (if bneg ?n then - (int (mag ?n) div G) else int (mag ?n) div G)"
            using G(1) by (simp add: of_nat_div)
          also have "\<dots> = (if bneg ?n then - int (mag ?n) else int (mag ?n)) div G"
            using dvd_neg_div [OF G(2)] by simp
          finally show ?thesis unfolding G_def val_def [of ?n] .
        qed
        have vd: "val (set_u128 (d div ?h)) = val ?d div ?g"
          using mn(2) set_u128_val(3) [of "d div ?h"] gpos dneg by (simp add: val_def of_nat_div)
        have "big_ok ((set_u128 (n div ?h))\<lparr>bneg := bneg ?n\<rparr>)"
          using set_u128_val(2) [of "n div ?h"] mnz mn(1) by (auto simp: big_ok_def mag_def)
        then show ?thesis using main [of ?r] norm vn vd set_u128_val(2) by simp
      qed
    next
      case big: False
      obtain g where g: "limba_big_gcd ?n ?d = Some g" "big_ok g" "val g = ?g" using gcd_val [OF ok(1,2)] by blast
      have gneg: "\<not> bneg g" using bneg_iff [OF g(2)] g(3) gpos by simp
      have n: "normalise r = (if \<not> (length (bw g) = 1 \<and> bw g ! 0 = 1)
          then Some \<lparr>rnum = fst (limba_big_divmod ?n g), rden = fst (limba_big_divmod ?d g)\<rparr> else Some r)"
        using big False dneg g(1) by (auto simp: normalise_def Let_def split: option.splits)
      show ?thesis
      proof (cases "val g = 1")
        case True
        then have "normalise r = Some r" using n val_1_iff [OF g(2)] by simp
        then show ?thesis using True g(3) ok by (simp add: rat_ok_def)
      next
        case False
        then have norm: "normalise r = Some \<lparr>rnum = fst (limba_big_divmod ?n g), rden = fst (limba_big_divmod ?d g)\<rparr>"
          using n val_1_iff [OF g(2)] gneg by simp
        have gnz: "val g \<noteq> 0" using g(3) gpos by simp
        obtain q1 m1 q2 m2 where q: "limba_big_divmod ?n g = (q1, m1)" "limba_big_divmod ?d g = (q2, m2)" by fastforce
        note d1 = divmod_val [OF ok(1) g(2) gnz q(1)] and d2 = divmod_val [OF ok(2) g(2) gnz q(2)]
        have "val q1 = val ?n div ?g" "val q2 = val ?d div ?g"
          using d1(1) d2(1) tdiv_dvd [OF gd(1) gpos] tdiv_dvd [OF gd(2) gpos] g(3) by simp_all
        then show ?thesis using main [of "\<lparr>rnum = q1, rden = q2\<rparr>"] norm q d1(3) d2(3) by simp
      qed
    qed
  qed
qed

lemma normalise_val:
  assumes ok: "big_ok (rnum r)" "big_ok (rden r)" "val (rden r) \<noteq> 0"
  shows "\<exists>r'. normalise r = Some r' \<and> rat_ok r' \<and> val (rnum r') * val (rden r) = val (rnum r) * val (rden r')"
proof (cases "bneg (rden r)")
  case False
  then show ?thesis using normalise_pos [OF ok(1,2)] ok(3) bneg_iff [OF ok(2)] by (simp add: not_less)
next
  case True
  let ?r = "r\<lparr>rden := (rden r)\<lparr>bneg := False\<rparr>,
    rnum := (rnum r)\<lparr>bneg := if bw (rnum r) \<noteq> [] then \<not> bneg (rnum r) else False\<rparr>\<rparr>"
  have s: "normalise r = normalise ?r" using True by (simp add: normalise_def Let_def)
  have n: "rnum ?r = limba_big_neg (rnum r)" by (simp add: limba_big_neg_def)
  have d: "big_ok (rden ?r)" "val (rden ?r) = - val (rden r)"
    using True ok(2) by (auto simp: big_ok_def val_def mag_def)
  have "0 < val (rden ?r)" using d(2) bneg_iff [OF ok(2)] True by simp
  from normalise_pos [OF _ d(1) this] obtain r' where r': "normalise ?r = Some r'" "rat_ok r'"
      "val (rnum r') * val (rden ?r) = val (rnum ?r) * val (rden r')"
    using neg_val [OF ok(1)] unfolding n by blast
  then have "val (rnum r') * val (rden r) = val (rnum r) * val (rden r')"
    using d(2) neg_val(1) [OF ok(1)] unfolding n by simp
  then show ?thesis using r' s by auto
qed

section \<open>Arithmetic\<close>

abbreviation rat_in :: "limba_big \<Rightarrow> bool" where
  "rat_in a \<equiv> within LIMBA_BIG_MAXBITS a"

lemma maxbits_exact: "unat LIMBA_BIG_MAXBITS = 16384" "unat LIMBA_BIG_MAXBITS \<le> MAXBITS_EXACT"
  "1 \<le> unat LIMBA_BIG_MAXBITS"
  by (simp_all add: LIMBA_BIG_MAXBITS_def MAXBITS_EXACT_def)

lemmas mul_in = mul_lim_within [OF _ _ maxbits_exact(2), folded limba_big_mul_def]
lemmas add_in = add_lim_within [OF _ _ maxbits_exact(2), folded limba_big_add_def]
lemmas sub_in = sub_lim_within [OF _ _ maxbits_exact(2), folded limba_big_sub_def]
lemmas pow_in = pow_lim_within [OF _ maxbits_exact(2,3), folded limba_big_pow_def]

text \<open>
  What a result stands for: a fraction in lowest terms equal to \<open>n / d\<close>.
\<close>

definition rat_is :: "limba_rat \<Rightarrow> int \<Rightarrow> int \<Rightarrow> bool" where
  "rat_is r n d \<longleftrightarrow> rat_ok r \<and> val (rnum r) * d = n * val (rden r)"

lemma normalise_is:
  "big_ok n \<Longrightarrow> big_ok d \<Longrightarrow> val d \<noteq> 0 \<Longrightarrow>
   \<exists>t. normalise \<lparr>rnum = n, rden = d\<rparr> = Some t \<and> rat_is t (val n) (val d)"
  using normalise_val [of "\<lparr>rnum = n, rden = d\<rparr>"] by (auto simp: rat_is_def)

lemma rat_copy [simp]: "limba_rat_copy a = a"
  by (simp add: limba_rat_copy_def)

lemma rat_addsub_val:
  assumes a: "rat_ok a" "rat_in (rnum a)" "rat_in (rden a)"
    and b: "rat_ok b" "rat_in (rnum b)" "rat_in (rden b)"
  shows "\<exists>ok r'. rat_addsub r a b sub = Some (ok, r') \<and>
    (ok \<longrightarrow> rat_is r' (val (rnum a) * val (rden b) + (if sub then - 1 else 1) * (val (rnum b) * val (rden a)))
       (val (rden a) * val (rden b))) \<and> (\<not> ok \<longrightarrow> r' = r)"
proof -
  obtain okx x where x: "limba_big_mul limba_big_init (rnum a) (rden b) = (okx, x)" by fastforce
  obtain oky y where y: "limba_big_mul limba_big_init (rnum b) (rden a) = (oky, y)" by fastforce
  obtain okn n where n: "(if sub then limba_big_sub x y else limba_big_add x y) = (okn, n)" by fastforce
  obtain okd d where d: "limba_big_mul (limba_big_set_u64 1) (rden a) (rden b) = (okd, d)" by fastforce
  show ?thesis
  proof (cases "okx \<and> oky \<and> okn \<and> okd")
    case False
    then have "rat_addsub r a b sub = Some (False, r)" using x y n d unfolding rat_addsub_def by auto
    then show ?thesis by blast
  next
    case True
    have vx: "val x = val (rnum a) * val (rden b)" "rat_in x" using mul_in(2) [OF a(2) b(3) x] True by simp_all
    have vy: "val y = val (rnum b) * val (rden a)" "rat_in y" using mul_in(2) [OF b(2) a(3) y] True by simp_all
    have vn: "val n = val x + (if sub then - 1 else 1) * val y" "big_ok n"
      using n add_in [OF vx(2) vy(2)] sub_in [OF vx(2) vy(2)] by (auto split: if_splits)
    have vd: "val d = val (rden a) * val (rden b)" "big_ok d"
      using mul_in(2) [OF a(3) b(3) d] True by (simp_all add: within_def)
    have "val d \<noteq> 0" using vd(1) a(1) b(1) by (simp add: rat_ok_def)
    then obtain t where t: "normalise \<lparr>rnum = n, rden = d\<rparr> = Some t" "rat_is t (val n) (val d)"
      using normalise_is vn(2) vd(2) by blast
    have "rat_addsub r a b sub = Some (True, t)"
      using x y n d t(1) True by (simp add: rat_addsub_def)
    then show ?thesis using t(2) unfolding vn(1) vd(1) vx(1) vy(1) by blast
  qed
qed

lemma rat_muldiv_val:
  assumes in1: "rat_in n1" "rat_in n2" "rat_in d1" "rat_in d2" and nz: "val d1 \<noteq> 0" "val d2 \<noteq> 0"
  shows "\<exists>ok r'. rat_muldiv r n1 n2 d1 d2 = Some (ok, r') \<and>
    (ok \<longrightarrow> rat_is r' (val n1 * val n2) (val d1 * val d2)) \<and> (\<not> ok \<longrightarrow> r' = r)"
proof -
  obtain okn n where n: "limba_big_mul limba_big_init n1 n2 = (okn, n)" by fastforce
  obtain okd d where d: "limba_big_mul (limba_big_set_u64 1) d1 d2 = (okd, d)" by fastforce
  show ?thesis
  proof (cases "okn \<and> okd")
    case False
    then have "rat_muldiv r n1 n2 d1 d2 = Some (False, r)" using n d unfolding rat_muldiv_def by auto
    then show ?thesis by blast
  next
    case True
    have vn: "val n = val n1 * val n2" "big_ok n" using mul_in(2) [OF in1(1,2) n] True by (simp_all add: within_def)
    have vd: "val d = val d1 * val d2" "big_ok d" using mul_in(2) [OF in1(3,4) d] True by (simp_all add: within_def)
    obtain t where t: "normalise \<lparr>rnum = n, rden = d\<rparr> = Some t" "rat_is t (val n) (val d)"
      using normalise_is [OF vn(2) vd(2)] vd(1) nz by auto
    have "rat_muldiv r n1 n2 d1 d2 = Some (True, t)" using n d t(1) True by (simp add: rat_muldiv_def)
    then show ?thesis using t(2) unfolding vn(1) vd(1) by blast
  qed
qed

lemma rat_pow_val:
  assumes a: "rat_ok a" "rat_in (rnum a)" "rat_in (rden a)" and nz: "sint e < 0 \<longrightarrow> val (rnum a) \<noteq> 0"
  shows "\<exists>ok r'. limba_rat_pow r a e = Some (ok, r') \<and>
    (ok \<longrightarrow> (if sint e < 0 then rat_is r' (val (rden a) ^ nat (- sint e)) (val (rnum a) ^ nat (- sint e))
             else rat_is r' (val (rnum a) ^ nat (sint e)) (val (rden a) ^ nat (sint e)))) \<and>
    (\<not> ok \<longrightarrow> r' = r)"
proof -
  define m where "m = (if sint e < 0 then - e else e)"
  have m: "int (unat m) = \<bar>sint e\<bar>"
  proof -
    have "mag (limba_big_set_i64 e) = unat m"
      using set_u64_val(3) [of m] by (simp add: limba_big_set_i64_def m_def Let_def mag_def)
    then show ?thesis using mag_eq_val [of "limba_big_set_i64 e"] set_i64_val(1) [of e] by simp
  qed
  let ?t = "if sint e < 0 then rden a else rnum a" and ?b = "if sint e < 0 then rnum a else rden a"
  obtain okn n where n: "limba_big_pow limba_big_init ?t m = (okn, n)" by fastforce
  obtain okd d where d: "limba_big_pow (limba_big_set_u64 1) ?b m = (okd, d)" by fastforce
  have nm: "nat \<bar>sint e\<bar> = unat m" using m by linarith
  have tb: "rat_in ?t" "rat_in ?b" using a by simp_all
  show ?thesis
  proof (cases "okn \<and> okd")
    case False
    then have "limba_rat_pow r a e = Some (False, r)"
      using n d unfolding limba_rat_pow_def m_def [symmetric] Let_def by auto
    then show ?thesis by blast
  next
    case True
    have vn: "val n = val ?t ^ unat m" "big_ok n" using pow_in(2) [OF tb(1) n] True by (simp_all add: within_def)
    have vd: "val d = val ?b ^ unat m" "big_ok d" using pow_in(2) [OF tb(2) d] True by (simp_all add: within_def)
    have "val ?b \<noteq> 0" using nz a(1) by (auto simp: rat_ok_def)
    then obtain t where t: "normalise \<lparr>rnum = n, rden = d\<rparr> = Some t" "rat_is t (val n) (val d)"
      using normalise_is [OF vn(2) vd(2)] vd(1) by auto
    have "limba_rat_pow r a e = Some (True, t)"
      using n d t(1) True unfolding limba_rat_pow_def m_def [symmetric] Let_def by simp
    moreover have "rat_is t (val ?t ^ nat \<bar>sint e\<bar>) (val ?b ^ nat \<bar>sint e\<bar>)"
      using t(2) unfolding vn(1) vd(1) nm .
    ultimately show ?thesis by (auto split: if_splits)
  qed
qed

section \<open>Comparing\<close>

lemma rat_cmp_val:
  assumes in1: "rat_in (rnum a)" "rat_in (rden a)" "rat_in (rnum b)" "rat_in (rden b)"
    and ok: "mag (rnum a) * mag (rden b) < 2 ^ unat LIMBA_BIG_MAXBITS" "mag (rnum b) * mag (rden a) < 2 ^ unat LIMBA_BIG_MAXBITS"
  shows "limba_rat_cmp a b = sgn (val (rnum a) * val (rden b) - val (rnum b) * val (rden a))"
proof -
  obtain okx x where x: "limba_big_mul limba_big_init (rnum a) (rden b) = (okx, x)" by fastforce
  obtain oky y where y: "limba_big_mul limba_big_init (rnum b) (rden a) = (oky, y)" by fastforce
  note mx = mul_in [OF in1(1,4) x] and my = mul_in [OF in1(3,2) y]
  have "val x = val (rnum a) * val (rden b)" "big_ok x" "val y = val (rnum b) * val (rden a)" "big_ok y"
    using mx my ok by (simp_all add: within_def)
  then show ?thesis using x y cmp_val [of x y] by (simp add: limba_rat_cmp_def)
qed

text \<open>
  The product of a large numerator by a large denominator is not computed: the comparison then takes
  it for zero, and calls the larger rational the smaller.
\<close>

lemma rat_cmp_past_limit:
  assumes in1: "rat_in (rnum a)" "rat_in (rden a)" "rat_in (rnum b)" "rat_in (rden b)"
    and early: "16385 < unat (limba_big_bits (rnum a)) + unat (limba_big_bits (rden b))"
    and ok: "mag (rnum b) * mag (rden a) < 2 ^ unat LIMBA_BIG_MAXBITS" and pos: "0 < val (rnum b) * val (rden a)"
  shows "limba_rat_cmp a b = - 1"
proof -
  obtain okx x where x: "limba_big_mul limba_big_init (rnum a) (rden b) = (okx, x)" by fastforce
  obtain oky y where y: "limba_big_mul limba_big_init (rnum b) (rden a) = (oky, y)" by fastforce
  have m1: "unat (LIMBA_BIG_MAXBITS + 1) = 16385" by (simp add: LIMBA_BIG_MAXBITS_def)
  have "LIMBA_BIG_MAXBITS + 1 < ucast (limba_big_bits (rnum a)) + ucast (limba_big_bits (rden b))"
    using early by (simp add: word_less_nat_alt m1)
  then have "x = limba_big_init" using x by (simp add: limba_big_mul_def limba_big_mul_lim_def)
  moreover have "val y = val (rnum b) * val (rden a)" "big_ok y"
    using mul_in [OF in1(3,2) y] ok by (simp_all add: within_def)
  moreover have "big_ok limba_big_init" "val limba_big_init = 0"
    by (simp_all add: limba_big_init_def big_ok_def val_def mag_def)
  ultimately show ?thesis using x y cmp_val [of x y] pos by (simp add: limba_rat_cmp_def)
qed

section \<open>What the rational numbers promise\<close>

text \<open>
  C27: Adding and subtracting reduced rational numbers always ends; when the answer is true the result is
  the exact sum or difference, reduced and with a positive denominator, and when it is false the result
  operand is untouched.
\<close>

theorem rat_addsub_exact:
  assumes "rat_ok a" "rat_in (rnum a)" "rat_in (rden a)" "rat_ok b" "rat_in (rnum b)" "rat_in (rden b)"
  shows "\<exists>ok r'. rat_addsub r a b sub = Some (ok, r') \<and>
    (if ok then rat_is r' (val (rnum a) * val (rden b) + (if sub then - 1 else 1) * (val (rnum b) * val (rden a)))
       (val (rden a) * val (rden b)) else r' = r)"
proof -
  obtain ok r' where r': "rat_addsub r a b sub = Some (ok, r')"
      "ok \<longrightarrow> rat_is r' (val (rnum a) * val (rden b) + (if sub then - 1 else 1) * (val (rnum b) * val (rden a)))
         (val (rden a) * val (rden b))" "\<not> ok \<longrightarrow> r' = r"
    using rat_addsub_val [OF assms, of r sub] by blast
  show ?thesis
    by (intro exI [of _ ok] exI [of _ r'] conjI) (rule r'(1), cases ok, use r'(2,3) in \<open>simp_all only: if_True if_False simp_thms\<close>)
qed

definition rat_small :: "u64 \<Rightarrow> u64 \<Rightarrow> limba_rat" where
  "rat_small n d = \<lparr>rnum = limba_big_set_i64 n, rden = limba_big_set_i64 d\<rparr>"

lemma rat_small_in: "\<bar>sint v\<bar> < 65536 \<Longrightarrow> rat_in (limba_big_set_i64 v)"
proof -
  assume v: "\<bar>sint v\<bar> < 65536"
  have "(65536 :: int) = 2 ^ 16" by simp
  also have "\<dots> \<le> 2 ^ unat LIMBA_BIG_MAXBITS" by (rule power_increasing) (simp_all add: maxbits_exact)
  finally show ?thesis using v by (intro set_i64_within) linarith
qed

theorem rat_addsub_exact_witness: "rat_addsub limba_rat_init (rat_small 1 2) (rat_small (- 1) 3) True \<noteq> None"
proof -
  have "rat_ok (rat_small 1 2)" "rat_ok (rat_small (- 1) 3)"
    by (simp_all add: rat_ok_def rat_small_def set_i64_val)
  moreover have "rat_in (rnum (rat_small 1 2))" "rat_in (rden (rat_small 1 2))"
      "rat_in (rnum (rat_small (- 1) 3))" "rat_in (rden (rat_small (- 1) 3))"
    unfolding rat_small_def limba_rat.simps by (rule rat_small_in; simp)+
  ultimately show ?thesis
    using rat_addsub_exact [of "rat_small 1 2" "rat_small (- 1) 3" limba_rat_init True] by blast
qed

text \<open>
  C28: \<open>limba_rat_cmp\<close> compares two rational numbers exactly while both cross products stay within the
  limit of bits.
\<close>

theorem rat_cmp_exact:
  assumes "rat_in (rnum a)" "rat_in (rden a)" "rat_in (rnum b)" "rat_in (rden b)"
    and "mag (rnum a) * mag (rden b) < 2 ^ unat LIMBA_BIG_MAXBITS" "mag (rnum b) * mag (rden a) < 2 ^ unat LIMBA_BIG_MAXBITS"
  shows "limba_rat_cmp a b = sgn (val (rnum a) * val (rden b) - val (rnum b) * val (rden a))"
  using assms by (rule rat_cmp_val)

theorem rat_cmp_exact_witness: "limba_rat_cmp (rat_small 1 2) (rat_small 2 3) = - 1"
proof -
  have "(65536 :: nat) = 2 ^ 16" by simp
  also have "\<dots> \<le> 2 ^ unat LIMBA_BIG_MAXBITS" by (rule power_increasing) (simp_all add: maxbits_exact)
  finally have b: "(65536 :: nat) \<le> 2 ^ unat LIMBA_BIG_MAXBITS" .
  have "mag (rnum (rat_small 1 2)) * mag (rden (rat_small 2 3)) = 3"
      "mag (rnum (rat_small 2 3)) * mag (rden (rat_small 1 2)) = 4"
    by (simp_all add: rat_small_def set_i64_mag)
  then have "mag (rnum (rat_small 1 2)) * mag (rden (rat_small 2 3)) < 2 ^ unat LIMBA_BIG_MAXBITS"
      "mag (rnum (rat_small 2 3)) * mag (rden (rat_small 1 2)) < 2 ^ unat LIMBA_BIG_MAXBITS"
    using b by linarith+
  moreover have "rat_in (rnum (rat_small 1 2))" "rat_in (rden (rat_small 1 2))"
      "rat_in (rnum (rat_small 2 3))" "rat_in (rden (rat_small 2 3))"
    unfolding rat_small_def limba_rat.simps by (rule rat_small_in; simp)+
  ultimately show ?thesis
    using rat_cmp_exact [of "rat_small 1 2" "rat_small 2 3"] by (simp add: rat_small_def set_i64_val)
qed

text \<open>
  C29: Past the limit the comparison can be wrong: when the bits of the two factors of the first cross
  product add up to more than 16385, the limit and one, \<open>limba_big_mul\<close> returns before it computes and the
  product stays zero, so that \<open>limba_rat_cmp\<close> answers ``less'' whatever the two numbers are,
  if the second product is positive and within the limit. (At exactly 16385 the product is still computed.)
\<close>

theorem rat_cmp_wrong_past_limit:
  assumes "rat_in (rnum a)" "rat_in (rden a)" "rat_in (rnum b)" "rat_in (rden b)"
    and "16385 < unat (limba_big_bits (rnum a)) + unat (limba_big_bits (rden b))"
    and "mag (rnum b) * mag (rden a) < 2 ^ unat LIMBA_BIG_MAXBITS" "0 < val (rnum b) * val (rden a)"
  shows "limba_rat_cmp a b = - 1"
  using assms by (rule rat_cmp_past_limit)

text \<open>A number near the limit, \<open>2 ^ 16352\<close>, against \<open>1 / 2 ^ 32\<close>.\<close>

definition power_of_word :: "nat \<Rightarrow> limba_big" where
  "power_of_word n = \<lparr>bw = replicate n 0 @ [1], bneg = False\<rparr>"

lemma power_of_word:
  "mag (power_of_word n) = 2 ^ (32 * n)" "big_ok (power_of_word n)" "\<not> bneg (power_of_word n)"
  "limba_big_bits (power_of_word n) = of_nat n * 32 + 1"
proof -
  have "wval (replicate n 0 @ [1]) = 4294967296 ^ n" by (induction n) simp_all
  moreover have "(2 :: nat) ^ 32 = 4294967296" by simp
  ultimately show "mag (power_of_word n) = 2 ^ (32 * n)"
    unfolding power_of_word_def mag_def limba_big.simps power_mult by metis
  have "clz32 1 = 31" by code_simp
  then show "limba_big_bits (power_of_word n) = of_nat n * 32 + 1"
    by (simp add: limba_big_bits_def power_of_word_def)
qed (simp_all add: power_of_word_def big_ok_def)

lemma power_of_word_in: "n < 512 \<Longrightarrow> rat_in (power_of_word n)"
proof -
  assume n: "n < 512"
  have "(2 :: nat) ^ (32 * n) < 2 ^ unat LIMBA_BIG_MAXBITS"
    using n by (intro power_strict_increasing) (simp_all add: maxbits_exact)
  then show ?thesis unfolding within_def power_of_word(1) using power_of_word(2) by blast
qed

theorem rat_cmp_wrong_past_limit_witness:
  "limba_rat_cmp \<lparr>rnum = power_of_word 511, rden = power_of_word 0\<rparr>
     \<lparr>rnum = power_of_word 0, rden = power_of_word 1\<rparr> = - 1 \<and>
   mag (power_of_word 0) * mag (power_of_word 0) < mag (power_of_word 511) * mag (power_of_word 1)"
proof -
  let ?a = "\<lparr>rnum = power_of_word 511, rden = power_of_word 0\<rparr>"
    and ?b = "\<lparr>rnum = power_of_word 0, rden = power_of_word 1\<rparr>"
  have "limba_rat_cmp ?a ?b = - 1"
  proof (rule rat_cmp_wrong_past_limit)
    show "16385 < unat (limba_big_bits (rnum ?a)) + unat (limba_big_bits (rden ?b))"
      by (simp add: power_of_word(4))
    have "(2 :: nat) ^ 0 < 2 ^ unat LIMBA_BIG_MAXBITS"
      by (rule power_strict_increasing) (simp_all add: maxbits_exact)
    then show "mag (rnum ?b) * mag (rden ?a) < 2 ^ unat LIMBA_BIG_MAXBITS" by (simp add: power_of_word(1))
    show "0 < val (rnum ?b) * val (rden ?a)" by (simp add: val_def power_of_word(1,3))
  qed (simp_all add: power_of_word_in)
  moreover have "mag (power_of_word 0) * mag (power_of_word 0) < mag (power_of_word 511) * mag (power_of_word 1)"
  proof -
    have "(2 :: nat) ^ 0 < 2 ^ (32 * 511 + 32 * 1)" by (rule power_strict_increasing) simp_all
    then show ?thesis unfolding power_of_word(1) power_add [symmetric] by (simp only: power_0 mult_1 mult_0_right add_0)
  qed
  ultimately show ?thesis by blast
qed

end
