(* ===== verification/Ir.thy ===== *)
theory Ir
  imports Prelude
begin

text \<open>
  The intermediate representation: \<^verbatim>\<open>include/limba/ir.h\<close> with the tables \<^verbatim>\<open>ir_ops.def\<close>,
  \<^verbatim>\<open>runtime.def\<close> and \<^verbatim>\<open>traps.def\<close> it reads, and \<^verbatim>\<open>src/src/ir/ops.c\<close>. The enumerations are
  datatypes, the tables functions or lists over them, and each struct is a record whose fields are
  those of the C struct with a prefix.

  An identifier (\<open>limba_id\<close>) and every count or index of an array is a natural number: the value of the
  \<open>uint32_t\<close>. None is ever computed by an arithmetic that could wrap, except where a definition says
  so with a word; \<open>LIMBA_NONE\<close> is the number of \<open>UINT32_MAX\<close>. The two immediates keep their 64
  bits, since the operations on them wrap; sizes, alignments and offsets keep their 32. An array and
  its count are one list, and a null array is the empty one.
\<close>

unbundle bit_operations_syntax

type_synonym limba_id = nat

section \<open>Operations\<close>

datatype limba_format =
    LIMBA_F_ICONST | LIMBA_F_FCONST | LIMBA_F_SCONST | LIMBA_F_TYPED | LIMBA_F_UN | LIMBA_F_BIN
    | LIMBA_F_TERN | LIMBA_F_CMP | LIMBA_F_CONV | LIMBA_F_LOAD | LIMBA_F_STORE | LIMBA_F_SLOT
    | LIMBA_F_GADDR | LIMBA_F_FADDR | LIMBA_F_ADDR | LIMBA_F_MEM3 | LIMBA_F_CALL | LIMBA_F_CALL_IND
    | LIMBA_F_CALL_EXT | LIMBA_F_CALL_RT | LIMBA_F_BR | LIMBA_F_CBR | LIMBA_F_SWITCH | LIMBA_F_RET
    | LIMBA_F_NONE | LIMBA_F_TRAP | LIMBA_F_CHECK | LIMBA_F_PARAM | LIMBA_F_RC | LIMBA_F_RAISE

datatype limba_op =
    LIMBA_OP_ICONST | LIMBA_OP_FCONST | LIMBA_OP_SCONST | LIMBA_OP_NULLV | LIMBA_OP_ADD
    | LIMBA_OP_SUB | LIMBA_OP_MUL | LIMBA_OP_SDIV | LIMBA_OP_UDIV | LIMBA_OP_SREM | LIMBA_OP_UREM
    | LIMBA_OP_NEG | LIMBA_OP_ADDOV | LIMBA_OP_SUBOV | LIMBA_OP_MULOV | LIMBA_OP_AND | LIMBA_OP_OR
    | LIMBA_OP_XOR | LIMBA_OP_NOT | LIMBA_OP_SHL | LIMBA_OP_LSHR | LIMBA_OP_ASHR | LIMBA_OP_FADD
    | LIMBA_OP_FSUB | LIMBA_OP_FMUL | LIMBA_OP_FDIV | LIMBA_OP_FNEG | LIMBA_OP_FMA | LIMBA_OP_ICMP
    | LIMBA_OP_FCMP | LIMBA_OP_SELECT | LIMBA_OP_TRUNC | LIMBA_OP_ZEXT | LIMBA_OP_SEXT
    | LIMBA_OP_FPTRUNC | LIMBA_OP_FPEXT | LIMBA_OP_SITOFP | LIMBA_OP_UITOFP | LIMBA_OP_FPTOSI
    | LIMBA_OP_FPTOUI | LIMBA_OP_BITCAST | LIMBA_OP_PTRTOINT | LIMBA_OP_INTTOPTR | LIMBA_OP_LOAD
    | LIMBA_OP_STORE | LIMBA_OP_SLOT | LIMBA_OP_GADDR | LIMBA_OP_FADDR | LIMBA_OP_ADDR
    | LIMBA_OP_MEMCPY | LIMBA_OP_MEMSET | LIMBA_OP_CALL | LIMBA_OP_CALLIND | LIMBA_OP_CALLEXT
    | LIMBA_OP_CALLRT | LIMBA_OP_BR | LIMBA_OP_CBR | LIMBA_OP_SWITCH | LIMBA_OP_RET
    | LIMBA_OP_UNREACHABLE | LIMBA_OP_TRAP | LIMBA_OP_CHECK | LIMBA_OP_PARAM | LIMBA_OP_FROUND
    | LIMBA_OP_FROUNDA | LIMBA_OP_RETAIN | LIMBA_OP_RELEASE | LIMBA_OP_LOADINV | LIMBA_OP_RAISE
    | LIMBA_OP_UADDOV | LIMBA_OP_USUBOV | LIMBA_OP_UMULOV

datatype limba_cc =
    LIMBA_CC_EQ | LIMBA_CC_NE | LIMBA_CC_SLT | LIMBA_CC_SLE | LIMBA_CC_SGT | LIMBA_CC_SGE
    | LIMBA_CC_ULT | LIMBA_CC_ULE | LIMBA_CC_UGT | LIMBA_CC_UGE | LIMBA_CC_OEQ | LIMBA_CC_ONE
    | LIMBA_CC_OLT | LIMBA_CC_OLE | LIMBA_CC_OGT | LIMBA_CC_OGE | LIMBA_CC_ORD | LIMBA_CC_UNO
    | LIMBA_CC_UEQ | LIMBA_CC_UNE | LIMBA_CC_FULT | LIMBA_CC_FULE | LIMBA_CC_FUGT | LIMBA_CC_FUGE

abbreviation (input) LIMBA_OPF_PURE :: u16 where "LIMBA_OPF_PURE \<equiv> 1"
abbreviation (input) LIMBA_OPF_COMMUTATIVE :: u16 where "LIMBA_OPF_COMMUTATIVE \<equiv> 2"
abbreviation (input) LIMBA_OPF_MAY_TRAP :: u16 where "LIMBA_OPF_MAY_TRAP \<equiv> 4"
abbreviation (input) LIMBA_OPF_READS_MEM :: u16 where "LIMBA_OPF_READS_MEM \<equiv> 8"
abbreviation (input) LIMBA_OPF_WRITES_MEM :: u16 where "LIMBA_OPF_WRITES_MEM \<equiv> 16"
abbreviation (input) LIMBA_OPF_TERMINATOR :: u16 where "LIMBA_OPF_TERMINATOR \<equiv> 32"
abbreviation (input) LIMBA_OPF_NO_RESULT :: u16 where "LIMBA_OPF_NO_RESULT \<equiv> 64"
abbreviation (input) LIMBA_OPF_CALL :: u16 where "LIMBA_OPF_CALL \<equiv> 128"

record limba_op_info =
  op_text :: string
  op_format :: limba_format
  op_flags :: u16

primrec limba_ops :: "limba_op \<Rightarrow> limba_op_info" where
  "limba_ops LIMBA_OP_ICONST = \<lparr>op_text = ''iconst'', op_format = LIMBA_F_ICONST, op_flags = LIMBA_OPF_PURE\<rparr>"
| "limba_ops LIMBA_OP_FCONST = \<lparr>op_text = ''fconst'', op_format = LIMBA_F_FCONST, op_flags = LIMBA_OPF_PURE\<rparr>"
| "limba_ops LIMBA_OP_SCONST = \<lparr>op_text = ''sconst'', op_format = LIMBA_F_SCONST, op_flags = LIMBA_OPF_PURE\<rparr>"
| "limba_ops LIMBA_OP_NULLV = \<lparr>op_text = ''null'', op_format = LIMBA_F_TYPED, op_flags = LIMBA_OPF_PURE\<rparr>"
| "limba_ops LIMBA_OP_ADD = \<lparr>op_text = ''add'', op_format = LIMBA_F_BIN, op_flags = LIMBA_OPF_PURE OR LIMBA_OPF_COMMUTATIVE\<rparr>"
| "limba_ops LIMBA_OP_SUB = \<lparr>op_text = ''sub'', op_format = LIMBA_F_BIN, op_flags = LIMBA_OPF_PURE\<rparr>"
| "limba_ops LIMBA_OP_MUL = \<lparr>op_text = ''mul'', op_format = LIMBA_F_BIN, op_flags = LIMBA_OPF_PURE OR LIMBA_OPF_COMMUTATIVE\<rparr>"
| "limba_ops LIMBA_OP_SDIV = \<lparr>op_text = ''sdiv'', op_format = LIMBA_F_BIN, op_flags = LIMBA_OPF_MAY_TRAP\<rparr>"
| "limba_ops LIMBA_OP_UDIV = \<lparr>op_text = ''udiv'', op_format = LIMBA_F_BIN, op_flags = LIMBA_OPF_MAY_TRAP\<rparr>"
| "limba_ops LIMBA_OP_SREM = \<lparr>op_text = ''srem'', op_format = LIMBA_F_BIN, op_flags = LIMBA_OPF_MAY_TRAP\<rparr>"
| "limba_ops LIMBA_OP_UREM = \<lparr>op_text = ''urem'', op_format = LIMBA_F_BIN, op_flags = LIMBA_OPF_MAY_TRAP\<rparr>"
| "limba_ops LIMBA_OP_NEG = \<lparr>op_text = ''neg'', op_format = LIMBA_F_UN, op_flags = LIMBA_OPF_PURE\<rparr>"
| "limba_ops LIMBA_OP_ADDOV = \<lparr>op_text = ''add.ov'', op_format = LIMBA_F_BIN, op_flags = LIMBA_OPF_MAY_TRAP OR LIMBA_OPF_COMMUTATIVE\<rparr>"
| "limba_ops LIMBA_OP_SUBOV = \<lparr>op_text = ''sub.ov'', op_format = LIMBA_F_BIN, op_flags = LIMBA_OPF_MAY_TRAP\<rparr>"
| "limba_ops LIMBA_OP_MULOV = \<lparr>op_text = ''mul.ov'', op_format = LIMBA_F_BIN, op_flags = LIMBA_OPF_MAY_TRAP OR LIMBA_OPF_COMMUTATIVE\<rparr>"
| "limba_ops LIMBA_OP_AND = \<lparr>op_text = ''and'', op_format = LIMBA_F_BIN, op_flags = LIMBA_OPF_PURE OR LIMBA_OPF_COMMUTATIVE\<rparr>"
| "limba_ops LIMBA_OP_OR = \<lparr>op_text = ''or'', op_format = LIMBA_F_BIN, op_flags = LIMBA_OPF_PURE OR LIMBA_OPF_COMMUTATIVE\<rparr>"
| "limba_ops LIMBA_OP_XOR = \<lparr>op_text = ''xor'', op_format = LIMBA_F_BIN, op_flags = LIMBA_OPF_PURE OR LIMBA_OPF_COMMUTATIVE\<rparr>"
| "limba_ops LIMBA_OP_NOT = \<lparr>op_text = ''not'', op_format = LIMBA_F_UN, op_flags = LIMBA_OPF_PURE\<rparr>"
| "limba_ops LIMBA_OP_SHL = \<lparr>op_text = ''shl'', op_format = LIMBA_F_BIN, op_flags = LIMBA_OPF_PURE\<rparr>"
| "limba_ops LIMBA_OP_LSHR = \<lparr>op_text = ''lshr'', op_format = LIMBA_F_BIN, op_flags = LIMBA_OPF_PURE\<rparr>"
| "limba_ops LIMBA_OP_ASHR = \<lparr>op_text = ''ashr'', op_format = LIMBA_F_BIN, op_flags = LIMBA_OPF_PURE\<rparr>"
| "limba_ops LIMBA_OP_FADD = \<lparr>op_text = ''fadd'', op_format = LIMBA_F_BIN, op_flags = LIMBA_OPF_PURE\<rparr>"
| "limba_ops LIMBA_OP_FSUB = \<lparr>op_text = ''fsub'', op_format = LIMBA_F_BIN, op_flags = LIMBA_OPF_PURE\<rparr>"
| "limba_ops LIMBA_OP_FMUL = \<lparr>op_text = ''fmul'', op_format = LIMBA_F_BIN, op_flags = LIMBA_OPF_PURE\<rparr>"
| "limba_ops LIMBA_OP_FDIV = \<lparr>op_text = ''fdiv'', op_format = LIMBA_F_BIN, op_flags = LIMBA_OPF_PURE\<rparr>"
| "limba_ops LIMBA_OP_FNEG = \<lparr>op_text = ''fneg'', op_format = LIMBA_F_UN, op_flags = LIMBA_OPF_PURE\<rparr>"
| "limba_ops LIMBA_OP_FMA = \<lparr>op_text = ''fma'', op_format = LIMBA_F_TERN, op_flags = LIMBA_OPF_PURE\<rparr>"
| "limba_ops LIMBA_OP_ICMP = \<lparr>op_text = ''icmp'', op_format = LIMBA_F_CMP, op_flags = LIMBA_OPF_PURE\<rparr>"
| "limba_ops LIMBA_OP_FCMP = \<lparr>op_text = ''fcmp'', op_format = LIMBA_F_CMP, op_flags = LIMBA_OPF_PURE\<rparr>"
| "limba_ops LIMBA_OP_SELECT = \<lparr>op_text = ''select'', op_format = LIMBA_F_TERN, op_flags = LIMBA_OPF_PURE\<rparr>"
| "limba_ops LIMBA_OP_TRUNC = \<lparr>op_text = ''trunc'', op_format = LIMBA_F_CONV, op_flags = LIMBA_OPF_PURE\<rparr>"
| "limba_ops LIMBA_OP_ZEXT = \<lparr>op_text = ''zext'', op_format = LIMBA_F_CONV, op_flags = LIMBA_OPF_PURE\<rparr>"
| "limba_ops LIMBA_OP_SEXT = \<lparr>op_text = ''sext'', op_format = LIMBA_F_CONV, op_flags = LIMBA_OPF_PURE\<rparr>"
| "limba_ops LIMBA_OP_FPTRUNC = \<lparr>op_text = ''fptrunc'', op_format = LIMBA_F_CONV, op_flags = LIMBA_OPF_PURE\<rparr>"
| "limba_ops LIMBA_OP_FPEXT = \<lparr>op_text = ''fpext'', op_format = LIMBA_F_CONV, op_flags = LIMBA_OPF_PURE\<rparr>"
| "limba_ops LIMBA_OP_SITOFP = \<lparr>op_text = ''sitofp'', op_format = LIMBA_F_CONV, op_flags = LIMBA_OPF_PURE\<rparr>"
| "limba_ops LIMBA_OP_UITOFP = \<lparr>op_text = ''uitofp'', op_format = LIMBA_F_CONV, op_flags = LIMBA_OPF_PURE\<rparr>"
| "limba_ops LIMBA_OP_FPTOSI = \<lparr>op_text = ''fptosi'', op_format = LIMBA_F_CONV, op_flags = LIMBA_OPF_PURE\<rparr>"
| "limba_ops LIMBA_OP_FPTOUI = \<lparr>op_text = ''fptoui'', op_format = LIMBA_F_CONV, op_flags = LIMBA_OPF_PURE\<rparr>"
| "limba_ops LIMBA_OP_BITCAST = \<lparr>op_text = ''bitcast'', op_format = LIMBA_F_CONV, op_flags = LIMBA_OPF_PURE\<rparr>"
| "limba_ops LIMBA_OP_PTRTOINT = \<lparr>op_text = ''ptrtoint'', op_format = LIMBA_F_CONV, op_flags = LIMBA_OPF_PURE\<rparr>"
| "limba_ops LIMBA_OP_INTTOPTR = \<lparr>op_text = ''inttoptr'', op_format = LIMBA_F_CONV, op_flags = LIMBA_OPF_PURE\<rparr>"
| "limba_ops LIMBA_OP_LOAD = \<lparr>op_text = ''load'', op_format = LIMBA_F_LOAD, op_flags = LIMBA_OPF_READS_MEM OR LIMBA_OPF_MAY_TRAP\<rparr>"
| "limba_ops LIMBA_OP_STORE = \<lparr>op_text = ''store'', op_format = LIMBA_F_STORE, op_flags = LIMBA_OPF_WRITES_MEM OR LIMBA_OPF_MAY_TRAP OR LIMBA_OPF_NO_RESULT\<rparr>"
| "limba_ops LIMBA_OP_SLOT = \<lparr>op_text = ''slot'', op_format = LIMBA_F_SLOT, op_flags = LIMBA_OPF_PURE\<rparr>"
| "limba_ops LIMBA_OP_GADDR = \<lparr>op_text = ''gaddr'', op_format = LIMBA_F_GADDR, op_flags = LIMBA_OPF_PURE\<rparr>"
| "limba_ops LIMBA_OP_FADDR = \<lparr>op_text = ''faddr'', op_format = LIMBA_F_FADDR, op_flags = LIMBA_OPF_PURE\<rparr>"
| "limba_ops LIMBA_OP_ADDR = \<lparr>op_text = ''addr'', op_format = LIMBA_F_ADDR, op_flags = LIMBA_OPF_PURE\<rparr>"
| "limba_ops LIMBA_OP_MEMCPY = \<lparr>op_text = ''memcpy'', op_format = LIMBA_F_MEM3, op_flags = LIMBA_OPF_READS_MEM OR LIMBA_OPF_WRITES_MEM OR LIMBA_OPF_MAY_TRAP OR LIMBA_OPF_NO_RESULT\<rparr>"
| "limba_ops LIMBA_OP_MEMSET = \<lparr>op_text = ''memset'', op_format = LIMBA_F_MEM3, op_flags = LIMBA_OPF_WRITES_MEM OR LIMBA_OPF_MAY_TRAP OR LIMBA_OPF_NO_RESULT\<rparr>"
| "limba_ops LIMBA_OP_CALL = \<lparr>op_text = ''call'', op_format = LIMBA_F_CALL, op_flags = LIMBA_OPF_CALL\<rparr>"
| "limba_ops LIMBA_OP_CALLIND = \<lparr>op_text = ''call.ind'', op_format = LIMBA_F_CALL_IND, op_flags = LIMBA_OPF_CALL\<rparr>"
| "limba_ops LIMBA_OP_CALLEXT = \<lparr>op_text = ''call.ext'', op_format = LIMBA_F_CALL_EXT, op_flags = LIMBA_OPF_CALL\<rparr>"
| "limba_ops LIMBA_OP_CALLRT = \<lparr>op_text = ''call.rt'', op_format = LIMBA_F_CALL_RT, op_flags = LIMBA_OPF_CALL\<rparr>"
| "limba_ops LIMBA_OP_BR = \<lparr>op_text = ''br'', op_format = LIMBA_F_BR, op_flags = LIMBA_OPF_TERMINATOR OR LIMBA_OPF_NO_RESULT\<rparr>"
| "limba_ops LIMBA_OP_CBR = \<lparr>op_text = ''cbr'', op_format = LIMBA_F_CBR, op_flags = LIMBA_OPF_TERMINATOR OR LIMBA_OPF_NO_RESULT\<rparr>"
| "limba_ops LIMBA_OP_SWITCH = \<lparr>op_text = ''switch'', op_format = LIMBA_F_SWITCH, op_flags = LIMBA_OPF_TERMINATOR OR LIMBA_OPF_NO_RESULT\<rparr>"
| "limba_ops LIMBA_OP_RET = \<lparr>op_text = ''ret'', op_format = LIMBA_F_RET, op_flags = LIMBA_OPF_TERMINATOR OR LIMBA_OPF_NO_RESULT\<rparr>"
| "limba_ops LIMBA_OP_UNREACHABLE = \<lparr>op_text = ''unreachable'', op_format = LIMBA_F_NONE, op_flags = LIMBA_OPF_TERMINATOR OR LIMBA_OPF_NO_RESULT\<rparr>"
| "limba_ops LIMBA_OP_TRAP = \<lparr>op_text = ''trap'', op_format = LIMBA_F_TRAP, op_flags = LIMBA_OPF_TERMINATOR OR LIMBA_OPF_NO_RESULT OR LIMBA_OPF_MAY_TRAP\<rparr>"
| "limba_ops LIMBA_OP_CHECK = \<lparr>op_text = ''check'', op_format = LIMBA_F_CHECK, op_flags = LIMBA_OPF_NO_RESULT OR LIMBA_OPF_MAY_TRAP\<rparr>"
| "limba_ops LIMBA_OP_PARAM = \<lparr>op_text = ''param'', op_format = LIMBA_F_PARAM, op_flags = LIMBA_OPF_PURE\<rparr>"
| "limba_ops LIMBA_OP_FROUND = \<lparr>op_text = ''fround'', op_format = LIMBA_F_UN, op_flags = LIMBA_OPF_PURE\<rparr>"
| "limba_ops LIMBA_OP_FROUNDA = \<lparr>op_text = ''fround.away'', op_format = LIMBA_F_UN, op_flags = LIMBA_OPF_PURE\<rparr>"
| "limba_ops LIMBA_OP_RETAIN = \<lparr>op_text = ''retain'', op_format = LIMBA_F_RC, op_flags = LIMBA_OPF_READS_MEM OR LIMBA_OPF_WRITES_MEM OR LIMBA_OPF_MAY_TRAP OR LIMBA_OPF_NO_RESULT\<rparr>"
| "limba_ops LIMBA_OP_RELEASE = \<lparr>op_text = ''release'', op_format = LIMBA_F_RC, op_flags = LIMBA_OPF_READS_MEM OR LIMBA_OPF_WRITES_MEM OR LIMBA_OPF_MAY_TRAP OR LIMBA_OPF_NO_RESULT\<rparr>"
| "limba_ops LIMBA_OP_LOADINV = \<lparr>op_text = ''load.inv'', op_format = LIMBA_F_LOAD, op_flags = LIMBA_OPF_READS_MEM OR LIMBA_OPF_MAY_TRAP\<rparr>"
| "limba_ops LIMBA_OP_RAISE = \<lparr>op_text = ''raise'', op_format = LIMBA_F_RAISE, op_flags = LIMBA_OPF_TERMINATOR OR LIMBA_OPF_NO_RESULT OR LIMBA_OPF_MAY_TRAP\<rparr>"
| "limba_ops LIMBA_OP_UADDOV = \<lparr>op_text = ''uadd.ov'', op_format = LIMBA_F_BIN, op_flags = LIMBA_OPF_MAY_TRAP OR LIMBA_OPF_COMMUTATIVE\<rparr>"
| "limba_ops LIMBA_OP_USUBOV = \<lparr>op_text = ''usub.ov'', op_format = LIMBA_F_BIN, op_flags = LIMBA_OPF_MAY_TRAP\<rparr>"
| "limba_ops LIMBA_OP_UMULOV = \<lparr>op_text = ''umul.ov'', op_format = LIMBA_F_BIN, op_flags = LIMBA_OPF_MAY_TRAP OR LIMBA_OPF_COMMUTATIVE\<rparr>"

text \<open>The numbering of the enumerations, which is that of the binary form.\<close>

primrec op_code :: "limba_op \<Rightarrow> nat" where
  "op_code LIMBA_OP_ICONST = 0"
| "op_code LIMBA_OP_FCONST = 1"
| "op_code LIMBA_OP_SCONST = 2"
| "op_code LIMBA_OP_NULLV = 3"
| "op_code LIMBA_OP_ADD = 4"
| "op_code LIMBA_OP_SUB = 5"
| "op_code LIMBA_OP_MUL = 6"
| "op_code LIMBA_OP_SDIV = 7"
| "op_code LIMBA_OP_UDIV = 8"
| "op_code LIMBA_OP_SREM = 9"
| "op_code LIMBA_OP_UREM = 10"
| "op_code LIMBA_OP_NEG = 11"
| "op_code LIMBA_OP_ADDOV = 12"
| "op_code LIMBA_OP_SUBOV = 13"
| "op_code LIMBA_OP_MULOV = 14"
| "op_code LIMBA_OP_AND = 15"
| "op_code LIMBA_OP_OR = 16"
| "op_code LIMBA_OP_XOR = 17"
| "op_code LIMBA_OP_NOT = 18"
| "op_code LIMBA_OP_SHL = 19"
| "op_code LIMBA_OP_LSHR = 20"
| "op_code LIMBA_OP_ASHR = 21"
| "op_code LIMBA_OP_FADD = 22"
| "op_code LIMBA_OP_FSUB = 23"
| "op_code LIMBA_OP_FMUL = 24"
| "op_code LIMBA_OP_FDIV = 25"
| "op_code LIMBA_OP_FNEG = 26"
| "op_code LIMBA_OP_FMA = 27"
| "op_code LIMBA_OP_ICMP = 28"
| "op_code LIMBA_OP_FCMP = 29"
| "op_code LIMBA_OP_SELECT = 30"
| "op_code LIMBA_OP_TRUNC = 31"
| "op_code LIMBA_OP_ZEXT = 32"
| "op_code LIMBA_OP_SEXT = 33"
| "op_code LIMBA_OP_FPTRUNC = 34"
| "op_code LIMBA_OP_FPEXT = 35"
| "op_code LIMBA_OP_SITOFP = 36"
| "op_code LIMBA_OP_UITOFP = 37"
| "op_code LIMBA_OP_FPTOSI = 38"
| "op_code LIMBA_OP_FPTOUI = 39"
| "op_code LIMBA_OP_BITCAST = 40"
| "op_code LIMBA_OP_PTRTOINT = 41"
| "op_code LIMBA_OP_INTTOPTR = 42"
| "op_code LIMBA_OP_LOAD = 43"
| "op_code LIMBA_OP_STORE = 44"
| "op_code LIMBA_OP_SLOT = 45"
| "op_code LIMBA_OP_GADDR = 46"
| "op_code LIMBA_OP_FADDR = 47"
| "op_code LIMBA_OP_ADDR = 48"
| "op_code LIMBA_OP_MEMCPY = 49"
| "op_code LIMBA_OP_MEMSET = 50"
| "op_code LIMBA_OP_CALL = 51"
| "op_code LIMBA_OP_CALLIND = 52"
| "op_code LIMBA_OP_CALLEXT = 53"
| "op_code LIMBA_OP_CALLRT = 54"
| "op_code LIMBA_OP_BR = 55"
| "op_code LIMBA_OP_CBR = 56"
| "op_code LIMBA_OP_SWITCH = 57"
| "op_code LIMBA_OP_RET = 58"
| "op_code LIMBA_OP_UNREACHABLE = 59"
| "op_code LIMBA_OP_TRAP = 60"
| "op_code LIMBA_OP_CHECK = 61"
| "op_code LIMBA_OP_PARAM = 62"
| "op_code LIMBA_OP_FROUND = 63"
| "op_code LIMBA_OP_FROUNDA = 64"
| "op_code LIMBA_OP_RETAIN = 65"
| "op_code LIMBA_OP_RELEASE = 66"
| "op_code LIMBA_OP_LOADINV = 67"
| "op_code LIMBA_OP_RAISE = 68"
| "op_code LIMBA_OP_UADDOV = 69"
| "op_code LIMBA_OP_USUBOV = 70"
| "op_code LIMBA_OP_UMULOV = 71"

primrec cc_code :: "limba_cc \<Rightarrow> nat" where
  "cc_code LIMBA_CC_EQ = 0"
| "cc_code LIMBA_CC_NE = 1"
| "cc_code LIMBA_CC_SLT = 2"
| "cc_code LIMBA_CC_SLE = 3"
| "cc_code LIMBA_CC_SGT = 4"
| "cc_code LIMBA_CC_SGE = 5"
| "cc_code LIMBA_CC_ULT = 6"
| "cc_code LIMBA_CC_ULE = 7"
| "cc_code LIMBA_CC_UGT = 8"
| "cc_code LIMBA_CC_UGE = 9"
| "cc_code LIMBA_CC_OEQ = 10"
| "cc_code LIMBA_CC_ONE = 11"
| "cc_code LIMBA_CC_OLT = 12"
| "cc_code LIMBA_CC_OLE = 13"
| "cc_code LIMBA_CC_OGT = 14"
| "cc_code LIMBA_CC_OGE = 15"
| "cc_code LIMBA_CC_ORD = 16"
| "cc_code LIMBA_CC_UNO = 17"
| "cc_code LIMBA_CC_UEQ = 18"
| "cc_code LIMBA_CC_UNE = 19"
| "cc_code LIMBA_CC_FULT = 20"
| "cc_code LIMBA_CC_FULE = 21"
| "cc_code LIMBA_CC_FUGT = 22"
| "cc_code LIMBA_CC_FUGE = 23"

primrec limba_cc_text :: "limba_cc \<Rightarrow> string" where
  "limba_cc_text LIMBA_CC_EQ = ''eq''"
| "limba_cc_text LIMBA_CC_NE = ''ne''"
| "limba_cc_text LIMBA_CC_SLT = ''slt''"
| "limba_cc_text LIMBA_CC_SLE = ''sle''"
| "limba_cc_text LIMBA_CC_SGT = ''sgt''"
| "limba_cc_text LIMBA_CC_SGE = ''sge''"
| "limba_cc_text LIMBA_CC_ULT = ''ult''"
| "limba_cc_text LIMBA_CC_ULE = ''ule''"
| "limba_cc_text LIMBA_CC_UGT = ''ugt''"
| "limba_cc_text LIMBA_CC_UGE = ''uge''"
| "limba_cc_text LIMBA_CC_OEQ = ''oeq''"
| "limba_cc_text LIMBA_CC_ONE = ''one''"
| "limba_cc_text LIMBA_CC_OLT = ''olt''"
| "limba_cc_text LIMBA_CC_OLE = ''ole''"
| "limba_cc_text LIMBA_CC_OGT = ''ogt''"
| "limba_cc_text LIMBA_CC_OGE = ''oge''"
| "limba_cc_text LIMBA_CC_ORD = ''ord''"
| "limba_cc_text LIMBA_CC_UNO = ''uno''"
| "limba_cc_text LIMBA_CC_UEQ = ''ueq''"
| "limba_cc_text LIMBA_CC_UNE = ''une''"
| "limba_cc_text LIMBA_CC_FULT = ''ult''"
| "limba_cc_text LIMBA_CC_FULE = ''ule''"
| "limba_cc_text LIMBA_CC_FUGT = ''ugt''"
| "limba_cc_text LIMBA_CC_FUGE = ''uge''"

definition limba_cc_is_float :: "limba_cc \<Rightarrow> bool" where
  "limba_cc_is_float cc \<longleftrightarrow> cc_code LIMBA_CC_OEQ \<le> cc_code cc"

section \<open>The run-time library\<close>

abbreviation (input) LIMBA_RTA_PURE :: u32 where "LIMBA_RTA_PURE \<equiv> 1"
abbreviation (input) LIMBA_RTA_IO :: u32 where "LIMBA_RTA_IO \<equiv> 2"
abbreviation (input) LIMBA_RTA_ALLOC :: u32 where "LIMBA_RTA_ALLOC \<equiv> 4"
abbreviation (input) LIMBA_RTA_WRITES_MEM :: u32 where "LIMBA_RTA_WRITES_MEM \<equiv> 8"
abbreviation (input) LIMBA_RTA_MAY_TRAP :: u32 where "LIMBA_RTA_MAY_TRAP \<equiv> 16"
abbreviation (input) LIMBA_RTA_NORETURN :: u32 where "LIMBA_RTA_NORETURN \<equiv> 32"
abbreviation (input) LIMBA_RTA_READS_HEAP :: u32 where "LIMBA_RTA_READS_HEAP \<equiv> 64"
abbreviation (input) LIMBA_RTA_CALLS_PROGRAM :: u32 where "LIMBA_RTA_CALLS_PROGRAM \<equiv> 128"

record limba_rt_info =
  rt_name :: string
  rt_sig :: string
  rt_attrs :: u32

definition limba_rts :: "limba_rt_info list" where
  "limba_rts =
    [\<lparr>rt_name = ''print_i64'', rt_sig = ''(i64) -> void'', rt_attrs = LIMBA_RTA_IO OR LIMBA_RTA_MAY_TRAP\<rparr>,
     \<lparr>rt_name = ''print_f64'', rt_sig = ''(f64) -> void'', rt_attrs = LIMBA_RTA_IO OR LIMBA_RTA_MAY_TRAP\<rparr>,
     \<lparr>rt_name = ''print_str'', rt_sig = ''(str) -> void'', rt_attrs = LIMBA_RTA_IO OR LIMBA_RTA_MAY_TRAP\<rparr>,
     \<lparr>rt_name = ''print_nl'', rt_sig = ''() -> void'', rt_attrs = LIMBA_RTA_IO OR LIMBA_RTA_MAY_TRAP\<rparr>,
     \<lparr>rt_name = ''str_concat'', rt_sig = ''(str, str) -> str'', rt_attrs = LIMBA_RTA_ALLOC\<rparr>,
     \<lparr>rt_name = ''str_len'', rt_sig = ''(str) -> i64'', rt_attrs = LIMBA_RTA_PURE\<rparr>,
     \<lparr>rt_name = ''str_cmp'', rt_sig = ''(str, str) -> i32'', rt_attrs = LIMBA_RTA_PURE\<rparr>,
     \<lparr>rt_name = ''str_from_i64'', rt_sig = ''(i64) -> str'', rt_attrs = LIMBA_RTA_ALLOC\<rparr>,
     \<lparr>rt_name = ''str_from_f64'', rt_sig = ''(f64) -> str'', rt_attrs = LIMBA_RTA_ALLOC\<rparr>,
     \<lparr>rt_name = ''str_mid'', rt_sig = ''(str, i64, i64) -> str'', rt_attrs = LIMBA_RTA_ALLOC\<rparr>,
     \<lparr>rt_name = ''str_ptr'', rt_sig = ''(str) -> ptr'', rt_attrs = LIMBA_RTA_PURE\<rparr>,
     \<lparr>rt_name = ''mem_alloc'', rt_sig = ''(i64) -> ptr'', rt_attrs = LIMBA_RTA_ALLOC\<rparr>,
     \<lparr>rt_name = ''mem_free'', rt_sig = ''(ptr) -> void'', rt_attrs = LIMBA_RTA_WRITES_MEM OR LIMBA_RTA_MAY_TRAP\<rparr>,
     \<lparr>rt_name = ''math_sqrt'', rt_sig = ''(f64) -> f64'', rt_attrs = LIMBA_RTA_PURE\<rparr>,
     \<lparr>rt_name = ''math_sin'', rt_sig = ''(f64) -> f64'', rt_attrs = LIMBA_RTA_PURE\<rparr>,
     \<lparr>rt_name = ''math_cos'', rt_sig = ''(f64) -> f64'', rt_attrs = LIMBA_RTA_PURE\<rparr>,
     \<lparr>rt_name = ''math_pow'', rt_sig = ''(f64, f64) -> f64'', rt_attrs = LIMBA_RTA_PURE\<rparr>,
     \<lparr>rt_name = ''print_u64'', rt_sig = ''(i64) -> void'', rt_attrs = LIMBA_RTA_IO OR LIMBA_RTA_MAY_TRAP\<rparr>,
     \<lparr>rt_name = ''print_bool'', rt_sig = ''(i1) -> void'', rt_attrs = LIMBA_RTA_IO OR LIMBA_RTA_MAY_TRAP\<rparr>,
     \<lparr>rt_name = ''print_char'', rt_sig = ''(i32) -> void'', rt_attrs = LIMBA_RTA_IO OR LIMBA_RTA_MAY_TRAP\<rparr>,
     \<lparr>rt_name = ''print_byte'', rt_sig = ''(i8) -> void'', rt_attrs = LIMBA_RTA_IO OR LIMBA_RTA_MAY_TRAP\<rparr>,
     \<lparr>rt_name = ''print_str_w'', rt_sig = ''(str, i32) -> void'', rt_attrs = LIMBA_RTA_IO OR LIMBA_RTA_MAY_TRAP\<rparr>,
     \<lparr>rt_name = ''str_from_u64'', rt_sig = ''(i64) -> str'', rt_attrs = LIMBA_RTA_ALLOC\<rparr>,
     \<lparr>rt_name = ''str_from_f64_fixed'', rt_sig = ''(f64, i32) -> str'', rt_attrs = LIMBA_RTA_ALLOC\<rparr>,
     \<lparr>rt_name = ''str_from_char'', rt_sig = ''(i32) -> str'', rt_attrs = LIMBA_RTA_ALLOC\<rparr>,
     \<lparr>rt_name = ''str_from_bool'', rt_sig = ''(i1) -> str'', rt_attrs = LIMBA_RTA_ALLOC\<rparr>,
     \<lparr>rt_name = ''read_line'', rt_sig = ''(ptr) -> i1'', rt_attrs = LIMBA_RTA_IO OR LIMBA_RTA_ALLOC OR LIMBA_RTA_WRITES_MEM OR LIMBA_RTA_MAY_TRAP\<rparr>,
     \<lparr>rt_name = ''str_to_i64'', rt_sig = ''(str, ptr, i64, i64) -> i1'', rt_attrs = LIMBA_RTA_WRITES_MEM\<rparr>,
     \<lparr>rt_name = ''str_to_f64'', rt_sig = ''(str, ptr) -> i1'', rt_attrs = LIMBA_RTA_WRITES_MEM\<rparr>,
     \<lparr>rt_name = ''arg_count'', rt_sig = ''() -> i32'', rt_attrs = LIMBA_RTA_IO\<rparr>,
     \<lparr>rt_name = ''arg'', rt_sig = ''(i32) -> str'', rt_attrs = LIMBA_RTA_IO OR LIMBA_RTA_ALLOC\<rparr>,
     \<lparr>rt_name = ''halt'', rt_sig = ''(i32) -> void'', rt_attrs = LIMBA_RTA_IO OR LIMBA_RTA_NORETURN\<rparr>,
     \<lparr>rt_name = ''math_tan'', rt_sig = ''(f64) -> f64'', rt_attrs = LIMBA_RTA_PURE\<rparr>,
     \<lparr>rt_name = ''math_atan'', rt_sig = ''(f64) -> f64'', rt_attrs = LIMBA_RTA_PURE\<rparr>,
     \<lparr>rt_name = ''math_exp'', rt_sig = ''(f64) -> f64'', rt_attrs = LIMBA_RTA_PURE\<rparr>,
     \<lparr>rt_name = ''math_ln'', rt_sig = ''(f64) -> f64'', rt_attrs = LIMBA_RTA_PURE\<rparr>,
     \<lparr>rt_name = ''math_trunc'', rt_sig = ''(f64) -> f64'', rt_attrs = LIMBA_RTA_PURE\<rparr>,
     \<lparr>rt_name = ''math_floor'', rt_sig = ''(f64) -> f64'', rt_attrs = LIMBA_RTA_PURE\<rparr>,
     \<lparr>rt_name = ''math_ceil'', rt_sig = ''(f64) -> f64'', rt_attrs = LIMBA_RTA_PURE\<rparr>,
     \<lparr>rt_name = ''int_pow'', rt_sig = ''(i64, i64) -> i64'', rt_attrs = LIMBA_RTA_PURE OR LIMBA_RTA_MAY_TRAP\<rparr>,
     \<lparr>rt_name = ''uint_pow'', rt_sig = ''(i64, i64) -> i64'', rt_attrs = LIMBA_RTA_PURE OR LIMBA_RTA_MAY_TRAP\<rparr>,
     \<lparr>rt_name = ''bits_pow'', rt_sig = ''(i64, i64) -> i64'', rt_attrs = LIMBA_RTA_PURE\<rparr>,
     \<lparr>rt_name = ''str_to_u64'', rt_sig = ''(str, ptr, i64, i64) -> i1'', rt_attrs = LIMBA_RTA_WRITES_MEM\<rparr>,
     \<lparr>rt_name = ''str_to_f32'', rt_sig = ''(str, ptr) -> i1'', rt_attrs = LIMBA_RTA_WRITES_MEM\<rparr>,
     \<lparr>rt_name = ''print_f32'', rt_sig = ''(f32) -> void'', rt_attrs = LIMBA_RTA_IO OR LIMBA_RTA_MAY_TRAP\<rparr>,
     \<lparr>rt_name = ''str_from_f32'', rt_sig = ''(f32) -> str'', rt_attrs = LIMBA_RTA_ALLOC\<rparr>,
     \<lparr>rt_name = ''ptr_live'', rt_sig = ''(ptr) -> i1'', rt_attrs = LIMBA_RTA_READS_HEAP\<rparr>,
     \<lparr>rt_name = ''big_from_i64'', rt_sig = ''(i64) -> ref'', rt_attrs = LIMBA_RTA_ALLOC\<rparr>,
     \<lparr>rt_name = ''big_from_u64'', rt_sig = ''(i64) -> ref'', rt_attrs = LIMBA_RTA_ALLOC\<rparr>,
     \<lparr>rt_name = ''big_lit'', rt_sig = ''(str) -> ref'', rt_attrs = LIMBA_RTA_PURE OR LIMBA_RTA_ALLOC\<rparr>,
     \<lparr>rt_name = ''big_to_i64'', rt_sig = ''(ref, ptr) -> i1'', rt_attrs = LIMBA_RTA_WRITES_MEM\<rparr>,
     \<lparr>rt_name = ''big_to_u64'', rt_sig = ''(ref, ptr) -> i1'', rt_attrs = LIMBA_RTA_WRITES_MEM\<rparr>,
     \<lparr>rt_name = ''big_to_bits'', rt_sig = ''(ref) -> i64'', rt_attrs = LIMBA_RTA_PURE\<rparr>,
     \<lparr>rt_name = ''big_from_f64'', rt_sig = ''(f64) -> ref'', rt_attrs = LIMBA_RTA_ALLOC\<rparr>,
     \<lparr>rt_name = ''big_to_f64'', rt_sig = ''(ref) -> f64'', rt_attrs = LIMBA_RTA_PURE\<rparr>,
     \<lparr>rt_name = ''big_to_f32'', rt_sig = ''(ref) -> f32'', rt_attrs = LIMBA_RTA_PURE\<rparr>,
     \<lparr>rt_name = ''big_add'', rt_sig = ''(ref, ref) -> ref'', rt_attrs = LIMBA_RTA_PURE OR LIMBA_RTA_ALLOC\<rparr>,
     \<lparr>rt_name = ''big_sub'', rt_sig = ''(ref, ref) -> ref'', rt_attrs = LIMBA_RTA_PURE OR LIMBA_RTA_ALLOC\<rparr>,
     \<lparr>rt_name = ''big_mul'', rt_sig = ''(ref, ref) -> ref'', rt_attrs = LIMBA_RTA_PURE OR LIMBA_RTA_ALLOC\<rparr>,
     \<lparr>rt_name = ''big_neg'', rt_sig = ''(ref) -> ref'', rt_attrs = LIMBA_RTA_PURE OR LIMBA_RTA_ALLOC\<rparr>,
     \<lparr>rt_name = ''big_abs'', rt_sig = ''(ref) -> ref'', rt_attrs = LIMBA_RTA_PURE OR LIMBA_RTA_ALLOC\<rparr>,
     \<lparr>rt_name = ''big_div'', rt_sig = ''(ref, ref) -> ref'', rt_attrs = LIMBA_RTA_PURE OR LIMBA_RTA_ALLOC\<rparr>,
     \<lparr>rt_name = ''big_rem'', rt_sig = ''(ref, ref) -> ref'', rt_attrs = LIMBA_RTA_PURE OR LIMBA_RTA_ALLOC\<rparr>,
     \<lparr>rt_name = ''big_mod'', rt_sig = ''(ref, ref) -> ref'', rt_attrs = LIMBA_RTA_PURE OR LIMBA_RTA_ALLOC\<rparr>,
     \<lparr>rt_name = ''big_pow'', rt_sig = ''(ref, i64) -> ref'', rt_attrs = LIMBA_RTA_PURE OR LIMBA_RTA_ALLOC\<rparr>,
     \<lparr>rt_name = ''big_cmp'', rt_sig = ''(ref, ref) -> i32'', rt_attrs = LIMBA_RTA_PURE\<rparr>,
     \<lparr>rt_name = ''big_sign'', rt_sig = ''(ref) -> i32'', rt_attrs = LIMBA_RTA_PURE\<rparr>,
     \<lparr>rt_name = ''print_big'', rt_sig = ''(ref) -> void'', rt_attrs = LIMBA_RTA_IO OR LIMBA_RTA_MAY_TRAP\<rparr>,
     \<lparr>rt_name = ''str_from_big'', rt_sig = ''(ref) -> str'', rt_attrs = LIMBA_RTA_ALLOC\<rparr>,
     \<lparr>rt_name = ''str_to_big'', rt_sig = ''(str, ptr) -> i1'', rt_attrs = LIMBA_RTA_WRITES_MEM\<rparr>,
     \<lparr>rt_name = ''cstr_new'', rt_sig = ''(str) -> ptr'', rt_attrs = LIMBA_RTA_ALLOC OR LIMBA_RTA_MAY_TRAP\<rparr>,
     \<lparr>rt_name = ''cstr_value'', rt_sig = ''(ptr) -> str'', rt_attrs = LIMBA_RTA_ALLOC\<rparr>,
     \<lparr>rt_name = ''cstr_value_n'', rt_sig = ''(ptr, i64) -> str'', rt_attrs = LIMBA_RTA_ALLOC\<rparr>,
     \<lparr>rt_name = ''cstr_free'', rt_sig = ''(ptr) -> void'', rt_attrs = LIMBA_RTA_WRITES_MEM\<rparr>,
     \<lparr>rt_name = ''mem_translate'', rt_sig = ''(ptr, i64, ptr) -> void'', rt_attrs = LIMBA_RTA_WRITES_MEM\<rparr>,
     \<lparr>rt_name = ''mem_reverse'', rt_sig = ''(ptr, i64, i64) -> void'', rt_attrs = LIMBA_RTA_WRITES_MEM\<rparr>,
     \<lparr>rt_name = ''mem_count'', rt_sig = ''(ptr, i64, ptr, i64) -> i64'', rt_attrs = 0\<rparr>,
     \<lparr>rt_name = ''io_read'', rt_sig = ''(ptr, i64) -> i64'', rt_attrs = LIMBA_RTA_IO OR LIMBA_RTA_WRITES_MEM OR LIMBA_RTA_MAY_TRAP\<rparr>,
     \<lparr>rt_name = ''io_write'', rt_sig = ''(ptr, i64) -> void'', rt_attrs = LIMBA_RTA_IO OR LIMBA_RTA_MAY_TRAP\<rparr>,
     \<lparr>rt_name = ''big_gcd'', rt_sig = ''(ref, ref) -> ref'', rt_attrs = LIMBA_RTA_PURE OR LIMBA_RTA_ALLOC\<rparr>,
     \<lparr>rt_name = ''big_lcm'', rt_sig = ''(ref, ref) -> ref'', rt_attrs = LIMBA_RTA_PURE OR LIMBA_RTA_ALLOC\<rparr>,
     \<lparr>rt_name = ''big_sqrt'', rt_sig = ''(ref) -> ref'', rt_attrs = LIMBA_RTA_PURE OR LIMBA_RTA_ALLOC\<rparr>,
     \<lparr>rt_name = ''big_root'', rt_sig = ''(ref, i64) -> ref'', rt_attrs = LIMBA_RTA_PURE OR LIMBA_RTA_ALLOC\<rparr>,
     \<lparr>rt_name = ''big_divisible'', rt_sig = ''(ref, ref) -> i1'', rt_attrs = LIMBA_RTA_PURE\<rparr>,
     \<lparr>rt_name = ''big_divexact'', rt_sig = ''(ref, ref) -> ref'', rt_attrs = LIMBA_RTA_PURE OR LIMBA_RTA_ALLOC\<rparr>,
     \<lparr>rt_name = ''big_powmod'', rt_sig = ''(ref, ref, ref) -> ref'', rt_attrs = LIMBA_RTA_PURE OR LIMBA_RTA_ALLOC\<rparr>,
     \<lparr>rt_name = ''par_for'', rt_sig = ''(ptr, ptr, i64, i64) -> void'', rt_attrs = LIMBA_RTA_CALLS_PROGRAM OR LIMBA_RTA_MAY_TRAP OR LIMBA_RTA_WRITES_MEM OR LIMBA_RTA_IO OR LIMBA_RTA_ALLOC\<rparr>,
     \<lparr>rt_name = ''pos_str'', rt_sig = ''(i32) -> str'', rt_attrs = LIMBA_RTA_ALLOC\<rparr>,
     \<lparr>rt_name = ''file_open'', rt_sig = ''(str, i32) -> i64'', rt_attrs = LIMBA_RTA_IO OR LIMBA_RTA_MAY_TRAP\<rparr>,
     \<lparr>rt_name = ''file_close'', rt_sig = ''(i64) -> void'', rt_attrs = LIMBA_RTA_IO OR LIMBA_RTA_MAY_TRAP\<rparr>,
     \<lparr>rt_name = ''file_flush'', rt_sig = ''(i64) -> void'', rt_attrs = LIMBA_RTA_IO OR LIMBA_RTA_MAY_TRAP\<rparr>,
     \<lparr>rt_name = ''file_read_line'', rt_sig = ''(i64, ptr) -> i1'', rt_attrs = LIMBA_RTA_IO OR LIMBA_RTA_ALLOC OR LIMBA_RTA_WRITES_MEM OR LIMBA_RTA_MAY_TRAP\<rparr>,
     \<lparr>rt_name = ''file_read'', rt_sig = ''(i64, ptr, i64) -> i64'', rt_attrs = LIMBA_RTA_IO OR LIMBA_RTA_WRITES_MEM OR LIMBA_RTA_MAY_TRAP\<rparr>,
     \<lparr>rt_name = ''file_write'', rt_sig = ''(i64, ptr, i64) -> void'', rt_attrs = LIMBA_RTA_IO OR LIMBA_RTA_MAY_TRAP\<rparr>,
     \<lparr>rt_name = ''file_exists'', rt_sig = ''(str) -> i1'', rt_attrs = LIMBA_RTA_IO OR LIMBA_RTA_MAY_TRAP\<rparr>,
     \<lparr>rt_name = ''file_delete'', rt_sig = ''(str) -> void'', rt_attrs = LIMBA_RTA_IO OR LIMBA_RTA_MAY_TRAP\<rparr>,
     \<lparr>rt_name = ''math_atan2'', rt_sig = ''(f64, f64) -> f64'', rt_attrs = LIMBA_RTA_PURE\<rparr>,
     \<lparr>rt_name = ''math_asin'', rt_sig = ''(f64) -> f64'', rt_attrs = LIMBA_RTA_PURE\<rparr>,
     \<lparr>rt_name = ''math_acos'', rt_sig = ''(f64) -> f64'', rt_attrs = LIMBA_RTA_PURE\<rparr>,
     \<lparr>rt_name = ''math_hypot'', rt_sig = ''(f64, f64) -> f64'', rt_attrs = LIMBA_RTA_PURE\<rparr>,
     \<lparr>rt_name = ''math_log2'', rt_sig = ''(f64) -> f64'', rt_attrs = LIMBA_RTA_PURE\<rparr>,
     \<lparr>rt_name = ''math_log10'', rt_sig = ''(f64) -> f64'', rt_attrs = LIMBA_RTA_PURE\<rparr>,
     \<lparr>rt_name = ''math_sinh'', rt_sig = ''(f64) -> f64'', rt_attrs = LIMBA_RTA_PURE\<rparr>,
     \<lparr>rt_name = ''math_cosh'', rt_sig = ''(f64) -> f64'', rt_attrs = LIMBA_RTA_PURE\<rparr>,
     \<lparr>rt_name = ''math_tanh'', rt_sig = ''(f64) -> f64'', rt_attrs = LIMBA_RTA_PURE\<rparr>]"

abbreviation (input) LIMBA_RT_COUNT :: nat where "LIMBA_RT_COUNT \<equiv> 105"
abbreviation (input) LIMBA_RT_MATH_SQRT :: nat where "LIMBA_RT_MATH_SQRT \<equiv> 13"
abbreviation (input) LIMBA_RT_MATH_SIN :: nat where "LIMBA_RT_MATH_SIN \<equiv> 14"
abbreviation (input) LIMBA_RT_MATH_COS :: nat where "LIMBA_RT_MATH_COS \<equiv> 15"
abbreviation (input) LIMBA_RT_MATH_POW :: nat where "LIMBA_RT_MATH_POW \<equiv> 16"
abbreviation (input) LIMBA_RT_MATH_TAN :: nat where "LIMBA_RT_MATH_TAN \<equiv> 32"
abbreviation (input) LIMBA_RT_MATH_ATAN :: nat where "LIMBA_RT_MATH_ATAN \<equiv> 33"
abbreviation (input) LIMBA_RT_MATH_EXP :: nat where "LIMBA_RT_MATH_EXP \<equiv> 34"
abbreviation (input) LIMBA_RT_MATH_LN :: nat where "LIMBA_RT_MATH_LN \<equiv> 35"
abbreviation (input) LIMBA_RT_MATH_TRUNC :: nat where "LIMBA_RT_MATH_TRUNC \<equiv> 36"
abbreviation (input) LIMBA_RT_MATH_FLOOR :: nat where "LIMBA_RT_MATH_FLOOR \<equiv> 37"
abbreviation (input) LIMBA_RT_MATH_CEIL :: nat where "LIMBA_RT_MATH_CEIL \<equiv> 38"
abbreviation (input) LIMBA_RT_PAR_FOR :: nat where "LIMBA_RT_PAR_FOR \<equiv> 86"
abbreviation (input) LIMBA_RT_MATH_ATAN2 :: nat where "LIMBA_RT_MATH_ATAN2 \<equiv> 96"
abbreviation (input) LIMBA_RT_MATH_ASIN :: nat where "LIMBA_RT_MATH_ASIN \<equiv> 97"
abbreviation (input) LIMBA_RT_MATH_ACOS :: nat where "LIMBA_RT_MATH_ACOS \<equiv> 98"
abbreviation (input) LIMBA_RT_MATH_HYPOT :: nat where "LIMBA_RT_MATH_HYPOT \<equiv> 99"
abbreviation (input) LIMBA_RT_MATH_LOG2 :: nat where "LIMBA_RT_MATH_LOG2 \<equiv> 100"
abbreviation (input) LIMBA_RT_MATH_LOG10 :: nat where "LIMBA_RT_MATH_LOG10 \<equiv> 101"
abbreviation (input) LIMBA_RT_MATH_SINH :: nat where "LIMBA_RT_MATH_SINH \<equiv> 102"
abbreviation (input) LIMBA_RT_MATH_COSH :: nat where "LIMBA_RT_MATH_COSH \<equiv> 103"
abbreviation (input) LIMBA_RT_MATH_TANH :: nat where "LIMBA_RT_MATH_TANH \<equiv> 104"

section \<open>Traps and predefined families of exceptions\<close>

abbreviation (input) LIMBA_TRAP_OVERFLOW :: int where "LIMBA_TRAP_OVERFLOW \<equiv> 6"
abbreviation (input) LIMBA_TRAP_NOMEM :: int where "LIMBA_TRAP_NOMEM \<equiv> 7"
abbreviation (input) LIMBA_TRAP_STACK :: int where "LIMBA_TRAP_STACK \<equiv> 28"
abbreviation (input) LIMBA_TRAP_DIVZERO :: int where "LIMBA_TRAP_DIVZERO \<equiv> 11"
abbreviation (input) LIMBA_TRAP_INDEX :: int where "LIMBA_TRAP_INDEX \<equiv> 100"
abbreviation (input) LIMBA_TRAP_RANGE :: int where "LIMBA_TRAP_RANGE \<equiv> 101"
abbreviation (input) LIMBA_TRAP_NIL :: int where "LIMBA_TRAP_NIL \<equiv> 102"
abbreviation (input) LIMBA_TRAP_CONVERSION :: int where "LIMBA_TRAP_CONVERSION \<equiv> 103"
abbreviation (input) LIMBA_TRAP_SHIFT :: int where "LIMBA_TRAP_SHIFT \<equiv> 104"
abbreviation (input) LIMBA_TRAP_DANGLING :: int where "LIMBA_TRAP_DANGLING \<equiv> 105"
abbreviation (input) LIMBA_TRAP_INVALID_FREE :: int where "LIMBA_TRAP_INVALID_FREE \<equiv> 106"
abbreviation (input) LIMBA_TRAP_IO :: int where "LIMBA_TRAP_IO \<equiv> 107"
abbreviation (input) LIMBA_TRAP_LENGTH :: int where "LIMBA_TRAP_LENGTH \<equiv> 108"
abbreviation (input) LIMBA_TRAP_INVALID_HANDLE :: int where "LIMBA_TRAP_INVALID_HANDLE \<equiv> 109"
abbreviation (input) LIMBA_FAMILY_CONSTRAINT :: int where "LIMBA_FAMILY_CONSTRAINT \<equiv> 900"
abbreviation (input) LIMBA_FAMILY_STORAGE :: int where "LIMBA_FAMILY_STORAGE \<equiv> 901"
abbreviation (input) LIMBA_FAMILY_PROGRAM :: int where "LIMBA_FAMILY_PROGRAM \<equiv> 902"
abbreviation (input) LIMBA_FAMILY_INPUT_OUTPUT :: int where "LIMBA_FAMILY_INPUT_OUTPUT \<equiv> 903"

definition limba_trap_text :: "int \<Rightarrow> string option" where
  "limba_trap_text code =
    (if code = LIMBA_TRAP_OVERFLOW then Some ''overflow''
     else if code = LIMBA_TRAP_NOMEM then Some ''out of memory''
     else if code = LIMBA_TRAP_STACK then Some ''stack overflow''
     else if code = LIMBA_TRAP_DIVZERO then Some ''division by zero''
     else if code = LIMBA_TRAP_INDEX then Some ''index out of range''
     else if code = LIMBA_TRAP_RANGE then Some ''value out of range''
     else if code = LIMBA_TRAP_NIL then Some ''nil dereferenced''
     else if code = LIMBA_TRAP_CONVERSION then Some ''conversion out of range''
     else if code = LIMBA_TRAP_SHIFT then Some ''shift count out of range''
     else if code = LIMBA_TRAP_DANGLING then Some ''dangling pointer''
     else if code = LIMBA_TRAP_INVALID_FREE then Some ''invalid dispose''
     else if code = LIMBA_TRAP_IO then Some ''input/output error''
     else if code = LIMBA_TRAP_LENGTH then Some ''length mismatch''
     else if code = LIMBA_TRAP_INVALID_HANDLE then Some ''invalid file handle''
     else None)"

section \<open>Types\<close>

datatype limba_type_kind =
    LIMBA_TK_VOID | LIMBA_TK_I1 | LIMBA_TK_I8 | LIMBA_TK_I16 | LIMBA_TK_I32 | LIMBA_TK_I64
    | LIMBA_TK_F32 | LIMBA_TK_F64 | LIMBA_TK_PTR | LIMBA_TK_STR | LIMBA_TK_REF | LIMBA_TK_STRUCT
    | LIMBA_TK_ARRAY | LIMBA_TK_FUNC

primrec tk_code :: "limba_type_kind \<Rightarrow> nat" where
  "tk_code LIMBA_TK_VOID = 0"
| "tk_code LIMBA_TK_I1 = 1"
| "tk_code LIMBA_TK_I8 = 2"
| "tk_code LIMBA_TK_I16 = 3"
| "tk_code LIMBA_TK_I32 = 4"
| "tk_code LIMBA_TK_I64 = 5"
| "tk_code LIMBA_TK_F32 = 6"
| "tk_code LIMBA_TK_F64 = 7"
| "tk_code LIMBA_TK_PTR = 8"
| "tk_code LIMBA_TK_STR = 9"
| "tk_code LIMBA_TK_REF = 10"
| "tk_code LIMBA_TK_STRUCT = 11"
| "tk_code LIMBA_TK_ARRAY = 12"
| "tk_code LIMBA_TK_FUNC = 13"

text \<open>The scalar types have fixed identifiers, equal to their kind.\<close>

abbreviation (input) LIMBA_T_VOID :: limba_id where "LIMBA_T_VOID \<equiv> 0"
abbreviation (input) LIMBA_T_I1 :: limba_id where "LIMBA_T_I1 \<equiv> 1"
abbreviation (input) LIMBA_T_I8 :: limba_id where "LIMBA_T_I8 \<equiv> 2"
abbreviation (input) LIMBA_T_I16 :: limba_id where "LIMBA_T_I16 \<equiv> 3"
abbreviation (input) LIMBA_T_I32 :: limba_id where "LIMBA_T_I32 \<equiv> 4"
abbreviation (input) LIMBA_T_I64 :: limba_id where "LIMBA_T_I64 \<equiv> 5"
abbreviation (input) LIMBA_T_F32 :: limba_id where "LIMBA_T_F32 \<equiv> 6"
abbreviation (input) LIMBA_T_F64 :: limba_id where "LIMBA_T_F64 \<equiv> 7"
abbreviation (input) LIMBA_T_PTR :: limba_id where "LIMBA_T_PTR \<equiv> 8"
abbreviation (input) LIMBA_T_STR :: limba_id where "LIMBA_T_STR \<equiv> 9"
abbreviation (input) LIMBA_T_REF :: limba_id where "LIMBA_T_REF \<equiv> 10"
abbreviation (input) LIMBA_T_FIRST_USER :: limba_id where "LIMBA_T_FIRST_USER \<equiv> 11"

datatype limba_ext = LIMBA_EXT_NONE | LIMBA_EXT_SEXT | LIMBA_EXT_ZEXT

primrec ext_code :: "limba_ext \<Rightarrow> u32" where
  "ext_code LIMBA_EXT_NONE = 0"
| "ext_code LIMBA_EXT_SEXT = 1"
| "ext_code LIMBA_EXT_ZEXT = 2"

record limba_type =
  ty_kind :: limba_type_kind
  ty_variadic :: bool
  ty_rext :: u8
  ty_size :: u32
  ty_align :: u32
  ty_name :: limba_id
  ty_elem :: limba_id
  ty_count :: nat
  ty_first :: nat

text \<open>A field of a struct with its offset, or a parameter of a function with its extension.\<close>

record limba_member =
  mb_type :: limba_id
  mb_offset :: u32

section \<open>The contents of a module\<close>

datatype limba_init = LIMBA_INIT_ZERO | LIMBA_INIT_INT | LIMBA_INIT_FLOAT | LIMBA_INIT_STR | LIMBA_INIT_DATA

datatype limba_reloc_kind = LIMBA_RELOC_FUNC | LIMBA_RELOC_GLOBAL | LIMBA_RELOC_STR

record limba_reloc =
  rl_offset :: u32
  rl_kind :: limba_reloc_kind
  rl_id :: limba_id
  rl_addend :: u64

text \<open>The bytes of a fill are \<open>len\<close> of them: the length of the list.\<close>

record limba_fill =
  fl_offset :: u32
  fl_count :: u32
  fl_bytes :: "u8 list"

record limba_initdata =
  id_bytes :: "u8 list"
  id_relocs :: "limba_reloc list"
  id_fills :: "limba_fill list"

record limba_global =
  gl_name :: limba_id
  gl_type :: limba_id
  gl_flags :: u32
  gl_init :: limba_init
  gl_value :: u64

record limba_extern =
  ex_name :: limba_id
  ex_type :: limba_id
  ex_symbol :: limba_id
  ex_library :: limba_id

record limba_slot =
  sl_size :: u32
  sl_align :: u32
  sl_type :: limba_id

record limba_inst =
  in_op :: limba_op
  in_cc :: limba_cc
  in_type :: limba_id
  in_block :: limba_id
  in_nops :: nat
  in_first :: nat
  in_imm :: u64
  in_imm2 :: u64

text \<open>The handler of a block is its number plus one, 0 for none.\<close>

record limba_block =
  bl_insts :: "nat list"
  bl_nparams :: nat
  bl_handler :: nat

record limba_pos =
  ps_file :: limba_id
  ps_line :: u32
  ps_col :: u32

text \<open>
  What the set ``under a handler'' keeps of a body (\<open>struct limba_fsum\<close> of
  \<^verbatim>\<open>src/src/ir/handled.c\<close>).
\<close>

record limba_fsum =
  fs_has_handler :: bool
  fs_callees :: "limba_id list"
  fs_taken :: "limba_id list"
  fs_sigs :: "limba_id list"
  fs_bodies :: "limba_id list"

text \<open>The positions of the instructions: a position past the end of the list is 0.\<close>

record limba_func =
  fn_name :: limba_id
  fn_type :: limba_id
  fn_flags :: u32
  fn_locs :: "nat list"
  fn_pos_cur :: nat
  fn_insts :: "limba_inst list"
  fn_operands :: "nat list"
  fn_blocks :: "limba_block list"
  fn_slots :: "limba_slot list"
  fn_sum :: "limba_fsum option"

definition limba_inst_pos :: "limba_func \<Rightarrow> limba_id \<Rightarrow> nat" where
  "limba_inst_pos f i = (if i < length (fn_locs f) then fn_locs f ! i else 0)"

text \<open>An operand of an instruction: \<open>f->operands[in->first + k]\<close>.\<close>

definition operand :: "limba_func \<Rightarrow> limba_inst \<Rightarrow> nat \<Rightarrow> nat" where
  "operand f i k = fn_operands f ! (in_first i + k)"

text \<open>Every instruction names operands of the pool.\<close>

definition func_ok :: "limba_func \<Rightarrow> bool" where
  "func_ok f \<longleftrightarrow>
     (\<forall>i \<in> set (fn_insts f). in_first i + in_nops i \<le> length (fn_operands f)) \<and>
     (\<forall>b \<in> set (fn_blocks f). \<forall>i \<in> set (bl_insts b). i < length (fn_insts f))"

datatype limba_memory = LIMBA_MEM_STRICT | LIMBA_MEM_FB

record limba_exception =
  xc_id :: int
  xc_name :: limba_id
  xc_parent :: int

record limba_message =
  mg_code :: int
  mg_text :: limba_id

end
