(* ===== verification/Runtime.thy ===== *)
theory Runtime
  imports Ir Hash
begin

text \<open>
  The table of the run-time library as \<^verbatim>\<open>src/src/ir/runtime.c\<close> reads it, with the names of the
  scalar types (\<^verbatim>\<open>src/src/ir/module.c\<close>): the search by name, the signature of an entry parsed
  from its text, and the fingerprint of the table. A C string is a list of characters without the
  final NUL: the character read past the last one is the end of the list.
\<close>

section \<open>The scalar types by name\<close>

definition scalars :: "(string \<times> u32) list" where
  "scalars = [(''void'', 0), (''i1'', 1), (''i8'', 1), (''i16'', 2), (''i32'', 4), (''i64'', 8),
     (''f32'', 4), (''f64'', 8), (''ptr'', 8), (''str'', 8), (''ref'', 8)]"

definition limba_scalar_name :: "limba_id \<Rightarrow> string option" where
  "limba_scalar_name t = (if t < LIMBA_T_FIRST_USER then Some (fst (scalars ! t)) else None)"

fun scalar_find_from :: "(string \<times> u32) list \<Rightarrow> limba_id \<Rightarrow> string \<Rightarrow> limba_id" where
  "scalar_find_from [] t s = LIMBA_NONE"
| "scalar_find_from ((name, sz) # rest) t s = (if name = s then t else scalar_find_from rest (t + 1) s)"

definition limba_scalar_find :: "string \<Rightarrow> limba_id" where
  "limba_scalar_find s = scalar_find_from scalars 0 s"

section \<open>The table\<close>

definition c_bytes :: "string \<Rightarrow> u8 list" where
  "c_bytes s = map of_char s"

text \<open>The four bytes of a \<open>uint32_t\<close> in memory, on a little-endian machine.\<close>

definition le32 :: "u32 \<Rightarrow> u8 list" where
  "le32 w = [ucast w, ucast (drop_bit 8 w), ucast (drop_bit 16 w), ucast (drop_bit 24 w)]"

definition limba_rt_fingerprint :: u64 where
  "limba_rt_fingerprint =
     fold (\<lambda>r h. limba_fnv (le32 (rt_attrs r))
             (limba_fnv (c_bytes (rt_sig r) @ [0]) (limba_fnv (c_bytes (rt_name r) @ [0]) h)))
       limba_rts LIMBA_FNV_SEED"

fun rt_find_from :: "limba_rt_info list \<Rightarrow> limba_id \<Rightarrow> string \<Rightarrow> limba_id" where
  "rt_find_from [] i name = LIMBA_NONE"
| "rt_find_from (r # rest) i name = (if rt_name r = name then i else rt_find_from rest (i + 1) name)"

definition limba_rt_find :: "string \<Rightarrow> limba_id" where
  "limba_rt_find name = rt_find_from limba_rts 0 name"

section \<open>Signatures\<close>

text \<open>
  A call signature. \<open>sg_mem\<close> is the field \<open>mem\<close> of the C struct: the members of a function type of a
  module, each with the extension mark of its parameter, and nothing for an entry of the table.
  \<open>sg_params\<close> are the types \<open>limba_sig_param\<close> reads, from \<open>mem\<close> or from the field \<open>rt\<close>.
\<close>

record limba_sig =
  sg_ret :: limba_id
  sg_params :: "limba_id list"
  sg_variadic :: bool
  sg_mem :: "limba_member list option"

definition limba_sig_param :: "limba_sig \<Rightarrow> nat \<Rightarrow> limba_id" where
  "limba_sig_param s i = sg_params s ! i"

abbreviation (input) LIMBA_RT_MAXPARAMS :: nat where "LIMBA_RT_MAXPARAMS \<equiv> 16"

fun skip :: "string \<Rightarrow> string" where
  "skip [] = []"
| "skip (c # s) = (if c = CHR '' '' then skip s else c # s)"

definition isalnum :: "char \<Rightarrow> bool" where
  "isalnum c \<longleftrightarrow> (let n = of_char c :: nat in
     48 \<le> n \<and> n \<le> 57 \<or> 65 \<le> n \<and> n \<le> 90 \<or> 97 \<le> n \<and> n \<le> 122)"

definition word :: "string \<Rightarrow> limba_id \<times> string" where
  "word s = (limba_scalar_find (takeWhile isalnum s), dropWhile isalnum s)"

lemma skip_le: "length (skip s) \<le> length s"
  by (induction s) auto

lemma word_shorter: "fst (word s) \<noteq> LIMBA_NONE \<Longrightarrow> length (snd (word s)) < length s"
proof -
  assume found: "fst (word s) \<noteq> LIMBA_NONE"
  have "takeWhile isalnum s \<noteq> []"
  proof
    assume "takeWhile isalnum s = []"
    then show False using found by (simp add: word_def limba_scalar_find_def scalars_def)
  qed
  then have "0 < length (takeWhile isalnum s)" unfolding length_greater_0_conv .
  moreover have "length (takeWhile isalnum s) + length (dropWhile isalnum s) = length s"
    by (metis length_append takeWhile_dropWhile_id)
  ultimately have "length (dropWhile isalnum s) < length s" by linarith
  then show ?thesis by (simp add: word_def)
qed

text \<open>The loop over the parameters, from a text after the blanks.\<close>

function rt_params :: "string \<Rightarrow> limba_id list \<Rightarrow> bool \<Rightarrow> (limba_id list \<times> bool \<times> string) option" where
  "rt_params s ps variadic =
     (if take 1 s = '')'' then Some (ps, variadic, s)
      else if take 3 s = ''...'' then rt_params (skip (drop 3 s)) ps True
      else if length ps = LIMBA_RT_MAXPARAMS then None
      else let (t, s) = word s
        in if t = LIMBA_NONE \<or> t = LIMBA_T_VOID then None
           else let s = skip s
             in if take 1 s = '','' then rt_params (skip (drop 1 s)) (ps @ [t]) variadic
                else if take 1 s \<noteq> '')'' then None
                else rt_params s (ps @ [t]) variadic)"
  by pat_completeness auto
termination
proof (relation "measure (\<lambda>(s, ps, variadic). length s)", goal_cases)
  case 1 show ?case by simp
next
  case (2 s ps variadic)
  then have "length (drop 3 s) < length s" by (cases s) auto
  then show ?case using skip_le [of "drop 3 s"] by simp
next
  case (3 s ps variadic x t r u)
  then have "length r < length s" using word_shorter [of s] by (metis fst_conv snd_conv)
  moreover have "length (skip (drop 1 u)) \<le> length r"
    using skip_le [of "drop 1 u"] skip_le [of r] \<open>u = skip r\<close> by simp
  ultimately show ?case by simp
next
  case (4 s ps variadic x t r u)
  then have "length r < length s" using word_shorter [of s] by (metis fst_conv snd_conv)
  then show ?case using skip_le [of r] \<open>u = skip r\<close> by simp
qed

declare rt_params.simps [simp del]

definition limba_rt_sig :: "limba_id \<Rightarrow> limba_sig option" where
  "limba_rt_sig rt =
     (if rt \<ge> LIMBA_RT_COUNT then None
      else let s = skip (rt_sig (limba_rts ! rt))
        in if take 1 s \<noteq> ''('' then None
           else case rt_params (skip (drop 1 s)) [] False of
                  None \<Rightarrow> None
                | Some (ps, variadic, s) \<Rightarrow>
                    (let s = skip (drop 1 s)
                     in if take 2 s \<noteq> ''->'' then None
                        else let (ret, s) = word (skip (drop 2 s))
                          in if ret \<noteq> LIMBA_NONE \<and> skip s = []
                             then Some \<lparr>sg_ret = ret, sg_params = ps, sg_variadic = variadic, sg_mem = None\<rparr>
                             else None))"

section \<open>What holds of the table\<close>

text \<open>The text of a signature, in the form the table gives it.\<close>

definition params_text :: "limba_id list \<Rightarrow> string" where
  "params_text ps =
     concat (case ps of [] \<Rightarrow> [] | p # rest \<Rightarrow>
       the (limba_scalar_name p) # map (\<lambda>q. '', '' @ the (limba_scalar_name q)) rest)"

definition sig_text :: "limba_sig \<Rightarrow> string" where
  "sig_text s = ''('' @ params_text (sg_params s) @ '') -> '' @ the (limba_scalar_name (sg_ret s))"

lemma scalar_names:
  assumes "t < LIMBA_T_FIRST_USER"
  shows "limba_scalar_find (the (limba_scalar_name t)) = t"
    and "list_all isalnum (the (limba_scalar_name t))"
    and "the (limba_scalar_name t) \<noteq> []"
proof -
  have "\<forall>t \<in> set [0 ..< 11]. limba_scalar_find (the (limba_scalar_name t)) = t \<and>
      list_all isalnum (the (limba_scalar_name t)) \<and> the (limba_scalar_name t) \<noteq> []"
    by code_simp
  then show "limba_scalar_find (the (limba_scalar_name t)) = t"
    "list_all isalnum (the (limba_scalar_name t))" "the (limba_scalar_name t) \<noteq> []"
    using assms by simp_all
qed

lemma word_name:
  assumes "t < LIMBA_T_FIRST_USER" "rest = [] \<or> \<not> isalnum (hd rest)"
  shows "word (the (limba_scalar_name t) @ rest) = (t, rest)"
proof -
  note n = scalar_names [OF assms(1)]
  have "takeWhile isalnum (the (limba_scalar_name t) @ rest) = the (limba_scalar_name t)"
    "dropWhile isalnum (the (limba_scalar_name t) @ rest) = rest"
    using n(2) assms(2) by (cases rest; simp add: list_all_iff)+
  then show ?thesis using n(1) by (simp add: word_def)
qed

lemma name_start:
  assumes "t < LIMBA_T_FIRST_USER"
  obtains c n where "the (limba_scalar_name t) = c # n" "isalnum c"
proof -
  obtain c n where "the (limba_scalar_name t) = c # n"
    using scalar_names(3) [OF assms] by (cases "the (limba_scalar_name t)") auto
  then show ?thesis using that scalar_names(2) [OF assms] by simp
qed

lemma not_alnum: "\<not> isalnum (CHR '' '')" "\<not> isalnum (CHR '')'')" "\<not> isalnum (CHR '','')" "\<not> isalnum (CHR ''.'')"
  by (simp_all add: isalnum_def)

lemma skip_name:
  assumes "t < LIMBA_T_FIRST_USER"
  shows "skip (the (limba_scalar_name t) @ rest) = the (limba_scalar_name t) @ rest"
  by (rule name_start [OF assms]) (use not_alnum(1) in auto)

text \<open>One parameter, then the rest of the list.\<close>

lemma rt_params_step:
  assumes t: "t < LIMBA_T_FIRST_USER" "t \<noteq> LIMBA_T_VOID" and room: "length acc < LIMBA_RT_MAXPARAMS"
  shows "rt_params (the (limba_scalar_name t) @ '', '' @ rest) acc v = rt_params (skip rest) (acc @ [t]) v"
    "rt_params (the (limba_scalar_name t) @ '')'' @ rest) acc v = Some (acc @ [t], v, '')'' @ rest)"
proof -
  obtain c n where c: "the (limba_scalar_name t) = c # n" "isalnum c" by (rule name_start [OF t(1)])
  have start: "take 1 (the (limba_scalar_name t) @ x) \<noteq> '')''"
    "take 3 (the (limba_scalar_name t) @ x) \<noteq> ''...''" for x
    using c not_alnum by auto
  have w: "word (the (limba_scalar_name t) @ '', '' @ rest) = (t, '', '' @ rest)"
    "word (the (limba_scalar_name t) @ '')'' @ rest) = (t, '')'' @ rest)"
    by (rule word_name [OF t(1)]; simp add: not_alnum)+
  show "rt_params (the (limba_scalar_name t) @ '', '' @ rest) acc v = rt_params (skip rest) (acc @ [t]) v"
    unfolding rt_params.simps [of "the (limba_scalar_name t) @ '', '' @ rest"] w
    using start room t by simp
  show "rt_params (the (limba_scalar_name t) @ '')'' @ rest) acc v = Some (acc @ [t], v, '')'' @ rest)"
    unfolding rt_params.simps [of "the (limba_scalar_name t) @ '')'' @ rest"] w
    using start room t by (simp add: rt_params.simps [of "CHR '')'' # rest"])
qed

lemma params_text_Cons:
  "params_text (p # q # ps) = the (limba_scalar_name p) @ '', '' @ params_text (q # ps)"
  by (simp add: params_text_def)

lemma rt_params_text:
  assumes "\<forall>p \<in> set ps. p < LIMBA_T_FIRST_USER \<and> p \<noteq> LIMBA_T_VOID" "length acc + length ps \<le> LIMBA_RT_MAXPARAMS"
  shows "rt_params (params_text ps @ '')'' @ rest) acc v = Some (acc @ ps, v, '')'' @ rest)"
  using assms
proof (induction ps arbitrary: acc)
  case Nil
  then show ?case by (simp add: params_text_def rt_params.simps [of "CHR '')'' # rest"])
next
  case (Cons p ps)
  show ?case
  proof (cases ps)
    case Nil
    then show ?thesis using Cons.prems rt_params_step(2) [of p acc rest v] by (simp add: params_text_def)
  next
    case (Cons q qs)
    have "skip (params_text ps @ '')'' @ rest) = params_text ps @ '')'' @ rest"
      using skip_name [of q "concat (map (\<lambda>q. '', '' @ the (limba_scalar_name q)) qs) @ '')'' @ rest"]
        Cons.prems by (simp add: params_text_def \<open>ps = q # qs\<close>)
    moreover have "rt_params (params_text (p # ps) @ '')'' @ rest) acc v =
        rt_params (skip (params_text ps @ '')'' @ rest)) (acc @ [p]) v"
      using rt_params_step(1) [of p acc "params_text ps @ '')'' @ rest" v] Cons.prems
      by (simp add: \<open>ps = q # qs\<close> params_text_Cons)
    ultimately show ?thesis using Cons.IH [of "acc @ [p]"] Cons.prems by simp
  qed
qed

text \<open>A signature of scalar types is read back from its text.\<close>

lemma rt_sig_text:
  assumes rt: "rt < LIMBA_RT_COUNT" "rt_sig (limba_rts ! rt) = sig_text s"
    and s: "\<forall>p \<in> set (sg_params s). p < LIMBA_T_FIRST_USER \<and> p \<noteq> LIMBA_T_VOID"
      "length (sg_params s) \<le> LIMBA_RT_MAXPARAMS" "sg_ret s < LIMBA_T_FIRST_USER" "\<not> sg_variadic s" "sg_mem s = None"
  shows "limba_rt_sig rt = Some s"
proof -
  have sp: "skip (params_text (sg_params s) @ '')'' @ rest) = params_text (sg_params s) @ '')'' @ rest" for rest
  proof (cases "sg_params s")
    case (Cons q qs)
    then show ?thesis
      using skip_name [of q "concat (map (\<lambda>q. '', '' @ the (limba_scalar_name q)) qs) @ '')'' @ rest"] s(1)
      by (simp add: params_text_def)
  qed (simp add: params_text_def)
  have ps: "rt_params (params_text (sg_params s) @ '')'' @ rest) [] False = Some (sg_params s, False, '')'' @ rest)" for rest
    using rt_params_text [of "sg_params s" "[]" rest False] s(1,2) by simp
  have w: "word (skip ('' '' @ the (limba_scalar_name (sg_ret s)))) = (sg_ret s, [])"
    using word_name [OF s(3), of "[]"] skip_name [OF s(3), of "[]"] by simp
  have "limba_rt_sig rt = Some \<lparr>sg_ret = sg_ret s, sg_params = sg_params s, sg_variadic = False, sg_mem = None\<rparr>"
    using rt s(3) w ps [of "'' -> '' @ the (limba_scalar_name (sg_ret s))"]
      sp [of "'' -> '' @ the (limba_scalar_name (sg_ret s))"]
    by (simp add: limba_rt_sig_def sig_text_def)
  then show ?thesis using s(4,5) by simp
qed

text \<open>The signatures of the table, read from it.\<close>

definition rt_sigs :: "limba_sig list" where
  "rt_sigs =
    [\<lparr>sg_ret = 0, sg_params = [5], sg_variadic = False, sg_mem = None\<rparr>,
     \<lparr>sg_ret = 0, sg_params = [7], sg_variadic = False, sg_mem = None\<rparr>,
     \<lparr>sg_ret = 0, sg_params = [9], sg_variadic = False, sg_mem = None\<rparr>,
     \<lparr>sg_ret = 0, sg_params = [], sg_variadic = False, sg_mem = None\<rparr>,
     \<lparr>sg_ret = 9, sg_params = [9, 9], sg_variadic = False, sg_mem = None\<rparr>,
     \<lparr>sg_ret = 5, sg_params = [9], sg_variadic = False, sg_mem = None\<rparr>,
     \<lparr>sg_ret = 4, sg_params = [9, 9], sg_variadic = False, sg_mem = None\<rparr>,
     \<lparr>sg_ret = 9, sg_params = [5], sg_variadic = False, sg_mem = None\<rparr>,
     \<lparr>sg_ret = 9, sg_params = [7], sg_variadic = False, sg_mem = None\<rparr>,
     \<lparr>sg_ret = 9, sg_params = [9, 5, 5], sg_variadic = False, sg_mem = None\<rparr>,
     \<lparr>sg_ret = 8, sg_params = [9], sg_variadic = False, sg_mem = None\<rparr>,
     \<lparr>sg_ret = 8, sg_params = [5], sg_variadic = False, sg_mem = None\<rparr>,
     \<lparr>sg_ret = 0, sg_params = [8], sg_variadic = False, sg_mem = None\<rparr>,
     \<lparr>sg_ret = 7, sg_params = [7], sg_variadic = False, sg_mem = None\<rparr>,
     \<lparr>sg_ret = 7, sg_params = [7], sg_variadic = False, sg_mem = None\<rparr>,
     \<lparr>sg_ret = 7, sg_params = [7], sg_variadic = False, sg_mem = None\<rparr>,
     \<lparr>sg_ret = 7, sg_params = [7, 7], sg_variadic = False, sg_mem = None\<rparr>,
     \<lparr>sg_ret = 0, sg_params = [5], sg_variadic = False, sg_mem = None\<rparr>,
     \<lparr>sg_ret = 0, sg_params = [1], sg_variadic = False, sg_mem = None\<rparr>,
     \<lparr>sg_ret = 0, sg_params = [4], sg_variadic = False, sg_mem = None\<rparr>,
     \<lparr>sg_ret = 0, sg_params = [2], sg_variadic = False, sg_mem = None\<rparr>,
     \<lparr>sg_ret = 0, sg_params = [9, 4], sg_variadic = False, sg_mem = None\<rparr>,
     \<lparr>sg_ret = 9, sg_params = [5], sg_variadic = False, sg_mem = None\<rparr>,
     \<lparr>sg_ret = 9, sg_params = [7, 4], sg_variadic = False, sg_mem = None\<rparr>,
     \<lparr>sg_ret = 9, sg_params = [4], sg_variadic = False, sg_mem = None\<rparr>,
     \<lparr>sg_ret = 9, sg_params = [1], sg_variadic = False, sg_mem = None\<rparr>,
     \<lparr>sg_ret = 1, sg_params = [8], sg_variadic = False, sg_mem = None\<rparr>,
     \<lparr>sg_ret = 1, sg_params = [9, 8, 5, 5], sg_variadic = False, sg_mem = None\<rparr>,
     \<lparr>sg_ret = 1, sg_params = [9, 8], sg_variadic = False, sg_mem = None\<rparr>,
     \<lparr>sg_ret = 4, sg_params = [], sg_variadic = False, sg_mem = None\<rparr>,
     \<lparr>sg_ret = 9, sg_params = [4], sg_variadic = False, sg_mem = None\<rparr>,
     \<lparr>sg_ret = 0, sg_params = [4], sg_variadic = False, sg_mem = None\<rparr>,
     \<lparr>sg_ret = 7, sg_params = [7], sg_variadic = False, sg_mem = None\<rparr>,
     \<lparr>sg_ret = 7, sg_params = [7], sg_variadic = False, sg_mem = None\<rparr>,
     \<lparr>sg_ret = 7, sg_params = [7], sg_variadic = False, sg_mem = None\<rparr>,
     \<lparr>sg_ret = 7, sg_params = [7], sg_variadic = False, sg_mem = None\<rparr>,
     \<lparr>sg_ret = 7, sg_params = [7], sg_variadic = False, sg_mem = None\<rparr>,
     \<lparr>sg_ret = 7, sg_params = [7], sg_variadic = False, sg_mem = None\<rparr>,
     \<lparr>sg_ret = 7, sg_params = [7], sg_variadic = False, sg_mem = None\<rparr>,
     \<lparr>sg_ret = 5, sg_params = [5, 5], sg_variadic = False, sg_mem = None\<rparr>,
     \<lparr>sg_ret = 5, sg_params = [5, 5], sg_variadic = False, sg_mem = None\<rparr>,
     \<lparr>sg_ret = 5, sg_params = [5, 5], sg_variadic = False, sg_mem = None\<rparr>,
     \<lparr>sg_ret = 1, sg_params = [9, 8, 5, 5], sg_variadic = False, sg_mem = None\<rparr>,
     \<lparr>sg_ret = 1, sg_params = [9, 8], sg_variadic = False, sg_mem = None\<rparr>,
     \<lparr>sg_ret = 0, sg_params = [6], sg_variadic = False, sg_mem = None\<rparr>,
     \<lparr>sg_ret = 9, sg_params = [6], sg_variadic = False, sg_mem = None\<rparr>,
     \<lparr>sg_ret = 1, sg_params = [8], sg_variadic = False, sg_mem = None\<rparr>,
     \<lparr>sg_ret = 10, sg_params = [5], sg_variadic = False, sg_mem = None\<rparr>,
     \<lparr>sg_ret = 10, sg_params = [5], sg_variadic = False, sg_mem = None\<rparr>,
     \<lparr>sg_ret = 10, sg_params = [9], sg_variadic = False, sg_mem = None\<rparr>,
     \<lparr>sg_ret = 1, sg_params = [10, 8], sg_variadic = False, sg_mem = None\<rparr>,
     \<lparr>sg_ret = 1, sg_params = [10, 8], sg_variadic = False, sg_mem = None\<rparr>,
     \<lparr>sg_ret = 5, sg_params = [10], sg_variadic = False, sg_mem = None\<rparr>,
     \<lparr>sg_ret = 10, sg_params = [7], sg_variadic = False, sg_mem = None\<rparr>,
     \<lparr>sg_ret = 7, sg_params = [10], sg_variadic = False, sg_mem = None\<rparr>,
     \<lparr>sg_ret = 6, sg_params = [10], sg_variadic = False, sg_mem = None\<rparr>,
     \<lparr>sg_ret = 10, sg_params = [10, 10], sg_variadic = False, sg_mem = None\<rparr>,
     \<lparr>sg_ret = 10, sg_params = [10, 10], sg_variadic = False, sg_mem = None\<rparr>,
     \<lparr>sg_ret = 10, sg_params = [10, 10], sg_variadic = False, sg_mem = None\<rparr>,
     \<lparr>sg_ret = 10, sg_params = [10], sg_variadic = False, sg_mem = None\<rparr>,
     \<lparr>sg_ret = 10, sg_params = [10], sg_variadic = False, sg_mem = None\<rparr>,
     \<lparr>sg_ret = 10, sg_params = [10, 10], sg_variadic = False, sg_mem = None\<rparr>,
     \<lparr>sg_ret = 10, sg_params = [10, 10], sg_variadic = False, sg_mem = None\<rparr>,
     \<lparr>sg_ret = 10, sg_params = [10, 10], sg_variadic = False, sg_mem = None\<rparr>,
     \<lparr>sg_ret = 10, sg_params = [10, 5], sg_variadic = False, sg_mem = None\<rparr>,
     \<lparr>sg_ret = 4, sg_params = [10, 10], sg_variadic = False, sg_mem = None\<rparr>,
     \<lparr>sg_ret = 4, sg_params = [10], sg_variadic = False, sg_mem = None\<rparr>,
     \<lparr>sg_ret = 0, sg_params = [10], sg_variadic = False, sg_mem = None\<rparr>,
     \<lparr>sg_ret = 9, sg_params = [10], sg_variadic = False, sg_mem = None\<rparr>,
     \<lparr>sg_ret = 1, sg_params = [9, 8], sg_variadic = False, sg_mem = None\<rparr>,
     \<lparr>sg_ret = 8, sg_params = [9], sg_variadic = False, sg_mem = None\<rparr>,
     \<lparr>sg_ret = 9, sg_params = [8], sg_variadic = False, sg_mem = None\<rparr>,
     \<lparr>sg_ret = 9, sg_params = [8, 5], sg_variadic = False, sg_mem = None\<rparr>,
     \<lparr>sg_ret = 0, sg_params = [8], sg_variadic = False, sg_mem = None\<rparr>,
     \<lparr>sg_ret = 0, sg_params = [8, 5, 8], sg_variadic = False, sg_mem = None\<rparr>,
     \<lparr>sg_ret = 0, sg_params = [8, 5, 5], sg_variadic = False, sg_mem = None\<rparr>,
     \<lparr>sg_ret = 5, sg_params = [8, 5, 8, 5], sg_variadic = False, sg_mem = None\<rparr>,
     \<lparr>sg_ret = 5, sg_params = [8, 5], sg_variadic = False, sg_mem = None\<rparr>,
     \<lparr>sg_ret = 0, sg_params = [8, 5], sg_variadic = False, sg_mem = None\<rparr>,
     \<lparr>sg_ret = 10, sg_params = [10, 10], sg_variadic = False, sg_mem = None\<rparr>,
     \<lparr>sg_ret = 10, sg_params = [10, 10], sg_variadic = False, sg_mem = None\<rparr>,
     \<lparr>sg_ret = 10, sg_params = [10], sg_variadic = False, sg_mem = None\<rparr>,
     \<lparr>sg_ret = 10, sg_params = [10, 5], sg_variadic = False, sg_mem = None\<rparr>,
     \<lparr>sg_ret = 1, sg_params = [10, 10], sg_variadic = False, sg_mem = None\<rparr>,
     \<lparr>sg_ret = 10, sg_params = [10, 10], sg_variadic = False, sg_mem = None\<rparr>,
     \<lparr>sg_ret = 10, sg_params = [10, 10, 10], sg_variadic = False, sg_mem = None\<rparr>,
     \<lparr>sg_ret = 0, sg_params = [8, 8, 5, 5], sg_variadic = False, sg_mem = None\<rparr>,
     \<lparr>sg_ret = 9, sg_params = [4], sg_variadic = False, sg_mem = None\<rparr>,
     \<lparr>sg_ret = 5, sg_params = [9, 4], sg_variadic = False, sg_mem = None\<rparr>,
     \<lparr>sg_ret = 0, sg_params = [5], sg_variadic = False, sg_mem = None\<rparr>,
     \<lparr>sg_ret = 0, sg_params = [5], sg_variadic = False, sg_mem = None\<rparr>,
     \<lparr>sg_ret = 1, sg_params = [5, 8], sg_variadic = False, sg_mem = None\<rparr>,
     \<lparr>sg_ret = 5, sg_params = [5, 8, 5], sg_variadic = False, sg_mem = None\<rparr>,
     \<lparr>sg_ret = 0, sg_params = [5, 8, 5], sg_variadic = False, sg_mem = None\<rparr>,
     \<lparr>sg_ret = 1, sg_params = [9], sg_variadic = False, sg_mem = None\<rparr>,
     \<lparr>sg_ret = 0, sg_params = [9], sg_variadic = False, sg_mem = None\<rparr>,
     \<lparr>sg_ret = 7, sg_params = [7, 7], sg_variadic = False, sg_mem = None\<rparr>,
     \<lparr>sg_ret = 7, sg_params = [7], sg_variadic = False, sg_mem = None\<rparr>,
     \<lparr>sg_ret = 7, sg_params = [7], sg_variadic = False, sg_mem = None\<rparr>,
     \<lparr>sg_ret = 7, sg_params = [7, 7], sg_variadic = False, sg_mem = None\<rparr>,
     \<lparr>sg_ret = 7, sg_params = [7], sg_variadic = False, sg_mem = None\<rparr>,
     \<lparr>sg_ret = 7, sg_params = [7], sg_variadic = False, sg_mem = None\<rparr>,
     \<lparr>sg_ret = 7, sg_params = [7], sg_variadic = False, sg_mem = None\<rparr>,
     \<lparr>sg_ret = 7, sg_params = [7], sg_variadic = False, sg_mem = None\<rparr>,
     \<lparr>sg_ret = 7, sg_params = [7], sg_variadic = False, sg_mem = None\<rparr>]"

lemma rt_sigs_text: "map rt_sig limba_rts = map sig_text rt_sigs"
  by (simp add: limba_rts_def rt_sigs_def sig_text_def params_text_def limba_scalar_name_def scalars_def)

lemma rt_sigs_wf:
  "\<forall>s \<in> set rt_sigs. (\<forall>p \<in> set (sg_params s). p < LIMBA_T_FIRST_USER \<and> p \<noteq> LIMBA_T_VOID) \<and>
     length (sg_params s) \<le> LIMBA_RT_MAXPARAMS \<and> sg_ret s < LIMBA_T_FIRST_USER \<and> \<not> sg_variadic s \<and> sg_mem s = None"
  by (simp add: rt_sigs_def)

lemma rt_table_sigs:
  assumes "rt < LIMBA_RT_COUNT"
  shows "limba_rt_sig rt = Some (rt_sigs ! rt)" "sig_text (rt_sigs ! rt) = rt_sig (limba_rts ! rt)"
proof -
  have len: "length rt_sigs = 105" by (simp add: rt_sigs_def)
  then have "length limba_rts = 105" using rt_sigs_text by (metis length_map)
  then show tx: "sig_text (rt_sigs ! rt) = rt_sig (limba_rts ! rt)"
    using rt_sigs_text assms len by (metis nth_map)
  have "rt_sigs ! rt \<in> set rt_sigs" using assms len by simp
  then show "limba_rt_sig rt = Some (rt_sigs ! rt)"
    using rt_sig_text [OF assms tx [symmetric]] bspec [OF rt_sigs_wf, of "rt_sigs ! rt"] by simp
qed

lemma rt_find_from_distinct:
  assumes "distinct (map rt_name rs)" "i < length rs"
  shows "rt_find_from rs k (rt_name (rs ! i)) = k + i"
  using assms
proof (induction rs arbitrary: i k)
  case (Cons r rs)
  show ?case
  proof (cases i)
    case (Suc j)
    then have "rt_name (rs ! j) \<in> set (map rt_name rs)" using Cons.prems(2) by simp
    then have "rt_name r \<noteq> rt_name (rs ! j)" using Cons.prems(1) by auto
    then show ?thesis using Cons.IH [of j "k + 1"] Cons.prems Suc by simp
  qed simp
qed simp

lemma rt_names_distinct: "distinct (map rt_name limba_rts)"
  by (simp add: limba_rts_def)

section \<open>What the table promises\<close>

text \<open>
  The parser of signatures reads every entry of the run-time table, and what it reads is what the
  text says: writing the signature out again gives the text of the table.
\<close>

theorem rt_table_parses:
  assumes "rt < LIMBA_RT_COUNT"
  shows "\<exists>s. limba_rt_sig rt = Some s \<and> sig_text s = rt_sig (limba_rts ! rt) \<and> length (sg_params s) \<le> LIMBA_RT_MAXPARAMS"
proof -
  have "length rt_sigs = 105" by (simp add: rt_sigs_def)
  then have "rt_sigs ! rt \<in> set rt_sigs" using assms by simp
  then show ?thesis using rt_table_sigs [OF assms] rt_sigs_wf by blast
qed

theorem rt_table_parses_witness: "\<exists>s. limba_rt_sig 3 = Some s \<and> sig_text s = ''() -> void''"
  using rt_table_parses [of 3] by (auto simp: limba_rts_def)

text \<open>
  Every name of the run-time table is found at its own number, and a name that is not in the table is
  not found.
\<close>

theorem rt_find_exact:
  "limba_rt_find name = (if name \<in> set (map rt_name limba_rts)
     then (THE i. i < length limba_rts \<and> rt_name (limba_rts ! i) = name) else LIMBA_NONE)"
proof (cases "name \<in> set (map rt_name limba_rts)")
  case True
  then obtain i where i: "i < length limba_rts" "rt_name (limba_rts ! i) = name"
    by (metis in_set_conv_nth length_map nth_map)
  have "(THE i. i < length limba_rts \<and> rt_name (limba_rts ! i) = name) = i"
    using i rt_names_distinct by (intro the_equality) (auto simp: distinct_conv_nth)
  then show ?thesis
    using rt_find_from_distinct [OF rt_names_distinct i(1), of 0] i True by (simp add: limba_rt_find_def)
next
  case False
  have "name \<notin> set (map rt_name rs) \<Longrightarrow> rt_find_from rs k name = LIMBA_NONE" for rs k
    by (induction rs arbitrary: k) auto
  then show ?thesis using False by (simp add: limba_rt_find_def)
qed

end
