(* ===== verification/Module.thy ===== *)
theory Module
  imports Runtime Strtab "HOL-Library.Monad_Syntax"
begin

text \<open>
  Building a module: \<^verbatim>\<open>src/src/ir/module.c\<close>, with \<open>limba_trap_message\<close> of
  \<^verbatim>\<open>src/src/ir/runtime.c\<close>. The result of an operation that searches or fills an index is an
  option, \<open>None\<close> being a probe of the index that never ends; the theorems show that it does not occur.

  The stamp of \<^verbatim>\<open>src/src/ir/handled.c\<close>, which every operation that changes what the set
  ``under a handler'' looks at bumps (\<open>limba_handled_touch\<close>), is a state of the process, not of a module:
  the operations that touch it take it and give it back.
\<close>

unbundle bit_operations_syntax

section \<open>The module\<close>

record limba_module =
  md_name :: limba_id
  md_memory :: limba_memory
  md_ptr_bits :: u32
  md_language :: limba_id
  md_target :: limba_id
  md_messages :: "limba_message list"
  md_strings :: limba_strtab
  md_types :: "limba_type list"
  md_members :: "limba_member list"
  md_typeidx :: limba_hash
  md_symidx :: limba_hash
  md_globals :: "limba_global list"
  md_externs :: "limba_extern list"
  md_funcs :: "limba_func list"
  md_pos :: "limba_pos list"
  md_inits :: "limba_initdata list"
  md_excs :: "limba_exception list"
  md_handled :: "bool list option"
  md_handled_stamp :: u64

type_synonym stamp = u64

definition limba_handled_touch :: "stamp \<Rightarrow> stamp" where
  "limba_handled_touch st = st + 1"

text \<open>The index as its clients use it: identifiers are natural numbers.\<close>

definition index_find :: "limba_hash \<Rightarrow> u64 \<Rightarrow> (limba_id \<Rightarrow> bool) \<Rightarrow> limba_id option" where
  "index_find h key eq = map_option unat (limba_hash_find h key (\<lambda>i. eq (unat i)))"

definition index_put :: "limba_hash \<Rightarrow> u64 \<Rightarrow> limba_id \<Rightarrow> limba_hash option" where
  "index_put h key ident = limba_hash_put h key (of_nat ident)"

section \<open>Targets and types\<close>

definition limba_target_known :: "u8 list \<Rightarrow> bool" where
  "limba_target_known s \<longleftrightarrow>
     s \<in> set (map c_bytes [''x86_64-linux'', ''aarch64-linux'', ''x86_64-windows''])"

definition limba_target_ptr_bits :: "u8 list \<Rightarrow> u32" where
  "limba_target_ptr_bits s = (if limba_target_known s then 64 else 0)"

definition limba_type_is_int :: "limba_id \<Rightarrow> bool" where
  "limba_type_is_int t \<longleftrightarrow> LIMBA_T_I1 \<le> t \<and> t \<le> LIMBA_T_I64"

definition limba_type_is_float :: "limba_id \<Rightarrow> bool" where
  "limba_type_is_float t \<longleftrightarrow> t = LIMBA_T_F32 \<or> t = LIMBA_T_F64"

definition limba_type_bits :: "limba_id \<Rightarrow> nat" where
  "limba_type_bits t =
     (if t = LIMBA_T_I1 then 1 else if t = LIMBA_T_I8 then 8 else if t = LIMBA_T_I16 then 16
      else if t = LIMBA_T_I32 then 32 else if t = LIMBA_T_I64 then 64 else 0)"

text \<open>The fields of a struct, or the parameters of a function type.\<close>

definition members_of :: "limba_module \<Rightarrow> limba_type \<Rightarrow> limba_member list" where
  "members_of m t = take (ty_count t) (drop (ty_first t) (md_members m))"

text \<open>
  The recursion of \<open>limba_type_counted\<close> goes down the elements and the fields. The fuel is one more
  than the number of types, \<open>None\<close> being a type that holds itself, on which the code does not return.
\<close>

fun any_counted :: "(limba_id \<Rightarrow> bool option) \<Rightarrow> limba_member list \<Rightarrow> bool option" where
  "any_counted counted [] = Some False"
| "any_counted counted (f # fs) =
     (case counted (mb_type f) of None \<Rightarrow> None
      | Some c \<Rightarrow> if c then Some True else any_counted counted fs)"

primrec type_counted :: "nat \<Rightarrow> limba_module \<Rightarrow> limba_id \<Rightarrow> bool option" where
  "type_counted 0 = (\<lambda>m t. None)"
| "type_counted (Suc fuel) = (\<lambda>m t.
     if t \<ge> length (md_types m) then Some False
     else let ty = md_types m ! t
       in if ty_kind ty = LIMBA_TK_STR \<or> ty_kind ty = LIMBA_TK_REF then Some True
          else if ty_kind ty = LIMBA_TK_ARRAY then type_counted fuel m (ty_elem ty)
          else if ty_kind ty = LIMBA_TK_STRUCT then any_counted (type_counted fuel m) (members_of m ty)
          else Some False)"

definition limba_type_counted :: "limba_module \<Rightarrow> limba_id \<Rightarrow> bool option" where
  "limba_type_counted m t = type_counted (Suc (length (md_types m))) m t"

definition limba_type_holds_str :: "limba_module \<Rightarrow> limba_id \<Rightarrow> bool option" where
  "limba_type_holds_str m t = limba_type_counted m t"

definition limba_module_ptr_bits :: "limba_module \<Rightarrow> u32 \<Rightarrow> limba_module" where
  "limba_module_ptr_bits m bits =
     (let m = m\<lparr>md_ptr_bits := bits\<rparr>
      in if bits \<noteq> 32 \<and> bits \<noteq> 64 then m
         else m\<lparr>md_types := fold (\<lambda>h ts. ts[h := (ts ! h)\<lparr>ty_size := bits div 8, ty_align := bits div 8\<rparr>])
             [LIMBA_T_PTR, LIMBA_T_STR, LIMBA_T_REF] (md_types m)\<rparr>)"

definition scalar_kinds :: "limba_type_kind list" where
  "scalar_kinds = [LIMBA_TK_VOID, LIMBA_TK_I1, LIMBA_TK_I8, LIMBA_TK_I16, LIMBA_TK_I32, LIMBA_TK_I64,
     LIMBA_TK_F32, LIMBA_TK_F64, LIMBA_TK_PTR, LIMBA_TK_STR, LIMBA_TK_REF]"

definition scalar_type :: "limba_id \<Rightarrow> limba_type" where
  "scalar_type t =
     (let sz = snd (scalars ! t)
      in \<lparr>ty_kind = scalar_kinds ! t, ty_variadic = False, ty_rext = 0, ty_size = sz,
          ty_align = (if sz \<noteq> 0 then sz else 1), ty_name = LIMBA_NONE, ty_elem = LIMBA_NONE,
          ty_count = 0, ty_first = 0\<rparr>)"

definition limba_module_new :: limba_module where
  "limba_module_new =
     \<lparr>md_name = LIMBA_NONE, md_memory = LIMBA_MEM_STRICT, md_ptr_bits = 64, md_language = LIMBA_NONE,
      md_target = LIMBA_NONE, md_messages = [], md_strings = limba_strtab_new,
      md_types = map scalar_type [0 ..< LIMBA_T_FIRST_USER], md_members = [],
      md_typeidx = limba_hash_new, md_symidx = limba_hash_new, md_globals = [], md_externs = [],
      md_funcs = [], md_pos = [], md_inits = [], md_excs = [], md_handled = None, md_handled_stamp = 0\<rparr>"

section \<open>Strings\<close>

definition limba_str_intern :: "limba_module \<Rightarrow> u8 list \<Rightarrow> (limba_module \<times> limba_id) option" where
  "limba_str_intern m s =
     do { (t, i) \<leftarrow> limba_strtab_intern (md_strings m) s; Some (m\<lparr>md_strings := t\<rparr>, unat i) }"

definition limba_str :: "limba_module \<Rightarrow> limba_id \<Rightarrow> u8 list" where
  "limba_str m i = limba_strtab_get (md_strings m) (of_nat i)"

definition limba_str_count :: "limba_module \<Rightarrow> nat" where
  "limba_str_count m = unat (limba_strtab_count (md_strings m))"

section \<open>Interned types\<close>

text \<open>
  A candidate type with its members (\<open>struct type_key\<close>): the members of the candidate are not yet those of
  the module.
\<close>

definition member_bytes :: "limba_member \<Rightarrow> u8 list" where
  "member_bytes f = le32 (of_nat (mb_type f)) @ le32 (mb_offset f)"

definition type_hash :: "limba_type \<Rightarrow> limba_member list \<Rightarrow> u64" where
  "type_hash t ms =
     (let h = limba_fnv [of_nat (tk_code (ty_kind t))] LIMBA_FNV_SEED
      in if ty_kind t = LIMBA_TK_STRUCT then limba_fnv (le32 (of_nat (ty_name t))) h
         else let h = limba_fnv [if ty_variadic t then 1 else 0] h;
                  h = limba_fnv [ty_rext t] h;
                  h = limba_fnv (le32 (of_nat (ty_elem t))) h;
                  h = limba_fnv (le32 (of_nat (ty_count t))) h
           in if ty_kind t = LIMBA_TK_FUNC \<and> ty_count t \<noteq> 0
              then limba_fnv (concat (map member_bytes (take (ty_count t) ms))) h else h)"

definition type_same :: "limba_module \<Rightarrow> limba_type \<Rightarrow> limba_member list \<Rightarrow> limba_id \<Rightarrow> bool" where
  "type_same m k ms i =
     (let t = md_types m ! i
      in if ty_kind t \<noteq> ty_kind k then False
         else if ty_kind t = LIMBA_TK_STRUCT then ty_name t = ty_name k
         else if ty_variadic t \<noteq> ty_variadic k \<or> ty_rext t \<noteq> ty_rext k \<or> ty_elem t \<noteq> ty_elem k \<or>
                 ty_count t \<noteq> ty_count k then False
         else if ty_kind t \<noteq> LIMBA_TK_FUNC then True
         else (\<forall>j < ty_count t. mb_type (md_members m ! (ty_first t + j)) = mb_type (ms ! j) \<and>
                 mb_offset (md_members m ! (ty_first t + j)) = mb_offset (ms ! j)))"

definition type_add :: "limba_module \<Rightarrow> limba_type \<Rightarrow> limba_member list \<Rightarrow> u64 \<Rightarrow> (limba_module \<times> limba_id) option" where
  "type_add m k ms h =
     (let i = length (md_types m);
          t = k\<lparr>ty_first := length (md_members m)\<rparr>;
          new = (if ty_kind k = LIMBA_TK_FUNC \<or> ty_kind k = LIMBA_TK_STRUCT then take (ty_count k) ms else [])
      in do {
        idx \<leftarrow> index_put (md_typeidx m) h i;
        Some (m\<lparr>md_types := md_types m @ [t], md_members := md_members m @ new, md_typeidx := idx\<rparr>, i)
      })"

text \<open>The candidate of a call, with every field the code leaves out at zero.\<close>

definition type_key :: "limba_type_kind \<Rightarrow> limba_type" where
  "type_key k = \<lparr>ty_kind = k, ty_variadic = False, ty_rext = 0, ty_size = 0, ty_align = 0, ty_name = 0,
     ty_elem = 0, ty_count = 0, ty_first = 0\<rparr>"

definition limba_type_array :: "limba_module \<Rightarrow> limba_id \<Rightarrow> nat \<Rightarrow> (limba_module \<times> limba_id) option" where
  "limba_type_array m elem count =
     (let k = (type_key LIMBA_TK_ARRAY)\<lparr>ty_name := LIMBA_NONE, ty_elem := elem, ty_count := count\<rparr>;
          h = type_hash k []
      in do {
        i \<leftarrow> index_find (md_typeidx m) h (type_same m k []);
        if i \<noteq> LIMBA_NONE then Some (m, i)
        else let e = md_types m ! elem;
                 sz = unat (ty_size e) * count
          in type_add m (k\<lparr>ty_size := (if sz > 0xffffffff then 0xffffffff else of_nat sz),
               ty_align := (if ty_align e \<noteq> 0 then ty_align e else 1)\<rparr>) [] h
      })"

definition limba_type_func_ext ::
    "limba_module \<Rightarrow> limba_id \<Rightarrow> nat \<Rightarrow> limba_id list \<Rightarrow> u8 list option \<Rightarrow> bool \<Rightarrow> (limba_module \<times> limba_id) option" where
  "limba_type_func_ext m ret rext params exts variadic =
     (let ms = map (\<lambda>j. \<lparr>mb_type = params ! j, mb_offset = (case exts of None \<Rightarrow> 0 | Some es \<Rightarrow> ucast (es ! j))\<rparr>)
            [0 ..< length params];
          k = (type_key LIMBA_TK_FUNC)\<lparr>ty_variadic := variadic, ty_rext := of_nat rext, ty_name := LIMBA_NONE,
            ty_elem := ret, ty_count := length params, ty_align := 1\<rparr>;
          h = type_hash k ms
      in do {
        i \<leftarrow> index_find (md_typeidx m) h (type_same m k ms);
        if i = LIMBA_NONE then type_add m k ms h else Some (m, i)
      })"

definition limba_type_func :: "limba_module \<Rightarrow> limba_id \<Rightarrow> limba_id list \<Rightarrow> bool \<Rightarrow> (limba_module \<times> limba_id) option" where
  "limba_type_func m ret params variadic = limba_type_func_ext m ret 0 params None variadic"

definition limba_type_struct ::
    "limba_module \<Rightarrow> limba_id \<Rightarrow> limba_member list \<Rightarrow> u32 \<Rightarrow> u32 \<Rightarrow> (limba_module \<times> limba_id) option" where
  "limba_type_struct m name flds sz align =
     (let k = (type_key LIMBA_TK_STRUCT)\<lparr>ty_name := name, ty_elem := LIMBA_NONE, ty_count := length flds,
            ty_size := sz, ty_align := align\<rparr>;
          h = type_hash k flds
      in do {
        i \<leftarrow> index_find (md_typeidx m) h (type_same m k flds);
        if i \<noteq> LIMBA_NONE then Some (m, LIMBA_NONE) else type_add m k flds h
      })"

definition limba_type_find_struct :: "limba_module \<Rightarrow> limba_id \<Rightarrow> limba_id option" where
  "limba_type_find_struct m name =
     (let k = (type_key LIMBA_TK_STRUCT)\<lparr>ty_name := name\<rparr>
      in index_find (md_typeidx m) (type_hash k []) (type_same m k []))"

section \<open>Symbols: one name space for functions, globals and externs\<close>

datatype sym_kind = SYM_FUNC | SYM_GLOBAL | SYM_EXTERN

primrec sym_code :: "sym_kind \<Rightarrow> u32" where
  "sym_code SYM_FUNC = 0"
| "sym_code SYM_GLOBAL = 1"
| "sym_code SYM_EXTERN = 2"

definition sym_hash :: "limba_id \<Rightarrow> sym_kind \<Rightarrow> u64" where
  "sym_hash name kind = limba_fnv (le32 (sym_code kind)) (limba_fnv (le32 (of_nat name)) LIMBA_FNV_SEED)"

definition sym_same :: "limba_module \<Rightarrow> limba_id \<Rightarrow> sym_kind \<Rightarrow> limba_id \<Rightarrow> bool" where
  "sym_same m name kind i =
     (case kind of
        SYM_FUNC \<Rightarrow> fn_name (md_funcs m ! i) = name
      | SYM_GLOBAL \<Rightarrow> gl_name (md_globals m ! i) = name
      | SYM_EXTERN \<Rightarrow> ex_name (md_externs m ! i) = name)"

definition sym_find :: "limba_module \<Rightarrow> limba_id \<Rightarrow> sym_kind \<Rightarrow> limba_id option" where
  "sym_find m name kind = index_find (md_symidx m) (sym_hash name kind) (sym_same m name kind)"

definition limba_func_find :: "limba_module \<Rightarrow> limba_id \<Rightarrow> limba_id option" where
  "limba_func_find m name = sym_find m name SYM_FUNC"

definition limba_global_find :: "limba_module \<Rightarrow> limba_id \<Rightarrow> limba_id option" where
  "limba_global_find m name = sym_find m name SYM_GLOBAL"

definition limba_extern_find :: "limba_module \<Rightarrow> limba_id \<Rightarrow> limba_id option" where
  "limba_extern_find m name = sym_find m name SYM_EXTERN"

definition name_taken :: "limba_module \<Rightarrow> limba_id \<Rightarrow> bool option" where
  "name_taken m name =
     do { f \<leftarrow> limba_func_find m name;
          if f \<noteq> LIMBA_NONE then Some True
          else do { g \<leftarrow> limba_global_find m name;
                    if g \<noteq> LIMBA_NONE then Some True
                    else do { e \<leftarrow> limba_extern_find m name; Some (e \<noteq> LIMBA_NONE) } } }"

definition limba_global_add :: "limba_module \<Rightarrow> limba_id \<Rightarrow> limba_id \<Rightarrow> u32 \<Rightarrow> (limba_module \<times> limba_id) option" where
  "limba_global_add m name type flags =
     do { taken \<leftarrow> name_taken m name;
          if taken then Some (m, LIMBA_NONE)
          else let i = length (md_globals m);
                   g = \<lparr>gl_name = name, gl_type = type, gl_flags = flags, gl_init = LIMBA_INIT_ZERO, gl_value = 0\<rparr>
            in do { idx \<leftarrow> index_put (md_symidx m) (sym_hash name SYM_GLOBAL) i;
                    Some (m\<lparr>md_globals := md_globals m @ [g], md_symidx := idx\<rparr>, i) } }"

definition limba_extern_add ::
    "limba_module \<Rightarrow> limba_id \<Rightarrow> limba_id \<Rightarrow> limba_id \<Rightarrow> limba_id \<Rightarrow> (limba_module \<times> limba_id) option" where
  "limba_extern_add m name type symbol library =
     do { taken \<leftarrow> name_taken m name;
          if taken then Some (m, LIMBA_NONE)
          else let i = length (md_externs m);
                   x = \<lparr>ex_name = name, ex_type = type, ex_symbol = symbol, ex_library = library\<rparr>
            in do { idx \<leftarrow> index_put (md_symidx m) (sym_hash name SYM_EXTERN) i;
                    Some (m\<lparr>md_externs := md_externs m @ [x], md_symidx := idx\<rparr>, i) } }"

definition limba_func_add ::
    "stamp \<Rightarrow> limba_module \<Rightarrow> limba_id \<Rightarrow> limba_id \<Rightarrow> u32 \<Rightarrow> (limba_module \<times> limba_id \<times> stamp) option" where
  "limba_func_add st m name type flags =
     do { taken \<leftarrow> name_taken m name;
          if taken then Some (m, LIMBA_NONE, st)
          else let i = length (md_funcs m);
                   f = \<lparr>fn_name = name, fn_type = type, fn_flags = flags, fn_locs = [], fn_pos_cur = 0,
                     fn_insts = [], fn_operands = [], fn_blocks = [], fn_slots = [], fn_sum = None\<rparr>
            in do { idx \<leftarrow> index_put (md_symidx m) (sym_hash name SYM_FUNC) i;
                    Some (m\<lparr>md_funcs := md_funcs m @ [f], md_symidx := idx\<rparr>, i, limba_handled_touch st) } }"

text \<open>The three loops that fill the index again, each from its first identifier.\<close>

fun put_names :: "limba_hash \<Rightarrow> sym_kind \<Rightarrow> limba_id list \<Rightarrow> limba_id \<Rightarrow> limba_hash option" where
  "put_names h kind [] i = Some h"
| "put_names h kind (name # names) i =
     do { h \<leftarrow> index_put h (sym_hash name kind) i; put_names h kind names (i + 1) }"

definition limba_module_truncate :: "stamp \<Rightarrow> limba_module \<Rightarrow> nat \<Rightarrow> nat \<Rightarrow> (limba_module \<times> stamp) option" where
  "limba_module_truncate st m nfuncs nexterns =
     (if nfuncs > length (md_funcs m) \<or> nexterns > length (md_externs m) then Some (m, st)
      else let m = m\<lparr>md_funcs := take nfuncs (md_funcs m), md_externs := take nexterns (md_externs m)\<rparr>
        in do {
          h \<leftarrow> put_names limba_hash_new SYM_FUNC (map fn_name (md_funcs m)) 0;
          h \<leftarrow> put_names h SYM_GLOBAL (map gl_name (md_globals m)) 0;
          h \<leftarrow> put_names h SYM_EXTERN (map ex_name (md_externs m)) 0;
          Some (m\<lparr>md_symidx := h\<rparr>, limba_handled_touch st)
        })"

section \<open>The data of a global\<close>

definition empty_data :: limba_initdata where
  "empty_data = \<lparr>id_bytes = [], id_relocs = [], id_fills = []\<rparr>"

text \<open>The index of the data of \<open>g\<close> in \<open>m->inits\<close>, made if it has none.\<close>

definition data_of :: "limba_module \<Rightarrow> limba_id \<Rightarrow> limba_module \<times> nat" where
  "data_of m g =
     (let gl = md_globals m ! g
      in if gl_init gl \<noteq> LIMBA_INIT_DATA \<or> unat (gl_value gl) \<ge> length (md_inits m)
         then (m\<lparr>md_globals := (md_globals m)[g := gl\<lparr>gl_init := LIMBA_INIT_DATA, gl_value := of_nat (length (md_inits m))\<rparr>],
                 md_inits := md_inits m @ [empty_data]\<rparr>, length (md_inits m))
         else (m, unat (gl_value gl)))"

definition limba_global_set_data :: "limba_module \<Rightarrow> limba_id \<Rightarrow> u8 list \<Rightarrow> limba_module" where
  "limba_global_set_data m g bytes =
     (let (m, d) = data_of m g
      in m\<lparr>md_inits := (md_inits m)[d := empty_data\<lparr>id_bytes := rev (dropWhile (\<lambda>b. b = 0) (rev bytes))\<rparr>]\<rparr>)"

definition limba_global_add_fill :: "limba_module \<Rightarrow> limba_id \<Rightarrow> u32 \<Rightarrow> u8 list \<Rightarrow> u32 \<Rightarrow> limba_module" where
  "limba_global_add_fill m g offset bytes count =
     (let (m, d) = data_of m g; i = md_inits m ! d
      in m\<lparr>md_inits := (md_inits m)[d := i\<lparr>id_fills := id_fills i @ [\<lparr>fl_offset = offset, fl_count = count, fl_bytes = bytes\<rparr>]\<rparr>]\<rparr>)"

definition limba_global_add_reloc ::
    "stamp \<Rightarrow> limba_module \<Rightarrow> limba_id \<Rightarrow> u32 \<Rightarrow> limba_reloc_kind \<Rightarrow> limba_id \<Rightarrow> u64 \<Rightarrow> limba_module \<times> stamp" where
  "limba_global_add_reloc st m g offset kind ident addend =
     (let (m, d) = data_of m g; i = md_inits m ! d
      in (m\<lparr>md_inits := (md_inits m)[d := i\<lparr>id_relocs := id_relocs i @ [\<lparr>rl_offset = offset, rl_kind = kind, rl_id = ident, rl_addend = addend\<rparr>]\<rparr>]\<rparr>,
          if kind = LIMBA_RELOC_FUNC then limba_handled_touch st else st))"

definition limba_global_data :: "limba_module \<Rightarrow> limba_id \<Rightarrow> limba_initdata option" where
  "limba_global_data m g =
     (let gl = md_globals m ! g
      in if gl_init gl = LIMBA_INIT_DATA \<and> unat (gl_value gl) < length (md_inits m)
         then Some (md_inits m ! unat (gl_value gl)) else None)"

section \<open>Inside a function\<close>

definition limba_block_add :: "limba_func \<Rightarrow> limba_func \<times> limba_id" where
  "limba_block_add f =
     (f\<lparr>fn_blocks := fn_blocks f @ [\<lparr>bl_insts = [], bl_nparams = 0, bl_handler = 0\<rparr>]\<rparr>, length (fn_blocks f))"

definition limba_block_handler :: "limba_func \<Rightarrow> limba_id \<Rightarrow> limba_id" where
  "limba_block_handler f b =
     (if b < length (fn_blocks f) \<and> bl_handler (fn_blocks f ! b) \<noteq> 0 then bl_handler (fn_blocks f ! b) - 1
      else LIMBA_NONE)"

definition limba_block_set_handler :: "stamp \<Rightarrow> limba_func \<Rightarrow> limba_id \<Rightarrow> limba_id \<Rightarrow> limba_func \<times> stamp" where
  "limba_block_set_handler st f b h =
     (f\<lparr>fn_blocks := (fn_blocks f)[b := (fn_blocks f ! b)\<lparr>bl_handler := (if h = LIMBA_NONE then 0 else h + 1)\<rparr>]\<rparr>,
      limba_handled_touch st)"

definition limba_slot_add_typed :: "limba_func \<Rightarrow> u32 \<Rightarrow> u32 \<Rightarrow> limba_id \<Rightarrow> limba_func \<times> limba_id" where
  "limba_slot_add_typed f sz align t =
     (f\<lparr>fn_slots := fn_slots f @ [\<lparr>sl_size = sz, sl_align = align, sl_type = t\<rparr>]\<rparr>, length (fn_slots f))"

definition limba_slot_add :: "limba_func \<Rightarrow> u32 \<Rightarrow> u32 \<Rightarrow> limba_func \<times> limba_id" where
  "limba_slot_add f sz align = limba_slot_add_typed f sz align LIMBA_NONE"

text \<open>The positions are extended with zeros up to the new instruction, which gets the current one.\<close>

definition limba_inst_add ::
    "stamp \<Rightarrow> limba_func \<Rightarrow> limba_id \<Rightarrow> limba_op \<Rightarrow> limba_id \<Rightarrow> limba_cc \<Rightarrow> u64 \<Rightarrow> u64 \<Rightarrow> nat list \<Rightarrow> limba_func \<times> limba_id \<times> stamp" where
  "limba_inst_add st f b oper type cc imm imm2 ops =
     (let i = length (fn_insts f);
          locs = (if fn_locs f \<noteq> [] \<or> fn_pos_cur f \<noteq> 0
                  then fn_locs f @ replicate (i - length (fn_locs f)) 0 @ [fn_pos_cur f] else fn_locs f);
          st = (if oper = LIMBA_OP_CALL \<or> oper = LIMBA_OP_CALLIND \<or> oper = LIMBA_OP_FADDR \<or> oper = LIMBA_OP_CALLRT
                then limba_handled_touch st else st);
          x = \<lparr>in_op = oper, in_cc = cc, in_type = type, in_block = b, in_nops = length ops,
               in_first = length (fn_operands f), in_imm = imm, in_imm2 = imm2\<rparr>;
          bl = fn_blocks f ! b;
          bl = bl\<lparr>bl_insts := bl_insts bl @ [i],
                 bl_nparams := (if oper = LIMBA_OP_PARAM then bl_nparams bl + 1 else bl_nparams bl)\<rparr>
      in (f\<lparr>fn_locs := locs, fn_insts := fn_insts f @ [x], fn_operands := fn_operands f @ ops,
             fn_blocks := (fn_blocks f)[b := bl]\<rparr>, i, st))"

definition limba_param_add :: "stamp \<Rightarrow> limba_func \<Rightarrow> limba_id \<Rightarrow> limba_id \<Rightarrow> limba_func \<times> limba_id \<times> stamp" where
  "limba_param_add st f b t = limba_inst_add st f b LIMBA_OP_PARAM t LIMBA_CC_EQ 0 0 []"

definition limba_pos_add :: "limba_module \<Rightarrow> limba_id \<Rightarrow> u32 \<Rightarrow> u32 \<Rightarrow> limba_module \<times> nat" where
  "limba_pos_add m file line col =
     (let p = \<lparr>ps_file = file, ps_line = line, ps_col = col\<rparr>
      in if md_pos m \<noteq> [] \<and> last (md_pos m) = p then (m, length (md_pos m))
         else (m\<lparr>md_pos := md_pos m @ [p]\<rparr>, length (md_pos m) + 1))"

text \<open>Freeing the body of a function; the summary that \<open>limba_func_clear\<close> keeps is made in the theory of it.\<close>

definition body_free :: "limba_func \<Rightarrow> limba_func" where
  "body_free f = f\<lparr>fn_blocks := [], fn_insts := [], fn_operands := [], fn_slots := [], fn_locs := [], fn_pos_cur := 0\<rparr>"

definition limba_target :: "limba_func \<Rightarrow> nat \<Rightarrow> limba_id \<times> nat \<times> nat" where
  "limba_target f k = (fn_operands f ! k, fn_operands f ! (k + 1), k + 2)"

section \<open>Exceptions and messages\<close>

definition limba_exception_add :: "limba_module \<Rightarrow> int \<Rightarrow> limba_id \<Rightarrow> int \<Rightarrow> limba_module" where
  "limba_exception_add m ident name parent =
     m\<lparr>md_excs := md_excs m @ [\<lparr>xc_id = ident, xc_name = name, xc_parent = parent\<rparr>]\<rparr>"

definition limba_exception_name :: "limba_module \<Rightarrow> int \<Rightarrow> u8 list option" where
  "limba_exception_name m ident =
     map_option (\<lambda>x. limba_str m (xc_name x))
       (find (\<lambda>x. xc_id x = ident \<and> xc_name x < limba_str_count m) (md_excs m))"

definition limba_exception_builtin :: "int \<Rightarrow> bool" where
  "limba_exception_builtin ident \<longleftrightarrow> limba_trap_text ident \<noteq> None \<or>
     ident \<in> {LIMBA_FAMILY_CONSTRAINT, LIMBA_FAMILY_STORAGE, LIMBA_FAMILY_PROGRAM, LIMBA_FAMILY_INPUT_OUTPUT}"

definition limba_exception_catchable :: "int \<Rightarrow> bool" where
  "limba_exception_catchable ident \<longleftrightarrow>
     ident \<noteq> LIMBA_TRAP_NOMEM \<and> ident \<noteq> LIMBA_TRAP_STACK \<and> ident \<noteq> LIMBA_FAMILY_STORAGE"

definition limba_message_add :: "limba_module \<Rightarrow> int \<Rightarrow> limba_id \<Rightarrow> limba_module" where
  "limba_message_add m code txt = m\<lparr>md_messages := md_messages m @ [\<lparr>mg_code = code, mg_text = txt\<rparr>]\<rparr>"

definition limba_trap_message :: "limba_module option \<Rightarrow> int \<Rightarrow> u8 list option" where
  "limba_trap_message m code =
     (case Option.bind m (\<lambda>m. map_option (\<lambda>g. limba_str m (mg_text g)) (find (\<lambda>g. mg_code g = code) (md_messages m))) of
        Some s \<Rightarrow> Some s
      | None \<Rightarrow> map_option c_bytes (limba_trap_text code))"

section \<open>Call signatures\<close>

definition limba_type_sig :: "limba_module \<Rightarrow> limba_id \<Rightarrow> limba_sig option" where
  "limba_type_sig m t =
     (if t \<ge> length (md_types m) \<or> ty_kind (md_types m ! t) \<noteq> LIMBA_TK_FUNC then None
      else let ty = md_types m ! t
        in Some \<lparr>sg_ret = ty_elem ty, sg_params = map mb_type (members_of m ty), sg_variadic = ty_variadic ty,
             sg_mem = Some (members_of m ty)\<rparr>)"

definition limba_call_sig :: "limba_module \<Rightarrow> limba_inst \<Rightarrow> limba_sig option" where
  "limba_call_sig m i =
     (let ident = unat (in_imm i)
      in if in_op i = LIMBA_OP_CALL then
           (if ident < length (md_funcs m) then limba_type_sig m (fn_type (md_funcs m ! ident)) else None)
         else if in_op i = LIMBA_OP_CALLEXT then
           (if ident < length (md_externs m) then limba_type_sig m (ex_type (md_externs m ! ident)) else None)
         else if in_op i = LIMBA_OP_CALLIND then
           (if ident < length (md_types m) then limba_type_sig m ident else None)
         else if in_op i = LIMBA_OP_CALLRT then
           limba_rt_sig (if ident < LIMBA_RT_COUNT then ident else LIMBA_NONE)
         else None)"

section \<open>The index over natural numbers\<close>

definition nat_entries :: "limba_hash \<Rightarrow> (u64 \<times> limba_id) set" where
  "nat_entries h = (\<lambda>(k, v). (k, unat v)) ` hash_entries h"

lemma nat_entries_new [simp]: "nat_entries limba_hash_new = {}"
  by (simp add: nat_entries_def hash_ok_new)

lemma index_put_ok:
  assumes "hash_ok h" "v < 2 ^ 30" "unat (hcount h) < 2 ^ 30"
  shows "\<exists>h'. index_put h k v = Some h' \<and> hash_ok h' \<and> unat (hcount h') = Suc (unat (hcount h)) \<and>
    nat_entries h' = insert (k, v) (nat_entries h)"
proof -
  have v: "unat (of_nat v :: u32) = v" using assms(2) by (simp add: unat_of_nat_u32)
  then have "of_nat v \<noteq> (0xffffffff :: u32)" using assms(2) by auto
  then show ?thesis
    using idx.put_ok [OF assms(1) _ assms(3), of "of_nat v" k] v by (auto simp: index_put_def nat_entries_def)
qed

lemma index_find_ok:
  assumes "hash_ok h"
  shows "\<exists>r. index_find h k eq = Some r \<and>
    (r = LIMBA_NONE \<and> (\<forall>v. (k, v) \<in> nat_entries h \<longrightarrow> \<not> eq v) \<or>
     r \<noteq> LIMBA_NONE \<and> (k, r) \<in> nat_entries h \<and> eq r)"
proof -
  obtain r where r: "limba_hash_find h k (\<lambda>i. eq (unat i)) = Some r"
    "r = 0xffffffff \<and> (\<forall>v. (k, v) \<in> hash_entries h \<longrightarrow> \<not> eq (unat v)) \<or>
     r \<noteq> 0xffffffff \<and> (k, r) \<in> hash_entries h \<and> eq (unat r)"
    using idx.find_ok [OF assms, of k "\<lambda>i. eq (unat i)"] by blast
  have "unat r = LIMBA_NONE \<longleftrightarrow> r = 0xffffffff"
  proof
    assume "unat r = LIMBA_NONE"
    then have "of_nat (unat r) = (of_nat LIMBA_NONE :: u32)" by simp
    then show "r = 0xffffffff" by simp
  qed simp
  then show ?thesis
    using r by (intro exI [of _ "unat r"]) (auto simp: index_find_def nat_entries_def)
qed

section \<open>Symbols: unique names\<close>

text \<open>The names of a kind, in the order of their identifiers.\<close>

primrec sym_names :: "limba_module \<Rightarrow> sym_kind \<Rightarrow> limba_id list" where
  "sym_names m SYM_FUNC = map fn_name (md_funcs m)"
| "sym_names m SYM_GLOBAL = map gl_name (md_globals m)"
| "sym_names m SYM_EXTERN = map ex_name (md_externs m)"

text \<open>
  The keys of two different kinds never meet among a set of names: where they did, the code would read
  the table of one kind at an identifier of another.
\<close>

definition kinds_apart :: "limba_id set \<Rightarrow> bool" where
  "kinds_apart S \<longleftrightarrow> (\<forall>a \<in> S. \<forall>b \<in> S. \<forall>k l. sym_hash a k = sym_hash b l \<longrightarrow> k = l)"

definition sym_count :: "limba_module \<Rightarrow> nat" where
  "sym_count m = length (md_funcs m) + length (md_globals m) + length (md_externs m)"

definition all_names :: "limba_module \<Rightarrow> limba_id set" where
  "all_names m = (\<Union>k. set (sym_names m k))"

definition sym_entries :: "(sym_kind \<Rightarrow> limba_id list) \<Rightarrow> (u64 \<times> limba_id) set" where
  "sym_entries names = {(sym_hash (names k ! i) k, i) |k i. i < length (names k)}"

text \<open>A name stands once, in one of the three lists, and the index holds exactly the names.\<close>

definition syms_ok :: "limba_module \<Rightarrow> bool" where
  "syms_ok m \<longleftrightarrow> hash_ok (md_symidx m) \<and> unat (hcount (md_symidx m)) = sym_count m \<and>
     nat_entries (md_symidx m) = sym_entries (sym_names m) \<and>
     (\<forall>k. distinct (sym_names m k)) \<and>
     (\<forall>k l. k \<noteq> l \<longrightarrow> set (sym_names m k) \<inter> set (sym_names m l) = {})"

lemma all_kinds: "(\<forall>k. P k) \<longleftrightarrow> P SYM_FUNC \<and> P SYM_GLOBAL \<and> P SYM_EXTERN"
  by (metis sym_kind.exhaust)

lemma ex_kinds: "(\<exists>k. P k) \<longleftrightarrow> P SYM_FUNC \<or> P SYM_GLOBAL \<or> P SYM_EXTERN"
  by (metis sym_kind.exhaust)

lemma sym_names_length: "length (sym_names m k) \<le> sym_count m"
  by (cases k) (simp_all add: sym_count_def)

lemma sym_same_names: "i < length (sym_names m k) \<Longrightarrow> sym_same m name k i \<longleftrightarrow> sym_names m k ! i = name"
  by (cases k) (simp_all add: sym_same_def)

lemma all_names_kinds: "all_names m = set (sym_names m SYM_FUNC) \<union> set (sym_names m SYM_GLOBAL) \<union> set (sym_names m SYM_EXTERN)"
  unfolding all_names_def by (auto simp del: sym_names.simps) (metis sym_kind.exhaust)

lemma syms_ok_new: "syms_ok limba_module_new"
  by (simp add: syms_ok_def limba_module_new_def hash_ok_new sym_count_def sym_entries_def all_kinds ex_kinds)

text \<open>A name is found exactly at its place in the list of its kind.\<close>

lemma sym_find_spec:
  assumes ok: "syms_ok m" and apart: "kinds_apart (insert name (all_names m))" and few: "sym_count m < 2 ^ 30"
  shows "\<exists>r. sym_find m name k = Some r \<and>
    (if name \<in> set (sym_names m k) then r < length (sym_names m k) \<and> sym_names m k ! r = name else r = LIMBA_NONE)"
proof -
  have e: "nat_entries (md_symidx m) = sym_entries (sym_names m)" and h: "hash_ok (md_symidx m)"
    using ok by (simp_all add: syms_ok_def)
  have here: "i < length (sym_names m k) \<and> sym_same m name k i = (sym_names m k ! i = name)"
    if entry: "(sym_hash name k, i) \<in> nat_entries (md_symidx m)" for i
  proof -
    obtain l where l: "i < length (sym_names m l)" "sym_hash name k = sym_hash (sym_names m l ! i) l"
      using entry unfolding e sym_entries_def by blast
    have "sym_names m l ! i \<in> all_names m" unfolding all_names_def using nth_mem [OF l(1)] by blast
    then have "l = k" using apart l(2) unfolding kinds_apart_def by blast
    then show ?thesis using l(1) sym_same_names by blast
  qed
  obtain r where r: "sym_find m name k = Some r"
    "r = LIMBA_NONE \<and> (\<forall>v. (sym_hash name k, v) \<in> nat_entries (md_symidx m) \<longrightarrow> \<not> sym_same m name k v) \<or>
     r \<noteq> LIMBA_NONE \<and> (sym_hash name k, r) \<in> nat_entries (md_symidx m) \<and> sym_same m name k r"
    using index_find_ok [OF h, of "sym_hash name k" "sym_same m name k"] by (auto simp: sym_find_def)
  show ?thesis
  proof (cases "name \<in> set (sym_names m k)")
    case True
    then obtain i where i: "i < length (sym_names m k)" "sym_names m k ! i = name" by (metis in_set_conv_nth)
    then have "(sym_hash name k, i) \<in> nat_entries (md_symidx m)" unfolding e sym_entries_def by blast
    then have "r \<noteq> LIMBA_NONE" "(sym_hash name k, r) \<in> nat_entries (md_symidx m)" "sym_same m name k r"
      using r(2) here [of i] i by auto
    then show ?thesis using r(1) here [of r] True by auto
  next
    case False
    have "r = LIMBA_NONE"
    proof (rule ccontr)
      assume "r \<noteq> LIMBA_NONE"
      then have "(sym_hash name k, r) \<in> nat_entries (md_symidx m)" "sym_same m name k r" using r(2) by auto
      then have "r < length (sym_names m k)" "sym_names m k ! r = name" using here by auto
      then show False using False by auto
    qed
    then show ?thesis using r(1) False by simp
  qed
qed

lemma name_taken_spec:
  assumes "syms_ok m" "kinds_apart (insert name (all_names m))" "sym_count m < 2 ^ 30"
  shows "name_taken m name = Some (name \<in> all_names m)"
proof -
  note f = sym_find_spec [OF assms]
  have len: "length (sym_names m k) < LIMBA_NONE" for k
    using sym_names_length [of m k] assms(3) by simp
  have g: "\<exists>r. sym_find m name k = Some r \<and> (r \<noteq> LIMBA_NONE \<longleftrightarrow> name \<in> set (sym_names m k))" for k
    using f [of k] len [of k] by (auto split: if_splits)
  obtain a where a: "sym_find m name SYM_FUNC = Some a" "a \<noteq> LIMBA_NONE \<longleftrightarrow> name \<in> set (sym_names m SYM_FUNC)"
    using g by blast
  obtain b where b: "sym_find m name SYM_GLOBAL = Some b" "b \<noteq> LIMBA_NONE \<longleftrightarrow> name \<in> set (sym_names m SYM_GLOBAL)"
    using g by blast
  obtain c where c: "sym_find m name SYM_EXTERN = Some c" "c \<noteq> LIMBA_NONE \<longleftrightarrow> name \<in> set (sym_names m SYM_EXTERN)"
    using g by blast
  have "name \<in> all_names m \<longleftrightarrow> a \<noteq> LIMBA_NONE \<or> b \<noteq> LIMBA_NONE \<or> c \<noteq> LIMBA_NONE"
    unfolding a(2) b(2) c(2) all_names_def UN_iff ex_kinds [of "\<lambda>k. name \<in> set (sym_names m k)", symmetric] by blast
  then show ?thesis
    using a(1) b(1) c(1)
    by (simp add: name_taken_def limba_func_find_def limba_global_find_def limba_extern_find_def)
qed

text \<open>Adding a name to a kind, and to the index under the next identifier.\<close>

lemma sym_entries_snoc:
  assumes "\<And>l. names' l = (if l = k then names k @ [name] else names l)"
  shows "sym_entries names' = insert (sym_hash name k, length (names k)) (sym_entries names)"
  unfolding sym_entries_def by (auto simp: assms nth_append less_Suc_eq split: if_splits) fastforce+

lemma syms_ok_snoc:
  assumes ok: "syms_ok m" and new: "name \<notin> all_names m" and few: "sym_count m < 2 ^ 30"
    and idx: "index_put (md_symidx m) (sym_hash name k) (length (sym_names m k)) = Some h"
    and m': "md_symidx m' = h" "\<And>l. sym_names m' l = (if l = k then sym_names m k @ [name] else sym_names m l)"
  shows "syms_ok m'"
proof -
  have few': "length (sym_names m k) < 2 ^ 30" "unat (hcount (md_symidx m)) < 2 ^ 30"
    using sym_names_length [of m k] few ok by (simp_all add: syms_ok_def)
  have h: "hash_ok h" "unat (hcount h) = Suc (sym_count m)"
      "nat_entries h = insert (sym_hash name k, length (sym_names m k)) (nat_entries (md_symidx m))"
    using index_put_ok [OF _ few', of "sym_hash name k"] ok idx by (auto simp: syms_ok_def)
  have c: "sym_count n = length (sym_names n SYM_FUNC) + length (sym_names n SYM_GLOBAL) + length (sym_names n SYM_EXTERN)" for n
    by (simp add: sym_count_def)
  have "sym_count m' = Suc (sym_count m)" unfolding c m'(2) by (cases k) simp_all
  moreover have "nat_entries (md_symidx m') = sym_entries (sym_names m')"
    unfolding m'(1) h(3) sym_entries_snoc [OF m'(2)] using ok by (simp add: syms_ok_def)
  moreover have "distinct (sym_names m' l)" for l
    using ok new unfolding m'(2) by (auto simp: syms_ok_def all_names_def)
  moreover have "set (sym_names m' a) \<inter> set (sym_names m' b) = {}" if "a \<noteq> b" for a b
    using ok new that unfolding m'(2) by (auto simp: syms_ok_def all_names_def)
  ultimately show ?thesis using h m'(1) by (simp add: syms_ok_def)
qed

text \<open>What adding a symbol of a kind under a free or a taken name does, the three operations alike.\<close>

definition sym_added :: "limba_module \<Rightarrow> sym_kind \<Rightarrow> limba_id \<Rightarrow> limba_module \<Rightarrow> limba_id \<Rightarrow> bool" where
  "sym_added m k name m' i \<longleftrightarrow> syms_ok m' \<and>
     (if name \<in> all_names m then m' = m \<and> i = LIMBA_NONE
      else i = length (sym_names m k) \<and>
        (\<forall>l. sym_names m' l = (if l = k then sym_names m k @ [name] else sym_names m l)))"

lemma index_put_sym:
  assumes "syms_ok m" "sym_count m < 2 ^ 30"
  shows "\<exists>h. index_put (md_symidx m) (sym_hash name k) (length (sym_names m k)) = Some h"
proof -
  have "hash_ok (md_symidx m)" "length (sym_names m k) < 2 ^ 30" "unat (hcount (md_symidx m)) < 2 ^ 30"
    using assms sym_names_length [of m k] by (simp_all add: syms_ok_def)
  then show ?thesis using index_put_ok by blast
qed

lemma func_add_syms:
  assumes ok: "syms_ok m" "kinds_apart (insert name (all_names m))" "sym_count m < 2 ^ 30"
  shows "\<exists>m' i st'. limba_func_add st m name type flags = Some (m', i, st') \<and> sym_added m SYM_FUNC name m' i"
proof (cases "name \<in> all_names m")
  case True
  then show ?thesis using name_taken_spec [OF ok] ok(1) by (simp add: limba_func_add_def sym_added_def)
next
  case False
  obtain h where h: "index_put (md_symidx m) (sym_hash name SYM_FUNC) (length (sym_names m SYM_FUNC)) = Some h"
    using index_put_sym [OF ok(1,3)] by blast
  let ?f = "\<lparr>fn_name = name, fn_type = type, fn_flags = flags, fn_locs = [], fn_pos_cur = 0,
    fn_insts = [], fn_operands = [], fn_blocks = [], fn_slots = [], fn_sum = None\<rparr>"
  let ?m = "m\<lparr>md_funcs := md_funcs m @ [?f], md_symidx := h\<rparr>"
  have n: "sym_names ?m l = (if l = SYM_FUNC then sym_names m SYM_FUNC @ [name] else sym_names m l)" for l
    by (cases l) simp_all
  have "syms_ok ?m" by (rule syms_ok_snoc [OF ok(1) False ok(3) h _ n]) simp
  moreover have "limba_func_add st m name type flags = Some (?m, length (md_funcs m), limba_handled_touch st)"
    using name_taken_spec [OF ok] False h by (simp add: limba_func_add_def Let_def)
  ultimately show ?thesis using n False by (fastforce simp: sym_added_def)
qed

lemma global_add_syms:
  assumes ok: "syms_ok m" "kinds_apart (insert name (all_names m))" "sym_count m < 2 ^ 30"
  shows "\<exists>m' i. limba_global_add m name type flags = Some (m', i) \<and> sym_added m SYM_GLOBAL name m' i"
proof (cases "name \<in> all_names m")
  case True
  then show ?thesis using name_taken_spec [OF ok] ok(1) by (simp add: limba_global_add_def sym_added_def)
next
  case False
  obtain h where h: "index_put (md_symidx m) (sym_hash name SYM_GLOBAL) (length (sym_names m SYM_GLOBAL)) = Some h"
    using index_put_sym [OF ok(1,3)] by blast
  let ?g = "\<lparr>gl_name = name, gl_type = type, gl_flags = flags, gl_init = LIMBA_INIT_ZERO, gl_value = 0\<rparr>"
  let ?m = "m\<lparr>md_globals := md_globals m @ [?g], md_symidx := h\<rparr>"
  have n: "sym_names ?m l = (if l = SYM_GLOBAL then sym_names m SYM_GLOBAL @ [name] else sym_names m l)" for l
    by (cases l) simp_all
  have "syms_ok ?m" by (rule syms_ok_snoc [OF ok(1) False ok(3) h _ n]) simp
  moreover have "limba_global_add m name type flags = Some (?m, length (md_globals m))"
    using name_taken_spec [OF ok] False h by (simp add: limba_global_add_def Let_def)
  ultimately show ?thesis using n False by (fastforce simp: sym_added_def)
qed

lemma extern_add_syms:
  assumes ok: "syms_ok m" "kinds_apart (insert name (all_names m))" "sym_count m < 2 ^ 30"
  shows "\<exists>m' i. limba_extern_add m name type symbol library = Some (m', i) \<and> sym_added m SYM_EXTERN name m' i"
proof (cases "name \<in> all_names m")
  case True
  then show ?thesis using name_taken_spec [OF ok] ok(1) by (simp add: limba_extern_add_def sym_added_def)
next
  case False
  obtain h where h: "index_put (md_symidx m) (sym_hash name SYM_EXTERN) (length (sym_names m SYM_EXTERN)) = Some h"
    using index_put_sym [OF ok(1,3)] by blast
  let ?x = "\<lparr>ex_name = name, ex_type = type, ex_symbol = symbol, ex_library = library\<rparr>"
  let ?m = "m\<lparr>md_externs := md_externs m @ [?x], md_symidx := h\<rparr>"
  have n: "sym_names ?m l = (if l = SYM_EXTERN then sym_names m SYM_EXTERN @ [name] else sym_names m l)" for l
    by (cases l) simp_all
  have "syms_ok ?m" by (rule syms_ok_snoc [OF ok(1) False ok(3) h _ n]) simp
  moreover have "limba_extern_add m name type symbol library = Some (?m, length (md_externs m))"
    using name_taken_spec [OF ok] False h by (simp add: limba_extern_add_def Let_def)
  ultimately show ?thesis using n False by (fastforce simp: sym_added_def)
qed

text \<open>Filling the index again with the names of one kind.\<close>

lemma put_names_spec:
  assumes "hash_ok h" "unat (hcount h) + length names \<le> 2 ^ 30" "i + length names \<le> 2 ^ 30"
  shows "\<exists>h'. put_names h k names i = Some h' \<and> hash_ok h' \<and>
    unat (hcount h') = unat (hcount h) + length names \<and>
    nat_entries h' = nat_entries h \<union> {(sym_hash (names ! j) k, i + j) |j. j < length names}"
  using assms
proof (induction names arbitrary: h i)
  case (Cons name names)
  obtain h1 where h1: "index_put h (sym_hash name k) i = Some h1" "hash_ok h1" "unat (hcount h1) = Suc (unat (hcount h))"
      "nat_entries h1 = insert (sym_hash name k, i) (nat_entries h)"
    using index_put_ok [of h i "sym_hash name k"] Cons.prems by auto
  obtain h' where h': "put_names h1 k names (Suc i) = Some h'" "hash_ok h'"
      "unat (hcount h') = unat (hcount h1) + length names"
      "nat_entries h' = nat_entries h1 \<union> {(sym_hash (names ! j) k, Suc i + j) |j. j < length names}"
    using Cons.IH [OF h1(2), of "Suc i"] Cons.prems h1(3) by auto
  have "{(sym_hash ((name # names) ! j) k, i + j) |j. j < length (name # names)} =
      insert (sym_hash name k, i) {(sym_hash (names ! j) k, Suc i + j) |j. j < length names}"
    by (auto simp: less_Suc_eq_0_disj)
  then show ?case using h1 h' by simp
qed simp

lemma sym_entries_kinds:
  "sym_entries names = {(sym_hash (names SYM_FUNC ! j) SYM_FUNC, j) |j. j < length (names SYM_FUNC)} \<union>
     {(sym_hash (names SYM_GLOBAL ! j) SYM_GLOBAL, j) |j. j < length (names SYM_GLOBAL)} \<union>
     {(sym_hash (names SYM_EXTERN ! j) SYM_EXTERN, j) |j. j < length (names SYM_EXTERN)}"
  unfolding sym_entries_def ex_kinds by blast

text \<open>Truncating keeps the first functions and externs, and the names of what is left.\<close>

lemma truncate_syms:
  assumes ok: "syms_ok m" "sym_count m \<le> 2 ^ 30" and n: "nf \<le> length (md_funcs m)" "ne \<le> length (md_externs m)"
  shows "\<exists>m'. limba_module_truncate st m nf ne = Some (m', limba_handled_touch st) \<and> syms_ok m' \<and>
    md_funcs m' = take nf (md_funcs m) \<and> md_externs m' = take ne (md_externs m) \<and> md_globals m' = md_globals m"
proof -
  let ?m = "m\<lparr>md_funcs := take nf (md_funcs m), md_externs := take ne (md_externs m)\<rparr>"
  have c: "nf + length (md_globals m) + ne \<le> 2 ^ 30"
    using ok(2) n by (simp add: sym_count_def)
  obtain h1 where h1: "put_names limba_hash_new SYM_FUNC (sym_names ?m SYM_FUNC) 0 = Some h1" "hash_ok h1"
      "unat (hcount h1) = nf"
      "nat_entries h1 = {(sym_hash (sym_names ?m SYM_FUNC ! j) SYM_FUNC, j) |j. j < length (sym_names ?m SYM_FUNC)}"
    using put_names_spec [of limba_hash_new "sym_names ?m SYM_FUNC" 0 SYM_FUNC] c n by (auto simp: hash_ok_new)
  obtain h2 where h2: "put_names h1 SYM_GLOBAL (sym_names ?m SYM_GLOBAL) 0 = Some h2" "hash_ok h2"
      "unat (hcount h2) = nf + length (md_globals m)"
      "nat_entries h2 = nat_entries h1 \<union>
        {(sym_hash (sym_names ?m SYM_GLOBAL ! j) SYM_GLOBAL, j) |j. j < length (sym_names ?m SYM_GLOBAL)}"
    using put_names_spec [OF h1(2), of "sym_names ?m SYM_GLOBAL" 0 SYM_GLOBAL] c n h1(3) by auto
  obtain h3 where h3: "put_names h2 SYM_EXTERN (sym_names ?m SYM_EXTERN) 0 = Some h3" "hash_ok h3"
      "unat (hcount h3) = nf + length (md_globals m) + ne"
      "nat_entries h3 = nat_entries h2 \<union>
        {(sym_hash (sym_names ?m SYM_EXTERN ! j) SYM_EXTERN, j) |j. j < length (sym_names ?m SYM_EXTERN)}"
    using put_names_spec [OF h2(2), of "sym_names ?m SYM_EXTERN" 0 SYM_EXTERN] c n h2(3) by auto
  let ?r = "?m\<lparr>md_symidx := h3\<rparr>"
  have names: "sym_names ?r = sym_names ?m" by (rule ext, case_tac x) simp_all
  have "nat_entries h3 = sym_entries (sym_names ?m)"
    unfolding h3(4) h2(4) h1(4) sym_entries_kinds by blast
  moreover have "sym_names ?m SYM_FUNC = take nf (sym_names m SYM_FUNC)" "sym_names ?m SYM_GLOBAL = sym_names m SYM_GLOBAL"
      "sym_names ?m SYM_EXTERN = take ne (sym_names m SYM_EXTERN)"
    by (simp_all add: take_map)
  then have "set (sym_names ?m k) \<subseteq> set (sym_names m k)" "distinct (sym_names m k) \<Longrightarrow> distinct (sym_names ?m k)" for k
    by (cases k; simp add: set_take_subset del: sym_names.simps)+
  then have "\<forall>k. distinct (sym_names ?m k)" "\<forall>k l. k \<noteq> l \<longrightarrow> set (sym_names ?m k) \<inter> set (sym_names ?m l) = {}"
    using ok(1) unfolding syms_ok_def by blast+
  ultimately have "syms_ok ?r"
    using h3(2,3) n unfolding syms_ok_def names by (simp add: sym_count_def)
  moreover have "limba_module_truncate st m nf ne = Some (?r, limba_handled_touch st)"
    using h1(1) h2(1) h3(1) n by (simp add: limba_module_truncate_def Let_def)
  ultimately show ?thesis by (intro exI [of _ ?r]) simp
qed

section \<open>Types: interning\<close>

text \<open>
  What makes two types the same: the name of a struct, the element and the count of an array, the whole
  signature of a function type.
\<close>

type_synonym type_desc = "limba_type_kind \<times> limba_id \<times> bool \<times> u8 \<times> limba_id \<times> nat \<times> limba_member list"

definition desc :: "limba_type \<Rightarrow> limba_member list \<Rightarrow> type_desc" where
  "desc t ms =
     (if ty_kind t = LIMBA_TK_STRUCT then (LIMBA_TK_STRUCT, ty_name t, False, 0, 0, 0, [])
      else (ty_kind t, 0, ty_variadic t, ty_rext t, ty_elem t, ty_count t,
        if ty_kind t = LIMBA_TK_FUNC then take (ty_count t) ms else []))"

definition desc_of :: "limba_module \<Rightarrow> limba_id \<Rightarrow> type_desc" where
  "desc_of m i = desc (md_types m ! i) (members_of m (md_types m ! i))"

abbreviation (input) user_kinds :: "limba_type_kind set" where
  "user_kinds \<equiv> {LIMBA_TK_STRUCT, LIMBA_TK_ARRAY, LIMBA_TK_FUNC}"

abbreviation (input) user_types :: "limba_module \<Rightarrow> limba_id set" where
  "user_types m \<equiv> {LIMBA_T_FIRST_USER ..< length (md_types m)}"

definition has_members :: "limba_type \<Rightarrow> bool" where
  "has_members t \<longleftrightarrow> ty_kind t = LIMBA_TK_FUNC \<or> ty_kind t = LIMBA_TK_STRUCT"

text \<open>
  The index holds every type but the scalar ones, under the hash of its description; two identifiers
  never have the same description.
\<close>

definition types_ok :: "limba_module \<Rightarrow> bool" where
  "types_ok m \<longleftrightarrow> LIMBA_T_FIRST_USER \<le> length (md_types m) \<and> hash_ok (md_typeidx m) \<and>
     unat (hcount (md_typeidx m)) + LIMBA_T_FIRST_USER = length (md_types m) \<and>
     nat_entries (md_typeidx m) =
       (\<lambda>i. (type_hash (md_types m ! i) (members_of m (md_types m ! i)), i)) ` user_types m \<and>
     inj_on (desc_of m) (user_types m) \<and>
     (\<forall>i < LIMBA_T_FIRST_USER. ty_kind (md_types m ! i) = scalar_kinds ! i) \<and>
     (\<forall>i \<in> user_types m. ty_kind (md_types m ! i) \<in> user_kinds \<and>
        (has_members (md_types m ! i) \<longrightarrow>
          ty_first (md_types m ! i) + ty_count (md_types m ! i) \<le> length (md_members m)))"

lemma type_hash_desc:
  assumes "desc t ms = desc u us" shows "type_hash t ms = type_hash u us"
  using assms by (auto simp: desc_def type_hash_def Let_def split: if_splits)

lemma take_eq_nth:
  assumes "n \<le> length xs" "n \<le> length ys"
  shows "take n xs = take n ys \<longleftrightarrow> (\<forall>j < n. xs ! j = ys ! j)"
  using assms by (auto simp: list_eq_iff_nth_eq)

lemma member_eq: "(a :: limba_member) = b \<longleftrightarrow> mb_type a = mb_type b \<and> mb_offset a = mb_offset b"
  by (auto intro: limba_member.equality)

lemma type_same_desc:
  assumes ok: "types_ok m" and i: "i \<in> user_types m" and ms: "ty_kind k = LIMBA_TK_FUNC \<longrightarrow> ty_count k \<le> length ms"
  shows "type_same m k ms i \<longleftrightarrow> desc_of m i = desc k ms"
proof -
  let ?t = "md_types m ! i"
  have room: "has_members ?t \<Longrightarrow> ty_first ?t + ty_count ?t \<le> length (md_members m)"
    using ok i by (simp add: types_ok_def)
  have "(\<forall>j < ty_count ?t. mb_type (md_members m ! (ty_first ?t + j)) = mb_type (ms ! j) \<and>
          mb_offset (md_members m ! (ty_first ?t + j)) = mb_offset (ms ! j)) \<longleftrightarrow>
        members_of m ?t = take (ty_count ?t) ms"
    if "ty_kind ?t = LIMBA_TK_FUNC" "ty_count ?t = ty_count k" "ty_kind k = LIMBA_TK_FUNC"
  proof -
    have le: "ty_first ?t + ty_count ?t \<le> length (md_members m)" "ty_count ?t \<le> length ms"
      using room ms that by (simp_all add: has_members_def)
    then have "members_of m ?t = take (ty_count ?t) ms \<longleftrightarrow>
        (\<forall>j < ty_count ?t. md_members m ! (ty_first ?t + j) = ms ! j)"
      unfolding members_of_def by (subst take_eq_nth) simp_all
    then show ?thesis by (auto simp: member_eq)
  qed
  then show ?thesis
    by (auto simp: type_same_def desc_of_def desc_def Let_def members_of_def)
qed

text \<open>A type is found by its description.\<close>

lemma type_find_spec:
  assumes ok: "types_ok m" and few: "length (md_types m) \<le> 2 ^ 30"
    and ms: "ty_kind k = LIMBA_TK_FUNC \<longrightarrow> ty_count k \<le> length ms"
  shows "\<exists>r. index_find (md_typeidx m) (type_hash k ms) (type_same m k ms) = Some r \<and>
    (if desc k ms \<in> desc_of m ` user_types m then r \<in> user_types m \<and> desc_of m r = desc k ms else r = LIMBA_NONE)"
proof -
  have h: "hash_ok (md_typeidx m)" using ok by (simp add: types_ok_def)
  have e: "nat_entries (md_typeidx m) = (\<lambda>i. (type_hash (md_types m ! i) (members_of m (md_types m ! i)), i)) ` user_types m"
    using ok by (simp add: types_ok_def)
  obtain r where r: "index_find (md_typeidx m) (type_hash k ms) (type_same m k ms) = Some r"
    "r = LIMBA_NONE \<and> (\<forall>v. (type_hash k ms, v) \<in> nat_entries (md_typeidx m) \<longrightarrow> \<not> type_same m k ms v) \<or>
     r \<noteq> LIMBA_NONE \<and> (type_hash k ms, r) \<in> nat_entries (md_typeidx m) \<and> type_same m k ms r"
    using index_find_ok [OF h, of "type_hash k ms" "type_same m k ms"] by blast
  show ?thesis
  proof (cases "desc k ms \<in> desc_of m ` user_types m")
    case True
    then obtain i where i: "i \<in> user_types m" "desc_of m i = desc k ms" by force
    then have "type_hash k ms = type_hash (md_types m ! i) (members_of m (md_types m ! i))"
      by (intro type_hash_desc) (simp add: desc_of_def)
    then have "(type_hash k ms, i) \<in> nat_entries (md_typeidx m)" unfolding e using i(1) by blast
    then have "(type_hash k ms, r) \<in> nat_entries (md_typeidx m)" "type_same m k ms r"
      using r(2) type_same_desc [OF ok i(1) ms] i(2) by blast+
    then have "r \<in> user_types m" "desc_of m r = desc k ms"
      using type_same_desc [OF ok _ ms, of r] unfolding e by blast+
    then show ?thesis using r(1) True by simp
  next
    case False
    have "r = LIMBA_NONE"
    proof (rule ccontr)
      assume "r \<noteq> LIMBA_NONE"
      then have "(type_hash k ms, r) \<in> nat_entries (md_typeidx m)" "type_same m k ms r" using r(2) by blast+
      then have "r \<in> user_types m" "desc_of m r = desc k ms"
        using type_same_desc [OF ok _ ms, of r] unfolding e by blast+
      then show False using False by force
    qed
    then show ?thesis using r(1) False by simp
  qed
qed

text \<open>What the old types are in a module with one more type and its members.\<close>

definition types_extend :: "limba_module \<Rightarrow> limba_module \<Rightarrow> bool" where
  "types_extend m m' \<longleftrightarrow> (\<exists>ts ms. md_types m' = md_types m @ ts \<and> md_members m' = md_members m @ ms)"

lemma extend_old:
  assumes ok: "types_ok m" and e: "types_extend m m'" and i: "i < length (md_types m)"
  shows "md_types m' ! i = md_types m ! i"
    "LIMBA_T_FIRST_USER \<le> i \<Longrightarrow> has_members (md_types m ! i) \<Longrightarrow> members_of m' (md_types m ! i) = members_of m (md_types m ! i)"
    "LIMBA_T_FIRST_USER \<le> i \<Longrightarrow> desc_of m' i = desc_of m i"
    "LIMBA_T_FIRST_USER \<le> i \<Longrightarrow> type_hash (md_types m' ! i) (members_of m' (md_types m' ! i)) =
      type_hash (md_types m ! i) (members_of m (md_types m ! i))"
proof -
  obtain ts ms where m': "md_types m' = md_types m @ ts" "md_members m' = md_members m @ ms"
    using e by (auto simp: types_extend_def)
  show t: "md_types m' ! i = md_types m ! i" using i by (simp add: m' nth_append)
  show mem: "members_of m' (md_types m ! i) = members_of m (md_types m ! i)"
    if "LIMBA_T_FIRST_USER \<le> i" "has_members (md_types m ! i)"
  proof -
    have "ty_first (md_types m ! i) + ty_count (md_types m ! i) \<le> length (md_members m)"
      using ok that i by (simp add: types_ok_def)
    then show ?thesis by (simp add: members_of_def m')
  qed
  show d: "desc_of m' i = desc_of m i" if "LIMBA_T_FIRST_USER \<le> i"
    using mem that unfolding desc_of_def t desc_def has_members_def by simp
  show "type_hash (md_types m' ! i) (members_of m' (md_types m' ! i)) =
      type_hash (md_types m ! i) (members_of m (md_types m ! i))" if "LIMBA_T_FIRST_USER \<le> i"
    using d [OF that] unfolding desc_of_def by (rule type_hash_desc)
qed

text \<open>Adding a type that is not there yet.\<close>

lemma type_add_spec:
  assumes ok: "types_ok m" and few: "length (md_types m) < 2 ^ 30" and kind: "ty_kind k \<in> user_kinds"
    and ms: "has_members k \<longrightarrow> ty_count k = length ms" and new: "desc k ms \<notin> desc_of m ` user_types m"
    and h: "h = type_hash k ms"
  shows "\<exists>m'. type_add m k ms h = Some (m', length (md_types m)) \<and> types_ok m' \<and> types_extend m m' \<and>
    desc_of m' (length (md_types m)) = desc k ms \<and> length (md_types m') = Suc (length (md_types m)) \<and>
    md_types m' ! length (md_types m) = k\<lparr>ty_first := length (md_members m)\<rparr> \<and>
    (has_members k \<longrightarrow> members_of m' (md_types m' ! length (md_types m)) = ms)"
proof -
  let ?n = "length (md_types m)" and ?t = "k\<lparr>ty_first := length (md_members m)\<rparr>"
  let ?new = "if has_members k then ms else []"
  have cnt: "unat (hcount (md_typeidx m)) < 2 ^ 30" using ok few by (simp add: types_ok_def)
  obtain idx where idx: "index_put (md_typeidx m) h ?n = Some idx" "hash_ok idx"
      "unat (hcount idx) = Suc (unat (hcount (md_typeidx m)))" "nat_entries idx = insert (h, ?n) (nat_entries (md_typeidx m))"
    using index_put_ok [OF _ few cnt, of h] ok by (auto simp: types_ok_def)
  define m' where "m' = m\<lparr>md_types := md_types m @ [?t], md_members := md_members m @ ?new, md_typeidx := idx\<rparr>"
  have add: "type_add m k ms h = Some (m', ?n)"
    using ms idx(1) by (auto simp: type_add_def m'_def has_members_def Let_def)
  have ext: "types_extend m m'" by (auto simp: types_extend_def m'_def)
  have t: "md_types m' ! ?n = ?t" "length (md_types m') = Suc ?n" by (simp_all add: m'_def)
  have mem: "has_members k \<longrightarrow> members_of m' ?t = ms" using ms by (simp add: members_of_def m'_def)
  have d: "desc_of m' ?n = desc k ms"
    using mem unfolding desc_of_def t by (auto simp: desc_def has_members_def)
  have us: "user_types m' = insert ?n (user_types m)" using ok t(2) by (auto simp: types_ok_def)
  note old = extend_old [OF ok ext]
  have descs: "desc_of m' ` user_types m = desc_of m ` user_types m" using old(3) by (intro image_cong) auto
  have "inj_on (desc_of m') (user_types m)"
    using ok old(3) by (subst inj_on_cong [of _ _ "desc_of m"]) (auto simp: types_ok_def)
  then have inj: "inj_on (desc_of m') (user_types m')"
    unfolding us inj_on_insert using new d descs by auto
  have th: "type_hash (md_types m' ! ?n) (members_of m' (md_types m' ! ?n)) = h"
    unfolding h using d unfolding desc_of_def by (rule type_hash_desc)
  have "nat_entries idx = insert (h, ?n) ((\<lambda>i. (type_hash (md_types m ! i) (members_of m (md_types m ! i)), i)) ` user_types m)"
    unfolding idx(4) using ok by (simp add: types_ok_def)
  also have "\<dots> = (\<lambda>i. (type_hash (md_types m' ! i) (members_of m' (md_types m' ! i)), i)) ` user_types m'"
    unfolding us image_insert th using old(4) by (intro arg_cong2 [where f = insert] image_cong) auto
  finally have ent: "nat_entries idx = \<dots>" .
  have kinds: "ty_kind (md_types m' ! i) \<in> user_kinds \<and> (has_members (md_types m' ! i) \<longrightarrow>
      ty_first (md_types m' ! i) + ty_count (md_types m' ! i) \<le> length (md_members m'))" if "i \<in> user_types m'" for i
  proof (cases "i = ?n")
    case True
    then show ?thesis unfolding True t using kind ms by (auto simp: has_members_def m'_def)
  next
    case False
    then have i: "i \<in> user_types m" using that unfolding us by blast
    moreover have "length (md_members m) \<le> length (md_members m')" by (simp add: m'_def)
    ultimately show ?thesis using ok old(1) [of i] unfolding types_ok_def by fastforce
  qed
  have idx': "md_typeidx m' = idx" by (simp add: m'_def)
  have first: "\<forall>i < LIMBA_T_FIRST_USER. ty_kind (md_types m' ! i) = scalar_kinds ! i"
    using ok old(1) by (auto simp: types_ok_def)
  have "types_ok m'"
    unfolding types_ok_def idx' using ok idx(2,3) inj ent kinds first t(2) by (simp add: types_ok_def)
  then show ?thesis using add ext d t mem by (intro exI [of _ m']) simp
qed

lemma types_ok_new: "types_ok limba_module_new"
proof -
  have "\<forall>i \<in> set [0 ..< 11]. ty_kind (scalar_type i) = scalar_kinds ! i"
    by (simp add: scalar_type_def Let_def)
  then have "\<forall>i < LIMBA_T_FIRST_USER. ty_kind (md_types limba_module_new ! i) = scalar_kinds ! i"
    by (simp add: limba_module_new_def del: upt_rec_numeral)
  moreover have "length (md_types limba_module_new) = LIMBA_T_FIRST_USER" "md_typeidx limba_module_new = limba_hash_new"
    by (simp_all add: limba_module_new_def)
  ultimately show ?thesis
    by (simp add: types_ok_def hash_ok_new)
qed

text \<open>Finding a type or adding it: what \<open>limba_type_func_ext\<close> and \<open>limba_type_array\<close> share.\<close>

definition interned :: "limba_module \<Rightarrow> limba_type \<Rightarrow> limba_member list \<Rightarrow> limba_module \<Rightarrow> limba_id \<Rightarrow> bool" where
  "interned m k ms m' i \<longleftrightarrow> types_ok m' \<and> types_extend m m' \<and> i \<in> user_types m' \<and> desc_of m' i = desc k ms \<and>
     length (md_types m') \<le> Suc (length (md_types m))"

lemma intern_spec:
  assumes ok: "types_ok m" and few: "length (md_types m) < 2 ^ 30" and kind: "ty_kind k \<in> user_kinds"
    and ms: "has_members k \<longrightarrow> ty_count k = length ms" and k': "desc k' ms = desc k ms" "ty_kind k' = ty_kind k" "ty_count k' = ty_count k"
  shows "\<exists>r m' i. index_find (md_typeidx m) (type_hash k ms) (type_same m k ms) = Some r \<and>
    (if r \<noteq> LIMBA_NONE then m' = m \<and> i = r else type_add m k' ms (type_hash k ms) = Some (m', i)) \<and> interned m k ms m' i"
proof -
  have kms: "ty_kind k = LIMBA_TK_FUNC \<longrightarrow> ty_count k \<le> length ms" using ms by (simp add: has_members_def)
  obtain r where r: "index_find (md_typeidx m) (type_hash k ms) (type_same m k ms) = Some r"
      "if desc k ms \<in> desc_of m ` user_types m then r \<in> user_types m \<and> desc_of m r = desc k ms else r = LIMBA_NONE"
    using type_find_spec [OF ok _ kms] few by auto
  show ?thesis
  proof (cases "desc k ms \<in> desc_of m ` user_types m")
    case True
    then have r': "r \<in> user_types m" "desc_of m r = desc k ms" using r(2) by auto
    have "types_extend m m" by (auto simp: types_extend_def)
    moreover have "r \<noteq> LIMBA_NONE" using r'(1) few by auto
    ultimately show ?thesis
      using r(1) r' ok by (intro exI [of _ r] exI [of _ m]) (simp add: interned_def)
  next
    case False
    then have none: "r = LIMBA_NONE" using r(2) by simp
    have h: "type_hash k ms = type_hash k' ms" by (rule type_hash_desc) (simp add: k'(1))
    have "has_members k' \<longrightarrow> ty_count k' = length ms" using ms k'(2,3) by (simp add: has_members_def)
    then obtain m' where m': "type_add m k' ms (type_hash k ms) = Some (m', length (md_types m))" "types_ok m'"
        "types_extend m m'" "desc_of m' (length (md_types m)) = desc k' ms" "length (md_types m') = Suc (length (md_types m))"
      using type_add_spec [OF ok few _ _ _ h] kind False k' by metis
    then have "interned m k ms m' (length (md_types m))"
      using ok k'(1) by (auto simp: interned_def types_ok_def)
    then show ?thesis using r(1) none m'(1) by auto
  qed
qed

lemma interned_again:
  assumes "interned m k ms m' i" "length (md_types m') \<le> 2 ^ 30" "ty_kind k = LIMBA_TK_FUNC \<longrightarrow> ty_count k \<le> length ms"
  shows "index_find (md_typeidx m') (type_hash k ms) (type_same m' k ms) = Some i" "i \<noteq> LIMBA_NONE"
proof -
  have ok: "types_ok m'" and i: "i \<in> user_types m'" "desc_of m' i = desc k ms" using assms(1) by (simp_all add: interned_def)
  have here: "desc k ms \<in> desc_of m' ` user_types m'" using i by force
  obtain r where r: "index_find (md_typeidx m') (type_hash k ms) (type_same m' k ms) = Some r"
      "r \<in> user_types m'" "desc_of m' r = desc k ms"
    using type_find_spec [OF ok assms(2,3)] here by auto
  have "inj_on (desc_of m') (user_types m')" using ok by (simp add: types_ok_def)
  then have "r = i" using r(2,3) i by (metis inj_onD)
  then show "index_find (md_typeidx m') (type_hash k ms) (type_same m' k ms) = Some i" using r(1) by simp
  show "i \<noteq> LIMBA_NONE" using i(1) assms(2) by auto
qed

lemma desc_func_sig:
  assumes ok: "types_ok m" and i: "i \<in> user_types m" "desc_of m i = desc k ms"
    and k: "ty_kind k = LIMBA_TK_FUNC" "ty_count k = length ms"
  shows "limba_type_sig m i = Some \<lparr>sg_ret = ty_elem k, sg_params = map mb_type ms, sg_variadic = ty_variadic k,
      sg_mem = Some ms\<rparr>"
    "ty_rext (md_types m ! i) = ty_rext k"
proof -
  let ?t = "md_types m ! i"
  have d: "desc ?t (members_of m ?t) = desc k ms" using i(2) by (simp add: desc_of_def)
  then have t: "ty_kind ?t = LIMBA_TK_FUNC" using k by (auto simp: desc_def split: if_splits)
  then have "ty_elem ?t = ty_elem k" "ty_variadic ?t = ty_variadic k" "take (ty_count ?t) (members_of m ?t) = ms"
    and "ty_rext ?t = ty_rext k" using d k by (auto simp: desc_def)
  moreover have "take (ty_count ?t) (members_of m ?t) = members_of m ?t" by (simp add: members_of_def)
  ultimately show "ty_rext ?t = ty_rext k" "limba_type_sig m i = Some \<lparr>sg_ret = ty_elem k, sg_params = map mb_type ms,
      sg_variadic = ty_variadic k, sg_mem = Some ms\<rparr>"
    using i(1) t by (simp_all add: limba_type_sig_def Let_def)
qed

lemma user_type: "types_ok m \<Longrightarrow> j < length (md_types m) \<Longrightarrow> ty_kind (md_types m ! j) \<in> user_kinds \<Longrightarrow> j \<in> user_types m"
proof (rule ccontr)
  assume ok: "types_ok m" and j: "j < length (md_types m)" "ty_kind (md_types m ! j) \<in> user_kinds" "j \<notin> user_types m"
  then have "ty_kind (md_types m ! j) = scalar_kinds ! j" "j < LIMBA_T_FIRST_USER" by (auto simp: types_ok_def)
  moreover have "list_all (\<lambda>k. k \<notin> user_kinds) scalar_kinds" "length scalar_kinds = LIMBA_T_FIRST_USER"
    by (simp_all add: scalar_kinds_def)
  ultimately show False using j(2) by (metis list_all_length)
qed

text \<open>The signature and the mark of the result make the description, and so the identifier.\<close>

lemma sig_desc_func:
  assumes ok: "types_ok m" and k: "ty_kind k = LIMBA_TK_FUNC" "ty_count k = length ms"
    and j: "limba_type_sig m j = Some \<lparr>sg_ret = ty_elem k, sg_params = ps, sg_variadic = ty_variadic k, sg_mem = Some ms\<rparr>"
      "ty_rext (md_types m ! j) = ty_rext k"
  shows "j \<in> user_types m" "desc_of m j = desc k ms"
proof -
  let ?t = "md_types m ! j"
  have t: "j < length (md_types m)" "ty_kind ?t = LIMBA_TK_FUNC" "ty_elem ?t = ty_elem k" "ty_variadic ?t = ty_variadic k"
      "members_of m ?t = ms"
    using j(1) by (auto simp: limba_type_sig_def Let_def split: if_splits)
  then show u: "j \<in> user_types m" by (intro user_type [OF ok]) simp_all
  have "ty_first ?t + ty_count ?t \<le> length (md_members m)"
    using ok u t(2) by (auto simp: types_ok_def has_members_def)
  then have "ty_count ?t = length ms" using t(5) by (auto simp: members_of_def)
  then show "desc_of m j = desc k ms" using t j(2) k by (simp add: desc_of_def desc_def)
qed

text \<open>The parameters of a function type, each with its extension mark: none is the mark 0.\<close>

definition marked :: "limba_id list \<Rightarrow> u8 list option \<Rightarrow> limba_member list" where
  "marked params exts =
     (case exts of
        None \<Rightarrow> map (\<lambda>p. \<lparr>mb_type = p, mb_offset = 0\<rparr>) params
      | Some es \<Rightarrow> map2 (\<lambda>p e. \<lparr>mb_type = p, mb_offset = ucast e\<rparr>) params es)"

lemma marked_params:
  assumes "\<forall>es. exts = Some es \<longrightarrow> length es = length params"
  shows "map (\<lambda>j. \<lparr>mb_type = params ! j, mb_offset = (case exts of None \<Rightarrow> 0 | Some es \<Rightarrow> ucast (es ! j))\<rparr>)
      [0 ..< length params] = marked params exts" "map mb_type (marked params exts) = params"
proof -
  show eq: "map (\<lambda>j. \<lparr>mb_type = params ! j, mb_offset = (case exts of None \<Rightarrow> 0 | Some es \<Rightarrow> ucast (es ! j))\<rparr>)
      [0 ..< length params] = marked params exts"
  proof (cases exts)
    case (Some es)
    then have len: "length es = length params" using assms by simp
    show ?thesis unfolding Some marked_def option.case by (rule nth_equalityI) (simp_all add: len)
  next
    case None
    show ?thesis unfolding None marked_def option.case by (rule nth_equalityI) simp_all
  qed
  show "map mb_type (marked params exts) = params"
    unfolding eq [symmetric] by (simp add: map_nth [unfolded o_def] o_def)
qed

lemma desc_array:
  assumes "desc_of m i = desc k []" "ty_kind k = LIMBA_TK_ARRAY"
  shows "ty_kind (md_types m ! i) = LIMBA_TK_ARRAY" "ty_elem (md_types m ! i) = ty_elem k" "ty_count (md_types m ! i) = ty_count k"
  using assms by (auto simp: desc_of_def desc_def split: if_splits)

text \<open>
  C38: Interning a function type always ends and gives the one identifier of the module with the result,
  the parameters, the extension mark of the result, the mark of every parameter and the variadic flag asked
  for: it has exactly these, and no other identifier has them all. So types that differ in a mark only are
  different types. Every type that was there stays what it was, and asking again gives the same identifier
  and changes nothing.
\<close>

theorem type_func_interned:
  assumes "types_ok m" "length (md_types m) < 2 ^ 30" "\<forall>es. exts = Some es \<longrightarrow> length es = length params"
  shows "\<exists>m' i. limba_type_func_ext m ret rext params exts variadic = Some (m', i) \<and> types_ok m' \<and> types_extend m m' \<and>
    (\<forall>j. limba_type_sig m' j = Some \<lparr>sg_ret = ret, sg_params = params, sg_variadic = variadic,
            sg_mem = Some (marked params exts)\<rparr> \<and> ty_rext (md_types m' ! j) = of_nat rext \<longleftrightarrow> j = i) \<and>
    limba_type_func_ext m' ret rext params exts variadic = Some (m', i)"
proof -
  define ms where "ms = marked params exts"
  define k where "k = (type_key LIMBA_TK_FUNC)\<lparr>ty_variadic := variadic, ty_rext := of_nat rext, ty_name := LIMBA_NONE,
            ty_elem := ret, ty_count := length params, ty_align := 1\<rparr>"
  note params = marked_params [OF assms(3), folded ms_def]
  have len: "length ms = length params" using params(2) by (metis length_map)
  have k: "ty_kind k = LIMBA_TK_FUNC" "ty_count k = length ms" "ty_elem k = ret" "ty_variadic k = variadic" "ty_rext k = of_nat rext"
    by (simp_all add: k_def len type_key_def)
  have run: "limba_type_func_ext n ret rext params exts variadic =
      index_find (md_typeidx n) (type_hash k ms) (type_same n k ms) \<bind>
        (\<lambda>i. if i = LIMBA_NONE then type_add n k ms (type_hash k ms) else Some (n, i))" for n
    unfolding limba_type_func_ext_def Let_def k_def params ..
  obtain r m' i where r: "index_find (md_typeidx m) (type_hash k ms) (type_same m k ms) = Some r"
      "if r \<noteq> LIMBA_NONE then m' = m \<and> i = r else type_add m k ms (type_hash k ms) = Some (m', i)" "interned m k ms m' i"
    using intern_spec [OF assms(1,2), of k ms k] k by auto
  have m': "types_ok m'" "types_extend m m'" "i \<in> user_types m'" "desc_of m' i = desc k ms"
    using r(3) by (simp_all add: interned_def)
  have first: "limba_type_func_ext m ret rext params exts variadic = Some (m', i)"
    using r(1,2) by (cases "r = LIMBA_NONE") (simp_all add: run)
  have again: "limba_type_func_ext m' ret rext params exts variadic = Some (m', i)"
    using interned_again [OF r(3)] assms(2) r(3) k by (simp add: run interned_def)
  have only: "limba_type_sig m' j = Some \<lparr>sg_ret = ret, sg_params = params, sg_variadic = variadic,
            sg_mem = Some ms\<rparr> \<and> ty_rext (md_types m' ! j) = of_nat rext \<longleftrightarrow> j = i" for j
  proof
    assume j: "limba_type_sig m' j = Some \<lparr>sg_ret = ret, sg_params = params, sg_variadic = variadic,
            sg_mem = Some ms\<rparr> \<and> ty_rext (md_types m' ! j) = of_nat rext"
    have d: "j \<in> user_types m'" "desc_of m' j = desc k ms"
      using sig_desc_func [OF m'(1) k(1,2), of j params] j k by simp_all
    have "inj_on (desc_of m') (user_types m')" using m'(1) by (simp add: types_ok_def)
    then show "j = i" by (rule inj_onD [OF _ _ d(1) m'(3)]) (simp only: d(2) m'(4))
  next
    assume "j = i"
    then show "limba_type_sig m' j = Some \<lparr>sg_ret = ret, sg_params = params, sg_variadic = variadic,
            sg_mem = Some ms\<rparr> \<and> ty_rext (md_types m' ! j) = of_nat rext"
      using desc_func_sig [OF m'(1,3,4) k(1,2)] k params(2) by simp
  qed
  show ?thesis
    by (intro exI [of _ m'] exI [of _ i] conjI allI) (rule first m'(1,2) only [unfolded ms_def] again)+
qed

lemma type_func_length:
  "limba_type_func_ext m ret rext params exts variadic = Some (m', i) \<Longrightarrow> length (md_types m') \<le> Suc (length (md_types m))"
  by (auto simp: limba_type_func_ext_def type_add_def Let_def bind_eq_Some_conv split: if_splits)

theorem type_func_interned_witness:
  "\<exists>m' i m'' j. limba_type_func_ext limba_module_new LIMBA_T_VOID 0 [LIMBA_T_PTR, LIMBA_T_I8] None False = Some (m', i) \<and>
     limba_type_func_ext m' LIMBA_T_VOID 0 [LIMBA_T_PTR, LIMBA_T_I8] (Some [0, 1]) False = Some (m'', j) \<and> i \<noteq> j"
proof -
  let ?s = "\<lambda>ms. Some \<lparr>sg_ret = LIMBA_T_VOID, sg_params = [LIMBA_T_PTR, LIMBA_T_I8], sg_variadic = False, sg_mem = Some ms\<rparr>"
  let ?ms = "marked [LIMBA_T_PTR, LIMBA_T_I8] None" and ?ns = "marked [LIMBA_T_PTR, LIMBA_T_I8] (Some [0, 1])"
  have few: "length (md_types limba_module_new) < 2 ^ 30" by (simp add: limba_module_new_def)
  obtain m' i where 1: "limba_type_func_ext limba_module_new LIMBA_T_VOID 0 [LIMBA_T_PTR, LIMBA_T_I8] None False = Some (m', i)"
      "types_ok m'" "limba_type_sig m' i = ?s ?ms"
    using type_func_interned [OF types_ok_new few, of None "[LIMBA_T_PTR, LIMBA_T_I8]" LIMBA_T_VOID 0 False] by auto
  have few': "length (md_types m') < 2 ^ 30"
    using type_func_length [OF 1(1)] by (simp add: limba_module_new_def)
  obtain m'' j where 2: "limba_type_func_ext m' LIMBA_T_VOID 0 [LIMBA_T_PTR, LIMBA_T_I8] (Some [0, 1]) False = Some (m'', j)"
      "types_extend m' m''" "limba_type_sig m'' j = ?s ?ns"
    using type_func_interned [OF 1(2) few', of "Some [0, 1]" "[LIMBA_T_PTR, LIMBA_T_I8]" LIMBA_T_VOID 0 False] by auto
  have t: "i < length (md_types m')" "ty_kind (md_types m' ! i) = LIMBA_TK_FUNC"
    using 1(3) by (auto simp: limba_type_sig_def split: if_splits)
  then have "i \<in> user_types m'" by (intro user_type [OF 1(2)]) simp_all
  then have "limba_type_sig m'' i = limba_type_sig m' i"
    using extend_old(1,2) [OF 1(2) 2(2) t(1)] t 2(2)
    by (auto simp: limba_type_sig_def Let_def has_members_def types_extend_def)
  then have "i \<noteq> j" using 1(3) 2(3) by (auto simp: marked_def)
  then show ?thesis using 1(1) 2(1) by blast
qed

text \<open>
  Interning an array type always ends and gives an identifier of the element and the count asked for;
  the size of a new one is the product, at most \<open>UINT32_MAX\<close>; asking again gives the same identifier and
  changes nothing.
\<close>

theorem type_array_interned:
  assumes "types_ok m" "length (md_types m) < 2 ^ 30"
  shows "\<exists>m' i. limba_type_array m elem count = Some (m', i) \<and> types_ok m' \<and> types_extend m m' \<and>
    ty_kind (md_types m' ! i) = LIMBA_TK_ARRAY \<and> ty_elem (md_types m' ! i) = elem \<and> ty_count (md_types m' ! i) = count \<and>
    limba_type_array m' elem count = Some (m', i)"
proof -
  define k where "k = (type_key LIMBA_TK_ARRAY)\<lparr>ty_name := LIMBA_NONE, ty_elem := elem, ty_count := count\<rparr>"
  define k' where "k' n = (let e = md_types n ! elem; sz = unat (ty_size e) * count
     in k\<lparr>ty_size := (if sz > 0xffffffff then 0xffffffff else of_nat sz), ty_align := (if ty_align e \<noteq> 0 then ty_align e else 1)\<rparr>)"
    for n :: limba_module
  have k: "ty_kind k = LIMBA_TK_ARRAY" "ty_elem k = elem" "ty_count k = count" by (simp_all add: k_def type_key_def)
  have k': "desc (k' n) [] = desc k []" "ty_kind (k' n) = ty_kind k" "ty_count (k' n) = ty_count k" for n
    by (simp_all add: k'_def desc_def Let_def)
  have run: "limba_type_array n elem count =
      index_find (md_typeidx n) (type_hash k []) (type_same n k []) \<bind>
        (\<lambda>i. if i \<noteq> LIMBA_NONE then Some (n, i) else type_add n (k' n) [] (type_hash k []))" for n
    unfolding limba_type_array_def Let_def k_def k'_def ..
  obtain r m' i where r: "index_find (md_typeidx m) (type_hash k []) (type_same m k []) = Some r"
      "if r \<noteq> LIMBA_NONE then m' = m \<and> i = r else type_add m (k' m) [] (type_hash k []) = Some (m', i)" "interned m k [] m' i"
    using intern_spec [OF assms, of k "[]" "k' m"] k k' by (auto simp: has_members_def)
  have "limba_type_array m elem count = Some (m', i)"
    using r(1,2) by (cases "r = LIMBA_NONE") (simp_all add: run)
  moreover have "limba_type_array m' elem count = Some (m', i)"
    using interned_again [OF r(3)] assms(2) r(3) k by (simp add: run interned_def)
  ultimately show ?thesis using r(3) desc_array [of m' i k] k by (auto simp: interned_def)
qed

theorem type_array_interned_witness:
  "\<exists>m' i. limba_type_array limba_module_new LIMBA_T_I32 10 = Some (m', i) \<and>
     limba_type_array m' LIMBA_T_I32 10 = Some (m', i)"
  using type_array_interned [OF types_ok_new] by (auto simp: limba_module_new_def) metis

lemma struct_desc:
  "ty_kind k = LIMBA_TK_STRUCT \<Longrightarrow> desc k ms = (LIMBA_TK_STRUCT, ty_name k, False, 0, 0, 0, [])"
  by (simp add: desc_def)

definition struct_named :: "limba_module \<Rightarrow> limba_id \<Rightarrow> limba_id \<Rightarrow> bool" where
  "struct_named m name i \<longleftrightarrow> i < length (md_types m) \<and> ty_kind (md_types m ! i) = LIMBA_TK_STRUCT \<and>
     ty_name (md_types m ! i) = name"

lemma struct_named_desc:
  assumes "types_ok m" "ty_kind k = LIMBA_TK_STRUCT"
  shows "struct_named m (ty_name k) i \<longleftrightarrow> i \<in> user_types m \<and> desc_of m i = desc k ms"
proof -
  have "struct_named m (ty_name k) i \<Longrightarrow> i \<in> user_types m"
    using user_type [OF assms(1)] by (simp add: struct_named_def)
  moreover have "desc_of m i = desc k ms \<longleftrightarrow> ty_kind (md_types m ! i) = LIMBA_TK_STRUCT \<and> ty_name (md_types m ! i) = ty_name k"
    using assms(2) by (auto simp: desc_of_def desc_def)
  ultimately show ?thesis by (auto simp: struct_named_def)
qed

text \<open>
  C39: A struct is added exactly when no type of the module is a struct of its name, and then it is the
  struct found under the name, with the fields, the size and the alignment given. When there is one,
  nothing changes, the answer is \<open>LIMBA_NONE\<close>, and the search by name finds the one there is.
\<close>

theorem type_struct_unique:
  assumes "types_ok m" "length (md_types m) < 2 ^ 30"
  shows "\<exists>m' i. limba_type_struct m name flds sz algn = Some (m', i) \<and> types_ok m' \<and> types_extend m m' \<and>
    (if \<exists>j. struct_named m name j
     then m' = m \<and> i = LIMBA_NONE \<and> (\<exists>j. limba_type_find_struct m name = Some j \<and> struct_named m name j)
     else limba_type_find_struct m name = Some LIMBA_NONE \<and> limba_type_find_struct m' name = Some i \<and> i \<noteq> LIMBA_NONE \<and>
       struct_named m' name i \<and> members_of m' (md_types m' ! i) = flds \<and>
       ty_size (md_types m' ! i) = sz \<and> ty_align (md_types m' ! i) = algn)"
proof -
  define k where "k = (type_key LIMBA_TK_STRUCT)\<lparr>ty_name := name, ty_elem := LIMBA_NONE, ty_count := length flds,
            ty_size := sz, ty_align := algn\<rparr>"
  define q where "q = (type_key LIMBA_TK_STRUCT)\<lparr>ty_name := name\<rparr>"
  have k: "ty_kind k = LIMBA_TK_STRUCT" "ty_name k = name" "ty_count k = length flds" "ty_size k = sz" "ty_align k = algn"
    and q: "ty_kind q = LIMBA_TK_STRUCT" "ty_name q = name" by (simp_all add: k_def q_def type_key_def)
  note named = struct_named_desc [OF assms(1) k(1), unfolded k(2), of _ flds]
  have same: "type_hash q [] = type_hash k flds" "type_same n q [] = type_same n k flds" for n
    using k q by (simp_all add: type_hash_def Let_def type_same_def fun_eq_iff)
  have find: "limba_type_find_struct n name = index_find (md_typeidx n) (type_hash k flds) (type_same n k flds)" for n
    unfolding limba_type_find_struct_def Let_def q_def [symmetric] same ..
  have run: "limba_type_struct m name flds sz algn =
      index_find (md_typeidx m) (type_hash k flds) (type_same m k flds) \<bind>
        (\<lambda>i. if i \<noteq> LIMBA_NONE then Some (m, LIMBA_NONE) else type_add m k flds (type_hash k flds))"
    unfolding limba_type_struct_def Let_def k_def ..
  obtain r where r: "index_find (md_typeidx m) (type_hash k flds) (type_same m k flds) = Some r"
      "if desc k flds \<in> desc_of m ` user_types m then r \<in> user_types m \<and> desc_of m r = desc k flds else r = LIMBA_NONE"
    using type_find_spec [of m k flds] assms k by auto
  show ?thesis
  proof (cases "\<exists>j. struct_named m name j")
    case True
    then have "desc k flds \<in> desc_of m ` user_types m" unfolding named by force
    then have "struct_named m name r" using r(2) unfolding named by simp
    moreover from this have "r \<noteq> LIMBA_NONE" using assms(2) by (auto simp: struct_named_def)
    ultimately show ?thesis
      using r(1) assms(1) by (intro exI [of _ m] exI [of _ LIMBA_NONE]) (auto simp: run find types_extend_def)
  next
    case False
    then have new: "desc k flds \<notin> desc_of m ` user_types m" unfolding named by force
    then have none: "r = LIMBA_NONE" using r(2) by simp
    have kk: "ty_kind k \<in> user_kinds" "has_members k" "has_members k \<longrightarrow> ty_count k = length flds"
      using k by (simp_all add: has_members_def)
    obtain m' where m': "type_add m k flds (type_hash k flds) = Some (m', length (md_types m))" "types_ok m'" "types_extend m m'"
        "desc_of m' (length (md_types m)) = desc k flds" "length (md_types m') = Suc (length (md_types m))"
        "md_types m' ! length (md_types m) = k\<lparr>ty_first := length (md_members m)\<rparr>"
        "members_of m' (md_types m' ! length (md_types m)) = flds"
      using type_add_spec [OF assms kk(1,3) new refl] kk(2) by blast
    have i: "interned m k flds m' (length (md_types m))" using m' assms(1) by (simp add: interned_def types_ok_def)
    have found: "limba_type_find_struct m' name = Some (length (md_types m))"
      using interned_again(1) [OF i] m'(5) assms(2) k by (simp add: find)
    have run': "limba_type_struct m name flds sz algn = Some (m', length (md_types m))" "limba_type_find_struct m name = Some LIMBA_NONE"
      using r(1) none m'(1) by (simp_all add: run find)
    have "struct_named m' name (length (md_types m))" "ty_size (md_types m' ! length (md_types m)) = sz"
        "ty_align (md_types m' ! length (md_types m)) = algn"
      unfolding struct_named_def m'(5,6) using k by simp_all
    moreover have "length (md_types m) \<noteq> LIMBA_NONE" using assms(2) by auto
    ultimately show ?thesis
      using False run' found m'(2,3,7) by (intro exI [of _ m'] exI [of _ "length (md_types m)"]) simp
  qed
qed

lemma type_struct_length:
  "limba_type_struct m name flds sz algn = Some (m', i) \<Longrightarrow> length (md_types m') \<le> Suc (length (md_types m))"
  by (auto simp: limba_type_struct_def type_add_def Let_def bind_eq_Some_conv split: if_splits)

theorem type_struct_unique_witness:
  "\<exists>m' i. limba_type_struct limba_module_new 7 [\<lparr>mb_type = LIMBA_T_I32, mb_offset = 0\<rparr>] 4 4 = Some (m', i) \<and>
     struct_named m' 7 i \<and> limba_type_struct m' 7 [] 0 1 = Some (m', LIMBA_NONE)"
proof -
  have few: "length (md_types limba_module_new) < 2 ^ 30" by (simp add: limba_module_new_def)
  have kinds: "\<not> struct_named limba_module_new 7 j" for j
    using user_type [OF types_ok_new, of j] by (auto simp: struct_named_def limba_module_new_def)
  obtain m' i where 1: "limba_type_struct limba_module_new 7 [\<lparr>mb_type = LIMBA_T_I32, mb_offset = 0\<rparr>] 4 4 = Some (m', i)"
      "types_ok m'" "struct_named m' 7 i"
    using type_struct_unique [OF types_ok_new few, of 7 "[\<lparr>mb_type = LIMBA_T_I32, mb_offset = 0\<rparr>]" 4 4] kinds by auto
  have "length (md_types m') < 2 ^ 30"
    using type_struct_length [OF 1(1)] by (simp add: limba_module_new_def)
  moreover have "\<exists>j. struct_named m' 7 j" using 1(3) by blast
  ultimately have "limba_type_struct m' 7 [] 0 1 = Some (m', LIMBA_NONE)"
    using type_struct_unique [OF 1(2), of 7 "[]" 0 1] by auto
  then show ?thesis using 1 by blast
qed

section \<open>Types that hold a counted handle\<close>

text \<open>A type holds a str or a ref: itself, an element, a field, at any depth.\<close>

inductive holds_counted :: "limba_module \<Rightarrow> limba_id \<Rightarrow> bool" for m where
  itself: "t < length (md_types m) \<Longrightarrow> ty_kind (md_types m ! t) \<in> {LIMBA_TK_STR, LIMBA_TK_REF} \<Longrightarrow> holds_counted m t"
| element: "t < length (md_types m) \<Longrightarrow> ty_kind (md_types m ! t) = LIMBA_TK_ARRAY \<Longrightarrow>
    holds_counted m (ty_elem (md_types m ! t)) \<Longrightarrow> holds_counted m t"
| field: "t < length (md_types m) \<Longrightarrow> ty_kind (md_types m ! t) = LIMBA_TK_STRUCT \<Longrightarrow>
    f \<in> set (members_of m (md_types m ! t)) \<Longrightarrow> holds_counted m (mb_type f) \<Longrightarrow> holds_counted m t"

inductive_simps holds_counted_simp: "holds_counted m t"

text \<open>An array or a struct is built from types made before it.\<close>

definition types_below :: "limba_module \<Rightarrow> bool" where
  "types_below m \<longleftrightarrow> (\<forall>t < length (md_types m).
     (ty_kind (md_types m ! t) = LIMBA_TK_ARRAY \<longrightarrow> ty_elem (md_types m ! t) < t) \<and>
     (ty_kind (md_types m ! t) = LIMBA_TK_STRUCT \<longrightarrow> (\<forall>f \<in> set (members_of m (md_types m ! t)). mb_type f < t)))"

lemma any_counted_all:
  assumes "\<And>f. f \<in> set fs \<Longrightarrow> p (mb_type f) = Some (q (mb_type f))"
  shows "any_counted p fs = Some (\<exists>f \<in> set fs. q (mb_type f))"
  using assms by (induction fs) auto

lemma type_counted_enough:
  assumes "types_below m" "t < fuel"
  shows "type_counted fuel m t = Some (holds_counted m t)"
  using assms(2)
proof (induction fuel arbitrary: t)
  case (Suc fuel)
  show ?case
  proof (cases "t < length (md_types m)")
    case False
    then show ?thesis by (simp add: holds_counted_simp [of m t])
  next
    case t: True
    let ?ty = "md_types m ! t"
    have below: "ty_kind ?ty = LIMBA_TK_ARRAY \<Longrightarrow> ty_elem ?ty < t"
        "ty_kind ?ty = LIMBA_TK_STRUCT \<Longrightarrow> f \<in> set (members_of m ?ty) \<Longrightarrow> mb_type f < t" for f
      using assms(1) t by (simp_all add: types_below_def)
    have rec: "type_counted fuel m u = Some (holds_counted m u)" if "u < t" for u
      using Suc that by simp
    have strct: "any_counted (type_counted fuel m) (members_of m ?ty) = Some (\<exists>f \<in> set (members_of m ?ty). holds_counted m (mb_type f))"
      if "ty_kind ?ty = LIMBA_TK_STRUCT"
      using below(2) [OF that] by (intro any_counted_all rec) blast
    show ?thesis
      using t rec [OF below(1)] strct by (auto simp: Let_def holds_counted_simp [of m t])
  qed
qed simp

text \<open>
  C40: When every array and struct is built from types made before it, \<open>limba_type_counted\<close> ends, and
  says whether a value of the type holds a counted handle, a str or a ref, at any depth.
\<close>

theorem type_counted_total:
  assumes "types_below m"
  shows "limba_type_counted m t = Some (holds_counted m t)"
proof (cases "t < length (md_types m)")
  case True
  then show ?thesis unfolding limba_type_counted_def by (intro type_counted_enough [OF assms]) simp
next
  case False
  then show ?thesis by (simp add: limba_type_counted_def holds_counted_simp [of m t])
qed

text \<open>A module with one array type, of strings.\<close>

definition array_module :: limba_module where
  "array_module = limba_module_new\<lparr>md_types := map scalar_type [0 ..< LIMBA_T_FIRST_USER] @
     [(type_key LIMBA_TK_ARRAY)\<lparr>ty_elem := LIMBA_T_STR, ty_count := 3\<rparr>]\<rparr>"

theorem type_counted_total_witness: "limba_type_counted array_module LIMBA_T_FIRST_USER = Some True"
proof -
  have "list_all (\<lambda>k. k \<noteq> LIMBA_TK_ARRAY \<and> k \<noteq> LIMBA_TK_STRUCT) scalar_kinds" "length scalar_kinds = 11"
    by (simp_all add: scalar_kinds_def)
  then have s: "\<forall>t < 11. ty_kind (scalar_type t) \<noteq> LIMBA_TK_ARRAY \<and> ty_kind (scalar_type t) \<noteq> LIMBA_TK_STRUCT"
    by (simp add: scalar_type_def Let_def list_all_iff)
  have t: "length (md_types array_module) = 12" "t < 11 \<Longrightarrow> md_types array_module ! t = scalar_type t"
    "md_types array_module ! 11 = (type_key LIMBA_TK_ARRAY)\<lparr>ty_elem := LIMBA_T_STR, ty_count := 3\<rparr>" for t
    by (simp_all add: array_module_def nth_append del: upt_rec_numeral)
  have "types_below array_module"
    unfolding types_below_def t(1)
  proof (intro allI impI)
    fix u :: limba_id assume "u < 12"
    then consider "u = 11" | "u < 11" by linarith
    then show "(ty_kind (md_types array_module ! u) = LIMBA_TK_ARRAY \<longrightarrow> ty_elem (md_types array_module ! u) < u) \<and>
        (ty_kind (md_types array_module ! u) = LIMBA_TK_STRUCT \<longrightarrow>
          (\<forall>f \<in> set (members_of array_module (md_types array_module ! u)). mb_type f < u))"
    proof cases
      case 1
      then show ?thesis using t(3) by (simp add: type_key_def)
    next
      case 2
      then show ?thesis using s t(2) [OF 2] by simp
    qed
  qed
  moreover have "holds_counted array_module LIMBA_T_STR"
    by (rule holds_counted.itself) (simp_all add: t scalar_type_def scalar_kinds_def Let_def)
  then have "holds_counted array_module 11"
    using holds_counted.element [of 11 array_module] by (simp add: t type_key_def)
  ultimately show ?thesis using type_counted_total [of array_module 11] by simp
qed

section \<open>What the symbols promise\<close>

text \<open>A symbol of a kind is added at the end of the list of its kind and is then the only one of its name.\<close>

definition added_alone :: "limba_module \<Rightarrow> sym_kind \<Rightarrow> limba_id \<Rightarrow> limba_module \<Rightarrow> limba_id \<Rightarrow> bool" where
  "added_alone m k name m' i \<longleftrightarrow> i = length (sym_names m k) \<and>
     (\<forall>l. sym_names m' l = (if l = k then sym_names m k @ [name] else sym_names m l)) \<and>
     limba_func_find m' name = Some (if k = SYM_FUNC then i else LIMBA_NONE) \<and>
     limba_global_find m' name = Some (if k = SYM_GLOBAL then i else LIMBA_NONE) \<and>
     limba_extern_find m' name = Some (if k = SYM_EXTERN then i else LIMBA_NONE)"

lemma sym_added_alone:
  assumes "sym_added m k name m' i" "kinds_apart (insert name (all_names m))" "sym_count m + 1 < 2 ^ 30"
  shows "syms_ok m' \<and> (if name \<in> all_names m then m' = m \<and> i = LIMBA_NONE else added_alone m k name m' i)"
proof (cases "name \<in> all_names m")
  case True
  then show ?thesis using assms(1) unfolding sym_added_def by metis
next
  case False
  then have ok: "syms_ok m'" and i: "i = length (sym_names m k)"
    and names: "sym_names m' l = (if l = k then sym_names m k @ [name] else sym_names m l)" for l
    using assms(1) by (simp_all add: sym_added_def)
  have all: "all_names m' = insert name (all_names m)"
    unfolding all_names_kinds names by (cases k) auto
  have len: "length (sym_names m' l) = length (sym_names m l) + (if l = k then 1 else 0)" for l
    unfolding names by simp
  have "sym_count m' = sym_count m + 1"
    using len [of SYM_FUNC] len [of SYM_GLOBAL] len [of SYM_EXTERN] by (cases k) (simp_all add: sym_count_def)
  then have few: "sym_count m' < 2 ^ 30" using assms(3) by simp
  have apart: "kinds_apart (insert name (all_names m'))" using assms(2) by (simp add: all)
  note find = sym_find_spec [OF ok apart few]
  have new: "name \<notin> set (sym_names m l)" for l using False by (auto simp: all_names_def)
  obtain r where r: "sym_find m' name k = Some r" "r < length (sym_names m' k)" "sym_names m' k ! r = name"
  proof -
    have "name \<in> set (sym_names m' k)" unfolding names by simp
    then show ?thesis using find [of k] that by (auto simp del: sym_names.simps)
  qed
  have "r = i"
  proof (rule ccontr)
    assume "r \<noteq> i"
    then have "r < length (sym_names m k)" "sym_names m k ! r = name"
      using r(2,3) i unfolding names by (simp_all add: nth_append less_Suc_eq del: sym_names.simps split: if_splits)
    then show False using new [of k] by (metis nth_mem)
  qed
  then have "sym_find m' name l = Some (if l = k then i else LIMBA_NONE)" for l
    using r(1) find [of l] new [of l] unfolding names by (auto simp del: sym_names.simps)
  then show ?thesis
    using ok i names False by (simp add: added_alone_def limba_func_find_def limba_global_find_def limba_extern_find_def)
qed

text \<open>
  C36: The functions, the globals and the externs share one name space. \<open>limba_func_add\<close>,
  \<open>limba_global_add\<close> and \<open>limba_extern_add\<close> each add their symbol exactly when no symbol of the three kinds has
  its name: it goes to the end of its kind, it is the one found under the name, and the searches of the
  other two kinds find nothing under it. When the name is taken nothing changes and the answer is
  \<open>LIMBA_NONE\<close>. The module has fewer than \<open>2 ^ 30 - 1\<close> symbols, and by the hypothesis \<open>kinds_apart\<close> the 64-bit
  keys of two kinds do not meet among the names in use.
\<close>

theorem func_add_unique_name:
  assumes "syms_ok m" "kinds_apart (insert name (all_names m))" "sym_count m + 1 < 2 ^ 30"
  shows "(\<exists>m' i st'. limba_func_add st m name type flags = Some (m', i, st') \<and> syms_ok m' \<and>
      (if name \<in> all_names m then m' = m \<and> i = LIMBA_NONE else added_alone m SYM_FUNC name m' i)) \<and>
    (\<exists>m' i. limba_global_add m name type flags = Some (m', i) \<and> syms_ok m' \<and>
      (if name \<in> all_names m then m' = m \<and> i = LIMBA_NONE else added_alone m SYM_GLOBAL name m' i)) \<and>
    (\<exists>m' i. limba_extern_add m name type symbol library = Some (m', i) \<and> syms_ok m' \<and>
      (if name \<in> all_names m then m' = m \<and> i = LIMBA_NONE else added_alone m SYM_EXTERN name m' i))"
proof -
  have few: "sym_count m < 2 ^ 30" using assms(3) by simp
  note alone = sym_added_alone [OF _ assms(2,3)]
  show ?thesis
    using func_add_syms [OF assms(1,2) few, of st type flags] global_add_syms [OF assms(1,2) few, of type flags]
      extern_add_syms [OF assms(1,2) few, of type symbol library] alone
    by (intro conjI) metis+
qed

theorem func_add_unique_name_witness:
  "\<exists>m' i st'. limba_func_add 1 limba_module_new 3 5 0 = Some (m', i, st') \<and> limba_func_find m' 3 = Some i \<and>
     limba_global_add m' 3 5 0 = Some (m', LIMBA_NONE) \<and> limba_extern_add m' 3 5 7 8 = Some (m', LIMBA_NONE)"
proof -
  have "sym_hash 3 SYM_FUNC \<noteq> sym_hash 3 SYM_GLOBAL" "sym_hash 3 SYM_FUNC \<noteq> sym_hash 3 SYM_EXTERN"
      "sym_hash 3 SYM_GLOBAL \<noteq> sym_hash 3 SYM_EXTERN"
    by (simp_all add: sym_hash_def limba_fnv_def le32_def LIMBA_FNV_SEED_def)
  then have "\<forall>k l. sym_hash 3 k = sym_hash 3 l \<longrightarrow> k = l"
    unfolding all_kinds [of "\<lambda>k. \<forall>l. sym_hash 3 k = sym_hash 3 l \<longrightarrow> k = l"] all_kinds by metis
  then have apart: "kinds_apart {3}" by (simp add: kinds_apart_def)
  have none: "sym_names limba_module_new l = []" for l by (cases l) (simp_all add: limba_module_new_def)
  then have e: "all_names limba_module_new = {}" by (simp add: all_names_def)
  have c: "sym_count limba_module_new = 0" by (simp add: sym_count_def limba_module_new_def)
  obtain m' i st' where 1: "limba_func_add 1 limba_module_new 3 5 0 = Some (m', i, st')" "syms_ok m'"
      "added_alone limba_module_new SYM_FUNC 3 m' i"
    using func_add_unique_name [OF syms_ok_new, of 3 1 5 0 undefined undefined] apart e c by auto
  have names: "sym_names m' l = (if l = SYM_FUNC then [3] else [])" for l
    using 1(3) none by (simp add: added_alone_def del: sym_names.simps)
  have "all_names m' = {3}" unfolding all_names_def names by auto
  moreover have "sym_count m' = 1"
    using names [of SYM_FUNC] names [of SYM_GLOBAL] names [of SYM_EXTERN] by (auto simp: sym_count_def)
  ultimately show ?thesis
    using func_add_unique_name [OF 1(2), of 3 1 5 0 7 8] 1 apart by (auto simp: added_alone_def)
qed

text \<open>
  C37: Truncating a module keeps the first functions and externs and every global, drops the rest, and
  leaves the index with exactly the names that are left; the set ``under a handler'' is then stale.
\<close>

theorem truncate_keeps_index:
  assumes "syms_ok m" "sym_count m \<le> 2 ^ 30" "nf \<le> length (md_funcs m)" "ne \<le> length (md_externs m)"
  shows "\<exists>m'. limba_module_truncate st m nf ne = Some (m', st + 1) \<and> syms_ok m' \<and>
    md_funcs m' = take nf (md_funcs m) \<and> md_externs m' = take ne (md_externs m) \<and> md_globals m' = md_globals m"
  using truncate_syms [OF assms, of st] by (simp add: limba_handled_touch_def)

theorem truncate_keeps_index_witness:
  "\<exists>m m' i st. limba_func_add 4 limba_module_new 3 5 0 = Some (m, i, st) \<and> length (md_funcs m) = 1 \<and>
     limba_module_truncate st m 0 0 = Some (m', st + 1) \<and> md_funcs m' = []"
proof -
  have none: "sym_names limba_module_new l = []" for l by (cases l) (simp_all add: limba_module_new_def)
  have c: "sym_count limba_module_new = 0" by (simp add: sym_count_def limba_module_new_def)
  have "sym_hash 3 SYM_FUNC \<noteq> sym_hash 3 SYM_GLOBAL" "sym_hash 3 SYM_FUNC \<noteq> sym_hash 3 SYM_EXTERN"
      "sym_hash 3 SYM_GLOBAL \<noteq> sym_hash 3 SYM_EXTERN"
    by (simp_all add: sym_hash_def limba_fnv_def le32_def LIMBA_FNV_SEED_def)
  then have "\<forall>k l. sym_hash 3 k = sym_hash 3 l \<longrightarrow> k = l"
    unfolding all_kinds [of "\<lambda>k. \<forall>l. sym_hash 3 k = sym_hash 3 l \<longrightarrow> k = l"] all_kinds by metis
  then have apart: "kinds_apart (insert 3 (all_names limba_module_new))"
    using none by (simp add: kinds_apart_def all_names_def)
  obtain m i st where m: "limba_func_add 4 limba_module_new 3 5 0 = Some (m, i, st)"
      "sym_added limba_module_new SYM_FUNC 3 m i"
    using func_add_syms [OF syms_ok_new apart, of 4 5 0] c by auto
  then have names: "syms_ok m" "sym_names m l = (if l = SYM_FUNC then [3] else [])" for l
    using none by (simp_all add: sym_added_def all_names_def del: sym_names.simps)
  then have "length (md_funcs m) = 1" "sym_count m \<le> 2 ^ 30"
    using names(2) [of SYM_FUNC] names(2) [of SYM_GLOBAL] names(2) [of SYM_EXTERN] by (auto simp: sym_count_def)
  then show ?thesis using truncate_keeps_index [OF names(1), of 0 0 st] m(1) by auto
qed

end
