(* ===== verification/Cfg.thy ===== *)
theory Cfg
  imports Module "HOL-Library.While_Combinator" "HOL-Library.Product_Lexorder"
begin

text \<open>
  The control-flow graph of a function: \<^verbatim>\<open>src/src/ir/cfg.c\<close>. The kinds of the operands, the
  successors read from the terminators, the edges of errors to the handlers, the rows of predecessors,
  the depth-first post-order, the iteration for the dominators (Cooper, Harvey and Kennedy) and the
  numbering of the dominator tree. A loop that the code does not bound is \<open>while_option\<close> or a
  \<open>partial_function\<close>: \<open>None\<close> is not returning, which the theory of the dominators excludes.
\<close>

unbundle bit_operations_syntax

section \<open>Operand kinds\<close>

datatype okind = LIMBA_OK_VALUE | LIMBA_OK_BLOCK | LIMBA_OK_RAW

definition limba_only_values :: "limba_inst \<Rightarrow> bool" where
  "limba_only_values i \<longleftrightarrow> op_format (limba_ops (in_op i)) \<notin> {LIMBA_F_BR, LIMBA_F_CBR, LIMBA_F_SWITCH}"

text \<open>The loop over the targets of a branch, \<open>t\<close> of them left, from operand \<open>k\<close>.\<close>

primrec branch_kinds :: "nat \<Rightarrow> (nat \<Rightarrow> nat) \<Rightarrow> nat \<Rightarrow> nat \<Rightarrow> okind list \<Rightarrow> bool \<times> okind list" where
  "branch_kinds 0 ops n k kinds = (k = n, kinds)"
| "branch_kinds (Suc t) ops n k kinds =
     (if k + 2 > n then (False, kinds)
      else let kinds = kinds[k := LIMBA_OK_BLOCK, k + 1 := LIMBA_OK_RAW]; args = ops (k + 1)
        in if args > n - k - 2 then (False, kinds) else branch_kinds t ops n (k + 2 + args) kinds)"

definition switch_kinds :: "nat \<Rightarrow> okind list \<Rightarrow> okind list" where
  "switch_kinds cases kinds =
     fold (\<lambda>c kinds. kinds[3 + 3 * c := LIMBA_OK_RAW, 4 + 3 * c := LIMBA_OK_RAW, 5 + 3 * c := LIMBA_OK_BLOCK])
       [0 ..< cases] kinds"

text \<open>The kinds are written even when the shape is wrong: some callers do not look at the answer.\<close>

definition limba_operand_kinds :: "limba_func \<Rightarrow> limba_inst \<Rightarrow> bool \<times> okind list" where
  "limba_operand_kinds f i =
     (let ops = operand f i; n = in_nops i; kinds = replicate n LIMBA_OK_VALUE; fmt = op_format (limba_ops (in_op i))
      in if fmt \<in> {LIMBA_F_ICONST, LIMBA_F_FCONST, LIMBA_F_SCONST, LIMBA_F_TYPED, LIMBA_F_SLOT, LIMBA_F_GADDR,
             LIMBA_F_FADDR, LIMBA_F_NONE, LIMBA_F_TRAP, LIMBA_F_PARAM} then (n = 0, kinds)
         else if fmt \<in> {LIMBA_F_UN, LIMBA_F_CONV, LIMBA_F_LOAD, LIMBA_F_CHECK} then (n = 1, kinds)
         else if fmt \<in> {LIMBA_F_BIN, LIMBA_F_CMP, LIMBA_F_STORE, LIMBA_F_ADDR, LIMBA_F_RC} then (n = 2, kinds)
         else if fmt \<in> {LIMBA_F_TERN, LIMBA_F_MEM3, LIMBA_F_RAISE} then (n = 3, kinds)
         else if fmt \<in> {LIMBA_F_CALL, LIMBA_F_CALL_EXT, LIMBA_F_CALL_RT} then (True, kinds)
         else if fmt = LIMBA_F_CALL_IND then (n \<ge> 1, kinds)
         else if fmt = LIMBA_F_RET then (n \<le> 1, kinds)
         else if fmt = LIMBA_F_BR then branch_kinds 1 ops n 0 kinds
         else if fmt = LIMBA_F_CBR then (if n < 1 then (False, kinds) else branch_kinds 2 ops n 1 kinds)
         else if n < 3 then (False, kinds)
         else let kinds = kinds[1 := LIMBA_OK_BLOCK, 2 := LIMBA_OK_RAW]; cases = ops 2
           in if cases > (n - 3) div 3 \<or> 3 + 3 * cases \<noteq> n then (False, kinds)
              else (True, switch_kinds cases kinds))"

section \<open>Successors\<close>

text \<open>All the successors of block \<open>b\<close>, in the order of the operands.\<close>

definition block_succs :: "limba_func \<Rightarrow> limba_id \<Rightarrow> limba_id list" where
  "block_succs f b =
     (let bl = fn_blocks f ! b
      in if bl_insts bl = [] then []
         else let i = fn_insts f ! last (bl_insts bl)
           in if op_flags (limba_ops (in_op i)) AND LIMBA_OPF_TERMINATOR = 0 then []
              else case limba_operand_kinds f i of
                     (ok, kinds) \<Rightarrow> if ok then map (operand f i) (filter (\<lambda>k. kinds ! k = LIMBA_OK_BLOCK) [0 ..< in_nops i])
                       else [])"

text \<open>The function of the code: how many they are, and the first \<open>room\<close> of them (\<open>max\<close>) written.\<close>

definition limba_succs :: "limba_func \<Rightarrow> limba_id \<Rightarrow> nat \<Rightarrow> nat \<times> limba_id list" where
  "limba_succs f b room = (length (block_succs f b), take room (block_succs f b))"

section \<open>Compressed rows\<close>

text \<open>Row \<open>b\<close> of an array of rows is \<open>vals[first[b] .. first[b + 1])\<close>.\<close>

definition row :: "nat list \<Rightarrow> nat list \<Rightarrow> nat \<Rightarrow> nat list" where
  "row first vals b = map (\<lambda>i. vals ! i) [first ! b ..< first ! (b + 1)]"

fun row_starts :: "nat \<Rightarrow> nat list \<Rightarrow> nat list" where
  "row_starts s [] = [s]"
| "row_starts s (c # cs) = s # row_starts (s + c) cs"

text \<open>
  Pairs turned into rows by counting: count the pairs of each key, sum the counts, then put each value
  at the next free place of its row. The code does it for the predecessors and for the children of the
  dominator tree.
\<close>

definition count_keys :: "nat \<Rightarrow> (nat \<times> nat) list \<Rightarrow> nat list" where
  "count_keys n ps = fold (\<lambda>(k, v) a. a[k + 1 := a ! (k + 1) + 1]) ps (replicate (n + 1) 0)"

definition sum_counts :: "nat \<Rightarrow> nat list \<Rightarrow> nat list" where
  "sum_counts n a = fold (\<lambda>b a. a[b + 1 := a ! (b + 1) + a ! b]) [0 ..< n] a"

definition fill_rows :: "nat list \<Rightarrow> (nat \<times> nat) list \<Rightarrow> nat list \<Rightarrow> nat list \<times> nat list" where
  "fill_rows first ps vals =
     fold (\<lambda>(k, v) (fill, vals). (fill[k := fill ! k + 1], vals[fill ! k := v])) ps (first, vals)"

definition group_rows :: "nat \<Rightarrow> (nat \<times> nat) list \<Rightarrow> nat list \<times> nat list" where
  "group_rows n ps =
     (let first = sum_counts n (count_keys n ps)
      in (first, snd (fill_rows first ps (replicate (first ! n + 1) 0))))"

section \<open>The edges of errors\<close>

text \<open>The handler of a block of the graph, when it has one and it is a block.\<close>

definition err_handler :: "limba_func \<Rightarrow> nat \<Rightarrow> nat \<Rightarrow> nat option" where
  "err_handler f n x =
     (let h = bl_handler (fn_blocks f ! x) in if h \<noteq> 0 \<and> h - 1 < n then Some (h - 1) else None)"

definition err_targets :: "limba_func \<Rightarrow> nat \<Rightarrow> (nat \<times> nat) list \<Rightarrow> (nat \<times> nat) list" where
  "err_targets f n es = List.map_filter (\<lambda>(b, x). map_option (\<lambda>h. (b, h)) (err_handler f n x)) es"

text \<open>One round: the pairs from the normal edges, from the errors so far, and those errors, sorted and unique.\<close>

definition err_round :: "limba_func \<Rightarrow> nat \<Rightarrow> (nat \<times> nat) list \<Rightarrow> (nat \<times> nat) list \<Rightarrow> (nat \<times> nat) list" where
  "err_round f n normal err =
     remdups_adj (sort (err_targets f n normal @ err_targets f n err @ err))"

text \<open>The rounds stop when one gives as many pairs as the one before.\<close>

partial_function (option) err_rounds ::
    "limba_func \<Rightarrow> nat \<Rightarrow> (nat \<times> nat) list \<Rightarrow> (nat \<times> nat) list \<Rightarrow> (nat \<times> nat) list option" where
  "err_rounds f n normal err =
     (let err' = err_round f n normal err
      in if length err' = length err then Some err' else err_rounds f n normal err')"

text \<open>The edges of the rows: block \<open>b\<close> to each of its successors, in order.\<close>

definition row_edges :: "nat \<Rightarrow> nat list \<Rightarrow> nat list \<Rightarrow> (nat \<times> nat) list" where
  "row_edges n first vals = concat (map (\<lambda>b. map (\<lambda>s. (b, s)) (row first vals b)) [0 ..< n])"

definition error_edges :: "limba_func \<Rightarrow> nat \<Rightarrow> nat list \<Rightarrow> nat list \<Rightarrow> (nat list \<times> nat list) option" where
  "error_edges f n sfirst succ =
     (if \<not> (\<exists>b < n. err_handler f n b \<noteq> None) then Some (sfirst, succ)
      else do {
        err \<leftarrow> err_rounds f n (row_edges n sfirst succ) [];
        let rows = map (\<lambda>b. row sfirst succ b @ map snd (filter (\<lambda>e. fst e = b) err)) [0 ..< n];
        Some (row_starts 0 (map length rows), concat rows)
      })"

section \<open>The graph\<close>

record limba_cfg =
  cf_n :: nat
  cf_sfirst :: "nat list"
  cf_succ :: "nat list"
  cf_pfirst :: "nat list"
  cf_pred :: "nat list"
  cf_idom :: "nat list"
  cf_pre :: "nat list"
  cf_post :: "nat list"

text \<open>
  The depth-first walk: the numbers \<open>po\<close> in post-order (\<open>UINT32_MAX\<close> for a block not seen, one less for
  one on the stack), the blocks in that order, the stack with its top first, and how many successors of
  each block were looked at.
\<close>

type_synonym walk = "nat list \<times> nat list \<times> nat list \<times> nat list"

definition po_step :: "nat list \<Rightarrow> nat list \<Rightarrow> walk \<Rightarrow> walk" where
  "po_step sfirst succ = (\<lambda>(po, order, stack, next).
     let b = hd stack; i = sfirst ! b + next ! b
     in if i < sfirst ! (b + 1)
        then let next = next[b := next ! b + 1]; s = succ ! i
          in if po ! s = LIMBA_NONE then (po[s := LIMBA_NONE - 1], order, s # stack, next) else (po, order, stack, next)
        else (po[b := length order], order @ [b], tl stack, next))"

definition post_order :: "nat \<Rightarrow> nat list \<Rightarrow> nat list \<Rightarrow> (nat list \<times> nat list) option" where
  "post_order n sfirst succ =
     map_option (\<lambda>(po, order, stack, next). (po, order))
       (while_option (\<lambda>(po, order, stack, next). stack \<noteq> []) (po_step sfirst succ)
         ((replicate n LIMBA_NONE)[0 := LIMBA_NONE - 1], [], [0], replicate (n + 1) 0))"

text \<open>The two fingers that climb the dominator tree to the common ancestor.\<close>

definition climb :: "nat list \<Rightarrow> nat list \<Rightarrow> nat \<Rightarrow> nat \<Rightarrow> nat option" where
  "climb po idom x y = while_option (\<lambda>x. po ! x < po ! y) (\<lambda>x. idom ! x) x"

partial_function (option) intersect :: "nat list \<Rightarrow> nat list \<Rightarrow> nat \<Rightarrow> nat \<Rightarrow> nat option" where
  "intersect po idom x y =
     (if x = y then Some x
      else do { x \<leftarrow> climb po idom x y; y \<leftarrow> climb po idom y x; intersect po idom x y })"

text \<open>The dominator of a block from those of its predecessors already known.\<close>

fun meet_preds :: "nat list \<Rightarrow> nat list \<Rightarrow> nat list \<Rightarrow> nat \<Rightarrow> nat option" where
  "meet_preds po idom [] nd = Some nd"
| "meet_preds po idom (p # ps) nd =
     (if idom ! p = LIMBA_NONE then meet_preds po idom ps nd
      else if nd = LIMBA_NONE then meet_preds po idom ps p
      else do { x \<leftarrow> intersect po idom p nd; meet_preds po idom ps x })"

fun idom_pass :: "nat list \<Rightarrow> (nat \<Rightarrow> nat list) \<Rightarrow> nat list \<Rightarrow> nat list \<Rightarrow> bool \<Rightarrow> (nat list \<times> bool) option" where
  "idom_pass po preds [] idom changed = Some (idom, changed)"
| "idom_pass po preds (b # bs) idom changed =
     (if b = 0 then idom_pass po preds bs idom changed
      else do {
        nd \<leftarrow> meet_preds po idom (preds b) LIMBA_NONE;
        if nd \<noteq> idom ! b then idom_pass po preds bs (idom[b := nd]) True else idom_pass po preds bs idom changed
      })"

text \<open>Passes over the reverse post-order until one changes nothing.\<close>

partial_function (option) idom_loop :: "nat list \<Rightarrow> (nat \<Rightarrow> nat list) \<Rightarrow> nat list \<Rightarrow> nat list \<Rightarrow> nat list option" where
  "idom_loop po preds rpo idom =
     do { (idom, changed) \<leftarrow> idom_pass po preds rpo idom False;
          if changed then idom_loop po preds rpo idom else Some idom }"

text \<open>The walk of the dominator tree that numbers the blocks before and after their subtrees.\<close>

type_synonym tree_walk = "nat list \<times> nat list \<times> nat \<times> nat list \<times> nat list"

definition tree_step :: "nat list \<Rightarrow> nat list \<Rightarrow> tree_walk \<Rightarrow> tree_walk" where
  "tree_step cfirst child = (\<lambda>(pre, post, clock, stack, next).
     let b = hd stack; i = cfirst ! b + next ! b
     in if i < cfirst ! (b + 1)
        then (pre[child ! i := clock], post, clock + 1, child ! i # stack, next[b := next ! b + 1])
        else (pre, post[b := clock], clock + 1, tl stack, next))"

definition number_tree :: "nat \<Rightarrow> nat list \<Rightarrow> (nat list \<times> nat list) option" where
  "number_tree n idom =
     (let (cfirst, child) = group_rows n (map (\<lambda>b. (idom ! b, b)) (filter (\<lambda>b. idom ! b \<noteq> LIMBA_NONE) [1 ..< n]))
      in map_option (\<lambda>(pre, post, clock, stack, next). (pre, post))
           (while_option (\<lambda>(pre, post, clock, stack, next). stack \<noteq> []) (tree_step cfirst child)
             (replicate (n + 1) 0, replicate (n + 1) 0, 1, [0], replicate (n + 1) 0)))"

text \<open>The whole: the answer is false when a terminator names a block that does not exist.\<close>

definition limba_cfg_build :: "limba_func \<Rightarrow> (bool \<times> limba_cfg) option" where
  "limba_cfg_build f =
     (let n = length (fn_blocks f);
          rows = map (block_succs f) [0 ..< n];
          ok = list_all (list_all (\<lambda>s. s < n)) rows;
          rows = map (map (\<lambda>s. if s \<ge> n then 0 else s)) rows
      in do {
        (sfirst, succ) \<leftarrow> error_edges f n (row_starts 0 (map length rows)) (concat rows);
        let (pfirst, pred) = group_rows n (map (\<lambda>(b, s). (s, b)) (row_edges n sfirst succ));
        if n = 0
        then Some (ok, \<lparr>cf_n = n, cf_sfirst = sfirst, cf_succ = succ, cf_pfirst = pfirst, cf_pred = pred,
               cf_idom = [], cf_pre = [0], cf_post = [0]\<rparr>)
        else do {
          (po, order) \<leftarrow> post_order n sfirst succ;
          idom \<leftarrow> idom_loop po (row pfirst pred) (rev order) ((replicate n LIMBA_NONE)[0 := 0]);
          (pre, post) \<leftarrow> number_tree n idom;
          Some (ok, \<lparr>cf_n = n, cf_sfirst = sfirst, cf_succ = succ, cf_pfirst = pfirst, cf_pred = pred,
               cf_idom = idom, cf_pre = pre, cf_post = post\<rparr>)
        }
      })"

definition limba_cfg_reachable :: "limba_cfg \<Rightarrow> limba_id \<Rightarrow> bool" where
  "limba_cfg_reachable c b \<longleftrightarrow> b < cf_n c \<and> cf_idom c ! b \<noteq> LIMBA_NONE"

definition limba_cfg_dominates :: "limba_cfg \<Rightarrow> limba_id \<Rightarrow> limba_id \<Rightarrow> bool" where
  "limba_cfg_dominates c a b \<longleftrightarrow> cf_pre c ! a \<le> cf_pre c ! b \<and> cf_post c ! b \<le> cf_post c ! a"

section \<open>Rows by counting\<close>

definition key_count :: "(nat \<times> nat) list \<Rightarrow> nat \<Rightarrow> nat" where
  "key_count ps k = length (filter (\<lambda>p. fst p = k) ps)"

definition key_values :: "(nat \<times> nat) list \<Rightarrow> nat \<Rightarrow> nat list" where
  "key_values ps k = map snd (filter (\<lambda>p. fst p = k) ps)"

definition key_start :: "(nat \<times> nat) list \<Rightarrow> nat \<Rightarrow> nat" where
  "key_start ps k = (\<Sum>i < k. key_count ps i)"

lemma count_keys_spec:
  assumes "\<forall>p \<in> set ps. fst p < n"
  shows "length (count_keys n ps) = n + 1 \<and> count_keys n ps ! 0 = 0 \<and>
    (\<forall>k < n. count_keys n ps ! Suc k = key_count ps k)"
  using assms
proof (induction ps rule: rev_induct)
  case (snoc p ps)
  then show ?case by (cases p) (auto simp: count_keys_def key_count_def nth_list_update)
qed (simp add: count_keys_def key_count_def)

lemma sum_counts_step:
  assumes a: "length a = n + 1" "a ! 0 = 0" and m: "m \<le> n"
  shows "length (sum_counts m a) = n + 1 \<and> (\<forall>j \<le> m. sum_counts m a ! j = (\<Sum>i < j. a ! Suc i)) \<and>
    (\<forall>j. m < j \<and> j \<le> n \<longrightarrow> sum_counts m a ! j = a ! j)"
  using m
proof (induction m)
  case (Suc m)
  then show ?case by (auto simp: sum_counts_def nth_list_update le_Suc_eq)
qed (simp add: sum_counts_def a)

lemma group_starts:
  assumes "\<forall>p \<in> set ps. fst p < n" "k \<le> n"
  shows "sum_counts n (count_keys n ps) ! k = key_start ps k" "length (sum_counts n (count_keys n ps)) = n + 1"
proof -
  note c = count_keys_spec [OF assms(1)]
  note s = sum_counts_step [OF c [THEN conjunct1] c [THEN conjunct2, THEN conjunct1] order_refl]
  have "sum_counts n (count_keys n ps) ! k = (\<Sum>i < k. count_keys n ps ! Suc i)"
    using s assms(2) by simp
  also have "\<dots> = key_start ps k"
    unfolding key_start_def using c assms(2) by (intro sum.cong) simp_all
  finally show "sum_counts n (count_keys n ps) ! k = key_start ps k" .
  show "length (sum_counts n (count_keys n ps)) = n + 1"
    using s by simp
qed

lemma key_start_mono: "i \<le> j \<Longrightarrow> key_start ps i \<le> key_start ps j"
  unfolding key_start_def by (rule sum_mono2) auto

lemma key_start_Suc: "key_start ps (Suc k) = key_start ps k + key_count ps k"
  by (simp add: key_start_def)

text \<open>The places of two rows are apart.\<close>

lemma key_places_apart:
  assumes "k \<noteq> l" "i < key_count ps k" "j < key_count ps l"
  shows "key_start ps k + i \<noteq> key_start ps l + j"
proof -
  have "key_start ps (Suc k) \<le> key_start ps l \<or> key_start ps (Suc l) \<le> key_start ps k"
    using assms(1) key_start_mono by (metis Suc_leI nat_neq_iff)
  then show ?thesis using assms(2,3) by (auto simp: key_start_Suc)
qed

lemma fill_rows_spec:
  assumes ps: "\<forall>p \<in> set ps. fst p < n" and first: "length first = n + 1" "\<forall>k \<le> n. first ! k = key_start ps k"
    and len: "key_start ps n \<le> length vals" and q: "ps = qs @ rs"
  shows "\<exists>fill vals'. fill_rows first qs vals = (fill, vals') \<and> length fill = n + 1 \<and> length vals' = length vals \<and>
    (\<forall>k < n. fill ! k = key_start ps k + key_count qs k) \<and>
    (\<forall>k < n. \<forall>j < key_count qs k. vals' ! (key_start ps k + j) = key_values qs k ! j)"
  using q
proof (induction qs arbitrary: rs rule: rev_induct)
  case Nil
  then show ?case using first by (simp add: fill_rows_def key_count_def)
next
  case (snoc p qs)
  obtain k v where p: "p = (k, v)" by fastforce
  have k: "k < n" using ps snoc.prems p by auto
  obtain fill vals' where f: "fill_rows first qs vals = (fill, vals')" "length fill = n + 1" "length vals' = length vals"
      "\<forall>k < n. fill ! k = key_start ps k + key_count qs k"
      "\<forall>k < n. \<forall>j < key_count qs k. vals' ! (key_start ps k + j) = key_values qs k ! j"
    using snoc.IH [of "p # rs"] snoc.prems by auto
  have cnt: "key_count (qs @ [p]) l = key_count qs l + (if l = k then 1 else 0)" for l
    by (simp add: key_count_def p)
  have le: "key_count (qs @ [p]) l \<le> key_count ps l" for l
    unfolding snoc.prems by (simp add: key_count_def)
  let ?at = "key_start ps k + key_count qs k"
  have at: "?at < length vals'"
  proof -
    have "key_count qs k < key_count ps k" using le [of k] cnt [of k] by simp
    then have "?at < key_start ps (Suc k)" by (simp add: key_start_Suc)
    also have "\<dots> \<le> key_start ps n" using k by (intro key_start_mono) simp
    finally show ?thesis using len f(3) by simp
  qed
  have run: "fill_rows first (qs @ [p]) vals = (fill[k := fill ! k + 1], vals'[?at := v])"
    using f(1,4) k by (simp add: fill_rows_def p)
  have "vals'[?at := v] ! (key_start ps l + j) = key_values (qs @ [p]) l ! j"
    if l: "l < n" and j: "j < key_count (qs @ [p]) l" for l j
  proof (cases "l = k \<and> j = key_count qs k")
    case True
    then show ?thesis using at by (simp add: key_values_def key_count_def p nth_append)
  next
    case False
    then have j': "j < key_count qs l" using j cnt [of l] by (auto split: if_splits)
    have "key_start ps l + j \<noteq> ?at"
    proof (cases "l = k")
      case True
      then show ?thesis using j' by simp
    next
      case lk: False
      have "key_count qs k < key_count ps k" "j < key_count ps l"
        using le [of k] cnt [of k] le [of l] j by simp_all
      then show ?thesis using key_places_apart [OF lk] by blast
    qed
    then have "vals'[?at := v] ! (key_start ps l + j) = key_values qs l ! j" using f(5) l j' by simp
    also have "\<dots> = key_values (qs @ [p]) l ! j"
      using j' by (simp add: key_values_def key_count_def nth_append p)
    finally show ?thesis .
  qed
  moreover have "fill[k := fill ! k + 1] ! l = key_start ps l + key_count (qs @ [p]) l" if "l < n" for l
    using f(2,4) that k by (simp add: cnt nth_list_update)
  ultimately show ?case using run f(2,3) by simp
qed

text \<open>Row \<open>k\<close> of the result is the list of the values paired with \<open>k\<close>, in order.\<close>

lemma group_rows_row:
  assumes ps: "\<forall>p \<in> set ps. fst p < n" and r: "group_rows n ps = (first, vals)" and k: "k < n"
  shows "row first vals k = key_values ps k"
proof -
  let ?first = "sum_counts n (count_keys n ps)"
  have first: "first = ?first" "vals = snd (fill_rows ?first ps (replicate (?first ! n + 1) 0))"
    using r unfolding group_rows_def Let_def by auto
  have st: "\<forall>k \<le> n. ?first ! k = key_start ps k" "length ?first = n + 1" using group_starts [OF ps] by auto
  obtain fill vals' where f: "fill_rows ?first ps (replicate (?first ! n + 1) 0) = (fill, vals')"
      "\<forall>k < n. \<forall>j < key_count ps k. vals' ! (key_start ps k + j) = key_values ps k ! j"
    using fill_rows_spec [OF ps st(2,1), of "replicate (?first ! n + 1) 0" ps "[]"] st(1) by auto
  have b: "first ! k = key_start ps k" "first ! (k + 1) = key_start ps k + key_count ps k"
    using st(1) k first(1) by (simp_all add: key_start_Suc)
  show ?thesis
  proof (rule nth_equalityI)
    show "length (row first vals k) = length (key_values ps k)"
      unfolding row_def b by (simp add: key_values_def key_count_def)
    fix j assume "j < length (row first vals k)"
    then have j: "j < key_count ps k" unfolding row_def b by simp
    then have "row first vals k ! j = vals ! (key_start ps k + j)" unfolding row_def b by simp
    then show "row first vals k ! j = key_values ps k ! j" using f j k first(2) by simp
  qed
qed

lemma group_rows_starts:
  assumes "\<forall>p \<in> set ps. fst p < n" "group_rows n ps = (first, vals)" "k \<le> n"
  shows "first ! k = key_start ps k" "length first = n + 1"
  using group_starts [OF assms(1,3)] assms(2) by (simp_all add: group_rows_def Let_def)

text \<open>The rows written one after the other.\<close>

lemma row_starts_nth: "k \<le> length cs \<Longrightarrow> row_starts s cs ! k = s + sum_list (take k cs)"
proof (induction cs arbitrary: s k)
  case (Cons c cs)
  then show ?case by (cases k) simp_all
qed simp

lemma length_row_starts [simp]: "length (row_starts s cs) = Suc (length cs)"
  by (induction cs arbitrary: s) simp_all

lemma concat_slice:
  assumes "b < length rows"
  shows "map (\<lambda>i. concat rows ! i) [sum_list (take b (map length rows)) ..< sum_list (take (Suc b) (map length rows))] = rows ! b"
  using assms
proof (induction rows arbitrary: b)
  case (Cons r rows)
  show ?case
  proof (cases b)
    case 0
    then show ?thesis by (auto intro!: nth_equalityI simp: nth_append)
  next
    case (Suc c)
    have "map (\<lambda>i. concat (r # rows) ! i) [length r + x ..< length r + y] = map (\<lambda>i. concat rows ! i) [x ..< y]" for x y
      by (rule nth_equalityI) (simp_all add: nth_append)
    then show ?thesis using Suc Cons.IH [of c] Cons.prems by simp
  qed
qed simp

lemma row_concat:
  "b < length rows \<Longrightarrow> row (row_starts 0 (map length rows)) (concat rows) b = rows ! b"
  using concat_slice [of b rows] by (simp add: row_def row_starts_nth)

section \<open>The edges of errors\<close>

text \<open>
  The least set of edges that gives every source of an edge into a protected block, normal or of an
  error, an edge to the handler of the block.
\<close>

inductive err_edge :: "limba_func \<Rightarrow> nat \<Rightarrow> (nat \<times> nat) set \<Rightarrow> nat \<Rightarrow> nat \<Rightarrow> bool" for f n N where
  normal: "(b, x) \<in> N \<Longrightarrow> err_handler f n x = Some h \<Longrightarrow> err_edge f n N b h"
| error: "err_edge f n N b x \<Longrightarrow> err_handler f n x = Some h \<Longrightarrow> err_edge f n N b h"

lemma sorted_remdups_adj_distinct: "sorted xs \<Longrightarrow> distinct (remdups_adj xs)"
  by (induction xs rule: remdups_adj.induct) (auto simp: order.strict_iff_order)

lemma set_err_targets:
  "set (err_targets f n es) = {(b, h). \<exists>x. (b, x) \<in> set es \<and> err_handler f n x = Some h}"
  by (force simp: err_targets_def map_filter_def image_iff split: option.splits)

lemma set_err_round:
  "set (err_round f n normal err) =
     {(b, h). \<exists>x. (b, x) \<in> set normal \<union> set err \<and> err_handler f n x = Some h} \<union> set err"
  by (auto simp: err_round_def set_err_targets)

lemma err_round_distinct: "distinct (err_round f n normal err)"
  by (simp add: err_round_def sorted_remdups_adj_distinct)

lemma err_handler_lt: "err_handler f n x = Some h \<Longrightarrow> h < n"
  by (auto simp: err_handler_def Let_def split: if_splits)

lemma err_rounds_spec:
  assumes "distinct err" "set err \<subseteq> {0 ..< n} \<times> {0 ..< n}" "set err \<subseteq> {(b, h). err_edge f n (set normal) b h}"
    and "set normal \<subseteq> {0 ..< n} \<times> {0 ..< n}"
  shows "\<exists>err'. err_rounds f n normal err = Some err' \<and> distinct err' \<and>
    set err' = {(b, h). err_edge f n (set normal) b h} \<and> set err' \<subseteq> {0 ..< n} \<times> {0 ..< n}"
  using assms(1-3)
proof (induction "n * n - length err" arbitrary: err rule: less_induct)
  case less
  let ?e = "err_round f n normal err"
  have e: "distinct ?e" "set err \<subseteq> set ?e" by (auto simp: err_round_distinct set_err_round)
  have sub: "set ?e \<subseteq> {0 ..< n} \<times> {0 ..< n}"
    using less.prems(2) assms(4) err_handler_lt [of f n] by (auto simp: set_err_round)
  have sound: "set ?e \<subseteq> {(b, h). err_edge f n (set normal) b h}"
    using less.prems(3) by (auto simp: set_err_round intro: err_edge.intros)
  have le: "length err \<le> length ?e" "length ?e \<le> n * n"
    using card_mono [OF finite_set e(2)] card_mono [OF _ sub] distinct_card [OF e(1)] distinct_card [OF less.prems(1)]
    by simp_all
  show ?case
  proof (cases "length ?e = length err")
    case True
    then have same: "set ?e = set err"
      using card_subset_eq [OF finite_set e(2)] distinct_card [OF e(1)] distinct_card [OF less.prems(1)] by simp
    have "(b, h) \<in> set ?e" if "err_edge f n (set normal) b h" for b h
      using that
    proof induction
      case (normal b x h)
      then show ?case by (auto simp: set_err_round)
    next
      case (error b x h)
      then have "(b, x) \<in> set err" using same by simp
      then show ?case using error.hyps(2) unfolding set_err_round by blast
    qed
    then have "set ?e = {(b, h). err_edge f n (set normal) b h}" using sound by auto
    then show ?thesis
      using True e(1) sub by (subst err_rounds.simps) (simp add: Let_def)
  next
    case False
    then have "n * n - length ?e < n * n - length err" using le by simp
    from less.hyps [OF this e(1) sub sound] show ?thesis
      using False by (subst err_rounds.simps) (simp add: Let_def)
  qed
qed

lemma set_row_edges: "set (row_edges n first vals) = {(b, s). b < n \<and> s \<in> set (row first vals b)}"
  by (auto simp: row_edges_def)

text \<open>The rows with the edges of errors: those of each block, then its errors.\<close>

lemma error_edges_spec:
  assumes rows: "length rows = n" "\<And>b. b < n \<Longrightarrow> set (rows ! b) \<subseteq> {0 ..< n}"
    and N: "N = {(b, s). b < n \<and> s \<in> set (rows ! b)}"
  shows "\<exists>rows'. error_edges f n (row_starts 0 (map length rows)) (concat rows) =
      Some (row_starts 0 (map length rows'), concat rows') \<and> length rows' = n \<and>
    (\<forall>b < n. \<exists>es. rows' ! b = rows ! b @ es \<and> set es = {h. err_edge f n N b h} \<and> set (rows' ! b) \<subseteq> {0 ..< n})"
proof -
  let ?first = "row_starts 0 (map length rows)" and ?vals = "concat rows"
  have r: "row ?first ?vals b = rows ! b" if "b < n" for b using row_concat that rows(1) by simp
  have edges: "set (row_edges n ?first ?vals) = N" using r by (auto simp: set_row_edges N)
  have sub: "set (row_edges n ?first ?vals) \<subseteq> {0 ..< n} \<times> {0 ..< n}" using rows(2) unfolding edges N by force
  have lt: "h < n" if "err_edge f n N b h" for b h using that by induction (auto dest: err_handler_lt)
  show ?thesis
  proof (cases "\<exists>b < n. err_handler f n b \<noteq> None")
    case False
    then have none: "err_handler f n x = None" if "x < n" for x using that by blast
    have no: "\<not> err_edge f n N b h" for b h
    proof
      assume "err_edge f n N b h"
      then show False
      proof induction
        case (normal b x h)
        then have "b < n" "x \<in> set (rows ! b)" by (simp_all add: N)
        then have "x < n" using rows(2) [of b] by auto
        then show ?case using none [of x] normal.hyps(2) by simp
      qed
    qed
    show ?thesis
      using False rows no unfolding error_edges_def by (intro exI [of _ rows]) simp
  next
    case True
    obtain err where err: "err_rounds f n (row_edges n ?first ?vals) [] = Some err" "distinct err"
        "set err = {(b, h). err_edge f n N b h}"
      using err_rounds_spec [of "[]" n f "row_edges n ?first ?vals"] sub unfolding edges by auto
    define rows' where "rows' = map (\<lambda>b. row ?first ?vals b @ map snd (filter (\<lambda>e. fst e = b) err)) [0 ..< n]"
    have "error_edges f n ?first ?vals = Some (row_starts 0 (map length rows'), concat rows')"
      using True err(1) unfolding error_edges_def rows'_def Let_def by simp
    moreover have "rows' ! b = rows ! b @ map snd (filter (\<lambda>e. fst e = b) err)" if "b < n" for b
      using that r by (simp add: rows'_def)
    moreover have "set (map snd (filter (\<lambda>e. fst e = b) err)) = {h. err_edge f n N b h}" for b
      using err(3) by force
    moreover have "set (rows' ! b) \<subseteq> {0 ..< n}" if "b < n" for b
      using rows(2) [OF that] lt calculation(2) [OF that] calculation(3) [of b] by auto
    ultimately show ?thesis by (intro exI [of _ rows']) (auto simp: rows'_def)
  qed
qed

text \<open>The rows of predecessors are the same edges turned round.\<close>

lemma pred_rows:
  assumes bounded: "\<And>b. b < n \<Longrightarrow> set (row sfirst succ b) \<subseteq> {0 ..< n}"
    and p: "group_rows n (map (\<lambda>(b, s). (s, b)) (row_edges n sfirst succ)) = (pfirst, pred)" and k: "k < n"
  shows "set (row pfirst pred k) = {b. b < n \<and> k \<in> set (row sfirst succ b)}"
proof -
  have "\<forall>e \<in> set (map (\<lambda>(b, s). (s, b)) (row_edges n sfirst succ)). fst e < n"
    using bounded by (force simp: set_row_edges)
  from group_rows_row [OF this p k] show ?thesis
    by (auto simp: key_values_def set_row_edges image_iff)
qed

end
