(* ===== verification/Walk.thy ===== *)
theory Walk
  imports Cfg
begin

text \<open>
  The depth-first walk of \<^verbatim>\<open>src/src/ir/cfg.c\<close>: it ends, it numbers exactly the blocks the entry
  reaches, each after every block of its subtree, so that a block other than the entry always has a
  predecessor with a greater number.
\<close>

section \<open>Paths from the entry\<close>

inductive entry_path :: "(nat \<Rightarrow> nat list) \<Rightarrow> nat list \<Rightarrow> nat \<Rightarrow> bool" for R where
  entry: "entry_path R [0] 0"
| edge: "entry_path R p a \<Longrightarrow> b \<in> set (R a) \<Longrightarrow> entry_path R (p @ [b]) b"

definition reach :: "(nat \<Rightarrow> nat list) \<Rightarrow> nat \<Rightarrow> bool" where
  "reach R b \<longleftrightarrow> (\<exists>p. entry_path R p b)"

text \<open>\<open>a\<close> dominates \<open>b\<close>: every path from the entry to \<open>b\<close> passes \<open>a\<close>.\<close>

definition dominates :: "(nat \<Rightarrow> nat list) \<Rightarrow> nat \<Rightarrow> nat \<Rightarrow> bool" where
  "dominates R a b \<longleftrightarrow> (\<forall>p. entry_path R p b \<longrightarrow> a \<in> set p)"

lemma reach_entry [simp]: "reach R 0"
  using entry_path.entry reach_def by blast

lemma reach_edge: "reach R a \<Longrightarrow> b \<in> set (R a) \<Longrightarrow> reach R b"
  using entry_path.edge reach_def by blast

lemma reach_closed:
  assumes "0 \<in> S" "\<And>a b. a \<in> S \<Longrightarrow> b \<in> set (R a) \<Longrightarrow> b \<in> S" "reach R b"
  shows "b \<in> S"
proof -
  obtain p where "entry_path R p b" using assms(3) by (auto simp: reach_def)
  then show ?thesis by induction (use assms(1,2) in auto)
qed

lemma row_length: "first ! b + k < first ! (b + 1) \<longleftrightarrow> k < length (row first vals b)"
  by (auto simp: row_def)

lemma row_nth: "k < length (row first vals b) \<Longrightarrow> vals ! (first ! b + k) = row first vals b ! k"
  by (simp add: row_def)

section \<open>The invariant of the walk\<close>

definition seen :: "walk \<Rightarrow> nat set" where
  "seen = (\<lambda>(po, order, stack, next). set order \<union> set stack)"

text \<open>The numbers and the lists.\<close>

definition walk_lists :: "nat \<Rightarrow> (nat \<Rightarrow> nat list) \<Rightarrow> walk \<Rightarrow> bool" where
  "walk_lists n R = (\<lambda>(po, order, stack, next).
     length po = n \<and> length next = n + 1 \<and> distinct (order @ stack) \<and> set order \<union> set stack \<subseteq> {0 ..< n} \<and>
     (\<forall>i < length order. po ! (order ! i) = i) \<and> (\<forall>b \<in> set stack. po ! b = LIMBA_NONE - 1) \<and>
     (\<forall>b < n. b \<notin> set order \<union> set stack \<longrightarrow> po ! b = LIMBA_NONE \<and> next ! b = 0))"

text \<open>The edges followed so far lead to blocks already seen.\<close>

definition walk_edges :: "(nat \<Rightarrow> nat list) \<Rightarrow> walk \<Rightarrow> bool" where
  "walk_edges R = (\<lambda>(po, order, stack, next).
     (\<forall>b \<in> set order. set (R b) \<subseteq> set order \<union> set stack) \<and>
     (\<forall>b \<in> set stack. next ! b \<le> length (R b) \<and> set (take (next ! b) (R b)) \<subseteq> set order \<union> set stack) \<and>
     (\<forall>b \<in> set order \<union> set stack. reach R b))"

text \<open>The stack is a path back to the entry; a finished block has a parent still on the stack or finished later.\<close>

definition walk_parents :: "(nat \<Rightarrow> nat list) \<Rightarrow> walk \<Rightarrow> bool" where
  "walk_parents R = (\<lambda>(po, order, stack, next).
     successively (\<lambda>b p. b \<in> set (R p)) stack \<and> (stack \<noteq> [] \<longrightarrow> last stack = 0) \<and>
     (stack = [] \<longrightarrow> order \<noteq> [] \<and> last order = 0) \<and>
     (\<forall>b \<in> set order. b \<noteq> 0 \<longrightarrow> (\<exists>p. b \<in> set (R p) \<and> (p \<in> set stack \<or> p \<in> set order \<and> po ! b < po ! p))))"

definition walk_measure :: "nat \<Rightarrow> (nat \<Rightarrow> nat list) \<Rightarrow> walk \<Rightarrow> nat" where
  "walk_measure n R = (\<lambda>(po, order, stack, next). 2 * (\<Sum>b < n. length (R b) - next ! b) + length stack)"

text \<open>The three kinds of step: a new block, a block already seen, the end of a block.\<close>

lemma po_step_cases:
  assumes "stack = b # rest" "R b = row sfirst succ b"
  shows "po_step sfirst succ (po, order, stack, next) =
    (if next ! b < length (R b)
     then (let s = R b ! (next ! b) in
       if po ! s = LIMBA_NONE then (po[s := LIMBA_NONE - 1], order, s # stack, next[b := next ! b + 1])
       else (po, order, stack, next[b := next ! b + 1]))
     else (po[b := length order], order @ [b], rest, next))"
  unfolding po_step_def using assms row_length [of sfirst b "next ! b" succ] row_nth [of "next ! b" sfirst succ b]
  by (simp add: Let_def)

lemma walk_measure_next:
  assumes "b < n" "length next = n + 1" "next ! b < length (R b)"
  shows "(\<Sum>a < n. length (R a) - next[b := next ! b + 1] ! a) < (\<Sum>a < n. length (R a) - next ! a)"
proof (rule sum_strict_mono_ex1)
  show "\<forall>a \<in> {..<n}. length (R a) - next[b := next ! b + 1] ! a \<le> length (R a) - next ! a"
    using assms(1,2) by (auto simp: nth_list_update)
  show "\<exists>a \<in> {..<n}. length (R a) - next[b := next ! b + 1] ! a < length (R a) - next ! a"
    using assms by (intro bexI [of _ b]) auto
qed simp

lemma lists_seen_mark:
  assumes "walk_lists n R (po, order, stack, next)" "s < n" "n < LIMBA_NONE"
  shows "po ! s = LIMBA_NONE \<longleftrightarrow> s \<notin> set order \<union> set stack"
proof
  assume none: "po ! s = LIMBA_NONE"
  show "s \<notin> set order \<union> set stack"
  proof
    assume "s \<in> set order \<union> set stack"
    then consider "s \<in> set order" | "s \<in> set stack" by blast
    then show False
    proof cases
      case 1
      then obtain i where i: "i < length order" "order ! i = s" by (metis in_set_conv_nth)
      have "distinct order" "set order \<subseteq> {0 ..< n}" using assms(1) by (auto simp: walk_lists_def)
      then have "length order \<le> n" by (metis card_atLeastLessThan card_mono diff_zero distinct_card finite_atLeastLessThan)
      moreover have "po ! s = i" using assms(1) i by (auto simp: walk_lists_def)
      ultimately show False using i none assms(3) by simp
    next
      case 2
      then have "po ! s = LIMBA_NONE - 1" using assms(1) by (auto simp: walk_lists_def)
      then show False using none by simp
    qed
  qed
qed (use assms in \<open>auto simp: walk_lists_def\<close>)

lemma step_new:
  assumes l: "walk_lists n R (po, order, b # rest, next)" and e: "walk_edges R (po, order, b # rest, next)"
    and p: "walk_parents R (po, order, b # rest, next)"
    and next_lt: "next ! b < length (R b)" and s: "s = R b ! (next ! b)" "s < n" "s \<notin> set order \<union> set (b # rest)"
  defines "st \<equiv> (po[s := LIMBA_NONE - 1], order, s # b # rest, next[b := next ! b + 1])"
  shows "walk_lists n R st" "walk_edges R st" "walk_parents R st"
proof -
  have b: "b < n" "b \<noteq> s" using l s by (auto simp: walk_lists_def)
  show "walk_lists n R st"
  proof -
    have "po[s := LIMBA_NONE - 1] ! (order ! i) = i" if "i < length order" for i
    proof -
      have "order ! i \<noteq> s" using s(3) that by auto
      then show ?thesis using l that by (auto simp: walk_lists_def)
    qed
    then show ?thesis using l s b unfolding st_def walk_lists_def by (auto simp: nth_list_update)
  qed
  have t: "take (Suc (next ! b)) (R b) = take (next ! b) (R b) @ [s]"
    using next_lt s(1) by (simp add: take_Suc_conv_app_nth)
  have "s \<in> set (R b)" using next_lt s(1) by simp
  then have r: "reach R s" using e reach_edge by (auto simp: walk_edges_def)
  show "walk_edges R st"
    using l e s b next_lt t r unfolding st_def walk_edges_def walk_lists_def by (auto simp: nth_list_update)
  show "walk_parents R st"
  proof -
    have "\<exists>p. a \<in> set (R p) \<and> (p \<in> set (s # b # rest) \<or> p \<in> set order \<and> po[s := LIMBA_NONE - 1] ! a < po[s := LIMBA_NONE - 1] ! p)"
      if a: "a \<in> set order" "a \<noteq> 0" for a
    proof -
      obtain p where p': "a \<in> set (R p)" "p \<in> set (b # rest) \<or> p \<in> set order \<and> po ! a < po ! p"
        using p a by (auto simp: walk_parents_def)
      have "a \<noteq> s" "p \<in> set order \<Longrightarrow> p \<noteq> s" using a s(3) by auto
      then show ?thesis using p' by (intro exI [of _ p]) auto
    qed
    then show ?thesis using p \<open>s \<in> set (R b)\<close> unfolding st_def walk_parents_def by auto
  qed
qed

lemma step_old:
  assumes l: "walk_lists n R (po, order, b # rest, next)" and e: "walk_edges R (po, order, b # rest, next)"
    and p: "walk_parents R (po, order, b # rest, next)"
    and next_lt: "next ! b < length (R b)" and s: "s = R b ! (next ! b)" "s \<in> set order \<union> set (b # rest)"
  defines "st \<equiv> (po, order, b # rest, next[b := next ! b + 1])"
  shows "walk_lists n R st" "walk_edges R st" "walk_parents R st"
proof -
  have b: "b < n" using l by (auto simp: walk_lists_def)
  show "walk_lists n R st" using l unfolding st_def walk_lists_def by (auto simp: nth_list_update)
  have t: "take (Suc (next ! b)) (R b) = take (next ! b) (R b) @ [s]"
    using next_lt s(1) by (simp add: take_Suc_conv_app_nth)
  show "walk_edges R st"
    using l e s b next_lt t unfolding st_def walk_edges_def walk_lists_def by (auto simp: nth_list_update)
  show "walk_parents R st" using p unfolding st_def walk_parents_def by auto
qed

lemma step_end:
  assumes l: "walk_lists n R (po, order, b # rest, next)" and e: "walk_edges R (po, order, b # rest, next)"
    and p: "walk_parents R (po, order, b # rest, next)" and next_ge: "\<not> next ! b < length (R b)"
  defines "st \<equiv> (po[b := length order], order @ [b], rest, next)"
  shows "walk_lists n R st" "walk_edges R st" "walk_parents R st"
proof -
  have b: "b < n" "b \<notin> set order" "b \<notin> set rest" "length po = n" using l by (auto simp: walk_lists_def)
  show "walk_lists n R st"
  proof -
    have "po[b := length order] ! ((order @ [b]) ! i) = i" if "i < Suc (length order)" for i
    proof (cases "i = length order")
      case False
      then have i: "i < length order" using that by simp
      then have "order ! i \<noteq> b" using b(2) by auto
      then show ?thesis using l i by (auto simp: walk_lists_def nth_append)
    qed (use b in simp)
    then show ?thesis using l b unfolding st_def walk_lists_def by (auto simp: nth_list_update)
  qed
  have "take (next ! b) (R b) = R b" using next_ge by simp
  then show "walk_edges R st"
    using e unfolding st_def walk_edges_def by auto
  show "walk_parents R st"
  proof -
    have zero: "b = 0 \<Longrightarrow> rest = []"
    proof (rule ccontr)
      assume "b = 0" "rest \<noteq> []"
      then have "last rest = 0" using p by (simp add: walk_parents_def)
      then show False using b(3) \<open>b = 0\<close> \<open>rest \<noteq> []\<close> last_in_set by metis
    qed
    have nil: "rest = [] \<Longrightarrow> b = 0" using p by (simp add: walk_parents_def)
    have num: "po ! a < length order" if a: "a \<in> set order" for a
    proof -
      obtain i where "i < length order" "order ! i = a" using a by (metis in_set_conv_nth)
      then show ?thesis using l by (auto simp: walk_lists_def)
    qed
    have "\<exists>q. a \<in> set (R q) \<and> (q \<in> set rest \<or> q \<in> set (order @ [b]) \<and> po[b := length order] ! a < po[b := length order] ! q)"
      if a: "a \<in> set (order @ [b])" "a \<noteq> 0" for a
    proof (cases "a = b")
      case True
      then obtain q rest' where "rest = q # rest'" using nil a(2) by (cases rest) auto
      then show ?thesis using p True by (intro exI [of _ q]) (simp add: walk_parents_def)
    next
      case False
      then have ao: "a \<in> set order" using a by simp
      then obtain q where q: "a \<in> set (R q)" "q \<in> set (b # rest) \<or> q \<in> set order \<and> po ! a < po ! q"
        using p a(2) by (auto simp: walk_parents_def)
      show ?thesis
        using q num [OF ao] b False by (intro exI [of _ q]) (auto simp: nth_list_update)
    qed
    moreover have "successively (\<lambda>b p. b \<in> set (R p)) rest" using p by (cases rest) (auto simp: walk_parents_def)
    moreover have "rest \<noteq> [] \<longrightarrow> last rest = 0" using p by (auto simp: walk_parents_def)
    ultimately show ?thesis using nil unfolding st_def walk_parents_def by auto
  qed
qed

definition walk_inv :: "nat \<Rightarrow> (nat \<Rightarrow> nat list) \<Rightarrow> walk \<Rightarrow> bool" where
  "walk_inv n R st \<longleftrightarrow> walk_lists n R st \<and> walk_edges R st \<and> walk_parents R st"

lemma walk_step:
  assumes n: "n < LIMBA_NONE" and R: "\<And>b. b < n \<Longrightarrow> R b = row sfirst succ b" "\<And>b. b < n \<Longrightarrow> set (R b) \<subseteq> {0 ..< n}"
    and inv: "walk_inv n R (po, order, stack, next)" and ne: "stack \<noteq> []"
  shows "walk_inv n R (po_step sfirst succ (po, order, stack, next)) \<and>
    walk_measure n R (po_step sfirst succ (po, order, stack, next)) < walk_measure n R (po, order, stack, next)"
proof -
  obtain b rest where st: "stack = b # rest" using ne by (cases stack) auto
  note i = inv [unfolded walk_inv_def st, THEN conjunct1] inv [unfolded walk_inv_def st, THEN conjunct2, THEN conjunct1]
    inv [unfolded walk_inv_def st, THEN conjunct2, THEN conjunct2]
  have b: "b < n" "length next = n + 1" using i(1) by (auto simp: walk_lists_def)
  note step = po_step_cases [of "b # rest" b rest R sfirst succ po order "next", OF refl R(1) [OF b(1)]]
  show ?thesis
  proof (cases "next ! b < length (R b)")
    case True
    let ?s = "R b ! (next ! b)"
    have s: "?s < n" using R(2) [OF b(1)] True nth_mem by fastforce
    note m = walk_measure_next [of b n "next" R, OF b True]
    show ?thesis
    proof (cases "po ! ?s = LIMBA_NONE")
      case none: True
      then have "?s \<notin> set order \<union> set (b # rest)" using lists_seen_mark [OF i(1) s n] by simp
      then show ?thesis
        using step_new [OF i True refl s] m True none by (simp add: step st Let_def walk_inv_def walk_measure_def)
    next
      case seen: False
      then have "?s \<in> set order \<union> set (b # rest)" using lists_seen_mark [OF i(1) s n] by simp
      then show ?thesis
        using step_old [OF i True refl] m True seen by (simp add: step st Let_def walk_inv_def walk_measure_def)
    qed
  next
    case False
    then show ?thesis
      using step_end [OF i False] by (simp add: step st walk_inv_def walk_measure_def)
  qed
qed

lemma walk_start:
  assumes "0 < n"
  shows "walk_inv n R ((replicate n LIMBA_NONE)[0 := LIMBA_NONE - 1], [], [0], replicate (n + 1) 0)"
  using assms by (auto simp: walk_inv_def walk_lists_def walk_edges_def walk_parents_def nth_list_update nth_Cons')

text \<open>What the walk gives: numbers for the blocks the entry reaches, parents after their children.\<close>

definition numbering :: "nat \<Rightarrow> (nat \<Rightarrow> nat list) \<Rightarrow> nat list \<Rightarrow> nat list \<Rightarrow> bool" where
  "numbering n R po order \<longleftrightarrow> length po = n \<and> distinct order \<and> set order = {b. reach R b} \<and> (\<forall>b. reach R b \<longrightarrow> b < n) \<and>
     order \<noteq> [] \<and> last order = 0 \<and> (\<forall>i < length order. po ! (order ! i) = i) \<and>
     (\<forall>b. reach R b \<and> b \<noteq> 0 \<longrightarrow> (\<exists>p. b \<in> set (R p) \<and> reach R p \<and> po ! b < po ! p))"

lemma post_order_spec:
  assumes n: "0 < n" "n < LIMBA_NONE" and R: "\<And>b. b < n \<Longrightarrow> R b = row sfirst succ b" "\<And>b. b < n \<Longrightarrow> set (R b) \<subseteq> {0 ..< n}"
  shows "\<exists>po order. post_order n sfirst succ = Some (po, order) \<and> numbering n R po order"
proof -
  let ?c = "\<lambda>(po, order, stack, next). stack \<noteq> []" and ?s = "((replicate n LIMBA_NONE)[0 := LIMBA_NONE - 1], [], [0], replicate (n + 1) 0)"
  have step: "walk_inv n R (po_step sfirst succ s) \<and> walk_measure n R (po_step sfirst succ s) < walk_measure n R s"
    if "walk_inv n R s" "?c s" for s
  proof -
    obtain po order stack "next" where s: "s = (po, order, stack, next)" by (cases s)
    show ?thesis using walk_step [OF n(2) R, of po order stack "next"] that unfolding s by simp
  qed
  obtain t where t: "while_option ?c (po_step sfirst succ) ?s = Some t"
    using measure_while_option_Some [of "walk_inv n R" ?c "po_step sfirst succ" "walk_measure n R" ?s] step walk_start [OF n(1)]
    by blast
  have inv: "walk_inv n R t" using while_option_rule [of "walk_inv n R", OF _ t walk_start [OF n(1)]] step by blast
  have stop: "\<not> ?c t" by (rule while_option_stop [OF t])
  obtain po order "next" where tt: "t = (po, order, [], next)" using stop by (cases t) auto
  have l: "length po = n" "distinct order" "set order \<subseteq> {0 ..< n}" "\<forall>i < length order. po ! (order ! i) = i"
    and e: "\<forall>b \<in> set order. set (R b) \<subseteq> set order" "\<forall>b \<in> set order. reach R b"
    and p: "order \<noteq> []" "last order = 0" "\<forall>b \<in> set order. b \<noteq> 0 \<longrightarrow> (\<exists>p. b \<in> set (R p) \<and> p \<in> set order \<and> po ! b < po ! p)"
    using inv unfolding tt walk_inv_def walk_lists_def walk_edges_def walk_parents_def by auto
  have "b \<in> set order" if "reach R b" for b
    using reach_closed [of "set order" R b] that e(1) p(1,2) last_in_set [of order] by auto
  then have "set order = {b. reach R b}" using e(2) by auto
  moreover have "b < n" if "reach R b" for b using that calculation l(3) by auto
  ultimately have "numbering n R po order" using l p unfolding numbering_def by auto
  then show ?thesis using t unfolding tt by (auto simp: post_order_def)
qed

end
