(* ===== verification/Dominators.thy ===== *)
theory Dominators
  imports Walk
begin

text \<open>
  The iteration of \<^verbatim>\<open>src/src/ir/cfg.c\<close> for the immediate dominators: it ends, and what it leaves is
  the immediate dominator of every block the entry reaches. The proof follows one pass at a time: after
  pass \<open>k\<close>, the dominator recorded for a block lies on every path to it with fewer than \<open>k\<close> edges against
  the order of the pass; and a strict dominator of a block always dominates the one recorded.
\<close>

section \<open>Chains of recorded dominators\<close>

inductive anc :: "nat list \<Rightarrow> nat \<Rightarrow> nat \<Rightarrow> bool" for D where
  self: "anc D x x"
| up: "x \<noteq> 0 \<Longrightarrow> anc D (D ! x) y \<Longrightarrow> anc D x y"

inductive_cases ancE: "anc D x y"

lemma anc_cases: "anc D x y \<Longrightarrow> y = x \<or> x \<noteq> 0 \<and> anc D (D ! x) y"
  by (erule ancE) auto

lemma anc_trans: "anc D x y \<Longrightarrow> anc D y z \<Longrightarrow> anc D x z"
  by (induction rule: anc.induct) (auto intro: anc.up)

definition known :: "(nat \<Rightarrow> nat list) \<Rightarrow> nat list \<Rightarrow> nat \<Rightarrow> bool" where
  "known R D b \<longleftrightarrow> reach R b \<and> D ! b \<noteq> LIMBA_NONE"

text \<open>
  What every state of the iteration satisfies: the entry is its own dominator, a block out of reach has
  none, a recorded dominator is known and numbered after the block, and the strict dominators of the
  block dominate it.
\<close>

definition dom_inv :: "nat \<Rightarrow> (nat \<Rightarrow> nat list) \<Rightarrow> nat list \<Rightarrow> nat list \<Rightarrow> bool" where
  "dom_inv n R po D \<longleftrightarrow> length D = n \<and> D ! 0 = 0 \<and> (\<forall>b < n. \<not> reach R b \<longrightarrow> D ! b = LIMBA_NONE) \<and>
     (\<forall>b. known R D b \<and> b \<noteq> 0 \<longrightarrow> known R D (D ! b) \<and> po ! b < po ! (D ! b) \<and>
        (\<forall>d. dominates R d b \<and> d \<noteq> b \<longrightarrow> dominates R d (D ! b)))"

lemma known_entry: "dom_inv n R po D \<Longrightarrow> known R D 0"
  by (simp add: dom_inv_def known_def)

lemma known_up: "dom_inv n R po D \<Longrightarrow> known R D b \<Longrightarrow> b \<noteq> 0 \<Longrightarrow> known R D (D ! b) \<and> po ! b < po ! (D ! b)"
  by (simp add: dom_inv_def)

lemma anc_known: "anc D x y \<Longrightarrow> dom_inv n R po D \<Longrightarrow> known R D x \<Longrightarrow> known R D y \<and> po ! x \<le> po ! y"
proof (induction rule: anc.induct)
  case (up x y)
  then show ?case using known_up [of n R po D x] by auto
qed simp

lemma entry_path_end: "entry_path R p b \<Longrightarrow> b \<in> set p"
  by (erule entry_path.cases) simp_all

lemma dom_self: "dominates R b b"
  unfolding dominates_def using entry_path_end by blast

lemma dom_entry: "dominates R d 0 \<Longrightarrow> d = 0"
  using entry_path.entry [of R] by (auto simp: dominates_def)

lemma dom_pred:
  assumes "dominates R d b" "d \<noteq> b" "b \<in> set (R p)"
  shows "dominates R d p"
  unfolding dominates_def
proof (intro allI impI)
  fix q assume "entry_path R q p"
  then have "entry_path R (q @ [b]) b" using assms(3) by (rule entry_path.edge)
  then show "d \<in> set q" using assms(1,2) by (auto simp: dominates_def)
qed

text \<open>The numbers of the blocks in reach are distinct, and the entry has the greatest.\<close>

lemma numbering_inj:
  assumes "numbering n R po order" "reach R a" "reach R b" "po ! a = po ! b"
  shows "a = b"
proof -
  obtain i j where "i < length order" "order ! i = a" "j < length order" "order ! j = b"
    using assms(1-3) unfolding numbering_def by (metis in_set_conv_nth mem_Collect_eq)
  then show ?thesis using assms(1,4) unfolding numbering_def by metis
qed

lemma numbering_entry:
  assumes "numbering n R po order" "reach R b"
  shows "po ! b \<le> po ! 0" "po ! b < length order"
proof -
  obtain i where i: "i < length order" "order ! i = b"
    using assms unfolding numbering_def by (metis in_set_conv_nth mem_Collect_eq)
  have num: "\<forall>i < length order. po ! (order ! i) = i" and ne: "order \<noteq> []" "last order = 0"
    using assms(1) unfolding numbering_def by blast+
  have "order ! (length order - 1) = 0" using ne by (metis last_conv_nth)
  then have "po ! 0 = length order - 1" using num ne(1) by (metis diff_less length_greater_0_conv zero_less_one)
  moreover have b: "po ! b = i" using i num by blast
  ultimately show "po ! b \<le> po ! 0" using i(1) by simp
  show "po ! b < length order" using b i(1) by simp
qed

lemma numbering_parent:
  assumes "numbering n R po order" "reach R b" "b \<noteq> 0"
  shows "\<exists>p. b \<in> set (R p) \<and> reach R p \<and> po ! b < po ! p"
proof -
  have "\<forall>b. reach R b \<and> b \<noteq> 0 \<longrightarrow> (\<exists>p. b \<in> set (R p) \<and> reach R p \<and> po ! b < po ! p)"
    using assms(1) unfolding numbering_def by (elim conjE)
  then show ?thesis using assms(2,3) by simp
qed

section \<open>The common ancestor of two chains\<close>

lemma climb_spec:
  assumes num: "numbering n R po order" and inv: "dom_inv n R po D" and x: "known R D x" and y: "known R D y"
  shows "\<exists>x'. climb po D x y = Some x' \<and> anc D x x' \<and> po ! y \<le> po ! x' \<and> (\<forall>z. anc D x z \<and> po ! y \<le> po ! z \<longrightarrow> anc D x' z) \<and>
    (po ! x < po ! y \<longrightarrow> po ! x < po ! x')"
proof -
  let ?P = "\<lambda>c. anc D x c \<and> (\<forall>z. anc D x z \<and> po ! y \<le> po ! z \<longrightarrow> anc D c z)"
  let ?b = "\<lambda>c. po ! c < po ! y" and ?c = "\<lambda>c. D ! c"
  have step: "?P (D ! c) \<and> length order - po ! (D ! c) < length order - po ! c" if c: "?P c" "?b c" for c
  proof -
    have k: "known R D c" using anc_known [of D x c] c(1) inv x by blast
    have "po ! y \<le> po ! 0" using numbering_entry(1) [OF num] y by (simp add: known_def)
    then have "c \<noteq> 0" using c(2) by (cases "c = 0") simp_all
    then have up: "known R D (D ! c)" "po ! c < po ! (D ! c)" using known_up [OF inv k] by simp_all
    have "anc D c (D ! c)" by (rule anc.up [OF \<open>c \<noteq> 0\<close> anc.self])
    then have "anc D x (D ! c)" using c(1) anc_trans [of D x c "D ! c"] by simp
    moreover have "anc D (D ! c) z" if "anc D x z" "po ! y \<le> po ! z" for z
    proof -
      have "anc D c z" using c(1) that by simp
      then have "z = c \<or> anc D (D ! c) z" using anc_cases [of D c z] by blast
      then show ?thesis using c(2) that(2) by (cases "z = c") simp_all
    qed
    moreover have "po ! (D ! c) < length order" using up(1) numbering_entry(2) [OF num] by (simp add: known_def)
    ultimately show ?thesis using up(2) by simp
  qed
  have start: "?P x" by (simp add: anc.self)
  obtain x' where x': "while_option ?b ?c x = Some x'"
    using measure_while_option_Some [of ?P ?b ?c "\<lambda>c. length order - po ! c" x, OF step start] by blast
  have P: "?P x'" using while_option_rule [of ?P, OF _ x' start] step by blast
  have le: "po ! y \<le> po ! x'" using while_option_stop [OF x'] by simp
  show ?thesis by (rule exI [of _ x']) (use x' P le in \<open>simp add: climb_def\<close>)
qed

text \<open>The meet of a set of known blocks: the lowest block on the chain of each.\<close>

definition meet :: "(nat \<Rightarrow> nat list) \<Rightarrow> nat list \<Rightarrow> nat set \<Rightarrow> nat \<Rightarrow> bool" where
  "meet R D S z \<longleftrightarrow> known R D z \<and> (\<forall>x \<in> S. anc D x z) \<and> (\<forall>w. (\<forall>x \<in> S. anc D x w) \<longrightarrow> anc D z w)"

lemma intersect_spec:
  assumes num: "numbering n R po order" and inv: "dom_inv n R po D" and "known R D x" "known R D y"
  shows "\<exists>z. intersect po D x y = Some z \<and> meet R D {x, y} z"
  using assms(3,4)
proof (induction "2 * length order - po ! x - po ! y" arbitrary: x y rule: less_induct)
  case less
  show ?case
  proof (cases "x = y")
    case True
    then show ?thesis using less.prems by (subst intersect.simps) (auto simp: meet_def anc.self)
  next
    case False
    obtain x' where x': "climb po D x y = Some x'" "anc D x x'" "po ! y \<le> po ! x'"
        "\<forall>z. anc D x z \<and> po ! y \<le> po ! z \<longrightarrow> anc D x' z" "po ! x < po ! y \<longrightarrow> po ! x < po ! x'"
      using climb_spec [OF num inv less.prems] by blast
    have kx: "known R D x'" "po ! x \<le> po ! x'" using anc_known [OF x'(2) inv less.prems(1)] by auto
    obtain y' where y': "climb po D y x' = Some y'" "anc D y y'" "po ! x' \<le> po ! y'"
        "\<forall>z. anc D y z \<and> po ! x' \<le> po ! z \<longrightarrow> anc D y' z" "po ! y < po ! x' \<longrightarrow> po ! y < po ! y'"
      using climb_spec [OF num inv less.prems(2) kx(1)] by blast
    have ky: "known R D y'" "po ! y \<le> po ! y'" using anc_known [OF y'(2) inv less.prems(2)] by auto
    have bounds: "po ! x' < length order" "po ! y' < length order"
      using numbering_entry(2) [OF num] kx(1) ky(1) by (simp_all add: known_def)
    have "po ! x \<noteq> po ! y" using numbering_inj [OF num] less.prems False by (auto simp: known_def)
    then have "po ! x + po ! y < po ! x' + po ! y'" using kx(2) ky(2) x'(3,5) y'(3,5) by linarith
    then have "2 * length order - po ! x' - po ! y' < 2 * length order - po ! x - po ! y" using bounds by linarith
    then obtain z where z: "intersect po D x' y' = Some z" "meet R D {x', y'} z"
      using less.hyps [OF _ kx(1) ky(1)] by blast
    have "anc D x' w \<and> anc D y' w" if w: "anc D x w" "anc D y w" for w
    proof -
      have "po ! y \<le> po ! w" using anc_known [OF w(2) inv less.prems(2)] by blast
      then have xw: "anc D x' w" using x'(4) w(1) by blast
      then have "po ! x' \<le> po ! w" using anc_known [OF _ inv kx(1)] by blast
      then show ?thesis using xw y'(4) w(2) by blast
    qed
    moreover have "known R D z" "anc D x' z" "anc D y' z" "\<And>w. anc D x' w \<and> anc D y' w \<Longrightarrow> anc D z w"
      using z(2) unfolding meet_def by simp_all
    ultimately have "meet R D {x, y} z"
      using anc_trans [OF x'(2), of z] anc_trans [OF y'(2), of z] unfolding meet_def by simp
    then show ?thesis
      using False x'(1) y'(1) z(1) by (subst intersect.simps) simp
  qed
qed

lemma meet_insert:
  assumes "meet R D {x, y} z" "meet R D S y"
  shows "meet R D (insert x S) z"
  using assms anc_trans unfolding meet_def by blast

lemma meet_unique:
  assumes num: "numbering n R po order" and inv: "dom_inv n R po D" and m: "meet R D S a" "meet R D S b"
  shows "a = b"
proof -
  have "anc D a b" "anc D b a" "known R D a" "known R D b" using m unfolding meet_def by blast+
  then have "po ! a = po ! b" using anc_known [OF _ inv] by (meson le_antisym)
  then show ?thesis using numbering_inj [OF num] \<open>known R D a\<close> \<open>known R D b\<close> by (simp add: known_def)
qed

text \<open>The loop over the predecessors gives the meet of those known.\<close>

lemma meet_preds_spec:
  assumes num: "numbering n R po order" and inv: "dom_inv n R po D" and n: "n < LIMBA_NONE"
    and ps: "set ps \<subseteq> {0 ..< n}" and nd: "if S = {} then nd = LIMBA_NONE else meet R D S nd"
  shows "\<exists>r. meet_preds po D ps nd = Some r \<and>
    (let K = S \<union> {p \<in> set ps. known R D p} in if K = {} then r = LIMBA_NONE else meet R D K r)"
  using ps nd
proof (induction ps arbitrary: S nd)
  case (Cons p ps)
  have p: "p < n" "set ps \<subseteq> {0 ..< n}" using Cons.prems(1) by auto
  have kn: "known R D p \<longleftrightarrow> D ! p \<noteq> LIMBA_NONE" using inv p(1) by (auto simp: dom_inv_def known_def)
  show ?case
  proof (cases "D ! p = LIMBA_NONE")
    case True
    have "{q \<in> set (p # ps). known R D q} = {q \<in> set ps. known R D q}" using kn True by auto
    then show ?thesis using Cons.IH [OF p(2) Cons.prems(2)] True by simp
  next
    case False
    have K: "S \<union> {q \<in> set (p # ps). known R D q} = insert p S \<union> {q \<in> set ps. known R D q}" using kn False by auto
    have kp: "known R D p" using kn False by simp
    show ?thesis
    proof (cases "S = {}")
      case True
      then have "nd = LIMBA_NONE" using Cons.prems(2) by simp
      moreover have "meet R D (insert p S) p" using True kp by (simp add: meet_def anc.self)
      ultimately show ?thesis using Cons.IH [OF p(2), of "insert p S" p] False unfolding K by simp
    next
      case ne: False
      then have m: "meet R D S nd" using Cons.prems(2) by simp
      then have knd: "known R D nd" by (simp add: meet_def)
      then have "nd < n" using num by (simp add: known_def numbering_def)
      then have "nd \<noteq> LIMBA_NONE" using n by auto
      obtain x where x: "intersect po D p nd = Some x" "meet R D {p, nd} x"
        using intersect_spec [OF num inv kp knd] by blast
      have "meet R D (insert p S) x" by (rule meet_insert [OF x(2) m])
      then show ?thesis using Cons.IH [OF p(2), of "insert p S" x] False x(1) \<open>nd \<noteq> LIMBA_NONE\<close> unfolding K by simp
    qed
  qed
qed simp

section \<open>Paths with few edges against the order\<close>

text \<open>At most \<open>k\<close> of the edges of the path may go against the reverse post-order.\<close>

inductive few_back :: "(nat \<Rightarrow> nat list) \<Rightarrow> nat list \<Rightarrow> nat \<Rightarrow> nat list \<Rightarrow> nat \<Rightarrow> bool" for R po where
  entry: "few_back R po k [0] 0"
| ahead: "few_back R po k p a \<Longrightarrow> b \<in> set (R a) \<Longrightarrow> po ! b < po ! a \<Longrightarrow> few_back R po k (p @ [b]) b"
| against: "few_back R po k p a \<Longrightarrow> b \<in> set (R a) \<Longrightarrow> few_back R po (Suc k) (p @ [b]) b"

lemma few_back_more: "few_back R po k p b \<Longrightarrow> few_back R po (Suc k) p b"
  by (induction rule: few_back.induct) (auto intro: few_back.intros)

lemma few_back_path: "few_back R po k p b \<Longrightarrow> entry_path R p b"
  by (induction rule: few_back.induct) (auto intro: entry_path.intros)

lemma few_back_reach: "few_back R po k p b \<Longrightarrow> reach R b"
  using few_back_path reach_def by blast

lemma path_few_back: "entry_path R p b \<Longrightarrow> few_back R po (length p) p b"
proof (induction rule: entry_path.induct)
  case (edge p a b)
  then show ?case using few_back.against [of R po "length p" p a b] by simp
qed (rule few_back.entry)

text \<open>A block of the path ends a part of it.\<close>

lemma few_back_prefix: "few_back R po k p b \<Longrightarrow> z \<in> set p \<Longrightarrow> \<exists>q. few_back R po k q z \<and> set q \<subseteq> set p"
proof (induction rule: few_back.induct)
  case (entry k)
  then show ?case using few_back.entry [of R po k] by auto
next
  case (ahead k p a b)
  show ?case
  proof (cases "z = b")
    case True
    then show ?thesis using few_back.ahead [OF ahead.hyps] by blast
  next
    case False
    then obtain q where "few_back R po k q z" "set q \<subseteq> set p" using ahead by auto
    then show ?thesis by auto
  qed
next
  case (against k p a b)
  show ?case
  proof (cases "z = b")
    case True
    then show ?thesis using few_back.against [OF against.hyps] by blast
  next
    case False
    then obtain q where "few_back R po k q z" "set q \<subseteq> set p" using against by auto
    then show ?thesis using few_back_more [OF \<open>few_back R po k q z\<close>] by (intro exI [of _ q]) auto
  qed
qed

text \<open>A path can be shortened to one that visits no block twice.\<close>

lemma path_simple:
  assumes "entry_path R p b"
  shows "\<exists>q. entry_path R q b \<and> set q \<subseteq> set p \<and> distinct q"
  using assms
proof (induction rule: entry_path.induct)
  case entry
  then show ?case using entry_path.entry [of R] by (intro exI [of _ "[0]"]) simp
next
  case (edge p a b)
  then obtain q where q: "entry_path R q a" "set q \<subseteq> set p" "distinct q" by blast
  show ?case
  proof (cases "b \<in> set q")
    case False
    then show ?thesis using entry_path.edge [OF q(1) edge.hyps(2)] q by (intro exI [of _ "q @ [b]"]) auto
  next
    case True
    have "\<exists>q'. entry_path R q' b \<and> set q' \<subseteq> set q \<and> distinct q'"
      using q(1) q(3) True
    proof (induction rule: entry_path.induct)
      case entry
      then show ?case using entry_path.entry [of R] by (intro exI [of _ "[0]"]) simp
    next
      case (edge r c d)
      show ?case
      proof (cases "b = d")
        case True
        then show ?thesis using entry_path.edge [OF edge.hyps] edge.prems(1) by blast
      next
        case False
        then obtain q' where "entry_path R q' b" "set q' \<subseteq> set r" "distinct q'" using edge by auto
        then show ?thesis by auto
      qed
    qed
    then show ?thesis using q(2) by auto
  qed
qed

text \<open>The recorded dominator lies on every path with at most \<open>k\<close> edges against the order.\<close>

definition on_paths :: "(nat \<Rightarrow> nat list) \<Rightarrow> nat list \<Rightarrow> nat list \<Rightarrow> nat \<Rightarrow> nat \<Rightarrow> bool" where
  "on_paths R po D k b \<longleftrightarrow> (\<forall>p. few_back R po k p b \<longrightarrow> D ! b \<in> set p)"

lemma on_paths_less: "on_paths R po D (Suc k) b \<Longrightarrow> on_paths R po D k b"
  using few_back_more by (auto simp: on_paths_def)

text \<open>Then so does the whole chain.\<close>

lemma chain_on_paths:
  assumes "anc D x z" "\<And>y. anc D x y \<Longrightarrow> y \<noteq> 0 \<Longrightarrow> on_paths R po D k y" "few_back R po k p x"
  shows "z \<in> set p"
  using assms
proof (induction arbitrary: p rule: anc.induct)
  case (self x)
  then show ?case using entry_path_end few_back_path by blast
next
  case (up x y)
  have "on_paths R po D k x" using up.prems(1) [OF anc.self up.hyps(1)] .
  then have "D ! x \<in> set p" using up.prems(2) by (simp add: on_paths_def)
  then obtain q where q: "few_back R po k q (D ! x)" "set q \<subseteq> set p" using few_back_prefix [OF up.prems(2)] by blast
  have "y \<in> set q"
    by (rule up.IH [OF _ q(1)]) (rule up.prems(1) [OF anc.up [OF up.hyps(1)]])
  then show ?case using q(2) by blast
qed

text \<open>A strict dominator of a block is on its chain, and dominates the blocks of the chain below it.\<close>

lemma dom_up:
  assumes inv: "dom_inv n R po D" and num: "numbering n R po order"
  shows "known R D x \<Longrightarrow> dominates R d x \<Longrightarrow> anc D x d \<and> (\<forall>z. anc D x z \<and> anc D z d \<longrightarrow> dominates R d z)"
proof (induction "length order - po ! x" arbitrary: x rule: less_induct)
  case less
  show ?case
  proof (cases "d = x")
    case True
    have "z = x" if "anc D x z" "anc D z x" for z
    proof -
      have "known R D z" "po ! x \<le> po ! z" using anc_known [OF that(1) inv less.prems(1)] by auto
      moreover have "po ! z \<le> po ! x" using anc_known [OF that(2) inv] calculation(1) by blast
      ultimately show ?thesis using numbering_inj [OF num, of z x] less.prems(1) by (auto simp: known_def)
    qed
    then show ?thesis using True dom_self [of R x] anc.self [of D x] by auto
  next
    case False
    have x0: "x \<noteq> 0" using False dom_entry [of R d] less.prems(2) by (cases "x = 0") auto
    then have up: "known R D (D ! x)" "po ! x < po ! (D ! x)" "dominates R d (D ! x)"
      using inv less.prems False by (simp_all add: dom_inv_def)
    have "po ! (D ! x) < length order" using up(1) numbering_entry(2) [OF num] by (simp add: known_def)
    then have ih: "anc D (D ! x) d" "\<forall>z. anc D (D ! x) z \<and> anc D z d \<longrightarrow> dominates R d z"
      using less.hyps [of "D ! x"] up by auto
    have "dominates R d z" if "anc D x z" "anc D z d" for z
      using anc_cases [OF that(1)] ih(2) that(2) less.prems(2) by auto
    then show ?thesis using anc.up [OF x0 ih(1)] by blast
  qed
qed

section \<open>One pass\<close>

text \<open>What a pass finds: from the second one on, every block in reach is known.\<close>

definition settled :: "(nat \<Rightarrow> nat list) \<Rightarrow> nat list \<Rightarrow> nat list \<Rightarrow> nat \<Rightarrow> nat \<Rightarrow> bool" where
  "settled R po D k c \<longleftrightarrow> known R D c \<and> (c \<noteq> 0 \<longrightarrow> on_paths R po D k c)"

definition pass_pre :: "(nat \<Rightarrow> nat list) \<Rightarrow> nat list \<Rightarrow> nat list \<Rightarrow> nat \<Rightarrow> bool" where
  "pass_pre R po D k \<longleftrightarrow> (\<forall>j c. k = Suc j \<and> reach R c \<longrightarrow> settled R po D j c)"

lemma settled_less: "settled R po D (Suc k) c \<Longrightarrow> settled R po D k c"
  by (simp add: settled_def on_paths_less)

lemma settled_update: "c \<noteq> b \<Longrightarrow> settled R po (D[b := d]) k c \<longleftrightarrow> settled R po D k c"
  by (simp add: settled_def on_paths_def known_def)

lemma few_back_last:
  assumes "few_back R po k p b" "b \<noteq> 0"
  shows "(\<exists>q a. p = q @ [b] \<and> few_back R po k q a \<and> b \<in> set (R a) \<and> po ! b < po ! a) \<or>
    (\<exists>q a j. k = Suc j \<and> p = q @ [b] \<and> few_back R po j q a \<and> b \<in> set (R a))"
  using assms by (cases rule: few_back.cases) auto

lemma dom_inv_update:
  assumes num: "numbering n R po order" and inv: "dom_inv n R po D" and n: "n < LIMBA_NONE"
    and b: "reach R b" "b \<noteq> 0" and K: "\<And>p. p \<in> K \<Longrightarrow> known R D p \<and> b \<in> set (R p)" and p: "p \<in> K" "po ! b < po ! p"
    and m: "meet R D K nd"
  shows "dom_inv n R po (D[b := nd])" "known R (D[b := nd]) b"
proof -
  have bn: "b < n" "length D = n" using num inv b by (simp_all add: numbering_def dom_inv_def)
  have nd: "known R D nd" "anc D p nd" using m p(1) by (simp_all add: meet_def)
  have "po ! p \<le> po ! nd" using anc_known [OF nd(2) inv] K [OF p(1)] by blast
  then have lt: "po ! b < po ! nd" and ne: "nd \<noteq> b" using p(2) by auto
  have "nd < n" using num nd(1) by (simp add: numbering_def known_def)
  then have none: "nd \<noteq> LIMBA_NONE" using n by auto
  then show k: "known R (D[b := nd]) b" using b(1) bn by (simp add: known_def)
  have keep: "known R (D[b := nd]) c" if "known R D c" for c
    using that k by (cases "c = b") (simp_all add: known_def)
  have dom: "dominates R d nd" if d: "dominates R d b" "d \<noteq> b" for d
  proof -
    have "anc D q d" if "q \<in> K" for q
      using dom_up [OF inv num, of q d] K [OF that] dom_pred [OF d, of q] by blast
    then have "anc D nd d" using m by (simp add: meet_def)
    moreover have "dominates R d p" using dom_pred [OF d, of p] K [OF p(1)] by blast
    ultimately show ?thesis using dom_up [OF inv num, of p d] K [OF p(1)] nd(2) by blast
  qed
  have "known R (D[b := nd]) (D[b := nd] ! c) \<and> po ! c < po ! (D[b := nd] ! c) \<and>
      (\<forall>d. dominates R d c \<and> d \<noteq> c \<longrightarrow> dominates R d (D[b := nd] ! c))" if c: "known R (D[b := nd]) c" "c \<noteq> 0" for c
  proof (cases "c = b")
    case True
    then show ?thesis using keep [OF nd(1)] lt dom bn by simp
  next
    case False
    then have "known R D c" using c(1) by (simp add: known_def)
    then show ?thesis using inv c(2) False keep unfolding dom_inv_def by simp
  qed
  moreover have "\<forall>c < n. \<not> reach R c \<longrightarrow> D[b := nd] ! c = LIMBA_NONE"
  proof (intro allI impI)
    fix c assume c: "c < n" "\<not> reach R c"
    then have "c \<noteq> b" using b(1) by (cases "c = b") simp_all
    then show "D[b := nd] ! c = LIMBA_NONE" using inv c by (simp add: dom_inv_def)
  qed
  ultimately show "dom_inv n R po (D[b := nd])" using inv b(2) bn unfolding dom_inv_def by simp
qed

text \<open>One block of a pass: its new dominator lies on every path with at most \<open>k\<close> edges against the order.\<close>

lemma pass_block:
  assumes num: "numbering n R po order" and inv: "dom_inv n R po D" and n: "n < LIMBA_NONE"
    and preds: "set (preds b) = {a. a < n \<and> b \<in> set (R a)}" and b: "reach R b" "b \<noteq> 0"
    and over: "\<And>c. reach R c \<Longrightarrow> po ! b < po ! c \<Longrightarrow> settled R po D k c" and pre: "pass_pre R po D k"
  shows "\<exists>nd. meet_preds po D (preds b) LIMBA_NONE = Some nd \<and> dom_inv n R po (D[b := nd]) \<and> settled R po (D[b := nd]) k b"
proof -
  let ?K = "{p \<in> set (preds b). known R D p}"
  obtain p where p: "b \<in> set (R p)" "reach R p" "po ! b < po ! p" using numbering_parent [OF num b] by blast
  have "known R D p" using over [OF p(2,3)] by (simp add: settled_def)
  moreover have "p < n" using num p(2) by (simp add: numbering_def)
  ultimately have pK: "p \<in> ?K" using p(1) preds by simp
  have "set (preds b) \<subseteq> {0 ..< n}" unfolding preds by auto
  then obtain nd where nd: "meet_preds po D (preds b) LIMBA_NONE = Some nd"
      "if ?K = {} then nd = LIMBA_NONE else meet R D ?K nd"
    using meet_preds_spec [OF num inv n \<open>set (preds b) \<subseteq> {0 ..< n}\<close>, of "{}" LIMBA_NONE, simplified if_True refl simp_thms]
    unfolding Let_def Un_empty_left by blast
  have "?K \<noteq> {}" using pK by blast
  then have m: "meet R D ?K nd" using nd(2) by (simp only: if_False)
  have K: "known R D q \<and> b \<in> set (R q)" if "q \<in> ?K" for q using that preds by auto
  note up = dom_inv_update [OF num inv n b K pK p(3) m]
  have bn: "b < length D" using num inv b(1) by (simp add: numbering_def dom_inv_def)
  have at: "nd \<in> set q" if q: "few_back R po i q a" "b \<in> set (R a)"
      and c: "\<And>y. reach R y \<Longrightarrow> po ! a \<le> po ! y \<Longrightarrow> settled R po D i y" for i q a
  proof -
    have r: "reach R a" by (rule few_back_reach [OF q(1)])
    then have ka: "known R D a" using c [OF r order_refl] by (simp add: settled_def)
    have "a < n" using num r by (simp add: numbering_def)
    then have "a \<in> ?K" using preds q(2) ka by simp
    then have "anc D a nd" using m by (simp add: meet_def)
    then show ?thesis
    proof (rule chain_on_paths [OF _ _ q(1)])
      fix y assume y: "anc D a y" "y \<noteq> 0"
      have "reach R y" "po ! a \<le> po ! y" using anc_known [OF y(1) inv ka] by (simp_all add: known_def)
      then show "on_paths R po D i y" using c y(2) by (simp add: settled_def)
    qed
  qed
  have "nd \<in> set q" if "few_back R po k q b" for q
    using few_back_last [OF that b(2)]
  proof (elim disjE exE conjE)
    fix r a assume a: "q = r @ [b]" "few_back R po k r a" "b \<in> set (R a)" "po ! b < po ! a"
    have "nd \<in> set r" using at [OF a(2,3)] over a(4) by simp
    then show ?thesis using a(1) by simp
  next
    fix r a j assume a: "k = Suc j" "q = r @ [b]" "few_back R po j r a" "b \<in> set (R a)"
    have "nd \<in> set r" using at [OF a(3,4)] pre a(1) by (simp add: pass_pre_def)
    then show ?thesis using a(2) by simp
  qed
  then have "settled R po (D[b := nd]) k b" using up(2) bn by (simp add: settled_def on_paths_def)
  then show ?thesis using nd(1) up(1) by blast
qed

text \<open>The blocks a pass has still to visit are those numbered below the ones it visited.\<close>

definition pass_todo :: "(nat \<Rightarrow> nat list) \<Rightarrow> nat list \<Rightarrow> nat list \<Rightarrow> bool" where
  "pass_todo R po bs \<longleftrightarrow> distinct bs \<and> set bs \<subseteq> {b. reach R b} \<and> sorted_wrt (\<lambda>a b. po ! b < po ! a) bs \<and>
     (\<forall>c. reach R c \<and> c \<notin> set bs \<longrightarrow> (\<forall>b \<in> set bs. po ! b < po ! c))"

lemma pass_todo_Cons:
  assumes "pass_todo R po (b # bs)"
  shows "pass_todo R po bs" "reach R b" "b \<notin> set bs"
  using assms by (auto simp: pass_todo_def)

lemma pass_todo_above:
  assumes "pass_todo R po (b # bs)" "reach R c" "po ! b < po ! c"
  shows "c \<notin> set (b # bs)"
  using assms by (auto simp: pass_todo_def)

lemma pass_spec:
  assumes num: "numbering n R po order" and n: "n < LIMBA_NONE"
    and preds: "\<And>b. b < n \<Longrightarrow> set (preds b) = {a. a < n \<and> b \<in> set (R a)}"
  shows "dom_inv n R po D \<Longrightarrow> pass_pre R po D k \<Longrightarrow> pass_todo R po bs \<Longrightarrow>
    (\<And>c. reach R c \<Longrightarrow> c \<notin> set bs \<Longrightarrow> settled R po D k c) \<Longrightarrow>
    \<exists>D' ch'. idom_pass po preds bs D ch = Some (D', ch') \<and> dom_inv n R po D' \<and>
      (\<forall>c. reach R c \<longrightarrow> settled R po D' k c) \<and> (ch' \<longleftrightarrow> ch \<or> D' \<noteq> D) \<and> (\<forall>c. c \<notin> set bs \<longrightarrow> D' ! c = D ! c)"
proof (induction bs arbitrary: D ch)
  case Nil
  then show ?case by simp
next
  case (Cons b bs)
  note todo = pass_todo_Cons [OF Cons.prems(3)]
  show ?case
  proof (cases "b = 0")
    case True
    have "settled R po D k 0" using known_entry [OF Cons.prems(1)] by (simp add: settled_def)
    then have s: "settled R po D k c" if "reach R c" "c \<notin> set bs" for c
      using Cons.prems(4) [OF that(1)] that(2) True by (cases "c = 0") simp_all
    obtain D' ch' where r: "idom_pass po preds bs D ch = Some (D', ch')" "dom_inv n R po D'"
        "\<forall>c. reach R c \<longrightarrow> settled R po D' k c" "ch' \<longleftrightarrow> ch \<or> D' \<noteq> D" "\<forall>c. c \<notin> set bs \<longrightarrow> D' ! c = D ! c"
      using Cons.IH [OF Cons.prems(1,2) todo(1) s] by blast
    show ?thesis using r True by (intro exI [of _ D'] exI [of _ ch']) simp
  next
    case False
    have bn: "b < n" "length D = n" using num todo(2) Cons.prems(1) by (simp_all add: numbering_def dom_inv_def)
    have above: "settled R po D k c" if "reach R c" "po ! b < po ! c" for c
      using Cons.prems(4) [OF that(1) pass_todo_above [OF Cons.prems(3) that]] .
    obtain nd where nd: "meet_preds po D (preds b) LIMBA_NONE = Some nd" "dom_inv n R po (D[b := nd])"
        "settled R po (D[b := nd]) k b"
      using pass_block [of n R po order D preds b k, OF num Cons.prems(1) n preds [OF bn(1)] todo(2) False above Cons.prems(2)]
      by blast
    let ?D = "D[b := nd]"
    have step: "idom_pass po preds (b # bs) D ch = idom_pass po preds bs ?D (ch \<or> ?D \<noteq> D)"
    proof (cases "nd = D ! b")
      case True
      then show ?thesis using nd(1) False by simp
    next
      case ne: False
      then have "?D \<noteq> D" using bn by (metis nth_list_update_eq)
      then show ?thesis using nd(1) False ne by simp
    qed
    have pre: "pass_pre R po ?D k"
      unfolding pass_pre_def
    proof (intro allI impI, elim conjE)
      fix j c assume j: "k = Suc j" "reach R c"
      show "settled R po ?D j c"
        using settled_less [of R po ?D j b] nd(3) Cons.prems(2) j settled_update [of c b R po D nd j]
        by (cases "c = b") (simp_all add: pass_pre_def)
    qed
    have s: "settled R po ?D k c" if "reach R c" "c \<notin> set bs" for c
      using Cons.prems(4) [OF that(1)] that(2) nd(3) settled_update [of c b R po D nd k] by (cases "c = b") simp_all
    obtain D' ch' where r: "idom_pass po preds bs ?D (ch \<or> ?D \<noteq> D) = Some (D', ch')" "dom_inv n R po D'"
        "\<forall>c. reach R c \<longrightarrow> settled R po D' k c" "ch' \<longleftrightarrow> (ch \<or> ?D \<noteq> D) \<or> D' \<noteq> ?D" "\<forall>c. c \<notin> set bs \<longrightarrow> D' ! c = ?D ! c"
      using Cons.IH [OF nd(2) pre todo(1) s, of "ch \<or> ?D \<noteq> D"] by blast
    have "D' \<noteq> D" if "?D \<noteq> D"
    proof
      assume "D' = D"
      then have "D ! b = nd" using r(5) todo(3) bn by simp
      then show False using that by auto
    qed
    then have "ch' \<longleftrightarrow> ch \<or> D' \<noteq> D" using r(4) by auto
    moreover have "\<forall>c. c \<notin> set (b # bs) \<longrightarrow> D' ! c = D ! c" using r(5) by simp
    ultimately show ?thesis using r(1-3) step by (intro exI [of _ D'] exI [of _ ch']) simp
  qed
qed

section \<open>The passes end at the immediate dominators\<close>

text \<open>
  What the iteration leaves: the recorded dominator of a block is a strict dominator, and the other
  strict dominators dominate it.
\<close>

definition idom_ok :: "nat \<Rightarrow> (nat \<Rightarrow> nat list) \<Rightarrow> nat list \<Rightarrow> nat list \<Rightarrow> bool" where
  "idom_ok n R po D \<longleftrightarrow> dom_inv n R po D \<and>
     (\<forall>c. reach R c \<longrightarrow> known R D c \<and> (c \<noteq> 0 \<longrightarrow> dominates R (D ! c) c \<and> D ! c \<noteq> c))"

lemma path_reach: "entry_path R p b \<Longrightarrow> a \<in> set p \<Longrightarrow> reach R a"
  using few_back_prefix [OF path_few_back [where po = "[]"]] few_back_reach by blast

lemma few_back_le: "few_back R po j p b \<Longrightarrow> j \<le> k \<Longrightarrow> few_back R po k p b"
  by (induction k) (auto simp: le_Suc_eq intro: few_back_more)

lemma settled_le: "settled R po D k c \<Longrightarrow> j \<le> k \<Longrightarrow> settled R po D j c"
  using few_back_le unfolding settled_def on_paths_def by blast

lemma settled_dominates:
  assumes num: "numbering n R po order" and s: "settled R po D n c" and c: "c \<noteq> 0"
  shows "dominates R (D ! c) c"
  unfolding dominates_def
proof (intro allI impI)
  fix p assume p: "entry_path R p c"
  obtain q where q: "entry_path R q c" "set q \<subseteq> set p" "distinct q" using path_simple [OF p] by blast
  have "\<forall>b. reach R b \<longrightarrow> b < n" using num by (simp add: numbering_def)
  then have "set q \<subseteq> {0 ..< n}" using path_reach [OF q(1)] by auto
  then have "length q \<le> n" using card_mono [of "{0 ..< n}" "set q"] distinct_card [OF q(3)] by simp
  then have "few_back R po n q c" using few_back_le path_few_back [OF q(1)] by blast
  then show "D ! c \<in> set p" using s c q(2) by (auto simp: settled_def on_paths_def)
qed

lemma settled_idom_ok:
  assumes num: "numbering n R po order" and inv: "dom_inv n R po D" and s: "\<And>c. reach R c \<Longrightarrow> settled R po D n c"
  shows "idom_ok n R po D"
  unfolding idom_ok_def
proof (intro conjI allI impI)
  fix c assume c: "reach R c"
  show k: "known R D c" using s [OF c] by (simp add: settled_def)
  assume "c \<noteq> 0"
  then show "dominates R (D ! c) c" by (rule settled_dominates [OF num s [OF c]])
  show "D ! c \<noteq> c" using known_up [OF inv k \<open>c \<noteq> 0\<close>] by (cases "D ! c = c") simp_all
qed (rule inv)

lemma idom_unique:
  assumes num: "numbering n R po order" and D: "idom_ok n R po D" and E: "idom_ok n R po E"
  shows "D = E"
proof (rule nth_equalityI)
  have inv: "dom_inv n R po D" "dom_inv n R po E" using D E by (simp_all add: idom_ok_def)
  then show "length D = length E" by (simp add: dom_inv_def)
  fix c assume "c < length D"
  then have cn: "c < n" using inv by (simp add: dom_inv_def)
  show "D ! c = E ! c"
  proof (cases "reach R c \<and> c \<noteq> 0")
    case True
    have k: "known R D c" "dominates R (D ! c) c" "D ! c \<noteq> c" "known R E c" "dominates R (E ! c) c" "E ! c \<noteq> c"
      using D E True by (auto simp: idom_ok_def)
    have d: "dominates R (D ! c) (E ! c)" "dominates R (E ! c) (D ! c)"
      using inv k True unfolding dom_inv_def by blast+
    have kk: "known R E (E ! c)" "known R D (D ! c)"
      using known_up [OF inv(1) k(1)] known_up [OF inv(2) k(4)] True by simp_all
    have "po ! (E ! c) \<le> po ! (D ! c)"
      using anc_known [OF conjunct1 [OF dom_up [OF inv(2) num kk(1) d(1)]] inv(2) kk(1)] by blast
    moreover have "po ! (D ! c) \<le> po ! (E ! c)"
      using anc_known [OF conjunct1 [OF dom_up [OF inv(1) num kk(2) d(2)]] inv(1) kk(2)] by blast
    ultimately show ?thesis using numbering_inj [OF num, of "D ! c" "E ! c"] kk by (simp add: known_def)
  next
    case False
    then show ?thesis using inv cn by (cases "c = 0") (simp_all add: dom_inv_def)
  qed
qed

lemma rev_order_todo:
  assumes num: "numbering n R po order"
  shows "pass_todo R po (rev order)"
proof -
  have o: "distinct order" "set order = {b. reach R b}" "\<forall>i < length order. po ! (order ! i) = i"
    using num by (simp_all add: numbering_def)
  have "sorted_wrt (\<lambda>a b. po ! a < po ! b) order"
    using o(3) by (simp add: sorted_wrt_iff_nth_less)
  then show ?thesis using o(1,2) by (simp add: pass_todo_def sorted_wrt_rev)
qed

text \<open>A pass over the whole order, with the facts of the pass lemma.\<close>

lemma full_pass:
  assumes num: "numbering n R po order" and n: "n < LIMBA_NONE"
    and preds: "\<And>b. b < n \<Longrightarrow> set (preds b) = {a. a < n \<and> b \<in> set (R a)}"
    and inv: "dom_inv n R po D" and pre: "pass_pre R po D k"
  shows "\<exists>E ch. idom_pass po preds (rev order) D False = Some (E, ch) \<and> dom_inv n R po E \<and>
    (\<forall>c. reach R c \<longrightarrow> settled R po E k c) \<and> (ch \<longleftrightarrow> E \<noteq> D)"
proof -
  have none: "settled R po D k c" if "reach R c" "c \<notin> set (rev order)" for c
    using that num by (simp add: numbering_def)
  show ?thesis
    using pass_spec [OF num n preds inv pre rev_order_todo [OF num] none, of False] by simp blast
qed

text \<open>A state that a pass leaves alone is settled for every number of edges.\<close>

lemma fixpoint_settled:
  assumes num: "numbering n R po order" and n: "n < LIMBA_NONE"
    and preds: "\<And>b. b < n \<Longrightarrow> set (preds b) = {a. a < n \<and> b \<in> set (R a)}"
    and inv: "dom_inv n R po D" and same: "idom_pass po preds (rev order) D False = Some (D, ch)"
    and s: "\<forall>c. reach R c \<longrightarrow> settled R po D k c"
  shows "\<forall>c. reach R c \<longrightarrow> settled R po D (k + j) c"
proof (induction j)
  case (Suc j)
  then have "pass_pre R po D (k + Suc j)" by (simp add: pass_pre_def)
  then show ?case using full_pass [OF num n preds inv, of "k + Suc j"] same by auto
qed (use s in simp)

theorem idom_loop_spec:
  assumes num: "numbering n R po order" and n: "n < LIMBA_NONE"
    and preds: "\<And>b. b < n \<Longrightarrow> set (preds b) = {a. a < n \<and> b \<in> set (R a)}"
    and inv: "dom_inv n R po D" and pre: "pass_pre R po D k" and k: "k \<le> Suc n"
  shows "\<exists>E. idom_loop po preds (rev order) D = Some E \<and> idom_ok n R po E"
  using inv pre k
proof (induction "Suc n - k" arbitrary: D k rule: less_induct)
  case less
  obtain E ch where E: "idom_pass po preds (rev order) D False = Some (E, ch)" "dom_inv n R po E"
      "\<forall>c. reach R c \<longrightarrow> settled R po E k c" "ch \<longleftrightarrow> E \<noteq> D"
    using full_pass [OF num n preds less.prems(1,2)] by blast
  show ?case
  proof (cases "E = D")
    case True
    have "settled R po D n c" if "reach R c" for c
      using fixpoint_settled [OF num n preds less.prems(1), of ch k n] E(1,3) True that settled_le [of R po D "k + n" c n]
      by simp
    then have "idom_ok n R po D" using settled_idom_ok [OF num less.prems(1)] by blast
    then show ?thesis using E(1,4) True by (subst idom_loop.simps) simp
  next
    case False
    have "k \<noteq> Suc n"
    proof
      assume k: "k = Suc n"
      then have "idom_ok n R po D"
        using settled_idom_ok [OF num less.prems(1)] less.prems(2) by (simp add: pass_pre_def)
      moreover have "idom_ok n R po E"
        using settled_idom_ok [OF num E(2)] E(3) k settled_less by blast
      ultimately show False using idom_unique [OF num] False by blast
    qed
    then have m: "Suc n - Suc k < Suc n - k" "Suc k \<le> Suc n" using less.prems(3) by simp_all
    have "pass_pre R po E (Suc k)" using E(3) by (simp add: pass_pre_def)
    then obtain F where "idom_loop po preds (rev order) E = Some F" "idom_ok n R po F"
      using less.hyps [OF m(1) E(2) _ m(2)] by blast
    then show ?thesis using E(1,4) False by (subst idom_loop.simps) simp
  qed
qed

text \<open>The start: only the entry is known.\<close>

lemma dom_start:
  assumes "0 < n" and num: "numbering n R po order"
  shows "dom_inv n R po ((replicate n LIMBA_NONE)[0 := 0])" "pass_pre R po ((replicate n LIMBA_NONE)[0 := 0]) 0"
proof -
  let ?D = "(replicate n LIMBA_NONE)[0 := 0]"
  have r0: "reach R 0" using entry_path.entry [of R] unfolding reach_def by blast
  have only: "b = 0" if "known R ?D b" for b
  proof (rule ccontr)
    assume "b \<noteq> 0"
    moreover have "b < n" using that num by (simp add: known_def numbering_def)
    ultimately show False using that by (simp add: known_def)
  qed
  show "pass_pre R po ?D 0" by (simp add: pass_pre_def)
  have "?D ! b = LIMBA_NONE" if "b < n" "\<not> reach R b" for b
    using that r0 by (cases "b = 0") simp_all
  then show "dom_inv n R po ?D" using only assms(1) unfolding dom_inv_def by auto
qed

text \<open>The chain of a block is its dominators.\<close>

lemma idom_anc:
  assumes num: "numbering n R po order" and D: "idom_ok n R po D" and b: "reach R b"
  shows "anc D b a \<longleftrightarrow> dominates R a b"
proof
  have inv: "dom_inv n R po D" and k: "known R D b" using D b by (simp_all add: idom_ok_def)
  show "anc D b a" if "dominates R a b" using dom_up [OF inv num k that] by blast
  show "dominates R a b" if "anc D b a" using that k
  proof (induction rule: anc.induct)
    case (up x y)
    have "known R D (D ! x)" using known_up [OF inv up.prems up.hyps(1)] by simp
    then have y: "dominates R y (D ! x)" by (rule up.IH)
    have x: "dominates R (D ! x) x" using D up by (simp add: idom_ok_def known_def)
    show ?case
      unfolding dominates_def
    proof (intro allI impI)
      fix p assume "entry_path R p x"
      then obtain q where "entry_path R q (D ! x)" "set q \<subseteq> set p"
        using x few_back_prefix [OF path_few_back [where po = "[]"]] few_back_path unfolding dominates_def by blast
      then show "y \<in> set p" using y by (auto simp: dominates_def)
    qed
  qed (rule dom_self)
qed

end
