(* ===== verification/Domtree.thy ===== *)
theory Domtree
  imports Dominators
begin

text \<open>
  The numbers of the dominator tree of \<^verbatim>\<open>src/src/ir/cfg.c\<close>, and the graph as a whole. The walk gives each
  block the time it is entered and the time it is left; the interval of a block holds those of the blocks
  it dominates. With the post-order and the iteration of the theories before, \<open>limba_cfg_build\<close> returns
  for every function, and the two questions a client asks of it are answered by the paths of the graph.
\<close>

section \<open>The walk of the tree\<close>

text \<open>The children of the blocks, as rows: \<open>C b\<close> are the blocks whose dominator is \<open>b\<close>.\<close>

definition tree_rows :: "nat \<Rightarrow> nat list \<Rightarrow> nat \<Rightarrow> nat list" where
  "tree_rows n D b = filter (\<lambda>c. D ! c \<noteq> LIMBA_NONE \<and> D ! c = b) [1 ..< n]"

lemma tree_rows_row:
  assumes D: "\<And>c. c < n \<Longrightarrow> D ! c \<noteq> LIMBA_NONE \<Longrightarrow> D ! c < n" and b: "b < n"
    and g: "group_rows n (map (\<lambda>b. (D ! b, b)) (filter (\<lambda>b. D ! b \<noteq> LIMBA_NONE) [1 ..< n])) = (cfirst, child)"
  shows "row cfirst child b = tree_rows n D b"
proof -
  let ?ps = "map (\<lambda>b. (D ! b, b)) (filter (\<lambda>b. D ! b \<noteq> LIMBA_NONE) [1 ..< n])"
  have "\<forall>p \<in> set ?ps. fst p < n" using D by auto
  from group_rows_row [OF this g b] show ?thesis
    by (simp add: key_values_def tree_rows_def filter_map o_def conj_commute)
qed

text \<open>
  The state of the walk: the blocks finished are \<open>F\<close>, those open are on the stack. Among the finished
  blocks the intervals are the chains; an open block is on the chain of those entered after it.
\<close>

definition tree_sets :: "nat \<Rightarrow> nat list \<Rightarrow> nat set \<Rightarrow> tree_walk \<Rightarrow> bool" where
  "tree_sets n D F = (\<lambda>(pre, post, clock, stack, next).
     length pre = n + 1 \<and> length post = n + 1 \<and> length next = n + 1 \<and> F \<inter> set stack = {} \<and> F \<union> set stack \<subseteq> {0 ..< n} \<and>
     0 \<in> F \<union> set stack \<and> successively (\<lambda>c b. c \<noteq> 0 \<and> D ! c = b) stack \<and> (stack \<noteq> [] \<longrightarrow> last stack = 0) \<and> distinct stack \<and>
     (\<forall>b \<in> F \<union> set stack. b \<noteq> 0 \<longrightarrow> D ! b \<in> F \<union> set stack) \<and>
     (\<forall>b \<in> F. set (tree_rows n D b) \<subseteq> F) \<and>
     (\<forall>b \<in> set stack. next ! b \<le> length (tree_rows n D b) \<and> set (take (next ! b) (tree_rows n D b)) \<subseteq> F \<union> set stack \<and>
        set (drop (next ! b) (tree_rows n D b)) \<inter> (F \<union> set stack) = {}) \<and>
     (\<forall>b < n. b \<notin> F \<union> set stack \<longrightarrow> next ! b = 0))"

definition tree_times :: "nat \<Rightarrow> nat list \<Rightarrow> nat set \<Rightarrow> tree_walk \<Rightarrow> bool" where
  "tree_times n D F = (\<lambda>(pre, post, clock, stack, next).
     0 < clock \<and> (\<forall>b \<in> F \<union> set stack. pre ! b < clock) \<and> (\<forall>b \<in> F. 0 < post ! b \<and> post ! b < clock) \<and>
     (\<forall>b < n. b \<notin> F \<union> set stack \<longrightarrow> pre ! b = 0 \<and> post ! b = 0) \<and>
     (\<forall>a \<in> F. \<forall>b \<in> F. anc D b a \<longleftrightarrow> pre ! a \<le> pre ! b \<and> post ! b \<le> post ! a) \<and>
     (\<forall>a \<in> set stack. \<forall>b \<in> F \<union> set stack. anc D b a \<longleftrightarrow> pre ! a \<le> pre ! b))"

text \<open>A chain does not leave a set closed under the step up.\<close>

lemma anc_closed:
  assumes "anc D x y" "x \<in> S" "\<And>b. b \<in> S \<Longrightarrow> b \<noteq> 0 \<Longrightarrow> D ! b \<in> S"
  shows "y \<in> S"
  using assms(1,2) by induction (use assms(3) in auto)

lemma stack_chain:
  assumes "successively (\<lambda>c b. c \<noteq> 0 \<and> D ! c = b) (x # st)" "y \<in> set (x # st)"
  shows "anc D x y"
  using assms
proof (induction st arbitrary: x)
  case (Cons z st)
  show ?case
  proof (cases "y = x")
    case False
    then have "anc D z y" using Cons by simp
    then show ?thesis using Cons.prems(1) anc.up [of x D y] by simp
  qed (simp add: anc.self)
qed (simp add: anc.self)

lemma stack_closed:
  assumes "successively (\<lambda>c b. c \<noteq> 0 \<and> D ! c = b) st" "st \<noteq> [] \<longrightarrow> last st = 0" "b \<in> set st" "b \<noteq> 0"
  shows "D ! b \<in> set st"
  using assms
proof (induction st)
  case (Cons x st)
  show ?case
  proof (cases "b = x")
    case True
    then obtain y st' where "st = y # st'" using Cons.prems by (cases st) auto
    then show ?thesis using Cons.prems(1) True by simp
  next
    case False
    then have "b \<in> set st" using Cons.prems(3) by simp
    moreover from this have "st \<noteq> []" by auto
    ultimately show ?thesis using Cons by (cases st) auto
  qed
qed simp

lemma mem_tree_rows: "c \<in> set (tree_rows n D b) \<longleftrightarrow> 1 \<le> c \<and> c < n \<and> D ! c \<noteq> LIMBA_NONE \<and> D ! c = b"
  by (auto simp: tree_rows_def)

lemma distinct_tree_rows: "distinct (tree_rows n D b)"
  by (simp add: tree_rows_def)

lemma take_drop_next:
  assumes "i < length xs" "distinct xs"
  shows "set (take (Suc i) xs) = insert (xs ! i) (set (take i xs))" "set (drop (Suc i) xs) \<subseteq> set (drop i xs)"
    "xs ! i \<notin> set (drop (Suc i) xs)" "xs ! i \<in> set (drop i xs)"
proof -
  have d: "drop i xs = xs ! i # drop (Suc i) xs" using assms(1) by (simp add: Cons_nth_drop_Suc)
  have "distinct (drop i xs)" using assms(2) by simp
  then show "xs ! i \<notin> set (drop (Suc i) xs)" unfolding d by simp
  show "set (drop (Suc i) xs) \<subseteq> set (drop i xs)" "xs ! i \<in> set (drop i xs)" unfolding d by auto
  show "set (take (Suc i) xs) = insert (xs ! i) (set (take i xs))" using assms(1) by (auto simp: take_Suc_conv_app_nth)
qed

lemma tree_sets_up:
  "tree_sets n D F (pre, post, clock, st, next) \<Longrightarrow> x \<in> F \<union> set st \<Longrightarrow> x \<noteq> 0 \<Longrightarrow> D ! x \<in> F \<union> set st"
  by (simp add: tree_sets_def)

text \<open>A new child is entered.\<close>

lemma tree_push_sets:
  assumes s: "tree_sets n D F (pre, post, clock, b # st, next)" and i: "next ! b < length (tree_rows n D b)"
    and c: "c = tree_rows n D b ! (next ! b)"
  shows "c < n" "c \<noteq> 0" "D ! c = b" "c \<notin> F \<union> set (b # st)"
    "tree_sets n D F (pre[c := clock], post, clock + 1, c # b # st, next[b := next ! b + 1])"
proof -
  have b: "b < n" "length next = n + 1" "b \<notin> F" "b \<notin> set st" using s by (auto simp: tree_sets_def)
  have "c \<in> set (tree_rows n D b)" using i c by simp
  then show cn: "c < n" "c \<noteq> 0" "D ! c = b" by (auto simp: mem_tree_rows)
  note t = take_drop_next [OF i distinct_tree_rows, folded c]
  have "set (drop (next ! b) (tree_rows n D b)) \<inter> (F \<union> set (b # st)) = {}" using s unfolding tree_sets_def by simp
  then show new: "c \<notin> F \<union> set (b # st)" using t(4) by blast
  have kids: "set (tree_rows n D c) \<inter> (F \<union> set (c # b # st)) = {}"
  proof -
    have "x \<notin> F \<union> set (b # st)" if "D ! x = c" "x \<noteq> 0" for x using tree_sets_up [OF s, of x] that new by blast
    moreover have "c \<noteq> b" using new by simp
    ultimately have "x \<notin> F \<union> set (c # b # st)" if "x \<in> set (tree_rows n D c)" for x
      using that cn(3) unfolding mem_tree_rows by (cases "x = c") simp_all
    then show ?thesis by blast
  qed
  have zero: "next ! c = 0" using s new cn(1) by (simp add: tree_sets_def)
  have open_rows: "next[b := next ! b + 1] ! x \<le> length (tree_rows n D x) \<and>
      set (take (next[b := next ! b + 1] ! x) (tree_rows n D x)) \<subseteq> F \<union> set (c # b # st) \<and>
      set (drop (next[b := next ! b + 1] ! x) (tree_rows n D x)) \<inter> (F \<union> set (c # b # st)) = {}"
    if x: "x \<in> set (c # b # st)" for x
  proof -
    consider "x = c" | "x = b" | "x \<in> set st" "x \<noteq> b" "x \<noteq> c" using x new by auto
    then show ?thesis
    proof cases
      case 1
      then show ?thesis using zero kids new by auto
    next
      case 2
      have old: "set (take (next ! b) (tree_rows n D b)) \<subseteq> F \<union> set (b # st)"
          "set (drop (next ! b) (tree_rows n D b)) \<inter> (F \<union> set (b # st)) = {}"
        using s by (simp_all add: tree_sets_def)
      have "set (take (Suc (next ! b)) (tree_rows n D b)) \<subseteq> F \<union> set (c # b # st)" unfolding t(1) using old(1) by auto
      moreover have "set (drop (Suc (next ! b)) (tree_rows n D b)) \<inter> (F \<union> set (c # b # st)) = {}"
        using old(2) t(2,3) by auto
      ultimately show ?thesis using 2 b i by simp
    next
      case 3
      then have old: "next ! x \<le> length (tree_rows n D x)" "set (take (next ! x) (tree_rows n D x)) \<subseteq> F \<union> set (b # st)"
          "set (drop (next ! x) (tree_rows n D x)) \<inter> (F \<union> set (b # st)) = {}"
        using s by (simp_all add: tree_sets_def)
      have "c \<notin> set (tree_rows n D x)" using cn(3) 3(2) by (simp add: mem_tree_rows)
      then have "c \<notin> set (drop (next ! x) (tree_rows n D x))" using in_set_dropD by metis
      then show ?thesis using old 3(2) by auto
    qed
  qed
  have rest: "\<forall>x < n. x \<notin> F \<union> set (c # b # st) \<longrightarrow> next[b := next ! b + 1] ! x = 0" using s by (simp add: tree_sets_def)
  have "D ! x \<in> F \<union> set (c # b # st)" if "x \<in> F \<union> set (c # b # st)" "x \<noteq> 0" for x
    using that cn(3) tree_sets_up [OF s, of x] by (cases "x = c") auto
  then have up: "\<forall>x \<in> F \<union> set (c # b # st). x \<noteq> 0 \<longrightarrow> D ! x \<in> F \<union> set (c # b # st)" by blast
  have rows: "\<forall>x \<in> F. set (tree_rows n D x) \<subseteq> F" using s by (simp add: tree_sets_def)
  have sets: "F \<inter> set (c # b # st) = {}" "F \<union> set (c # b # st) \<subseteq> {0 ..< n}" "0 \<in> F \<union> set (c # b # st)"
    using s cn new by (auto simp: tree_sets_def)
  have stack: "successively (\<lambda>c b. c \<noteq> 0 \<and> D ! c = b) (c # b # st)" "last (c # b # st) = 0" "distinct (c # b # st)"
    using s cn new by (simp_all add: tree_sets_def)
  have len: "length (pre[c := clock]) = n + 1" "length post = n + 1" "length (next[b := next ! b + 1]) = n + 1"
    using s by (simp_all add: tree_sets_def)
  show "tree_sets n D F (pre[c := clock], post, clock + 1, c # b # st, next[b := next ! b + 1])"
    unfolding tree_sets_def prod.case using open_rows by (intro conjI len sets stack up rows rest impI ballI) simp_all
qed

lemma tree_times_pre: "tree_times n D F (pre, post, clock, st, next) \<Longrightarrow> b \<in> F \<union> set st \<Longrightarrow> pre ! b < clock"
  by (simp add: tree_times_def)

lemma tree_times_open:
  "tree_times n D F (pre, post, clock, st, next) \<Longrightarrow> a \<in> set st \<Longrightarrow> b \<in> F \<union> set st \<Longrightarrow>
    anc D b a \<longleftrightarrow> pre ! a \<le> pre ! b"
  by (simp add: tree_times_def)

lemma tree_push_times:
  assumes s: "tree_sets n D F (pre, post, clock, b # st, next)" and t: "tree_times n D F (pre, post, clock, b # st, next)"
    and c: "c < n" "c \<noteq> 0" "D ! c = b" "c \<notin> F \<union> set (b # st)"
  shows "tree_times n D F (pre[c := clock], post, clock + 1, c # b # st, next')"
proof -
  have len: "length pre = n + 1" using s by (simp add: tree_sets_def)
  have old: "pre[c := clock] ! x = pre ! x" if "x \<in> F \<union> set (b # st)" for x
    using that c(4) by (cases "x = c") simp_all
  have cc: "pre[c := clock] ! c = clock" using len c(1) by simp
  have lt: "\<forall>x \<in> F \<union> set (b # st). pre ! x < clock" using t by (simp add: tree_times_def)
  have up: "anc D c x" if "x \<in> set (b # st)" for x
    using stack_chain [of D b st x] s that anc.up [OF c(2), of D x] c(3) by (simp add: tree_sets_def)
  have no: "\<not> anc D x c" if "x \<in> F \<union> set (b # st)" for x
    using anc_closed [of D x c "F \<union> set (b # st)", OF _ that tree_sets_up [OF s]] c(4) by blast
  have "anc D y x \<longleftrightarrow> pre[c := clock] ! x \<le> pre[c := clock] ! y"
    if x: "x \<in> set (c # b # st)" and y: "y \<in> F \<union> set (c # b # st)" for x y
  proof (cases "x = c"; cases "y = c")
    assume "x = c" "y = c"
    then show ?thesis by (simp add: anc.self)
  next
    assume a: "x = c" "y \<noteq> c"
    then have yo: "y \<in> F \<union> set (b # st)" using y by simp
    have "pre ! y < clock" using lt yo by blast
    then show ?thesis using no [OF yo] old [OF yo] cc a(1) by simp
  next
    assume a: "x \<noteq> c" "y = c"
    then have xo: "x \<in> set (b # st)" using x by simp
    have "pre ! x < clock" using lt xo by blast
    moreover have "pre[c := clock] ! x = pre ! x" using a(1) by simp
    ultimately show ?thesis using up [OF xo] cc a(2) by simp
  next
    assume a: "x \<noteq> c" "y \<noteq> c"
    then have xo: "x \<in> set (b # st)" "y \<in> F \<union> set (b # st)" using x y by simp_all
    show ?thesis using tree_times_open [OF t xo] a by simp
  qed
  moreover have "\<forall>x \<in> F \<union> set (c # b # st). pre[c := clock] ! x < clock + 1"
  proof
    fix x assume x: "x \<in> F \<union> set (c # b # st)"
    show "pre[c := clock] ! x < clock + 1"
    proof (cases "x = c")
      case False
      then have xo: "x \<in> F \<union> set (b # st)" using x by simp
      have "pre ! x < clock" using lt xo by blast
      then show ?thesis using False by simp
    qed (simp add: cc)
  qed
  moreover have "\<forall>x \<in> F. \<forall>y \<in> F. anc D y x \<longleftrightarrow> pre[c := clock] ! x \<le> pre[c := clock] ! y \<and> post ! y \<le> post ! x"
    using t old unfolding tree_times_def by simp
  moreover have "\<forall>x \<in> F. 0 < post ! x \<and> post ! x < clock + 1" using t by (auto simp: tree_times_def)
  moreover have "\<forall>x < n. x \<notin> F \<union> set (c # b # st) \<longrightarrow> pre[c := clock] ! x = 0 \<and> post ! x = 0"
    using t by (simp add: tree_times_def)
  ultimately show ?thesis unfolding tree_times_def by simp
qed

text \<open>A block is left.\<close>

lemma tree_pop_sets:
  assumes s: "tree_sets n D F (pre, post, clock, b # st, next)" and i: "\<not> next ! b < length (tree_rows n D b)"
  shows "tree_sets n D (insert b F) (pre, post[b := clock], clock + 1, st, next)"
proof -
  have b: "b < n" "length post = n + 1" "b \<notin> F" "b \<notin> set st" using s by (auto simp: tree_sets_def)
  have "set (take (next ! b) (tree_rows n D b)) \<subseteq> F \<union> set (b # st)" using s unfolding tree_sets_def by simp
  then have "set (tree_rows n D b) \<subseteq> F \<union> set (b # st)" using i by simp
  moreover have "x \<notin> set (b # st)" if x: "x \<in> set (tree_rows n D b)" for x
  proof
    assume st: "x \<in> set (b # st)"
    have x0: "x \<noteq> 0" "D ! x = b" using x by (simp_all add: mem_tree_rows)
    have ch: "successively (\<lambda>c b. c \<noteq> 0 \<and> D ! c = b) (b # st)" "last (b # st) = 0" using s by (simp_all add: tree_sets_def)
    have "b \<in> set st"
    proof (cases "x = b")
      case True
      then obtain y st' where "st = y # st'" using ch(2) x0(1) by (cases st) auto
      then show ?thesis using ch(1) x0(2) True by simp
    next
      case False
      then have "x \<in> set st" using st by simp
      moreover have "successively (\<lambda>c b. c \<noteq> 0 \<and> D ! c = b) st" using ch(1) by (cases st) simp_all
      moreover have "st \<noteq> [] \<longrightarrow> last st = 0" using ch(2) by (cases st) simp_all
      ultimately show ?thesis using stack_closed [of D st x] x0 by simp
    qed
    then show False using b(4) by blast
  qed
  ultimately have kids: "set (tree_rows n D b) \<subseteq> F" by blast
  show "tree_sets n D (insert b F) (pre, post[b := clock], clock + 1, st, next)"
  proof -
    have U: "insert b F \<union> set st = F \<union> set (b # st)" by auto
    have up: "\<forall>x \<in> insert b F \<union> set st. x \<noteq> 0 \<longrightarrow> D ! x \<in> insert b F \<union> set st"
      unfolding U using tree_sets_up [OF s] by blast
    have rows: "\<forall>x \<in> insert b F. set (tree_rows n D x) \<subseteq> insert b F" using s kids by (auto simp: tree_sets_def)
    have open_rows: "\<forall>x \<in> set st. next ! x \<le> length (tree_rows n D x) \<and> set (take (next ! x) (tree_rows n D x)) \<subseteq> insert b F \<union> set st \<and>
        set (drop (next ! x) (tree_rows n D x)) \<inter> (insert b F \<union> set st) = {}"
      unfolding U using s unfolding tree_sets_def by simp
    have rest: "\<forall>x < n. x \<notin> insert b F \<union> set st \<longrightarrow> next ! x = 0"
      unfolding U using s unfolding tree_sets_def by simp
    have sets: "insert b F \<inter> set st = {}" "insert b F \<union> set st \<subseteq> {0 ..< n}" "0 \<in> insert b F \<union> set st"
      using s by (auto simp: tree_sets_def)
    have stack: "successively (\<lambda>c b. c \<noteq> 0 \<and> D ! c = b) st" "st \<noteq> [] \<longrightarrow> last st = 0" "distinct st"
      using s by (cases st; simp add: tree_sets_def)+
    have len: "length pre = n + 1" "length (post[b := clock]) = n + 1" "length next = n + 1"
      using s by (simp_all add: tree_sets_def)
    show ?thesis unfolding tree_sets_def prod.case by (intro conjI len sets stack up rows open_rows rest)
  qed
qed

lemma tree_pop_times:
  assumes s: "tree_sets n D F (pre, post, clock, b # st, next)" and t: "tree_times n D F (pre, post, clock, b # st, next)"
  shows "tree_times n D (insert b F) (pre, post[b := clock], clock + 1, st, next)"
proof -
  have b: "b < n" "length post = n + 1" "b \<notin> F" "b \<notin> set st" using s by (auto simp: tree_sets_def)
  show ?thesis
  proof -
    have old: "post[b := clock] ! x = post ! x" if "x \<in> F" for x using that b(3) by (cases "x = b") simp_all
    have bb: "post[b := clock] ! b = clock" using b by simp
    have lt: "\<forall>x \<in> F. 0 < post ! x \<and> post ! x < clock" "0 < clock" using t unfolding tree_times_def prod.case by blast+
    have both: "anc D y x \<longleftrightarrow> pre ! x \<le> pre ! y \<and> post[b := clock] ! y \<le> post[b := clock] ! x"
      if x: "x \<in> insert b F" and y: "y \<in> insert b F" for x y
    proof (cases "x = b")
      case True
      then have "anc D y x \<longleftrightarrow> pre ! x \<le> pre ! y" using tree_times_open [OF t, of x y] y by auto
      moreover have "post[b := clock] ! y \<le> clock" using y lt(1) old [of y] bb by (cases "y = b") auto
      ultimately show ?thesis using bb True by simp
    next
      case False
      then have xF: "x \<in> F" using x by simp
      show ?thesis
      proof (cases "y = b")
        case True
        have ch: "successively (\<lambda>c b. c \<noteq> 0 \<and> D ! c = b) (b # st)" "b # st \<noteq> [] \<longrightarrow> last (b # st) = 0"
          using s by (simp_all add: tree_sets_def)
        have "x \<notin> set (b # st)" using xF s by (auto simp: tree_sets_def)
        then have "\<not> anc D b x"
          using anc_closed [of D b x "set (b # st)", OF _ _ stack_closed [OF ch]] by (meson list.set_intros(1))
        moreover have "post ! x < clock" using lt xF by blast
        ultimately show ?thesis using True bb old [OF xF] by simp
      next
        case yb: False
        then have "y \<in> F" using y by simp
        then show ?thesis using t xF old unfolding tree_times_def by simp
      qed
    qed
    have "\<forall>x \<in> insert b F. 0 < post[b := clock] ! x \<and> post[b := clock] ! x < clock + 1"
      using lt bb old by auto
    moreover have "\<forall>x < n. x \<notin> insert b F \<union> set st \<longrightarrow> pre ! x = 0 \<and> post[b := clock] ! x = 0"
    proof (intro allI impI)
      fix x assume x: "x < n" "x \<notin> insert b F \<union> set st"
      then have "x \<notin> F \<union> set (b # st)" "x \<noteq> b" by auto
      then show "pre ! x = 0 \<and> post[b := clock] ! x = 0" using t x(1) unfolding tree_times_def prod.case by simp
    qed
    moreover have "\<forall>x \<in> insert b F \<union> set st. pre ! x < clock + 1"
    proof
      fix x assume "x \<in> insert b F \<union> set st"
      then have "x \<in> F \<union> set (b # st)" by auto
      then have "pre ! x < clock" by (rule tree_times_pre [OF t])
      then show "pre ! x < clock + 1" by simp
    qed
    moreover have "\<forall>x \<in> set st. \<forall>y \<in> insert b F \<union> set st. anc D y x \<longleftrightarrow> pre ! x \<le> pre ! y"
    proof (intro ballI)
      fix x y assume "x \<in> set st" "y \<in> insert b F \<union> set st"
      then have "x \<in> set (b # st)" "y \<in> F \<union> set (b # st)" by auto
      then show "anc D y x \<longleftrightarrow> pre ! x \<le> pre ! y" by (rule tree_times_open [OF t])
    qed
    moreover have "\<forall>x \<in> insert b F. \<forall>y \<in> insert b F.
        anc D y x \<longleftrightarrow> pre ! x \<le> pre ! y \<and> post[b := clock] ! y \<le> post[b := clock] ! x"
      using both by blast
    ultimately show ?thesis unfolding tree_times_def by simp
  qed
qed

text \<open>The two steps, and what they cost.\<close>

definition tree_inv :: "nat \<Rightarrow> nat list \<Rightarrow> tree_walk \<Rightarrow> bool" where
  "tree_inv n D st \<longleftrightarrow> (\<exists>F. tree_sets n D F st \<and> tree_times n D F st)"

definition tree_measure :: "nat \<Rightarrow> nat list \<Rightarrow> tree_walk \<Rightarrow> nat" where
  "tree_measure n D = (\<lambda>(pre, post, clock, stack, next). 2 * (\<Sum>b < n. length (tree_rows n D b) - next ! b) + length stack)"

lemma tree_step_inv:
  assumes rows: "\<And>b. b < n \<Longrightarrow> row cfirst child b = tree_rows n D b"
    and inv: "tree_inv n D (pre, post, clock, b # st, next)"
  shows "tree_inv n D (tree_step cfirst child (pre, post, clock, b # st, next)) \<and>
    tree_measure n D (tree_step cfirst child (pre, post, clock, b # st, next)) < tree_measure n D (pre, post, clock, b # st, next)"
proof -
  obtain F where F: "tree_sets n D F (pre, post, clock, b # st, next)" "tree_times n D F (pre, post, clock, b # st, next)"
    using inv by (auto simp: tree_inv_def)
  have b: "b < n" "length next = n + 1" using F(1) by (simp_all add: tree_sets_def)
  have lt: "cfirst ! b + next ! b < cfirst ! (b + 1) \<longleftrightarrow> next ! b < length (tree_rows n D b)"
    using row_length [of cfirst b "next ! b" child] rows [OF b(1)] by simp
  show ?thesis
  proof (cases "next ! b < length (tree_rows n D b)")
    case True
    let ?c = "tree_rows n D b ! (next ! b)"
    have c: "child ! (cfirst ! b + next ! b) = ?c" using row_nth [of "next ! b" cfirst child b] rows [OF b(1)] True by simp
    have step: "tree_step cfirst child (pre, post, clock, b # st, next) = (pre[?c := clock], post, clock + 1, ?c # b # st, next[b := next ! b + 1])"
      using lt True c by (simp add: tree_step_def Let_def)
    note p = tree_push_sets [OF F(1) True refl]
    have "tree_inv n D (pre[?c := clock], post, clock + 1, ?c # b # st, next[b := next ! b + 1])"
      unfolding tree_inv_def using p(5) tree_push_times [OF F p(1-4)] by blast
    moreover have "(\<Sum>a < n. length (tree_rows n D a) - next[b := next ! b + 1] ! a) < (\<Sum>a < n. length (tree_rows n D a) - next ! a)"
      by (rule walk_measure_next [of b n "next" "tree_rows n D", OF b True])
    ultimately show ?thesis unfolding step by (simp add: tree_measure_def)
  next
    case False
    then have step: "tree_step cfirst child (pre, post, clock, b # st, next) = (pre, post[b := clock], clock + 1, st, next)"
      using lt by (simp add: tree_step_def Let_def)
    have "tree_inv n D (pre, post[b := clock], clock + 1, st, next)"
      unfolding tree_inv_def using tree_pop_sets [OF F(1) False] tree_pop_times [OF F] by blast
    then show ?thesis unfolding step by (simp add: tree_measure_def)
  qed
qed

lemma tree_start:
  assumes "0 < n"
  shows "tree_inv n D (replicate (n + 1) 0, replicate (n + 1) 0, 1, [0], replicate (n + 1) 0)"
proof -
  have no: "0 \<notin> set (tree_rows n D 0)" by (simp add: mem_tree_rows)
  have "tree_sets n D {} (replicate (n + 1) 0, replicate (n + 1) 0, 1, [0], replicate (n + 1) 0)"
    using assms no by (simp add: tree_sets_def)
  moreover have "tree_times n D {} (replicate (n + 1) 0, replicate (n + 1) 0, 1, [0], replicate (n + 1) 0)"
    using assms by (simp add: tree_times_def anc.self)
  ultimately show ?thesis unfolding tree_inv_def by blast
qed

lemma number_tree_spec:
  assumes num: "numbering n R po order" and D: "idom_ok n R po D" and n: "0 < n"
  shows "\<exists>pre post. number_tree n D = Some (pre, post) \<and>
    (\<forall>a < n. \<forall>b. reach R b \<longrightarrow> (pre ! a \<le> pre ! b \<and> post ! b \<le> post ! a \<longleftrightarrow> dominates R a b))"
proof -
  have inv: "dom_inv n R po D" using D by (simp add: idom_ok_def)
  have lt: "\<forall>b. reach R b \<longrightarrow> b < n" using num by (simp add: numbering_def)
  have Dn: "D ! c < n" if "c < n" "D ! c \<noteq> LIMBA_NONE" for c
  proof (cases "c = 0")
    case False
    have "reach R c" using inv that unfolding dom_inv_def by blast
    then have "known R D c" using that by (simp add: known_def)
    then have "known R D (D ! c)" using known_up [OF inv _ False] by blast
    then show ?thesis using lt by (simp add: known_def)
  qed (use inv n in \<open>simp add: dom_inv_def\<close>)
  obtain cfirst child where g: "group_rows n (map (\<lambda>b. (D ! b, b)) (filter (\<lambda>b. D ! b \<noteq> LIMBA_NONE) [1 ..< n])) = (cfirst, child)"
    by fastforce
  note rows = tree_rows_row [OF Dn _ g]
  let ?c = "\<lambda>(pre, post, clock, stack, next). stack \<noteq> []"
    and ?s = "(replicate (n + 1) 0, replicate (n + 1) 0, 1, [0], replicate (n + 1) 0)"
  have step: "tree_inv n D (tree_step cfirst child s) \<and> tree_measure n D (tree_step cfirst child s) < tree_measure n D s"
    if it: "tree_inv n D s" "?c s" for s
  proof -
    obtain pre post clock stack "next" where s: "s = (pre, post, clock, stack, next)" by (cases s)
    obtain b st where st: "stack = b # st" using it(2) unfolding s by (cases stack) auto
    show ?thesis using tree_step_inv [OF rows, of pre post clock b st "next"] it(1) unfolding s st by blast
  qed
  obtain t where t: "while_option ?c (tree_step cfirst child) ?s = Some t"
    using measure_while_option_Some [of "tree_inv n D" ?c "tree_step cfirst child" "tree_measure n D" ?s] step tree_start [OF n]
    by blast
  have "tree_inv n D t" using while_option_rule [of "tree_inv n D", OF _ t tree_start [OF n]] step by blast
  moreover have stop: "\<not> ?c t" by (rule while_option_stop [OF t])
  ultimately obtain pre post clock "next" F where tt: "t = (pre, post, clock, [], next)"
      and F: "tree_sets n D F t" "tree_times n D F t"
    by (cases t) (auto simp: tree_inv_def)
  have zero: "0 \<in> F" and kids: "\<forall>b \<in> F. set (tree_rows n D b) \<subseteq> F" using F(1) unfolding tt tree_sets_def by auto
  have inF: "b \<in> F" if "reach R b" for b
    using that
  proof (induction "length order - po ! b" arbitrary: b rule: less_induct)
    case less
    show ?case
    proof (cases "b = 0")
      case False
      have k: "known R D b" using D less.prems by (simp add: idom_ok_def)
      have up: "reach R (D ! b)" "po ! b < po ! (D ! b)" using known_up [OF inv k False] by (simp_all add: known_def)
      have "po ! (D ! b) < length order" by (rule numbering_entry(2) [OF num up(1)])
      then have "D ! b \<in> F" using less.hyps [OF _ up(1)] up(2) by simp
      moreover have "b \<in> set (tree_rows n D (D ! b))" using k False lt by (simp add: mem_tree_rows known_def)
      ultimately show ?thesis using kids by blast
    qed (simp add: zero)
  qed
  have "pre ! a \<le> pre ! b \<and> post ! b \<le> post ! a \<longleftrightarrow> dominates R a b" if a: "a < n" and b: "reach R b" for a b
  proof (cases "a \<in> F")
    case True
    then have "anc D b a \<longleftrightarrow> pre ! a \<le> pre ! b \<and> post ! b \<le> post ! a"
      using F(2) inF [OF b] unfolding tt tree_times_def by simp
    then show ?thesis using idom_anc [OF num D b] by simp
  next
    case False
    have "\<not> anc D b a"
    proof
      assume "anc D b a"
      moreover have "known R D b" using D b by (simp add: idom_ok_def)
      ultimately have "known R D a" using anc_known [OF _ inv] by blast
      then show False using inF [of a] False by (simp add: known_def)
    qed
    moreover have "0 < post ! b" "post ! a = 0" using F(2) inF [OF b] False a unfolding tt tree_times_def by simp_all
    ultimately show ?thesis using idom_anc [OF num D b] by simp
  qed
  moreover have "number_tree n D = Some (pre, post)" using g t unfolding tt by (simp add: number_tree_def)
  ultimately show ?thesis by blast
qed

section \<open>The graph as a whole\<close>

abbreviation succ_row :: "limba_cfg \<Rightarrow> nat \<Rightarrow> nat list" where
  "succ_row c \<equiv> row (cf_sfirst c) (cf_succ c)"

abbreviation pred_row :: "limba_cfg \<Rightarrow> nat \<Rightarrow> nat list" where
  "pred_row c \<equiv> row (cf_pfirst c) (cf_pred c)"

text \<open>The normal edges: the targets of the terminators, with the entry for a block that does not exist.\<close>

definition normal_row :: "limba_func \<Rightarrow> nat \<Rightarrow> nat list" where
  "normal_row f b = map (\<lambda>s. if s < length (fn_blocks f) then s else 0) (block_succs f b)"

definition normal_edges :: "limba_func \<Rightarrow> (nat \<times> nat) set" where
  "normal_edges f = {(b, s). b < length (fn_blocks f) \<and> s \<in> set (normal_row f b)}"

definition cfg_built :: "limba_func \<Rightarrow> bool \<Rightarrow> limba_cfg \<Rightarrow> nat list \<Rightarrow> nat list \<Rightarrow> bool" where
  "cfg_built f ok c po order \<longleftrightarrow> cf_n c = length (fn_blocks f) \<and>
    (ok \<longleftrightarrow> (\<forall>b < cf_n c. \<forall>s \<in> set (block_succs f b). s < cf_n c)) \<and>
    (\<forall>b < cf_n c. set (succ_row c b) \<subseteq> {0 ..< cf_n c} \<and>
       (\<exists>es. succ_row c b = normal_row f b @ es \<and> set es = {h. err_edge f (cf_n c) (normal_edges f) b h})) \<and>
    (\<forall>b < cf_n c. set (pred_row c b) = {a. a < cf_n c \<and> b \<in> set (succ_row c a)}) \<and>
    (0 < cf_n c \<longrightarrow> numbering (cf_n c) (succ_row c) po order \<and> idom_ok (cf_n c) (succ_row c) po (cf_idom c)) \<and>
    (\<forall>a < cf_n c. \<forall>b. reach (succ_row c) b \<longrightarrow> (limba_cfg_dominates c a b \<longleftrightarrow> dominates (succ_row c) a b))"

lemma cfg_built_size: "cfg_built f ok c po order \<Longrightarrow> cf_n c = length (fn_blocks f)"
  unfolding cfg_built_def by (elim conjE)

lemma cfg_built_ok: "cfg_built f ok c po order \<Longrightarrow> ok \<longleftrightarrow> (\<forall>b < cf_n c. \<forall>s \<in> set (block_succs f b). s < cf_n c)"
  unfolding cfg_built_def by (elim conjE)

lemma cfg_built_succ:
  assumes "cfg_built f ok c po order" "b < cf_n c"
  shows "set (succ_row c b) \<subseteq> {0 ..< cf_n c}"
    "\<exists>es. succ_row c b = normal_row f b @ es \<and> set es = {h. err_edge f (cf_n c) (normal_edges f) b h}"
proof -
  have "\<forall>b < cf_n c. set (succ_row c b) \<subseteq> {0 ..< cf_n c} \<and>
      (\<exists>es. succ_row c b = normal_row f b @ es \<and> set es = {h. err_edge f (cf_n c) (normal_edges f) b h})"
    using assms(1) unfolding cfg_built_def by (elim conjE)
  then show "set (succ_row c b) \<subseteq> {0 ..< cf_n c}"
      "\<exists>es. succ_row c b = normal_row f b @ es \<and> set es = {h. err_edge f (cf_n c) (normal_edges f) b h}"
    using assms(2) by simp_all
qed

lemma cfg_built_pred:
  "cfg_built f ok c po order \<Longrightarrow> b < cf_n c \<Longrightarrow> set (pred_row c b) = {a. a < cf_n c \<and> b \<in> set (succ_row c a)}"
  unfolding cfg_built_def by simp

lemma cfg_built_idom:
  assumes "cfg_built f ok c po order" "b < cf_n c"
  shows "idom_ok (cf_n c) (succ_row c) po (cf_idom c)"
proof -
  have "0 < cf_n c \<longrightarrow> numbering (cf_n c) (succ_row c) po order \<and> idom_ok (cf_n c) (succ_row c) po (cf_idom c)"
    using assms(1) unfolding cfg_built_def by (elim conjE)
  then show ?thesis using assms(2) by simp
qed

lemma cfg_built_dominates:
  assumes "cfg_built f ok c po order" "a < cf_n c" "reach (succ_row c) b"
  shows "limba_cfg_dominates c a b \<longleftrightarrow> dominates (succ_row c) a b"
  using assms unfolding cfg_built_def by simp

lemma cfg_build_spec:
  assumes n: "length (fn_blocks f) < LIMBA_NONE"
  shows "\<exists>ok c po order. limba_cfg_build f = Some (ok, c) \<and> cfg_built f ok c po order"
proof -
  let ?n = "length (fn_blocks f)"
  let ?raw = "map (block_succs f) [0 ..< ?n]"
  define rows where "rows = map (map (\<lambda>s. if s \<ge> ?n then 0 else s)) ?raw"
  have rows: "length rows = ?n" "rows ! b = normal_row f b" if "b < ?n" for b
    using that by (auto simp: rows_def normal_row_def)
  have len: "length rows = ?n" by (simp add: rows_def)
  have sub: "set (rows ! b) \<subseteq> {0 ..< ?n}" if "b < ?n" for b using that rows(2) [OF that] by (auto simp: normal_row_def)
  have N: "normal_edges f = {(b, s). b < ?n \<and> s \<in> set (rows ! b)}" using rows(2) by (auto simp: normal_edges_def)
  obtain rows' where r: "error_edges f ?n (row_starts 0 (map length rows)) (concat rows) = Some (row_starts 0 (map length rows'), concat rows')"
      "length rows' = ?n" "\<And>b. b < ?n \<Longrightarrow> \<exists>es. rows' ! b = rows ! b @ es \<and> set es = {h. err_edge f ?n (normal_edges f) b h} \<and> set (rows' ! b) \<subseteq> {0 ..< ?n}"
    using error_edges_spec [OF len sub N] by blast
  let ?R = "row (row_starts 0 (map length rows')) (concat rows')"
  have R: "?R b = rows' ! b" if "b < ?n" for b using row_concat that r(2) by simp
  have Rs: "set (?R b) \<subseteq> {0 ..< ?n} \<and> (\<exists>es. ?R b = normal_row f b @ es \<and> set es = {h. err_edge f ?n (normal_edges f) b h})" if "b < ?n" for b
    using r(3) [OF that] rows(2) [OF that] R [OF that] by auto
  obtain pfirst pred where p: "group_rows ?n (map (\<lambda>(b, s). (s, b)) (row_edges ?n (row_starts 0 (map length rows')) (concat rows'))) = (pfirst, pred)"
    by fastforce
  have P: "set (row pfirst pred b) = {a. a < ?n \<and> b \<in> set (?R a)}" if "b < ?n" for b
    by (rule pred_rows [OF conjunct1 [OF Rs] p that])
  have ok: "list_all (list_all (\<lambda>s. s < ?n)) ?raw \<longleftrightarrow> (\<forall>b < ?n. \<forall>s \<in> set (block_succs f b). s < ?n)"
    by (auto simp: list_all_iff)
  show ?thesis
  proof (cases "?n = 0")
    case True
    show ?thesis
      using r(1) p True
      by (intro exI [of _ True] exI [of _ "\<lparr>cf_n = ?n, cf_sfirst = row_starts 0 (map length rows'), cf_succ = concat rows', cf_pfirst = pfirst,
          cf_pred = pred, cf_idom = [], cf_pre = [0], cf_post = [0]\<rparr>"]) (simp add: limba_cfg_build_def rows_def cfg_built_def)
  next
    case False
    then have n0: "0 < ?n" by simp
    obtain po order where po: "post_order ?n (row_starts 0 (map length rows')) (concat rows') = Some (po, order)" "numbering ?n ?R po order"
      using post_order_spec [OF n0 n refl conjunct1 [OF Rs]] by blast
    note start = dom_start [OF n0 po(2)]
    obtain D where D: "idom_loop po (row pfirst pred) (rev order) ((replicate ?n LIMBA_NONE)[0 := 0]) = Some D" "idom_ok ?n ?R po D"
      using idom_loop_spec [OF po(2) n P start] by blast
    obtain pre post where t: "number_tree ?n D = Some (pre, post)"
        "\<forall>a < ?n. \<forall>b. reach ?R b \<longrightarrow> (pre ! a \<le> pre ! b \<and> post ! b \<le> post ! a \<longleftrightarrow> dominates ?R a b)"
      using number_tree_spec [OF po(2) D(2) n0] by blast
    let ?c = "\<lparr>cf_n = ?n, cf_sfirst = row_starts 0 (map length rows'), cf_succ = concat rows', cf_pfirst = pfirst,
      cf_pred = pred, cf_idom = D, cf_pre = pre, cf_post = post\<rparr>"
    have "limba_cfg_build f = Some (list_all (list_all (\<lambda>s. s < ?n)) ?raw, ?c)"
      unfolding limba_cfg_build_def Let_def rows_def [symmetric] using r(1) p po(1) D(1) t(1) False by simp
    then show ?thesis
      using ok Rs P po(2) D(2) t(2) unfolding limba_cfg_dominates_def cfg_built_def
      by (intro exI [of _ "list_all (list_all (\<lambda>s. s < ?n)) ?raw"] exI [of _ ?c] exI [of _ po] exI [of _ order]) simp
  qed
qed

lemma idom_reachable:
  assumes "idom_ok n R po D" "b < n"
  shows "D ! b \<noteq> LIMBA_NONE \<longleftrightarrow> reach R b"
  using assms by (auto simp: idom_ok_def dom_inv_def known_def)

text \<open>
  A sample: the entry branches to the block 2, the block 1 is out of reach, and an error of the block 2
  goes to the block 3.
\<close>

definition sample_block :: "nat list \<Rightarrow> nat \<Rightarrow> limba_block" where
  "sample_block is h = \<lparr>bl_insts = is, bl_nparams = 0, bl_handler = h\<rparr>"

definition sample_inst :: "limba_op \<Rightarrow> nat \<Rightarrow> nat \<Rightarrow> limba_inst" where
  "sample_inst op first n = \<lparr>in_op = op, in_cc = LIMBA_CC_EQ, in_type = 0, in_block = 0, in_nops = n, in_first = first, in_imm = 0, in_imm2 = 0\<rparr>"

definition sample_func :: limba_func where
  "sample_func = \<lparr>fn_name = 0, fn_type = 0, fn_flags = 0, fn_locs = [], fn_pos_cur = 0,
     fn_insts = [sample_inst LIMBA_OP_BR 0 2, sample_inst LIMBA_OP_UNREACHABLE 0 0], fn_operands = [2, 0],
     fn_blocks = [sample_block [0] 0, sample_block [1] 0, sample_block [1] 4, sample_block [1] 0], fn_slots = [], fn_sum = None\<rparr>"

lemma sample_succs:
  "length (fn_blocks sample_func) = 4" "block_succs sample_func 0 = [2]" "block_succs sample_func 1 = []"
  "block_succs sample_func 2 = []" "block_succs sample_func 3 = []"
  unfolding block_succs_def by (simp_all add: sample_func_def sample_block_def sample_inst_def Let_def limba_operand_kinds_def operand_def upt_rec)

lemma sample_rows:
  assumes "limba_cfg_build sample_func = Some (ok, c)"
  shows "set (succ_row c 0) = {2, 3}" "set (succ_row c 1) = {}" "set (succ_row c 2) = {}" "set (succ_row c 3) = {}" "cf_n c = 4"
proof -
  have len: "length (fn_blocks sample_func) < LIMBA_NONE" by (simp add: sample_succs)
  have rows: "normal_row sample_func 0 = [2]" "normal_row sample_func 1 = []" "normal_row sample_func 2 = []" "normal_row sample_func 3 = []"
    using sample_succs by (simp_all add: normal_row_def)
  have four: "b < 4 \<longleftrightarrow> b = 0 \<or> b = 1 \<or> b = 2 \<or> b = 3" for b :: nat by linarith
  have N: "normal_edges sample_func = {(0, 2)}"
    unfolding normal_edges_def sample_succs four using rows by auto
  have h: "err_handler sample_func 4 2 = Some 3" "err_handler sample_func 4 3 = None"
    by (simp_all add: err_handler_def sample_func_def sample_block_def)
  have err: "err_edge sample_func 4 {(0, 2)} b h \<longleftrightarrow> b = 0 \<and> h = 3" for b h
  proof
    assume "err_edge sample_func 4 {(0, 2)} b h"
    then show "b = 0 \<and> h = 3" by induction (use h in auto)
  next
    assume "b = 0 \<and> h = 3"
    then show "err_edge sample_func 4 {(0, 2)} b h" using err_edge.normal [of 0 2 "{(0, 2)}" sample_func 4 3] h(1) by simp
  qed
  obtain po order where b: "cfg_built sample_func ok c po order" using cfg_build_spec [OF len] assms by auto
  show c: "cf_n c = 4" using cfg_built_size [OF b] by (simp add: sample_succs)
  have r: "set (succ_row c b) = set (normal_row sample_func b) \<union> {h. b = 0 \<and> h = 3}" if b4: "b < 4" for b
  proof -
    obtain es where "succ_row c b = normal_row sample_func b @ es" "set es = {h. b = 0 \<and> h = 3}"
      using cfg_built_succ(2) [OF b, of b] b4 unfolding c N err by blast
    then show ?thesis by simp
  qed
  show "set (succ_row c 0) = {2, 3}" using r [of 0] rows(1) by auto
  show "set (succ_row c 1) = {}" using r [of 1] rows(2) by simp
  show "set (succ_row c 2) = {}" using r [of 2] rows(3) by simp
  show "set (succ_row c 3) = {}" using r [of 3] rows(4) by simp
qed

lemma sample_reach:
  assumes "limba_cfg_build sample_func = Some (ok, c)"
  shows "reach (succ_row c) 2" "reach (succ_row c) 3" "\<not> reach (succ_row c) 1"
    "dominates (succ_row c) 0 3" "\<not> dominates (succ_row c) 2 3"
proof -
  note r = sample_rows [OF assms]
  show "reach (succ_row c) 2" "reach (succ_row c) 3" using reach_edge [of "succ_row c" 0] r(1) by simp_all
  show "\<not> reach (succ_row c) 1"
  proof
    assume "reach (succ_row c) 1"
    moreover have "y \<in> {0, 2, 3}" if "x \<in> {0, 2, 3}" "y \<in> set (succ_row c x)" for x y
      using that r(1,3,4) by (elim insertE emptyE) simp_all
    ultimately show False using reach_closed [of "{0, 2, 3}" "succ_row c" 1] by simp
  qed
  have "0 \<in> set p" if "entry_path (succ_row c) p b" for p b using that by induction simp_all
  then show "dominates (succ_row c) 0 3" by (simp add: dominates_def)
  have "entry_path (succ_row c) ([0] @ [3]) 3" using entry_path.edge [OF entry_path.entry, of 3 "succ_row c"] r(1) by simp
  then show "\<not> dominates (succ_row c) 2 3" unfolding dominates_def by fastforce
qed

text \<open>
  C1: For every function with fewer blocks than \<open>LIMBA_NONE\<close> the graph is built (the rounds of error
  edges, the depth-first walk, the passes for the dominators and the walk of the tree all end). A block
  is reachable for the graph exactly when a path leads to it from the entry, and for blocks in reach
  the comparison of intervals in \<open>limba_cfg_dominates\<close> answers exactly whether every path from the entry
  to the one passes the other.
\<close>

theorem cfg_dominates_paths:
  assumes "length (fn_blocks f) < LIMBA_NONE"
  shows "\<exists>ok c. limba_cfg_build f = Some (ok, c) \<and> cf_n c = length (fn_blocks f) \<and>
    (\<forall>b < cf_n c. limba_cfg_reachable c b \<longleftrightarrow> reach (succ_row c) b) \<and>
    (\<forall>a < cf_n c. \<forall>b < cf_n c. reach (succ_row c) b \<longrightarrow> (limba_cfg_dominates c a b \<longleftrightarrow> dominates (succ_row c) a b))"
proof -
  obtain ok c po order where c: "limba_cfg_build f = Some (ok, c)" and b: "cfg_built f ok c po order"
    using cfg_build_spec [OF assms] by blast
  have "limba_cfg_reachable c x \<longleftrightarrow> reach (succ_row c) x" if "x < cf_n c" for x
    using idom_reachable [OF cfg_built_idom [OF b that] that] that by (simp add: limba_cfg_reachable_def)
  then show ?thesis
    using c cfg_built_size [OF b] cfg_built_dominates [OF b] by (intro exI [of _ ok] exI [of _ c]) simp
qed

theorem cfg_dominates_paths_witness:
  "\<exists>ok c. limba_cfg_build sample_func = Some (ok, c) \<and> limba_cfg_reachable c 2 \<and> \<not> limba_cfg_reachable c 1 \<and>
     limba_cfg_dominates c 0 3 \<and> \<not> limba_cfg_dominates c 2 3"
proof -
  have "length (fn_blocks sample_func) < LIMBA_NONE" by (simp add: sample_succs)
  from cfg_dominates_paths [OF this] obtain ok c where c: "limba_cfg_build sample_func = Some (ok, c)"
      "\<forall>b < cf_n c. limba_cfg_reachable c b \<longleftrightarrow> reach (succ_row c) b"
      "\<forall>a < cf_n c. \<forall>b < cf_n c. reach (succ_row c) b \<longrightarrow> (limba_cfg_dominates c a b \<longleftrightarrow> dominates (succ_row c) a b)"
    by blast
  note r = sample_reach [OF c(1)] and n = sample_rows(5) [OF c(1)]
  have "limba_cfg_reachable c 2" "\<not> limba_cfg_reachable c 1" using c(2) r n by simp_all
  moreover have "limba_cfg_dominates c 0 3" "\<not> limba_cfg_dominates c 2 3" using c(3) r n by simp_all
  ultimately show ?thesis using c(1) by blast
qed

text \<open>
  C17: The rows of the graph. The answer is true exactly when every target of a terminator exists. The
  successors of a block are the targets of its terminator in order (the entry in place of one that does
  not exist), then the handlers an error can take from it: the least set that, for every edge into a
  protected block, normal or of an error, gives the source an edge to the handler. The rows of
  predecessors are the same edges turned round.
\<close>

theorem cfg_rows:
  assumes "length (fn_blocks f) < LIMBA_NONE"
  shows "\<exists>ok c. limba_cfg_build f = Some (ok, c) \<and>
    (ok \<longleftrightarrow> (\<forall>b < cf_n c. \<forall>s \<in> set (block_succs f b). s < cf_n c)) \<and>
    (\<forall>b < cf_n c. \<exists>es. succ_row c b = normal_row f b @ es \<and> set es = {h. err_edge f (cf_n c) (normal_edges f) b h}) \<and>
    (\<forall>b < cf_n c. set (pred_row c b) = {a. a < cf_n c \<and> b \<in> set (succ_row c a)})"
proof -
  obtain ok c po order where c: "limba_cfg_build f = Some (ok, c)" and b: "cfg_built f ok c po order"
    using cfg_build_spec [OF assms] by blast
  show ?thesis
    using c cfg_built_ok [OF b] cfg_built_succ(2) [OF b] cfg_built_pred [OF b]
    by (intro exI [of _ ok] exI [of _ c]) simp
qed

theorem cfg_rows_witness:
  "\<exists>ok c. limba_cfg_build sample_func = Some (ok, c) \<and> ok \<and> set (pred_row c 3) = {0}"
proof -
  have "length (fn_blocks sample_func) < LIMBA_NONE" by (simp add: sample_succs)
  from cfg_rows [OF this] obtain ok c where c: "limba_cfg_build sample_func = Some (ok, c)"
      "ok \<longleftrightarrow> (\<forall>b < cf_n c. \<forall>s \<in> set (block_succs sample_func b). s < cf_n c)"
      "\<forall>b < cf_n c. set (pred_row c b) = {a. a < cf_n c \<and> b \<in> set (succ_row c a)}"
    by blast
  note r = sample_rows [OF c(1)]
  have four: "b < 4 \<longleftrightarrow> b = 0 \<or> b = 1 \<or> b = 2 \<or> b = 3" for b :: nat by linarith
  have ok
    unfolding c(2) r(5) four using sample_succs by auto
  moreover have "set (pred_row c 3) = {a. (a = 0 \<or> a = 1 \<or> a = 2 \<or> a = 3) \<and> 3 \<in> set (succ_row c a)}"
    using c(3) r(5) by (simp add: four)
  moreover have "\<dots> = {0}" using r(1-4) by auto
  ultimately have "ok \<and> set (pred_row c 3) = {0}" by simp
  then show ?thesis using c(1) by (intro exI [of _ ok] exI [of _ c]) simp
qed

text \<open>
  C3: \<open>cf_idom\<close> holds the immediate dominators: for a block in reach other than the entry it is a strict
  dominator, and every strict dominator of the block dominates it. A block out of reach has \<open>LIMBA_NONE\<close>.
\<close>

theorem cfg_idom_immediate:
  assumes "length (fn_blocks f) < LIMBA_NONE"
  shows "\<exists>ok c. limba_cfg_build f = Some (ok, c) \<and>
    (\<forall>b < cf_n c. if reach (succ_row c) b \<and> b \<noteq> 0
       then dominates (succ_row c) (cf_idom c ! b) b \<and> cf_idom c ! b \<noteq> b \<and>
         (\<forall>d. dominates (succ_row c) d b \<and> d \<noteq> b \<longrightarrow> dominates (succ_row c) d (cf_idom c ! b))
       else cf_idom c ! b = (if b = 0 then 0 else LIMBA_NONE))"
proof -
  obtain ok c po order where c: "limba_cfg_build f = Some (ok, c)" and g: "cfg_built f ok c po order"
    using cfg_build_spec [OF assms] by blast
  have "if reach (succ_row c) b \<and> b \<noteq> 0
       then dominates (succ_row c) (cf_idom c ! b) b \<and> cf_idom c ! b \<noteq> b \<and>
         (\<forall>d. dominates (succ_row c) d b \<and> d \<noteq> b \<longrightarrow> dominates (succ_row c) d (cf_idom c ! b))
       else cf_idom c ! b = (if b = 0 then 0 else LIMBA_NONE)" if b: "b < cf_n c" for b
  proof -
    have ok: "idom_ok (cf_n c) (succ_row c) po (cf_idom c)" by (rule cfg_built_idom [OF g b])
    then have inv: "dom_inv (cf_n c) (succ_row c) po (cf_idom c)" by (simp add: idom_ok_def)
    show ?thesis
    proof (cases "reach (succ_row c) b \<and> b \<noteq> 0")
      case True
      then show ?thesis using ok inv unfolding idom_ok_def dom_inv_def by simp
    next
      case False
      then show ?thesis using inv b unfolding dom_inv_def by auto
    qed
  qed
  then show ?thesis using c by (intro exI [of _ ok] exI [of _ c]) simp
qed

theorem cfg_idom_immediate_witness:
  "\<exists>ok c. limba_cfg_build sample_func = Some (ok, c) \<and> cf_idom c ! 1 = LIMBA_NONE \<and> cf_idom c ! 3 \<noteq> 3 \<and>
     dominates (succ_row c) (cf_idom c ! 3) 3 \<and> dominates (succ_row c) 0 (cf_idom c ! 3)"
proof -
  have "length (fn_blocks sample_func) < LIMBA_NONE" by (simp add: sample_succs)
  from cfg_idom_immediate [OF this] obtain ok c where c: "limba_cfg_build sample_func = Some (ok, c)"
      "\<And>b. b < cf_n c \<Longrightarrow> if reach (succ_row c) b \<and> b \<noteq> 0
       then dominates (succ_row c) (cf_idom c ! b) b \<and> cf_idom c ! b \<noteq> b \<and>
         (\<forall>d. dominates (succ_row c) d b \<and> d \<noteq> b \<longrightarrow> dominates (succ_row c) d (cf_idom c ! b))
       else cf_idom c ! b = (if b = 0 then 0 else LIMBA_NONE)"
    by blast
  note r = sample_reach [OF c(1)]
  have n: "1 < cf_n c" "3 < cf_n c" using sample_rows(5) [OF c(1)] by simp_all
  have "cf_idom c ! 1 = LIMBA_NONE" using c(2) [OF n(1)] r(3) by simp
  moreover have "cf_idom c ! 3 \<noteq> 3 \<and> dominates (succ_row c) (cf_idom c ! 3) 3 \<and> dominates (succ_row c) 0 (cf_idom c ! 3)"
    using c(2) [OF n(2)] r(2,4) by simp
  ultimately show ?thesis using c(1) by blast
qed

end
