(* ===== verification/Handled.thy ===== *)
theory Handled
  imports Module "HOL-Library.While_Combinator"
begin

text \<open>
  The set ``under a handler'': \<^verbatim>\<open>src/src/ir/handled.c\<close>, the functions an exception may cross on its way to
  a handler, with the clearing of a body (\<^verbatim>\<open>limba_func_clear\<close> of \<^verbatim>\<open>src/src/ir/module.c\<close>), which keeps a
  summary for it. The loop of the closure is \<open>while_option\<close>: \<open>None\<close> is a loop that does not end.
\<close>

section \<open>The summary of a body\<close>

definition push :: "limba_id list \<Rightarrow> limba_id \<Rightarrow> limba_id list" where
  "push a v = (if v \<in> set a then a else a @ [v])"

definition imm_id :: "limba_inst \<Rightarrow> limba_id" where
  "imm_id i = unat (ucast (in_imm i) :: u32)"

definition note_inst :: "limba_func \<Rightarrow> limba_inst \<Rightarrow> limba_fsum \<Rightarrow> limba_fsum" where
  "note_inst f i s =
     (case in_op i of
        LIMBA_OP_CALL \<Rightarrow> s\<lparr>fs_callees := push (fs_callees s) (imm_id i)\<rparr>
      | LIMBA_OP_FADDR \<Rightarrow> s\<lparr>fs_taken := push (fs_taken s) (imm_id i)\<rparr>
      | LIMBA_OP_CALLIND \<Rightarrow> s\<lparr>fs_sigs := push (fs_sigs s) (imm_id i)\<rparr>
      | LIMBA_OP_CALLRT \<Rightarrow>
          (if unat (in_imm i) = LIMBA_RT_PAR_FOR \<and> in_nops i \<ge> 1 then
             let o0 = operand f i 0; d = fn_insts f ! o0
             in s\<lparr>fs_bodies := push (fs_bodies s)
                  (if o0 < length (fn_insts f) \<and> in_op d = LIMBA_OP_FADDR then imm_id d else LIMBA_NONE)\<rparr>
           else s)
      | _ \<Rightarrow> s)"

definition summarise :: "limba_func \<Rightarrow> limba_fsum" where
  "summarise f =
     fold (\<lambda>b s. fold (\<lambda>x s. note_inst f (fn_insts f ! x) s) (bl_insts b) s) (fn_blocks f)
       \<lparr>fs_has_handler = (\<exists>b \<in> set (fn_blocks f). bl_handler b \<noteq> 0), fs_callees = [], fs_taken = [], fs_sigs = [], fs_bodies = []\<rparr>"

definition limba_handled_summary :: "limba_func \<Rightarrow> limba_func" where
  "limba_handled_summary f = (if fn_blocks f = [] then f else f\<lparr>fn_sum := Some (summarise f)\<rparr>)"

definition limba_handled_drop :: "limba_func \<Rightarrow> limba_func" where
  "limba_handled_drop f = f\<lparr>fn_sum := None\<rparr>"

definition limba_func_clear :: "stamp \<Rightarrow> limba_func \<Rightarrow> limba_func \<times> stamp" where
  "limba_func_clear st f = (body_free (limba_handled_summary f), limba_handled_touch st)"

definition limba_func_free :: "limba_func \<Rightarrow> limba_func" where
  "limba_func_free f = limba_handled_drop (body_free f)"

section \<open>The set\<close>

text \<open>The type of a body of \<^verbatim>\<open>par_for\<close>.\<close>

definition body_type :: "limba_module \<Rightarrow> limba_id \<Rightarrow> bool" where
  "body_type m t \<longleftrightarrow>
     t < length (md_types m) \<and> ty_kind (md_types m ! t) = LIMBA_TK_FUNC \<and>
     (let ty = md_types m ! t
      in ty_elem ty = LIMBA_T_VOID \<and> ty_count ty = 2 \<and> \<not> ty_variadic ty \<and>
         mb_type (md_members m ! ty_first ty) = LIMBA_T_PTR \<and> mb_type (md_members m ! (ty_first ty + 1)) = LIMBA_T_I64)"

text \<open>The summary of a function: the one it keeps where its body was freed, or that of its body.\<close>

definition sum_of :: "limba_func \<Rightarrow> limba_fsum" where
  "sum_of f = (case fn_sum f of Some s \<Rightarrow> if fn_blocks f = [] then s else summarise f | None \<Rightarrow> summarise f)"

definition set_all :: "nat \<Rightarrow> limba_id list \<Rightarrow> bool list \<Rightarrow> bool list" where
  "set_all n xs a = fold (\<lambda>x a. if x < n then a[x := True] else a) xs a"

definition taken_by_code :: "limba_module \<Rightarrow> limba_id list" where
  "taken_by_code m = concat (map (\<lambda>f. fs_taken (sum_of f)) (md_funcs m))"

definition taken_by_data :: "limba_module \<Rightarrow> limba_id list" where
  "taken_by_data m =
     concat (map (\<lambda>g. case limba_global_data m g of
         None \<Rightarrow> []
       | Some d \<Rightarrow> map rl_id (filter (\<lambda>r. rl_kind r = LIMBA_RELOC_FUNC) (id_relocs d))) [0 ..< length (md_globals m)])"

definition taken_funcs :: "limba_module \<Rightarrow> bool list" where
  "taken_funcs m =
     (let n = length (md_funcs m)
      in set_all n (taken_by_data m) (set_all n (taken_by_code m) (replicate n False)))"

text \<open>A function goes in the set and on the work list, whose top is first.\<close>

definition add_handled :: "nat \<Rightarrow> limba_id \<Rightarrow> bool list \<times> limba_id list \<Rightarrow> bool list \<times> limba_id list" where
  "add_handled n f hw = (if f < n \<and> \<not> fst hw ! f then ((fst hw)[f := True], f # snd hw) else hw)"

definition of_type :: "limba_module \<Rightarrow> bool list \<Rightarrow> (limba_id \<Rightarrow> bool) \<Rightarrow> limba_id list" where
  "of_type m taken P = filter (\<lambda>g. taken ! g \<and> P (fn_type (md_funcs m ! g))) [0 ..< length (md_funcs m)]"

definition handled_roots :: "limba_module \<Rightarrow> bool list \<Rightarrow> limba_id \<Rightarrow> limba_id list" where
  "handled_roots m taken i =
     (let s = sum_of (md_funcs m ! i)
      in (if fs_has_handler s then [i] else []) @
         concat (map (\<lambda>b. if b \<noteq> LIMBA_NONE then [b] else of_type m taken (body_type m)) (fs_bodies s)))"

definition handled_next :: "limba_module \<Rightarrow> bool list \<Rightarrow> limba_id \<Rightarrow> limba_id list" where
  "handled_next m taken f =
     (let s = sum_of (md_funcs m ! f)
      in fs_callees s @ concat (map (\<lambda>t. of_type m taken (\<lambda>u. u = t)) (fs_sigs s)))"

definition handled_closure :: "limba_module \<Rightarrow> bool list \<Rightarrow> bool list \<times> limba_id list \<Rightarrow> (bool list \<times> limba_id list) option" where
  "handled_closure m taken =
     while_option (\<lambda>(h, w). w \<noteq> [])
       (\<lambda>(h, w). fold (add_handled (length (md_funcs m))) (handled_next m taken (hd w)) (h, tl w))"

definition compute :: "limba_module \<Rightarrow> limba_module option" where
  "compute m =
     (let n = length (md_funcs m); taken = taken_funcs m;
          roots = concat (map (handled_roots m taken) [0 ..< n])
      in map_option (\<lambda>(h, w). m\<lparr>md_handled := Some h\<rparr>)
           (handled_closure m taken (fold (add_handled n) roots (replicate n False, []))))"

text \<open>The answer, with the module whose cache may have been made again.\<close>

definition limba_module_handled :: "stamp \<Rightarrow> limba_module \<Rightarrow> limba_id \<Rightarrow> (limba_module \<times> bool) option" where
  "limba_module_handled now m fid =
     do {
       m \<leftarrow> (case md_handled m of
              Some h \<Rightarrow> if md_handled_stamp m \<noteq> now \<or> length h \<noteq> length (md_funcs m)
                then map_option (\<lambda>m. m\<lparr>md_handled_stamp := now\<rparr>) (compute m) else Some m
            | None \<Rightarrow> map_option (\<lambda>m. m\<lparr>md_handled_stamp := now\<rparr>) (compute m));
       Some (m, fid < length (md_funcs m) \<and> the (md_handled m) ! fid)
     }"

section \<open>What a summary holds\<close>

text \<open>The instructions in the blocks of a function, and the sets a body stands for: calls, addresses, signatures, bodies of par_for.\<close>

record body_sets =
  bs_handler :: bool
  bs_calls :: "limba_id set"
  bs_taken :: "limba_id set"
  bs_sigs :: "limba_id set"
  bs_bodies :: "limba_id set"

definition body_insts :: "limba_func \<Rightarrow> limba_inst set" where
  "body_insts f = {fn_insts f ! x | b x. b \<in> set (fn_blocks f) \<and> x \<in> set (bl_insts b)}"

definition par_body :: "limba_func \<Rightarrow> limba_inst \<Rightarrow> limba_id" where
  "par_body f i =
     (let d = fn_insts f ! operand f i 0
      in if operand f i 0 < length (fn_insts f) \<and> in_op d = LIMBA_OP_FADDR then imm_id d else LIMBA_NONE)"

definition insts_sets :: "limba_func \<Rightarrow> limba_inst set \<Rightarrow> bool \<Rightarrow> body_sets" where
  "insts_sets f I h =
     \<lparr>bs_handler = h,
      bs_calls = {imm_id i | i. i \<in> I \<and> in_op i = LIMBA_OP_CALL},
      bs_taken = {imm_id i | i. i \<in> I \<and> in_op i = LIMBA_OP_FADDR},
      bs_sigs = {imm_id i | i. i \<in> I \<and> in_op i = LIMBA_OP_CALLIND},
      bs_bodies = {par_body f i | i. i \<in> I \<and> in_op i = LIMBA_OP_CALLRT \<and> unat (in_imm i) = LIMBA_RT_PAR_FOR \<and> in_nops i \<ge> 1}\<rparr>"

definition func_sets :: "limba_func \<Rightarrow> body_sets" where
  "func_sets f = insts_sets f (body_insts f) (\<exists>b \<in> set (fn_blocks f). bl_handler b \<noteq> 0)"

definition sum_sets :: "limba_fsum \<Rightarrow> body_sets" where
  "sum_sets s = \<lparr>bs_handler = fs_has_handler s, bs_calls = set (fs_callees s), bs_taken = set (fs_taken s),
     bs_sigs = set (fs_sigs s), bs_bodies = set (fs_bodies s)\<rparr>"

lemma set_push [simp]: "set (push a v) = insert v (set a)"
  by (auto simp: push_def)

lemma note_inst_sets:
  assumes "sum_sets s = insts_sets f I h"
  shows "sum_sets (note_inst f i s) = insts_sets f (insert i I) h"
proof -
  have s: "fs_has_handler s = h" "set (fs_callees s) = bs_calls (insts_sets f I h)" "set (fs_taken s) = bs_taken (insts_sets f I h)"
      "set (fs_sigs s) = bs_sigs (insts_sets f I h)" "set (fs_bodies s) = bs_bodies (insts_sets f I h)"
    using assms by (simp_all add: sum_sets_def insts_sets_def)
  have more: "{u j | j. j \<in> insert i I \<and> P j} = (if P i then insert (u i) {u j | j. j \<in> I \<and> P j} else {u j | j. j \<in> I \<and> P j})"
    for u :: "limba_inst \<Rightarrow> limba_id" and P
    by auto
  have rt: "in_op i = LIMBA_OP_CALLRT \<Longrightarrow> note_inst f i s =
      (if unat (in_imm i) = LIMBA_RT_PAR_FOR \<and> in_nops i \<ge> 1 then s\<lparr>fs_bodies := push (fs_bodies s) (par_body f i)\<rparr> else s)"
    by (simp add: note_inst_def par_body_def Let_def)
  consider "in_op i = LIMBA_OP_CALL" | "in_op i = LIMBA_OP_FADDR" | "in_op i = LIMBA_OP_CALLIND" | "in_op i = LIMBA_OP_CALLRT"
    | "in_op i \<notin> {LIMBA_OP_CALL, LIMBA_OP_FADDR, LIMBA_OP_CALLIND, LIMBA_OP_CALLRT}" by blast
  then show ?thesis
  proof cases
    case 5
    then have "note_inst f i s = s" by (cases "in_op i") (simp_all add: note_inst_def)
    moreover have "in_op i \<noteq> LIMBA_OP_CALL" "in_op i \<noteq> LIMBA_OP_FADDR" "in_op i \<noteq> LIMBA_OP_CALLIND" "in_op i \<noteq> LIMBA_OP_CALLRT"
      using 5 by simp_all
    ultimately show ?thesis using assms by (simp add: insts_sets_def more del: insert_iff)
  qed (use s rt in \<open>simp_all add: note_inst_def sum_sets_def insts_sets_def more del: insert_iff\<close>)
qed

lemma note_insts_sets:
  "sum_sets s = insts_sets f I h \<Longrightarrow>
   sum_sets (fold (\<lambda>x s. note_inst f (fn_insts f ! x) s) xs s) = insts_sets f (I \<union> (\<lambda>x. fn_insts f ! x) ` set xs) h"
proof (induction xs arbitrary: s I)
  case (Cons x xs)
  show ?case using Cons.IH [OF note_inst_sets [OF Cons.prems]] by simp
qed simp

lemma note_blocks_sets:
  "sum_sets s = insts_sets f I h \<Longrightarrow>
   sum_sets (fold (\<lambda>b s. fold (\<lambda>x s. note_inst f (fn_insts f ! x) s) (bl_insts b) s) bs s) =
     insts_sets f (I \<union> {fn_insts f ! x | b x. b \<in> set bs \<and> x \<in> set (bl_insts b)}) h"
proof (induction bs arbitrary: s I)
  case (Cons b bs)
  have "I \<union> (\<lambda>x. fn_insts f ! x) ` set (bl_insts b) \<union> {fn_insts f ! x | b x. b \<in> set bs \<and> x \<in> set (bl_insts b)} =
      I \<union> {fn_insts f ! x | c x. c \<in> set (b # bs) \<and> x \<in> set (bl_insts c)}" by auto
  then show ?case using Cons.IH [OF note_insts_sets [OF Cons.prems]] by simp
qed simp

lemma summarise_sets: "sum_sets (summarise f) = func_sets f"
proof -
  have "sum_sets \<lparr>fs_has_handler = h, fs_callees = [], fs_taken = [], fs_sigs = [], fs_bodies = []\<rparr> = insts_sets f {} h" for h
    by (simp add: sum_sets_def insts_sets_def)
  from note_blocks_sets [OF this] show ?thesis by (simp add: summarise_def func_sets_def body_insts_def)
qed

text \<open>What a function stands for: its body, or what the clearing of its body kept.\<close>

definition noted_sets :: "limba_func \<Rightarrow> body_sets" where
  "noted_sets f = (case fn_sum f of Some s \<Rightarrow> if fn_blocks f = [] then sum_sets s else func_sets f | None \<Rightarrow> func_sets f)"

lemma sum_of_sets: "sum_sets (sum_of f) = noted_sets f"
  by (simp add: sum_of_def noted_sets_def summarise_sets split: option.split)

lemma sum_of_set [simp]:
  "fs_has_handler (sum_of f) = bs_handler (noted_sets f)" "set (fs_callees (sum_of f)) = bs_calls (noted_sets f)"
  "set (fs_taken (sum_of f)) = bs_taken (noted_sets f)" "set (fs_sigs (sum_of f)) = bs_sigs (noted_sets f)"
  "set (fs_bodies (sum_of f)) = bs_bodies (noted_sets f)"
  by (simp_all flip: sum_of_sets add: sum_sets_def)

lemma func_clear_sets: "noted_sets (fst (limba_func_clear st f)) = noted_sets f" "fn_type (fst (limba_func_clear st f)) = fn_type f"
  by (simp_all add: limba_func_clear_def limba_handled_summary_def body_free_def noted_sets_def summarise_sets split: option.split)
    (simp add: func_sets_def insts_sets_def body_insts_def)

section \<open>The set under a handler\<close>

definition address_taken :: "limba_module \<Rightarrow> limba_id \<Rightarrow> bool" where
  "address_taken m g \<longleftrightarrow>
     (\<exists>f \<in> set (md_funcs m). g \<in> bs_taken (noted_sets f)) \<or>
     (\<exists>x < length (md_globals m). \<exists>d. limba_global_data m x = Some d \<and>
        (\<exists>r \<in> set (id_relocs d). rl_kind r = LIMBA_RELOC_FUNC \<and> rl_id r = g))"

text \<open>The sets of a function by its number.\<close>

abbreviation (input) noted :: "limba_module \<Rightarrow> limba_id \<Rightarrow> body_sets" where
  "noted m i \<equiv> noted_sets (md_funcs m ! i)"

inductive under_handler :: "limba_module \<Rightarrow> limba_id \<Rightarrow> bool" for m where
  protects: "i < length (md_funcs m) \<Longrightarrow> bs_handler (noted m i) \<Longrightarrow> under_handler m i"
| par_for: "i < length (md_funcs m) \<Longrightarrow> b \<in> bs_bodies (noted m i) \<Longrightarrow> b \<noteq> LIMBA_NONE \<Longrightarrow> b < length (md_funcs m) \<Longrightarrow>
    under_handler m b"
| par_unknown: "i < length (md_funcs m) \<Longrightarrow> LIMBA_NONE \<in> bs_bodies (noted m i) \<Longrightarrow> g < length (md_funcs m) \<Longrightarrow>
    address_taken m g \<Longrightarrow> body_type m (fn_type (md_funcs m ! g)) \<Longrightarrow> under_handler m g"
| called: "under_handler m f \<Longrightarrow> g \<in> bs_calls (noted m f) \<Longrightarrow> g < length (md_funcs m) \<Longrightarrow> under_handler m g"
| called_by_address: "under_handler m f \<Longrightarrow> g < length (md_funcs m) \<Longrightarrow> address_taken m g \<Longrightarrow>
    fn_type (md_funcs m ! g) \<in> bs_sigs (noted m f) \<Longrightarrow> under_handler m g"

text \<open>The sets of the code against the sets they hold.\<close>

lemma set_all_spec:
  "length a = n \<Longrightarrow> length (set_all n xs a) = n \<and> (\<forall>g < n. set_all n xs a ! g \<longleftrightarrow> a ! g \<or> g \<in> set xs)"
proof (induction xs arbitrary: a)
  case (Cons x xs)
  have step: "set_all n (x # xs) a = set_all n xs (if x < n then a[x := True] else a)" by (simp add: set_all_def)
  show ?case unfolding step using Cons.IH [of "if x < n then a[x := True] else a"] Cons.prems
    by (auto simp: nth_list_update)
qed (simp add: set_all_def)

lemma taken_funcs_spec: "g < length (md_funcs m) \<Longrightarrow> taken_funcs m ! g \<longleftrightarrow> address_taken m g"
proof -
  assume g: "g < length (md_funcs m)"
  have "g \<in> set (taken_by_code m) \<longleftrightarrow> (\<exists>f \<in> set (md_funcs m). g \<in> bs_taken (noted_sets f))"
    by (simp add: taken_by_code_def)
  moreover have "g \<in> set (taken_by_data m) \<longleftrightarrow> (\<exists>x < length (md_globals m). \<exists>d. limba_global_data m x = Some d \<and>
        (\<exists>r \<in> set (id_relocs d). rl_kind r = LIMBA_RELOC_FUNC \<and> rl_id r = g))"
    unfolding taken_by_data_def set_concat set_map set_upt
    by (intro iffI) (force split: option.splits)+
  ultimately show ?thesis
    using g set_all_spec [of "replicate (length (md_funcs m)) False" "length (md_funcs m)" "taken_by_code m"]
      set_all_spec [of "set_all (length (md_funcs m)) (taken_by_code m) (replicate (length (md_funcs m)) False)" "length (md_funcs m)" "taken_by_data m"]
    by (auto simp: taken_funcs_def address_taken_def Let_def)
qed

lemma of_type_spec: "g \<in> set (of_type m (taken_funcs m) P) \<longleftrightarrow> g < length (md_funcs m) \<and> address_taken m g \<and> P (fn_type (md_funcs m ! g))"
  by (auto simp: of_type_def taken_funcs_spec)

lemma handled_next_spec:
  "g \<in> set (handled_next m (taken_funcs m) f) \<longleftrightarrow> g \<in> bs_calls (noted m f) \<or>
     g < length (md_funcs m) \<and> address_taken m g \<and> fn_type (md_funcs m ! g) \<in> bs_sigs (noted m f)"
  by (auto simp: handled_next_def Let_def of_type_spec)

lemma handled_roots_spec:
  "g \<in> set (handled_roots m (taken_funcs m) i) \<longleftrightarrow> g = i \<and> bs_handler (noted m i) \<or> g \<in> bs_bodies (noted m i) \<and> g \<noteq> LIMBA_NONE \<or>
     LIMBA_NONE \<in> bs_bodies (noted m i) \<and> g < length (md_funcs m) \<and> address_taken m g \<and> body_type m (fn_type (md_funcs m ! g))"
  by (auto simp: handled_roots_def Let_def of_type_spec split: if_splits)

text \<open>Adding keeps the work list in the set; what is left to do goes down.\<close>

definition todo :: "bool list \<times> limba_id list \<Rightarrow> nat" where
  "todo hw = 2 * count_list (fst hw) False + length (snd hw)"

definition listed :: "nat \<Rightarrow> bool list \<times> limba_id list \<Rightarrow> bool" where
  "listed n hw \<longleftrightarrow> length (fst hw) = n \<and> (\<forall>f \<in> set (snd hw). f < n \<and> fst hw ! f)"

lemma count_false: "f < length h \<Longrightarrow> \<not> h ! f \<Longrightarrow> count_list (h[f := True]) False < count_list h False"
  by (induction h arbitrary: f) (auto simp: nth_Cons' split: nat.split)

lemma add_handled_spec:
  assumes "listed n hw"
  shows "listed n (add_handled n f hw)" "todo (add_handled n f hw) \<le> todo hw"
    "g < n \<Longrightarrow> fst (add_handled n f hw) ! g \<longleftrightarrow> fst hw ! g \<or> g = f"
    "set (snd (add_handled n f hw)) = set (snd hw) \<union> {g. g = f \<and> g < n \<and> \<not> fst hw ! g}"
  using assms count_false [of f "fst hw"] by (auto simp: add_handled_def listed_def todo_def nth_list_update)

lemma add_all_spec:
  assumes "listed n hw"
  shows "listed n (fold (add_handled n) fs hw) \<and> todo (fold (add_handled n) fs hw) \<le> todo hw \<and>
    (\<forall>g < n. fst (fold (add_handled n) fs hw) ! g \<longleftrightarrow> fst hw ! g \<or> g \<in> set fs) \<and>
    set (snd (fold (add_handled n) fs hw)) = set (snd hw) \<union> {g \<in> set fs. g < n \<and> \<not> fst hw ! g}"
  using assms
proof (induction fs arbitrary: hw)
  case (Cons f fs)
  note a = add_handled_spec [OF Cons.prems, of f]
  have h: "\<forall>g < n. fst (add_handled n f hw) ! g \<longleftrightarrow> fst hw ! g \<or> g = f" using add_handled_spec(3) [OF Cons.prems] by blast
  then have "{g \<in> set fs. g < n \<and> \<not> fst (add_handled n f hw) ! g} \<union> {g. g = f \<and> g < n \<and> \<not> fst hw ! g} =
      {g \<in> set (f # fs). g < n \<and> \<not> fst hw ! g}" by auto
  then have w: "set (snd hw) \<union> {g. g = f \<and> g < n \<and> \<not> fst hw ! g} \<union> {g \<in> set fs. g < n \<and> \<not> fst (add_handled n f hw) ! g} =
      set (snd hw) \<union> {g \<in> set (f # fs). g < n \<and> \<not> fst hw ! g}" by blast
  show ?case using Cons.IH [OF a(1)] a(2) h unfolding a(4) w by auto
qed simp

text \<open>The closure: what is in the set is under a handler, and what is not on the work list has its next functions in it.\<close>

definition closing :: "limba_module \<Rightarrow> bool list \<times> limba_id list \<Rightarrow> bool" where
  "closing m hw \<longleftrightarrow>
     listed (length (md_funcs m)) hw \<and> (\<forall>g < length (md_funcs m). fst hw ! g \<longrightarrow> under_handler m g) \<and>
     (\<forall>i < length (md_funcs m). \<forall>g \<in> set (handled_roots m (taken_funcs m) i). g < length (md_funcs m) \<longrightarrow> fst hw ! g) \<and>
     (\<forall>f < length (md_funcs m). fst hw ! f \<longrightarrow> f \<notin> set (snd hw) \<longrightarrow>
        (\<forall>g \<in> set (handled_next m (taken_funcs m) f). g < length (md_funcs m) \<longrightarrow> fst hw ! g))"

lemma closing_step:
  assumes "closing m (h, x # w)"
  shows "closing m (fold (add_handled (length (md_funcs m))) (handled_next m (taken_funcs m) x) (h, w))"
    "todo (fold (add_handled (length (md_funcs m))) (handled_next m (taken_funcs m) x) (h, w)) < todo (h, x # w)"
proof -
  let ?n = "length (md_funcs m)" and ?xs = "handled_next m (taken_funcs m) x"
  have i: "listed ?n (h, w)" "x < ?n" "h ! x" "\<forall>g < ?n. h ! g \<longrightarrow> under_handler m g"
    "\<forall>i < ?n. \<forall>g \<in> set (handled_roots m (taken_funcs m) i). g < ?n \<longrightarrow> h ! g"
    "\<forall>f < ?n. h ! f \<longrightarrow> f \<notin> set (x # w) \<longrightarrow> (\<forall>g \<in> set (handled_next m (taken_funcs m) f). g < ?n \<longrightarrow> h ! g)"
    using assms by (simp_all add: closing_def listed_def)
  note a = add_all_spec [OF i(1), of ?xs]
  obtain h' w' where hw: "fold (add_handled ?n) ?xs (h, w) = (h', w')" by fastforce
  have l: "listed ?n (h', w')" and t: "todo (h', w') \<le> todo (h, w)" using a unfolding hw by simp_all
  have h': "\<forall>g < ?n. h' ! g \<longleftrightarrow> h ! g \<or> g \<in> set ?xs" and w': "set w' = set w \<union> {g \<in> set ?xs. g < ?n \<and> \<not> h ! g}"
    using a unfolding hw by simp_all
  have x: "under_handler m x" using i(2-4) by blast
  have new: "under_handler m g" if "g < ?n" "g \<in> set ?xs" for g
    using that(2) called [OF x _ that(1)] called_by_address [OF x that(1)] unfolding handled_next_spec by blast
  have "\<forall>g < ?n. h' ! g \<longrightarrow> under_handler m g" using h' i(4) new by blast
  moreover have "\<forall>i < ?n. \<forall>g \<in> set (handled_roots m (taken_funcs m) i). g < ?n \<longrightarrow> h' ! g" using h' i(5) by blast
  moreover have "h' ! g" if f: "f < ?n" "h' ! f" "f \<notin> set w'" and g: "g \<in> set (handled_next m (taken_funcs m) f)" "g < ?n" for f g
  proof (cases "f = x")
    case True
    then show ?thesis using h' g by blast
  next
    case False
    have "h ! f \<or> f \<in> set ?xs" using h' f(1,2) by blast
    moreover have w: "f \<notin> set w" "\<not> (f \<in> set ?xs \<and> \<not> h ! f)" using f(1,3) unfolding w' by blast+
    ultimately have hf: "h ! f" by blast
    have "f \<notin> set (x # w)" using False w(1) by simp
    from i(6) [rule_format, OF f(1) hf this g] show ?thesis using h' g(2) by simp
  qed
  ultimately show "closing m (fold (add_handled ?n) ?xs (h, w))"
    unfolding closing_def hw fst_conv snd_conv using l by blast
  show "todo (fold (add_handled ?n) ?xs (h, w)) < todo (h, x # w)" using t unfolding hw by (simp add: todo_def)
qed

lemma closure_spec:
  assumes "closing m hw"
  shows "\<exists>h. handled_closure m (taken_funcs m) hw = Some (h, []) \<and> closing m (h, [])"
proof -
  have "\<exists>hw'. handled_closure m (taken_funcs m) hw = Some hw'"
    unfolding handled_closure_def
    by (rule measure_while_option_Some [where P = "closing m" and f = todo, OF _ assms])
      (auto simp: neq_Nil_conv dest: closing_step)
  then obtain hw' where hw': "handled_closure m (taken_funcs m) hw = Some hw'" by blast
  have "closing m hw'"
    using hw' unfolding handled_closure_def
    by (rule while_option_rule [where P = "closing m", rotated]) (auto simp: neq_Nil_conv assms dest: closing_step)
  moreover have "snd hw' = []" using while_option_stop [OF hw' [unfolded handled_closure_def]] by auto
  ultimately show ?thesis using hw' by (cases hw') auto
qed

lemma under_handler_less: "under_handler m g \<Longrightarrow> g < length (md_funcs m)"
  by (auto elim: under_handler.cases)

lemma closing_done:
  assumes "closing m (h, [])" "g < length (md_funcs m)"
  shows "h ! g \<longleftrightarrow> under_handler m g"
proof
  have c: "\<forall>i < length (md_funcs m). \<forall>g \<in> set (handled_roots m (taken_funcs m) i). g < length (md_funcs m) \<longrightarrow> h ! g"
    "\<forall>f < length (md_funcs m). h ! f \<longrightarrow> (\<forall>g \<in> set (handled_next m (taken_funcs m) f). g < length (md_funcs m) \<longrightarrow> h ! g)"
    using assms(1) by (simp_all add: closing_def)
  assume "under_handler m g"
  then show "h ! g" using assms(2)
  proof induction
    case (called f g)
    then have "g \<in> set (handled_next m (taken_funcs m) f)" by (simp add: handled_next_spec)
    then show ?case using c(2) under_handler_less [OF called(1)] called by blast
  next
    case (called_by_address f g)
    then have "g \<in> set (handled_next m (taken_funcs m) f)" by (simp add: handled_next_spec)
    then show ?case using c(2) under_handler_less [OF called_by_address(1)] called_by_address by blast
  next
    case (protects i)
    then have "i \<in> set (handled_roots m (taken_funcs m) i)" by (simp add: handled_roots_spec)
    then show ?case using c(1) protects by blast
  next
    case (par_for i b)
    then have "b \<in> set (handled_roots m (taken_funcs m) i)" by (simp add: handled_roots_spec)
    then show ?case using c(1) par_for by blast
  next
    case (par_unknown i g)
    then have "g \<in> set (handled_roots m (taken_funcs m) i)" by (simp add: handled_roots_spec)
    then show ?case using c(1) par_unknown by blast
  qed
qed (use assms in \<open>simp add: closing_def\<close>)

lemma compute_spec:
  "\<exists>h. compute m = Some (m\<lparr>md_handled := Some h\<rparr>) \<and> length h = length (md_funcs m) \<and>
     (\<forall>g < length (md_funcs m). h ! g \<longleftrightarrow> under_handler m g)"
proof -
  let ?n = "length (md_funcs m)" and ?roots = "concat (map (handled_roots m (taken_funcs m)) [0 ..< length (md_funcs m)])"
  have start: "listed ?n (replicate ?n False, [])" by (simp add: listed_def)
  note a = add_all_spec [OF start, of ?roots]
  obtain h0 w0 where hw: "fold (add_handled ?n) ?roots (replicate ?n False, []) = (h0, w0)" by fastforce
  have h0: "\<forall>g < ?n. h0 ! g \<longleftrightarrow> g \<in> set ?roots" and w0: "set w0 = {g \<in> set ?roots. g < ?n}"
    using a unfolding hw by auto
  have "under_handler m g" if "g < ?n" "g \<in> set ?roots" for g
    using that protects par_for par_unknown by (auto simp: handled_roots_spec)
  then have "\<forall>g < ?n. h0 ! g \<longrightarrow> under_handler m g" using h0 by blast
  moreover have "\<forall>i < ?n. \<forall>g \<in> set (handled_roots m (taken_funcs m) i). g < ?n \<longrightarrow> h0 ! g" using h0 by auto
  moreover have "f \<in> set w0" if "f < ?n" "h0 ! f" for f using that h0 w0 by blast
  ultimately have "closing m (fold (add_handled ?n) ?roots (replicate ?n False, []))"
    using a unfolding closing_def hw by simp
  from closure_spec [OF this] obtain h where h: "handled_closure m (taken_funcs m) (fold (add_handled ?n) ?roots (replicate ?n False, [])) = Some (h, [])"
      "closing m (h, [])" by blast
  have "length h = ?n" using h(2) by (simp add: closing_def listed_def)
  then show ?thesis using h(1) closing_done [OF h(2)] by (intro exI [of _ h]) (simp add: compute_def Let_def)
qed

text \<open>The set does not depend on the cache, nor on whether a body or its summary is there.\<close>

definition looks_alike :: "limba_module \<Rightarrow> limba_module \<Rightarrow> bool" where
  "looks_alike m m' \<longleftrightarrow>
     length (md_funcs m') = length (md_funcs m) \<and> md_types m' = md_types m \<and> md_members m' = md_members m \<and>
     md_globals m' = md_globals m \<and> md_inits m' = md_inits m \<and>
     (\<forall>i < length (md_funcs m). noted m' i = noted m i \<and> fn_type (md_funcs m' ! i) = fn_type (md_funcs m ! i))"

lemma looks_alike_sym: "looks_alike m m' \<Longrightarrow> looks_alike m' m"
  by (simp add: looks_alike_def)

lemma alike_taken: "looks_alike m m' \<Longrightarrow> address_taken m g \<Longrightarrow> address_taken m' g"
proof -
  assume l: "looks_alike m m'" and g: "address_taken m g"
  have data: "limba_global_data m' = limba_global_data m"
    using l by (intro ext) (simp add: looks_alike_def limba_global_data_def Let_def)
  have "\<exists>f \<in> set (md_funcs m'). g \<in> bs_taken (noted_sets f)" if f: "f \<in> set (md_funcs m)" "g \<in> bs_taken (noted_sets f)" for f
  proof -
    obtain i where "i < length (md_funcs m)" "f = md_funcs m ! i" using f(1) by (auto simp: in_set_conv_nth)
    then show ?thesis using l f(2) by (intro bexI [of _ "md_funcs m' ! i"]) (simp_all add: looks_alike_def)
  qed
  moreover have "length (md_globals m') = length (md_globals m)" using l by (simp add: looks_alike_def)
  ultimately show "address_taken m' g" using g unfolding address_taken_def data by auto
qed

lemma alike_under_handler:
  assumes "looks_alike m m'" "under_handler m g"
  shows "under_handler m' g"
proof -
  have l: "length (md_funcs m') = length (md_funcs m)" and b: "body_type m' = body_type m"
    and n: "\<And>i. i < length (md_funcs m) \<Longrightarrow> noted m' i = noted m i \<and> fn_type (md_funcs m' ! i) = fn_type (md_funcs m ! i)"
    using assms(1) by (auto simp: looks_alike_def body_type_def fun_eq_iff)
  from assms(2) show ?thesis
  proof induction
    case (protects i)
    then show ?case using l n under_handler.protects by simp
  next
    case (par_for i b)
    then show ?case using l n under_handler.par_for [of i m' b] by simp
  next
    case (par_unknown i g)
    then show ?case using l b n under_handler.par_unknown [of i m' g] alike_taken [OF assms(1)] by simp
  next
    case (called f g)
    then show ?case using l n [OF under_handler_less [OF called(1)]] under_handler.called [of m' f g] by simp
  next
    case (called_by_address f g)
    then show ?case
      using l n [of g] n [OF under_handler_less [OF called_by_address(1)]] under_handler.called_by_address [of m' f g]
        alike_taken [OF assms(1)] by simp
  qed
qed

lemma alike_same: "looks_alike m m' \<Longrightarrow> under_handler m' = under_handler m"
  using alike_under_handler looks_alike_sym by (intro ext iffI) blast+

lemma cache_alike: "looks_alike m (m\<lparr>md_handled := h\<rparr>)" "looks_alike m (m\<lparr>md_handled_stamp := s\<rparr>)"
  by (simp_all add: looks_alike_def)

lemma cache_under_handler [simp]:
  "under_handler (m\<lparr>md_handled := h\<rparr>) = under_handler m" "under_handler (m\<lparr>md_handled_stamp := s\<rparr>) = under_handler m"
  using cache_alike alike_same by blast+

text \<open>A cache made at the stamp of now holds the set.\<close>

definition handled_ok :: "stamp \<Rightarrow> limba_module \<Rightarrow> bool" where
  "handled_ok now m \<longleftrightarrow>
     (\<forall>h. md_handled m = Some h \<and> md_handled_stamp m = now \<and> length h = length (md_funcs m) \<longrightarrow>
        (\<forall>g < length h. h ! g \<longleftrightarrow> under_handler m g))"

text \<open>
  C13: Asking whether a function is under a handler always ends, and the answer is right: it is in the
  least set that holds the functions with a protected block and the bodies of par_for, and is closed
  under calls, direct and by address. The cache is kept right, and nothing else of the module changes.
\<close>

theorem module_handled_least:
  assumes "handled_ok now m"
  shows "\<exists>h s. limba_module_handled now m fid = Some (m\<lparr>md_handled := h, md_handled_stamp := s\<rparr>, under_handler m fid) \<and>
    handled_ok now (m\<lparr>md_handled := h, md_handled_stamp := s\<rparr>) \<and> h \<noteq> None"
proof (cases "\<exists>h. md_handled m = Some h \<and> md_handled_stamp m = now \<and> length h = length (md_funcs m)")
  case True
  then obtain h where h: "md_handled m = Some h" "md_handled_stamp m = now" "length h = length (md_funcs m)" by blast
  have "m\<lparr>md_handled := Some h, md_handled_stamp := now\<rparr> = m" using h by simp
  moreover have "limba_module_handled now m fid = Some (m, under_handler m fid)"
    using h assms under_handler_less [of m fid] by (auto simp: limba_module_handled_def handled_ok_def)
  ultimately show ?thesis using assms by (intro exI [of _ "Some h"] exI [of _ now]) simp
next
  case False
  obtain h where h: "compute m = Some (m\<lparr>md_handled := Some h\<rparr>)" "length h = length (md_funcs m)"
      "\<forall>g < length (md_funcs m). h ! g \<longleftrightarrow> under_handler m g"
    using compute_spec by blast
  let ?m = "m\<lparr>md_handled := Some h, md_handled_stamp := now\<rparr>"
  have "limba_module_handled now m fid = Some (?m, under_handler m fid)"
    using False h under_handler_less [of m fid] by (auto simp: limba_module_handled_def split: option.split)
  moreover have "handled_ok now ?m" using h by (simp add: handled_ok_def)
  ultimately show ?thesis by blast
qed

text \<open>
  C14: Freeing the body of a function keeps what the set under a handler needs of it: whichever function
  of a module is cleared, the same functions are under a handler.
\<close>

theorem func_clear_keeps_handled:
  assumes "i < length (md_funcs m)" "limba_func_clear st (md_funcs m ! i) = (f, st')"
  shows "fn_blocks f = [] \<and> under_handler (m\<lparr>md_funcs := (md_funcs m)[i := f]\<rparr>) = under_handler m"
proof -
  have f: "f = fst (limba_func_clear st (md_funcs m ! i))" using assms(2) by simp
  have "looks_alike m (m\<lparr>md_funcs := (md_funcs m)[i := f]\<rparr>)"
    using func_clear_sets [of st "md_funcs m ! i"] assms(1) by (auto simp: looks_alike_def nth_list_update f)
  then show ?thesis using alike_same by (simp add: f limba_func_clear_def body_free_def)
qed

section \<open>A module with a body of par_for not known\<close>

text \<open>
  Function 0 has the type of a body of \<^verbatim>\<open>par_for\<close>, and its address is in the data of global 0 only; function 1
  gives \<^verbatim>\<open>par_for\<close> a body that comes from a load.
\<close>

definition par_inst :: "limba_op \<Rightarrow> limba_id \<Rightarrow> u64 \<Rightarrow> nat \<Rightarrow> limba_inst" where
  "par_inst oper t imm n = \<lparr>in_op = oper, in_cc = LIMBA_CC_EQ, in_type = t, in_block = 0, in_nops = n, in_first = 0, in_imm = imm, in_imm2 = 0\<rparr>"

definition par_func :: "nat list \<Rightarrow> limba_id \<Rightarrow> limba_func" where
  "par_func is t = \<lparr>fn_name = 0, fn_type = t, fn_flags = 0, fn_locs = [], fn_pos_cur = 0,
     fn_insts = [par_inst LIMBA_OP_GADDR LIMBA_T_PTR 0 0, par_inst LIMBA_OP_LOAD LIMBA_T_PTR 0 1,
       par_inst LIMBA_OP_CALLRT LIMBA_T_VOID 86 4, par_inst LIMBA_OP_RET LIMBA_T_VOID 0 0],
     fn_operands = [1, 0, 0, 0], fn_blocks = [\<lparr>bl_insts = is, bl_nparams = 0, bl_handler = 0\<rparr>], fn_slots = [], fn_sum = None\<rparr>"

definition par_callee :: limba_func where
  "par_callee = par_func [3] 0"

definition par_caller :: limba_func where
  "par_caller = par_func [0, 1, 2, 3] 1"

definition par_module :: "limba_reloc list \<Rightarrow> limba_module" where
  "par_module rs = limba_module_new
     \<lparr>md_types := [\<lparr>ty_kind = LIMBA_TK_FUNC, ty_variadic = False, ty_rext = 0, ty_size = 0,
        ty_align = 1, ty_name = LIMBA_NONE, ty_elem = LIMBA_T_VOID, ty_count = 2, ty_first = 0\<rparr>],
      md_members := [\<lparr>mb_type = LIMBA_T_PTR, mb_offset = 0\<rparr>, \<lparr>mb_type = LIMBA_T_I64, mb_offset = 0\<rparr>],
      md_globals := [\<lparr>gl_name = 0, gl_type = LIMBA_T_PTR, gl_flags = 0, gl_init = LIMBA_INIT_DATA, gl_value = 0\<rparr>],
      md_inits := [empty_data\<lparr>id_relocs := rs\<rparr>],
      md_funcs := [par_callee, par_caller], md_handled := Some [rs \<noteq> [], False], md_handled_stamp := 1\<rparr>"

abbreviation (input) par_relocs :: "limba_reloc list" where
  "par_relocs \<equiv> [\<lparr>rl_offset = 0, rl_kind = LIMBA_RELOC_FUNC, rl_id = 0, rl_addend = 0\<rparr>]"

lemma par_sets:
  "noted_sets par_callee = \<lparr>bs_handler = False, bs_calls = {}, bs_taken = {}, bs_sigs = {}, bs_bodies = {}\<rparr>"
  "noted_sets par_caller = \<lparr>bs_handler = False, bs_calls = {}, bs_taken = {}, bs_sigs = {}, bs_bodies = {LIMBA_NONE}\<rparr>"
  unfolding sum_of_sets [symmetric]
  by (simp_all add: sum_of_def summarise_def note_inst_def par_callee_def par_caller_def par_func_def par_inst_def push_def sum_sets_def operand_def)

lemma par_fields:
  "md_funcs (par_module rs) = [par_callee, par_caller]" "md_handled (par_module rs) = Some [rs \<noteq> [], False]"
  "md_handled_stamp (par_module rs) = 1"
  by (simp_all add: par_module_def)

lemma par_taken: "address_taken (par_module rs) g \<longleftrightarrow> (\<exists>r \<in> set rs. rl_kind r = LIMBA_RELOC_FUNC \<and> rl_id r = g)"
proof -
  have "limba_global_data (par_module rs) 0 = Some (empty_data\<lparr>id_relocs := rs\<rparr>)" "length (md_globals (par_module rs)) = 1"
    by (simp_all add: par_module_def limba_global_data_def)
  then show ?thesis unfolding address_taken_def par_fields by (auto simp: par_sets)
qed

lemma par_under: "under_handler (par_module par_relocs) g \<longleftrightarrow> g = 0"
proof
  assume "under_handler (par_module par_relocs) g"
  then show "g = 0"
    by induction (auto simp: par_fields par_sets par_taken less_Suc_eq numeral_2_eq_2)
next
  assume g: "g = 0"
  have "body_type (par_module par_relocs) 0" by (simp add: body_type_def par_module_def)
  then show "under_handler (par_module par_relocs) g"
    unfolding g by (intro under_handler.par_unknown [of 1]) (simp_all add: par_fields par_sets par_taken, simp add: par_callee_def par_func_def)
qed

lemma par_not_under: "\<not> under_handler (par_module []) g"
proof
  assume "under_handler (par_module []) g"
  then show False
    by induction (auto simp: par_fields par_sets par_taken less_Suc_eq numeral_2_eq_2)
qed

lemma par_ok: "handled_ok 1 (par_module par_relocs)" "handled_ok 5 (par_module rs)"
  by (auto simp: handled_ok_def par_fields par_under less_Suc_eq)

theorem module_handled_least_witness:
  "(\<exists>m'. limba_module_handled 5 (par_module par_relocs) 0 = Some (m', True)) \<and>
   (\<exists>m'. limba_module_handled 5 (par_module par_relocs) 1 = Some (m', False))"
  using module_handled_least [OF par_ok(2), of par_relocs 0] module_handled_least [OF par_ok(2), of par_relocs 1]
  by (auto simp: par_under)

theorem func_clear_keeps_handled_witness:
  "\<not> under_handler (par_module par_relocs\<lparr>md_funcs := (md_funcs (par_module par_relocs))[1 := fst (limba_func_clear 5 par_caller)]\<rparr>) 1"
  using func_clear_keeps_handled [of 1 "par_module par_relocs" 5 "fst (limba_func_clear 5 par_caller)" 6]
  by (simp add: par_fields par_under limba_func_clear_def limba_handled_touch_def)

text \<open>
  C15: Setting the data of a global drops the addresses of functions it held without saying that the set
  changed: there is a module whose cache is right and in which, after that, a function still counts as
  under a handler though it is not any more.
\<close>

theorem set_data_leaves_handled:
  "\<exists>now m m'. handled_ok now m \<and> m' = limba_global_set_data m 0 [] \<and> \<not> under_handler m' 0 \<and>
     limba_module_handled now m' 0 = Some (m', True)"
proof -
  let ?m = "par_module par_relocs" and ?m' = "limba_global_set_data (par_module par_relocs) 0 []"
  have m': "?m' = par_module []\<lparr>md_handled := Some [True, False]\<rparr>"
    by (simp add: limba_global_set_data_def data_of_def par_module_def empty_data_def)
  then have "\<not> under_handler ?m' 0" using par_not_under by simp
  moreover have "limba_module_handled 1 ?m' 0 = Some (?m', True)"
    unfolding m' by (simp add: limba_module_handled_def par_fields)
  ultimately show ?thesis using par_ok(1) by blast
qed

end
