(* ===== verification/Edit.thy ===== *)
theory Edit
  imports Cfg
begin

text \<open>
  Changing a function in one go: \<^verbatim>\<open>src/src/ir/edit.c\<close>. A pass records which value replaces which and
  what is dead; the end of the edit applies it all: operands follow the replacements, what is dead goes,
  and what is left is numbered in the canonical order. The replacements are a forest of parents with path
  compression, whose abstraction is the substitution it stands for.
\<close>

unbundle bit_operations_syntax

section \<open>The edit\<close>

text \<open>The function under edit is passed beside the record; the arrays have \<open>ed_ninsts\<close> and \<open>ed_nblocks\<close> entries.\<close>

record limba_edit =
  ed_map :: "nat list"
  ed_dead :: "bool list"
  ed_dead_block :: "bool list"
  ed_ninsts :: nat
  ed_nblocks :: nat

definition limba_edit_begin :: "limba_func \<Rightarrow> limba_edit" where
  "limba_edit_begin f =
     \<lparr>ed_map = [0 ..< length (fn_insts f)], ed_dead = replicate (length (fn_insts f)) False,
      ed_dead_block = replicate (length (fn_blocks f)) False,
      ed_ninsts = length (fn_insts f), ed_nblocks = length (fn_blocks f)\<rparr>"

definition limba_edit_sync :: "limba_func \<Rightarrow> limba_edit \<Rightarrow> limba_edit" where
  "limba_edit_sync f e =
     (let n = length (fn_insts f); nb = length (fn_blocks f);
          e = (if n > ed_ninsts e
               then e\<lparr>ed_map := ed_map e @ [ed_ninsts e ..< n], ed_dead := ed_dead e @ replicate (n - ed_ninsts e) False,
                      ed_ninsts := n\<rparr> else e)
      in if nb > ed_nblocks e
         then e\<lparr>ed_dead_block := ed_dead_block e @ replicate (nb - ed_nblocks e) False, ed_nblocks := nb\<rparr> else e)"

text \<open>The end of a chain of replacements, and the loop that makes the chain point at it.\<close>

definition chain_end :: "nat list \<Rightarrow> nat \<Rightarrow> nat option" where
  "chain_end m x = while_option (\<lambda>r. m ! r \<noteq> r) (\<lambda>r. m ! r) x"

definition shorten :: "nat list \<Rightarrow> nat \<Rightarrow> nat \<Rightarrow> nat list option" where
  "shorten m r x = map_option fst (while_option (\<lambda>(m, x). m ! x \<noteq> r) (\<lambda>(m, x). (m[x := r], m ! x)) (m, x))"

definition limba_edit_resolve :: "limba_edit \<Rightarrow> nat \<Rightarrow> (limba_edit \<times> nat) option" where
  "limba_edit_resolve e x =
     (if x \<ge> ed_ninsts e then Some (e, x)
      else do {
        r \<leftarrow> chain_end (ed_map e) x;
        m \<leftarrow> shorten (ed_map e) r x;
        Some (e\<lparr>ed_map := m\<rparr>, r)
      })"

definition limba_edit_replace :: "limba_edit \<Rightarrow> nat \<Rightarrow> nat \<Rightarrow> limba_edit option" where
  "limba_edit_replace e src dst =
     do {
       (e, dst) \<leftarrow> limba_edit_resolve e dst;
       Some (if src \<noteq> dst then e\<lparr>ed_map := (ed_map e)[src := dst], ed_dead := (ed_dead e)[src := True]\<rparr> else e)
     }"

definition limba_edit_cancel :: "limba_edit \<Rightarrow> limba_edit" where
  "limba_edit_cancel e = \<lparr>ed_map = [], ed_dead = [], ed_dead_block = [], ed_ninsts = 0, ed_nblocks = 0\<rparr>"

section \<open>The end of an edit\<close>

text \<open>The new numbers: of the instructions alive in the blocks alive, in order, and of those blocks.\<close>

fun number_insts :: "bool list \<Rightarrow> nat list \<Rightarrow> nat list \<times> nat \<Rightarrow> nat list \<times> nat" where
  "number_insts dead [] s = s"
| "number_insts dead (i # is) (newid, next) =
     number_insts dead is (if dead ! i then (newid, next) else (newid[i := next], next + 1))"

fun number_blocks :: "limba_func \<Rightarrow> limba_edit \<Rightarrow> nat list \<Rightarrow> nat list \<times> nat \<Rightarrow> nat list \<times> nat \<Rightarrow>
    (nat list \<times> nat) \<times> nat list \<times> nat" where
  "number_blocks f e [] s t = (s, t)"
| "number_blocks f e (b # bs) s (newblock, nextb) =
     (if ed_dead_block e ! b then number_blocks f e bs s (newblock, nextb)
      else number_blocks f e bs (number_insts (ed_dead e) (bl_insts (fn_blocks f ! b)) s) (newblock[b := nextb], nextb + 1))"

text \<open>One operand: a value follows its replacement, a block its new number; \<open>UINT32_MAX\<close> for one that is gone.\<close>

definition edit_operand :: "nat list \<Rightarrow> nat list \<Rightarrow> limba_edit \<Rightarrow> okind \<Rightarrow> nat \<Rightarrow> (limba_edit \<times> nat) option" where
  "edit_operand newid newblock e kind p =
     (case kind of
        LIMBA_OK_VALUE \<Rightarrow> do { (e, p) \<leftarrow> limba_edit_resolve e p; Some (e, if p < ed_ninsts e then newid ! p else LIMBA_NONE) }
      | LIMBA_OK_BLOCK \<Rightarrow> Some (e, if p < ed_nblocks e then newblock ! p else LIMBA_NONE)
      | LIMBA_OK_RAW \<Rightarrow> Some (e, p))"

fun edit_operands :: "nat list \<Rightarrow> nat list \<Rightarrow> limba_edit \<Rightarrow> (okind \<times> nat) list \<Rightarrow> (limba_edit \<times> nat list) option" where
  "edit_operands newid newblock e [] = Some (e, [])"
| "edit_operands newid newblock e ((k, p) # ps) =
     do { (e, p) \<leftarrow> edit_operand newid newblock e k p;
          (e, ps) \<leftarrow> edit_operands newid newblock e ps;
          Some (e, p # ps) }"

definition inst_kinds :: "limba_func \<Rightarrow> limba_inst \<Rightarrow> okind list" where
  "inst_kinds f i = (if limba_only_values i then replicate (in_nops i) LIMBA_OK_VALUE else snd (limba_operand_kinds f i))"

text \<open>What the second pass writes: the instructions and their positions by new number, and the pool.\<close>

record edit_out =
  eo_insts :: "limba_inst list"
  eo_locs :: "nat list"
  eo_ops :: "nat list"

text \<open>One instruction of the block \<open>b\<close>, then all of them; \<open>nb\<close> is the new block.\<close>

definition edit_inst :: "limba_func \<Rightarrow> nat list \<Rightarrow> nat list \<Rightarrow> nat \<Rightarrow> nat \<Rightarrow> limba_edit \<times> edit_out \<times> limba_block \<Rightarrow>
    (limba_edit \<times> edit_out \<times> limba_block) option" where
  "edit_inst f newid newblock b i = (\<lambda>(e, out, nbl).
     let x = fn_insts f ! i
     in do {
       (e, ops) \<leftarrow> edit_operands newid newblock e (zip (inst_kinds f x) (map (operand f x) [0 ..< in_nops x]));
       Some (e, \<lparr>eo_insts = (eo_insts out)[newid ! i := x\<lparr>in_block := newblock ! b, in_first := length (eo_ops out)\<rparr>],
                 eo_locs = (if fn_locs f \<noteq> [] then (eo_locs out)[newid ! i := limba_inst_pos f i] else eo_locs out),
                 eo_ops = eo_ops out @ ops\<rparr>,
             nbl\<lparr>bl_insts := bl_insts nbl @ [newid ! i],
                 bl_nparams := (if in_op x = LIMBA_OP_PARAM then bl_nparams nbl + 1 else bl_nparams nbl)\<rparr>)
     })"

fun edit_insts :: "limba_func \<Rightarrow> nat list \<Rightarrow> nat list \<Rightarrow> nat \<Rightarrow> nat list \<Rightarrow> limba_edit \<times> edit_out \<times> limba_block \<Rightarrow>
    (limba_edit \<times> edit_out \<times> limba_block) option" where
  "edit_insts f newid newblock b [] s = Some s"
| "edit_insts f newid newblock b (i # is) s =
     (if ed_dead (fst s) ! i then edit_insts f newid newblock b is s
      else do { s \<leftarrow> edit_inst f newid newblock b i s; edit_insts f newid newblock b is s })"

fun edit_blocks :: "limba_func \<Rightarrow> nat list \<Rightarrow> nat list \<Rightarrow> nat list \<Rightarrow> limba_edit \<times> edit_out \<times> limba_block list \<Rightarrow>
    (limba_edit \<times> edit_out \<times> limba_block list) option" where
  "edit_blocks f newid newblock [] s = Some s"
| "edit_blocks f newid newblock (b # bs) (e, out, blocks) =
     (if ed_dead_block e ! b then edit_blocks f newid newblock bs (e, out, blocks)
      else do {
        (e, out, nbl) \<leftarrow> edit_insts f newid newblock b (bl_insts (fn_blocks f ! b))
          (e, out, \<lparr>bl_insts = [], bl_nparams = 0, bl_handler = 0\<rparr>);
        let h = bl_handler (fn_blocks f ! b);
            h' = (if h \<noteq> 0 \<and> h - 1 < ed_nblocks e \<and> newblock ! (h - 1) \<noteq> LIMBA_NONE then newblock ! (h - 1) + 1 else 0)
        in edit_blocks f newid newblock bs (e, out, blocks[newblock ! b := nbl\<lparr>bl_handler := h'\<rparr>])
      })"

text \<open>An instruction not written yet: the code leaves it as \<open>malloc\<close> gave it.\<close>

definition unset_inst :: limba_inst where
  "unset_inst = \<lparr>in_op = LIMBA_OP_ICONST, in_cc = LIMBA_CC_EQ, in_type = 0, in_block = 0, in_nops = 0, in_first = 0, in_imm = 0, in_imm2 = 0\<rparr>"

definition unset_block :: limba_block where
  "unset_block = \<lparr>bl_insts = [], bl_nparams = 0, bl_handler = 0\<rparr>"

definition limba_edit_end :: "stamp \<Rightarrow> limba_func \<Rightarrow> limba_edit \<Rightarrow> (limba_func \<times> limba_edit \<times> stamp) option" where
  "limba_edit_end st f e =
     (let n = ed_ninsts e; nb = ed_nblocks e;
          ((newid, next), newblock, nextb) =
            number_blocks f e [0 ..< nb] (replicate n LIMBA_NONE, 0) (replicate nb LIMBA_NONE, 0)
      in do {
        (e, out, blocks) \<leftarrow> edit_blocks f newid newblock [0 ..< nb]
          (e, \<lparr>eo_insts = replicate next unset_inst, eo_locs = (if fn_locs f \<noteq> [] then replicate next 0 else []), eo_ops = []\<rparr>,
           replicate nextb unset_block);
        Some (f\<lparr>fn_blocks := blocks, fn_insts := eo_insts out, fn_locs := eo_locs out, fn_operands := eo_ops out\<rparr>,
              limba_edit_cancel e, limba_handled_touch st)
      })"

section \<open>Rewriting an instruction in place\<close>

definition limba_int_norm :: "u64 \<Rightarrow> limba_id \<Rightarrow> u64" where
  "limba_int_norm v t =
     (let bits = limba_type_bits t
      in if bits = 1 then v AND 1
         else if bits = 0 \<or> bits \<ge> 64 then v
         else signed_drop_bit (64 - bits) (push_bit (64 - bits) v))"

definition limba_inst_set_iconst :: "limba_inst \<Rightarrow> u64 \<Rightarrow> limba_inst" where
  "limba_inst_set_iconst i v =
     i\<lparr>in_op := LIMBA_OP_ICONST, in_cc := LIMBA_CC_EQ, in_nops := 0, in_imm := limba_int_norm v (in_type i), in_imm2 := 0\<rparr>"

definition limba_inst_set_fconst :: "limba_inst \<Rightarrow> u64 \<Rightarrow> limba_inst" where
  "limba_inst_set_fconst i bits = i\<lparr>in_op := LIMBA_OP_FCONST, in_cc := LIMBA_CC_EQ, in_nops := 0, in_imm := bits, in_imm2 := 0\<rparr>"

text \<open>A jump to the target whose block, count and arguments start at \<open>k\<close> in the pool: they are copied to its end.\<close>

definition limba_inst_set_br :: "limba_func \<Rightarrow> limba_inst \<Rightarrow> nat \<Rightarrow> limba_func \<times> limba_inst" where
  "limba_inst_set_br f i k =
     (let (b, n, a) = limba_target f k;
          pool = fold (\<lambda>j ops. ops @ [ops ! (a + j)]) [0 ..< n] (fn_operands f @ [b, n])
      in (f\<lparr>fn_operands := pool\<rparr>,
          i\<lparr>in_op := LIMBA_OP_BR, in_cc := LIMBA_CC_EQ, in_type := LIMBA_T_VOID, in_first := length (fn_operands f),
            in_nops := 2 + n, in_imm := 0, in_imm2 := 0\<rparr>))"

section \<open>The forest of replacements\<close>

inductive root :: "nat list \<Rightarrow> nat \<Rightarrow> nat \<Rightarrow> bool" for m where
  stop: "m ! x = x \<Longrightarrow> root m x x"
| up: "m ! x \<noteq> x \<Longrightarrow> root m (m ! x) r \<Longrightarrow> root m x r"

inductive_cases rootE: "root m x r"

lemma root_end: "root m x r \<Longrightarrow> m ! r = r"
  by (induction rule: root.induct)

lemma root_unique: "root m x r \<Longrightarrow> root m x s \<Longrightarrow> r = s"
  by (induction rule: root.induct) (auto elim: rootE)

lemma root_step: "m ! x = y \<Longrightarrow> y \<noteq> x \<Longrightarrow> root m y r \<Longrightarrow> root m x r"
  using root.up [of m x r] by simp

lemma root_self: "root m x x \<longleftrightarrow> m ! x = x"
  using root_end root.stop by blast

definition forest :: "nat \<Rightarrow> nat list \<Rightarrow> bool" where
  "forest n m \<longleftrightarrow> length m = n \<and> (\<forall>x < n. m ! x < n \<and> (\<exists>r. root m x r))"

lemma root_lt: "root m x r \<Longrightarrow> forest n m \<Longrightarrow> x < n \<Longrightarrow> r < n"
  by (induction rule: root.induct) (auto simp: forest_def)

lemma chain_end_step: "chain_end m x = (if m ! x \<noteq> x then chain_end m (m ! x) else Some x)"
  unfolding chain_end_def by (subst while_option_unfold) simp

lemma chain_end_root: "root m x r \<Longrightarrow> chain_end m x = Some r"
  by (induction rule: root.induct) (subst chain_end_step, simp)+

text \<open>Pointing a value at the end of its chain changes no end; pointing an end at another moves its values there.\<close>

lemma root_shortcut:
  assumes "root m x r" "x \<noteq> r" "x < length m" "root m y s"
  shows "root (m[x := r]) y s"
  using assms(4)
proof (induction rule: root.induct)
  case (stop y)
  then have "y \<noteq> x" using assms(1,2) root_unique [OF assms(1), of y] root.stop [of m y] by auto
  then show ?case using stop by (intro root.stop) simp
next
  case (up y s)
  show ?case
  proof (cases "y = x")
    case True
    have "root m y s" by (rule root.up [OF up.hyps])
    then have "s = r" using root_unique [OF assms(1), of s] True by simp
    have "root (m[x := r]) r r" using assms(2) root_end [OF assms(1)] by (intro root.stop) simp
    then show ?thesis using root_step [of "m[x := r]" x r r] assms(2,3) True \<open>s = r\<close> by simp
  next
    case False
    then show ?thesis using root_step [of "m[x := r]" y "m ! y" s] up by simp
  qed
qed

lemma root_redirect:
  assumes "m ! a = a" "m ! r = r" "a \<noteq> r" "a < length m" "root m y s"
  shows "root (m[a := r]) y (if s = a then r else s)"
  using assms(5)
proof (induction rule: root.induct)
  case (stop y)
  show ?case
  proof (cases "y = a")
    case True
    have "root (m[a := r]) r r" using assms by (intro root.stop) simp
    then show ?thesis using assms True by (simp add: root.up)
  next
    case False
    then show ?thesis using stop by (simp add: root.stop)
  qed
next
  case (up y s)
  then have "y \<noteq> a" using assms(1) by auto
  then have "m[a := r] ! y = m ! y" by simp
  then show ?case using root_step [of "m[a := r]" y "m ! y"] up by simp
qed

lemma forest_update:
  assumes "forest n m" "x < n" "r < n" "\<And>y s. root m y s \<Longrightarrow> \<exists>s'. root (m[x := r]) y s'"
  shows "forest n (m[x := r])"
  unfolding forest_def
proof (intro conjI allI impI)
  fix y assume y: "y < n"
  show "m[x := r] ! y < n" using assms(1-3) y by (cases "y = x") (simp_all add: forest_def)
  show "\<exists>s. root (m[x := r]) y s" using assms(1,4) y unfolding forest_def by blast
qed (use assms(1) in \<open>simp add: forest_def\<close>)

lemma shorten_step: "shorten m r x = (if m ! x \<noteq> r then shorten (m[x := r]) r (m ! x) else Some m)"
  unfolding shorten_def by (subst while_option_unfold) simp

lemma shorten_spec:
  assumes "forest n m" "x < n" "root m x r"
  shows "\<exists>m'. shorten m r x = Some m' \<and> forest n m' \<and> (\<forall>y s. root m y s \<longrightarrow> root m' y s)"
  using assms
proof (induction "card {y. y < n \<and> m ! y \<noteq> r}" arbitrary: m x rule: less_induct)
  case less
  show ?case
  proof (cases "m ! x = r")
    case True
    then show ?thesis using less.prems by (subst shorten_step) simp
  next
    case False
    have len: "x < length m" "m ! x < n" using less.prems(1,2) by (simp_all add: forest_def)
    have xr: "x \<noteq> r" using False root_end [OF less.prems(3)] by auto
    let ?m = "m[x := r]"
    have keep: "root m y s \<Longrightarrow> root ?m y s" for y s by (rule root_shortcut [OF less.prems(3) xr len(1)])
    have f: "forest n ?m"
      using forest_update [OF less.prems(1,2) root_lt [OF less.prems(3,1,2)]] keep by blast
    have "root m (m ! x) r" using less.prems(3) xr by (auto elim: rootE)
    then have r: "root ?m (m ! x) r" by (rule keep)
    have "{y. y < n \<and> ?m ! y \<noteq> r} \<subseteq> {y. y < n \<and> m ! y \<noteq> r} - {x}" using len(1) by (auto simp: nth_list_update)
    moreover have "x \<in> {y. y < n \<and> m ! y \<noteq> r}" using False less.prems(2) by simp
    ultimately have "card {y. y < n \<and> ?m ! y \<noteq> r} < card {y. y < n \<and> m ! y \<noteq> r}"
      by (intro psubset_card_mono) auto
    from less.hyps [OF this f len(2) r] show ?thesis
      using False keep by (subst shorten_step) auto
  qed
qed

section \<open>The substitution an edit stands for\<close>

definition edit_ok :: "limba_edit \<Rightarrow> bool" where
  "edit_ok e \<longleftrightarrow> forest (ed_ninsts e) (ed_map e) \<and> length (ed_dead e) = ed_ninsts e \<and> length (ed_dead_block e) = ed_nblocks e \<and>
     (\<forall>x < ed_ninsts e. ed_map e ! x \<noteq> x \<longrightarrow> ed_dead e ! x)"

definition edit_value :: "limba_edit \<Rightarrow> nat \<Rightarrow> nat" where
  "edit_value e x = (if x < ed_ninsts e then the (chain_end (ed_map e) x) else x)"

text \<open>The same edit up to the shortening of chains.\<close>

definition same_edit :: "limba_edit \<Rightarrow> limba_edit \<Rightarrow> bool" where
  "same_edit e e' \<longleftrightarrow> edit_ok e' \<and> edit_value e' = edit_value e \<and> ed_dead e' = ed_dead e \<and>
     ed_dead_block e' = ed_dead_block e \<and> ed_ninsts e' = ed_ninsts e \<and> ed_nblocks e' = ed_nblocks e"

lemma same_edit_refl: "edit_ok e \<Longrightarrow> same_edit e e"
  by (simp add: same_edit_def)

lemma same_edit_trans: "same_edit e f \<Longrightarrow> same_edit f g \<Longrightarrow> same_edit e g"
  by (simp add: same_edit_def)

lemma edit_root: "edit_ok e \<Longrightarrow> x < ed_ninsts e \<Longrightarrow> root (ed_map e) x (edit_value e x)"
  using chain_end_root by (fastforce simp: edit_ok_def forest_def edit_value_def)

lemma edit_value_root: "root (ed_map e) x r \<Longrightarrow> x < ed_ninsts e \<Longrightarrow> edit_value e x = r"
  by (simp add: edit_value_def chain_end_root)

lemma edit_value_lt: "edit_ok e \<Longrightarrow> edit_value e x < ed_ninsts e \<longleftrightarrow> x < ed_ninsts e"
  using edit_root [of e x] root_lt by (auto simp: edit_ok_def edit_value_def)

lemma edit_value_idem: "edit_ok e \<Longrightarrow> edit_value e (edit_value e x) = edit_value e x"
proof (cases "x < ed_ninsts e")
  case True
  assume ok: "edit_ok e"
  have "root (ed_map e) (edit_value e x) (edit_value e x)" using root_end [OF edit_root [OF ok True]] by (rule root.stop)
  then show ?thesis using edit_value_root edit_value_lt [OF ok] True by blast
qed (simp add: edit_value_def)

lemma edit_begin_ok: "edit_ok (limba_edit_begin f)" "edit_value (limba_edit_begin f) x = x"
proof -
  have "root [0 ..< length (fn_insts f)] y y" if "y < length (fn_insts f)" for y using that by (intro root.stop) simp
  then show "edit_ok (limba_edit_begin f)" "edit_value (limba_edit_begin f) x = x"
    using edit_value_root [of "limba_edit_begin f" x x]
    by (auto simp: edit_ok_def forest_def limba_edit_begin_def edit_value_def)
qed

lemma resolve_spec:
  assumes ok: "edit_ok e"
  shows "\<exists>e'. limba_edit_resolve e x = Some (e', edit_value e x) \<and> same_edit e e'"
proof (cases "x < ed_ninsts e")
  case True
  note r = edit_root [OF ok True]
  have f: "forest (ed_ninsts e) (ed_map e)" using ok by (simp add: edit_ok_def)
  obtain m where m: "shorten (ed_map e) (edit_value e x) x = Some m" "forest (ed_ninsts e) m"
      "\<forall>y s. root (ed_map e) y s \<longrightarrow> root m y s"
    using shorten_spec [OF f True r] by blast
  let ?e = "e\<lparr>ed_map := m\<rparr>"
  have v: "edit_value ?e y = edit_value e y" for y
    using edit_root [OF ok, of y] m(3) edit_value_root [of ?e y] by (cases "y < ed_ninsts e") (simp_all add: edit_value_def)
  have "ed_dead e ! y" if y: "y < ed_ninsts e" "m ! y \<noteq> y" for y
  proof (rule ccontr)
    assume "\<not> ed_dead e ! y"
    then have "ed_map e ! y = y" using ok y(1) by (auto simp: edit_ok_def)
    then have "root m y y" using m(3) root.stop by blast
    then show False using y(2) by (simp add: root_self)
  qed
  then have "edit_ok ?e" using ok m(2) by (simp add: edit_ok_def)
  moreover have "limba_edit_resolve e x = Some (?e, edit_value e x)"
    using True m(1) chain_end_root [OF r] by (simp add: limba_edit_resolve_def)
  ultimately show ?thesis using v by (auto simp: same_edit_def)
qed (use ok in \<open>simp add: limba_edit_resolve_def edit_value_def same_edit_refl\<close>)

lemma replace_spec:
  assumes ok: "edit_ok e" and a: "a < ed_ninsts e" "edit_value e a = a" and b: "b < ed_ninsts e"
  shows "\<exists>e'. limba_edit_replace e a b = Some e' \<and> edit_ok e' \<and>
    (\<forall>x. edit_value e' x = (if edit_value e x = a then edit_value e b else edit_value e x)) \<and>
    ed_ninsts e' = ed_ninsts e \<and> ed_nblocks e' = ed_nblocks e \<and> ed_dead_block e' = ed_dead_block e \<and>
    ed_dead e' = (if a = edit_value e b then ed_dead e else (ed_dead e)[a := True])"
proof -
  obtain e1 where e1: "limba_edit_resolve e b = Some (e1, edit_value e b)" "same_edit e e1" using resolve_spec [OF ok] by blast
  have ok1: "edit_ok e1" and v1: "edit_value e1 = edit_value e" "ed_ninsts e1 = ed_ninsts e" using e1(2) by (simp_all add: same_edit_def)
  let ?r = "edit_value e b"
  show ?thesis
  proof (cases "a = ?r")
    case True
    then show ?thesis using e1 by (simp add: limba_edit_replace_def same_edit_def)
  next
    case False
    let ?e = "e1\<lparr>ed_map := (ed_map e1)[a := ?r], ed_dead := (ed_dead e1)[a := True]\<rparr>"
    have am: "ed_map e1 ! a = a" "ed_map e1 ! ?r = ?r" "a < length (ed_map e1)" "?r < ed_ninsts e1"
      using root_end [OF edit_root [OF ok1, of a]] root_end [OF edit_root [OF ok1, of b]] a b v1 ok1 edit_value_lt [OF ok, of b]
      by (simp_all add: edit_ok_def forest_def)
    note red = root_redirect [OF am(1,2) False am(3)]
    have f: "forest (ed_ninsts e1) (ed_map e1)" using ok1 by (simp add: edit_ok_def)
    have "forest (ed_ninsts e1) ((ed_map e1)[a := ?r])"
      by (rule forest_update [OF f]) (use a v1 am(4) red in auto)
    then have okr: "edit_ok ?e" using ok1 a v1 by (auto simp: edit_ok_def nth_list_update)
    have "edit_value ?e x = (if edit_value e x = a then ?r else edit_value e x)" for x
    proof (cases "x < ed_ninsts e")
      case True
      then show ?thesis using red [OF edit_root [OF ok1, of x]] edit_value_root [of ?e x] v1 by simp
    next
      case False
      then show ?thesis using a v1 by (auto simp: edit_value_def)
    qed
    then show ?thesis using e1 okr False by (simp add: limba_edit_replace_def same_edit_def)
  qed
qed

section \<open>The operands of the new function\<close>

lemma length_branch_kinds: "length (snd (branch_kinds t ops n k kinds)) = length kinds"
  by (induction t arbitrary: k kinds) (simp_all add: Let_def)

lemma length_switch_kinds: "length (switch_kinds cases kinds) = length kinds"
proof -
  have "length (fold (\<lambda>c kinds. kinds[3 + 3 * c := LIMBA_OK_RAW, 4 + 3 * c := LIMBA_OK_RAW, 5 + 3 * c := LIMBA_OK_BLOCK]) cs kinds) = length kinds" for cs
    by (induction cs arbitrary: kinds) simp_all
  then show ?thesis by (simp add: switch_kinds_def)
qed

lemma length_operand_kinds: "length (snd (limba_operand_kinds f i)) = in_nops i"
  by (simp add: limba_operand_kinds_def Let_def length_branch_kinds length_switch_kinds)

lemma length_inst_kinds [simp]: "length (inst_kinds f i) = in_nops i"
  by (simp add: inst_kinds_def length_operand_kinds)

definition renamed :: "nat list \<Rightarrow> nat list \<Rightarrow> limba_edit \<Rightarrow> okind \<Rightarrow> nat \<Rightarrow> nat" where
  "renamed newid newblock e k p =
     (case k of
        LIMBA_OK_VALUE \<Rightarrow> (let r = edit_value e p in if r < ed_ninsts e then newid ! r else LIMBA_NONE)
      | LIMBA_OK_BLOCK \<Rightarrow> (if p < ed_nblocks e then newblock ! p else LIMBA_NONE)
      | LIMBA_OK_RAW \<Rightarrow> p)"

lemma renamed_same: "same_edit e e' \<Longrightarrow> renamed newid newblock e' = renamed newid newblock e"
  by (auto simp: fun_eq_iff renamed_def same_edit_def split: okind.split)

lemma edit_operand_spec:
  assumes "edit_ok e"
  shows "\<exists>e'. edit_operand newid newblock e k p = Some (e', renamed newid newblock e k p) \<and> same_edit e e'"
proof (cases k)
  case LIMBA_OK_VALUE
  obtain e' where "limba_edit_resolve e p = Some (e', edit_value e p)" "same_edit e e'" using resolve_spec [OF assms] by blast
  then show ?thesis using LIMBA_OK_VALUE by (simp add: edit_operand_def renamed_def Let_def same_edit_def)
qed (use assms in \<open>simp_all add: edit_operand_def renamed_def same_edit_refl\<close>)

lemma edit_operands_spec:
  assumes "edit_ok e"
  shows "\<exists>e'. edit_operands newid newblock e ps = Some (e', map (\<lambda>(k, p). renamed newid newblock e k p) ps) \<and> same_edit e e'"
  using assms
proof (induction ps arbitrary: e)
  case (Cons q ps)
  obtain k p where q: "q = (k, p)" by fastforce
  obtain e1 where e1: "edit_operand newid newblock e k p = Some (e1, renamed newid newblock e k p)" "same_edit e e1"
    using edit_operand_spec [OF Cons.prems] by blast
  obtain e2 where "edit_operands newid newblock e1 ps = Some (e2, map (\<lambda>(k, p). renamed newid newblock e1 k p) ps)" "same_edit e1 e2"
    using Cons.IH [of e1] e1(2) by (auto simp: same_edit_def)
  then show ?case using e1 q same_edit_trans renamed_same [OF e1(2)] by fastforce
qed (simp add: same_edit_refl)

section \<open>The new numbers\<close>

definition alive :: "limba_func \<Rightarrow> limba_edit \<Rightarrow> nat \<Rightarrow> nat list" where
  "alive f e b = filter (\<lambda>i. \<not> ed_dead e ! i) (bl_insts (fn_blocks f ! b))"

text \<open>The blocks that stay, and the instructions that stay in their order.\<close>

definition alive_in :: "limba_edit \<Rightarrow> nat list \<Rightarrow> nat list" where
  "alive_in e bs = filter (\<lambda>b. \<not> ed_dead_block e ! b) bs"

definition kept_in :: "limba_func \<Rightarrow> limba_edit \<Rightarrow> nat list \<Rightarrow> nat list" where
  "kept_in f e bs = concat (map (alive f e) (alive_in e bs))"

abbreviation alive_blocks :: "limba_edit \<Rightarrow> nat list" where
  "alive_blocks e \<equiv> alive_in e [0 ..< ed_nblocks e]"

abbreviation kept :: "limba_func \<Rightarrow> limba_edit \<Rightarrow> nat list" where
  "kept f e \<equiv> kept_in f e [0 ..< ed_nblocks e]"

lemma alive_in_Cons: "alive_in e (b # bs) = (if ed_dead_block e ! b then alive_in e bs else b # alive_in e bs)"
  by (simp add: alive_in_def)

lemma kept_in_Cons: "kept_in f e (b # bs) = (if ed_dead_block e ! b then kept_in f e bs else alive f e b @ kept_in f e bs)"
  by (simp add: kept_in_def alive_in_def)

lemma kept_in_Nil [simp]: "kept_in f e [] = []" "alive_in e [] = []"
  by (simp_all add: kept_in_def alive_in_def)

definition edit_wf :: "limba_func \<Rightarrow> limba_edit \<Rightarrow> bool" where
  "edit_wf f e \<longleftrightarrow> edit_ok e \<and> ed_ninsts e = length (fn_insts f) \<and> ed_nblocks e = length (fn_blocks f) \<and>
     distinct (kept f e) \<and> set (kept f e) \<subseteq> {0 ..< ed_ninsts e}"

definition numbered :: "nat list \<Rightarrow> nat list \<Rightarrow> bool" where
  "numbered xs ids \<longleftrightarrow> (\<forall>j < length xs. ids ! (xs ! j) = j) \<and> (\<forall>x < length ids. x \<notin> set xs \<longrightarrow> ids ! x = LIMBA_NONE)"

lemma numbered_snoc:
  assumes "numbered xs ids" "x < length ids" "x \<notin> set xs"
  shows "numbered (xs @ [x]) (ids[x := length xs])"
  unfolding numbered_def
proof (intro conjI allI impI)
  fix j assume j: "j < length (xs @ [x])"
  show "ids[x := length xs] ! ((xs @ [x]) ! j) = j"
  proof (cases "j = length xs")
    case False
    then have "j < length xs" using j by simp
    moreover from this have "xs ! j \<noteq> x" using assms(3) by auto
    ultimately show ?thesis using assms(1) by (simp add: nth_append numbered_def)
  qed (use assms(2) in simp)
next
  fix y assume "y < length (ids[x := length xs])" "y \<notin> set (xs @ [x])"
  then show "ids[x := length xs] ! y = LIMBA_NONE" using assms(1) by (simp add: numbered_def)
qed

lemma number_insts_spec:
  assumes "numbered xs ids" "distinct (xs @ filter (\<lambda>i. \<not> dead ! i) is)" "set (filter (\<lambda>i. \<not> dead ! i) is) \<subseteq> {0 ..< length ids}"
  shows "\<exists>ids'. number_insts dead is (ids, length xs) = (ids', length xs + length (filter (\<lambda>i. \<not> dead ! i) is)) \<and>
    length ids' = length ids \<and> numbered (xs @ filter (\<lambda>i. \<not> dead ! i) is) ids'"
  using assms
proof (induction "is" arbitrary: xs ids)
  case (Cons i "is")
  show ?case
  proof (cases "dead ! i")
    case True
    then show ?thesis using Cons by simp
  next
    case False
    have n: "numbered (xs @ [i]) (ids[i := length xs])" using Cons.prems False by (intro numbered_snoc) auto
    obtain ids' where "number_insts dead is (ids[i := length xs], length (xs @ [i])) =
        (ids', length (xs @ [i]) + length (filter (\<lambda>i. \<not> dead ! i) is))" "length ids' = length ids"
        "numbered ((xs @ [i]) @ filter (\<lambda>i. \<not> dead ! i) is) ids'"
      using Cons.IH [OF n] Cons.prems False by auto
    then show ?thesis using False by simp
  qed
qed simp

lemma number_alive:
  assumes "numbered xs ids" "distinct (xs @ alive f e b)" "set (alive f e b) \<subseteq> {0 ..< length ids}"
  shows "\<exists>ids'. number_insts (ed_dead e) (bl_insts (fn_blocks f ! b)) (ids, length xs) = (ids', length xs + length (alive f e b)) \<and>
    length ids' = length ids \<and> numbered (xs @ alive f e b) ids'"
  using number_insts_spec assms unfolding alive_def by blast

lemma number_blocks_spec:
  assumes "numbered xs ids" "numbered bs nbs" "distinct (xs @ kept_in f e cs)" "set (kept_in f e cs) \<subseteq> {0 ..< length ids}"
    and "distinct (bs @ cs)" "set cs \<subseteq> {0 ..< length nbs}"
  shows "\<exists>ids' nbs'. number_blocks f e cs (ids, length xs) (nbs, length bs) =
      ((ids', length xs + length (kept_in f e cs)), nbs', length bs + length (alive_in e cs)) \<and>
    length ids' = length ids \<and> length nbs' = length nbs \<and>
    numbered (xs @ kept_in f e cs) ids' \<and> numbered (bs @ alive_in e cs) nbs'"
  using assms
proof (induction cs arbitrary: xs ids bs nbs)
  case (Cons c cs)
  show ?case
  proof (cases "ed_dead_block e ! c")
    case True
    then show ?thesis using Cons by (simp add: kept_in_Cons alive_in_Cons)
  next
    case False
    let ?a = "alive f e c"
    have pre: "distinct (xs @ ?a)" "set ?a \<subseteq> {0 ..< length ids}" using Cons.prems(3,4) False by (auto simp: kept_in_Cons)
    obtain ids1 where i: "number_insts (ed_dead e) (bl_insts (fn_blocks f ! c)) (ids, length xs) = (ids1, length xs + length ?a)"
        "length ids1 = length ids" "numbered (xs @ ?a) ids1"
      using number_alive [OF Cons.prems(1) pre] by blast
    have nb: "numbered (bs @ [c]) (nbs[c := length bs])" using Cons.prems(2,5,6) by (intro numbered_snoc) auto
    have "\<exists>ids' nbs'. number_blocks f e cs (ids1, length (xs @ ?a)) (nbs[c := length bs], length (bs @ [c])) =
        ((ids', length (xs @ ?a) + length (kept_in f e cs)), nbs', length (bs @ [c]) + length (alive_in e cs)) \<and>
      length ids' = length ids1 \<and> length nbs' = length (nbs[c := length bs]) \<and>
      numbered ((xs @ ?a) @ kept_in f e cs) ids' \<and> numbered ((bs @ [c]) @ alive_in e cs) nbs'"
      by (rule Cons.IH [OF i(3) nb]) (use Cons.prems(3-6) False i(2) in \<open>auto simp: kept_in_Cons\<close>)
    then show ?thesis using False i(1,2) by (simp add: kept_in_Cons alive_in_Cons add.assoc)
  qed
qed simp

lemma edit_numbers:
  assumes "edit_wf f e"
  shows "\<exists>newid newblock. number_blocks f e [0 ..< ed_nblocks e] (replicate (ed_ninsts e) LIMBA_NONE, 0) (replicate (ed_nblocks e) LIMBA_NONE, 0) =
      ((newid, length (kept f e)), newblock, length (alive_blocks e)) \<and> length newid = ed_ninsts e \<and> length newblock = ed_nblocks e \<and>
    numbered (kept f e) newid \<and> numbered (alive_blocks e) newblock"
proof -
  have n: "numbered [] (replicate k LIMBA_NONE)" for k by (simp add: numbered_def)
  have w: "distinct (kept f e)" "set (kept f e) \<subseteq> {0 ..< ed_ninsts e}" using assms unfolding edit_wf_def by blast+
  show ?thesis
    using number_blocks_spec [OF n n, of f e "[0 ..< ed_nblocks e]" "ed_ninsts e" "ed_nblocks e"] w by simp
qed

section \<open>The second pass\<close>

text \<open>The new operands of an instruction, and what it means that instruction \<open>j\<close> is the old \<open>i\<close> of the block \<open>b\<close>.\<close>

definition new_operands :: "limba_func \<Rightarrow> limba_edit \<Rightarrow> nat list \<Rightarrow> nat list \<Rightarrow> limba_inst \<Rightarrow> nat list" where
  "new_operands f e newid newblock x =
     map (\<lambda>k. renamed newid newblock e (inst_kinds f x ! k) (operand f x k)) [0 ..< in_nops x]"

definition written :: "limba_func \<Rightarrow> limba_edit \<Rightarrow> nat list \<Rightarrow> nat list \<Rightarrow> edit_out \<Rightarrow> nat \<Rightarrow> nat \<times> nat \<Rightarrow> bool" where
  "written f e newid newblock out j = (\<lambda>(b, i). let x = fn_insts f ! i; y = eo_insts out ! j in
     y = x\<lparr>in_block := newblock ! b, in_first := in_first y\<rparr> \<and> in_first y + in_nops x \<le> length (eo_ops out) \<and>
     take (in_nops x) (drop (in_first y) (eo_ops out)) = new_operands f e newid newblock x \<and>
     (fn_locs f \<noteq> [] \<longrightarrow> eo_locs out ! j = limba_inst_pos f i))"

definition out_ok :: "limba_func \<Rightarrow> limba_edit \<Rightarrow> nat list \<Rightarrow> nat list \<Rightarrow> (nat \<times> nat) list \<Rightarrow> nat \<Rightarrow> edit_out \<Rightarrow> bool" where
  "out_ok f e newid newblock P N out \<longleftrightarrow> length (eo_insts out) = N \<and>
     length (eo_locs out) = (if fn_locs f \<noteq> [] then N else 0) \<and>
     (\<forall>j < length P. written f e newid newblock out j (P ! j))"

lemma out_ok_same: "same_edit e e' \<Longrightarrow> out_ok f e' newid newblock P N out \<longleftrightarrow> out_ok f e newid newblock P N out"
  by (simp add: out_ok_def written_def new_operands_def renamed_same)

lemma new_operands_zip:
  "map (\<lambda>(k, p). renamed newid newblock e k p) (zip (inst_kinds f x) (map (operand f x) [0 ..< in_nops x])) =
    new_operands f e newid newblock x"
  by (rule nth_equalityI) (simp_all add: new_operands_def)

lemma edit_inst_spec:
  assumes ok: "edit_ok e" and out: "out_ok f e newid newblock P N out" "length P < N" and i: "newid ! i = length P"
  shows "\<exists>e' out'. edit_inst f newid newblock b i (e, out, nbl) = Some (e', out',
      nbl\<lparr>bl_insts := bl_insts nbl @ [newid ! i],
          bl_nparams := (if in_op (fn_insts f ! i) = LIMBA_OP_PARAM then bl_nparams nbl + 1 else bl_nparams nbl)\<rparr>) \<and>
    same_edit e e' \<and> out_ok f e newid newblock (P @ [(b, i)]) N out'"
proof -
  let ?x = "fn_insts f ! i"
  obtain e' where e': "edit_operands newid newblock e (zip (inst_kinds f ?x) (map (operand f ?x) [0 ..< in_nops ?x])) =
      Some (e', new_operands f e newid newblock ?x)" "same_edit e e'"
    using edit_operands_spec [OF ok, of newid newblock "zip (inst_kinds f ?x) (map (operand f ?x) [0 ..< in_nops ?x])"]
    unfolding new_operands_zip by blast
  let ?ops = "new_operands f e newid newblock ?x"
  let ?out = "\<lparr>eo_insts = (eo_insts out)[newid ! i := ?x\<lparr>in_block := newblock ! b, in_first := length (eo_ops out)\<rparr>],
     eo_locs = (if fn_locs f \<noteq> [] then (eo_locs out)[newid ! i := limba_inst_pos f i] else eo_locs out), eo_ops = eo_ops out @ ?ops\<rparr>"
  have len: "length ?ops = in_nops ?x" by (simp add: new_operands_def)
  have "written f e newid newblock ?out j ((P @ [(b, i)]) ! j)" if j: "j < length (P @ [(b, i)])" for j
  proof (cases "j = length P")
    case True
    then show ?thesis using out i len by (simp add: written_def Let_def out_ok_def)
  next
    case False
    then have jP: "j < length P" using j by simp
    obtain c k where ck: "P ! j = (c, k)" by fastforce
    have "written f e newid newblock out j (c, k)" using out(1) jP ck unfolding out_ok_def by metis
    then show ?thesis using False jP ck i by (simp add: written_def Let_def nth_append)
  qed
  then have "out_ok f e newid newblock (P @ [(b, i)]) N ?out" using out(1) by (simp add: out_ok_def)
  moreover have "edit_inst f newid newblock b i (e, out, nbl) = Some (e', ?out,
      nbl\<lparr>bl_insts := bl_insts nbl @ [newid ! i],
          bl_nparams := (if in_op ?x = LIMBA_OP_PARAM then bl_nparams nbl + 1 else bl_nparams nbl)\<rparr>)"
    using e'(1) by (simp add: edit_inst_def Let_def)
  ultimately show ?thesis using e'(2) by blast
qed

lemma edit_insts_spec:
  assumes "edit_ok e" "out_ok f e newid newblock P N out" "length P + length (filter (\<lambda>i. \<not> ed_dead e ! i) is) \<le> N"
    and "\<forall>t < length (filter (\<lambda>i. \<not> ed_dead e ! i) is). newid ! (filter (\<lambda>i. \<not> ed_dead e ! i) is ! t) = length P + t"
  shows "\<exists>e' out'. edit_insts f newid newblock b is (e, out, nbl) = Some (e', out',
      nbl\<lparr>bl_insts := bl_insts nbl @ map ((!) newid) (filter (\<lambda>i. \<not> ed_dead e ! i) is),
          bl_nparams := bl_nparams nbl + length (filter (\<lambda>i. in_op (fn_insts f ! i) = LIMBA_OP_PARAM) (filter (\<lambda>i. \<not> ed_dead e ! i) is))\<rparr>) \<and>
    same_edit e e' \<and> out_ok f e newid newblock (P @ map (Pair b) (filter (\<lambda>i. \<not> ed_dead e ! i) is)) N out'"
  using assms
proof (induction "is" arbitrary: e P out nbl)
  case Nil
  then show ?case by (simp add: same_edit_refl)
next
  case (Cons i "is")
  show ?case
  proof (cases "ed_dead e ! i")
    case True
    then show ?thesis using Cons by simp
  next
    case False
    have z: "newid ! i = length P" "length P < N" using Cons.prems(3,4) False by (force, simp)
    let ?n = "nbl\<lparr>bl_insts := bl_insts nbl @ [newid ! i],
          bl_nparams := (if in_op (fn_insts f ! i) = LIMBA_OP_PARAM then bl_nparams nbl + 1 else bl_nparams nbl)\<rparr>"
    obtain e1 out1 where s: "edit_inst f newid newblock b i (e, out, nbl) = Some (e1, out1, ?n)" "same_edit e e1"
        "out_ok f e newid newblock (P @ [(b, i)]) N out1"
      using edit_inst_spec [OF Cons.prems(1,2) z(2,1)] by blast
    have d: "ed_dead e1 = ed_dead e" "edit_ok e1" using s(2) by (simp_all add: same_edit_def)
    let ?l = "filter (\<lambda>i. \<not> ed_dead e ! i) is"
    have t: "\<forall>t < length ?l. newid ! (?l ! t) = length (P @ [(b, i)]) + t"
    proof (intro allI impI)
      fix t assume "t < length ?l"
      then show "newid ! (?l ! t) = length (P @ [(b, i)]) + t" using Cons.prems(4) [rule_format, of "Suc t"] False by simp
    qed
    have o1: "out_ok f e1 newid newblock (P @ [(b, i)]) N out1" using s(3) out_ok_same [OF s(2)] by blast
    have le: "length (P @ [(b, i)]) + length ?l \<le> N" using Cons.prems(3) False by simp
    obtain e2 out2 where r: "edit_insts f newid newblock b is (e1, out1, ?n) = Some (e2, out2,
        ?n\<lparr>bl_insts := bl_insts ?n @ map ((!) newid) ?l,
            bl_nparams := bl_nparams ?n + length (filter (\<lambda>i. in_op (fn_insts f ! i) = LIMBA_OP_PARAM) ?l)\<rparr>)"
        "same_edit e1 e2" "out_ok f e1 newid newblock ((P @ [(b, i)]) @ map (Pair b) ?l) N out2"
      using Cons.IH [OF d(2) o1, of ?n] le t unfolding d(1) by blast
    have "out_ok f e newid newblock (P @ map (Pair b) (i # ?l)) N out2" using r(3) out_ok_same [OF s(2)] by simp
    then show ?thesis
      using s(1) r(1) False same_edit_trans [OF s(2) r(2)] by (intro exI [of _ e2] exI [of _ out2]) simp
  qed
qed

text \<open>A block of the new function.\<close>

definition new_block :: "limba_func \<Rightarrow> limba_edit \<Rightarrow> nat list \<Rightarrow> nat list \<Rightarrow> nat \<Rightarrow> limba_block" where
  "new_block f e newid newblock b =
     (let h = bl_handler (fn_blocks f ! b)
      in \<lparr>bl_insts = map ((!) newid) (alive f e b),
          bl_nparams = length (filter (\<lambda>i. in_op (fn_insts f ! i) = LIMBA_OP_PARAM) (alive f e b)),
          bl_handler = (if h \<noteq> 0 \<and> h - 1 < ed_nblocks e \<and> newblock ! (h - 1) \<noteq> LIMBA_NONE then newblock ! (h - 1) + 1 else 0)\<rparr>)"

definition pairs_in :: "limba_func \<Rightarrow> limba_edit \<Rightarrow> nat list \<Rightarrow> (nat \<times> nat) list" where
  "pairs_in f e bs = concat (map (\<lambda>b. map (Pair b) (alive f e b)) (alive_in e bs))"

lemma pairs_kept: "map snd (pairs_in f e bs) = kept_in f e bs"
  by (simp add: pairs_in_def kept_in_def map_concat o_def)

lemma length_pairs: "length (pairs_in f e bs) = length (kept_in f e bs)"
  by (metis length_map pairs_kept)

lemma pairs_in_Cons:
  "pairs_in f e (b # bs) = (if ed_dead_block e ! b then pairs_in f e bs else map (Pair b) (alive f e b) @ pairs_in f e bs)"
  by (simp add: pairs_in_def alive_in_def)

lemma same_alive:
  assumes "same_edit e e'"
  shows "alive f e' b = alive f e b" "alive_in e' bs = alive_in e bs" "kept_in f e' bs = kept_in f e bs"
    "pairs_in f e' bs = pairs_in f e bs" "new_block f e' newid newblock = new_block f e newid newblock"
proof -
  have a: "alive f e' = alive f e" "alive_in e' = alive_in e" using assms by (simp_all add: same_edit_def alive_def alive_in_def fun_eq_iff)
  then show "alive f e' b = alive f e b" "alive_in e' bs = alive_in e bs" "kept_in f e' bs = kept_in f e bs"
      "pairs_in f e' bs = pairs_in f e bs"
    by (simp_all add: kept_in_def pairs_in_def)
  show "new_block f e' newid newblock = new_block f e newid newblock"
    using assms a by (simp add: same_edit_def new_block_def fun_eq_iff)
qed

lemma edit_blocks_spec:
  assumes "edit_ok e" "out_ok f e newid newblock P N out" "length P + length (kept_in f e cs) \<le> N"
    and "\<forall>t < length (kept_in f e cs). newid ! (kept_in f e cs ! t) = length P + t"
    and "take (length bs) blocks = map (new_block f e newid newblock) bs" "length bs + length (alive_in e cs) \<le> length blocks"
    and "\<forall>t < length (alive_in e cs). newblock ! (alive_in e cs ! t) = length bs + t"
  shows "\<exists>e' out' blocks'. edit_blocks f newid newblock cs (e, out, blocks) = Some (e', out', blocks') \<and>
    same_edit e e' \<and> out_ok f e newid newblock (P @ pairs_in f e cs) N out' \<and> length blocks' = length blocks \<and>
    take (length bs + length (alive_in e cs)) blocks' = map (new_block f e newid newblock) (bs @ alive_in e cs)"
  using assms
proof (induction cs arbitrary: e P out bs blocks)
  case Nil
  then show ?case by (simp add: same_edit_refl pairs_in_def)
next
  case (Cons c cs)
  show ?case
  proof (cases "ed_dead_block e ! c")
    case True
    then show ?thesis using Cons by (simp add: kept_in_Cons alive_in_Cons pairs_in_Cons)
  next
    case False
    let ?a = "alive f e c"
    have le: "length P + length ?a \<le> N" using Cons.prems(3) False by (simp add: kept_in_Cons)
    have nums: "\<forall>t < length ?a. newid ! (?a ! t) = length P + t"
    proof (intro allI impI)
      fix t assume "t < length ?a"
      then show "newid ! (?a ! t) = length P + t"
        using Cons.prems(4) [rule_format, of t] False by (simp add: kept_in_Cons nth_append)
    qed
    obtain e1 out1 where s: "edit_insts f newid newblock c (bl_insts (fn_blocks f ! c)) (e, out, \<lparr>bl_insts = [], bl_nparams = 0, bl_handler = 0\<rparr>) =
        Some (e1, out1, \<lparr>bl_insts = map ((!) newid) ?a,
          bl_nparams = length (filter (\<lambda>i. in_op (fn_insts f ! i) = LIMBA_OP_PARAM) ?a), bl_handler = 0\<rparr>)"
        "same_edit e e1" "out_ok f e newid newblock (P @ map (Pair c) ?a) N out1"
      using edit_insts_spec [OF Cons.prems(1,2), of "bl_insts (fn_blocks f ! c)" c "\<lparr>bl_insts = [], bl_nparams = 0, bl_handler = 0\<rparr>"]
        le nums unfolding alive_def by auto
    note same = same_alive [OF s(2)]
    have nb: "newblock ! c = length bs" using Cons.prems(7) [rule_format, of 0] False by (simp add: alive_in_Cons)
    let ?blocks = "blocks[length bs := new_block f e newid newblock c]"
    have run: "edit_blocks f newid newblock (c # cs) (e, out, blocks) = edit_blocks f newid newblock cs (e1, out1, ?blocks)"
      using s(1,2) False nb by (simp add: new_block_def Let_def same_edit_def)
    have step: "\<exists>e' out' blocks'. edit_blocks f newid newblock cs (e1, out1, ?blocks) = Some (e', out', blocks') \<and>
      same_edit e1 e' \<and> out_ok f e1 newid newblock ((P @ map (Pair c) ?a) @ pairs_in f e1 cs) N out' \<and> length blocks' = length ?blocks \<and>
      take (length (bs @ [c]) + length (alive_in e1 cs)) blocks' = map (new_block f e1 newid newblock) ((bs @ [c]) @ alive_in e1 cs)"
    proof (rule Cons.IH)
      show "edit_ok e1" using s(2) by (simp add: same_edit_def)
      show "out_ok f e1 newid newblock (P @ map (Pair c) ?a) N out1" using s(3) out_ok_same [OF s(2)] by simp
      show "length (P @ map (Pair c) ?a) + length (kept_in f e1 cs) \<le> N" unfolding same using Cons.prems(3) False by (simp add: kept_in_Cons)
      show "\<forall>t < length (kept_in f e1 cs). newid ! (kept_in f e1 cs ! t) = length (P @ map (Pair c) ?a) + t"
      proof (intro allI impI)
        fix t assume "t < length (kept_in f e1 cs)"
        then show "newid ! (kept_in f e1 cs ! t) = length (P @ map (Pair c) ?a) + t"
          unfolding same using Cons.prems(4) [rule_format, of "length ?a + t"] False by (simp add: kept_in_Cons nth_append)
      qed
      have lt: "length bs < length blocks" using Cons.prems(6) False by (simp add: alive_in_Cons)
      show "take (length (bs @ [c])) ?blocks = map (new_block f e1 newid newblock) (bs @ [c])"
        unfolding same using Cons.prems(5) lt by (simp add: take_Suc_conv_app_nth)
      show "length (bs @ [c]) + length (alive_in e1 cs) \<le> length ?blocks"
        unfolding same using Cons.prems(6) False by (simp add: alive_in_Cons)
      show "\<forall>t < length (alive_in e1 cs). newblock ! (alive_in e1 cs ! t) = length (bs @ [c]) + t"
      proof (intro allI impI)
        fix t assume "t < length (alive_in e1 cs)"
        then show "newblock ! (alive_in e1 cs ! t) = length (bs @ [c]) + t"
          unfolding same using Cons.prems(7) [rule_format, of "Suc t"] False by (simp add: alive_in_Cons)
      qed
    qed
    obtain e' out' blocks' where r: "edit_blocks f newid newblock cs (e1, out1, ?blocks) = Some (e', out', blocks')" "same_edit e1 e'"
        "out_ok f e1 newid newblock ((P @ map (Pair c) ?a) @ pairs_in f e1 cs) N out'" "length blocks' = length ?blocks"
        "take (length (bs @ [c]) + length (alive_in e1 cs)) blocks' = map (new_block f e1 newid newblock) ((bs @ [c]) @ alive_in e1 cs)"
      using step by blast
    have "out_ok f e newid newblock (P @ pairs_in f e (c # cs)) N out'"
      using r(3) False unfolding out_ok_same [OF s(2)] same by (simp add: pairs_in_Cons)
    moreover have "take (length bs + length (alive_in e (c # cs))) blocks' = map (new_block f e newid newblock) (bs @ alive_in e (c # cs))"
      using r(5) False unfolding same by (simp add: alive_in_Cons)
    ultimately show ?thesis
      using r(1,4) same_edit_trans [OF s(2) r(2)] unfolding run by (intro exI [of _ e'] exI [of _ out'] exI [of _ blocks']) simp
  qed
qed

lemma edit_end_spec:
  assumes wf: "edit_wf f e"
  shows "\<exists>f' out newid newblock. limba_edit_end st f e = Some (f', limba_edit_cancel e, limba_handled_touch st) \<and>
    numbered (kept f e) newid \<and> numbered (alive_blocks e) newblock \<and> length newid = ed_ninsts e \<and> length newblock = ed_nblocks e \<and>
    fn_blocks f' = map (new_block f e newid newblock) (alive_blocks e) \<and>
    out_ok f e newid newblock (pairs_in f e [0 ..< ed_nblocks e]) (length (kept f e)) out \<and>
    f' = f\<lparr>fn_blocks := fn_blocks f', fn_insts := eo_insts out, fn_locs := eo_locs out, fn_operands := eo_ops out\<rparr>"
proof -
  obtain newid newblock where n: "number_blocks f e [0 ..< ed_nblocks e] (replicate (ed_ninsts e) LIMBA_NONE, 0) (replicate (ed_nblocks e) LIMBA_NONE, 0) =
      ((newid, length (kept f e)), newblock, length (alive_blocks e))" "length newid = ed_ninsts e" "length newblock = ed_nblocks e"
      "numbered (kept f e) newid" "numbered (alive_blocks e) newblock"
    using edit_numbers [OF wf] by blast
  have ok: "edit_ok e" using wf by (simp add: edit_wf_def)
  let ?N = "length (kept f e)" and ?NB = "length (alive_blocks e)"
  let ?out = "\<lparr>eo_insts = replicate ?N unset_inst, eo_locs = (if fn_locs f \<noteq> [] then replicate ?N 0 else []), eo_ops = []\<rparr>"
  have out: "out_ok f e newid newblock [] ?N ?out" by (simp add: out_ok_def)
  have "\<exists>e' out' blocks'. edit_blocks f newid newblock [0 ..< ed_nblocks e] (e, ?out, replicate ?NB unset_block) = Some (e', out', blocks') \<and>
    same_edit e e' \<and> out_ok f e newid newblock ([] @ pairs_in f e [0 ..< ed_nblocks e]) ?N out' \<and>
    length blocks' = length (replicate ?NB unset_block) \<and>
    take (length ([] :: nat list) + ?NB) blocks' = map (new_block f e newid newblock) ([] @ alive_blocks e)"
    by (rule edit_blocks_spec [OF ok out]) (use n(4,5) in \<open>simp_all add: numbered_def\<close>)
  then obtain e' out' blocks' where b: "edit_blocks f newid newblock [0 ..< ed_nblocks e] (e, ?out, replicate ?NB unset_block) = Some (e', out', blocks')"
      "out_ok f e newid newblock (pairs_in f e [0 ..< ed_nblocks e]) ?N out'" "blocks' = map (new_block f e newid newblock) (alive_blocks e)"
    by auto
  let ?f = "f\<lparr>fn_blocks := blocks', fn_insts := eo_insts out', fn_locs := eo_locs out', fn_operands := eo_ops out'\<rparr>"
  have "limba_edit_end st f e = Some (?f, limba_edit_cancel e, limba_handled_touch st)"
    unfolding limba_edit_end_def Let_def n(1) using b(1) by (simp add: limba_edit_cancel_def)
  then show ?thesis using n b(2,3) by (intro exI [of _ ?f] exI [of _ out'] exI [of _ newid] exI [of _ newblock]) simp
qed

section \<open>The interface of an edit\<close>

text \<open>
  What a pass relies on: an edit stands for a substitution of values; resolving a value gives what it
  stands for and changes nothing, and replacing a value that stands for itself redirects what stood for it.
\<close>

locale value_edit =
  fixes ok :: "'e \<Rightarrow> bool"
    and val :: "'e \<Rightarrow> nat \<Rightarrow> nat"
    and count :: "'e \<Rightarrow> nat"
    and resolve :: "'e \<Rightarrow> nat \<Rightarrow> ('e \<times> nat) option"
    and replace :: "'e \<Rightarrow> nat \<Rightarrow> nat \<Rightarrow> 'e option"
  assumes resolve_ok: "ok e \<Longrightarrow> \<exists>e'. resolve e x = Some (e', val e x) \<and> ok e' \<and> val e' = val e \<and> count e' = count e"
    and replace_ok: "ok e \<Longrightarrow> a < count e \<Longrightarrow> val e a = a \<Longrightarrow> b < count e \<Longrightarrow>
      \<exists>e'. replace e a b = Some e' \<and> ok e' \<and> count e' = count e \<and> (\<forall>x. val e' x = (if val e x = a then val e b else val e x))"
    and val_idem: "ok e \<Longrightarrow> val e (val e x) = val e x"
begin

lemma replaced_gone:
  assumes "ok e" "a < count e" "val e a = a" "b < count e" "val e b \<noteq> a"
  shows "\<exists>e'. replace e a b = Some e' \<and> (\<forall>x. val e' x \<noteq> a)"
  using replace_ok [OF assms(1-4)] assms(5) by auto

lemma replace_then_resolve:
  assumes "ok e" "a < count e" "val e a = a" "b < count e"
  shows "\<exists>e' e''. replace e a b = Some e' \<and> resolve e' x = Some (e'', if val e x = a then val e b else val e x) \<and>
    ok e'' \<and> val e'' = val e'"
proof -
  obtain e' where e': "replace e a b = Some e'" "ok e'" "\<forall>x. val e' x = (if val e x = a then val e b else val e x)"
    using replace_ok [OF assms] by blast
  obtain e'' where "resolve e' x = Some (e'', val e' x)" "ok e''" "val e'' = val e'" using resolve_ok [OF e'(2)] by blast
  then show ?thesis using e'(1,3) by (intro exI [of _ e'] exI [of _ e'']) simp
qed

end

interpretation ed: value_edit edit_ok edit_value ed_ninsts limba_edit_resolve limba_edit_replace
proof (unfold_locales, goal_cases)
  case (1 e x)
  then show ?case using resolve_spec [of e x] by (auto simp: same_edit_def)
next
  case (2 e a b)
  then show ?case using replace_spec [of e a b] by blast
next
  case (3 e x)
  then show ?case by (rule edit_value_idem)
qed

section \<open>What an edit does\<close>

text \<open>A sample: the value 1 was replaced by the value 0, so the sum in 2 is of 0 and 0.\<close>

definition edit_inst_of :: "limba_op \<Rightarrow> limba_id \<Rightarrow> nat \<Rightarrow> nat \<Rightarrow> limba_inst" where
  "edit_inst_of oper t first n =
     \<lparr>in_op = oper, in_cc = LIMBA_CC_EQ, in_type = t, in_block = 0, in_nops = n, in_first = first, in_imm = 0, in_imm2 = 0\<rparr>"

definition edit_sample :: limba_func where
  "edit_sample = \<lparr>fn_name = 0, fn_type = 0, fn_flags = 0, fn_locs = [], fn_pos_cur = 0,
     fn_insts = [edit_inst_of LIMBA_OP_ICONST LIMBA_T_I32 0 0, edit_inst_of LIMBA_OP_ICONST LIMBA_T_I32 0 0,
       edit_inst_of LIMBA_OP_ADD LIMBA_T_I32 0 2, edit_inst_of LIMBA_OP_RET LIMBA_T_VOID 2 1],
     fn_operands = [0, 1, 2], fn_blocks = [\<lparr>bl_insts = [0, 1, 2, 3], bl_nparams = 0, bl_handler = 0\<rparr>], fn_slots = [], fn_sum = None\<rparr>"

definition edit_sample_edit :: limba_edit where
  "edit_sample_edit = \<lparr>ed_map = [0, 0, 2, 3], ed_dead = [False, True, False, False], ed_dead_block = [False], ed_ninsts = 4, ed_nblocks = 1\<rparr>"

lemma less_four: "(x :: nat) < 4 \<longleftrightarrow> x = 0 \<or> x = 1 \<or> x = 2 \<or> x = 3"
  by linarith

lemma edit_sample_roots: "root [0, 0, 2, 3] 0 0" "root [0, 0, 2, 3] 1 0" "root [0, 0, 2, 3] 2 2" "root [0, 0, 2, 3] 3 3"
proof -
  show z: "root [0, 0, 2, 3] 0 0" "root [0, 0, 2, 3] 2 2" "root [0, 0, 2, 3] 3 3" by (rule root.stop; simp)+
  show "root [0, 0, 2, 3] 1 0" using root_step [of "[0, 0, 2, 3]" 1 0 0] z(1) by simp
qed

lemma edit_sample_ok: "edit_ok edit_sample_edit"
  using edit_sample_roots by (auto simp: edit_ok_def forest_def edit_sample_edit_def less_four)

lemma edit_sample_kept: "kept edit_sample edit_sample_edit = [0, 2, 3]" "alive_blocks edit_sample_edit = [0]"
  by (simp_all add: kept_in_def alive_in_def alive_def edit_sample_edit_def edit_sample_def)

lemma edit_sample_wf: "edit_wf edit_sample edit_sample_edit"
  using edit_sample_ok edit_sample_kept by (simp add: edit_wf_def edit_sample_edit_def edit_sample_def)

text \<open>
  C5: An edit refines a substitution. Replacing a value that stands for itself ends and gives a
  well-formed edit in which everything that stood for it stands for what the other stood for, and
  nothing else has changed; resolving any value then ends, gives what it stands for, and shortening the
  chains on the way changes no value of the substitution.
\<close>

theorem edit_replace_substitutes:
  assumes "edit_ok e" "a < ed_ninsts e" "edit_value e a = a" "b < ed_ninsts e"
  shows "\<exists>e'. limba_edit_replace e a b = Some e' \<and> edit_ok e' \<and>
    (\<forall>x. edit_value e' x = (if edit_value e x = a then edit_value e b else edit_value e x)) \<and>
    (\<forall>x. \<exists>e''. limba_edit_resolve e' x = Some (e'', edit_value e' x) \<and> edit_ok e'' \<and> edit_value e'' = edit_value e')"
proof -
  obtain e' where e': "limba_edit_replace e a b = Some e'" "edit_ok e'"
      "\<forall>x. edit_value e' x = (if edit_value e x = a then edit_value e b else edit_value e x)"
    using ed.replace_ok [OF assms] by blast
  have "\<exists>e''. limba_edit_resolve e' x = Some (e'', edit_value e' x) \<and> edit_ok e'' \<and> edit_value e'' = edit_value e'" for x
    using ed.resolve_ok [OF e'(2), of x] by blast
  then show ?thesis using e' by blast
qed

theorem edit_replace_substitutes_witness:
  "\<exists>e'. limba_edit_replace (limba_edit_begin edit_sample) 1 0 = Some e' \<and> edit_value e' 1 = 0 \<and> edit_value e' 2 = 2"
  using edit_replace_substitutes [of "limba_edit_begin edit_sample" 1 0] edit_begin_ok [of edit_sample]
  by (auto simp: limba_edit_begin_def edit_sample_def)

text \<open>
  C12: The end of an edit of a well-formed function gives the canonical form. The blocks that stay keep
  their order and their instructions that stay, numbered one after the other through the function; each
  instruction is the old one but for its block and its place in the pool; and each of its operands is the
  old one renamed: a value follows the substitution and then its new number, a block takes its new
  number, and whatever is gone becomes \<open>LIMBA_NONE\<close>. The cached sets are told.
\<close>

theorem edit_end_canonical:
  assumes "edit_wf f e"
  shows "\<exists>f' newid newblock. limba_edit_end st f e = Some (f', limba_edit_cancel e, st + 1) \<and>
    numbered (kept f e) newid \<and> numbered (alive_blocks e) newblock \<and>
    fn_blocks f' = map (new_block f e newid newblock) (alive_blocks e) \<and>
    concat (map bl_insts (fn_blocks f')) = [0 ..< length (fn_insts f')] \<and> length (fn_insts f') = length (kept f e) \<and>
    (\<forall>j < length (fn_insts f'). let x = fn_insts f ! (kept f e ! j); y = fn_insts f' ! j
       in y = x\<lparr>in_block := in_block y, in_first := in_first y\<rparr> \<and>
          (\<forall>k < in_nops x. operand f' y k = renamed newid newblock e (inst_kinds f x ! k) (operand f x k)))"
proof -
  obtain f' out newid newblock where r: "limba_edit_end st f e = Some (f', limba_edit_cancel e, limba_handled_touch st)"
      "numbered (kept f e) newid" "numbered (alive_blocks e) newblock" "length newid = ed_ninsts e"
      "fn_blocks f' = map (new_block f e newid newblock) (alive_blocks e)"
      "out_ok f e newid newblock (pairs_in f e [0 ..< ed_nblocks e]) (length (kept f e)) out"
      "f' = f\<lparr>fn_blocks := fn_blocks f', fn_insts := eo_insts out, fn_locs := eo_locs out, fn_operands := eo_ops out\<rparr>"
    using edit_end_spec [OF assms, of st] by blast
  have pool: "fn_insts f' = eo_insts out" "fn_operands f' = eo_ops out" by (subst r(7), simp)+
  have len: "length (fn_insts f') = length (kept f e)" using r(6) by (simp add: pool out_ok_def)
  have "concat (map bl_insts (fn_blocks f')) = map ((!) newid) (kept f e)"
    by (simp add: r(5) new_block_def Let_def o_def kept_in_def map_concat)
  also have "\<dots> = [0 ..< length (kept f e)]" using r(2) by (intro nth_equalityI) (simp_all add: numbered_def)
  finally have order: "concat (map bl_insts (fn_blocks f')) = [0 ..< length (fn_insts f')]" by (simp add: len)
  have "let x = fn_insts f ! (kept f e ! j); y = fn_insts f' ! j
       in y = x\<lparr>in_block := in_block y, in_first := in_first y\<rparr> \<and>
          (\<forall>k < in_nops x. operand f' y k = renamed newid newblock e (inst_kinds f x ! k) (operand f x k))"
    if j: "j < length (fn_insts f')" for j
  proof -
    let ?P = "pairs_in f e [0 ..< ed_nblocks e]" and ?i = "kept f e ! j"
    have jP: "j < length ?P" using j len by (simp add: length_pairs)
    then have "snd (?P ! j) = ?i" using pairs_kept [of f e "[0 ..< ed_nblocks e]"] by (metis nth_map)
    then obtain b where b: "?P ! j = (b, ?i)" by (metis prod.collapse)
    have "written f e newid newblock out j (b, ?i)" using r(6) jP b unfolding out_ok_def by metis
    then have w: "eo_insts out ! j = (fn_insts f ! ?i)\<lparr>in_block := newblock ! b, in_first := in_first (eo_insts out ! j)\<rparr>"
        "take (in_nops (fn_insts f ! ?i)) (drop (in_first (eo_insts out ! j)) (eo_ops out)) = new_operands f e newid newblock (fn_insts f ! ?i)"
        "in_first (eo_insts out ! j) + in_nops (fn_insts f ! ?i) \<le> length (eo_ops out)"
      unfolding written_def Let_def by simp_all
    have "in_block (eo_insts out ! j) = newblock ! b" by (subst w(1)) simp
    then have y: "eo_insts out ! j = (fn_insts f ! ?i)\<lparr>in_block := in_block (eo_insts out ! j), in_first := in_first (eo_insts out ! j)\<rparr>"
      using w(1) by simp
    have "operand f' (eo_insts out ! j) k = renamed newid newblock e (inst_kinds f (fn_insts f ! ?i) ! k) (operand f (fn_insts f ! ?i) k)"
      if k: "k < in_nops (fn_insts f ! ?i)" for k
    proof -
      have "operand f' (eo_insts out ! j) k = take (in_nops (fn_insts f ! ?i)) (drop (in_first (eo_insts out ! j)) (eo_ops out)) ! k"
        using k w(3) by (simp add: operand_def pool)
      also have "\<dots> = renamed newid newblock e (inst_kinds f (fn_insts f ! ?i) ! k) (operand f (fn_insts f ! ?i) k)"
        unfolding w(2) new_operands_def using k by simp
      finally show ?thesis .
    qed
    then show ?thesis unfolding Let_def pool using y by blast
  qed
  then show ?thesis
    using r(1-3,5) len order by (intro exI [of _ f'] exI [of _ newid] exI [of _ newblock]) (simp add: limba_handled_touch_def)
qed

theorem edit_end_canonical_witness:
  "\<exists>f'. limba_edit_end 7 edit_sample edit_sample_edit = Some (f', limba_edit_cancel edit_sample_edit, 8) \<and>
     length (fn_insts f') = 3 \<and> operand f' (fn_insts f' ! 1) 1 = 0 \<and> operand f' (fn_insts f' ! 2) 0 = 1"
proof -
  obtain f' newid newblock where r: "limba_edit_end 7 edit_sample edit_sample_edit = Some (f', limba_edit_cancel edit_sample_edit, 7 + 1)"
      "numbered [0, 2, 3] newid" "length (fn_insts f') = length [0 :: nat, 2, 3]"
      "\<forall>j < length (fn_insts f'). fn_insts f' ! j = (fn_insts edit_sample ! ([0, 2, 3] ! j))
           \<lparr>in_block := in_block (fn_insts f' ! j), in_first := in_first (fn_insts f' ! j)\<rparr> \<and>
         (\<forall>k < in_nops (fn_insts edit_sample ! ([0, 2, 3] ! j)). operand f' (fn_insts f' ! j) k =
         renamed newid newblock edit_sample_edit (inst_kinds edit_sample (fn_insts edit_sample ! ([0, 2, 3] ! j)) ! k)
           (operand edit_sample (fn_insts edit_sample ! ([0, 2, 3] ! j)) k))"
    using edit_end_canonical [OF edit_sample_wf, of 7] unfolding edit_sample_kept Let_def by blast
  have len: "length (fn_insts f') = 3" using r(3) by simp
  have ops: "operand f' (fn_insts f' ! j) k =
         renamed newid newblock edit_sample_edit (inst_kinds edit_sample (fn_insts edit_sample ! ([0, 2, 3] ! j)) ! k)
           (operand edit_sample (fn_insts edit_sample ! ([0, 2, 3] ! j)) k)"
    if "j < 3" "k < in_nops (fn_insts edit_sample ! ([0, 2, 3] ! j))" for j k
    using r(4) that len by metis
  have v: "edit_value edit_sample_edit 1 = 0" "edit_value edit_sample_edit 2 = 2"
    using edit_sample_roots edit_value_root [of edit_sample_edit] by (simp_all add: edit_sample_edit_def)
  have ids: "newid ! 0 = 0" "newid ! 2 = 1" using r(2) by (auto simp: numbered_def nth_Cons' split: if_splits)
  have "operand f' (fn_insts f' ! 1) 1 = renamed newid newblock edit_sample_edit LIMBA_OK_VALUE 1"
    using ops [of 1 1] by (simp add: edit_sample_def edit_inst_of_def inst_kinds_def limba_only_values_def operand_def numeral_2_eq_2)
  moreover have "operand f' (fn_insts f' ! 2) 0 = renamed newid newblock edit_sample_edit LIMBA_OK_VALUE 2"
    using ops [of 2 0] by (simp add: edit_sample_def edit_inst_of_def inst_kinds_def limba_only_values_def operand_def)
  ultimately show ?thesis
    using r(1) len v ids by (intro exI [of _ f']) (simp add: renamed_def Let_def edit_sample_edit_def)
qed

end
