(* ===== verification/Dce.thy ===== *)
theory Dce
  imports Edit
begin

text \<open>
  The pass that removes dead code: \<^verbatim>\<open>src/src/opt/dce.c\<close>. It records what goes in the edit of the pipeline.
  The counts of uses are natural numbers: the operands of a function are counted by a 32-bit word in the
  code. \<open>None\<close> is a loop that does not end.
\<close>

unbundle bit_operations_syntax

section \<open>The pass\<close>

definition removable :: "limba_inst \<Rightarrow> bool" where
  "removable i \<longleftrightarrow>
     (if in_op i = LIMBA_OP_PARAM \<or> in_type i = LIMBA_T_VOID then False
      else if op_flags (limba_ops (in_op i)) AND LIMBA_OPF_PURE \<noteq> 0 then True
      else if in_op i = LIMBA_OP_CALLRT then
        rt_attrs (limba_rts ! unat (in_imm i)) AND
          (LIMBA_RTA_IO OR LIMBA_RTA_WRITES_MEM OR LIMBA_RTA_MAY_TRAP OR LIMBA_RTA_NORETURN) = 0
      else False)"

text \<open>The operands of an instruction that are values, in order.\<close>

definition value_ops :: "limba_func \<Rightarrow> nat \<Rightarrow> nat list" where
  "value_ops f x =
     (let i = fn_insts f ! x; kinds = snd (limba_operand_kinds f i)
      in map (operand f i) (filter (\<lambda>k. kinds ! k = LIMBA_OK_VALUE) [0 ..< in_nops i]))"

text \<open>The uses of the operands \<open>ps\<close> are counted; they are taken off, and what has none left goes to the work list.\<close>

fun add_uses :: "limba_edit \<Rightarrow> nat list \<Rightarrow> nat list \<Rightarrow> (limba_edit \<times> nat list) option" where
  "add_uses e uses [] = Some (e, uses)"
| "add_uses e uses (p # ps) =
     do { (e, x) \<leftarrow> limba_edit_resolve e p; add_uses e (uses[x := uses ! x + 1]) ps }"

fun count_uses :: "limba_func \<Rightarrow> limba_edit \<Rightarrow> nat list \<Rightarrow> nat list \<Rightarrow> (limba_edit \<times> nat list) option" where
  "count_uses f e uses [] = Some (e, uses)"
| "count_uses f e uses (i # is) =
     (if ed_dead e ! i then count_uses f e uses is
      else do { (e, uses) \<leftarrow> add_uses e uses (value_ops f i); count_uses f e uses is })"

fun drop_uses :: "limba_func \<Rightarrow> limba_edit \<Rightarrow> nat list \<Rightarrow> nat list \<Rightarrow> nat list \<Rightarrow> (limba_edit \<times> nat list \<times> nat list) option" where
  "drop_uses f e uses work [] = Some (e, uses, work)"
| "drop_uses f e uses work (p # ps) =
     do {
       (e, x) \<leftarrow> limba_edit_resolve e p;
       let uses = uses[x := uses ! x - 1];
           work = (if uses ! x = 0 \<and> removable (fn_insts f ! x) then x # work else work)
       in drop_uses f e uses work ps
     }"

text \<open>The work list has its top first.\<close>

partial_function (option) dce_loop :: "limba_func \<Rightarrow> limba_edit \<Rightarrow> nat list \<Rightarrow> nat list \<Rightarrow> nat \<Rightarrow> (limba_edit \<times> nat) option" where
  "dce_loop f e uses work changes =
     (case work of
        [] \<Rightarrow> Some (e, changes)
      | x # work \<Rightarrow>
          if ed_dead e ! x then dce_loop f e uses work changes
          else Option.bind (drop_uses f (e\<lparr>ed_dead := (ed_dead e)[x := True]\<rparr>) uses work (value_ops f x))
            (\<lambda>(e, uses, work). dce_loop f e uses work (changes + 1)))"

definition limba_pass_dce :: "limba_func \<Rightarrow> limba_edit \<Rightarrow> (limba_edit \<times> nat) option" where
  "limba_pass_dce f e =
     (let n = length (fn_insts f)
      in do {
        (e, uses) \<leftarrow> count_uses f e (replicate (n + 1) 0) [0 ..< n];
        let work = rev (filter (\<lambda>i. \<not> ed_dead e ! i \<and> uses ! i = 0 \<and> removable (fn_insts f ! i)) [0 ..< n])
        in dce_loop f e uses work 0
      })"

text \<open>All the operands are values where the format says so.\<close>

lemma kinds_only: "limba_only_values i \<Longrightarrow> snd (limba_operand_kinds f i) = replicate (in_nops i) LIMBA_OK_VALUE"
  by (cases "op_format (limba_ops (in_op i))") (simp_all add: limba_only_values_def limba_operand_kinds_def Let_def)

lemma value_ops_only:
  "limba_only_values (fn_insts f ! x) \<Longrightarrow>
   value_ops f x = map (operand f (fn_insts f ! x)) [0 ..< in_nops (fn_insts f ! x)]"
  by (auto simp: value_ops_def Let_def kinds_only intro!: filter_True)

section \<open>The uses of a value\<close>

text \<open>The instructions alive use the value \<open>x\<close> as often as \<open>live_uses\<close> says, after the substitution.\<close>

definition uses_of :: "limba_func \<Rightarrow> (nat \<Rightarrow> nat) \<Rightarrow> nat \<Rightarrow> nat \<Rightarrow> nat" where
  "uses_of f v i x = count_list (map v (value_ops f i)) x"

definition live_uses :: "limba_func \<Rightarrow> (nat \<Rightarrow> nat) \<Rightarrow> bool list \<Rightarrow> nat \<Rightarrow> nat" where
  "live_uses f v dead x = (\<Sum>i | i < length (fn_insts f) \<and> \<not> dead ! i. uses_of f v i x)"

definition operands_in :: "limba_func \<Rightarrow> bool" where
  "operands_in f \<longleftrightarrow> (\<forall>i < length (fn_insts f). \<forall>p \<in> set (value_ops f i). p < length (fn_insts f))"

lemma add_uses_spec:
  assumes "edit_ok e" "\<forall>p \<in> set ps. edit_value e p < length uses"
  shows "\<exists>e' uses'. add_uses e uses ps = Some (e', uses') \<and> same_edit e e' \<and> length uses' = length uses \<and>
    (\<forall>x < length uses. uses' ! x = uses ! x + count_list (map (edit_value e) ps) x)"
  using assms
proof (induction ps arbitrary: e uses)
  case (Cons p ps)
  obtain e1 where e1: "limba_edit_resolve e p = Some (e1, edit_value e p)" "same_edit e e1"
    using resolve_spec [OF Cons.prems(1)] by blast
  let ?uses = "uses[edit_value e p := uses ! edit_value e p + 1]"
  have v: "edit_value e1 = edit_value e" using e1(2) by (simp add: same_edit_def)
  obtain e2 uses2 where r: "add_uses e1 ?uses ps = Some (e2, uses2)" "same_edit e1 e2" "length uses2 = length uses"
      "\<forall>x < length uses. uses2 ! x = ?uses ! x + count_list (map (edit_value e) ps) x"
    using Cons.IH [of e1 ?uses] Cons.prems e1(2) v by (auto simp: same_edit_def)
  have "uses2 ! x = uses ! x + count_list (map (edit_value e) (p # ps)) x" if "x < length uses" for x
    using r(4) that Cons.prems(2) by (auto simp: nth_list_update)
  then show ?case using r e1 same_edit_trans by fastforce
qed (simp add: same_edit_refl)

lemma drop_uses_spec:
  assumes "edit_ok e" "\<forall>p \<in> set ps. edit_value e p < length uses"
    "\<forall>x < length uses. count_list (map (edit_value e) ps) x \<le> uses ! x"
  shows "\<exists>e' uses' work'. drop_uses f e uses work ps = Some (e', uses', work') \<and> same_edit e e' \<and> length uses' = length uses \<and>
    (\<forall>x < length uses. uses' ! x = uses ! x - count_list (map (edit_value e) ps) x) \<and>
    set work' = set work \<union> {x \<in> edit_value e ` set ps. uses' ! x = 0 \<and> removable (fn_insts f ! x)}"
  using assms
proof (induction ps arbitrary: e uses work)
  case (Cons p ps)
  obtain e1 where e1: "limba_edit_resolve e p = Some (e1, edit_value e p)" "same_edit e e1"
    using resolve_spec [OF Cons.prems(1)] by blast
  let ?x = "edit_value e p"
  let ?uses = "uses[?x := uses ! ?x - 1]"
  let ?work = "if ?uses ! ?x = 0 \<and> removable (fn_insts f ! ?x) then ?x # work else work"
  have v: "edit_value e1 = edit_value e" using e1(2) by (simp add: same_edit_def)
  have x: "?x < length uses" "0 < uses ! ?x" using Cons.prems(2,3) by force+
  have left: "count_list (map (edit_value e) ps) y \<le> ?uses ! y" if "y < length uses" for y
    using Cons.prems(3) that by (cases "y = ?x") (auto dest!: spec [of _ y])
  obtain e2 uses2 work2 where r: "drop_uses f e1 ?uses ?work ps = Some (e2, uses2, work2)" "same_edit e1 e2" "length uses2 = length uses"
      "\<forall>y < length uses. uses2 ! y = ?uses ! y - count_list (map (edit_value e) ps) y"
      "set work2 = set ?work \<union> {y \<in> edit_value e ` set ps. uses2 ! y = 0 \<and> removable (fn_insts f ! y)}"
    using Cons.IH [of e1 ?uses ?work] Cons.prems e1(2) v left by (auto simp: same_edit_def)
  have count: "uses2 ! y = uses ! y - count_list (map (edit_value e) (p # ps)) y" if "y < length uses" for y
    using r(4) that x by (auto simp: nth_list_update)
  have zero: "?uses ! ?x = 0 \<longleftrightarrow> uses2 ! ?x = 0 \<and> ?x \<notin> edit_value e ` set ps"
    using r(4) x left [OF x(1)] by (auto simp: count_list_0_iff)
  have "set work2 = set work \<union> {y \<in> edit_value e ` set (p # ps). uses2 ! y = 0 \<and> removable (fn_insts f ! y)}"
    using r(5) zero by (auto split: if_splits)
  then show ?case using r e1 count same_edit_trans by (fastforce simp: Let_def)
qed (simp add: same_edit_refl)

lemma live_uses_kill:
  assumes "x < length (fn_insts f)" "\<not> dead ! x" "x < length dead"
  shows "live_uses f v dead y = live_uses f v (dead[x := True]) y + uses_of f v x y"
proof -
  have "{i. i < length (fn_insts f) \<and> \<not> dead ! i} = insert x {i. i < length (fn_insts f) \<and> \<not> dead[x := True] ! i}"
    using assms by (auto simp: nth_list_update)
  moreover have "x \<notin> {i. i < length (fn_insts f) \<and> \<not> dead[x := True] ! i}" using assms(3) by simp
  ultimately show ?thesis by (simp add: live_uses_def)
qed

lemma live_uses_0: "live_uses f v dead x = 0 \<longleftrightarrow> (\<forall>i < length (fn_insts f). \<not> dead ! i \<longrightarrow> x \<notin> v ` set (value_ops f i))"
  by (auto simp: live_uses_def uses_of_def count_list_0_iff)

lemma count_uses_spec:
  assumes "edit_ok e" "distinct is" "\<forall>i \<in> set is. \<forall>p \<in> set (value_ops f i). edit_value e p < length uses"
  shows "\<exists>e' uses'. count_uses f e uses is = Some (e', uses') \<and> same_edit e e' \<and> length uses' = length uses \<and>
    (\<forall>x < length uses. uses' ! x = uses ! x + (\<Sum>i | i \<in> set is \<and> \<not> ed_dead e ! i. uses_of f (edit_value e) i x))"
  using assms
proof (induction "is" arbitrary: e uses)
  case (Cons i "is")
  have sum: "(\<Sum>j | j \<in> set (i # is) \<and> \<not> ed_dead e ! j. uses_of f (edit_value e) j x) =
      (if ed_dead e ! i then 0 else uses_of f (edit_value e) i x) + (\<Sum>j | j \<in> set is \<and> \<not> ed_dead e ! j. uses_of f (edit_value e) j x)" for x
  proof (cases "ed_dead e ! i")
    case True
    then have "{j. j \<in> set (i # is) \<and> \<not> ed_dead e ! j} = {j. j \<in> set is \<and> \<not> ed_dead e ! j}" by auto
    then show ?thesis using True by simp
  next
    case False
    then have "{j. j \<in> set (i # is) \<and> \<not> ed_dead e ! j} = insert i {j. j \<in> set is \<and> \<not> ed_dead e ! j}" by auto
    then show ?thesis using False Cons.prems(2) by simp
  qed
  show ?case
  proof (cases "ed_dead e ! i")
    case True
    then show ?thesis using Cons.IH [of e uses] Cons.prems sum by simp
  next
    case False
    obtain e1 uses1 where a: "add_uses e uses (value_ops f i) = Some (e1, uses1)" "same_edit e e1" "length uses1 = length uses"
        "\<forall>x < length uses. uses1 ! x = uses ! x + uses_of f (edit_value e) i x"
      using add_uses_spec [OF Cons.prems(1), of "value_ops f i" uses] Cons.prems(3) unfolding uses_of_def by auto
    have s: "edit_ok e1" "edit_value e1 = edit_value e" "ed_dead e1 = ed_dead e" using a(2) by (simp_all add: same_edit_def)
    obtain e2 uses2 where b: "count_uses f e1 uses1 is = Some (e2, uses2)" "same_edit e1 e2" "length uses2 = length uses1"
        "\<forall>x < length uses1. uses2 ! x = uses1 ! x + (\<Sum>j | j \<in> set is \<and> \<not> ed_dead e ! j. uses_of f (edit_value e) j x)"
      using Cons.IH [of e1 uses1] Cons.prems s a(3) by auto
    have "uses2 ! x = uses ! x + (\<Sum>j | j \<in> set (i # is) \<and> \<not> ed_dead e ! j. uses_of f (edit_value e) j x)" if "x < length uses" for x
      unfolding sum using that a(3,4) b(4) False by simp
    moreover have "count_uses f e uses (i # is) = Some (e2, uses2)" using False a(1) b(1) by simp
    ultimately show ?thesis using same_edit_trans [OF a(2) b(2)] a(3) b(3) by (intro exI [of _ e2] exI [of _ uses2]) simp
  qed
qed (simp add: same_edit_refl)

section \<open>What the pass takes away\<close>

text \<open>
  The useless instructions: what may go and is used by useless instructions only. Instructions that use
  each other in a circle are not among them.
\<close>

inductive useless :: "limba_func \<Rightarrow> limba_edit \<Rightarrow> nat \<Rightarrow> bool" for f e where
  "x < length (fn_insts f) \<Longrightarrow> \<not> ed_dead e ! x \<Longrightarrow> removable (fn_insts f ! x) \<Longrightarrow>
   (\<forall>i < length (fn_insts f). \<not> ed_dead e ! i \<longrightarrow> x \<in> edit_value e ` set (value_ops f i) \<longrightarrow> useless f e i) \<Longrightarrow>
   useless f e x"

text \<open>The state of the loop, from the edit \<open>e\<close> the pass was given.\<close>

definition killed :: "limba_func \<Rightarrow> limba_edit \<Rightarrow> limba_edit \<Rightarrow> nat set" where
  "killed f e e' = {i. i < length (fn_insts f) \<and> ed_dead e' ! i \<and> \<not> ed_dead e ! i}"

definition dce_edit :: "limba_func \<Rightarrow> limba_edit \<Rightarrow> limba_edit \<Rightarrow> nat \<Rightarrow> bool" where
  "dce_edit f e e' changes \<longleftrightarrow>
     edit_ok e' \<and> edit_value e' = edit_value e \<and> ed_ninsts e' = length (fn_insts f) \<and> ed_dead_block e' = ed_dead_block e \<and>
     ed_nblocks e' = ed_nblocks e \<and> (\<forall>i < length (fn_insts f). ed_dead e ! i \<longrightarrow> ed_dead e' ! i) \<and>
     (\<forall>x \<in> killed f e e'. useless f e x) \<and> changes = card (killed f e e')"

definition dce_uses :: "limba_func \<Rightarrow> limba_edit \<Rightarrow> limba_edit \<Rightarrow> nat list \<Rightarrow> nat list \<Rightarrow> bool" where
  "dce_uses f e e' uses work \<longleftrightarrow>
     length uses = length (fn_insts f) + 1 \<and>
     (\<forall>x < length (fn_insts f). uses ! x = live_uses f (edit_value e) (ed_dead e') x) \<and>
     (\<forall>x \<in> set work. x < length (fn_insts f) \<and> uses ! x = 0 \<and> removable (fn_insts f ! x)) \<and>
     (\<forall>x < length (fn_insts f). \<not> ed_dead e' ! x \<longrightarrow> uses ! x = 0 \<longrightarrow> removable (fn_insts f ! x) \<longrightarrow> x \<in> set work)"

lemma useless_unused:
  assumes "x < length (fn_insts f)" "\<not> ed_dead e ! x" "removable (fn_insts f ! x)"
    "live_uses f (edit_value e) (ed_dead e') x = 0" "\<forall>y \<in> killed f e e'. useless f e y"
  shows "useless f e x"
proof (rule useless.intros [OF assms(1-3)], intro allI impI)
  fix i assume i: "i < length (fn_insts f)" "\<not> ed_dead e ! i" "x \<in> edit_value e ` set (value_ops f i)"
  then have "ed_dead e' ! i" using assms(4) by (auto simp: live_uses_0)
  then show "useless f e i" using i(1,2) assms(5) by (simp add: killed_def)
qed

lemma edit_dead_more: "ed_dead e ! y \<Longrightarrow> (ed_dead e)[x := True] ! y"
  by (cases "x < length (ed_dead e)") (auto simp: nth_list_update list_update_beyond not_less)

lemma dce_step_inv:
  assumes edit: "dce_edit f e e' changes" and uses: "dce_uses f e e' uses (x # work)" and alive: "\<not> ed_dead e' ! x" and ops: "operands_in f"
  shows "\<exists>e2 uses2 work2. drop_uses f (e'\<lparr>ed_dead := (ed_dead e')[x := True]\<rparr>) uses work (value_ops f x) = Some (e2, uses2, work2) \<and>
    dce_edit f e e2 (changes + 1) \<and> dce_uses f e e2 uses2 work2 \<and> ed_dead e2 = (ed_dead e')[x := True]"
proof -
  let ?n = "length (fn_insts f)" and ?e = "e'\<lparr>ed_dead := (ed_dead e')[x := True]\<rparr>" and ?d = "(ed_dead e')[x := True]"
  have i: "edit_ok e'" "edit_value e' = edit_value e" "ed_ninsts e' = ?n" "ed_dead_block e' = ed_dead_block e"
    "ed_nblocks e' = ed_nblocks e" "\<forall>i < ?n. ed_dead e ! i \<longrightarrow> ed_dead e' ! i" "\<forall>x \<in> killed f e e'. useless f e x"
    "changes = card (killed f e e')"
    using edit by (simp_all add: dce_edit_def)
  have u: "length uses = ?n + 1" "\<forall>x < ?n. uses ! x = live_uses f (edit_value e) (ed_dead e') x"
    "\<forall>y \<in> set (x # work). y < ?n \<and> uses ! y = 0 \<and> removable (fn_insts f ! y)"
    "\<forall>y < ?n. \<not> ed_dead e' ! y \<longrightarrow> uses ! y = 0 \<longrightarrow> removable (fn_insts f ! y) \<longrightarrow> y \<in> set (x # work)"
    using uses unfolding dce_uses_def by blast+
  have x: "x < ?n" "uses ! x = 0" "removable (fn_insts f ! x)" "x < length (ed_dead e')" using i(1,3) u(3) by (simp_all add: edit_ok_def)
  have "edit_value ?e = edit_value e'" by (simp add: edit_value_def fun_eq_iff)
  then have ev: "edit_value ?e = edit_value e" using i(2) by simp
  have ok: "edit_ok ?e" using i(1) by (auto simp: edit_ok_def edit_dead_more)
  have lt: "edit_value e p < ?n" if "p \<in> set (value_ops f x)" for p
    using edit_value_lt [OF ok, of p] ops x(1) that i(3) ev by (auto simp: operands_in_def)
  have kill: "uses ! y = live_uses f (edit_value e) ?d y + uses_of f (edit_value e) x y" if "y < ?n" for y
    using u(2) live_uses_kill [OF x(1) alive x(4)] that by metis
  have low: "count_list (map (edit_value ?e) (value_ops f x)) y \<le> uses ! y" if "y < length uses" for y
  proof (cases "y < ?n")
    case True
    then show ?thesis using kill [OF True] ev by (simp add: uses_of_def)
  next
    case False
    then have "y \<notin> edit_value e ` set (value_ops f x)" using lt by auto
    then show ?thesis using ev by (simp add: count_list_0_iff)
  qed
  have "\<forall>p \<in> set (value_ops f x). edit_value ?e p < length uses" using lt u(1) ev by (auto intro: less_SucI)
  moreover have "\<forall>y < length uses. count_list (map (edit_value ?e) (value_ops f x)) y \<le> uses ! y" using low by blast
  ultimately obtain e2 uses2 work2 where r: "drop_uses f ?e uses work (value_ops f x) = Some (e2, uses2, work2)" "same_edit ?e e2"
      "length uses2 = length uses" "\<forall>y < length uses. uses2 ! y = uses ! y - count_list (map (edit_value e) (value_ops f x)) y"
      "set work2 = set work \<union> {y \<in> edit_value e ` set (value_ops f x). uses2 ! y = 0 \<and> removable (fn_insts f ! y)}"
    using drop_uses_spec [OF ok, of "value_ops f x" uses f work] unfolding ev by blast
  have s: "edit_ok e2" "edit_value e2 = edit_value e" "ed_ninsts e2 = ?n" "ed_dead_block e2 = ed_dead_block e"
    "ed_nblocks e2 = ed_nblocks e" "ed_dead e2 = ?d"
    using r(2) i(3-5) ev by (simp_all add: same_edit_def)
  have uses2: "uses2 ! y = live_uses f (edit_value e) ?d y" if "y < ?n" for y
    using r(4) kill [OF that] that u(1) by (simp add: uses_of_def)
  have killed: "killed f e e2 = insert x (killed f e e')" "x \<notin> killed f e e'"
    using x i(6) alive by (auto simp: killed_def s(6) nth_list_update)
  have ux: "useless f e x"
    using useless_unused [OF x(1) _ x(3) _ i(7)] i(6) u(2) x(1,2) alive by auto
  have fin: "finite (killed f e e')" by (simp add: killed_def)
  have down: "uses2 ! y \<le> uses ! y" if "y < ?n" for y using r(4) that u(1) by simp
  have "y < ?n \<and> uses2 ! y = 0 \<and> removable (fn_insts f ! y)" if "y \<in> set work2" for y
    using that r(5) u(3) lt down by auto (metis le_zero_eq)
  moreover have "y \<in> set work2" if y: "y < ?n" "\<not> ed_dead e2 ! y" "uses2 ! y = 0" "removable (fn_insts f ! y)" for y
  proof (cases "y \<in> edit_value e ` set (value_ops f x)")
    case True
    then show ?thesis using r(5) y by simp
  next
    case False
    then have "uses ! y = 0" using r(4) y(1,3) u(1) by (auto simp: count_list_0_iff)
    then have "y \<in> set (x # work)" using u(4) y x(4) s(6) by (metis nth_list_update_neq nth_list_update_eq)
    then show ?thesis using r(5) y(2) s(6) x(4) by auto
  qed
  ultimately have "dce_uses f e e2 uses2 work2"
    unfolding dce_uses_def using s r(3) u(1) uses2 by simp
  moreover have "dce_edit f e e2 (changes + 1)"
    unfolding dce_edit_def using s i(6-8) killed ux fin x(4) by (auto simp: nth_list_update)
  ultimately show ?thesis using r(1) s(6) by blast
qed

text \<open>How many instructions are alive: each turn of the loop kills one or shortens the work list.\<close>

definition alive_count :: "limba_func \<Rightarrow> bool list \<Rightarrow> nat" where
  "alive_count f dead = card {i. i < length (fn_insts f) \<and> \<not> dead ! i}"

lemma alive_count_kill:
  assumes "x < length (fn_insts f)" "\<not> dead ! x" "x < length dead"
  shows "alive_count f (dead[x := True]) < alive_count f dead"
  unfolding alive_count_def using assms
  by (intro psubset_card_mono) (auto simp: nth_list_update)

lemma dce_loop_spec:
  assumes "dce_edit f e e' changes" "dce_uses f e e' uses work" "operands_in f"
  shows "\<exists>e2 c uses2. dce_loop f e' uses work changes = Some (e2, c) \<and> dce_edit f e e2 c \<and> dce_uses f e e2 uses2 []"
  using assms(1,2)
proof (induction "alive_count f (ed_dead e')" arbitrary: e' uses work changes rule: less_induct)
  case (less e' uses work changes)
  from less.prems show ?case
  proof (induction work)
    case Nil
    then show ?case by (subst dce_loop.simps) auto
  next
    case (Cons x work)
    show ?case
    proof (cases "ed_dead e' ! x")
      case True
      have "dce_uses f e e' uses work" using Cons.prems(2) True by (auto simp: dce_uses_def)
      then show ?thesis using Cons.IH Cons.prems(1) True by (subst dce_loop.simps) simp
    next
      case False
      obtain e1 uses1 work1 where s: "drop_uses f (e'\<lparr>ed_dead := (ed_dead e')[x := True]\<rparr>) uses work (value_ops f x) = Some (e1, uses1, work1)"
          "dce_edit f e e1 (changes + 1)" "dce_uses f e e1 uses1 work1" "ed_dead e1 = (ed_dead e')[x := True]"
        using dce_step_inv [OF Cons.prems False assms(3)] by blast
      have "x < length (fn_insts f)" "length (ed_dead e') = length (fn_insts f)"
        using Cons.prems by (auto simp: dce_uses_def dce_edit_def edit_ok_def)
      then have "alive_count f (ed_dead e1) < alive_count f (ed_dead e')"
        using alive_count_kill False s(4) by simp
      then have "\<exists>e2 c uses2. dce_loop f e1 uses1 work1 (changes + 1) = Some (e2, c) \<and> dce_edit f e e2 c \<and> dce_uses f e e2 uses2 []"
        using less.hyps s(2,3) by blast
      then show ?thesis using False s(1) by (subst dce_loop.simps) simp
    qed
  qed
qed

text \<open>When nothing is left to do, every useless instruction is dead.\<close>

lemma useless_killed:
  assumes "useless f e x" "dce_edit f e e' c" "dce_uses f e e' uses []"
  shows "ed_dead e' ! x"
  using assms(1)
proof induction
  case (1 x)
  show ?case
  proof (rule ccontr)
    assume alive: "\<not> ed_dead e' ! x"
    then have "live_uses f (edit_value e) (ed_dead e') x \<noteq> 0" using assms(3) 1(1,3) by (auto simp: dce_uses_def)
    then obtain i where i: "i < length (fn_insts f)" "\<not> ed_dead e' ! i" "x \<in> edit_value e ` set (value_ops f i)"
      by (auto simp: live_uses_0)
    then have "\<not> ed_dead e ! i" using assms(2) by (auto simp: dce_edit_def)
    then show False using 1(4) i by blast
  qed
qed

text \<open>
  C16: Removing dead code always ends. It kills exactly the useless instructions, those that may go and are
  used, through the replacements of the edit, by useless instructions only, however long the chains; the
  substitution of the edit stays, no instruction left uses one it killed, and the answer is how many it
  killed.
\<close>

theorem dce_kills_useless:
  assumes "edit_ok e" "ed_ninsts e = length (fn_insts f)" "operands_in f"
  shows "\<exists>e' c. limba_pass_dce f e = Some (e', c) \<and> edit_ok e' \<and> edit_value e' = edit_value e \<and>
    (\<forall>x < length (fn_insts f). ed_dead e' ! x \<longleftrightarrow> ed_dead e ! x \<or> useless f e x) \<and>
    (\<forall>i < length (fn_insts f). \<not> ed_dead e' ! i \<longrightarrow> (\<forall>p \<in> set (value_ops f i). \<not> useless f e (edit_value e p))) \<and>
    c = card {x. useless f e x}"
proof -
  let ?n = "length (fn_insts f)"
  have lt: "\<forall>i \<in> set [0 ..< ?n]. \<forall>p \<in> set (value_ops f i). edit_value e p < length (replicate (?n + 1) (0 :: nat))"
    using edit_value_lt [OF assms(1)] assms(2,3) by (auto simp: operands_in_def intro: less_SucI)
  obtain e1 uses where c: "count_uses f e (replicate (?n + 1) 0) [0 ..< ?n] = Some (e1, uses)" "same_edit e e1" "length uses = ?n + 1"
      "\<forall>x < ?n + 1. uses ! x = (\<Sum>i | i \<in> set [0 ..< ?n] \<and> \<not> ed_dead e ! i. uses_of f (edit_value e) i x)"
    using count_uses_spec [OF assms(1) distinct_upt lt] by (auto simp del: replicate_Suc)
  let ?work = "rev (filter (\<lambda>i. \<not> ed_dead e1 ! i \<and> uses ! i = 0 \<and> removable (fn_insts f ! i)) [0 ..< ?n])"
  have s: "edit_ok e1" "edit_value e1 = edit_value e" "ed_dead e1 = ed_dead e" "ed_dead_block e1 = ed_dead_block e" "ed_ninsts e1 = ?n"
      "ed_nblocks e1 = ed_nblocks e"
    using c(2) assms(2) by (simp_all add: same_edit_def)
  have start: "dce_edit f e e1 0" using s by (simp add: dce_edit_def killed_def)
  have "dce_uses f e e1 uses ?work" using c(3,4) s(3) by (auto simp: dce_uses_def live_uses_def)
  from dce_loop_spec [OF start this assms(3)] obtain e2 k uses2 where r: "dce_loop f e1 uses ?work 0 = Some (e2, k)"
      "dce_edit f e e2 k" "dce_uses f e e2 uses2 []" by blast
  have dead: "ed_dead e2 ! x \<longleftrightarrow> ed_dead e ! x \<or> useless f e x" if "x < ?n" for x
    using useless_killed [OF _ r(2,3)] r(2) that by (auto simp: dce_edit_def killed_def)
  have "{x. useless f e x} = killed f e e2" using useless_killed [OF _ r(2,3)] r(2)
    by (auto simp: killed_def dce_edit_def elim: useless.cases)
  then have "k = card {x. useless f e x}" using r(2) by (simp add: dce_edit_def)
  moreover have "\<not> useless f e (edit_value e p)" if "i < ?n" "\<not> ed_dead e2 ! i" "p \<in> set (value_ops f i)" for i p
    using that dead [OF that(1)] by (auto elim: useless.cases)
  moreover have "limba_pass_dce f e = Some (e2, k)"
    using c(1) r(1) by (simp add: limba_pass_dce_def Let_def del: replicate_Suc)
  ultimately show ?thesis using r(2) dead by (intro exI [of _ e2] exI [of _ k]) (simp add: dce_edit_def)
qed

text \<open>Two constants and their sum, of which the first constant is returned.\<close>

definition dead_sample :: limba_func where
  "dead_sample = edit_sample\<lparr>fn_operands := [0, 1, 0]\<rparr>"

lemma dead_sample_ops:
  "length (fn_insts dead_sample) = 4" "value_ops dead_sample 0 = []" "value_ops dead_sample 1 = []"
  "value_ops dead_sample 2 = [0, 1]" "value_ops dead_sample 3 = [0]"
proof -
  show n: "length (fn_insts dead_sample) = 4" by (simp add: dead_sample_def edit_sample_def)
  have only: "limba_only_values (fn_insts dead_sample ! x)" if "x < 4" for x
    using that unfolding less_four by (auto simp: limba_only_values_def dead_sample_def edit_sample_def edit_inst_of_def)
  show "value_ops dead_sample 0 = []" "value_ops dead_sample 1 = []"
    using only by (simp_all add: value_ops_only) (simp_all add: dead_sample_def edit_sample_def edit_inst_of_def)
  show "value_ops dead_sample 2 = [0, 1]" "value_ops dead_sample 3 = [0]"
    using only by (simp_all add: value_ops_only)
      (simp_all add: dead_sample_def edit_sample_def edit_inst_of_def operand_def upt_rec numeral_2_eq_2)
qed

lemma dead_sample_in: "operands_in dead_sample"
  unfolding operands_in_def dead_sample_ops(1) less_four using dead_sample_ops by auto

lemma dead_sample_useless: "useless dead_sample (limba_edit_begin dead_sample) 2" "useless dead_sample (limba_edit_begin dead_sample) 1"
proof -
  let ?e = "limba_edit_begin dead_sample"
  have rem: "removable (fn_insts dead_sample ! 1)" "removable (fn_insts dead_sample ! 2)"
    by (simp_all add: removable_def dead_sample_def edit_sample_def edit_inst_of_def)
  have dead: "\<not> ed_dead ?e ! 1" "\<not> ed_dead ?e ! 2" by (simp_all add: limba_edit_begin_def dead_sample_ops(1))
  show two: "useless dead_sample ?e 2"
  proof (rule useless.intros [OF _ dead(2) rem(2)])
    show "\<forall>i < length (fn_insts dead_sample). \<not> ed_dead ?e ! i \<longrightarrow> 2 \<in> edit_value ?e ` set (value_ops dead_sample i) \<longrightarrow>
        useless dead_sample ?e i"
      unfolding dead_sample_ops(1) less_four using dead_sample_ops by (auto simp: edit_begin_ok)
  qed (simp add: dead_sample_ops)
  show "useless dead_sample ?e 1"
  proof (rule useless.intros [OF _ dead(1) rem(1)])
    show "\<forall>i < length (fn_insts dead_sample). \<not> ed_dead ?e ! i \<longrightarrow> 1 \<in> edit_value ?e ` set (value_ops dead_sample i) \<longrightarrow>
        useless dead_sample ?e i"
      unfolding dead_sample_ops(1) less_four using dead_sample_ops two by (auto simp: edit_begin_ok)
  qed (simp add: dead_sample_ops)
qed

theorem dce_kills_useless_witness:
  "\<exists>e' c. limba_pass_dce dead_sample (limba_edit_begin dead_sample) = Some (e', c) \<and> ed_dead e' ! 2 \<and> ed_dead e' ! 1 \<and> \<not> ed_dead e' ! 3"
proof -
  have "ed_ninsts (limba_edit_begin dead_sample) = length (fn_insts dead_sample)" by (simp add: limba_edit_begin_def)
  moreover have "\<not> useless dead_sample (limba_edit_begin dead_sample) 3"
    by (auto elim!: useless.cases simp: removable_def dead_sample_def edit_sample_def edit_inst_of_def)
  moreover have "\<not> ed_dead (limba_edit_begin dead_sample) ! 3" by (simp add: limba_edit_begin_def dead_sample_ops(1))
  ultimately show ?thesis
    using dce_kills_useless [OF edit_begin_ok(1) _ dead_sample_in] dead_sample_useless dead_sample_ops(1) by fastforce
qed

end
