(* ===== verification/Ieee.thy ===== *)
theory Ieee
  imports Prelude Complex_Main "HOL-Library.Log_Nat"
begin

text \<open>
  The floating point of C as the sources use it: \<^verbatim>\<open>float\<close> and \<^verbatim>\<open>double\<close> are the formats binary32 and
  binary64 of IEEE 754, with every operation correctly rounded to nearest, ties to even, in its own
  precision. A value is its bits; an operation decodes them, computes exactly over the rationals and
  encodes the result. Which NaN an operation gives is left open: it is a parameter of the operations
  whose result can be one, and every operation makes of it the bits of a NaN.
\<close>

unbundle bit_operations_syntax

section \<open>Values\<close>

text \<open>A finite value is its sign and its magnitude: zero has both signs.\<close>

datatype fval = FNAN | FINF bool | FFIN bool rat

definition sval :: "bool \<Rightarrow> rat \<Rightarrow> rat" where
  "sval s m = (if s then - m else m)"

fun fv_neg :: "fval \<Rightarrow> fval" where
  "fv_neg FNAN = FNAN"
| "fv_neg (FINF s) = FINF (\<not> s)"
| "fv_neg (FFIN s m) = FFIN (\<not> s) m"

text \<open>An exact sum that is zero is negative only when both terms are.\<close>

fun fv_add :: "fval \<Rightarrow> fval \<Rightarrow> fval" where
  "fv_add (FFIN s a) (FFIN t b) =
     (let r = sval s a + sval t b in if r = 0 then FFIN (s \<and> t) 0 else FFIN (r < 0) \<bar>r\<bar>)"
| "fv_add (FINF s) (FINF t) = (if s = t then FINF s else FNAN)"
| "fv_add (FINF s) (FFIN t b) = FINF s"
| "fv_add (FFIN s a) (FINF t) = FINF t"
| "fv_add FNAN y = FNAN"
| "fv_add x FNAN = FNAN"

fun fv_mul :: "fval \<Rightarrow> fval \<Rightarrow> fval" where
  "fv_mul (FFIN s a) (FFIN t b) = FFIN (s \<noteq> t) (a * b)"
| "fv_mul (FINF s) (FINF t) = FINF (s \<noteq> t)"
| "fv_mul (FINF s) (FFIN t b) = (if b = 0 then FNAN else FINF (s \<noteq> t))"
| "fv_mul (FFIN s a) (FINF t) = (if a = 0 then FNAN else FINF (s \<noteq> t))"
| "fv_mul FNAN y = FNAN"
| "fv_mul x FNAN = FNAN"

fun fv_div :: "fval \<Rightarrow> fval \<Rightarrow> fval" where
  "fv_div (FFIN s a) (FFIN t b) =
     (if b = 0 then (if a = 0 then FNAN else FINF (s \<noteq> t)) else FFIN (s \<noteq> t) (a / b))"
| "fv_div (FINF s) (FINF t) = FNAN"
| "fv_div (FINF s) (FFIN t b) = FINF (s \<noteq> t)"
| "fv_div (FFIN s a) (FINF t) = FFIN (s \<noteq> t) 0"
| "fv_div FNAN y = FNAN"
| "fv_div x FNAN = FNAN"

definition fv_fma :: "fval \<Rightarrow> fval \<Rightarrow> fval \<Rightarrow> fval" where
  "fv_fma x y z = fv_add (fv_mul x y) z"

text \<open>Rounding the magnitude to an integer: toward zero, to nearest with ties to even, with ties away from zero.\<close>

definition round_even :: "rat \<Rightarrow> int" where
  "round_even x = (let n = \<lfloor>x\<rfloor>; d = x - of_int n in if d < 1 / 2 \<or> d = 1 / 2 \<and> even n then n else n + 1)"

definition round_up :: "rat \<Rightarrow> int" where
  "round_up x = \<lfloor>x + 1 / 2\<rfloor>"

fun fv_integral :: "(rat \<Rightarrow> int) \<Rightarrow> fval \<Rightarrow> fval" where
  "fv_integral r FNAN = FNAN"
| "fv_integral r (FINF s) = FINF s"
| "fv_integral r (FFIN s m) = FFIN s (of_int (r m))"

fun fv_less :: "fval \<Rightarrow> fval \<Rightarrow> bool" where
  "fv_less (FFIN s a) (FFIN t b) = (sval s a < sval t b)"
| "fv_less (FINF s) (FINF t) = (s \<and> \<not> t)"
| "fv_less (FINF s) (FFIN t b) = s"
| "fv_less (FFIN s a) (FINF t) = (\<not> t)"
| "fv_less FNAN y = False"
| "fv_less x FNAN = False"

fun fv_eq :: "fval \<Rightarrow> fval \<Rightarrow> bool" where
  "fv_eq (FFIN s a) (FFIN t b) = (sval s a = sval t b)"
| "fv_eq (FINF s) (FINF t) = (s = t)"
| "fv_eq x y = False"

definition fv_of_int :: "int \<Rightarrow> fval" where
  "fv_of_int i = FFIN (i < 0) (of_int \<bar>i\<bar>)"

section \<open>Formats\<close>

text \<open>
  A format has \<open>ff_prec\<close> bits of precision and \<open>ff_exp\<close> of exponent. Every finite magnitude is a multiple
  of \<open>1 / 2 ^ ff_scale\<close>, the smallest positive one: the magnitude times \<open>2 ^ ff_scale\<close> is written
  \<open>q * 2 ^ e\<close> with \<open>q < 2 ^ ff_prec\<close>, and the bits are \<open>e * 2 ^ (ff_prec - 1) + q\<close>: the carry of a rounding
  goes into the exponent by itself.
\<close>

record float_format =
  ff_prec :: nat
  ff_exp :: nat

definition binary32 :: float_format where
  "binary32 = \<lparr>ff_prec = 24, ff_exp = 8\<rparr>"

definition binary64 :: float_format where
  "binary64 = \<lparr>ff_prec = 53, ff_exp = 11\<rparr>"

definition ff_scale :: "float_format \<Rightarrow> nat" where
  "ff_scale F = 2 ^ (ff_exp F - 1) + ff_prec F - 3"

definition ff_inf :: "float_format \<Rightarrow> nat" where
  "ff_inf F = (2 ^ ff_exp F - 1) * 2 ^ (ff_prec F - 1)"

definition ff_sign :: "float_format \<Rightarrow> nat" where
  "ff_sign F = 2 ^ (ff_exp F + ff_prec F - 1)"

definition decode_mag :: "float_format \<Rightarrow> nat \<Rightarrow> rat" where
  "decode_mag F b =
     (let M = b mod 2 ^ (ff_prec F - 1); E = b div 2 ^ (ff_prec F - 1);
          w = (if E = 0 then M else (2 ^ (ff_prec F - 1) + M) * 2 ^ (E - 1))
      in of_nat w / 2 ^ ff_scale F)"

definition decode :: "float_format \<Rightarrow> nat \<Rightarrow> fval" where
  "decode F b =
     (let s = b \<ge> ff_sign F; m = b mod ff_sign F
      in if m = ff_inf F then FINF s else if m > ff_inf F then FNAN else FFIN s (decode_mag F m))"

definition encode_mag :: "float_format \<Rightarrow> rat \<Rightarrow> nat" where
  "encode_mag F m =
     (let u = m * 2 ^ ff_scale F; e = nat (bitlen \<lfloor>u\<rfloor> - int (ff_prec F)); q = nat (round_even (u / 2 ^ e))
      in min (ff_inf F) (e * 2 ^ (ff_prec F - 1) + q))"

text \<open>The bits of a NaN: those given, with the exponent and the bit of a quiet NaN set.\<close>

definition encode :: "float_format \<Rightarrow> nat \<Rightarrow> fval \<Rightarrow> nat" where
  "encode F nan v =
     (case v of
        FNAN \<Rightarrow> nan OR (ff_inf F + 2 ^ (ff_prec F - 2))
      | FINF s \<Rightarrow> (if s then ff_sign F else 0) + ff_inf F
      | FFIN s m \<Rightarrow> (if s then ff_sign F else 0) + encode_mag F m)"

text \<open>What a format holds exactly.\<close>

definition exact :: "float_format \<Rightarrow> rat \<Rightarrow> bool" where
  "exact F m \<longleftrightarrow> (\<exists>q k. m * 2 ^ ff_scale F = of_nat (q * 2 ^ k) \<and> q < 2 ^ ff_prec F \<and> k + 2 < 2 ^ ff_exp F)"

definition format_ok :: "float_format \<Rightarrow> bool" where
  "format_ok F \<longleftrightarrow> 2 \<le> ff_prec F \<and> 2 \<le> ff_exp F"

lemma formats_ok [simp]: "format_ok binary32" "format_ok binary64"
  by (simp_all add: format_ok_def binary32_def binary64_def)

lemma round_even_int [simp]: "round_even (of_int n) = n"
  by (simp add: round_even_def)

lemma round_even_nat [simp]: "round_even (of_nat n) = int n"
  using round_even_int [of "int n"] by simp

text \<open>The bits of a whole number of units \<open>w = q * 2 ^ e\<close>, and what they decode to.\<close>

lemma nat_power_less: "int w < 2 ^ n \<longleftrightarrow> w < 2 ^ n" "2 ^ n \<le> int w \<longleftrightarrow> 2 ^ n \<le> w"
  by (metis of_nat_less_iff of_nat_numeral of_nat_power) (metis of_nat_le_iff of_nat_numeral of_nat_power)

lemma unit_exponent:
  assumes w: "w = q * 2 ^ k" "q < 2 ^ p" and e: "e = nat (bitlen (int w) - int p)" and p: "0 < p"
  shows "e \<le> k" "2 ^ e dvd w" "w div 2 ^ e < 2 ^ p" "0 < e \<Longrightarrow> 2 ^ (p - 1) \<le> w div 2 ^ e"
proof -
  have "w < 2 ^ (p + k)" using w by (simp add: power_add)
  then have "bitlen (int w) \<le> int (p + k)" by (simp add: bitlen_le_iff_power nat_power_less nat_int_add)
  then show le: "e \<le> k" using e by simp
  show "2 ^ e dvd w" using w(1) le by (simp add: le_imp_power_dvd)
  have "int w < 2 ^ nat (bitlen (int w))" using bitlen_bounds [of "int w"] by (cases "w = 0") auto
  also have "\<dots> \<le> 2 ^ (p + e)" using e by (intro power_increasing) auto
  finally have "w < 2 ^ (p + e)" by (simp add: nat_power_less)
  then show "w div 2 ^ e < 2 ^ p" by (simp add: less_mult_imp_div_less power_add)
  assume "0 < e"
  then have b: "bitlen (int w) = int (p + e)" "0 < w" using e by (auto intro: ccontr)
  have n: "nat (int (p + e) - 1) = (p - 1) + e" using p by linarith
  have "2 ^ nat (bitlen (int w) - 1) \<le> int w" using bitlen_bounds [of "int w"] b(2) by simp
  then have "2 ^ ((p - 1) + e) \<le> w" unfolding b(1) n nat_power_less .
  then show "2 ^ (p - 1) \<le> w div 2 ^ e"
    using div_le_mono [of "2 ^ (p - 1) * 2 ^ e" w "2 ^ e"] by (simp add: power_add)
qed

lemma encode_mag_units:
  assumes "format_ok F" "m * 2 ^ ff_scale F = of_nat w" "w = q * 2 ^ k" "q < 2 ^ ff_prec F"
  shows "encode_mag F m = min (ff_inf F) (nat (bitlen (int w) - int (ff_prec F)) * 2 ^ (ff_prec F - 1) + w div 2 ^ nat (bitlen (int w) - int (ff_prec F)))"
proof -
  let ?e = "nat (bitlen (int w) - int (ff_prec F))"
  have p: "0 < ff_prec F" using assms(1) by (simp add: format_ok_def)
  note u = unit_exponent [OF assms(3,4) refl p]
  have fl: "\<lfloor>m * 2 ^ ff_scale F\<rfloor> = int w" unfolding assms(2) by simp
  obtain c where c: "w = 2 ^ ?e * c" using u(2) by blast
  have "of_nat w = (of_nat (2 ^ ?e * c) :: rat)" using c by (rule arg_cong)
  moreover have "w div 2 ^ ?e = c" using c by (metis nonzero_mult_div_cancel_left power_not_zero zero_neq_numeral)
  ultimately have "of_nat w / 2 ^ ?e = (of_nat (w div 2 ^ ?e) :: rat)" by simp
  then have "round_even (of_nat w / 2 ^ ?e) = int (w div 2 ^ ?e)" by simp
  then show ?thesis by (simp add: encode_mag_def Let_def fl assms(2))
qed

lemma decode_mag_fields:
  assumes "M < 2 ^ (ff_prec F - 1)"
  shows "decode_mag F (E * 2 ^ (ff_prec F - 1) + M) =
    of_nat (if E = 0 then M else (2 ^ (ff_prec F - 1) + M) * 2 ^ (E - 1)) / 2 ^ ff_scale F"
proof -
  have "(E * 2 ^ (ff_prec F - 1) + M) mod 2 ^ (ff_prec F - 1) = M" "(E * 2 ^ (ff_prec F - 1) + M) div 2 ^ (ff_prec F - 1) = E"
    using assms by simp_all
  then show ?thesis by (simp only: decode_mag_def Let_def)
qed

lemma decode_encode_mag:
  assumes F: "format_ok F" and m: "exact F m"
  shows "encode_mag F m < ff_inf F" "decode_mag F (encode_mag F m) = m"
proof -
  let ?p = "ff_prec F" and ?P = "2 ^ (ff_prec F - 1) :: nat"
  obtain q k where w: "m * 2 ^ ff_scale F = of_nat (q * 2 ^ k)" "q < 2 ^ ?p" "k + 2 < 2 ^ ff_exp F"
    using m by (auto simp: exact_def)
  let ?w = "q * 2 ^ k" and ?e = "nat (bitlen (int (q * 2 ^ k)) - int ?p)"
  have p: "0 < ?p" "2 ^ ?p = 2 * ?P" using F by (simp_all add: format_ok_def power_Suc [symmetric])
  note u = unit_exponent [of ?w q k, OF refl w(2) refl p(1)]
  let ?r = "?w div 2 ^ ?e"
  have r: "?r < 2 * ?P" using u(3) p(2) by simp
  have "?e * ?P + ?r < (?e + 2) * ?P" using r by simp
  also have "\<dots> \<le> (2 ^ ff_exp F - 1) * ?P" using u(1) w(3) by (intro mult_le_mono1) linarith
  finally have lt: "?e * ?P + ?r < ff_inf F" by (simp add: ff_inf_def)
  have enc: "encode_mag F m = ?e * ?P + ?r" using encode_mag_units [OF F w(1) refl w(2)] lt by simp
  show "encode_mag F m < ff_inf F" using enc lt by simp
  have whole: "?r * 2 ^ ?e = ?w" using u(2) by simp
  have val: "m = of_nat ?w / 2 ^ ff_scale F" using w(1) by (simp add: field_simps)
  show "decode_mag F (encode_mag F m) = m"
  proof (cases "?r < ?P")
    case True
    then have "?e = 0" using u(4) by (cases "?e = 0") simp_all
    then have "decode_mag F (encode_mag F m) = of_nat ?r / 2 ^ ff_scale F"
      using decode_mag_fields [OF True, of 0] by (simp only: enc if_True refl)
    moreover have "?r = ?w" using whole \<open>?e = 0\<close> by (simp only: power_0 mult_1_right)
    ultimately show ?thesis using val by (simp only:)
  next
    case False
    then have s: "?e * ?P + ?r = (?e + 1) * ?P + (?r - ?P)" and low: "?r - ?P < ?P" using r by (simp_all add: algebra_simps)
    have "decode_mag F (encode_mag F m) = of_nat ((?P + (?r - ?P)) * 2 ^ (?e + 1 - 1)) / 2 ^ ff_scale F"
      unfolding enc s decode_mag_fields [OF low] by (simp only: add_is_0 one_neq_zero if_False simp_thms)
    moreover have "?P + (?r - ?P) = ?r" "?e + 1 - 1 = ?e" using False by simp_all
    ultimately show ?thesis using whole val by (simp only:)
  qed
qed

lemma exact_decode_mag:
  assumes "format_ok F" "b < ff_inf F"
  shows "exact F (decode_mag F b)"
proof -
  let ?P = "2 ^ (ff_prec F - 1) :: nat"
  let ?M = "b mod ?P" and ?E = "b div ?P"
  have p: "2 ^ ff_prec F = 2 * ?P" "4 \<le> (2 :: nat) ^ ff_exp F"
    using assms(1) power_increasing [of 2 "ff_exp F" "2 :: nat"] by (simp_all add: format_ok_def power_Suc [symmetric])
  have M: "?M < 2 * ?P" "?M < ?P" by (simp_all add: trans_less_add1 mult_2)
  have E: "?E < 2 ^ ff_exp F - 1" using assms(2) by (simp add: ff_inf_def less_mult_imp_div_less)
  show ?thesis
  proof (cases "?E = 0")
    case True
    then show ?thesis using M p unfolding exact_def decode_mag_def Let_def
      by (rule_tac x = ?M in exI, rule_tac x = 0 in exI) simp
  next
    case False
    then show ?thesis using M p E unfolding exact_def decode_mag_def Let_def
      by (rule_tac x = "?P + ?M" in exI, rule_tac x = "?E - 1" in exI) (simp; linarith)
  qed
qed

text \<open>A sum of two numbers of fields decodes and encodes to itself.\<close>

lemma encode_decode_mag:
  assumes F: "format_ok F" and b: "b < ff_inf F"
  shows "encode_mag F (decode_mag F b) = b"
proof -
  let ?p = "ff_prec F"
  let ?P = "2 ^ (?p - 1) :: nat"
  let ?M = "b mod ?P" and ?E = "b div ?P"
  have p: "0 < ?p" "2 ^ ?p = 2 * ?P" using F by (simp_all add: format_ok_def power_Suc [symmetric])
  have M: "?M < ?P" by simp
  have fields: "b = ?E * ?P + ?M" by (rule div_mult_mod_eq [symmetric])
  show ?thesis
  proof (cases "?E = 0")
    case True
    then have bM: "b = ?M" using fields by simp
    have u: "decode_mag F b * 2 ^ ff_scale F = of_nat b" using decode_mag_fields [OF M, of 0] True fields by simp
    have lt: "b < 2 ^ ?p" "b < 2 ^ (?p - 1)" using M bM p(2) by linarith+
    have "bitlen (int b) \<le> int (?p - 1)" using lt(2) by (simp add: bitlen_le_iff_power nat_power_less)
    then have "nat (bitlen (int b) - int ?p) = 0" by simp
    then show ?thesis using encode_mag_units [OF F u, of b 0] lt(1) b by simp
  next
    case False
    let ?q = "?P + ?M" and ?k = "?E - 1"
    have q: "?q < 2 ^ ?p" using M p(2) by linarith
    have u: "decode_mag F b * 2 ^ ff_scale F = of_nat (?q * 2 ^ ?k)"
      using decode_mag_fields [OF M, of ?E] False fields by (simp only: if_False) (simp add: field_simps)
    have "?q * 2 ^ ?k < 2 ^ (?p + ?k)" using q by (simp add: power_add)
    then have "bitlen (int (?q * 2 ^ ?k)) \<le> int (?p + ?k)" by (simp only: bitlen_le_iff_power nat_power_less nat_int of_nat_0_le_iff simp_thms)
    moreover have "2 ^ (?p - 1 + ?k) \<le> ?q * 2 ^ ?k" by (simp add: power_add)
    then have "int (?p - 1 + ?k + 1) \<le> bitlen (int (?q * 2 ^ ?k))"
      by (simp only: bitlen_ge_iff_power nat_power_less nat_int add_diff_cancel_right' simp_thms)
    ultimately have e: "nat (bitlen (int (?q * 2 ^ ?k)) - int ?p) = ?k" using p(1) by linarith
    have "encode_mag F (decode_mag F b) = min (ff_inf F) (?k * ?P + ?q * 2 ^ ?k div 2 ^ ?k)"
      using encode_mag_units [OF F u refl q] unfolding e .
    also have "?k * ?P + ?q * 2 ^ ?k div 2 ^ ?k = (?k + 1) * ?P + ?M" by simp
    also have "(?k + 1) * ?P + ?M = b" using False fields by (metis Suc_diff_1 Suc_eq_plus1 neq0_conv)
    finally show ?thesis using b by simp
  qed
qed

lemma ff_bounds: "format_ok F \<Longrightarrow> ff_inf F < ff_sign F" "format_ok F \<Longrightarrow> ff_inf F + 2 ^ (ff_prec F - 2) < ff_sign F"
proof -
  assume F: "format_ok F"
  have s: "ff_sign F = (2 ^ ff_exp F - 1) * 2 ^ (ff_prec F - 1) + 2 ^ (ff_prec F - 1)"
  proof -
    have "ff_exp F + ff_prec F - 1 = ff_exp F + (ff_prec F - 1)" using F by (simp add: format_ok_def)
    then show ?thesis by (simp add: ff_sign_def power_add algebra_simps)
  qed
  have "ff_prec F - 2 < ff_prec F - 1" using F unfolding format_ok_def by linarith
  then have "(2 :: nat) ^ (ff_prec F - 2) < 2 ^ (ff_prec F - 1)" by (rule power_strict_increasing) simp
  then show "ff_inf F + 2 ^ (ff_prec F - 2) < ff_sign F" by (simp add: s ff_inf_def)
  then show "ff_inf F < ff_sign F" by simp
qed

lemma encode_mag_le: "encode_mag F m \<le> ff_inf F"
  by (simp add: encode_mag_def Let_def)

lemma decode_split:
  assumes "m < ff_sign F"
  shows "decode F ((if s then ff_sign F else 0) + m) =
    (if m = ff_inf F then FINF s else if m > ff_inf F then FNAN else FFIN s (decode_mag F m))"
  using assms by (simp add: decode_def Let_def)

lemma decode_encode:
  assumes F: "format_ok F"
  shows "decode F (encode F nan (FINF s)) = FINF s"
    "exact F m \<Longrightarrow> decode F (encode F nan (FFIN s m)) = FFIN s m"
    "decode F (encode F nan (FFIN s m)) \<noteq> FNAN"
  using decode_split [of "ff_inf F" F s] decode_split [of "encode_mag F m" F s] ff_bounds [OF F] encode_mag_le [of F m]
    decode_encode_mag [OF F, of m]
  by (auto simp: encode_def)

lemma encode_decode:
  assumes F: "format_ok F" and b: "b < 2 * ff_sign F" "decode F b \<noteq> FNAN"
  shows "encode F nan (decode F b) = b"
proof -
  let ?s = "b \<ge> ff_sign F" and ?m = "b mod ff_sign F"
  have m: "?m < ff_sign F" using ff_bounds [OF F] by simp
  have split: "b = (if ?s then ff_sign F else 0) + ?m" using b(1) by (auto simp: le_mod_geq)
  show ?thesis
    using decode_split [OF m, of ?s] b(2) encode_decode_mag [OF F, of ?m] split
    by (auto simp: encode_def split: if_splits)
qed

lemma nat_or_ge: "(y :: nat) \<le> x OR y"
proof -
  have "int y \<le> int (y OR x)" unfolding of_nat_or_eq by (rule or_greater_eq) simp
  then show ?thesis by (simp add: or.commute)
qed

lemma decode_nan:
  assumes F: "format_ok F"
  shows "decode F (encode F nan FNAN) = FNAN"
proof -
  let ?q = "ff_inf F + 2 ^ (ff_prec F - 2)"
  let ?b = "nan OR ?q"
  have k: "ff_sign F = 2 ^ (ff_exp F + ff_prec F - 1)" by (simp add: ff_sign_def)
  have "?b mod ff_sign F = take_bit (ff_exp F + ff_prec F - 1) nan OR take_bit (ff_exp F + ff_prec F - 1) ?q"
    unfolding k by (simp add: take_bit_eq_mod [symmetric] take_bit_or)
  also have "take_bit (ff_exp F + ff_prec F - 1) ?q = ?q" using ff_bounds(2) [OF F] k by (simp add: take_bit_eq_mod)
  finally have "?b mod ff_sign F = take_bit (ff_exp F + ff_prec F - 1) nan OR ?q" .
  then have m: "?q \<le> ?b mod ff_sign F" using nat_or_ge by metis
  then have "ff_inf F < ?b mod ff_sign F" using less_le_trans [of "ff_inf F" ?q] by simp
  then show ?thesis by (simp add: decode_def encode_def Let_def)
qed

section \<open>The types of C\<close>

definition dec32 :: "u32 \<Rightarrow> fval" where
  "dec32 f = decode binary32 (unat f)"

definition dec64 :: "u64 \<Rightarrow> fval" where
  "dec64 d = decode binary64 (unat d)"

definition enc32 :: "u64 \<Rightarrow> fval \<Rightarrow> u32" where
  "enc32 nan v = of_nat (encode binary32 (unat (ucast nan :: u32)) v)"

definition enc64 :: "u64 \<Rightarrow> fval \<Rightarrow> u64" where
  "enc64 nan v = of_nat (encode binary64 (unat nan) v)"

text \<open>The casts \<^verbatim>\<open>(double)f\<close> and \<^verbatim>\<open>(float)d\<close>, and \<^verbatim>\<open>isnan\<close>.\<close>

definition widen :: "u64 \<Rightarrow> u32 \<Rightarrow> u64" where
  "widen nan f = enc64 nan (dec32 f)"

definition narrow :: "u64 \<Rightarrow> u64 \<Rightarrow> u32" where
  "narrow nan d = enc32 nan (dec64 d)"

definition isnan :: "u64 \<Rightarrow> bool" where
  "isnan d \<longleftrightarrow> dec64 d = FNAN"

definition isinf :: "u64 \<Rightarrow> bool" where
  "isinf d \<longleftrightarrow> (case dec64 d of FINF s \<Rightarrow> True | _ \<Rightarrow> False)"

definition isnanf :: "u32 \<Rightarrow> bool" where
  "isnanf f \<longleftrightarrow> dec32 f = FNAN"

definition isinff :: "u32 \<Rightarrow> bool" where
  "isinff f \<longleftrightarrow> (case dec32 f of FINF s \<Rightarrow> True | _ \<Rightarrow> False)"

text \<open>Arithmetic in the two precisions.\<close>

definition d_add :: "u64 \<Rightarrow> u64 \<Rightarrow> u64 \<Rightarrow> u64" where "d_add nan x y = enc64 nan (fv_add (dec64 x) (dec64 y))"
definition d_sub :: "u64 \<Rightarrow> u64 \<Rightarrow> u64 \<Rightarrow> u64" where "d_sub nan x y = enc64 nan (fv_add (dec64 x) (fv_neg (dec64 y)))"
definition d_mul :: "u64 \<Rightarrow> u64 \<Rightarrow> u64 \<Rightarrow> u64" where "d_mul nan x y = enc64 nan (fv_mul (dec64 x) (dec64 y))"
definition d_div :: "u64 \<Rightarrow> u64 \<Rightarrow> u64 \<Rightarrow> u64" where "d_div nan x y = enc64 nan (fv_div (dec64 x) (dec64 y))"
definition d_fma :: "u64 \<Rightarrow> u64 \<Rightarrow> u64 \<Rightarrow> u64 \<Rightarrow> u64" where "d_fma nan x y z = enc64 nan (fv_fma (dec64 x) (dec64 y) (dec64 z))"
definition d_neg :: "u64 \<Rightarrow> u64" where "d_neg x = x XOR 0x8000000000000000"
definition d_abs :: "u64 \<Rightarrow> u64" where "d_abs x = take_bit 63 x"
definition d_copysign :: "u64 \<Rightarrow> u64 \<Rightarrow> u64" where
  "d_copysign x y = push_bit 63 (drop_bit 63 y) OR take_bit 63 x"
definition d_roundeven :: "u64 \<Rightarrow> u64 \<Rightarrow> u64" where "d_roundeven nan x = enc64 nan (fv_integral round_even (dec64 x))"
definition d_round :: "u64 \<Rightarrow> u64 \<Rightarrow> u64" where "d_round nan x = enc64 nan (fv_integral round_up (dec64 x))"
definition d_trunc :: "u64 \<Rightarrow> u64 \<Rightarrow> u64" where "d_trunc nan x = enc64 nan (fv_integral floor (dec64 x))"

definition f_add :: "u64 \<Rightarrow> u32 \<Rightarrow> u32 \<Rightarrow> u32" where "f_add nan x y = enc32 nan (fv_add (dec32 x) (dec32 y))"
definition f_sub :: "u64 \<Rightarrow> u32 \<Rightarrow> u32 \<Rightarrow> u32" where "f_sub nan x y = enc32 nan (fv_add (dec32 x) (fv_neg (dec32 y)))"
definition f_mul :: "u64 \<Rightarrow> u32 \<Rightarrow> u32 \<Rightarrow> u32" where "f_mul nan x y = enc32 nan (fv_mul (dec32 x) (dec32 y))"
definition f_div :: "u64 \<Rightarrow> u32 \<Rightarrow> u32 \<Rightarrow> u32" where "f_div nan x y = enc32 nan (fv_div (dec32 x) (dec32 y))"
definition f_fma :: "u64 \<Rightarrow> u32 \<Rightarrow> u32 \<Rightarrow> u32 \<Rightarrow> u32" where "f_fma nan x y z = enc32 nan (fv_fma (dec32 x) (dec32 y) (dec32 z))"
definition f_neg :: "u32 \<Rightarrow> u32" where "f_neg x = x XOR 0x80000000"
definition f_abs :: "u32 \<Rightarrow> u32" where "f_abs x = take_bit 31 x"
definition f_copysign :: "u32 \<Rightarrow> u32 \<Rightarrow> u32" where "f_copysign x y = push_bit 31 (drop_bit 31 y) OR take_bit 31 x"
definition f_roundeven :: "u64 \<Rightarrow> u32 \<Rightarrow> u32" where "f_roundeven nan x = enc32 nan (fv_integral round_even (dec32 x))"
definition f_round :: "u64 \<Rightarrow> u32 \<Rightarrow> u32" where "f_round nan x = enc32 nan (fv_integral round_up (dec32 x))"
definition f_trunc :: "u64 \<Rightarrow> u32 \<Rightarrow> u32" where "f_trunc nan x = enc32 nan (fv_integral floor (dec32 x))"

text \<open>Comparisons, the casts from the integers and to them, and \<^verbatim>\<open>ldexp(1.0, k)\<close>.\<close>

definition d_less :: "u64 \<Rightarrow> u64 \<Rightarrow> bool" where "d_less x y \<longleftrightarrow> fv_less (dec64 x) (dec64 y)"
definition d_eq :: "u64 \<Rightarrow> u64 \<Rightarrow> bool" where "d_eq x y \<longleftrightarrow> fv_eq (dec64 x) (dec64 y)"
definition d_le :: "u64 \<Rightarrow> u64 \<Rightarrow> bool" where "d_le x y \<longleftrightarrow> d_less x y \<or> d_eq x y"
definition f_less :: "u32 \<Rightarrow> u32 \<Rightarrow> bool" where "f_less x y \<longleftrightarrow> fv_less (dec32 x) (dec32 y)"
definition f_eq :: "u32 \<Rightarrow> u32 \<Rightarrow> bool" where "f_eq x y \<longleftrightarrow> fv_eq (dec32 x) (dec32 y)"
definition f_le :: "u32 \<Rightarrow> u32 \<Rightarrow> bool" where "f_le x y \<longleftrightarrow> f_less x y \<or> f_eq x y"

definition d_of_int :: "int \<Rightarrow> u64" where "d_of_int i = enc64 0 (fv_of_int i)"
definition f_of_int :: "int \<Rightarrow> u32" where "f_of_int i = enc32 0 (fv_of_int i)"

definition d_pow2 :: "nat \<Rightarrow> u64" where "d_pow2 k = enc64 0 (FFIN False (2 ^ k))"

text \<open>A cast to an integer drops the fraction; a value out of the range of the type is not defined by C, here 0.\<close>

definition d_to_int :: "u64 \<Rightarrow> int" where
  "d_to_int x = (case dec64 x of FFIN s m \<Rightarrow> (if s then - \<lfloor>m\<rfloor> else \<lfloor>m\<rfloor>) | _ \<Rightarrow> 0)"

section \<open>The casts between the two precisions\<close>

lemma binary_sizes: "2 * ff_sign binary32 = 2 ^ 32" "2 * ff_sign binary64 = 2 ^ 64"
  by (simp_all add: ff_sign_def binary32_def binary64_def)

lemma encode_less:
  assumes "format_ok F" "nan < 2 * ff_sign F"
  shows "encode F nan v < 2 * ff_sign F"
proof (cases v)
  case FNAN
  have k: "2 * ff_sign F = 2 ^ (ff_exp F + ff_prec F)" using assms(1) by (simp add: ff_sign_def format_ok_def power_Suc [symmetric])
  have q: "ff_inf F + 2 ^ (ff_prec F - 2) < 2 ^ (ff_exp F + ff_prec F)" using ff_bounds(2) [OF assms(1)] k by simp
  have "take_bit (ff_exp F + ff_prec F) (nan OR (ff_inf F + 2 ^ (ff_prec F - 2))) = nan OR (ff_inf F + 2 ^ (ff_prec F - 2))"
    using assms(2) q unfolding k take_bit_or by (simp only: take_bit_nat_eq_self)
  then show ?thesis using FNAN unfolding k by (metis encode_def fval.case(1) take_bit_nat_less_exp)
next
  case (FFIN s m)
  have "encode_mag F m < ff_sign F" using encode_mag_le [of F m] ff_bounds(1) [OF assms(1)] by simp
  then show ?thesis using FFIN by (simp add: encode_def)
qed (use ff_bounds(1) [OF assms(1)] in \<open>simp add: encode_def\<close>)

lemma unat_enc: "unat (enc32 nan v) = encode binary32 (unat (ucast nan :: u32)) v" "unat (enc64 nan v) = encode binary64 (unat nan) v"
proof -
  have "encode binary32 (unat (ucast nan :: u32)) v < 2 ^ 32" "encode binary64 (unat nan) v < 2 ^ 64"
    using encode_less [of binary32 "unat (ucast nan :: u32)" v] encode_less [of binary64 "unat nan" v]
      unat_u32_lt [of "ucast nan"] unat_u64_lt [of nan] by (simp_all add: binary_sizes)
  then show "unat (enc32 nan v) = encode binary32 (unat (ucast nan :: u32)) v" "unat (enc64 nan v) = encode binary64 (unat nan) v"
    by (simp_all add: enc32_def enc64_def unat_of_nat take_bit_nat_eq_self)
qed

lemma dec_enc32:
  "dec32 (enc32 nan FNAN) = FNAN" "dec32 (enc32 nan (FINF s)) = FINF s"
  "exact binary32 m \<Longrightarrow> dec32 (enc32 nan (FFIN s m)) = FFIN s m" "dec32 (enc32 nan (FFIN s m)) \<noteq> FNAN"
  by (simp_all add: dec32_def unat_enc decode_nan decode_encode)

lemma dec_enc64:
  "dec64 (enc64 nan FNAN) = FNAN" "dec64 (enc64 nan (FINF s)) = FINF s"
  "exact binary64 m \<Longrightarrow> dec64 (enc64 nan (FFIN s m)) = FFIN s m" "dec64 (enc64 nan (FFIN s m)) \<noteq> FNAN"
  by (simp_all add: dec64_def unat_enc decode_nan decode_encode)

lemma enc_dec32: "dec32 f \<noteq> FNAN \<Longrightarrow> enc32 nan (dec32 f) = f"
  using encode_decode [of binary32 "unat f"] unat_u32_lt [of f] by (simp add: dec32_def enc32_def binary_sizes)

lemma enc_dec64: "dec64 d \<noteq> FNAN \<Longrightarrow> enc64 nan (dec64 d) = d"
  using encode_decode [of binary64 "unat d"] unat_u64_lt [of d] by (simp add: dec64_def enc64_def binary_sizes)

lemma dec_exact:
  "dec32 f = FFIN s m \<Longrightarrow> exact binary32 m" "dec64 d = FFIN s m \<Longrightarrow> exact binary64 m"
  using exact_decode_mag [of binary32] exact_decode_mag [of binary64]
  by (auto simp: dec32_def dec64_def decode_def Let_def split: if_splits)

lemma exact_widen:
  assumes "exact binary32 m"
  shows "exact binary64 m"
proof -
  obtain q k where w: "m * 2 ^ 149 = of_nat (q * 2 ^ k)" "q < 2 ^ 24" "k + 2 < 2 ^ 8"
    using assms by (auto simp: exact_def binary32_def ff_scale_def)
  have "m * 2 ^ 1074 = m * 2 ^ 149 * 2 ^ 925" by (simp only: mult.assoc power_add [symmetric]) simp
  also have "\<dots> = of_nat (q * 2 ^ (k + 925))" unfolding w(1) by (simp only: of_nat_mult of_nat_power power_add mult.assoc of_nat_numeral)
  finally have "m * 2 ^ ff_scale binary64 = of_nat (q * 2 ^ (k + 925))" by (simp add: binary64_def ff_scale_def)
  moreover have "q < 2 ^ ff_prec binary64" using w(2) by (simp add: binary64_def)
  moreover have "k + 925 + 2 < 2 ^ ff_exp binary64" using w(3) by (simp add: binary64_def)
  ultimately show ?thesis unfolding exact_def by blast
qed

text \<open>A double holds every float: narrowing what was widened gives the float back, unless it is a NaN.\<close>

lemma dec_widen: "dec64 (widen nan f) = dec32 f"
proof (cases "dec32 f")
  case (FFIN s m)
  then show ?thesis using dec_enc64(3) [OF exact_widen [OF dec_exact(1)]] by (simp add: widen_def)
qed (simp_all add: widen_def dec_enc64)

lemma narrow_widen: "\<not> isnanf f \<Longrightarrow> narrow nan (widen nan' f) = f"
  by (simp add: narrow_def dec_widen isnanf_def enc_dec32)

lemma isnan_widen [simp]: "isnan (widen nan f) \<longleftrightarrow> isnanf f"
  by (simp add: isnan_def isnanf_def dec_widen)

section \<open>Integral values and their neighbours are exact\<close>

lemma scale_ok: "ff_scale binary32 + 2 < 2 ^ ff_exp binary32" "ff_scale binary64 + 2 < 2 ^ ff_exp binary64"
  by (simp_all add: ff_scale_def binary32_def binary64_def)

lemma exact_0 [simp]: "format_ok F \<Longrightarrow> exact F 0"
proof -
  assume "format_ok F"
  then have "(2 :: nat) ^ 2 \<le> 2 ^ ff_exp F" by (intro power_increasing) (simp_all add: format_ok_def)
  then show ?thesis unfolding exact_def by (rule_tac x = 0 in exI, rule_tac x = 0 in exI) simp
qed

lemma exact_nat: "ff_scale F + 2 < 2 ^ ff_exp F \<Longrightarrow> n < 2 ^ ff_prec F \<Longrightarrow> exact F (of_nat n)"
  unfolding exact_def by (rule_tac x = n in exI, rule_tac x = "ff_scale F" in exI) simp

text \<open>An exact value is an integer, or a fraction with fewer bits before the point than the precision.\<close>

lemma exact_cases:
  assumes "exact F m"
  obtains (int) i where "m = of_nat i"
    | (frac) q k j where "ff_scale F = k + Suc j" "m = of_nat q / 2 ^ Suc j" "q < 2 ^ ff_prec F" "k + 2 < 2 ^ ff_exp F"
proof -
  obtain q k where w: "m * 2 ^ ff_scale F = of_nat (q * 2 ^ k)" "q < 2 ^ ff_prec F" "k + 2 < 2 ^ ff_exp F"
    using assms by (auto simp: exact_def)
  show ?thesis
  proof (cases "ff_scale F \<le> k")
    case True
    then obtain d where k: "k = ff_scale F + d" using le_Suc_ex by blast
    have "m * 2 ^ ff_scale F = of_nat (q * 2 ^ d) * 2 ^ ff_scale F" using w(1) unfolding k by (simp add: power_add mult.commute mult.left_commute)
    then have "m = of_nat (q * 2 ^ d)" by simp
    then show ?thesis by (rule int)
  next
    case False
    then obtain j where j: "ff_scale F = k + Suc j" by (metis add_Suc_right less_imp_Suc_add not_le)
    have "m = of_nat q / 2 ^ Suc j" using w(1) unfolding j by (simp add: power_add field_simps)
    then show ?thesis using frac j w by blast
  qed
qed

lemma floor_quotient: "\<lfloor>of_nat q / (2 :: rat) ^ j\<rfloor> = int (q div 2 ^ j)"
  using floor_divide_of_nat_eq [of q "2 ^ j", where ?'a = rat] by simp

lemma exact_floor:
  assumes F: "ff_scale F + 2 < 2 ^ ff_exp F" and m: "exact F m"
  shows "exact F (of_int \<lfloor>m\<rfloor>)"
  using m
proof (cases rule: exact_cases)
  case (int i)
  then show ?thesis using m by simp
next
  case (frac q k j)
  have "q div 2 ^ Suc j < 2 ^ ff_prec F" using frac(3) div_le_dividend le_less_trans by blast
  then show ?thesis using exact_nat [OF F] unfolding frac(2) floor_quotient by (simp only: of_int_of_nat_eq)
qed

lemma exact_frac:
  assumes F: "format_ok F" and m: "exact F m"
  shows "exact F (m - of_int \<lfloor>m\<rfloor>)"
  using m
proof (cases rule: exact_cases)
  case (int i)
  then show ?thesis using F by simp
next
  case (frac q k j)
  have "of_nat q = (of_nat (q div 2 ^ Suc j * 2 ^ Suc j + q mod 2 ^ Suc j) :: rat)" by (simp only: div_mult_mod_eq)
  then have "of_nat q = (of_nat (q div 2 ^ Suc j) * 2 ^ Suc j + of_nat (q mod 2 ^ Suc j) :: rat)"
    by (simp only: of_nat_add of_nat_mult of_nat_power of_nat_numeral)
  then have "m - of_int \<lfloor>m\<rfloor> = of_nat (q mod 2 ^ Suc j) / 2 ^ Suc j"
    unfolding frac(2) floor_quotient by (simp add: field_simps del: power_Suc)
  then have "(m - of_int \<lfloor>m\<rfloor>) * 2 ^ ff_scale F = of_nat (q mod 2 ^ Suc j * 2 ^ k)"
    unfolding frac(1) by (simp only: power_add) (simp add: mult.commute del: power_Suc)
  moreover have "q mod 2 ^ Suc j < 2 ^ ff_prec F" using frac(3) mod_less_eq_dividend le_less_trans by blast
  ultimately show ?thesis using frac(4) unfolding exact_def by blast
qed

lemma exact_floor_Suc:
  assumes F: "format_ok F" "ff_scale F + 2 < 2 ^ ff_exp F" and m: "exact F m" "m \<noteq> of_int \<lfloor>m\<rfloor>"
  shows "exact F (of_int \<lfloor>m\<rfloor> + 1)"
  using m(1)
proof (cases rule: exact_cases)
  case (int i)
  then show ?thesis using m(2) by simp
next
  case (frac q k j)
  have "1 \<le> ff_prec F - 1" using F(1) unfolding format_ok_def by linarith
  then have "(2 :: nat) ^ 1 \<le> 2 ^ (ff_prec F - 1)" by (rule power_increasing) simp
  then have p: "2 ^ ff_prec F = 2 * (2 :: nat) ^ (ff_prec F - 1)" "2 \<le> (2 :: nat) ^ (ff_prec F - 1)"
    using F(1) by (simp_all add: format_ok_def power_Suc [symmetric])
  have "q div 2 ^ Suc j \<le> q div 2" by (simp add: div_le_mono2)
  also have "q div 2 < 2 ^ (ff_prec F - 1)" using frac(3) p(1) by linarith
  finally have "q div 2 ^ Suc j + 1 < 2 ^ ff_prec F" using p by linarith
  from exact_nat [OF F(2) this] show ?thesis unfolding frac(2) floor_quotient by (simp only: of_nat_add of_nat_1 of_int_of_nat_eq)
qed

lemma fv_sub_less: "0 < a - b \<Longrightarrow> fv_add (FFIN s a) (fv_neg (FFIN s b)) = FFIN s (a - b)"
  by (auto simp: sval_def Let_def)

lemma fv_add_one: "0 \<le> f \<Longrightarrow> fv_add (FFIN s f) (FFIN s 1) = FFIN s (f + 1)"
  by (auto simp: sval_def Let_def)

text \<open>The rounding away from zero by the integer part: the steps on values, all of them exact.\<close>

lemma away_steps:
  assumes "0 \<le> m"
  shows "fv_add (FFIN s m) (fv_neg (FFIN s (of_int \<lfloor>m\<rfloor>))) =
      (if m = of_int \<lfloor>m\<rfloor> then FFIN False 0 else FFIN s (m - of_int \<lfloor>m\<rfloor>))"
    "fv_add (FFIN s (of_int \<lfloor>m\<rfloor>)) (FFIN s 1) = FFIN s (of_int \<lfloor>m\<rfloor> + 1)"
    "round_up m = (if 1 / 2 \<le> m - of_int \<lfloor>m\<rfloor> then \<lfloor>m\<rfloor> + 1 else \<lfloor>m\<rfloor>)"
proof -
  have "0 \<le> \<lfloor>m\<rfloor>" using assms by simp
  then have f0: "0 \<le> (of_int \<lfloor>m\<rfloor> :: rat)" by (simp only: of_int_0_le_iff)
  show "fv_add (FFIN s m) (fv_neg (FFIN s (of_int \<lfloor>m\<rfloor>))) =
      (if m = of_int \<lfloor>m\<rfloor> then FFIN False 0 else FFIN s (m - of_int \<lfloor>m\<rfloor>))"
  proof (cases "m = of_int \<lfloor>m\<rfloor>")
    case True
    then have m: "of_int \<lfloor>m\<rfloor> = m" by (rule sym)
    have "sval s m + sval (\<not> s) m = 0" by (simp add: sval_def)
    then show ?thesis by (simp only: m fv_neg.simps fv_add.simps Let_def if_True refl) simp
  next
    case False
    then have "0 < m - of_int \<lfloor>m\<rfloor>" using of_int_floor_le [of m] by linarith
    then show ?thesis unfolding if_not_P [OF False] by (rule fv_sub_less)
  qed
  show "fv_add (FFIN s (of_int \<lfloor>m\<rfloor>)) (FFIN s 1) = FFIN s (of_int \<lfloor>m\<rfloor> + 1)"
    using f0 by (rule fv_add_one)
  show "round_up m = (if 1 / 2 \<le> m - of_int \<lfloor>m\<rfloor> then \<lfloor>m\<rfloor> + 1 else \<lfloor>m\<rfloor>)"
  proof (cases "1 / 2 \<le> m - of_int \<lfloor>m\<rfloor>")
    case True
    have "m < of_int \<lfloor>m\<rfloor> + 1" by linarith
    then have "\<lfloor>m + 1 / 2\<rfloor> = \<lfloor>m\<rfloor> + 1" using True by (intro floor_unique) simp_all
    then show ?thesis using True by (simp add: round_up_def)
  next
    case False
    then have "\<lfloor>m + 1 / 2\<rfloor> = \<lfloor>m\<rfloor>" using of_int_floor_le [of m] by (intro floor_unique) (simp_all, linarith)
    then show ?thesis using False by (simp add: round_up_def)
  qed
qed

lemma enc_finite: "enc64 nan (FFIN s m) = enc64 nan' (FFIN s m)" "enc32 nan (FFIN s m) = enc32 nan' (FFIN s m)"
  by (simp_all add: enc64_def enc32_def encode_def)

section \<open>Rounding away from zero by the integer part\<close>

text \<open>A constant of the source, written exactly.\<close>

definition d_const :: "rat \<Rightarrow> u64" where "d_const r = enc64 0 (FFIN False r)"
definition f_const :: "rat \<Rightarrow> u32" where "f_const r = enc32 0 (FFIN False r)"

lemma exact_consts: "exact binary32 1" "exact binary64 1" "exact binary32 (1 / 2)" "exact binary64 (1 / 2)"
proof -
  show "exact binary32 1" "exact binary64 1"
    using exact_nat [OF scale_ok(1), of 1] exact_nat [OF scale_ok(2), of 1] by (simp_all add: binary32_def binary64_def)
  have "(1 / 2) * 2 ^ ff_scale binary32 = (of_nat (1 * 2 ^ 148) :: rat)" "148 + 2 < (2 :: nat) ^ ff_exp binary32"
    "(1 / 2) * 2 ^ ff_scale binary64 = (of_nat (1 * 2 ^ 1073) :: rat)" "1073 + 2 < (2 :: nat) ^ ff_exp binary64"
    "1 < (2 :: nat) ^ ff_prec binary32" "1 < (2 :: nat) ^ ff_prec binary64"
    by (simp_all add: binary32_def binary64_def ff_scale_def)
  then show "exact binary32 (1 / 2)" "exact binary64 (1 / 2)" unfolding exact_def by blast+
qed

lemma decode_sign: "decode F b = FFIN s m \<Longrightarrow> s \<longleftrightarrow> ff_sign F \<le> b"
  by (auto simp: decode_def Let_def split: if_splits)

lemma decode_nonneg: "decode F b = FFIN s m \<Longrightarrow> 0 \<le> m"
  by (auto simp: decode_def decode_mag_def Let_def split: if_splits)

lemma unat_abs: "unat (d_abs x) = unat x mod 2 ^ 63" "unat (f_abs y) = unat y mod 2 ^ 31"
  unfolding d_abs_def f_abs_def unsigned_take_bit_eq by (rule take_bit_eq_mod)+

lemma unat_copysign:
  "unat (d_copysign x y) = (if 2 ^ 63 \<le> unat y then 2 ^ 63 else 0) + unat x mod 2 ^ 63"
  "unat (f_copysign u v) = (if 2 ^ 31 \<le> unat v then 2 ^ 31 else 0) + unat u mod 2 ^ 31"
proof -
  have top: "n div k = (if k \<le> n then 1 else 0)" if "n < 2 * k" for n k :: nat
    using that by (auto simp: div_nat_eqI le_div_geq)
  have a: "unat (take_bit 63 x) < 2 ^ 63" "unat (take_bit 31 u) < 2 ^ 31" by (simp_all only: unsigned_take_bit_eq take_bit_nat_less_exp)
  have b: "unat (drop_bit 63 y) = (if 2 ^ 63 \<le> unat y then 1 else 0)" "unat (drop_bit 31 v) = (if 2 ^ 31 \<le> unat v then 1 else 0)"
    unfolding unat_drop_bit by (rule top; simp)+
  have c: "unat (drop_bit 63 y) * 2 ^ 63 < 2 ^ LENGTH(64)" "unat (drop_bit 31 v) * 2 ^ 31 < 2 ^ LENGTH(32)"
    unfolding b by simp_all
  show "unat (d_copysign x y) = (if 2 ^ 63 \<le> unat y then 2 ^ 63 else 0) + unat x mod 2 ^ 63"
    unfolding d_copysign_def or.commute [of "push_bit 63 (drop_bit 63 y)"] unat_or_push [OF a(1) c(1)] b
    by (simp add: unsigned_take_bit_eq take_bit_eq_mod [of _ "unat _"])
  show "unat (f_copysign u v) = (if 2 ^ 31 \<le> unat v then 2 ^ 31 else 0) + unat u mod 2 ^ 31"
    unfolding f_copysign_def or.commute [of "push_bit 31 (drop_bit 31 v)"] unat_or_push [OF a(2) c(2)] b
    by (simp add: unsigned_take_bit_eq take_bit_eq_mod [of _ "unat _"])
qed

text \<open>What the two operations do to a finite value.\<close>

lemma ff_signs: "ff_sign binary32 = 2 ^ 31" "ff_sign binary64 = 2 ^ 63"
  by (simp_all add: ff_sign_def binary32_def binary64_def)

lemma decode_abs:
  assumes "decode F b = FFIN s m" "0 < ff_sign F"
  shows "decode F (b mod ff_sign F) = FFIN False m"
proof -
  have "\<not> ff_sign F \<le> b mod ff_sign F" using assms(2) by (simp add: not_le)
  then show ?thesis using assms(1) by (auto simp: decode_def Let_def split: if_splits)
qed

lemma dec_abs: "dec64 x = FFIN s m \<Longrightarrow> dec64 (d_abs x) = FFIN False m" "dec32 y = FFIN s m \<Longrightarrow> dec32 (f_abs y) = FFIN False m"
  using decode_abs [of binary64 "unat x" s m] decode_abs [of binary32 "unat y" s m]
  by (simp_all only: dec64_def dec32_def unat_abs ff_signs) simp_all

lemma decode_copysign:
  assumes "decode F b = FFIN s m" "0 < ff_sign F"
  shows "decode F ((if t then ff_sign F else 0) + b mod ff_sign F) = FFIN t m"
  using decode_split [of "b mod ff_sign F" F t] decode_split [of "b mod ff_sign F" F False] decode_abs [OF assms] assms(2)
  by (auto split: if_splits)

lemma dec_copysign:
  "dec64 x = FFIN s m \<Longrightarrow> dec64 y = FFIN t k \<Longrightarrow> dec64 (d_copysign x y) = FFIN t m"
  "dec32 u = FFIN s m \<Longrightarrow> dec32 v = FFIN t k \<Longrightarrow> dec32 (f_copysign u v) = FFIN t m"
  using decode_copysign [of binary64 "unat x" s m t] decode_copysign [of binary32 "unat u" s m t]
    decode_sign [of binary64 "unat y" t k] decode_sign [of binary32 "unat v" t k]
  by (simp_all only: dec64_def dec32_def unat_copysign ff_signs) simp_all

text \<open>So the rounding written from the integer part is the rounding away from zero, but for NaN and infinities.\<close>

lemma d_round_away:
  assumes x: "dec64 x = FFIN s m" and t: "t = d_trunc nan x" and d: "d = d_sub nan' x t"
  shows "(if d_le (d_const (1 / 2)) (d_abs d) then d_add nan'' t (d_copysign (d_const 1) x) else t) = d_round nan x"
proof -
  have m: "exact binary64 m" "0 \<le> m" using dec_exact(2) [OF x] decode_nonneg x by (auto simp: dec64_def)
  have dt: "dec64 t = FFIN s (of_int \<lfloor>m\<rfloor>)"
    using dec_enc64(3) [OF exact_floor [OF scale_ok(2) m(1)]] by (simp add: t d_trunc_def x)
  have "dec64 d = (if m = of_int \<lfloor>m\<rfloor> then FFIN False 0 else FFIN s (m - of_int \<lfloor>m\<rfloor>))"
    unfolding d d_sub_def x dt away_steps(1) [OF m(2)]
    using dec_enc64(3) [OF exact_frac [OF formats_ok(2) m(1)]] dec_enc64(3) [OF exact_0 [OF formats_ok(2)]] by simp
  then have dd: "\<exists>s'. dec64 d = FFIN s' (m - of_int \<lfloor>m\<rfloor>)" by (metis diff_eq_eq add_0)
  then obtain s' where "dec64 (d_abs d) = FFIN False (m - of_int \<lfloor>m\<rfloor>)" using dec_abs(1) by blast
  then have le: "d_le (d_const (1 / 2)) (d_abs d) \<longleftrightarrow> 1 / 2 \<le> m - of_int \<lfloor>m\<rfloor>"
    by (auto simp: d_le_def d_less_def d_eq_def d_const_def dec_enc64(3) [OF exact_consts(4)] sval_def)
  have cs: "dec64 (d_copysign (d_const 1) x) = FFIN s 1"
    using dec_copysign(1) [OF _ x, of "d_const 1" False 1] dec_enc64(3) [OF exact_consts(2)] by (simp add: d_const_def)
  show ?thesis
    unfolding le using cs dt enc_finite(1) [of nan'' _ _ nan] by (simp add: d_round_def x d_add_def away_steps(2,3) [OF m(2)] t d_trunc_def del: fv_neg.simps fv_add.simps)
qed

lemma f_round_away:
  assumes x: "dec32 x = FFIN s m" and t: "t = f_trunc nan x" and d: "d = f_sub nan' x t"
  shows "(if f_le (f_const (1 / 2)) (f_abs d) then f_add nan'' t (f_copysign (f_const 1) x) else t) = f_round nan x"
proof -
  have m: "exact binary32 m" "0 \<le> m" using dec_exact(1) [OF x] decode_nonneg x by (auto simp: dec32_def)
  have dt: "dec32 t = FFIN s (of_int \<lfloor>m\<rfloor>)"
    using dec_enc32(3) [OF exact_floor [OF scale_ok(1) m(1)]] by (simp add: t f_trunc_def x)
  have "dec32 d = (if m = of_int \<lfloor>m\<rfloor> then FFIN False 0 else FFIN s (m - of_int \<lfloor>m\<rfloor>))"
    unfolding d f_sub_def x dt away_steps(1) [OF m(2)]
    using dec_enc32(3) [OF exact_frac [OF formats_ok(1) m(1)]] dec_enc32(3) [OF exact_0 [OF formats_ok(1)]] by simp
  then have dd: "\<exists>s'. dec32 d = FFIN s' (m - of_int \<lfloor>m\<rfloor>)" by (metis diff_eq_eq add_0)
  then obtain s' where "dec32 (f_abs d) = FFIN False (m - of_int \<lfloor>m\<rfloor>)" using dec_abs(2) by blast
  then have le: "f_le (f_const (1 / 2)) (f_abs d) \<longleftrightarrow> 1 / 2 \<le> m - of_int \<lfloor>m\<rfloor>"
    by (auto simp: f_le_def f_less_def f_eq_def f_const_def dec_enc32(3) [OF exact_consts(3)] sval_def)
  have cs: "dec32 (f_copysign (f_const 1) x) = FFIN s 1"
    using dec_copysign(2) [OF _ x, of "f_const 1" False 1] dec_enc32(3) [OF exact_consts(1)] by (simp add: f_const_def)
  show ?thesis
    unfolding le using cs dt enc_finite(2) [of nan'' _ _ nan] by (simp add: f_round_def x f_add_def away_steps(2,3) [OF m(2)] t f_trunc_def del: fv_neg.simps fv_add.simps)
qed

end
