(* ===== verification/Evalnum.thy ===== *)
theory Evalnum
  imports Ieee Edit "HOL-Library.Signed_Division"
begin

text \<open>
  The numbers of the reference evaluator: the operations of \<^verbatim>\<open>src/src/eval/eval.c\<close> on integers and
  floats and its execution of the instructions that only compute a value, with the call of the
  mathematics of \<^verbatim>\<open>src/src/common/math.c\<close>. A value is 64 bits: an integer in its canonical form, a
  float its bits. A trap is a value of the result; which NaN an arithmetic gives is the parameter
  \<open>nan\<close>, and the functions of the C library of mathematics are the parameter \<open>libm\<close>.
\<close>

unbundle bit_operations_syntax

section \<open>Numbers\<close>

definition norm :: "u64 \<Rightarrow> limba_id \<Rightarrow> u64" where
  "norm v t = limba_int_norm v t"

definition width_mask :: "limba_id \<Rightarrow> u64" where
  "width_mask t = (let bits = limba_type_bits t in if bits \<ge> 64 \<or> bits = 0 then NOT 0 else push_bit bits 1 - 1)"

definition uv :: "u64 \<Rightarrow> limba_id \<Rightarrow> u64" where
  "uv v t = v AND width_mask t"

text \<open>A double is its bits, so \<^verbatim>\<open>memcpy\<close> between the two is the identity; a float is 32 of them.\<close>

definition dv :: "u64 \<Rightarrow> u64" where
  "dv v = v"

definition fv32 :: "u64 \<Rightarrow> u32" where
  "fv32 v = ucast v"

definition f32bits :: "u32 \<Rightarrow> u64" where
  "f32bits f = ucast f"

definition fnum :: "u64 \<Rightarrow> u64 \<Rightarrow> limba_id \<Rightarrow> u64" where
  "fnum nan v t = (if t = LIMBA_T_F32 then widen nan (fv32 v) else dv v)"

definition fbits :: "u64 \<Rightarrow> u64 \<Rightarrow> limba_id \<Rightarrow> u64" where
  "fbits nan d t = (if t = LIMBA_T_F32 then f32bits (narrow nan d) else d)"

section \<open>Operations\<close>

text \<open>What an instruction gives: a value, a trap with its code, or an operation the evaluator does not know.\<close>

datatype eval_result = EV_VALUE u64 | EV_TRAP int | EV_UNKNOWN

text \<open>The canonical form of the smallest signed value of \<open>t\<close>, as a number.\<close>

definition int_min :: "limba_id \<Rightarrow> int" where
  "int_min t = (let bits = limba_type_bits t in if bits \<ge> 64 then - (2 ^ 63) else - (2 ^ (bits - 1)))"

definition int_bin :: "limba_op \<Rightarrow> limba_id \<Rightarrow> u64 \<Rightarrow> u64 \<Rightarrow> eval_result" where
  "int_bin oper t a b =
     (let bits = limba_type_bits t; sa = sint a; sb = sint b; ua = uv a t; ub = uv b t; smin = int_min t;
          value = (\<lambda>r. EV_VALUE (norm r t));
          signed = (\<lambda>w. if w < smin \<or> w > - smin - 1 then EV_TRAP LIMBA_TRAP_OVERFLOW else value (word_of_int w));
          x = int (unat ua); y = int (unat ub);
          top = (if bits \<ge> 64 then 2 ^ 64 - 1 else 2 ^ bits - 1)
      in case oper of
        LIMBA_OP_ADD \<Rightarrow> value (ua + ub)
      | LIMBA_OP_SUB \<Rightarrow> value (ua - ub)
      | LIMBA_OP_MUL \<Rightarrow> value (ua * ub)
      | LIMBA_OP_AND \<Rightarrow> value (a AND b)
      | LIMBA_OP_OR \<Rightarrow> value (a OR b)
      | LIMBA_OP_XOR \<Rightarrow> value (a XOR b)
      | LIMBA_OP_SHL \<Rightarrow> value (push_bit (unat ub mod bits) ua)
      | LIMBA_OP_LSHR \<Rightarrow> value (drop_bit (unat ub mod bits) ua)
      | LIMBA_OP_ASHR \<Rightarrow> value (signed_drop_bit (unat ub mod bits) a)
      | LIMBA_OP_UDIV \<Rightarrow> if ub = 0 then EV_TRAP LIMBA_TRAP_DIVZERO else value (ua div ub)
      | LIMBA_OP_UREM \<Rightarrow> if ub = 0 then EV_TRAP LIMBA_TRAP_DIVZERO else value (ua mod ub)
      | LIMBA_OP_SDIV \<Rightarrow> if sb = 0 \<or> sa = smin \<and> sb = - 1 then EV_TRAP LIMBA_TRAP_DIVZERO else value (word_of_int (sa sdiv sb))
      | LIMBA_OP_SREM \<Rightarrow> if sb = 0 \<or> sa = smin \<and> sb = - 1 then EV_TRAP LIMBA_TRAP_DIVZERO else value (word_of_int (sa smod sb))
      | LIMBA_OP_ADDOV \<Rightarrow> signed (sa + sb)
      | LIMBA_OP_SUBOV \<Rightarrow> signed (sa - sb)
      | LIMBA_OP_MULOV \<Rightarrow> signed (sa * sb)
      | LIMBA_OP_USUBOV \<Rightarrow> if x < y then EV_TRAP LIMBA_TRAP_OVERFLOW else value (word_of_int (x - y))
      | LIMBA_OP_UADDOV \<Rightarrow> if x + y > top then EV_TRAP LIMBA_TRAP_OVERFLOW else value (word_of_int (x + y))
      | LIMBA_OP_UMULOV \<Rightarrow> if x * y > top then EV_TRAP LIMBA_TRAP_OVERFLOW else value (word_of_int (x * y))
      | _ \<Rightarrow> EV_UNKNOWN)"

definition round_away :: "u64 \<Rightarrow> u64 \<Rightarrow> u64" where
  "round_away nan x =
     (let t = d_trunc nan x; d = d_sub nan x t
      in if isnan x \<or> isinf x then x
         else if d_le (d_const (1 / 2)) (d_abs d) then d_add nan t (d_copysign (d_const 1) x) else t)"

definition round_awayf :: "u64 \<Rightarrow> u32 \<Rightarrow> u32" where
  "round_awayf nan x =
     (let t = f_trunc nan x; d = f_sub nan x t
      in if isnanf x \<or> isinff x then x
         else if f_le (f_const (1 / 2)) (f_abs d) then f_add nan t (f_copysign (f_const 1) x) else t)"

definition float_op :: "u64 \<Rightarrow> limba_op \<Rightarrow> limba_id \<Rightarrow> u64 \<Rightarrow> u64 \<Rightarrow> u64 \<Rightarrow> u64" where
  "float_op nan oper t a b c =
     (if t = LIMBA_T_F32
      then let x = fv32 a; y = fv32 b; z = fv32 c
        in case oper of
          LIMBA_OP_FADD \<Rightarrow> f32bits (f_add nan x y)
        | LIMBA_OP_FSUB \<Rightarrow> f32bits (f_sub nan x y)
        | LIMBA_OP_FMUL \<Rightarrow> f32bits (f_mul nan x y)
        | LIMBA_OP_FDIV \<Rightarrow> f32bits (f_div nan x y)
        | LIMBA_OP_FNEG \<Rightarrow> a XOR 0x80000000
        | LIMBA_OP_FROUND \<Rightarrow> f32bits (f_roundeven nan x)
        | LIMBA_OP_FROUNDA \<Rightarrow> f32bits (round_awayf nan x)
        | LIMBA_OP_FMA \<Rightarrow> f32bits (f_fma nan x y z)
        | _ \<Rightarrow> f32bits 0
      else let x = dv a; y = dv b; z = dv c
        in case oper of
          LIMBA_OP_FADD \<Rightarrow> fbits nan (d_add nan x y) t
        | LIMBA_OP_FSUB \<Rightarrow> fbits nan (d_sub nan x y) t
        | LIMBA_OP_FMUL \<Rightarrow> fbits nan (d_mul nan x y) t
        | LIMBA_OP_FDIV \<Rightarrow> fbits nan (d_div nan x y) t
        | LIMBA_OP_FNEG \<Rightarrow> fbits nan (d_neg x) t
        | LIMBA_OP_FROUND \<Rightarrow> fbits nan (d_roundeven nan x) t
        | LIMBA_OP_FROUNDA \<Rightarrow> fbits nan (round_away nan x) t
        | LIMBA_OP_FMA \<Rightarrow> fbits nan (d_fma nan x y z) t
        | _ \<Rightarrow> fbits nan 0 t)"

definition compare_float :: "limba_cc \<Rightarrow> u64 \<Rightarrow> u64 \<Rightarrow> bool" where
  "compare_float cc x y =
     (let u = isnan x \<or> isnan y
      in case cc of
        LIMBA_CC_OEQ \<Rightarrow> \<not> u \<and> d_eq x y
      | LIMBA_CC_ONE \<Rightarrow> \<not> u \<and> \<not> d_eq x y
      | LIMBA_CC_OLT \<Rightarrow> \<not> u \<and> d_less x y
      | LIMBA_CC_OLE \<Rightarrow> \<not> u \<and> d_le x y
      | LIMBA_CC_OGT \<Rightarrow> \<not> u \<and> d_less y x
      | LIMBA_CC_OGE \<Rightarrow> \<not> u \<and> d_le y x
      | LIMBA_CC_ORD \<Rightarrow> \<not> u
      | LIMBA_CC_UNO \<Rightarrow> u
      | LIMBA_CC_UEQ \<Rightarrow> u \<or> d_eq x y
      | LIMBA_CC_UNE \<Rightarrow> u \<or> \<not> d_eq x y
      | LIMBA_CC_FULT \<Rightarrow> u \<or> d_less x y
      | LIMBA_CC_FULE \<Rightarrow> u \<or> d_le x y
      | LIMBA_CC_FUGT \<Rightarrow> u \<or> d_less y x
      | _ \<Rightarrow> u \<or> d_le y x)"

definition compare_int :: "limba_cc \<Rightarrow> limba_id \<Rightarrow> u64 \<Rightarrow> u64 \<Rightarrow> bool" where
  "compare_int cc t a b =
     (let sa = sint a; sb = sint b; ua = uv a t; ub = uv b t
      in case cc of
        LIMBA_CC_EQ \<Rightarrow> a = b
      | LIMBA_CC_NE \<Rightarrow> a \<noteq> b
      | LIMBA_CC_SLT \<Rightarrow> sa < sb
      | LIMBA_CC_SLE \<Rightarrow> sa \<le> sb
      | LIMBA_CC_SGT \<Rightarrow> sa > sb
      | LIMBA_CC_SGE \<Rightarrow> sa \<ge> sb
      | LIMBA_CC_ULT \<Rightarrow> ua < ub
      | LIMBA_CC_ULE \<Rightarrow> ua \<le> ub
      | LIMBA_CC_UGT \<Rightarrow> ua > ub
      | _ \<Rightarrow> ua \<ge> ub)"

definition compare :: "u64 \<Rightarrow> limba_cc \<Rightarrow> limba_id \<Rightarrow> u64 \<Rightarrow> u64 \<Rightarrow> bool" where
  "compare nan cc t a b =
     (if limba_cc_is_float cc then compare_float cc (fnum nan a t) (fnum nan b t) else compare_int cc t a b)"

definition convert :: "u64 \<Rightarrow> limba_op \<Rightarrow> limba_id \<Rightarrow> limba_id \<Rightarrow> u64 \<Rightarrow> eval_result" where
  "convert nan oper src dst a =
     (let bits = limba_type_bits dst;
          d = (if limba_type_is_float src then fnum nan a src else 0)
      in case oper of
        LIMBA_OP_TRUNC \<Rightarrow> EV_VALUE (norm a dst)
      | LIMBA_OP_ZEXT \<Rightarrow> EV_VALUE (norm (uv a src) dst)
      | LIMBA_OP_SEXT \<Rightarrow> EV_VALUE (norm (if src = LIMBA_T_I1 then (if a \<noteq> 0 then NOT 0 else 0) else a) dst)
      | LIMBA_OP_FPTRUNC \<Rightarrow> EV_VALUE (fbits nan d dst)
      | LIMBA_OP_FPEXT \<Rightarrow> EV_VALUE (fbits nan d dst)
      | LIMBA_OP_SITOFP \<Rightarrow>
          EV_VALUE (if dst = LIMBA_T_F32 then fbits nan (widen nan (f_of_int (sint a))) dst
                    else fbits nan (d_of_int (sint a)) dst)
      | LIMBA_OP_UITOFP \<Rightarrow>
          EV_VALUE (if dst = LIMBA_T_F32 then fbits nan (widen nan (f_of_int (uint (uv a src)))) dst
                    else fbits nan (d_of_int (uint (uv a src))) dst)
      | LIMBA_OP_FPTOSI \<Rightarrow>
          (let lo = d_neg (d_pow2 (bits - 1)); tr = d_trunc nan d
           in EV_VALUE (norm
                (if isnan d then 0
                 else if d_less tr lo then word_of_int (d_to_int lo)
                 else if d_le (d_neg lo) tr then (if bits \<ge> 64 then 0x7FFFFFFFFFFFFFFF else push_bit (bits - 1) 1 - 1)
                 else word_of_int (d_to_int tr)) dst))
      | LIMBA_OP_FPTOUI \<Rightarrow>
          (let tr = d_trunc nan d
           in EV_VALUE (norm
                (if isnan d \<or> d_le tr 0 then 0
                 else if d_le (d_pow2 bits) tr then width_mask dst
                 else word_of_int (d_to_int tr)) dst))
      | LIMBA_OP_BITCAST \<Rightarrow>
          EV_VALUE (if src = LIMBA_T_I32 then ucast (ucast a :: u32)
                    else if src = LIMBA_T_F32 then norm (ucast (ucast a :: u32)) LIMBA_T_I32
                    else a)
      | LIMBA_OP_PTRTOINT \<Rightarrow> EV_VALUE (norm a dst)
      | LIMBA_OP_INTTOPTR \<Rightarrow> EV_VALUE (uv a src)
      | _ \<Rightarrow> EV_UNKNOWN)"

section \<open>The mathematics\<close>

text \<open>
  The functions of one argument and of two; \<open>libm rt args\<close> is what the library of mathematics computes
  for the function numbered \<open>rt\<close>.
\<close>

definition math_one :: "nat \<Rightarrow> bool" where
  "math_one rt \<longleftrightarrow> rt \<in> {LIMBA_RT_MATH_SQRT, LIMBA_RT_MATH_SIN, LIMBA_RT_MATH_COS, LIMBA_RT_MATH_TAN, LIMBA_RT_MATH_ATAN,
     LIMBA_RT_MATH_EXP, LIMBA_RT_MATH_LN, LIMBA_RT_MATH_TRUNC, LIMBA_RT_MATH_FLOOR, LIMBA_RT_MATH_CEIL,
     LIMBA_RT_MATH_ASIN, LIMBA_RT_MATH_ACOS, LIMBA_RT_MATH_LOG2, LIMBA_RT_MATH_LOG10, LIMBA_RT_MATH_SINH,
     LIMBA_RT_MATH_COSH, LIMBA_RT_MATH_TANH}"

definition math_two :: "nat \<Rightarrow> bool" where
  "math_two rt \<longleftrightarrow> rt \<in> {LIMBA_RT_MATH_POW, LIMBA_RT_MATH_ATAN2, LIMBA_RT_MATH_HYPOT}"

definition limba_math_call :: "(nat \<Rightarrow> u64 list \<Rightarrow> u64) \<Rightarrow> nat \<Rightarrow> u64 list \<Rightarrow> u64 option" where
  "limba_math_call libm rt a =
     (if math_one rt then Some (libm rt [a ! 0]) else if math_two rt then Some (libm rt [a ! 0, a ! 1]) else None)"

text \<open>The evaluator's call of one of them: the second argument of a function of one is zero.\<close>

definition runtime_math :: "(nat \<Rightarrow> u64 list \<Rightarrow> u64) \<Rightarrow> u64 \<Rightarrow> nat \<Rightarrow> u64 list \<Rightarrow> u64 option" where
  "runtime_math libm nan rt a =
     (if math_one rt \<or> math_two rt
      then map_option (\<lambda>out. fbits nan out LIMBA_T_F64) (limba_math_call libm rt [dv (a ! 0), if math_two rt then dv (a ! 1) else 0])
      else None)"

section \<open>Instructions\<close>

text \<open>
  One instruction on the values \<open>v\<close> computed so far, indexed by instruction. The instructions that only
  compute, and the check, are the ones modelled: \<open>None\<close> for the others, which use memory, the run-time
  library or the control flow.
\<close>

definition eval_un :: "u64 \<Rightarrow> limba_op \<Rightarrow> limba_id \<Rightarrow> u64 \<Rightarrow> u64" where
  "eval_un nan oper t a =
     (if oper = LIMBA_OP_FNEG \<or> oper = LIMBA_OP_FROUND \<or> oper = LIMBA_OP_FROUNDA then float_op nan oper t a 0 0
      else if oper = LIMBA_OP_NEG then norm (0 - uv a t) t
      else norm (NOT a) t)"

definition eval_inst :: "(nat \<Rightarrow> u64 list \<Rightarrow> u64) \<Rightarrow> u64 \<Rightarrow> limba_func \<Rightarrow> u64 list \<Rightarrow> limba_inst \<Rightarrow> eval_result option" where
  "eval_inst libm nan f v i =
     (let t = in_type i; val = (\<lambda>k. v ! operand f i k)
      in case op_format (limba_ops (in_op i)) of
        LIMBA_F_ICONST \<Rightarrow> Some (EV_VALUE (norm (in_imm i) t))
      | LIMBA_F_FCONST \<Rightarrow> Some (EV_VALUE (if t = LIMBA_T_F32 then ucast (ucast (in_imm i) :: u32) else in_imm i))
      | LIMBA_F_TYPED \<Rightarrow> Some (EV_VALUE 0)
      | LIMBA_F_UN \<Rightarrow> Some (EV_VALUE (eval_un nan (in_op i) t (val 0)))
      | LIMBA_F_BIN \<Rightarrow>
          Some (if limba_type_is_float t then EV_VALUE (float_op nan (in_op i) t (val 0) (val 1) 0)
                else int_bin (in_op i) t (val 0) (val 1))
      | LIMBA_F_TERN \<Rightarrow>
          Some (EV_VALUE (if in_op i = LIMBA_OP_SELECT then (if val 0 \<noteq> 0 then val 1 else val 2)
                          else float_op nan (in_op i) t (val 0) (val 1) (val 2)))
      | LIMBA_F_CMP \<Rightarrow>
          Some (EV_VALUE (of_bool (compare nan (in_cc i) (in_type (fn_insts f ! operand f i 0)) (val 0) (val 1))))
      | LIMBA_F_CONV \<Rightarrow> Some (convert nan (in_op i) (in_type (fn_insts f ! operand f i 0)) t (val 0))
      | LIMBA_F_CHECK \<Rightarrow> Some (if val 0 = 0 then EV_TRAP (sint (in_imm i)) else EV_VALUE 0)
      | LIMBA_F_CALL_RT \<Rightarrow> map_option EV_VALUE (runtime_math libm nan (unat (ucast (in_imm i) :: u32)) (map val [0 ..< in_nops i]))
      | _ \<Rightarrow> None)"

section \<open>Types of the operands\<close>

text \<open>
  What the verifier checks of the operands of these instructions, and the form a value of a type has:
  an integer is sign-extended from its width, a float of 32 bits zero-extended.
\<close>

definition conv_typed :: "limba_op \<Rightarrow> limba_id \<Rightarrow> limba_id \<Rightarrow> bool" where
  "conv_typed oper a r \<longleftrightarrow>
     (case oper of
        LIMBA_OP_TRUNC \<Rightarrow> limba_type_is_int a \<and> limba_type_is_int r
      | LIMBA_OP_ZEXT \<Rightarrow> limba_type_is_int a \<and> limba_type_is_int r
      | LIMBA_OP_SEXT \<Rightarrow> limba_type_is_int a \<and> limba_type_is_int r
      | LIMBA_OP_FPTRUNC \<Rightarrow> a = LIMBA_T_F64 \<and> r = LIMBA_T_F32
      | LIMBA_OP_FPEXT \<Rightarrow> a = LIMBA_T_F32 \<and> r = LIMBA_T_F64
      | LIMBA_OP_SITOFP \<Rightarrow> limba_type_is_int a \<and> limba_type_is_float r
      | LIMBA_OP_UITOFP \<Rightarrow> limba_type_is_int a \<and> limba_type_is_float r
      | LIMBA_OP_FPTOSI \<Rightarrow> limba_type_is_float a \<and> limba_type_is_int r
      | LIMBA_OP_FPTOUI \<Rightarrow> limba_type_is_float a \<and> limba_type_is_int r
      | LIMBA_OP_BITCAST \<Rightarrow> a = LIMBA_T_I32 \<and> r = LIMBA_T_F32 \<or> a = LIMBA_T_F32 \<and> r = LIMBA_T_I32 \<or>
          a = LIMBA_T_I64 \<and> r = LIMBA_T_F64 \<or> a = LIMBA_T_F64 \<and> r = LIMBA_T_I64
      | LIMBA_OP_PTRTOINT \<Rightarrow> a = LIMBA_T_PTR \<and> limba_type_is_int r
      | LIMBA_OP_INTTOPTR \<Rightarrow> limba_type_is_int a \<and> r = LIMBA_T_PTR
      | _ \<Rightarrow> False)"

definition float_un :: "limba_op \<Rightarrow> bool" where
  "float_un oper \<longleftrightarrow> oper \<in> {LIMBA_OP_FNEG, LIMBA_OP_FROUND, LIMBA_OP_FROUNDA}"

definition float_bin :: "limba_op \<Rightarrow> bool" where
  "float_bin oper \<longleftrightarrow> oper \<in> {LIMBA_OP_FADD, LIMBA_OP_FSUB, LIMBA_OP_FMUL, LIMBA_OP_FDIV}"

definition operand_type :: "limba_func \<Rightarrow> limba_inst \<Rightarrow> nat \<Rightarrow> limba_id" where
  "operand_type f i k = in_type (fn_insts f ! operand f i k)"

definition inst_typed :: "limba_func \<Rightarrow> limba_inst \<Rightarrow> bool" where
  "inst_typed f i \<longleftrightarrow>
     (let t = in_type i; ty = operand_type f i
      in case op_format (limba_ops (in_op i)) of
        LIMBA_F_ICONST \<Rightarrow> limba_type_is_int t
      | LIMBA_F_FCONST \<Rightarrow> limba_type_is_float t
      | LIMBA_F_UN \<Rightarrow> in_nops i = 1 \<and> ty 0 = t \<and> (if float_un (in_op i) then limba_type_is_float t else limba_type_is_int t)
      | LIMBA_F_BIN \<Rightarrow> in_nops i = 2 \<and> ty 0 = t \<and> ty 1 = t \<and> (if float_bin (in_op i) then limba_type_is_float t else limba_type_is_int t)
      | LIMBA_F_TERN \<Rightarrow> in_nops i = 3 \<and>
          (if in_op i = LIMBA_OP_SELECT then ty 0 = LIMBA_T_I1 \<and> ty 1 = t \<and> ty 2 = t
           else limba_type_is_float t \<and> ty 0 = t \<and> ty 1 = t \<and> ty 2 = t)
      | LIMBA_F_CMP \<Rightarrow> in_nops i = 2 \<and> t = LIMBA_T_I1 \<and> ty 0 = ty 1 \<and>
          (if in_op i = LIMBA_OP_FCMP then limba_cc_is_float (in_cc i) \<and> limba_type_is_float (ty 0)
           else \<not> limba_cc_is_float (in_cc i) \<and> (limba_type_is_int (ty 0) \<or> ty 0 = LIMBA_T_PTR))
      | LIMBA_F_CONV \<Rightarrow> in_nops i = 1 \<and> conv_typed (in_op i) (ty 0) t
      | LIMBA_F_CHECK \<Rightarrow> in_nops i = 1 \<and> ty 0 = LIMBA_T_I1
      | LIMBA_F_CALL_RT \<Rightarrow>
          (math_one (unat (ucast (in_imm i) :: u32)) \<longrightarrow> in_nops i = 1 \<and> t = LIMBA_T_F64 \<and> ty 0 = LIMBA_T_F64) \<and>
          (math_two (unat (ucast (in_imm i) :: u32)) \<longrightarrow> in_nops i = 2 \<and> t = LIMBA_T_F64 \<and> ty 0 = LIMBA_T_F64 \<and> ty 1 = LIMBA_T_F64)
      | _ \<Rightarrow> True)"

definition canonical :: "limba_id \<Rightarrow> u64 \<Rightarrow> bool" where
  "canonical t r \<longleftrightarrow> (limba_type_is_int t \<longrightarrow> norm r t = r) \<and> (t = LIMBA_T_F32 \<longrightarrow> unat r < 2 ^ 32)"

section \<open>The canonical form of an integer\<close>

lemma int_type_cases:
  assumes "limba_type_is_int t"
  obtains "t = LIMBA_T_I1" | "t = LIMBA_T_I8" | "t = LIMBA_T_I16" | "t = LIMBA_T_I32" | "t = LIMBA_T_I64"
  using assms by (fastforce simp: limba_type_is_int_def)

lemma type_bits [simp]:
  "limba_type_bits LIMBA_T_I1 = 1" "limba_type_bits LIMBA_T_I8 = 8" "limba_type_bits LIMBA_T_I16 = 16"
  "limba_type_bits LIMBA_T_I32 = 32" "limba_type_bits LIMBA_T_I64 = 64"
  by (simp_all add: limba_type_bits_def)

lemma int_type_bits: "limba_type_is_int t \<Longrightarrow> 0 < limba_type_bits t \<and> limba_type_bits t \<le> 64"
  by (erule int_type_cases) (simp_all only: type_bits, simp_all)

lemma drop_push_signed:
  assumes "0 < n" "n < 64"
  shows "signed_drop_bit (64 - n) (push_bit (64 - n) (v :: u64)) = signed_take_bit (n - 1) v"
proof (rule bit_word_eqI)
  fix k assume "k < LENGTH(64)"
  then show "bit (signed_drop_bit (64 - n) (push_bit (64 - n) v)) k = bit (signed_take_bit (n - 1) v) k"
    using assms
    by (cases "k = n - 1") (auto simp: bit_signed_drop_bit_iff bit_push_bit_iff bit_signed_take_bit_iff min_def)
qed

lemma norm_signed:
  assumes "limba_type_is_int t" "t \<noteq> LIMBA_T_I1"
  shows "norm v t = signed_take_bit (limba_type_bits t - 1) v"
proof (cases "t = LIMBA_T_I64")
  case True
  have "n = 63" if "n < 64" "63 \<le> n" for n :: nat using that by linarith
  then have "signed_take_bit 63 v = v" by (intro bit_word_eqI) (fastforce simp: bit_signed_take_bit_iff min_def)
  then show ?thesis by (simp add: norm_def limba_int_norm_def True limba_type_bits_def)
next
  case False
  then have b: "limba_type_bits t < 64" "limba_type_bits t \<noteq> 1" "0 < limba_type_bits t"
    using assms by (auto simp: limba_type_is_int_def limba_type_bits_def)
  then show ?thesis using drop_push_signed [OF b(3,1), of v] by (simp add: norm_def limba_int_norm_def)
qed

lemma norm_bool: "t = LIMBA_T_I1 \<Longrightarrow> norm v t = take_bit 1 v"
  by (simp add: norm_def limba_int_norm_def limba_type_bits_def take_bit_eq_mask mask_eq_exp_minus_1)

lemma uv_take: "limba_type_is_int t \<Longrightarrow> uv v t = take_bit (limba_type_bits t) v"
proof -
  assume t: "limba_type_is_int t"
  have "width_mask t = mask (limba_type_bits t)"
    using int_type_bits [OF t] by (cases "limba_type_bits t = 64") (simp_all add: width_mask_def Let_def mask_eq_exp_minus_1 push_bit_eq_mult)
  then show ?thesis by (simp add: uv_def take_bit_eq_mask)
qed

text \<open>The canonical form depends on the bits of the width alone, and is its own canonical form.\<close>

lemma norm_uv: "limba_type_is_int t \<Longrightarrow> norm (uv v t) t = norm v t"
proof (cases "t = LIMBA_T_I1")
  case False
  assume t: "limba_type_is_int t"
  have "\<not> limba_type_bits t \<le> limba_type_bits t - 1" using int_type_bits [OF t] by linarith
  then show ?thesis by (simp only: norm_signed [OF t False] uv_take [OF t] signed_take_bit_take_bit if_False)
qed (simp only: norm_bool uv_take type_bits take_bit_take_bit min.idem)

lemma norm_norm [simp]: "norm (norm v t) t = norm v t"
proof (cases "limba_type_is_int t")
  case True
  show ?thesis
  proof (cases "t = LIMBA_T_I1")
    case False
    then show ?thesis by (simp only: norm_signed [OF True False] signed_take_bit_signed_take_bit min.idem)
  qed (simp only: norm_bool take_bit_take_bit min.idem)
next
  case False
  then have "limba_type_bits t = 0" by (auto simp: limba_type_is_int_def limba_type_bits_def)
  then show ?thesis by (simp add: norm_def limba_int_norm_def)
qed

lemma uv_norm: "limba_type_is_int t \<Longrightarrow> uv (norm v t) t = uv v t"
proof (cases "t = LIMBA_T_I1")
  case False
  assume t: "limba_type_is_int t"
  then show ?thesis using int_type_bits [OF t]
    by (simp only: norm_signed [OF t False] uv_take [OF t] take_bit_signed_take_bit)
qed (simp only: norm_bool uv_take type_bits take_bit_take_bit min.idem)

lemma norm_0 [simp]: "norm 0 t = 0"
  by (simp add: norm_def limba_int_norm_def Let_def)

lemma norm_1 [simp]: "limba_type_is_int t \<Longrightarrow> norm 1 t = 1"
  by (erule int_type_cases) (simp_all add: norm_def limba_int_norm_def limba_type_bits_def)

lemma norm_i64 [simp]: "norm v LIMBA_T_I64 = v"
  by (simp add: norm_def limba_int_norm_def limba_type_bits_def)

text \<open>What each operation gives is in the canonical form of its type.\<close>

lemma int_not_float: "limba_type_is_int t \<Longrightarrow> t \<noteq> LIMBA_T_F32" "limba_type_is_int t \<Longrightarrow> \<not> limba_type_is_float t"
  by (auto simp: limba_type_is_int_def limba_type_is_float_def)

lemma canonical_norm: "limba_type_is_int t \<Longrightarrow> canonical t (norm x t)"
  by (simp add: canonical_def int_not_float)

lemma canonical_f32: "canonical LIMBA_T_F32 (f32bits x)"
  by (simp add: canonical_def f32bits_def limba_type_is_int_def)

lemma canonical_other: "\<not> limba_type_is_int t \<Longrightarrow> t \<noteq> LIMBA_T_F32 \<Longrightarrow> canonical t x"
  by (simp add: canonical_def)

lemma canonical_fbits: "limba_type_is_float t \<Longrightarrow> canonical t (fbits nan d t)"
  using canonical_f32 by (auto simp: fbits_def limba_type_is_float_def intro: canonical_other simp: limba_type_is_int_def)

lemma xor_less_u32:
  assumes "unat (a :: u64) < 2 ^ 32"
  shows "unat (a XOR 0x80000000) < 2 ^ 32"
proof -
  have "take_bit 32 (a XOR 0x80000000) = a XOR 0x80000000"
    unfolding take_bit_xor take_bit_id_if_lt [OF assms] by simp
  then have "unat (a XOR 0x80000000) = take_bit 32 (unat (a XOR 0x80000000))"
    using unsigned_take_bit_eq [of 32 "a XOR 0x80000000"] by simp
  then show ?thesis using take_bit_nat_less_exp [of 32 "unat (a XOR 0x80000000)"] by (simp only:)
qed

lemma canonical_float_op:
  assumes "limba_type_is_float t" "canonical t a"
  shows "canonical t (float_op nan oper t a b c)"
proof (cases "t = LIMBA_T_F32")
  case True
  have "canonical LIMBA_T_F32 (a XOR 0x80000000)"
    using assms(2) xor_less_u32 [of a] by (simp add: canonical_def True limba_type_is_int_def)
  then show ?thesis by (simp add: float_op_def True Let_def canonical_f32 split: limba_op.split)
next
  case False
  then have "\<not> limba_type_is_int t" using assms(1) by (auto simp: limba_type_is_float_def limba_type_is_int_def)
  then show ?thesis using False by (rule canonical_other)
qed

lemma int_bin_value: "int_bin oper t a b = EV_VALUE r \<Longrightarrow> norm r t = r"
  by (auto simp: int_bin_def Let_def split: limba_op.splits if_splits)

lemma canonical_bool: "canonical LIMBA_T_I1 (of_bool b)"
  by (simp add: canonical_def norm_bool)

lemma canonical_convert:
  assumes "conv_typed oper src t" "canonical src a" "convert nan oper src t a = EV_VALUE r"
  shows "canonical t r"
proof (cases "limba_type_is_int t")
  case True
  then have "norm r t = r \<or> t = LIMBA_T_I64"
    using assms(1,3)
    by (auto simp: convert_def conv_typed_def Let_def limba_type_is_float_def limba_type_is_int_def split: limba_op.splits if_splits)
  then show ?thesis using True by (auto simp: canonical_def int_not_float)
next
  case False
  then have "(\<exists>x. r = fbits nan x t) \<or> (\<exists>x. r = f32bits x) \<or> t \<noteq> LIMBA_T_F32"
    using assms(1,3)
    by (auto simp: convert_def conv_typed_def Let_def limba_type_is_float_def limba_type_is_int_def f32bits_def split: limba_op.splits if_splits)
  then show ?thesis using False canonical_fbits [of t nan] canonical_f32 by (auto simp: canonical_def limba_type_is_float_def)
qed

section \<open>Execution keeps the form of the types\<close>

definition operand_values :: "limba_func \<Rightarrow> u64 list \<Rightarrow> limba_inst \<Rightarrow> bool" where
  "operand_values f v i \<longleftrightarrow> (\<forall>k < in_nops i. canonical (operand_type f i k) (v ! operand f i k))"

lemma operand_value: "operand_values f v i \<Longrightarrow> k < in_nops i \<Longrightarrow> canonical (operand_type f i k) (v ! operand f i k)"
  by (simp add: operand_values_def)

lemma op_formats:
  "op_format (limba_ops oper) = LIMBA_F_ICONST \<longleftrightarrow> oper = LIMBA_OP_ICONST"
  "op_format (limba_ops oper) = LIMBA_F_FCONST \<longleftrightarrow> oper = LIMBA_OP_FCONST"
  "op_format (limba_ops oper) = LIMBA_F_TERN \<longleftrightarrow> oper = LIMBA_OP_SELECT \<or> oper = LIMBA_OP_FMA"
  "op_format (limba_ops oper) = LIMBA_F_CMP \<longleftrightarrow> oper = LIMBA_OP_ICMP \<or> oper = LIMBA_OP_FCMP"
  "op_format (limba_ops oper) = LIMBA_F_UN \<longleftrightarrow> float_un oper \<or> oper = LIMBA_OP_NEG \<or> oper = LIMBA_OP_NOT"
  "op_format (limba_ops oper) = LIMBA_F_CHECK \<longleftrightarrow> oper = LIMBA_OP_CHECK"
  by (cases oper; simp add: float_un_def)+

text \<open>The result of an instruction has the form of its type, by the formats.\<close>

lemma eval_un_typed:
  assumes t: "inst_typed f i" and v: "operand_values f v i" and r: "eval_inst libm nan f v i = Some (EV_VALUE r)"
    and fm: "op_format (limba_ops (in_op i)) = LIMBA_F_UN"
  shows "canonical (in_type i) r"
proof -
  have ty: "operand_type f i 0 = in_type i" "canonical (in_type i) (v ! operand f i 0)"
      "r = eval_un nan (in_op i) (in_type i) (v ! operand f i 0)"
    using fm t v r by (auto simp: inst_typed_def eval_inst_def operand_values_def Let_def)
  show ?thesis
  proof (cases "float_un (in_op i)")
    case True
    then have "limba_type_is_float (in_type i)" using fm t by (simp add: inst_typed_def Let_def)
    then show ?thesis using canonical_float_op [OF _ ty(2)] True by (simp add: ty(3) eval_un_def float_un_def)
  next
    case False
    then have "limba_type_is_int (in_type i)" using fm t by (simp add: inst_typed_def Let_def)
    then show ?thesis using canonical_norm False by (simp add: ty(3) eval_un_def float_un_def)
  qed
qed

lemma eval_bin_typed:
  assumes t: "inst_typed f i" and v: "operand_values f v i" and r: "eval_inst libm nan f v i = Some (EV_VALUE r)"
    and fm: "op_format (limba_ops (in_op i)) = LIMBA_F_BIN"
  shows "canonical (in_type i) r"
proof -
  have ty: "canonical (in_type i) (v ! operand f i 0)"
      "limba_type_is_float (in_type i) \<or> limba_type_is_int (in_type i)"
    using fm t operand_value [OF v, of 0] by (auto simp: inst_typed_def Let_def split: if_splits)
  show ?thesis
  proof (cases "limba_type_is_float (in_type i)")
    case True
    then show ?thesis using canonical_float_op [OF True ty(1)] fm r by (auto simp: eval_inst_def)
  next
    case False
    then have "norm r (in_type i) = r" using fm r int_bin_value by (auto simp: eval_inst_def)
    then show ?thesis using False by (simp add: canonical_def limba_type_is_float_def)
  qed
qed

lemma eval_tern_typed:
  assumes t: "inst_typed f i" and v: "operand_values f v i" and r: "eval_inst libm nan f v i = Some (EV_VALUE r)"
    and fm: "op_format (limba_ops (in_op i)) = LIMBA_F_TERN"
  shows "canonical (in_type i) r"
proof -
  have ty: "canonical (operand_type f i k) (v ! operand f i k)" if "k < 3" for k
    using fm t v that by (auto simp: inst_typed_def operand_values_def Let_def)
  show ?thesis
  proof (cases "in_op i = LIMBA_OP_SELECT")
    case True
    then show ?thesis using fm t r ty [of 1] ty [of 2] by (auto simp: inst_typed_def eval_inst_def Let_def split: if_splits)
  next
    case False
    then show ?thesis
      using fm t r ty [of 0] canonical_float_op [of "in_type i" "v ! operand f i 0"]
      by (auto simp: inst_typed_def eval_inst_def Let_def)
  qed
qed

lemma eval_inst_typed:
  assumes t: "inst_typed f i" and v: "operand_values f v i" and r: "eval_inst libm nan f v i = Some (EV_VALUE r)"
  shows "canonical (in_type i) r"
proof (cases "op_format (limba_ops (in_op i))")
  case LIMBA_F_ICONST
  then show ?thesis using t r canonical_norm by (auto simp: inst_typed_def eval_inst_def)
next
  case LIMBA_F_FCONST
  then show ?thesis using t r canonical_f32 canonical_other
    by (auto simp: inst_typed_def eval_inst_def f32bits_def limba_type_is_float_def limba_type_is_int_def)
next
  case LIMBA_F_CMP
  then show ?thesis using t r canonical_bool by (auto simp: inst_typed_def eval_inst_def Let_def)
next
  case LIMBA_F_CONV
  then have "conv_typed (in_op i) (operand_type f i 0) (in_type i)" "canonical (operand_type f i 0) (v ! operand f i 0)"
      "convert nan (in_op i) (operand_type f i 0) (in_type i) (v ! operand f i 0) = EV_VALUE r"
    using t v r by (auto simp: inst_typed_def eval_inst_def operand_values_def operand_type_def Let_def)
  then show ?thesis by (rule canonical_convert)
next
  case LIMBA_F_CHECK
  then show ?thesis using r by (auto simp: eval_inst_def canonical_def Let_def split: if_splits)
next
  case LIMBA_F_TYPED
  then show ?thesis using r by (auto simp: eval_inst_def canonical_def Let_def)
next
  case LIMBA_F_CALL_RT
  then have "in_type i = LIMBA_T_F64"
    using t r by (auto simp: inst_typed_def eval_inst_def runtime_math_def Let_def split: if_splits)
  then show ?thesis by (simp add: canonical_def limba_type_is_int_def)
qed (use eval_un_typed [OF assms] eval_bin_typed [OF assms] eval_tern_typed [OF assms] r in \<open>simp_all add: eval_inst_def Let_def\<close>)

text \<open>
  C8: A verified instruction that computes a value gives one of its type: when the operands are in
  the form of their types, integers sign-extended from their width and floats of 32 bits zero-extended,
  so is the result, whatever the operation, and whichever NaN the arithmetic of the machine makes.
\<close>

theorem eval_inst_canonical:
  assumes t: "inst_typed f i" and v: "operand_values f v i" and r: "eval_inst libm nan f v i = Some (EV_VALUE r)"
  shows "canonical (in_type i) r"
  by (rule eval_inst_typed [OF assms])

theorem eval_inst_canonical_witness:
  "eval_inst (\<lambda>rt args. 0) 0 edit_sample [0x7FFFFFFF, 1, 0, 0] (fn_insts edit_sample ! 2) = Some (EV_VALUE 0xFFFFFFFF80000000) \<and>
     canonical LIMBA_T_I32 0xFFFFFFFF80000000"
proof -
  let ?i = "fn_insts edit_sample ! 2" and ?v = "[0x7FFFFFFF, 1, 0, 0] :: u64 list"
  have i: "in_type ?i = LIMBA_T_I32" "in_nops ?i = 2" "in_op ?i = LIMBA_OP_ADD"
      "operand edit_sample ?i 0 = 0" "operand edit_sample ?i 1 = 1"
      "operand_type edit_sample ?i 0 = LIMBA_T_I32" "operand_type edit_sample ?i 1 = LIMBA_T_I32"
    by (simp_all add: edit_sample_def edit_inst_of_def operand_def operand_type_def)
  have t: "inst_typed edit_sample ?i" using i by (simp add: inst_typed_def limba_type_is_int_def float_bin_def)
  have v: "operand_values edit_sample ?v ?i"
    using i by (auto simp: operand_values_def less_2_cases_iff canonical_def norm_signed limba_type_is_int_def)
  have r: "eval_inst (\<lambda>rt args. 0) 0 edit_sample ?v ?i = Some (EV_VALUE 0xFFFFFFFF80000000)"
    using i by (simp add: eval_inst_def limba_type_is_float_def int_bin_def uv_take norm_signed limba_type_is_int_def)
  show ?thesis using r eval_inst_canonical [OF t v r] i(1) by simp
qed

end
