(* ===== verification/Fold.thy ===== *)
theory Fold
  imports Evalnum
begin

text \<open>
  Constant folding: \<^verbatim>\<open>src/src/opt/fold.c\<close>. An instruction whose operands are constants becomes the
  constant it computes, and one that is an integer identity is replaced by the value it is; nothing that
  may trap is folded when it would. What folding must agree with is the reference evaluator
  (theory \<open>Evalnum\<close>): an instruction folded is one the evaluator gives the very same bits.

  The operations thread the edit, since following a chain of replacements shortens it; \<open>None\<close> is an
  operand outside the function, or a chain that does not end.
\<close>

unbundle bit_operations_syntax

section \<open>Operands\<close>

definition def :: "limba_func \<Rightarrow> limba_edit \<Rightarrow> nat \<Rightarrow> (limba_edit \<times> limba_inst) option" where
  "def f e x =
     do {
       (e, r) \<leftarrow> limba_edit_resolve e x;
       if r < length (fn_insts f) then Some (e, fn_insts f ! r) else None
     }"

definition ival :: "limba_func \<Rightarrow> limba_edit \<Rightarrow> nat \<Rightarrow> (limba_edit \<times> u64 option) option" where
  "ival f e x =
     do {
       (e, d) \<leftarrow> def f e x;
       Some (e, if in_op d \<noteq> LIMBA_OP_ICONST then None else Some (limba_int_norm (in_imm d) (in_type d)))
     }"

definition fval :: "u64 \<Rightarrow> limba_func \<Rightarrow> limba_edit \<Rightarrow> nat \<Rightarrow> (limba_edit \<times> u64 option) option" where
  "fval nan f e x =
     do {
       (e, d) \<leftarrow> def f e x;
       Some (e, if in_op d \<noteq> LIMBA_OP_FCONST then None
                else if in_type d = LIMBA_T_F32 then Some (widen nan (ucast (in_imm d)))
                else Some (in_imm d))
     }"

text \<open>A sequence of operands read by a conjunction: the ones after the first that is no constant are not read.\<close>

fun fvals :: "u64 \<Rightarrow> limba_func \<Rightarrow> limba_edit \<Rightarrow> nat list \<Rightarrow> (limba_edit \<times> u64 list option) option" where
  "fvals nan f e [] = Some (e, Some [])"
| "fvals nan f e (x # xs) =
     do {
       (e, a) \<leftarrow> fval nan f e x;
       case a of None \<Rightarrow> Some (e, None)
       | Some a \<Rightarrow> do { (e, as) \<leftarrow> fvals nan f e xs; Some (e, map_option (Cons a) as) }
     }"

definition ivals :: "limba_func \<Rightarrow> limba_edit \<Rightarrow> nat \<Rightarrow> nat \<Rightarrow> (limba_edit \<times> (u64 \<times> u64) option) option" where
  "ivals f e x y =
     do {
       (e, a) \<leftarrow> ival f e x;
       case a of None \<Rightarrow> Some (e, None)
       | Some a \<Rightarrow> do { (e, b) \<leftarrow> ival f e y; Some (e, map_option (Pair a) b) }
     }"

text \<open>Two values are the same when they stand for the same one.\<close>

definition same_value :: "limba_edit \<Rightarrow> nat \<Rightarrow> nat \<Rightarrow> (limba_edit \<times> bool) option" where
  "same_value e x y =
     do {
       (e, a) \<leftarrow> limba_edit_resolve e x;
       (e, b) \<leftarrow> limba_edit_resolve e y;
       Some (e, a = b)
     }"

section \<open>Numbers\<close>

definition fold_mask :: "nat \<Rightarrow> u64" where
  "fold_mask bits = (if bits \<ge> 64 then NOT 0 else push_bit bits 1 - 1)"

definition uval :: "u64 \<Rightarrow> limba_id \<Rightarrow> u64" where
  "uval v t = v AND fold_mask (limba_type_bits t)"

definition smin :: "limba_id \<Rightarrow> u64" where
  "smin t = (let bits = limba_type_bits t in if bits \<ge> 64 then 0x8000000000000000 else - push_bit (bits - 1) 1)"

definition fits_signed :: "int \<Rightarrow> limba_id \<Rightarrow> bool" where
  "fits_signed v t =
     (let bits = limba_type_bits t; lo = - (2 ^ (bits - 1)); hi = 2 ^ (bits - 1) - 1 in v \<ge> lo \<and> v \<le> hi)"

definition fold_fbits :: "u64 \<Rightarrow> u64 \<Rightarrow> limba_id \<Rightarrow> u64" where
  "fold_fbits nan x t = (if t = LIMBA_T_F32 then ucast (narrow nan x) else x)"

section \<open>Both operands constant\<close>

definition fold_int_bin :: "limba_inst \<Rightarrow> u64 \<Rightarrow> u64 \<Rightarrow> u64 option" where
  "fold_int_bin i a b =
     (let t = in_type i; bits = limba_type_bits t; ua = uval a t; ub = uval b t;
          signed = (\<lambda>w. if \<not> fits_signed w t then None else Some (word_of_int w));
          x = int (unat ua); y = int (unat ub);
          top = (if bits \<ge> 64 then 2 ^ 64 - 1 else 2 ^ bits - 1)
      in case in_op i of
        LIMBA_OP_ADD \<Rightarrow> Some (ua + ub)
      | LIMBA_OP_SUB \<Rightarrow> Some (ua - ub)
      | LIMBA_OP_MUL \<Rightarrow> Some (ua * ub)
      | LIMBA_OP_AND \<Rightarrow> Some (a AND b)
      | LIMBA_OP_OR \<Rightarrow> Some (a OR b)
      | LIMBA_OP_XOR \<Rightarrow> Some (a XOR b)
      | LIMBA_OP_SHL \<Rightarrow> Some (push_bit (unat ub mod bits) ua)
      | LIMBA_OP_LSHR \<Rightarrow> Some (drop_bit (unat ub mod bits) ua)
      | LIMBA_OP_ASHR \<Rightarrow> Some (signed_drop_bit (unat ub mod bits) a)
      | LIMBA_OP_UDIV \<Rightarrow> if ub = 0 then None else Some (ua div ub)
      | LIMBA_OP_UREM \<Rightarrow> if ub = 0 then None else Some (ua mod ub)
      | LIMBA_OP_SDIV \<Rightarrow> if b = 0 \<or> a = smin t \<and> b = - 1 then None else Some (word_of_int (sint a sdiv sint b))
      | LIMBA_OP_SREM \<Rightarrow> if b = 0 \<or> a = smin t \<and> b = - 1 then None else Some (word_of_int (sint a smod sint b))
      | LIMBA_OP_ADDOV \<Rightarrow> signed (sint a + sint b)
      | LIMBA_OP_SUBOV \<Rightarrow> signed (sint a - sint b)
      | LIMBA_OP_MULOV \<Rightarrow> signed (sint a * sint b)
      | LIMBA_OP_UADDOV \<Rightarrow> if x + y > top then None else Some (limba_int_norm (word_of_int (x + y)) t)
      | LIMBA_OP_USUBOV \<Rightarrow> if x < y then None else Some (limba_int_norm (word_of_int (x - y)) t)
      | LIMBA_OP_UMULOV \<Rightarrow> if x * y > top then None else Some (limba_int_norm (word_of_int (x * y)) t)
      | _ \<Rightarrow> None)"

definition fold_icmp :: "limba_cc \<Rightarrow> limba_id \<Rightarrow> u64 \<Rightarrow> u64 \<Rightarrow> bool option" where
  "fold_icmp cc t a b =
     (let ua = uval a t; ub = uval b t
      in case cc of
        LIMBA_CC_EQ \<Rightarrow> Some (a = b)
      | LIMBA_CC_NE \<Rightarrow> Some (a \<noteq> b)
      | LIMBA_CC_SLT \<Rightarrow> Some (sint a < sint b)
      | LIMBA_CC_SLE \<Rightarrow> Some (sint a \<le> sint b)
      | LIMBA_CC_SGT \<Rightarrow> Some (sint a > sint b)
      | LIMBA_CC_SGE \<Rightarrow> Some (sint a \<ge> sint b)
      | LIMBA_CC_ULT \<Rightarrow> Some (ua < ub)
      | LIMBA_CC_ULE \<Rightarrow> Some (ua \<le> ub)
      | LIMBA_CC_UGT \<Rightarrow> Some (ua > ub)
      | LIMBA_CC_UGE \<Rightarrow> Some (ua \<ge> ub)
      | _ \<Rightarrow> None)"

definition fold_fcmp :: "limba_cc \<Rightarrow> u64 \<Rightarrow> u64 \<Rightarrow> bool option" where
  "fold_fcmp cc a b =
     (let uno = isnan a \<or> isnan b
      in case cc of
        LIMBA_CC_OEQ \<Rightarrow> Some (\<not> uno \<and> d_eq a b)
      | LIMBA_CC_ONE \<Rightarrow> Some (\<not> uno \<and> \<not> d_eq a b)
      | LIMBA_CC_OLT \<Rightarrow> Some (\<not> uno \<and> d_less a b)
      | LIMBA_CC_OLE \<Rightarrow> Some (\<not> uno \<and> d_le a b)
      | LIMBA_CC_OGT \<Rightarrow> Some (\<not> uno \<and> d_less b a)
      | LIMBA_CC_OGE \<Rightarrow> Some (\<not> uno \<and> d_le b a)
      | LIMBA_CC_ORD \<Rightarrow> Some (\<not> uno)
      | LIMBA_CC_UNO \<Rightarrow> Some uno
      | LIMBA_CC_UEQ \<Rightarrow> Some (uno \<or> d_eq a b)
      | LIMBA_CC_UNE \<Rightarrow> Some (uno \<or> \<not> d_eq a b)
      | LIMBA_CC_FULT \<Rightarrow> Some (uno \<or> d_less a b)
      | LIMBA_CC_FULE \<Rightarrow> Some (uno \<or> d_le a b)
      | LIMBA_CC_FUGT \<Rightarrow> Some (uno \<or> d_less b a)
      | LIMBA_CC_FUGE \<Rightarrow> Some (uno \<or> d_le b a)
      | _ \<Rightarrow> None)"

text \<open>A float operation in the precision of the type, on up to three numbers: those not given are zero.\<close>

definition fold_float :: "u64 \<Rightarrow> limba_inst \<Rightarrow> u64 list \<Rightarrow> u64 option" where
  "fold_float nan i vs =
     (let t = in_type i; v = (\<lambda>k. (vs @ [0, 0, 0]) ! k);
          x = (if t = LIMBA_T_F32
            then let a = narrow nan (v 0); b = narrow nan (v 1); c = narrow nan (v 2)
              in case in_op i of
                LIMBA_OP_FADD \<Rightarrow> Some (widen nan (f_add nan a b))
              | LIMBA_OP_FSUB \<Rightarrow> Some (widen nan (f_sub nan a b))
              | LIMBA_OP_FMUL \<Rightarrow> Some (widen nan (f_mul nan a b))
              | LIMBA_OP_FDIV \<Rightarrow> Some (widen nan (f_div nan a b))
              | LIMBA_OP_FNEG \<Rightarrow> Some (widen nan (f_neg a))
              | LIMBA_OP_FROUND \<Rightarrow> Some (widen nan (f_roundeven nan a))
              | LIMBA_OP_FROUNDA \<Rightarrow> Some (widen nan (f_round nan a))
              | LIMBA_OP_FMA \<Rightarrow> Some (widen nan (f_fma nan a b c))
              | _ \<Rightarrow> None
            else case in_op i of
                LIMBA_OP_FADD \<Rightarrow> Some (d_add nan (v 0) (v 1))
              | LIMBA_OP_FSUB \<Rightarrow> Some (d_sub nan (v 0) (v 1))
              | LIMBA_OP_FMUL \<Rightarrow> Some (d_mul nan (v 0) (v 1))
              | LIMBA_OP_FDIV \<Rightarrow> Some (d_div nan (v 0) (v 1))
              | LIMBA_OP_FNEG \<Rightarrow> Some (d_neg (v 0))
              | LIMBA_OP_FROUND \<Rightarrow> Some (d_roundeven nan (v 0))
              | LIMBA_OP_FROUNDA \<Rightarrow> Some (d_round nan (v 0))
              | LIMBA_OP_FMA \<Rightarrow> Some (d_fma nan (v 0) (v 1) (v 2))
              | _ \<Rightarrow> None)
      in case x of None \<Rightarrow> None
         | Some x \<Rightarrow> if isnan x \<and> in_op i \<noteq> LIMBA_OP_FNEG then None else Some (fold_fbits nan x t))"

text \<open>
  A conversion of the constant \<open>d\<close>: the instruction it becomes, if any. The number of \<open>d\<close> is an integer
  \<open>a\<close> or a double \<open>fa\<close>.
\<close>

definition fold_conv_int :: "u64 \<Rightarrow> limba_inst \<Rightarrow> limba_inst \<Rightarrow> u64 \<Rightarrow> limba_inst option" where
  "fold_conv_int nan i d a =
     (let src = in_type d; dst = in_type i; ua = uval a src
      in case in_op i of
        LIMBA_OP_TRUNC \<Rightarrow> Some (limba_inst_set_iconst i a)
      | LIMBA_OP_ZEXT \<Rightarrow> Some (limba_inst_set_iconst i ua)
      | LIMBA_OP_SEXT \<Rightarrow> Some (limba_inst_set_iconst i (if src = LIMBA_T_I1 then - a else a))
      | LIMBA_OP_SITOFP \<Rightarrow> Some (limba_inst_set_fconst i
          (fold_fbits nan (if dst = LIMBA_T_F32 then widen nan (f_of_int (sint a)) else d_of_int (sint a)) dst))
      | LIMBA_OP_UITOFP \<Rightarrow> Some (limba_inst_set_fconst i
          (fold_fbits nan (if dst = LIMBA_T_F32 then widen nan (f_of_int (uint ua)) else d_of_int (uint ua)) dst))
      | LIMBA_OP_BITCAST \<Rightarrow>
          Some (if src = LIMBA_T_I64 then limba_inst_set_fconst i a
                else limba_inst_set_fconst i (ucast (ucast ua :: u32)))
      | _ \<Rightarrow> None)"

definition fold_conv_float :: "u64 \<Rightarrow> limba_inst \<Rightarrow> limba_inst \<Rightarrow> u64 \<Rightarrow> limba_inst option" where
  "fold_conv_float nan i d fa =
     (let src = in_type d; dst = in_type i; bits = limba_type_bits dst; tr = d_trunc nan fa
      in if isnan fa \<and> (in_op i = LIMBA_OP_FPTRUNC \<or> in_op i = LIMBA_OP_FPEXT) then None
         else case in_op i of
        LIMBA_OP_FPTRUNC \<Rightarrow> Some (limba_inst_set_fconst i (fold_fbits nan (widen nan (narrow nan fa)) LIMBA_T_F32))
      | LIMBA_OP_FPEXT \<Rightarrow> Some (limba_inst_set_fconst i (fold_fbits nan fa LIMBA_T_F64))
      | LIMBA_OP_FPTOSI \<Rightarrow>
          (let lo = d_neg (d_pow2 (bits - 1))
           in Some (limba_inst_set_iconst i
                (if isnan fa then 0
                 else if d_less tr lo then smin dst
                 else if d_le (d_neg lo) tr then smin dst - 1
                 else word_of_int (d_to_int tr))))
      | LIMBA_OP_FPTOUI \<Rightarrow>
          Some (limba_inst_set_iconst i
            (if isnan fa \<or> d_le tr 0 then 0
             else if d_le (d_pow2 bits) tr then fold_mask bits
             else word_of_int (d_to_int tr)))
      | LIMBA_OP_BITCAST \<Rightarrow>
          Some (limba_inst_set_iconst i (if src = LIMBA_T_F64 then in_imm d else scast (ucast (in_imm d) :: u32)))
      | _ \<Rightarrow> None)"

definition fold_conv :: "u64 \<Rightarrow> limba_func \<Rightarrow> limba_edit \<Rightarrow> limba_inst \<Rightarrow> nat \<Rightarrow> (limba_edit \<times> limba_inst option) option" where
  "fold_conv nan f e i x =
     do {
       (e, d) \<leftarrow> def f e x;
       (e, a) \<leftarrow> ival f e x;
       case a of
         Some a \<Rightarrow> Some (e, fold_conv_int nan i d a)
       | None \<Rightarrow> do {
           (e, fa) \<leftarrow> fval nan f e x;
           Some (e, Option.bind fa (fold_conv_float nan i d))
         }
     }"

section \<open>Identities\<close>

text \<open>
  What happens to an instruction: nothing, it is rewritten, or every use of it becomes a use of another
  value. An identity has one constant operand, with the value \<open>k\<close>, the left one if \<open>kx\<close> and the right
  one if \<open>ky\<close>; or, read after, twice the same operand.
\<close>

datatype fold_outcome = FOLD_NONE | FOLD_SET limba_inst | FOLD_REPLACE nat

definition commutative :: "limba_op \<Rightarrow> bool" where
  "commutative oper \<longleftrightarrow> op_flags (limba_ops oper) AND LIMBA_OPF_COMMUTATIVE \<noteq> 0"

definition identity_const :: "limba_inst \<Rightarrow> nat \<Rightarrow> nat \<Rightarrow> bool \<Rightarrow> bool \<Rightarrow> u64 \<Rightarrow> fold_outcome" where
  "identity_const i x y kx ky k =
     (let ones = limba_int_norm (- 1) (in_type i); other = (if kx then y else x); oper = in_op i
      in if oper \<in> {LIMBA_OP_ADD, LIMBA_OP_OR, LIMBA_OP_XOR} \<and> (ky \<or> kx \<and> commutative oper) \<and> k = 0 then FOLD_REPLACE other
         else if oper \<in> {LIMBA_OP_SUB, LIMBA_OP_SHL, LIMBA_OP_LSHR, LIMBA_OP_ASHR} \<and> ky \<and> k = 0 then FOLD_REPLACE x
         else if oper = LIMBA_OP_MUL \<and> (kx \<or> ky) \<and> k = 1 then FOLD_REPLACE other
         else if oper = LIMBA_OP_MUL \<and> (kx \<or> ky) \<and> k = 0 then FOLD_SET (limba_inst_set_iconst i 0)
         else if oper = LIMBA_OP_AND \<and> (kx \<or> ky) \<and> k = 0 then FOLD_SET (limba_inst_set_iconst i 0)
         else if oper = LIMBA_OP_AND \<and> (kx \<or> ky) \<and> k = ones then FOLD_REPLACE other
         else if oper \<in> {LIMBA_OP_UDIV, LIMBA_OP_SDIV} \<and> ky \<and> k = 1 then FOLD_REPLACE x
         else if kx \<and> oper = LIMBA_OP_OR \<and> k = ones then FOLD_SET (limba_inst_set_iconst i ones)
         else if ky \<and> oper = LIMBA_OP_OR \<and> k = ones then FOLD_SET (limba_inst_set_iconst i ones)
         else FOLD_NONE)"

definition identity_same :: "limba_inst \<Rightarrow> nat \<Rightarrow> fold_outcome" where
  "identity_same i x =
     (if in_op i \<in> {LIMBA_OP_SUB, LIMBA_OP_XOR} then FOLD_SET (limba_inst_set_iconst i 0)
      else if in_op i \<in> {LIMBA_OP_AND, LIMBA_OP_OR} then FOLD_REPLACE x
      else FOLD_NONE)"

definition identity :: "limba_func \<Rightarrow> limba_edit \<Rightarrow> limba_inst \<Rightarrow> nat \<Rightarrow> nat \<Rightarrow> (limba_edit \<times> fold_outcome) option" where
  "identity f e i x y =
     do {
       (e, a) \<leftarrow> ival f e x;
       (e, b) \<leftarrow> (if a = None then ival f e y else Some (e, None));
       (e, same) \<leftarrow> same_value e x y;
       let k = (case a of Some k \<Rightarrow> k | None \<Rightarrow> (case b of Some k \<Rightarrow> k | None \<Rightarrow> 0));
           r = identity_const i x y (a \<noteq> None) (b \<noteq> None) k
       in Some (e, if r \<noteq> FOLD_NONE then r else if same then identity_same i x else FOLD_NONE)
     }"

section \<open>An instruction\<close>

text \<open>A check of a true condition is marked dead by the caller: its outcome is the check itself.\<close>

definition fold_check :: "limba_func \<Rightarrow> limba_edit \<Rightarrow> nat \<Rightarrow> nat \<Rightarrow> (limba_edit \<times> bool) option" where
  "fold_check f e x n =
     do {
       (e, a) \<leftarrow> ival f e x;
       Some (if a = None \<or> a = Some 0 then (e, False) else (e\<lparr>ed_dead := (ed_dead e)[n := True]\<rparr>, True))
     }"

definition fold_floats :: "u64 \<Rightarrow> limba_func \<Rightarrow> limba_edit \<Rightarrow> limba_inst \<Rightarrow> nat list \<Rightarrow> (limba_edit \<times> fold_outcome) option" where
  "fold_floats nan f e i xs =
     do {
       (e, v) \<leftarrow> fvals nan f e xs;
       Some (e, case Option.bind v (fold_float nan i) of None \<Rightarrow> FOLD_NONE | Some r \<Rightarrow> FOLD_SET (limba_inst_set_fconst i r))
     }"

definition fold_un :: "u64 \<Rightarrow> limba_func \<Rightarrow> limba_edit \<Rightarrow> limba_inst \<Rightarrow> nat \<Rightarrow> (limba_edit \<times> fold_outcome) option" where
  "fold_un nan f e i x =
     (if in_op i = LIMBA_OP_FNEG
      then do {
        (e, d) \<leftarrow> def f e x;
        Some (e, if in_op d \<noteq> LIMBA_OP_FCONST then FOLD_NONE
                 else FOLD_SET (limba_inst_set_fconst i (in_imm d XOR (if in_type i = LIMBA_T_F32 then 0x80000000 else 0x8000000000000000))))
      }
      else if in_op i = LIMBA_OP_FROUND \<or> in_op i = LIMBA_OP_FROUNDA
      then fold_floats nan f e i [x]
      else do {
        (e, a) \<leftarrow> ival f e x;
        Some (e, case a of None \<Rightarrow> FOLD_NONE
                 | Some a \<Rightarrow> FOLD_SET (limba_inst_set_iconst i (if in_op i = LIMBA_OP_NEG then 0 - uval a (in_type i) else NOT a)))
      })"

definition fold_bin :: "u64 \<Rightarrow> limba_func \<Rightarrow> limba_edit \<Rightarrow> limba_inst \<Rightarrow> nat \<Rightarrow> nat \<Rightarrow> (limba_edit \<times> fold_outcome) option" where
  "fold_bin nan f e i x y =
     (if limba_type_is_float (in_type i) then fold_floats nan f e i [x, y]
      else do {
        (e, ab) \<leftarrow> ivals f e x y;
        case ab of
          Some (a, b) \<Rightarrow>
            Some (e, case fold_int_bin i a b of None \<Rightarrow> FOLD_NONE | Some r \<Rightarrow> FOLD_SET (limba_inst_set_iconst i r))
        | None \<Rightarrow> identity f e i x y
      })"

definition fold_cmp :: "u64 \<Rightarrow> limba_func \<Rightarrow> limba_edit \<Rightarrow> limba_inst \<Rightarrow> nat \<Rightarrow> nat \<Rightarrow> (limba_edit \<times> fold_outcome) option" where
  "fold_cmp nan f e i x y =
     do {
       (e, d) \<leftarrow> def f e x;
       if in_op i = LIMBA_OP_ICMP
       then do {
         (e, ab) \<leftarrow> ivals f e x y;
         case Option.bind ab (\<lambda>(a, b). fold_icmp (in_cc i) (in_type d) a b) of
           Some r \<Rightarrow> Some (e, FOLD_SET (limba_inst_set_iconst i (of_bool r)))
         | None \<Rightarrow> do {
             (e, same) \<leftarrow> same_value e x y;
             Some (e, if same
               then FOLD_SET (limba_inst_set_iconst i
                 (of_bool (in_cc i \<in> {LIMBA_CC_EQ, LIMBA_CC_SLE, LIMBA_CC_SGE, LIMBA_CC_ULE, LIMBA_CC_UGE})))
               else FOLD_NONE)
           }
       }
       else do {
         (e, v) \<leftarrow> fvals nan f e [x, y];
         Some (e, case Option.bind v (\<lambda>v. fold_fcmp (in_cc i) (v ! 0) (v ! 1)) of
             None \<Rightarrow> FOLD_NONE | Some r \<Rightarrow> FOLD_SET (limba_inst_set_iconst i (of_bool r)))
       }
     }"

definition fold_select :: "limba_func \<Rightarrow> limba_edit \<Rightarrow> nat \<Rightarrow> nat \<Rightarrow> nat \<Rightarrow> (limba_edit \<times> fold_outcome) option" where
  "fold_select f e c x y =
     do {
       (e, a) \<leftarrow> ival f e c;
       case a of
         Some a \<Rightarrow> Some (e, FOLD_REPLACE (if a \<noteq> 0 then x else y))
       | None \<Rightarrow> do {
           (e, same) \<leftarrow> same_value e x y;
           Some (e, if same then FOLD_REPLACE x else FOLD_NONE)
         }
     }"

definition fold_math :: "(nat \<Rightarrow> u64 list \<Rightarrow> u64) \<Rightarrow> u64 \<Rightarrow> limba_func \<Rightarrow> limba_edit \<Rightarrow> limba_inst \<Rightarrow>
    (limba_edit \<times> fold_outcome) option" where
  "fold_math libm nan f e i =
     (if in_nops i < 1 \<or> in_nops i > 2 \<or> in_type i \<noteq> LIMBA_T_F64 then Some (e, FOLD_NONE)
      else do {
        (e, v) \<leftarrow> fvals nan f e (map (operand f i) [0 ..< in_nops i]);
        Some (e, case Option.bind v (\<lambda>v. limba_math_call libm (unat (ucast (in_imm i) :: u32)) (v @ [0, 0])) of
            None \<Rightarrow> FOLD_NONE
          | Some x \<Rightarrow> if isnan x then FOLD_NONE else FOLD_SET (limba_inst_set_fconst i (fold_fbits nan x LIMBA_T_F64)))
      })"

definition fold_outcome_of :: "(nat \<Rightarrow> u64 list \<Rightarrow> u64) \<Rightarrow> u64 \<Rightarrow> limba_func \<Rightarrow> limba_edit \<Rightarrow> limba_inst \<Rightarrow>
    (limba_edit \<times> fold_outcome) option" where
  "fold_outcome_of libm nan f e i =
     (let opnd = operand f i
      in case op_format (limba_ops (in_op i)) of
        LIMBA_F_UN \<Rightarrow> fold_un nan f e i (opnd 0)
      | LIMBA_F_BIN \<Rightarrow> fold_bin nan f e i (opnd 0) (opnd 1)
      | LIMBA_F_CMP \<Rightarrow> fold_cmp nan f e i (opnd 0) (opnd 1)
      | LIMBA_F_TERN \<Rightarrow>
          (if in_op i = LIMBA_OP_SELECT then fold_select f e (opnd 0) (opnd 1) (opnd 2) else fold_floats nan f e i [opnd 0, opnd 1, opnd 2])
      | LIMBA_F_CONV \<Rightarrow>
          do { (e, r) \<leftarrow> fold_conv nan f e i (opnd 0); Some (e, case r of None \<Rightarrow> FOLD_NONE | Some i \<Rightarrow> FOLD_SET i) }
      | LIMBA_F_CALL_RT \<Rightarrow> fold_math libm nan f e i
      | _ \<Rightarrow> Some (e, FOLD_NONE))"

text \<open>
  The fold of instruction \<open>n\<close>: the function and the edit after it, and whether it changed.
\<close>

definition limba_fold_inst :: "(nat \<Rightarrow> u64 list \<Rightarrow> u64) \<Rightarrow> u64 \<Rightarrow> limba_func \<Rightarrow> limba_edit \<Rightarrow> nat \<Rightarrow>
    (limba_func \<times> limba_edit \<times> bool) option" where
  "limba_fold_inst libm nan f e n =
     (let i = fn_insts f ! n
      in if op_format (limba_ops (in_op i)) = LIMBA_F_CHECK
         then do { (e, r) \<leftarrow> fold_check f e (operand f i 0) n; Some (f, e, r) }
         else do {
           (e, r) \<leftarrow> fold_outcome_of libm nan f e i;
           case r of
             FOLD_NONE \<Rightarrow> Some (f, e, False)
           | FOLD_SET i \<Rightarrow> Some (f\<lparr>fn_insts := (fn_insts f)[n := i]\<rparr>, e, True)
           | FOLD_REPLACE y \<Rightarrow> do { e \<leftarrow> limba_edit_replace e n y; Some (f, e, True) }
         })"

section \<open>Folding integers and the evaluator\<close>

lemma uval_uv: "limba_type_is_int t \<Longrightarrow> uval v t = uv v t"
  using int_type_bits [of t] by (simp add: uval_def uv_def fold_mask_def width_mask_def Let_def)

lemma sint_smin: "limba_type_is_int t \<Longrightarrow> sint (smin t) = int_min t"
  by (erule int_type_cases) (simp_all add: smin_def int_min_def limba_type_bits_def push_bit_eq_mult)

lemma sint_inj: "(a :: u64) = b \<longleftrightarrow> sint a = sint b"
  by (rule word_eq_iff_signed)

lemma sint_eqs:
  "limba_type_is_int t \<Longrightarrow> a = smin t \<longleftrightarrow> sint a = int_min t" "b = 0 \<longleftrightarrow> sint b = 0" "b = - 1 \<longleftrightarrow> sint b = - 1" for a b :: u64
  using sint_smin [of t] by (simp_all add: sint_inj)

lemma fits_signed_range: "limba_type_is_int t \<Longrightarrow> fits_signed w t \<longleftrightarrow> \<not> (w < int_min t \<or> w > - int_min t - 1)"
  by (erule int_type_cases) (auto simp: fits_signed_def int_min_def limba_type_bits_def)

lemma norm_int_norm: "norm (limba_int_norm v t) t = norm v t"
  using norm_norm by (simp add: norm_def)

text \<open>
  C6: On constants the fold of an integer operation is the operation of the evaluator: it gives a
  number exactly when the operation does not trap, and the number, put in the canonical form of the
  type, is the one the evaluator computes: for every width, shifts by the count modulo the width, both
  divisions, and the six operations that trap on overflow.
\<close>

theorem fold_int_bin_agrees:
  assumes "limba_type_is_int (in_type i)"
  shows "int_bin (in_op i) (in_type i) a b = (case fold_int_bin i a b of
      Some r \<Rightarrow> EV_VALUE (norm r (in_type i))
    | None \<Rightarrow> if in_op i \<in> {LIMBA_OP_UDIV, LIMBA_OP_UREM, LIMBA_OP_SDIV, LIMBA_OP_SREM} then EV_TRAP LIMBA_TRAP_DIVZERO
        else if in_op i \<in> {LIMBA_OP_ADDOV, LIMBA_OP_SUBOV, LIMBA_OP_MULOV, LIMBA_OP_UADDOV, LIMBA_OP_USUBOV, LIMBA_OP_UMULOV}
        then EV_TRAP LIMBA_TRAP_OVERFLOW else EV_UNKNOWN)"
proof -
  note u = uval_uv [OF assms] fits_signed_range [OF assms] sint_eqs(1) [OF assms, of a] sint_eqs(2,3) [of b] norm_int_norm
  show ?thesis by (cases "in_op i") (simp_all add: int_bin_def fold_int_bin_def Let_def u)
qed

theorem fold_int_bin_agrees_witness:
  "int_bin LIMBA_OP_SDIV LIMBA_T_I8 (- 128) (- 1) = EV_TRAP LIMBA_TRAP_DIVZERO \<and>
     fold_int_bin (edit_inst_of LIMBA_OP_SDIV LIMBA_T_I8 0 2) (- 128) (- 1) = None"
  using fold_int_bin_agrees [of "edit_inst_of LIMBA_OP_SDIV LIMBA_T_I8 0 2" "- 128" "- 1"]
  by (simp add: edit_inst_of_def fold_int_bin_def smin_def limba_type_is_int_def push_bit_eq_mult)

section \<open>Folding floats and the evaluator\<close>

lemma fold_icmp_agrees:
  assumes "limba_type_is_int t" "fold_icmp cc t a b = Some r"
  shows "compare nan cc t a b = r"
  using assms(2)
  by (cases cc) (simp_all add: fold_icmp_def compare_def compare_int_def limba_cc_is_float_def Let_def uval_uv [OF assms(1)])

lemma fold_fcmp_agrees: "fold_fcmp cc a b = Some r \<Longrightarrow> compare_float cc a b = r"
  by (cases cc) (simp_all add: fold_fcmp_def compare_float_def Let_def)

lemma compare_float_dec: "dec64 a = dec64 a' \<Longrightarrow> dec64 b = dec64 b' \<Longrightarrow> compare_float cc a b = compare_float cc a' b'"
  by (cases cc) (simp_all add: compare_float_def isnan_def d_eq_def d_less_def d_le_def)

text \<open>Which NaN the machine makes shows in the result only when it is one.\<close>

lemma isnan_enc: "isnan (enc64 nan x) \<longleftrightarrow> x = FNAN" "isnanf (enc32 nan x) \<longleftrightarrow> x = FNAN"
  by (cases x; simp add: isnan_def isnanf_def dec_enc64 dec_enc32)+

lemma enc_number: "x \<noteq> FNAN \<Longrightarrow> enc64 nan x = enc64 nan' x" "x \<noteq> FNAN \<Longrightarrow> enc32 nan x = enc32 nan' x"
  by (cases x; simp add: enc64_def enc32_def encode_def)+

lemma dec_narrow_widen [simp]: "dec32 (narrow nan (widen nan' x)) = dec32 x"
  by (cases "dec32 x = FNAN") (simp_all add: narrow_def dec_widen dec_enc32 enc_dec32)

lemma f_round_narrow: "f_round nan (narrow nan (widen nan' x)) = f_round nan x"
  by (simp add: f_round_def)

lemma round_away_number:
  "\<not> isnan (d_round nan x) \<Longrightarrow> round_away nan' x = d_round nan x"
  "\<not> isnanf (f_round nan y) \<Longrightarrow> round_awayf nan' y = f_round nan y"
proof -
  assume n: "\<not> isnan (d_round nan x)"
  show "round_away nan' x = d_round nan x"
  proof (cases "dec64 x")
    case (FFIN s m)
    have "d_round nan' x = d_round nan x" by (simp add: d_round_def FFIN enc_number [of _ nan' nan])
    then show ?thesis using d_round_away [OF FFIN refl refl, of nan' nan' nan']
      by (simp add: round_away_def Let_def isnan_def isinf_def FFIN)
  next
    case (FINF s)
    then show ?thesis using enc_dec64 [of x nan] by (simp add: round_away_def Let_def isnan_def isinf_def d_round_def)
  qed (use n in \<open>simp add: d_round_def isnan_enc\<close>)
next
  assume n: "\<not> isnanf (f_round nan y)"
  show "round_awayf nan' y = f_round nan y"
  proof (cases "dec32 y")
    case (FFIN s m)
    have "f_round nan' y = f_round nan y" by (simp add: f_round_def FFIN enc_number [of _ nan' nan])
    then show ?thesis using f_round_away [OF FFIN refl refl, of nan' nan' nan']
      by (simp add: round_awayf_def Let_def isnanf_def isinff_def FFIN)
  next
    case (FINF s)
    then show ?thesis using enc_dec32 [of y nan] by (simp add: round_awayf_def Let_def isnanf_def isinff_def f_round_def)
  qed (use n in \<open>simp add: f_round_def isnan_enc\<close>)
qed

text \<open>The number a constant gives the arithmetic of the fold.\<close>

definition float_number :: "u64 \<Rightarrow> limba_id \<Rightarrow> u64 \<Rightarrow> u64" where
  "float_number nan t a = (if t = LIMBA_T_F32 then widen nan (fv32 a) else a)"

definition float_arity :: "limba_op \<Rightarrow> nat" where
  "float_arity oper = (if oper = LIMBA_OP_FMA then 3 else if float_bin oper then 2 else 1)"

lemma fold_float_agrees:
  assumes t: "limba_type_is_float (in_type i)" and op: "in_op i \<noteq> LIMBA_OP_FNEG" and r: "fold_float nan i vs = Some r"
    and vs: "length vs = float_arity (in_op i)" "\<And>k. k < length vs \<Longrightarrow> vs ! k = float_number nan'' (in_type i) (as k)"
  shows "float_op nan' (in_op i) (in_type i) (as 0) (as 1) (as 2) = r"
proof -
  have v: "vs ! 0 = float_number nan'' (in_type i) (as 0)"
      "float_arity (in_op i) \<ge> 2 \<Longrightarrow> vs ! 1 = float_number nan'' (in_type i) (as 1)"
      "float_arity (in_op i) = 3 \<Longrightarrow> vs ! 2 = float_number nan'' (in_type i) (as 2)"
      "0 < length vs" "float_arity (in_op i) \<ge> 2 \<Longrightarrow> 1 < length vs" "float_arity (in_op i) = 3 \<Longrightarrow> 2 < length vs"
    using vs(2) [of 0] vs(2) [of 1] vs(2) [of 2] vs(1) by (auto simp: float_arity_def split: if_splits)
  show ?thesis
  proof (cases "in_type i = LIMBA_T_F32")
    case True
    show ?thesis
      using r op v True
      by (cases "in_op i")
        (auto simp: fold_float_def float_op_def Let_def float_number_def float_arity_def float_bin_def nth_append
          f_add_def f_sub_def f_mul_def f_div_def f_fma_def f_roundeven_def f_round_narrow isnan_enc narrow_widen fold_fbits_def f32bits_def
          enc_number [of _ nan nan'] round_away_number(2) [of nan _ nan'] split: if_splits)
  next
    case False
    show ?thesis
      using r op v False
      by (cases "in_op i")
        (auto simp: fold_float_def float_op_def Let_def float_number_def float_arity_def float_bin_def nth_append dv_def fbits_def
          d_add_def d_sub_def d_mul_def d_div_def d_fma_def d_roundeven_def isnan_enc fold_fbits_def
          enc_number [of _ nan nan'] round_away_number(1) [of nan _ nan'] split: if_splits)
  qed
qed

section \<open>Folding conversions and the evaluator\<close>

text \<open>The value of a constant, as the evaluator has it.\<close>

definition const_value :: "limba_inst \<Rightarrow> u64 option" where
  "const_value d =
     (if in_op d = LIMBA_OP_ICONST then Some (norm (in_imm d) (in_type d))
      else if in_op d = LIMBA_OP_FCONST then Some (if in_type d = LIMBA_T_F32 then ucast (ucast (in_imm d) :: u32) else in_imm d)
      else None)"

lemma const_set [simp]:
  "const_value (limba_inst_set_iconst i x) = Some (norm x (in_type i))"
  "const_value (limba_inst_set_fconst i y) = Some (if in_type i = LIMBA_T_F32 then ucast (ucast y :: u32) else y)"
  "in_type (limba_inst_set_iconst i x) = in_type i" "in_type (limba_inst_set_fconst i y) = in_type i"
  by (simp_all add: const_value_def limba_inst_set_iconst_def limba_inst_set_fconst_def norm_int_norm)

lemma ucast_id [simp]: "ucast (ucast (ucast (x :: u32) :: u64) :: u32) = x" "(ucast (ucast (x :: u32) :: u64) :: u32) = x"
  by (rule bit_word_eqI; auto simp: bit_ucast_iff)+

lemma of_int_number [simp]: "\<not> isnanf (f_of_int k)"
  by (simp add: f_of_int_def isnan_enc fv_of_int_def)

lemma sext_bool: "norm a LIMBA_T_I1 = a \<Longrightarrow> - a = (if a \<noteq> 0 then NOT 0 else 0)"
proof -
  assume "norm a LIMBA_T_I1 = a"
  then have "a = a mod 2" by (simp add: norm_bool take_bit_eq_mod)
  then have "a = 0 \<or> a = 1" by (metis mod2_eq_if)
  then show ?thesis by auto
qed

lemma ucast_uv32: "(ucast (uv a LIMBA_T_I32) :: u32) = ucast a"
proof -
  have "uv a LIMBA_T_I32 = take_bit 32 a" by (simp add: uv_take limba_type_is_int_def)
  moreover have "(ucast (take_bit 32 a) :: u32) = ucast a" by (rule bit_word_eqI) (simp add: bit_ucast_iff bit_take_bit_iff)
  ultimately show ?thesis by simp
qed

lemma fold_conv_int_agrees:
  assumes t: "conv_typed (in_op i) (in_type d) (in_type i)" and a: "limba_type_is_int (in_type d)" "norm a (in_type d) = a"
    and j: "fold_conv_int nan i d a = Some j"
  shows "\<exists>c. convert nan' (in_op i) (in_type d) (in_type i) a = EV_VALUE c \<and> const_value j = Some c \<and> in_type j = in_type i"
proof -
  have u: "uval a (in_type d) = uv a (in_type d)" by (rule uval_uv [OF a(1)])
  have s: "in_type d = LIMBA_T_I1 \<Longrightarrow> - a = (if a \<noteq> 0 then NOT 0 else 0)" using sext_bool [of a] a(2) by simp
  show ?thesis
    using t a j u s
    by (cases "in_op i")
      (auto simp: conv_typed_def fold_conv_int_def convert_def Let_def fold_fbits_def fbits_def f32bits_def narrow_widen
        ucast_uv32 int_not_float limba_type_is_int_def)
qed

lemma exact_pow2: "k + 1076 < 2048 \<Longrightarrow> exact binary64 (2 ^ k)"
proof -
  assume k: "k + 1076 < 2048"
  have "(2 :: rat) ^ k * 2 ^ ff_scale binary64 = of_nat (1 * 2 ^ (k + 1074))"
    by (simp add: binary64_def ff_scale_def power_add)
  moreover have "1 < (2 :: nat) ^ ff_prec binary64" "k + 1074 + 2 < 2 ^ ff_exp binary64" using k by (simp_all add: binary64_def)
  ultimately show ?thesis unfolding exact_def by blast
qed

lemma dec_pow2: "k < 64 \<Longrightarrow> dec64 (d_pow2 k) = FFIN False (2 ^ k)"
  using exact_pow2 [of k] by (simp add: d_pow2_def dec_enc64)

lemma xor_disjoint: "(\<And>k. \<not> (bit x k \<and> bit y k)) \<Longrightarrow> x XOR y = x OR y" for x y :: u64
  by (rule bit_word_eqI) (auto simp: bit_xor_iff bit_or_iff)

lemma dec_neg_pos:
  assumes "dec64 x = FFIN False m"
  shows "dec64 (d_neg x) = FFIN True m"
proof -
  have x: "unat x < 2 ^ 63" using assms decode_sign [of binary64 "unat x" False m] by (simp add: dec64_def ff_signs)
  have "\<not> bit x 63" using bit_take_bit_iff [of 63 x 63] take_bit_id_if_lt [OF x] by simp
  moreover have "bit (push_bit 63 1 :: u64) k \<Longrightarrow> k = 63" for k unfolding bit_push_bit_iff bit_1_iff by linarith
  ultimately have "\<not> (bit x k \<and> bit (push_bit 63 1 :: u64) k)" for k by blast
  then have "x XOR push_bit 63 1 = x OR push_bit 63 1" by (rule xor_disjoint)
  then have "d_neg x = x OR push_bit 63 1" by (simp add: d_neg_def push_bit_eq_mult)
  moreover have "unat (x OR push_bit 63 1) = unat x + unat (1 :: u64) * 2 ^ 63" by (rule unat_or_push [OF x]) simp
  ultimately have "unat (d_neg x) = (if True then ff_sign binary64 else 0) + unat x mod ff_sign binary64"
    using x by (simp add: ff_signs)
  then show ?thesis using decode_copysign [of binary64 "unat x" False m True] assms by (simp add: dec64_def ff_signs)
qed

text \<open>The ends of the range of a saturating conversion.\<close>

lemma sat_low:
  assumes "limba_type_is_int t"
  shows "word_of_int (d_to_int (d_neg (d_pow2 (limba_type_bits t - 1)))) = smin t"
proof -
  have "limba_type_bits t - 1 < 64" using int_type_bits [OF assms] by linarith
  then have "d_to_int (d_neg (d_pow2 (limba_type_bits t - 1))) = - (2 ^ (limba_type_bits t - 1))"
    using dec_neg_pos [OF dec_pow2] floor_of_int [of "2 ^ (limba_type_bits t - 1)", where ?'a = rat] by (simp add: d_to_int_def)
  also have "\<dots> = int_min t" using assms by (cases rule: int_type_cases) (simp_all add: int_min_def limba_type_bits_def)
  also have "\<dots> = sint (smin t)" by (rule sint_smin [OF assms, symmetric])
  finally show ?thesis by simp
qed

lemma sat_high:
  assumes "limba_type_is_int t"
  shows "norm (smin t - 1) t = norm (if limba_type_bits t \<ge> 64 then 0x7FFFFFFFFFFFFFFF else push_bit (limba_type_bits t - 1) 1 - 1) t"
  using assms
  by (cases rule: int_type_cases) (simp_all add: smin_def norm_def limba_int_norm_def limba_type_bits_def push_bit_eq_mult)

lemma sext32: "norm (scast (x :: u32)) LIMBA_T_I32 = norm (ucast x) LIMBA_T_I32"
proof -
  have "signed_take_bit 31 (scast x :: u64) = signed_take_bit 31 (ucast x)"
    by (rule bit_word_eqI) (auto simp: bit_signed_take_bit_iff bit_signed_iff bit_ucast_iff min_def)
  then show ?thesis by (simp add: norm_signed limba_type_is_int_def)
qed

lemma fold_conv_float_agrees:
  assumes t: "conv_typed (in_op i) (in_type d) (in_type i)" "limba_type_is_float (in_type d)" "in_op d = LIMBA_OP_FCONST"
    and fa: "fa = (if in_type d = LIMBA_T_F32 then widen nan (ucast (in_imm d)) else in_imm d)"
    and a: "const_value d = Some a" and j: "fold_conv_float nan i d fa = Some j"
  shows "\<exists>c. convert nan' (in_op i) (in_type d) (in_type i) a = EV_VALUE c \<and> const_value j = Some c \<and> in_type j = in_type i"
proof -
  define d' where "d' = fnum nan' a (in_type d)"
  have dec: "dec64 d' = dec64 fa"
    using a t(3) by (auto simp: d'_def fa fnum_def fv32_def dv_def const_value_def dec_widen)
  have same: "isnan d' = isnan fa" "\<not> isnan fa \<Longrightarrow> d_trunc nan' d' = d_trunc nan fa" "\<not> isnan fa \<Longrightarrow> narrow nan' d' = narrow nan fa"
    using dec enc_number [of _ nan' nan] by (auto simp: isnan_def d_trunc_def narrow_def elim: fv_integral.elims)
  note c = convert_def Let_def d'_def [symmetric]
  show ?thesis
  proof (cases "in_op i")
    case LIMBA_OP_FPTRUNC
    then have n: "\<not> isnan fa" "in_type i = LIMBA_T_F32" using j t(1) by (auto simp: fold_conv_float_def conv_typed_def)
    then have "\<not> isnanf (narrow nan fa)" by (simp add: narrow_def isnan_enc isnan_def)
    then show ?thesis using LIMBA_OP_FPTRUNC n j same(3) t(2)
      by (auto simp: fold_conv_float_def c fold_fbits_def fbits_def f32bits_def narrow_widen)
  next
    case LIMBA_OP_FPEXT
    then have n: "\<not> isnan fa" "in_type i = LIMBA_T_F64" using j t(1) by (auto simp: fold_conv_float_def conv_typed_def)
    moreover have "d' = fa" using n(1) dec enc_dec64 unfolding isnan_def by metis
    ultimately show ?thesis using LIMBA_OP_FPEXT j t(2) by (auto simp: fold_conv_float_def c fold_fbits_def fbits_def)
  next
    case LIMBA_OP_FPTOSI
    then have ti: "limba_type_is_int (in_type i)" using t(1) by (simp add: conv_typed_def)
    show ?thesis
      using LIMBA_OP_FPTOSI j same t(2) sat_low [OF ti] sat_high [OF ti] by (auto simp: fold_conv_float_def c)
  next
    case LIMBA_OP_FPTOUI
    then have ti: "limba_type_is_int (in_type i)" using t(1) by (simp add: conv_typed_def)
    have "fold_mask (limba_type_bits (in_type i)) = width_mask (in_type i)"
      using int_type_bits [OF ti] by (simp add: fold_mask_def width_mask_def Let_def)
    then show ?thesis using LIMBA_OP_FPTOUI j same t(2) by (auto simp: fold_conv_float_def c)
  next
    case LIMBA_OP_BITCAST
    then consider "in_type d = LIMBA_T_F32" "in_type i = LIMBA_T_I32" | "in_type d = LIMBA_T_F64" "in_type i = LIMBA_T_I64"
      using t(1,2) by (auto simp: conv_typed_def limba_type_is_float_def)
    then show ?thesis
    proof cases
      case 1
      have "a = ucast (ucast (in_imm d) :: u32)" using a t(3) 1 by (simp add: const_value_def)
      moreover have "j = limba_inst_set_iconst i (scast (ucast (in_imm d) :: u32))"
        using j LIMBA_OP_BITCAST 1 by (simp add: fold_conv_float_def Let_def)
      ultimately show ?thesis using sext32 [of "ucast (in_imm d)"] LIMBA_OP_BITCAST 1 by (simp add: convert_def Let_def)
    next
      case 2
      have "a = in_imm d" using a t(3) 2 by (simp add: const_value_def)
      moreover have "j = limba_inst_set_iconst i (in_imm d)" using j LIMBA_OP_BITCAST 2 by (simp add: fold_conv_float_def Let_def)
      ultimately show ?thesis using LIMBA_OP_BITCAST 2 by (simp add: convert_def Let_def)
    qed
  qed (use j t(1,2) in \<open>auto simp: fold_conv_float_def conv_typed_def Let_def limba_type_is_float_def limba_type_is_int_def split: if_splits\<close>)
qed

section \<open>Identities and the evaluator\<close>

lemma uv_0 [simp]: "uv 0 t = 0"
  by (simp add: uv_def)

lemma uv_1: "limba_type_is_int t \<Longrightarrow> uv 1 t = 1"
  using int_type_bits [of t] by (simp add: uv_take)

lemma norm_ones: "limba_type_is_int t \<Longrightarrow> norm (- 1) t = (if t = LIMBA_T_I1 then 1 else - 1)"
  by (simp add: norm_bool norm_signed)

lemma bool_word: "norm a LIMBA_T_I1 = a \<Longrightarrow> a = 0 \<or> a = 1"
  by (metis norm_bool mod2_eq_if power_one_right take_bit_eq_mod)

lemma ones_and:
  assumes "limba_type_is_int t" "norm b t = b"
  shows "norm (norm (- 1) t AND b) t = b" "norm (b AND norm (- 1) t) t = b"
    "norm (norm (- 1) t OR b) t = norm (- 1) t" "norm (b OR norm (- 1) t) t = norm (- 1) t"
  using assms bool_word [of b] by (cases "t = LIMBA_T_I1"; auto simp: norm_ones)+

lemma sdiv_1: "limba_type_is_int t \<Longrightarrow> int_bin LIMBA_OP_SDIV t a 1 = EV_VALUE (norm a t)"
  by (simp add: int_bin_def Let_def)

definition value_kept :: "limba_inst \<Rightarrow> eval_result \<Rightarrow> nat \<Rightarrow> nat \<Rightarrow> u64 \<Rightarrow> u64 \<Rightarrow> fold_outcome \<Rightarrow> bool" where
  "value_kept i r x y a b out \<longleftrightarrow>
     (case out of
        FOLD_NONE \<Rightarrow> True
      | FOLD_SET j \<Rightarrow> (\<exists>c. r = EV_VALUE c \<and> const_value j = Some c \<and> in_type j = in_type i)
      | FOLD_REPLACE z \<Rightarrow> z = x \<and> r = EV_VALUE a \<or> z = y \<and> r = EV_VALUE b)"

lemma commutative_ops: "commutative LIMBA_OP_ADD" "commutative LIMBA_OP_OR" "commutative LIMBA_OP_XOR"
  by (simp_all add: commutative_def)

text \<open>The operations of the evaluator with a constant that leaves them alone, or fixes the result.\<close>

lemma int_bin_units:
  assumes "limba_type_is_int t" "norm a t = a"
  shows "int_bin LIMBA_OP_ADD t a 0 = EV_VALUE a" "int_bin LIMBA_OP_ADD t 0 a = EV_VALUE a"
    "int_bin LIMBA_OP_OR t a 0 = EV_VALUE a" "int_bin LIMBA_OP_OR t 0 a = EV_VALUE a"
    "int_bin LIMBA_OP_XOR t a 0 = EV_VALUE a" "int_bin LIMBA_OP_XOR t 0 a = EV_VALUE a"
    "int_bin LIMBA_OP_SUB t a 0 = EV_VALUE a" "int_bin LIMBA_OP_SHL t a 0 = EV_VALUE a"
    "int_bin LIMBA_OP_LSHR t a 0 = EV_VALUE a" "int_bin LIMBA_OP_ASHR t a 0 = EV_VALUE a"
    "int_bin LIMBA_OP_MUL t a 1 = EV_VALUE a" "int_bin LIMBA_OP_MUL t 1 a = EV_VALUE a"
    "int_bin LIMBA_OP_MUL t a 0 = EV_VALUE 0" "int_bin LIMBA_OP_MUL t 0 a = EV_VALUE 0"
    "int_bin LIMBA_OP_AND t a 0 = EV_VALUE 0" "int_bin LIMBA_OP_AND t 0 a = EV_VALUE 0"
    "int_bin LIMBA_OP_AND t a (norm (- 1) t) = EV_VALUE a" "int_bin LIMBA_OP_AND t (norm (- 1) t) a = EV_VALUE a"
    "int_bin LIMBA_OP_OR t a (norm (- 1) t) = EV_VALUE (norm (- 1) t)" "int_bin LIMBA_OP_OR t (norm (- 1) t) a = EV_VALUE (norm (- 1) t)"
    "int_bin LIMBA_OP_UDIV t a 1 = EV_VALUE a" "int_bin LIMBA_OP_SDIV t a 1 = EV_VALUE a"
  by (simp_all add: int_bin_def Let_def ones_and [OF assms] norm_uv [OF assms(1)] uv_1 [OF assms(1)] assms(2))

lemma identity_const_kept:
  assumes t: "limba_type_is_int (in_type i)" and c: "norm a (in_type i) = a" "norm b (in_type i) = b"
    and k: "kx \<Longrightarrow> k = a" "ky \<Longrightarrow> k = b" "\<not> (kx \<and> ky)"
  shows "value_kept i (int_bin (in_op i) (in_type i) a b) x y a b (identity_const i x y kx ky k)"
proof -
  note u = int_bin_units [OF t c(1)] int_bin_units [OF t c(2)] commutative_ops
  have ones: "limba_int_norm (- 1) (in_type i) = norm (- 1) (in_type i)" by (simp add: norm_def)
  consider "kx" "\<not> ky" "k = a" | "\<not> kx" "ky" "k = b" | "\<not> kx" "\<not> ky" using k by blast
  then show ?thesis
  proof cases
    case 1
    show ?thesis
      by (cases "in_op i"; simp add: identity_const_def value_kept_def Let_def ones 1 u del: One_nat_def)
  next
    case 2
    show ?thesis
      by (cases "in_op i"; simp add: identity_const_def value_kept_def Let_def ones 2 u del: One_nat_def)
  qed (auto simp: identity_const_def value_kept_def Let_def)
qed

lemma identity_same_kept:
  assumes "limba_type_is_int (in_type i)" "norm a (in_type i) = a"
  shows "value_kept i (int_bin (in_op i) (in_type i) a a) x y a a (identity_same i x)"
  using assms by (auto simp: identity_same_def value_kept_def int_bin_def Let_def)

section \<open>Reading operands\<close>

text \<open>A step that only reads: it ends with \<open>r\<close>, and the edit is the same but for shorter chains.\<close>

definition reads :: "limba_edit \<Rightarrow> (limba_edit \<times> 'a) option \<Rightarrow> 'a \<Rightarrow> bool" where
  "reads e m r \<longleftrightarrow> (\<exists>e'. m = Some (e', r) \<and> same_edit e e')"

lemma reads_return: "edit_ok e \<Longrightarrow> reads e (Some (e, r)) r"
  by (simp add: reads_def same_edit_refl)

lemma reads_bind:
  assumes "reads e m a" "\<And>e'. same_edit e e' \<Longrightarrow> reads e' (k e' a) r"
  shows "reads e (Option.bind m (\<lambda>(e, a). k e a)) r"
proof -
  obtain e1 where "m = Some (e1, a)" "same_edit e e1" using assms(1) by (auto simp: reads_def)
  moreover obtain e2 where "k e1 a = Some (e2, r)" "same_edit e1 e2" using assms(2) [of e1] calculation(2) by (auto simp: reads_def)
  ultimately show ?thesis using same_edit_trans by (auto simp: reads_def)
qed

lemma reads_end:
  assumes "reads e m a" "b = g a"
  shows "reads e (Option.bind m (\<lambda>(e, a). Some (e, g a))) b"
  using assms by (auto simp: reads_def)

text \<open>
  The values \<open>v\<close> of a run agree with a function under edit on the values \<open>A\<close> computed so far: a value has
  that of what it stands for, of the same type, in its canonical form; and a constant has its own.
\<close>

definition const_typed :: "limba_inst \<Rightarrow> bool" where
  "const_typed d \<longleftrightarrow> (in_op d = LIMBA_OP_ICONST \<longrightarrow> limba_type_is_int (in_type d)) \<and>
     (in_op d = LIMBA_OP_FCONST \<longrightarrow> limba_type_is_float (in_type d))"

definition value_type :: "limba_func \<Rightarrow> nat \<Rightarrow> limba_id" where
  "value_type f x = in_type (fn_insts f ! x)"

definition value_ok :: "limba_func \<Rightarrow> limba_edit \<Rightarrow> u64 list \<Rightarrow> nat set \<Rightarrow> nat \<Rightarrow> bool" where
  "value_ok f e v A x \<longleftrightarrow> x < length (fn_insts f) \<and> edit_value e x \<in> A \<and> v ! edit_value e x = v ! x \<and>
     value_type f (edit_value e x) = value_type f x \<and> canonical (value_type f x) (v ! x) \<and>
     const_typed (fn_insts f ! x) \<and> (const_value (fn_insts f ! x) = None \<or> const_value (fn_insts f ! x) = Some (v ! x))"

definition env_ok :: "limba_func \<Rightarrow> limba_edit \<Rightarrow> u64 list \<Rightarrow> nat set \<Rightarrow> bool" where
  "env_ok f e v A \<longleftrightarrow> edit_ok e \<and> ed_ninsts e = length (fn_insts f) \<and> (\<forall>x \<in> A. value_ok f e v A x)"

lemma env_same: "env_ok f e v A \<Longrightarrow> same_edit e e' \<Longrightarrow> env_ok f e' v A"
  by (simp add: env_ok_def value_ok_def same_edit_def)

lemma env_edit: "env_ok f e v A \<Longrightarrow> edit_ok e"
  by (simp add: env_ok_def)

lemma env_value: "env_ok f e v A \<Longrightarrow> x \<in> A \<Longrightarrow> value_ok f e v A x"
  by (simp add: env_ok_def)

definition int_const :: "limba_inst \<Rightarrow> u64 option" where
  "int_const d = (if in_op d \<noteq> LIMBA_OP_ICONST then None else Some (limba_int_norm (in_imm d) (in_type d)))"

definition float_const :: "u64 \<Rightarrow> limba_inst \<Rightarrow> u64 option" where
  "float_const nan d = (if in_op d \<noteq> LIMBA_OP_FCONST then None
     else if in_type d = LIMBA_T_F32 then Some (widen nan (ucast (in_imm d))) else Some (in_imm d))"

definition root_inst :: "limba_func \<Rightarrow> limba_edit \<Rightarrow> nat \<Rightarrow> limba_inst" where
  "root_inst f e x = fn_insts f ! edit_value e x"

lemma resolve_reads: "edit_ok e \<Longrightarrow> reads e (limba_edit_resolve e x) (edit_value e x)"
  using resolve_spec by (simp add: reads_def)

lemma same_value_reads: "edit_ok e \<Longrightarrow> reads e (same_value e x y) (edit_value e x = edit_value e y)"
  unfolding same_value_def
  by (rule reads_bind [OF resolve_reads], assumption, rule reads_bind [OF resolve_reads])
    (auto simp: same_edit_def intro: reads_return)

lemma def_reads:
  assumes "env_ok f e v A" "x \<in> A"
  shows "reads e (def f e x) (root_inst f e x)"
proof -
  have "edit_value e x < length (fn_insts f)" using env_value [OF assms] assms(1) by (auto simp: value_ok_def env_ok_def)
  then show ?thesis unfolding def_def
    by (intro reads_bind [OF resolve_reads [OF env_edit [OF assms(1)]]]) (auto simp: root_inst_def same_edit_def intro: reads_return)
qed

lemma ival_reads: "env_ok f e v A \<Longrightarrow> x \<in> A \<Longrightarrow> reads e (ival f e x) (int_const (root_inst f e x))"
  unfolding ival_def by (rule reads_end [OF def_reads]) (simp_all add: int_const_def)

lemma fval_reads: "env_ok f e v A \<Longrightarrow> x \<in> A \<Longrightarrow> reads e (fval nan f e x) (float_const nan (root_inst f e x))"
  unfolding fval_def by (rule reads_end [OF def_reads]) (simp_all add: float_const_def)

lemma ivals_reads:
  assumes e: "env_ok f e v A" and x: "x \<in> A" "y \<in> A"
  shows "reads e (ivals f e x y) (case int_const (root_inst f e x) of None \<Rightarrow> None
    | Some a \<Rightarrow> map_option (Pair a) (int_const (root_inst f e y)))"
  unfolding ivals_def
proof (rule reads_bind [OF ival_reads [OF e x(1)]])
  fix e' assume s: "same_edit e e'"
  note e' = env_same [OF e s]
  have "root_inst f e' y = root_inst f e y" using s by (simp add: root_inst_def same_edit_def)
  then show "reads e' (case int_const (root_inst f e x) of None \<Rightarrow> Some (e', None)
      | Some a \<Rightarrow> Option.bind (ival f e' y) (\<lambda>(e, b). Some (e, map_option (Pair a) b)))
    (case int_const (root_inst f e x) of None \<Rightarrow> None | Some a \<Rightarrow> map_option (Pair a) (int_const (root_inst f e y)))"
    by (cases "int_const (root_inst f e x)")
      (simp_all add: reads_return [OF env_edit [OF e']] reads_end [OF ival_reads [OF e' x(2)]])
qed

lemma fvals_reads:
  assumes "env_ok f e v A" "set xs \<subseteq> A"
  shows "reads e (fvals nan f e xs) (those (map (\<lambda>x. float_const nan (root_inst f e x)) xs))"
  using assms
proof (induction xs arbitrary: e)
  case (Cons x xs)
  have "reads e' (case float_const nan (root_inst f e x) of None \<Rightarrow> Some (e', None)
      | Some a \<Rightarrow> Option.bind (fvals nan f e' xs) (\<lambda>(e, as). Some (e, map_option (Cons a) as)))
    (those (map (\<lambda>x. float_const nan (root_inst f e x)) (x # xs)))" if s: "same_edit e e'" for e'
  proof -
    note e' = env_same [OF Cons.prems(1) s]
    have "root_inst f e' = root_inst f e" using s by (auto simp: root_inst_def same_edit_def)
    moreover have "set xs \<subseteq> A" using Cons.prems(2) by simp
    ultimately show ?thesis
      by (cases "float_const nan (root_inst f e x)")
        (simp_all add: reads_return [OF env_edit [OF e']] reads_end [OF Cons.IH [OF e']])
  qed
  moreover have "x \<in> A" using Cons.prems(2) by simp
  ultimately show ?case unfolding fvals.simps by (intro reads_bind [OF fval_reads [OF Cons.prems(1)]])
qed (simp add: reads_return env_edit)

text \<open>What the constants read are: the values of the run.\<close>

lemma root_facts:
  assumes "env_ok f e v A" "x \<in> A"
  shows "in_type (root_inst f e x) = value_type f x" "const_typed (root_inst f e x)"
    "const_value (root_inst f e x) = None \<or> const_value (root_inst f e x) = Some (v ! x)" "canonical (value_type f x) (v ! x)"
proof -
  have x: "value_ok f e v A x" "value_ok f e v A (edit_value e x)"
    using env_value [OF assms] env_value [OF assms(1), of "edit_value e x"] by (auto simp: value_ok_def)
  then show "in_type (root_inst f e x) = value_type f x" "const_typed (root_inst f e x)"
    "const_value (root_inst f e x) = None \<or> const_value (root_inst f e x) = Some (v ! x)" "canonical (value_type f x) (v ! x)"
    by (auto simp: value_ok_def root_inst_def value_type_def)
qed

lemma int_const_value:
  assumes "env_ok f e v A" "x \<in> A" "int_const (root_inst f e x) = Some a"
  shows "v ! x = a" "limba_type_is_int (value_type f x)" "norm a (value_type f x) = a"
  using root_facts [OF assms(1,2)] assms(3)
  by (auto simp: int_const_def const_value_def const_typed_def canonical_def norm_def [symmetric] split: if_splits)

lemma float_const_value:
  assumes "env_ok f e v A" "x \<in> A" "float_const nan (root_inst f e x) = Some a"
  shows "a = float_number nan (value_type f x) (v ! x)" "limba_type_is_float (value_type f x)"
proof -
  have op: "in_op (root_inst f e x) = LIMBA_OP_FCONST" using assms(3) by (auto simp: float_const_def split: if_splits)
  then show "limba_type_is_float (value_type f x)" using root_facts [OF assms(1,2)] by (simp add: const_typed_def)
  have "v ! x = (if value_type f x = LIMBA_T_F32 then ucast (ucast (in_imm (root_inst f e x)) :: u32) else in_imm (root_inst f e x))"
    using root_facts [OF assms(1,2)] op by (auto simp: const_value_def split: if_splits)
  then show "a = float_number nan (value_type f x) (v ! x)"
    using root_facts(1) [OF assms(1,2)] assms(3) op by (auto simp: float_const_def float_number_def fv32_def split: if_splits)
qed

section \<open>The outcome of a fold and the evaluator\<close>

definition outcome_ok :: "(nat \<Rightarrow> u64 list \<Rightarrow> u64) \<Rightarrow> u64 \<Rightarrow> limba_func \<Rightarrow> u64 list \<Rightarrow> nat set \<Rightarrow> limba_inst \<Rightarrow> fold_outcome \<Rightarrow> bool" where
  "outcome_ok libm nan f v A i r \<longleftrightarrow>
     (case r of
        FOLD_NONE \<Rightarrow> True
      | FOLD_SET j \<Rightarrow> (\<exists>c. eval_inst libm nan f v i = Some (EV_VALUE c) \<and> const_value j = Some c \<and> in_type j = in_type i \<and> const_typed j)
      | FOLD_REPLACE z \<Rightarrow> z \<in> A \<and> eval_inst libm nan f v i = Some (EV_VALUE (v ! z)) \<and> value_type f z = in_type i)"

definition folds_ok :: "(nat \<Rightarrow> u64 list \<Rightarrow> u64) \<Rightarrow> u64 \<Rightarrow> limba_func \<Rightarrow> limba_edit \<Rightarrow> u64 list \<Rightarrow> nat set \<Rightarrow> limba_inst \<Rightarrow>
    (limba_edit \<times> fold_outcome) option \<Rightarrow> bool" where
  "folds_ok libm nan f e v A i m \<longleftrightarrow> (\<exists>r. reads e m r \<and> outcome_ok libm nan f v A i r)"

definition inst_env :: "limba_func \<Rightarrow> limba_edit \<Rightarrow> u64 list \<Rightarrow> nat set \<Rightarrow> limba_inst \<Rightarrow> bool" where
  "inst_env f e v A i \<longleftrightarrow> env_ok f e v A \<and> inst_typed f i \<and> (\<forall>k < in_nops i. operand f i k \<in> A)"

lemma inst_envD:
  assumes "inst_env f e v A i"
  shows "env_ok f e v A" "inst_typed f i" "k < in_nops i \<Longrightarrow> operand f i k \<in> A" "edit_ok e"
  using assms by (auto simp: inst_env_def env_ok_def)

lemma inst_env_same: "inst_env f e v A i \<Longrightarrow> same_edit e e' \<Longrightarrow> inst_env f e' v A i"
  using env_same by (auto simp: inst_env_def)

lemma outcome_none [simp]: "outcome_ok libm nan f v A i FOLD_NONE"
  by (simp add: outcome_ok_def)

lemma typed_set [simp]:
  "const_typed (limba_inst_set_iconst i x) \<longleftrightarrow> limba_type_is_int (in_type i)"
  "const_typed (limba_inst_set_fconst i x) \<longleftrightarrow> limba_type_is_float (in_type i)"
  by (simp_all add: const_typed_def limba_inst_set_iconst_def limba_inst_set_fconst_def)

lemma outcome_iconst:
  assumes "eval_inst libm nan f v i = Some (EV_VALUE (norm x (in_type i)))" "limba_type_is_int (in_type i)"
  shows "outcome_ok libm nan f v A i (FOLD_SET (limba_inst_set_iconst i x))"
  using assms by (simp add: outcome_ok_def)

lemma outcome_fconst:
  assumes "eval_inst libm nan f v i = Some (EV_VALUE (if in_type i = LIMBA_T_F32 then ucast (ucast x :: u32) else x))"
    "limba_type_is_float (in_type i)"
  shows "outcome_ok libm nan f v A i (FOLD_SET (limba_inst_set_fconst i x))"
  using assms by (simp add: outcome_ok_def)

lemma folds_end:
  assumes "reads e m a" "outcome_ok libm nan f v A i (g a)"
  shows "folds_ok libm nan f e v A i (Option.bind m (\<lambda>(e, a). Some (e, g a)))"
  using assms reads_end [of e m a "g a" g] by (auto simp: folds_ok_def)

lemma folds_bind:
  assumes "reads e m a" "\<And>e'. same_edit e e' \<Longrightarrow> folds_ok libm nan f e' v A i (k e' a)"
  shows "folds_ok libm nan f e v A i (Option.bind m (\<lambda>(e, a). k e a))"
proof -
  obtain e1 where e1: "m = Some (e1, a)" "same_edit e e1" using assms(1) by (auto simp: reads_def)
  obtain r e2 where "k e1 a = Some (e2, r)" "same_edit e1 e2" "outcome_ok libm nan f v A i r"
    using assms(2) [OF e1(2)] by (auto simp: folds_ok_def reads_def)
  then show ?thesis using e1 same_edit_trans by (auto simp: folds_ok_def reads_def)
qed

lemma folds_return: "edit_ok e \<Longrightarrow> outcome_ok libm nan f v A i r \<Longrightarrow> folds_ok libm nan f e v A i (Some (e, r))"
  using reads_return [of e r] by (auto simp: folds_ok_def)

lemma those_nth: "those xs = Some ys \<Longrightarrow> length ys = length xs \<and> (\<forall>k < length xs. xs ! k = Some (ys ! k))"
  by (induction xs arbitrary: ys) (auto split: option.splits simp: nth_Cons')

text \<open>A float operation on constants.\<close>

lemma fold_floats_ok:
  assumes i: "inst_env f e v A i" and op: "in_op i \<noteq> LIMBA_OP_FNEG" and t: "limba_type_is_float (in_type i)"
    and n: "in_nops i = float_arity (in_op i)" "\<And>k. k < in_nops i \<Longrightarrow> operand_type f i k = in_type i"
    and x: "\<And>k. as k = (if k < in_nops i then v ! operand f i k else 0)"
    and ev: "eval_inst libm nan' f v i = Some (EV_VALUE (float_op nan' (in_op i) (in_type i) (as 0) (as 1) (as 2)))"
  shows "folds_ok libm nan' f e v A i (fold_floats nan f e i (map (operand f i) [0 ..< in_nops i]))"
  unfolding fold_floats_def
proof (rule folds_end [OF fvals_reads [OF inst_envD(1) [OF i]]])
  show "set (map (operand f i) [0 ..< in_nops i]) \<subseteq> A" using inst_envD(3) [OF i] by auto
  let ?c = "\<lambda>x. float_const nan (root_inst f e x)"
  let ?vs = "those (map ?c (map (operand f i) [0 ..< in_nops i]))"
  have "outcome_ok libm nan' f v A i (FOLD_SET (limba_inst_set_fconst i r))"
    if vs: "?vs = Some vs" and r: "fold_float nan i vs = Some r" for vs r
  proof (rule outcome_fconst [OF _ t])
    have l: "length vs = in_nops i" "?c (operand f i k) = Some (vs ! k)" if "k < in_nops i" for k
      using those_nth [OF vs] that by simp_all
    have len: "length vs = float_arity (in_op i)" using those_nth [OF vs] n(1) by simp
    have "vs ! k = float_number nan (in_type i) (as k)" if "k < length vs" for k
    proof -
      have k: "k < in_nops i" using that len n(1) by simp
      show ?thesis
        using float_const_value(1) [OF inst_envD(1) [OF i] inst_envD(3) [OF i k] l(2) [OF k]] n(2) [OF k] k
        by (simp add: x operand_type_def value_type_def)
    qed
    then have fl: "float_op nan' (in_op i) (in_type i) (as 0) (as 1) (as 2) = r"
      by (rule fold_float_agrees [OF t op r len])
    have "in_type i = LIMBA_T_F32 \<Longrightarrow> ucast (ucast r :: u32) = r"
      using r by (auto simp: fold_float_def fold_fbits_def Let_def split: option.splits if_splits)
    then show "eval_inst libm nan' f v i = Some (EV_VALUE (if in_type i = LIMBA_T_F32 then ucast (ucast r :: u32) else r))"
      using ev fl by simp
  qed
  then show "outcome_ok libm nan' f v A i (case Option.bind ?vs (fold_float nan i) of
      None \<Rightarrow> FOLD_NONE | Some r \<Rightarrow> FOLD_SET (limba_inst_set_fconst i r))"
    by (auto split: option.split simp: bind_eq_Some_conv)
qed

lemma low_xor: "ucast (ucast (x XOR y) :: u32) = (ucast (ucast x :: u32) XOR ucast (ucast y :: u32) :: u64)" for x y :: u64
  by (rule bit_word_eqI) (auto simp: bit_ucast_iff bit_xor_iff)

lemma flip_sign32: "ucast (ucast (x XOR 0x80000000) :: u32) = (ucast (ucast x :: u32) XOR 0x80000000 :: u64)" for x :: u64
  using low_xor [of x "0x80000000"] by simp

lemma fold_un_ok:
  assumes i: "inst_env f e v A i" and fmt: "op_format (limba_ops (in_op i)) = LIMBA_F_UN"
  shows "folds_ok libm nan' f e v A i (fold_un nan f e i (operand f i 0))"
proof -
  let ?x = "operand f i 0" and ?t = "in_type i"
  have t: "in_nops i = 1" "operand_type f i 0 = ?t" "if float_un (in_op i) then limba_type_is_float ?t else limba_type_is_int ?t"
    using inst_envD(2) [OF i] fmt by (simp_all add: inst_typed_def Let_def)
  have x: "?x \<in> A" "value_type f ?x = ?t" using inst_envD(3) [OF i, of 0] t by (simp_all add: operand_type_def value_type_def)
  have ev: "eval_inst libm nan' f v i = Some (EV_VALUE (eval_un nan' (in_op i) ?t (v ! ?x)))" using fmt by (simp add: eval_inst_def)
  note env = inst_envD(1) [OF i]
  show ?thesis
  proof (cases "float_un (in_op i)")
    case True
    then have fl: "limba_type_is_float ?t" using t(3) by simp
    show ?thesis
    proof (cases "in_op i = LIMBA_OP_FNEG")
      case neg: True
      let ?d = "root_inst f e ?x"
      have "outcome_ok libm nan' f v A i (if in_op ?d \<noteq> LIMBA_OP_FCONST then FOLD_NONE
          else FOLD_SET (limba_inst_set_fconst i (in_imm ?d XOR (if ?t = LIMBA_T_F32 then 0x80000000 else 0x8000000000000000))))"
      proof (cases "in_op ?d = LIMBA_OP_FCONST")
        case True
        then have "v ! ?x = (if ?t = LIMBA_T_F32 then ucast (ucast (in_imm ?d) :: u32) else in_imm ?d)"
          using root_facts [OF env x(1)] x(2) by (auto simp: const_value_def split: if_splits)
        then show ?thesis unfolding if_not_P [OF not_not [THEN iffD2, OF True]] by (intro outcome_fconst)
            (use ev neg fl in \<open>simp_all add: eval_un_def float_op_def Let_def dv_def fbits_def d_neg_def flip_sign32\<close>)
      qed simp
      then show ?thesis unfolding fold_un_def if_P [OF neg] by (intro folds_end [OF def_reads [OF env x(1)]])
    next
      case False
      have "folds_ok libm nan' f e v A i (fold_floats nan f e i (map (operand f i) [0 ..< in_nops i]))"
        by (rule fold_floats_ok [OF i False fl, where as = "\<lambda>k. if k < in_nops i then v ! operand f i k else 0"])
          (use True False t ev in \<open>auto simp: float_arity_def float_un_def float_bin_def eval_un_def\<close>)
      then show ?thesis using True False t(1) by (simp add: fold_un_def float_un_def)
    qed
  next
    case False
    then have n: "limba_type_is_int ?t" "fold_un nan f e i ?x = Option.bind (ival f e ?x) (\<lambda>(e, a). Some (e, case a of None \<Rightarrow> FOLD_NONE
        | Some a \<Rightarrow> FOLD_SET (limba_inst_set_iconst i (if in_op i = LIMBA_OP_NEG then 0 - uval a ?t else NOT a))))"
      using t(3) by (simp_all add: fold_un_def float_un_def)
    have "outcome_ok libm nan' f v A i (FOLD_SET (limba_inst_set_iconst i (if in_op i = LIMBA_OP_NEG then 0 - uval a ?t else NOT a)))"
      if a: "int_const (root_inst f e ?x) = Some a" for a
    proof (rule outcome_iconst [OF _ n(1)])
      have "v ! ?x = a" using int_const_value(1) [OF env x(1) a] .
      then show "eval_inst libm nan' f v i = Some (EV_VALUE (norm (if in_op i = LIMBA_OP_NEG then 0 - uval a ?t else NOT a) ?t))"
        using ev False by (simp add: eval_un_def float_un_def uval_uv [OF n(1)])
    qed
    then show ?thesis unfolding n(2) by (intro folds_end [OF ival_reads [OF env x(1)]]) (simp split: option.split)
  qed
qed

lemma kept_outcome:
  assumes "value_kept i r x y (v ! x) (v ! y) out" "eval_inst libm nan f v i = Some r" "x \<in> A" "y \<in> A"
    "value_type f x = in_type i" "value_type f y = in_type i" "\<And>j. out = FOLD_SET j \<Longrightarrow> const_typed j"
  shows "outcome_ok libm nan f v A i out"
  using assms by (cases out) (auto simp: value_kept_def outcome_ok_def)

lemma identity_sets:
  "identity_const i x y kx ky k = FOLD_SET j \<Longrightarrow> \<exists>c. j = limba_inst_set_iconst i c"
  "identity_same i x = FOLD_SET j \<Longrightarrow> \<exists>c. j = limba_inst_set_iconst i c"
  by (auto simp: identity_const_def identity_same_def Let_def split: if_splits)

lemma identity_ok:
  assumes e: "env_ok f e v A" and x: "x \<in> A" "y \<in> A" and t: "value_type f x = in_type i" "value_type f y = in_type i" "limba_type_is_int (in_type i)"
    and ev: "eval_inst libm nan f v i = Some (int_bin (in_op i) (in_type i) (v ! x) (v ! y))"
  shows "folds_ok libm nan f e v A i (identity f e i x y)"
proof -
  let ?a = "int_const (root_inst f e x)"
  let ?b = "if ?a = None then int_const (root_inst f e y) else None"
  let ?k = "case ?a of Some k \<Rightarrow> k | None \<Rightarrow> (case ?b of Some k \<Rightarrow> k | None \<Rightarrow> 0)"
  let ?r = "identity_const i x y (?a \<noteq> None) (?b \<noteq> None) ?k"
  let ?out = "if ?r \<noteq> FOLD_NONE then ?r else if edit_value e x = edit_value e y then identity_same i x else FOLD_NONE"
  have c: "norm (v ! x) (in_type i) = v ! x" "norm (v ! y) (in_type i) = v ! y"
    using root_facts(4) [OF e x(1)] root_facts(4) [OF e x(2)] t by (simp_all add: canonical_def)
  have k: "value_kept i (int_bin (in_op i) (in_type i) (v ! x) (v ! y)) x y (v ! x) (v ! y) ?r"
    using int_const_value(1) [OF e x(1)] int_const_value(1) [OF e x(2)]
    by (intro identity_const_kept [OF t(3) c]) (auto split: option.splits if_splits)
  have "value_kept i (int_bin (in_op i) (in_type i) (v ! x) (v ! y)) x y (v ! x) (v ! y) ?out"
  proof (cases "?r = FOLD_NONE \<and> edit_value e x = edit_value e y")
    case True
    then have "v ! x = v ! y" using env_value [OF e x(1)] env_value [OF e x(2)] by (metis value_ok_def)
    then show ?thesis using True identity_same_kept [OF t(3) c(1)] by (simp del: One_nat_def)
  next
    case False
    then show ?thesis using k by (auto simp: value_kept_def)
  qed
  moreover have "const_typed j" if "?out = FOLD_SET j" for j
  proof -
    have "\<exists>c. j = limba_inst_set_iconst i c" using that identity_sets by (auto split: if_splits)
    then show ?thesis using t(3) by auto
  qed
  ultimately have out: "outcome_ok libm nan f v A i ?out" using kept_outcome [OF _ ev x t(1,2)] by blast
  have b: "reads e' (if ?a = None then ival f e' y else Some (e', None)) ?b" if "same_edit e e'" for e'
  proof -
    note e' = env_same [OF e that]
    have "root_inst f e' y = root_inst f e y" using that by (simp add: root_inst_def same_edit_def)
    then show ?thesis using ival_reads [OF e' x(2)] by (simp add: reads_return [OF env_edit [OF e']])
  qed
  show ?thesis
    unfolding identity_def
  proof (rule folds_bind [OF ival_reads [OF e x(1)]], rule folds_bind [OF b], assumption)
    fix e1 e2 assume s: "same_edit e e1" "same_edit e1 e2"
    note s2 = same_edit_trans [OF s]
    have "reads e2 (same_value e2 x y) (edit_value e x = edit_value e y)"
      using same_value_reads [of e2 x y] env_edit [OF env_same [OF e s2]] s2 by (simp add: same_edit_def)
    then show "folds_ok libm nan f e2 v A i (Option.bind (same_value e2 x y) (\<lambda>(e, same).
        let k = (case ?a of Some k \<Rightarrow> k | None \<Rightarrow> (case ?b of Some k \<Rightarrow> k | None \<Rightarrow> 0));
            r = identity_const i x y (?a \<noteq> None) (?b \<noteq> None) k
        in Some (e, if r \<noteq> FOLD_NONE then r else if same then identity_same i x else FOLD_NONE)))"
      unfolding Let_def using out by (rule folds_end)
  qed
qed

lemma fold_bin_ok:
  assumes i: "inst_env f e v A i" and fmt: "op_format (limba_ops (in_op i)) = LIMBA_F_BIN"
  shows "folds_ok libm nan' f e v A i (fold_bin nan f e i (operand f i 0) (operand f i 1))"
proof -
  let ?x = "operand f i 0" and ?y = "operand f i 1" and ?t = "in_type i"
  have t: "in_nops i = 2" "operand_type f i 0 = ?t" "operand_type f i 1 = ?t" "if float_bin (in_op i) then limba_type_is_float ?t else limba_type_is_int ?t"
    using inst_envD(2) [OF i] fmt by (simp_all add: inst_typed_def Let_def)
  have x: "?x \<in> A" "?y \<in> A" "value_type f ?x = ?t" "value_type f ?y = ?t"
    using inst_envD(3) [OF i] t by (simp_all add: operand_type_def value_type_def)
  note env = inst_envD(1) [OF i]
  show ?thesis
  proof (cases "limba_type_is_float ?t")
    case True
    then have fb: "float_bin (in_op i)" using t(4) int_not_float by metis
    have ev: "eval_inst libm nan' f v i = Some (EV_VALUE (float_op nan' (in_op i) ?t (v ! ?x) (v ! ?y) 0))"
      using fmt True by (simp add: eval_inst_def)
    have "folds_ok libm nan' f e v A i (fold_floats nan f e i (map (operand f i) [0 ..< in_nops i]))"
      by (rule fold_floats_ok [OF i _ True, where as = "\<lambda>k. if k < in_nops i then v ! operand f i k else 0"])
        (use fb t ev in \<open>auto simp: float_arity_def float_bin_def less_2_cases_iff\<close>)
    then show ?thesis using True t(1) by (simp add: fold_bin_def upt_rec)
  next
    case False
    then have ti: "limba_type_is_int ?t" using t(4) by (auto split: if_splits)
    have ev: "eval_inst libm nan' f v i = Some (int_bin (in_op i) ?t (v ! ?x) (v ! ?y))" using fmt False by (simp add: eval_inst_def)
    let ?c = "case int_const (root_inst f e ?x) of None \<Rightarrow> None | Some a \<Rightarrow> map_option (Pair a) (int_const (root_inst f e ?y))"
    have both: "outcome_ok libm nan' f v A i (case fold_int_bin i a b of None \<Rightarrow> FOLD_NONE | Some r \<Rightarrow> FOLD_SET (limba_inst_set_iconst i r))"
      if c: "?c = Some (a, b)" for a b
    proof (cases "fold_int_bin i a b")
      case (Some r)
      have "v ! ?x = a" "v ! ?y = b"
        using int_const_value(1) [OF env x(1)] int_const_value(1) [OF env x(2)] c by (auto split: option.splits)
      then have "eval_inst libm nan' f v i = Some (EV_VALUE (norm r ?t))" using ev fold_int_bin_agrees [OF ti, of a b] Some by simp
      then show ?thesis using Some outcome_iconst [OF _ ti] by simp
    qed simp
    have "fold_bin nan f e i ?x ?y = Option.bind (ivals f e ?x ?y) (\<lambda>(e, ab). case ab of
          Some (a, b) \<Rightarrow> Some (e, case fold_int_bin i a b of None \<Rightarrow> FOLD_NONE | Some r \<Rightarrow> FOLD_SET (limba_inst_set_iconst i r))
        | None \<Rightarrow> identity f e i ?x ?y)"
      by (simp only: fold_bin_def False if_False)
    moreover have "folds_ok libm nan' f e' v A i (case ?c of
          Some (a, b) \<Rightarrow> Some (e', case fold_int_bin i a b of None \<Rightarrow> FOLD_NONE | Some r \<Rightarrow> FOLD_SET (limba_inst_set_iconst i r))
        | None \<Rightarrow> identity f e' i ?x ?y)" if s: "same_edit e e'" for e'
    proof (cases ?c)
      case None
      then show ?thesis using identity_ok [OF env_same [OF env s] x ti ev] by simp
    next
      case (Some ab)
      obtain a b where ab: "ab = (a, b)" by fastforce
      show ?thesis using folds_return [OF env_edit [OF env_same [OF env s]] both [of a b]] Some by (simp add: ab)
    qed
    ultimately show ?thesis by (simp only:) (rule folds_bind [OF ivals_reads [OF env x(1,2)]], assumption)
  qed
qed

lemma fold_cmp_ok:
  assumes i: "inst_env f e v A i" and fmt: "op_format (limba_ops (in_op i)) = LIMBA_F_CMP"
  shows "folds_ok libm nan' f e v A i (fold_cmp nan f e i (operand f i 0) (operand f i 1))"
proof -
  let ?x = "operand f i 0" and ?y = "operand f i 1" and ?d = "root_inst f e (operand f i 0)"
  note env = inst_envD(1) [OF i]
  have t: "in_nops i = 2" "in_type i = LIMBA_T_I1" "operand_type f i 0 = operand_type f i 1"
      "if in_op i = LIMBA_OP_FCMP then limba_cc_is_float (in_cc i) \<and> limba_type_is_float (operand_type f i 0) else \<not> limba_cc_is_float (in_cc i)"
    using inst_envD(2) [OF i] fmt by (auto simp: inst_typed_def Let_def split: if_splits)
  have x: "?x \<in> A" "?y \<in> A" "value_type f ?x = operand_type f i 0" "value_type f ?y = operand_type f i 0"
    using inst_envD(3) [OF i] t by (simp_all add: operand_type_def value_type_def)
  have ti: "limba_type_is_int (in_type i)" by (simp add: t(2) limba_type_is_int_def)
  have ev: "eval_inst libm nan' f v i = Some (EV_VALUE (of_bool (compare nan' (in_cc i) (value_type f ?x) (v ! ?x) (v ! ?y))))"
    using fmt by (simp add: eval_inst_def value_type_def)
  have set: "outcome_ok libm nan' f v A i (FOLD_SET (limba_inst_set_iconst i (of_bool r)))"
    if "compare nan' (in_cc i) (value_type f ?x) (v ! ?x) (v ! ?y) = r" for r
    using outcome_iconst [OF _ ti] ev that canonical_bool [of r] t(2) by (simp add: canonical_def limba_type_is_int_def)
  have icmp: "folds_ok libm nan' f e1 v A i (Option.bind (ivals f e1 ?x ?y) (\<lambda>(e, ab).
         case Option.bind ab (\<lambda>(a, b). fold_icmp (in_cc i) (in_type ?d) a b) of
           Some r \<Rightarrow> Some (e, FOLD_SET (limba_inst_set_iconst i (of_bool r)))
         | None \<Rightarrow> Option.bind (same_value e ?x ?y) (\<lambda>(e, same). Some (e, if same
               then FOLD_SET (limba_inst_set_iconst i
                 (of_bool (in_cc i \<in> {LIMBA_CC_EQ, LIMBA_CC_SLE, LIMBA_CC_SGE, LIMBA_CC_ULE, LIMBA_CC_UGE})))
               else FOLD_NONE))))"
    if s: "same_edit e e1" and op: "in_op i \<noteq> LIMBA_OP_FCMP" for e1
  proof -
    note env1 = env_same [OF env s]
    let ?c = "case int_const (root_inst f e1 ?x) of None \<Rightarrow> None | Some a \<Rightarrow> map_option (Pair a) (int_const (root_inst f e1 ?y))"
    have const: "outcome_ok libm nan' f v A i (FOLD_SET (limba_inst_set_iconst i (of_bool r)))"
      if "Option.bind ?c (\<lambda>(a, b). fold_icmp (in_cc i) (in_type ?d) a b) = Some r" for r
    proof (rule set)
      obtain a b where ab: "int_const (root_inst f e1 ?x) = Some a" "int_const (root_inst f e1 ?y) = Some b"
          "fold_icmp (in_cc i) (in_type ?d) a b = Some r"
        using \<open>Option.bind ?c (\<lambda>(a, b). fold_icmp (in_cc i) (in_type ?d) a b) = Some r\<close>
        by (auto simp: bind_eq_Some_conv split: option.splits)
      note a = int_const_value [OF env1 x(1) ab(1)] and b = int_const_value(1) [OF env1 x(2) ab(2)]
      show "compare nan' (in_cc i) (value_type f ?x) (v ! ?x) (v ! ?y) = r"
        using fold_icmp_agrees [OF a(2)] ab(3) root_facts(1) [OF env x(1)] a(1) b by simp
    qed
    have same: "outcome_ok libm nan' f v A i (FOLD_SET (limba_inst_set_iconst i
        (of_bool (in_cc i \<in> {LIMBA_CC_EQ, LIMBA_CC_SLE, LIMBA_CC_SGE, LIMBA_CC_ULE, LIMBA_CC_UGE}))))"
      if "edit_value e1 ?x = edit_value e1 ?y"
    proof (rule set)
      have "v ! ?x = v ! ?y" using that env_value [OF env1 x(1)] env_value [OF env1 x(2)] by (metis value_ok_def)
      then show "compare nan' (in_cc i) (value_type f ?x) (v ! ?x) (v ! ?y) =
          (in_cc i \<in> {LIMBA_CC_EQ, LIMBA_CC_SLE, LIMBA_CC_SGE, LIMBA_CC_ULE, LIMBA_CC_UGE})"
        using t(4) op by (cases "in_cc i") (simp_all add: compare_def compare_int_def limba_cc_is_float_def Let_def)
    qed
    show ?thesis
    proof (rule folds_bind [OF ivals_reads [OF env1 x(1,2)]])
      fix e2 assume s2: "same_edit e1 e2"
      note e2 = env_edit [OF env_same [OF env1 s2]]
      have "reads e2 (same_value e2 ?x ?y) (edit_value e1 ?x = edit_value e1 ?y)"
        using same_value_reads [OF e2, of ?x ?y] s2 by (simp add: same_edit_def)
      then have "folds_ok libm nan' f e2 v A i (Option.bind (same_value e2 ?x ?y) (\<lambda>(e, same). Some (e, if same
               then FOLD_SET (limba_inst_set_iconst i
                 (of_bool (in_cc i \<in> {LIMBA_CC_EQ, LIMBA_CC_SLE, LIMBA_CC_SGE, LIMBA_CC_ULE, LIMBA_CC_UGE})))
               else FOLD_NONE)))"
        by (rule folds_end) (use same in simp)
      moreover have "folds_ok libm nan' f e2 v A i (Some (e2, FOLD_SET (limba_inst_set_iconst i (of_bool r))))"
        if "Option.bind ?c (\<lambda>(a, b). fold_icmp (in_cc i) (in_type ?d) a b) = Some r" for r
        by (rule folds_return [OF e2 const [OF that]])
      ultimately show "folds_ok libm nan' f e2 v A i (case Option.bind ?c (\<lambda>(a, b). fold_icmp (in_cc i) (in_type ?d) a b) of
           Some r \<Rightarrow> Some (e2, FOLD_SET (limba_inst_set_iconst i (of_bool r)))
         | None \<Rightarrow> Option.bind (same_value e2 ?x ?y) (\<lambda>(e, same). Some (e, if same
               then FOLD_SET (limba_inst_set_iconst i
                 (of_bool (in_cc i \<in> {LIMBA_CC_EQ, LIMBA_CC_SLE, LIMBA_CC_SGE, LIMBA_CC_ULE, LIMBA_CC_UGE})))
               else FOLD_NONE)))"
        by (cases "Option.bind ?c (\<lambda>(a, b). fold_icmp (in_cc i) (in_type ?d) a b)") simp_all
    qed
  qed
  have fcmp: "folds_ok libm nan' f e1 v A i (Option.bind (fvals nan f e1 [?x, ?y]) (\<lambda>(e, v).
      Some (e, case Option.bind v (\<lambda>v. fold_fcmp (in_cc i) (v ! 0) (v ! 1)) of
             None \<Rightarrow> FOLD_NONE | Some r \<Rightarrow> FOLD_SET (limba_inst_set_iconst i (of_bool r)))))"
    if s: "same_edit e e1" and op: "in_op i = LIMBA_OP_FCMP" for e1
  proof (rule folds_end [OF fvals_reads [OF env_same [OF env s]]])
    note env1 = env_same [OF env s]
    show "set [?x, ?y] \<subseteq> A" using x by simp
    let ?c = "\<lambda>x. float_const nan (root_inst f e1 x)"
    have "outcome_ok libm nan' f v A i (FOLD_SET (limba_inst_set_iconst i (of_bool r)))"
      if ab: "?c ?x = Some a" "?c ?y = Some b" and r: "fold_fcmp (in_cc i) a b = Some r" for a b r
    proof (rule set)
      note a = float_const_value [OF env1 x(1) ab(1)] and b = float_const_value [OF env1 x(2) ab(2)]
      have "dec64 (fnum nan' (v ! z) (value_type f z)) = dec64 (float_number nan (value_type f z) (v ! z))" for z
        by (simp add: fnum_def float_number_def dv_def dec_widen)
      then show "compare nan' (in_cc i) (value_type f ?x) (v ! ?x) (v ! ?y) = r"
        using fold_fcmp_agrees [OF r] compare_float_dec t(4) op x(3,4) a(1) b(1) unfolding compare_def by metis
    qed
    then have "outcome_ok libm nan' f v A i (FOLD_SET (limba_inst_set_iconst i (of_bool r)))"
      if "Option.bind (those (map ?c [?x, ?y])) (\<lambda>v. fold_fcmp (in_cc i) (v ! 0) (v ! 1)) = Some r" for r
      using that by (cases "?c ?x"; cases "?c ?y") (simp_all del: of_bool_eq_1_iff)
    then show "outcome_ok libm nan' f v A i (case Option.bind (those (map ?c [?x, ?y])) (\<lambda>v. fold_fcmp (in_cc i) (v ! 0) (v ! 1)) of
             None \<Rightarrow> FOLD_NONE | Some r \<Rightarrow> FOLD_SET (limba_inst_set_iconst i (of_bool r)))"
      by (cases "Option.bind (those (map ?c [?x, ?y])) (\<lambda>v. fold_fcmp (in_cc i) (v ! 0) (v ! 1))") simp_all
  qed
  have op: "in_op i = LIMBA_OP_ICMP \<or> in_op i = LIMBA_OP_FCMP" using fmt by (simp add: op_formats)
  show ?thesis
  proof (cases "in_op i = LIMBA_OP_ICMP")
    case True
    then have "in_op i \<noteq> LIMBA_OP_FCMP" by simp
    then show ?thesis unfolding fold_cmp_def if_P [OF True]
      by (intro folds_bind [OF def_reads [OF env x(1)]] icmp)
  next
    case False
    then have "in_op i = LIMBA_OP_FCMP" using op by simp
    then show ?thesis unfolding fold_cmp_def if_not_P [OF False]
      by (intro folds_bind [OF def_reads [OF env x(1)]] fcmp)
  qed
qed

lemma fold_tern_ok:
  assumes i: "inst_env f e v A i" and fmt: "op_format (limba_ops (in_op i)) = LIMBA_F_TERN"
  shows "folds_ok libm nan' f e v A i (if in_op i = LIMBA_OP_SELECT then fold_select f e (operand f i 0) (operand f i 1) (operand f i 2)
    else fold_floats nan f e i [operand f i 0, operand f i 1, operand f i 2])"
proof (cases "in_op i = LIMBA_OP_SELECT")
  case True
  let ?c = "operand f i 0" and ?x = "operand f i 1" and ?y = "operand f i 2"
  note env = inst_envD(1) [OF i]
  have t: "in_nops i = 3" "operand_type f i 1 = in_type i" "operand_type f i 2 = in_type i"
    using inst_envD(2) [OF i] fmt True by (simp_all add: inst_typed_def Let_def)
  have x: "?c \<in> A" "?x \<in> A" "?y \<in> A" "value_type f ?x = in_type i" "value_type f ?y = in_type i"
    using inst_envD(3) [OF i] t by (simp_all add: operand_type_def value_type_def)
  have ev: "eval_inst libm nan' f v i = Some (EV_VALUE (if v ! ?c \<noteq> 0 then v ! ?x else v ! ?y))"
    using fmt True by (simp add: eval_inst_def)
  have "folds_ok libm nan' f e1 v A i (case int_const (root_inst f e ?c) of
         Some a \<Rightarrow> Some (e1, FOLD_REPLACE (if a \<noteq> 0 then ?x else ?y))
       | None \<Rightarrow> Option.bind (same_value e1 ?x ?y) (\<lambda>(e, same). Some (e, if same then FOLD_REPLACE ?x else FOLD_NONE)))"
    if s: "same_edit e e1" for e1
  proof (cases "int_const (root_inst f e ?c)")
    case None
    note env1 = env_same [OF env s]
    have "v ! ?x = v ! ?y" if "edit_value e1 ?x = edit_value e1 ?y"
      using that env_value [OF env1 x(2)] env_value [OF env1 x(3)] by (metis value_ok_def)
    then have "outcome_ok libm nan' f v A i (if edit_value e1 ?x = edit_value e1 ?y then FOLD_REPLACE ?x else FOLD_NONE)"
      using ev x by (simp add: outcome_ok_def)
    then show ?thesis unfolding None option.case(1)
      by (intro folds_end [OF same_value_reads [OF env_edit [OF env1]]])
  next
    case (Some a)
    have "v ! ?c = a" by (rule int_const_value(1) [OF env x(1) Some])
    then have "outcome_ok libm nan' f v A i (FOLD_REPLACE (if a \<noteq> 0 then ?x else ?y))"
      using ev x by (simp add: outcome_ok_def)
    then show ?thesis unfolding Some option.case(2) by (rule folds_return [OF env_edit [OF env_same [OF env s]]])
  qed
  then show ?thesis unfolding if_P [OF True] fold_select_def by (rule folds_bind [OF ival_reads [OF env x(1)]])
next
  case False
  then have op: "in_op i = LIMBA_OP_FMA" using fmt by (simp add: op_formats)
  have t: "limba_type_is_float (in_type i)" "in_nops i = 3" "\<And>k. k < 3 \<Longrightarrow> operand_type f i k = in_type i"
    using inst_envD(2) [OF i] fmt False by (auto simp: inst_typed_def Let_def less_Suc_eq numeral_3_eq_3 numeral_2_eq_2)
  have ev: "eval_inst libm nan' f v i = Some (EV_VALUE (float_op nan' (in_op i) (in_type i) (v ! operand f i 0) (v ! operand f i 1) (v ! operand f i 2)))"
    using fmt False by (simp add: eval_inst_def)
  have "folds_ok libm nan' f e v A i (fold_floats nan f e i (map (operand f i) [0 ..< in_nops i]))"
    by (rule fold_floats_ok [OF i _ t(1), where as = "\<lambda>k. if k < in_nops i then v ! operand f i k else 0"])
      (use op t ev in \<open>simp_all add: float_arity_def\<close>)
  moreover have "[0 ..< 3] = [0, 1, 2 :: nat]" by (simp add: upt_rec)
  ultimately show ?thesis using False t(2) by simp
qed

lemma conv_set_typed:
  assumes "conv_typed (in_op i) (in_type d) (in_type i)"
  shows "limba_type_is_int (in_type d) \<Longrightarrow> fold_conv_int nan i d a = Some j \<Longrightarrow> const_typed j"
    "limba_type_is_float (in_type d) \<Longrightarrow> fold_conv_float nan i d fa = Some j \<Longrightarrow> const_typed j"
  using assms
  by (auto simp: fold_conv_int_def fold_conv_float_def conv_typed_def limba_type_is_int_def limba_type_is_float_def Let_def
      split: limba_op.splits if_splits)

lemma fold_conv_ok:
  assumes i: "inst_env f e v A i" and fmt: "op_format (limba_ops (in_op i)) = LIMBA_F_CONV"
  shows "folds_ok libm nan' f e v A i (Option.bind (fold_conv nan f e i (operand f i 0))
    (\<lambda>(e, r). Some (e, case r of None \<Rightarrow> FOLD_NONE | Some i \<Rightarrow> FOLD_SET i)))"
proof -
  let ?x = "operand f i 0" and ?d = "root_inst f e (operand f i 0)"
  note env = inst_envD(1) [OF i]
  have t: "in_nops i = 1" "conv_typed (in_op i) (operand_type f i 0) (in_type i)"
    using inst_envD(2) [OF i] fmt by (simp_all add: inst_typed_def Let_def)
  have x: "?x \<in> A" "value_type f ?x = operand_type f i 0" using inst_envD(3) [OF i] t by (simp_all add: operand_type_def value_type_def)
  have ty: "in_type ?d = operand_type f i 0" using root_facts(1) [OF env x(1)] x(2) by simp
  then have ct: "conv_typed (in_op i) (in_type ?d) (in_type i)" using t(2) by simp
  have ev: "eval_inst libm nan' f v i = Some (convert nan' (in_op i) (in_type ?d) (in_type i) (v ! ?x))"
    using fmt ty by (simp add: eval_inst_def operand_type_def)
  let ?r = "case int_const ?d of Some a \<Rightarrow> fold_conv_int nan i ?d a | None \<Rightarrow> Option.bind (float_const nan ?d) (fold_conv_float nan i ?d)"
  have set: "outcome_ok libm nan' f v A i (FOLD_SET j)" if r: "?r = Some j" for j
  proof -
    have "\<exists>c. convert nan' (in_op i) (in_type ?d) (in_type i) (v ! ?x) = EV_VALUE c \<and> const_value j = Some c \<and> in_type j = in_type i"
      "const_typed j"
    proof (atomize (full), cases "int_const ?d")
      case None
      then obtain fa where fa: "float_const nan ?d = Some fa" "fold_conv_float nan i ?d fa = Some j"
        using r by (auto simp: bind_eq_Some_conv)
      have op: "in_op ?d = LIMBA_OP_FCONST" and fd: "fa = (if in_type ?d = LIMBA_T_F32 then widen nan (ucast (in_imm ?d)) else in_imm ?d)"
        using fa(1) by (auto simp: float_const_def split: if_splits)
      have fl: "limba_type_is_float (in_type ?d)" using float_const_value(2) [OF env x(1) fa(1)] ty x(2) by simp
      have "const_value ?d = Some (v ! ?x)" using root_facts(3) [OF env x(1)] op by (simp add: const_value_def)
      then show "(\<exists>c. convert nan' (in_op i) (in_type ?d) (in_type i) (v ! ?x) = EV_VALUE c \<and> const_value j = Some c \<and>
          in_type j = in_type i) \<and> const_typed j"
        using fold_conv_float_agrees [OF ct fl op fd _ fa(2)] conv_set_typed(2) [OF ct fl fa(2)] by blast
    next
      case (Some a)
      then have j: "fold_conv_int nan i ?d a = Some j" using r by simp
      note a = int_const_value [OF env x(1) Some]
      have "limba_type_is_int (in_type ?d)" "norm a (in_type ?d) = a" using a(2,3) x(2) ty by simp_all
      then show "(\<exists>c. convert nan' (in_op i) (in_type ?d) (in_type i) (v ! ?x) = EV_VALUE c \<and> const_value j = Some c \<and>
          in_type j = in_type i) \<and> const_typed j"
        using fold_conv_int_agrees [OF ct _ _ j] conv_set_typed(1) [OF ct _ j] a(1) by blast
    qed
    then show ?thesis using ev by (auto simp: outcome_ok_def)
  qed
  have rd: "reads e (fold_conv nan f e i ?x) ?r"
    unfolding fold_conv_def
  proof (rule reads_bind [OF def_reads [OF env x(1)]])
    fix e1 assume s: "same_edit e e1"
    note env1 = env_same [OF env s]
    have d: "root_inst f e1 ?x = ?d" using s by (simp add: root_inst_def same_edit_def)
    show "reads e1 (Option.bind (ival f e1 ?x) (\<lambda>(e, a). case a of Some a \<Rightarrow> Some (e, fold_conv_int nan i ?d a)
       | None \<Rightarrow> Option.bind (fval nan f e ?x) (\<lambda>(e, fa). Some (e, Option.bind fa (fold_conv_float nan i ?d))))) ?r"
    proof (rule reads_bind [OF ival_reads [OF env1 x(1), unfolded d]])
      fix e2 assume s2: "same_edit e1 e2"
      note env2 = env_same [OF env1 s2]
      have d2: "root_inst f e2 ?x = ?d" using d s2 by (simp add: root_inst_def same_edit_def)
      show "reads e2 (case int_const ?d of Some a \<Rightarrow> Some (e2, fold_conv_int nan i ?d a)
         | None \<Rightarrow> Option.bind (fval nan f e2 ?x) (\<lambda>(e, fa). Some (e, Option.bind fa (fold_conv_float nan i ?d)))) ?r"
        by (cases "int_const ?d")
          (simp_all add: reads_return [OF env_edit [OF env2]] reads_end [OF fval_reads [OF env2 x(1), unfolded d2]])
    qed
  qed
  show ?thesis
    by (rule folds_end [OF rd]) (cases ?r; simp add: set)
qed

lemma fold_math_ok:
  assumes i: "inst_env f e v A i" and fmt: "op_format (limba_ops (in_op i)) = LIMBA_F_CALL_RT"
  shows "folds_ok libm nan' f e v A i (fold_math libm nan f e i)"
proof (cases "in_nops i < 1 \<or> in_nops i > 2 \<or> in_type i \<noteq> LIMBA_T_F64")
  case True
  then show ?thesis unfolding fold_math_def if_P [OF True] by (intro folds_return [OF inst_envD(4) [OF i]]) simp
next
  case False
  note env = inst_envD(1) [OF i]
  let ?rt = "unat (ucast (in_imm i) :: u32)"
  let ?c = "\<lambda>x. float_const nan (root_inst f e x)"
  let ?vs = "those (map ?c (map (operand f i) [0 ..< in_nops i]))"
  let ?m = "Option.bind ?vs (\<lambda>v. limba_math_call libm ?rt (v @ [0, 0]))"
  have t: "math_one ?rt \<Longrightarrow> in_nops i = 1 \<and> operand_type f i 0 = LIMBA_T_F64"
      "math_two ?rt \<Longrightarrow> in_nops i = 2 \<and> operand_type f i 0 = LIMBA_T_F64 \<and> operand_type f i 1 = LIMBA_T_F64"
    using inst_envD(2) [OF i] fmt by (simp_all add: inst_typed_def Let_def)
  have ty: "in_type i = LIMBA_T_F64" using False by simp
  have "outcome_ok libm nan' f v A i (FOLD_SET (limba_inst_set_fconst i (fold_fbits nan x LIMBA_T_F64)))" if x: "?m = Some x" for x
  proof (rule outcome_fconst)
    obtain vs where vs: "?vs = Some vs" "limba_math_call libm ?rt (vs @ [0, 0]) = Some x" using x by (auto simp: bind_eq_Some_conv)
    have l: "length vs = in_nops i" "k < in_nops i \<Longrightarrow> ?c (operand f i k) = Some (vs ! k)" for k
      using those_nth [OF vs(1)] by auto
    have val: "vs ! k = v ! operand f i k" if k: "k < in_nops i" "operand_type f i k = LIMBA_T_F64" for k
      using float_const_value(1) [OF env inst_envD(3) [OF i k(1)] l(2) [OF k(1)]] k(2)
      by (simp add: float_number_def operand_type_def value_type_def)
    have "runtime_math libm nan' ?rt (map (\<lambda>k. v ! operand f i k) [0 ..< in_nops i]) = Some x"
    proof (cases "math_one ?rt")
      case True
      then have "vs ! 0 = v ! operand f i 0" "in_nops i = 1" using val [of 0] t(1) by simp_all
      moreover have "\<not> math_two ?rt" using t True by auto
      ultimately show ?thesis using vs(2) True l(1) by (simp add: runtime_math_def limba_math_call_def dv_def fbits_def nth_append)
    next
      case False
      then have two: "math_two ?rt" using vs(2) by (auto simp: limba_math_call_def split: if_splits)
      then have "vs ! 0 = v ! operand f i 0" "vs ! 1 = v ! operand f i 1" "in_nops i = 2" using val [of 0] val [of 1] t(2) by simp_all
      then show ?thesis using vs(2) False two l(1) by (simp add: runtime_math_def limba_math_call_def dv_def fbits_def nth_append upt_rec)
    qed
    then show "eval_inst libm nan' f v i = Some (EV_VALUE (if in_type i = LIMBA_T_F32 then ucast (ucast (fold_fbits nan x LIMBA_T_F64) :: u32)
        else fold_fbits nan x LIMBA_T_F64))"
      using fmt ty by (simp add: eval_inst_def Let_def fold_fbits_def)
    show "limba_type_is_float (in_type i)" using ty by (simp add: limba_type_is_float_def)
  qed
  then have out: "outcome_ok libm nan' f v A i (case ?m of None \<Rightarrow> FOLD_NONE
      | Some x \<Rightarrow> if isnan x then FOLD_NONE else FOLD_SET (limba_inst_set_fconst i (fold_fbits nan x LIMBA_T_F64)))"
    by (cases ?m) simp_all
  have "set (map (operand f i) [0 ..< in_nops i]) \<subseteq> A" using inst_envD(3) [OF i] by auto
  then show ?thesis unfolding fold_math_def if_not_P [OF False] using out by (intro folds_end [OF fvals_reads [OF env]])
qed

lemma fold_outcome_ok:
  assumes "inst_env f e v A i"
  shows "folds_ok libm nan' f e v A i (fold_outcome_of libm nan f e i)"
  using fold_un_ok [OF assms] fold_bin_ok [OF assms] fold_cmp_ok [OF assms] fold_tern_ok [OF assms] fold_conv_ok [OF assms]
    fold_math_ok [OF assms] folds_return [OF inst_envD(4) [OF assms] outcome_none]
  by (cases "op_format (limba_ops (in_op i))") (simp_all only: fold_outcome_of_def Let_def limba_format.case)

section \<open>Folding an instruction\<close>

lemma env_set:
  assumes env: "env_ok f e v A" and n: "n < length (fn_insts f)" "edit_value e n = n"
    and j: "const_value j = Some (v ! n)" "in_type j = value_type f n" "const_typed j" "canonical (value_type f n) (v ! n)"
  shows "env_ok (f\<lparr>fn_insts := (fn_insts f)[n := j]\<rparr>) e v (insert n A)"
proof -
  let ?f = "f\<lparr>fn_insts := (fn_insts f)[n := j]\<rparr>"
  have ty: "value_type ?f = value_type f" using j(2) n(1) by (auto simp: fun_eq_iff value_type_def nth_list_update)
  have "value_ok ?f e v (insert n A) x" if x: "x \<in> insert n A" for x
  proof (cases "x = n")
    case True
    then show ?thesis using n j by (simp add: value_ok_def ty)
  next
    case False
    then have "value_ok f e v A x" using x env_value [OF env] by simp
    then show ?thesis using False n(1) by (simp add: value_ok_def ty)
  qed
  then show ?thesis using env by (simp add: env_ok_def)
qed

lemma env_replace:
  assumes env: "env_ok f e v A" and n: "n < length (fn_insts f)" "edit_value e n = n"
    and z: "z \<in> A" "v ! n = v ! z" "value_type f z = value_type f n" "const_value (fn_insts f ! n) = None" "const_typed (fn_insts f ! n)"
    and e': "edit_ok e'" "ed_ninsts e' = ed_ninsts e" "\<forall>x. edit_value e' x = (if edit_value e x = n then edit_value e z else edit_value e x)"
  shows "env_ok f e' v (insert n A)"
proof -
  have zz: "value_ok f e v A z" by (rule env_value [OF env z(1)])
  have "value_ok f e' v (insert n A) x" if x: "x \<in> insert n A" for x
  proof (cases "x = n")
    case True
    then show ?thesis using n z(2-5) zz e'(3) by (auto simp: value_ok_def)
  next
    case False
    then have "value_ok f e v A x" using x env_value [OF env] by simp
    then show ?thesis using zz z(2,3) e'(3) by (auto simp: value_ok_def)
  qed
  then show ?thesis using env e'(1,2) by (simp add: env_ok_def)
qed

lemma dead_same:
  assumes "edit_ok e"
  shows "edit_ok (e\<lparr>ed_dead := (ed_dead e)[n := True]\<rparr>)" "edit_value (e\<lparr>ed_dead := (ed_dead e)[n := True]\<rparr>) = edit_value e"
    "ed_ninsts (e\<lparr>ed_dead := (ed_dead e)[n := True]\<rparr>) = ed_ninsts e"
proof -
  have "(ed_dead e)[n := True] ! x" if "ed_dead e ! x" for x using that by (metis nth_list_update_eq nth_list_update_neq list_update_beyond not_le)
  then show "edit_ok (e\<lparr>ed_dead := (ed_dead e)[n := True]\<rparr>)" using assms by (simp add: edit_ok_def)
qed (simp_all add: fun_eq_iff edit_value_def)

text \<open>What an instruction is rewritten to is a constant in its place: what else it says stays.\<close>

definition const_in_place :: "limba_inst \<Rightarrow> limba_inst \<Rightarrow> bool" where
  "const_in_place i j \<longleftrightarrow> (\<exists>r. j = limba_inst_set_iconst i r \<or> j = limba_inst_set_fconst i r)"

lemma const_in_place_set [simp]: "const_in_place i (limba_inst_set_iconst i r)" "const_in_place i (limba_inst_set_fconst i r)"
  by (auto simp: const_in_place_def)

definition sets_in_place :: "limba_inst \<Rightarrow> (limba_edit \<times> fold_outcome) option \<Rightarrow> bool" where
  "sets_in_place i m \<longleftrightarrow> (\<forall>e j. m = Some (e, FOLD_SET j) \<longrightarrow> const_in_place i j)"

lemma sets_bind: "(\<And>e a. sets_in_place i (k e a)) \<Longrightarrow> sets_in_place i (Option.bind m (\<lambda>(e, a). k e a))"
  by (auto simp: sets_in_place_def bind_eq_Some_conv)

lemma sets_return: "(\<And>j. r = FOLD_SET j \<Longrightarrow> const_in_place i j) \<Longrightarrow> sets_in_place i (Some (e, r))"
  by (simp add: sets_in_place_def)

lemma conv_int_in_place: "fold_conv_int nan i d a = Some j \<Longrightarrow> const_in_place i j"
  by (cases "in_op i") (auto simp: fold_conv_int_def Let_def)

lemma conv_float_in_place: "fold_conv_float nan i d a = Some j \<Longrightarrow> const_in_place i j"
  by (cases "isnan a"; cases "in_op i") (auto simp: fold_conv_float_def Let_def)

lemma fold_conv_in_place: "fold_conv nan f e i x = Some (e', Some j) \<Longrightarrow> const_in_place i j"
  using conv_int_in_place conv_float_in_place
  by (fastforce simp: fold_conv_def bind_eq_Some_conv split: option.splits)

lemma identity_const_in_place: "identity_const i x y kx ky k = FOLD_SET j \<Longrightarrow> const_in_place i j"
  unfolding identity_const_def Let_def by (simp split: if_split_asm) (metis const_in_place_set)+

lemma identity_same_in_place: "identity_same i x = FOLD_SET j \<Longrightarrow> const_in_place i j"
  by (auto simp: identity_same_def split: if_splits)

lemma identity_in_place: "sets_in_place i (identity f e i x y)"
  unfolding identity_def Let_def
  by (intro sets_bind sets_return) (auto dest: identity_const_in_place identity_same_in_place split: if_split_asm)

lemma fold_in_place: "sets_in_place i (fold_outcome_of libm nan f e i)"
proof -
  have "sets_in_place i (fold_floats nan f e i xs)" for xs
    by (auto simp: fold_floats_def intro!: sets_bind sets_return split: option.splits)
  moreover have "sets_in_place i (fold_un nan f e i x)" for x
    using calculation by (auto simp: fold_un_def intro!: sets_bind sets_return split: option.splits if_splits)
  moreover have "sets_in_place i (fold_bin nan f e i x y)" for x y
    using calculation(1) identity_in_place
    by (auto simp: fold_bin_def intro!: sets_bind sets_return split: option.splits)
  moreover have "sets_in_place i (fold_cmp nan f e i x y)" for x y
    by (auto simp: fold_cmp_def simp del: fvals.simps intro!: sets_bind sets_return split: option.splits if_splits)
  moreover have "sets_in_place i (fold_select f e c x y)" for c x y
    by (auto simp: fold_select_def intro!: sets_bind sets_return split: option.splits if_splits)
  moreover have "sets_in_place i (do { (e, r) \<leftarrow> fold_conv nan f e i x; Some (e, case r of None \<Rightarrow> FOLD_NONE | Some i \<Rightarrow> FOLD_SET i) })" for x
    using fold_conv_in_place by (fastforce simp: sets_in_place_def bind_eq_Some_conv split: option.splits)
  moreover have "sets_in_place i (fold_math libm nan f e i)"
    by (auto simp: fold_math_def intro!: sets_bind sets_return split: option.splits if_splits)
  ultimately show ?thesis
    using sets_return [of FOLD_NONE i e]
    by (cases "op_format (limba_ops (in_op i))") (simp_all add: fold_outcome_of_def Let_def)
qed

text \<open>
  What folding instruction \<open>n\<close> does to a function under edit whose values are \<open>v\<close>: nothing but shorten
  chains, or a check of what is not zero is dead, or a constant with the value takes its place, or it is
  replaced by one of \<open>A\<close> with the value.
\<close>

definition fold_kept :: "limba_func \<Rightarrow> u64 list \<Rightarrow> nat set \<Rightarrow> nat \<Rightarrow> limba_edit \<Rightarrow> limba_func \<Rightarrow> limba_edit \<Rightarrow> bool" where
  "fold_kept f v A n e1 f' e' \<longleftrightarrow>
     (let i = fn_insts f ! n
      in in_op i = LIMBA_OP_CHECK \<and> v ! operand f i 0 \<noteq> 0 \<and> v ! n = 0 \<and> f' = f \<and> e' = e1\<lparr>ed_dead := (ed_dead e1)[n := True]\<rparr> \<or>
         in_op i \<noteq> LIMBA_OP_CHECK \<and>
         ((\<exists>j. const_in_place i j \<and> const_value j = Some (v ! n) \<and> in_type j = in_type i \<and> const_typed j \<and>
             canonical (in_type i) (v ! n) \<and> f' = f\<lparr>fn_insts := (fn_insts f)[n := j]\<rparr> \<and> e' = e1) \<or>
          (\<exists>z \<in> A. v ! n = v ! z \<and> value_type f z = value_type f n \<and> const_value i = None \<and> const_typed i \<and>
             f' = f \<and> limba_edit_replace e1 n z = Some e')))"

lemma fold_check_step:
  assumes env: "inst_env f e v A (fn_insts f ! n)" and op: "in_op (fn_insts f ! n) = LIMBA_OP_CHECK"
    and run: "\<And>r. eval_inst libm nan' f v (fn_insts f ! n) = Some (EV_VALUE r) \<Longrightarrow> v ! n = r"
  shows "\<exists>e1 e' changed. limba_fold_inst libm nan f e n = Some (f, e', changed) \<and> same_edit e e1 \<and>
    (if changed then eval_inst libm nan' f v (fn_insts f ! n) = Some (EV_VALUE (v ! n)) \<and> fold_kept f v A n e1 f e' else e' = e1)"
proof -
  let ?i = "fn_insts f ! n" and ?x = "operand f (fn_insts f ! n) 0"
  have fmt: "op_format (limba_ops (in_op ?i)) = LIMBA_F_CHECK" using op by simp
  note env0 = inst_envD(1) [OF env]
  have x: "?x \<in> A" using inst_envD(2,3) [OF env] fmt by (simp add: inst_typed_def Let_def)
  obtain e1 where e1: "ival f e ?x = Some (e1, int_const (root_inst f e ?x))" "same_edit e e1"
    using ival_reads [OF env0 x] by (auto simp: reads_def)
  show ?thesis
  proof (cases "int_const (root_inst f e ?x) = None \<or> int_const (root_inst f e ?x) = Some 0")
    case no: True
    then have "limba_fold_inst libm nan f e n = Some (f, e1, False)"
      using fmt e1(1) by (simp add: limba_fold_inst_def fold_check_def Let_def)
    then show ?thesis using e1(2) by (intro exI [of _ e1] exI [of _ False]) simp
  next
    case False
    then obtain a where a: "int_const (root_inst f e ?x) = Some a" "a \<noteq> 0" by auto
    let ?e = "e1\<lparr>ed_dead := (ed_dead e1)[n := True]\<rparr>"
    have vx: "v ! ?x \<noteq> 0" using int_const_value(1) [OF env0 x a(1)] a(2) by simp
    then have ev: "eval_inst libm nan' f v ?i = Some (EV_VALUE 0)" using fmt by (simp add: eval_inst_def Let_def)
    then have v0: "v ! n = 0" by (rule run)
    have "limba_fold_inst libm nan f e n = Some (f, ?e, True)"
      using fmt e1(1) a by (simp add: limba_fold_inst_def fold_check_def Let_def)
    then show ?thesis using e1(2) ev v0 vx op by (intro exI [of _ e1] exI [of _ ?e] exI [of _ True]) (simp add: fold_kept_def)
  qed
qed

lemma fold_inst_step:
  assumes env: "inst_env f e v A (fn_insts f ! n)" and n: "n < length (fn_insts f)" "edit_value e n = n"
    and run: "\<And>r. eval_inst libm nan' f v (fn_insts f ! n) = Some (EV_VALUE r) \<Longrightarrow> v ! n = r"
  shows "\<exists>f' e1 e' changed. limba_fold_inst libm nan f e n = Some (f', e', changed) \<and> same_edit e e1 \<and>
    (if changed then eval_inst libm nan' f v (fn_insts f ! n) = Some (EV_VALUE (v ! n)) \<and> fold_kept f v A n e1 f' e'
     else f' = f \<and> e' = e1)"
proof (cases "in_op (fn_insts f ! n) = LIMBA_OP_CHECK")
  case True
  obtain e1 e' changed where "limba_fold_inst libm nan f e n = Some (f, e', changed)" "same_edit e e1"
      "if changed then eval_inst libm nan' f v (fn_insts f ! n) = Some (EV_VALUE (v ! n)) \<and> fold_kept f v A n e1 f e' else e' = e1"
    using fold_check_step [OF env True, of libm nan' nan, OF run] by blast
  then show ?thesis by (intro exI [of _ f] exI [of _ e1] exI [of _ e'] exI [of _ changed]) simp
next
  case False
  let ?i = "fn_insts f ! n"
  have fmt: "op_format (limba_ops (in_op ?i)) \<noteq> LIMBA_F_CHECK" using False by (simp add: op_formats)
  note env0 = inst_envD(1) [OF env]
  obtain out e1 where o: "fold_outcome_of libm nan f e ?i = Some (e1, out)" "same_edit e e1" "outcome_ok libm nan' f v A ?i out"
    using fold_outcome_ok [OF env, of libm nan' nan] by (auto simp: folds_ok_def reads_def)
  have canon: "canonical (in_type ?i) (v ! n)" if "eval_inst libm nan' f v ?i = Some (EV_VALUE (v ! n))"
  proof -
    have "operand_values f v ?i"
      using root_facts(4) [OF env0 inst_envD(3) [OF env]] by (simp add: operand_values_def operand_type_def value_type_def)
    then show ?thesis using eval_inst_typed [OF inst_envD(2) [OF env] _ that] by blast
  qed
  show ?thesis
  proof (cases out)
    case FOLD_NONE
    then have "limba_fold_inst libm nan f e n = Some (f, e1, False)" using fmt o(1) by (simp add: limba_fold_inst_def Let_def)
    then show ?thesis using o(2) by (intro exI [of _ f] exI [of _ e1] exI [of _ e1] exI [of _ False]) simp
  next
    case (FOLD_SET j)
    then obtain c where c: "eval_inst libm nan' f v ?i = Some (EV_VALUE c)" "const_value j = Some c" "in_type j = in_type ?i" "const_typed j"
      using o(3) by (auto simp: outcome_ok_def)
    have vn: "v ! n = c" by (rule run [OF c(1)])
    let ?f = "f\<lparr>fn_insts := (fn_insts f)[n := j]\<rparr>"
    have "limba_fold_inst libm nan f e n = Some (?f, e1, True)" using FOLD_SET fmt o(1) by (simp add: limba_fold_inst_def Let_def)
    moreover have "const_in_place ?i j" using fold_in_place [of ?i libm nan f e] o(1) FOLD_SET by (simp add: sets_in_place_def)
    then have "fold_kept f v A n e1 ?f e1" unfolding fold_kept_def Let_def using c vn False canon by auto
    ultimately show ?thesis using c(1) vn o(2) by (intro exI [of _ ?f] exI [of _ e1] exI [of _ e1] exI [of _ True]) simp
  next
    case (FOLD_REPLACE z)
    then have z: "z \<in> A" "eval_inst libm nan' f v ?i = Some (EV_VALUE (v ! z))" "value_type f z = in_type ?i"
      using o(3) by (auto simp: outcome_ok_def)
    have vn: "v ! n = v ! z" by (rule run [OF z(2)])
    note env1 = env_same [OF env0 o(2)]
    have "n < ed_ninsts e1" "z < ed_ninsts e1" "edit_value e1 n = n"
      using n o(2) env1 env_value [OF env1 z(1)] by (simp_all add: env_ok_def value_ok_def same_edit_def)
    then obtain e2 where e2: "limba_edit_replace e1 n z = Some e2"
      using ed.replace_ok [OF env_edit [OF env1]] by blast
    have "limba_fold_inst libm nan f e n = Some (f, e2, True)"
      using FOLD_REPLACE fmt o(1) e2(1) by (simp add: limba_fold_inst_def Let_def)
    moreover have "const_value ?i = None" "const_typed ?i"
      using FOLD_REPLACE o(1) by (auto simp: fold_outcome_of_def const_value_def const_typed_def split: if_splits)
    then have "fold_kept f v A n e1 f e2" unfolding fold_kept_def Let_def using z vn False e2 by (auto simp: value_type_def)
    ultimately show ?thesis using z(2) vn o(2) by (intro exI [of _ f] exI [of _ e1] exI [of _ e2] exI [of _ True]) simp
  qed
qed

lemma fold_kept_env:
  assumes env: "env_ok f e1 v A" and n: "n < length (fn_insts f)" "edit_value e1 n = n" and k: "fold_kept f v A n e1 f' e'"
  shows "env_ok f' e' v (insert n A)"
  using k unfolding fold_kept_def Let_def
proof (elim disjE conjE exE bexE)
  assume c: "in_op (fn_insts f ! n) = LIMBA_OP_CHECK" "v ! n = 0" "f' = f" "e' = e1\<lparr>ed_dead := (ed_dead e1)[n := True]\<rparr>"
  have "value_ok f e1 v (insert n A) n" using n c(1,2) by (simp add: value_ok_def canonical_def const_typed_def const_value_def)
  moreover have "value_ok f e1 v (insert n A) y" if "y \<in> A" for y using env_value [OF env that] by (simp add: value_ok_def)
  ultimately show ?thesis
    using env dead_same [OF env_edit [OF env], of n] c(3,4) by (auto simp: env_ok_def value_ok_def)
next
  fix j assume "const_value j = Some (v ! n)" "in_type j = in_type (fn_insts f ! n)" "const_typed j"
    "canonical (in_type (fn_insts f ! n)) (v ! n)" "f' = f\<lparr>fn_insts := (fn_insts f)[n := j]\<rparr>" "e' = e1"
  then show ?thesis using env_set [OF env n] by (simp add: value_type_def)
next
  fix z assume z: "z \<in> A" "v ! n = v ! z" "value_type f z = value_type f n" "const_value (fn_insts f ! n) = None"
    "const_typed (fn_insts f ! n)" "f' = f" "limba_edit_replace e1 n z = Some e'"
  have "n < ed_ninsts e1" "z < ed_ninsts e1" using n(1) env env_value [OF env z(1)] by (simp_all add: env_ok_def value_ok_def)
  then have "edit_ok e'" "ed_ninsts e' = ed_ninsts e1" "\<forall>x. edit_value e' x = (if edit_value e1 x = n then edit_value e1 z else edit_value e1 x)"
    using ed.replace_ok [OF env_edit [OF env] _ n(2)] z(7) by fastforce+
  then show ?thesis using env_replace [OF env n z(1-5)] z(6) by simp
qed

text \<open>
  C4: Folding is sound. Take a function under edit and the values of a run, which agree with it on the
  values computed so far: replaced values have the value of what they stand for, constants have their
  own. Folding an instruction whose operands are among them ends; and when it changes the instruction,
  the evaluator gives that instruction a value, without a trap, whatever the NaNs the arithmetic makes,
  and the function and the edit that come out, with the instruction rewritten to a constant, replaced by
  another value, or a check marked dead, agree with the run on its value too. No other instruction is rewritten, and when nothing changes the
  function is as it was and the edit stands for the same substitution.
\<close>

theorem fold_inst_sound:
  assumes env: "inst_env f e v A (fn_insts f ! n)" and n: "n < length (fn_insts f)" "edit_value e n = n"
    and run: "\<And>r. eval_inst libm nan' f v (fn_insts f ! n) = Some (EV_VALUE r) \<Longrightarrow> v ! n = r"
  shows "\<exists>f' e' changed. limba_fold_inst libm nan f e n = Some (f', e', changed) \<and>
    fn_insts f' = (fn_insts f)[n := fn_insts f' ! n] \<and>
    (if changed then eval_inst libm nan' f v (fn_insts f ! n) = Some (EV_VALUE (v ! n)) \<and> env_ok f' e' v (insert n A)
     else f' = f \<and> same_edit e e')"
proof -
  obtain f' e1 e' changed where r: "limba_fold_inst libm nan f e n = Some (f', e', changed)" "same_edit e e1"
      "if changed then eval_inst libm nan' f v (fn_insts f ! n) = Some (EV_VALUE (v ! n)) \<and> fold_kept f v A n e1 f' e'
       else f' = f \<and> e' = e1"
    using fold_inst_step [OF env n run] by blast
  have e1: "env_ok f e1 v A" "edit_value e1 n = n" using env_same [OF inst_envD(1) [OF env] r(2)] n(2) r(2) by (simp_all add: same_edit_def)
  have "env_ok f' e' v (insert n A)" if changed using fold_kept_env [OF e1(1) n(1) e1(2)] r(3) that by simp
  moreover have "fn_insts f' = (fn_insts f)[n := fn_insts f' ! n]"
    using r(3) n(1) by (auto simp: fold_kept_def Let_def split: if_splits)
  ultimately show ?thesis using r by (intro exI [of _ f'] exI [of _ e'] exI [of _ changed]) simp
qed

text \<open>A sample: two constants of 32 bits and their sum, which wraps.\<close>

definition fold_sample :: limba_func where
  "fold_sample = edit_sample\<lparr>fn_insts := [(edit_inst_of LIMBA_OP_ICONST LIMBA_T_I32 0 0)\<lparr>in_imm := 0x7FFFFFFF\<rparr>,
     (edit_inst_of LIMBA_OP_ICONST LIMBA_T_I32 0 0)\<lparr>in_imm := 1\<rparr>, edit_inst_of LIMBA_OP_ADD LIMBA_T_I32 0 2]\<rparr>"

definition fold_sample_run :: "u64 list" where
  "fold_sample_run = [0x7FFFFFFF, 1, 0xFFFFFFFF80000000]"

lemma fold_sample_env: "inst_env fold_sample (limba_edit_begin fold_sample) fold_sample_run {0, 1} (fn_insts fold_sample ! 2)"
proof -
  have "value_ok fold_sample (limba_edit_begin fold_sample) fold_sample_run {0, 1} x" if "x \<in> {0, 1}" for x
    using that edit_begin_ok(2) [of fold_sample x]
    by (auto simp: value_ok_def fold_sample_def fold_sample_run_def edit_inst_of_def value_type_def const_typed_def const_value_def canonical_def
        norm_signed limba_type_is_int_def)
  then have "env_ok fold_sample (limba_edit_begin fold_sample) fold_sample_run {0, 1}"
    using edit_begin_ok(1) by (simp add: env_ok_def limba_edit_begin_def)
  moreover have "inst_typed fold_sample (fn_insts fold_sample ! 2)"
    by (simp add: inst_typed_def fold_sample_def edit_inst_of_def operand_type_def operand_def edit_sample_def limba_type_is_int_def float_bin_def)
  ultimately show ?thesis
    by (auto simp: inst_env_def fold_sample_def edit_sample_def edit_inst_of_def operand_def less_2_cases_iff)
qed

lemma fold_sample_eval: "eval_inst libm nan fold_sample fold_sample_run (fn_insts fold_sample ! 2) = Some (EV_VALUE 0xFFFFFFFF80000000)"
  by (simp add: eval_inst_def fold_sample_def fold_sample_run_def edit_inst_of_def operand_def edit_sample_def limba_type_is_float_def
      int_bin_def Let_def uv_take norm_signed limba_type_is_int_def)

theorem fold_inst_sound_witness:
  "\<exists>f' e' changed. limba_fold_inst (\<lambda>rt args. 0) 0 fold_sample (limba_edit_begin fold_sample) 2 = Some (f', e', changed) \<and> changed \<and>
     env_ok f' e' fold_sample_run {0, 1, 2}"
proof -
  let ?e = "limba_edit_begin fold_sample" and ?i = "fn_insts fold_sample ! 2"
  obtain f' e' changed where r: "limba_fold_inst (\<lambda>rt args. 0) 0 fold_sample ?e 2 = Some (f', e', changed)"
      "if changed then env_ok f' e' fold_sample_run (insert 2 {0, 1}) else f' = fold_sample \<and> same_edit ?e e'"
    using fold_inst_sound [OF fold_sample_env, of "\<lambda>rt args. 0" 0 0] fold_sample_eval [of "\<lambda>rt args. 0" 0] edit_begin_ok(2) [of fold_sample 2]
    by (auto simp: fold_sample_def fold_sample_run_def split: if_splits)
  have "operand fold_sample ?i 0 = 0" "operand fold_sample ?i 1 = 1" "in_op ?i = LIMBA_OP_ADD" "in_type ?i = LIMBA_T_I32"
    by (simp_all add: fold_sample_def edit_sample_def edit_inst_of_def operand_def)
  note i = this
  have c: "int_const (root_inst fold_sample ?e 0) = Some 0x7FFFFFFF" "int_const (root_inst fold_sample ?e 1) = Some 1"
    by (simp_all add: root_inst_def edit_begin_ok(2) int_const_def norm_def [symmetric])
      (simp_all add: fold_sample_def edit_inst_of_def norm_signed limba_type_is_int_def)
  obtain e1 where "ivals fold_sample ?e 0 1 = Some (e1, Some (0x7FFFFFFF, 1))"
    using ivals_reads [OF inst_envD(1) [OF fold_sample_env], of 0 1] c by (auto simp: reads_def)
  then have "changed"
    using r(1) i by (auto simp: limba_fold_inst_def fold_outcome_of_def fold_bin_def limba_type_is_float_def fold_int_bin_def Let_def)
  then show ?thesis using r by (auto simp: insert_commute)
qed

end
