(* ===== verification/Verifytypes.thy ===== *)
theory Verifytypes
  imports Module "HOL-Library.While_Combinator"
begin

text \<open>
  The verifier on the declarations of a module: \<^verbatim>\<open>src/src/ir/verify.c\<close>, module level. The answer of a
  check is \<open>Some True\<close> or \<open>Some False\<close> (the code then words a diagnostic, which is not modelled); \<open>None\<close>
  is what a verifier must never do, to read outside an array or not to return: every read of an array of
  the module is a \<open>get\<close>, which gives \<open>None\<close> outside it.
\<close>

unbundle bit_operations_syntax

section \<open>Checks\<close>

definition get :: "'a list \<Rightarrow> nat \<Rightarrow> 'a option" where
  "get xs i = (if i < length xs then Some (xs ! i) else None)"

text \<open>A loop of checks that stops at the first that fails, and a check that goes on with what one gave.\<close>

fun all_of :: "('a \<Rightarrow> bool option) \<Rightarrow> 'a list \<Rightarrow> bool option" where
  "all_of f [] = Some True"
| "all_of f (x # xs) = do { ok \<leftarrow> f x; if ok then all_of f xs else Some False }"

definition given :: "'a option option \<Rightarrow> ('a \<Rightarrow> bool option) \<Rightarrow> bool option" where
  "given m k = do { r \<leftarrow> m; case r of None \<Rightarrow> Some False | Some a \<Rightarrow> k a }"

definition also_ok :: "bool option \<Rightarrow> bool option \<Rightarrow> bool option" where
  "also_ok a b = do { ok \<leftarrow> a; if ok then b else Some False }"

section \<open>Types\<close>

definition builtin_family :: "int \<Rightarrow> int" where
  "builtin_family ident =
     (if ident = LIMBA_TRAP_NOMEM \<or> ident = LIMBA_TRAP_STACK then LIMBA_FAMILY_STORAGE
      else if ident = LIMBA_TRAP_INVALID_FREE \<or> ident = LIMBA_TRAP_INVALID_HANDLE then LIMBA_FAMILY_PROGRAM
      else if ident = LIMBA_TRAP_IO then LIMBA_FAMILY_INPUT_OUTPUT
      else if ident \<in> {LIMBA_FAMILY_CONSTRAINT, LIMBA_FAMILY_STORAGE, LIMBA_FAMILY_PROGRAM, LIMBA_FAMILY_INPUT_OUTPUT} then - 1
      else LIMBA_FAMILY_CONSTRAINT)"

definition type_ok :: "limba_module \<Rightarrow> limba_id \<Rightarrow> bool" where
  "type_ok m t \<longleftrightarrow> t < length (md_types m)"

definition ext_ok :: "limba_id \<Rightarrow> u32 \<Rightarrow> bool" where
  "ext_ok t ext \<longleftrightarrow> ext = ext_code LIMBA_EXT_NONE \<or>
     (ext = ext_code LIMBA_EXT_SEXT \<or> ext = ext_code LIMBA_EXT_ZEXT) \<and> (t = LIMBA_T_I8 \<or> t = LIMBA_T_I16 \<or> t = LIMBA_T_I32)"

definition is_value_type :: "limba_module \<Rightarrow> limba_id \<Rightarrow> bool" where
  "is_value_type m t \<longleftrightarrow> t > LIMBA_T_VOID \<and> t < LIMBA_T_FIRST_USER \<and> type_ok m t"

definition is_pow2 :: "u32 \<Rightarrow> bool" where
  "is_pow2 x \<longleftrightarrow> x \<noteq> 0 \<and> x AND (x - 1) = 0"

definition kind_of :: "limba_module \<Rightarrow> limba_id \<Rightarrow> limba_type_kind option" where
  "kind_of m t = map_option ty_kind (get (md_types m) t)"

text \<open>A field of struct \<open>t\<close>, a parameter of a function type.\<close>

definition check_field :: "limba_module \<Rightarrow> limba_id \<Rightarrow> limba_type \<Rightarrow> nat \<Rightarrow> bool option" where
  "check_field m t ty i =
     do {
       f \<leftarrow> get (md_members m) (ty_first ty + i);
       if mb_type f \<ge> t \<or> mb_type f = LIMBA_T_VOID then Some False
       else do {
         ft \<leftarrow> get (md_types m) (mb_type f);
         Some (\<not> (ty_kind ft = LIMBA_TK_FUNC \<or> unat (mb_offset f) + unat (ty_size ft) > unat (ty_size ty) \<or>
           ty_align ft \<noteq> 0 \<and> mb_offset f mod ty_align ft \<noteq> 0))
       }
     }"

definition check_param_ext :: "limba_module \<Rightarrow> limba_type \<Rightarrow> nat \<Rightarrow> bool option" where
  "check_param_ext m ty i =
     do { p \<leftarrow> get (md_members m) (ty_first ty + i); Some (ext_ok (mb_type p) (mb_offset p)) }"

definition check_param :: "limba_module \<Rightarrow> limba_type \<Rightarrow> nat \<Rightarrow> bool option" where
  "check_param m ty i =
     do {
       p \<leftarrow> get (md_members m) (ty_first ty + i);
       if is_value_type m (mb_type p) then Some True
       else if mb_type p < length (md_types m) then do { k \<leftarrow> kind_of m (mb_type p); Some (k = LIMBA_TK_STRUCT) }
       else Some False
     }"

definition check_struct :: "limba_module \<Rightarrow> limba_id \<Rightarrow> limba_type \<Rightarrow> bool option" where
  "check_struct m t ty =
     (if ty_name ty \<ge> limba_str_count m then Some False
      else if \<not> is_pow2 (ty_align ty) \<or> ty_size ty mod ty_align ty \<noteq> 0 then Some False
      else if ty_first ty + ty_count ty > length (md_members m) then Some False
      else all_of (check_field m t ty) [0 ..< ty_count ty])"

definition check_array :: "limba_module \<Rightarrow> limba_id \<Rightarrow> limba_type \<Rightarrow> bool option" where
  "check_array m t ty =
     (if ty_elem ty \<ge> t \<or> ty_elem ty = LIMBA_T_VOID then Some False
      else do { k \<leftarrow> kind_of m (ty_elem ty); Some (k \<noteq> LIMBA_TK_FUNC) })"

definition check_func_type :: "limba_module \<Rightarrow> limba_type \<Rightarrow> bool option" where
  "check_func_type m ty =
     (if ty_elem ty \<ge> length (md_types m) then Some False
      else do {
        k \<leftarrow> kind_of m (ty_elem ty);
        if ty_elem ty \<noteq> LIMBA_T_VOID \<and> \<not> is_value_type m (ty_elem ty) \<and> k \<noteq> LIMBA_TK_STRUCT then Some False
        else if ty_first ty + ty_count ty > length (md_members m) then Some False
        else if \<not> ext_ok (ty_elem ty) (ucast (ty_rext ty)) then Some False
        else also_ok (all_of (check_param_ext m ty) [0 ..< ty_count ty]) (all_of (check_param m ty) [0 ..< ty_count ty])
      })"

definition check_type :: "limba_module \<Rightarrow> limba_id \<Rightarrow> bool option" where
  "check_type m t =
     do {
       ty \<leftarrow> get (md_types m) t;
       if ty_kind ty = LIMBA_TK_STRUCT then check_struct m t ty
       else if ty_kind ty = LIMBA_TK_ARRAY then check_array m t ty
       else if ty_kind ty = LIMBA_TK_FUNC then check_func_type m ty
       else Some False
     }"

definition check_types :: "limba_module \<Rightarrow> bool option" where
  "check_types m = all_of (check_type m) [LIMBA_T_FIRST_USER ..< length (md_types m)]"

definition scalar_sig :: "limba_module \<Rightarrow> limba_id \<Rightarrow> bool option" where
  "scalar_sig m t =
     do {
       ty \<leftarrow> get (md_types m) t;
       if ty_elem ty \<noteq> LIMBA_T_VOID \<and> \<not> is_value_type m (ty_elem ty) \<or> ty_rext ty \<noteq> 0 then Some False
       else all_of (\<lambda>i. do { p \<leftarrow> get (md_members m) (ty_first ty + i); Some (is_value_type m (mb_type p) \<and> mb_offset p = 0) })
         [0 ..< ty_count ty]
     }"

text \<open>
  What C knows of a type. The recursion goes down the fields, and through the arrays of a field; the fuel is
  one more than the number of types, and \<open>None\<close> a type that holds itself.
\<close>

definition array_base :: "limba_module \<Rightarrow> limba_id \<Rightarrow> limba_id option" where
  "array_base m t =
     while_option (\<lambda>f. f < length (md_types m) \<and> ty_kind (md_types m ! f) = LIMBA_TK_ARRAY \<and> ty_count (md_types m ! f) \<noteq> 0)
       (\<lambda>f. ty_elem (md_types m ! f)) t"

primrec c_type_in :: "nat \<Rightarrow> limba_module \<Rightarrow> limba_id \<Rightarrow> bool \<Rightarrow> bool option" where
  "c_type_in 0 = (\<lambda>m t result. None)"
| "c_type_in (Suc fuel) = (\<lambda>m t result.
     if t \<ge> length (md_types m) then Some False
     else if t = LIMBA_T_VOID then Some result
     else if limba_type_is_int t \<or> limba_type_is_float t \<or> t = LIMBA_T_PTR then Some True
     else do {
       ty \<leftarrow> get (md_types m) t;
       if ty_kind ty \<noteq> LIMBA_TK_STRUCT \<or> ty_size ty = 0 then Some False
       else do {
         counted \<leftarrow> limba_type_counted m t;
         if counted then Some False
         else all_of (\<lambda>i. do {
             p \<leftarrow> get (md_members m) (ty_first ty + i);
             b \<leftarrow> array_base m (mb_type p);
             c_type_in fuel m b False
           }) [0 ..< ty_count ty]
       }
     })"

definition c_type :: "limba_module \<Rightarrow> limba_id \<Rightarrow> bool \<Rightarrow> bool option" where
  "c_type m t result = c_type_in (Suc (length (md_types m))) m t result"

section \<open>The data of a global\<close>

text \<open>The field of a struct that holds byte \<open>off\<close>: the first of the type and the offset in it.\<close>

fun field_at :: "limba_module \<Rightarrow> limba_type \<Rightarrow> nat list \<Rightarrow> nat \<Rightarrow> (limba_id \<times> nat) option" where
  "field_at m ty [] off = Some (LIMBA_NONE, off)"
| "field_at m ty (i # is) off =
     do {
       f \<leftarrow> get (md_members m) (ty_first ty + i);
       fs \<leftarrow> (if mb_type f < length (md_types m) then map_option (unat \<circ> ty_size) (get (md_types m) (mb_type f)) else Some 0);
       if off \<ge> unat (mb_offset f) \<and> off - unat (mb_offset f) < fs
       then (if mb_type f = LIMBA_NONE then field_at m ty is (off - unat (mb_offset f)) else Some (mb_type f, off - unat (mb_offset f)))
       else field_at m ty is off
     }"

partial_function (option) scalar_at :: "limba_module \<Rightarrow> limba_id \<Rightarrow> nat \<Rightarrow> limba_id option" where
  "scalar_at m t off =
     (if t \<ge> length (md_types m) then Some LIMBA_NONE
      else if t < LIMBA_T_FIRST_USER then Some (if off = 0 then t else LIMBA_NONE)
      else Option.bind (get (md_types m) t) (\<lambda>ty.
        if ty_kind ty = LIMBA_TK_ARRAY
        then Option.bind (if ty_elem ty < length (md_types m) then map_option (unat \<circ> ty_size) (get (md_types m) (ty_elem ty)) else Some 0)
          (\<lambda>es. if es = 0 \<or> off div es \<ge> ty_count ty then Some LIMBA_NONE else scalar_at m (ty_elem ty) (off mod es))
        else if ty_kind ty = LIMBA_TK_STRUCT
        then Option.bind (field_at m ty [0 ..< ty_count ty] off)
          (\<lambda>(t, off). if t = LIMBA_NONE then Some LIMBA_NONE else scalar_at m t off)
        else Some LIMBA_NONE))"

definition fill_len :: "limba_fill \<Rightarrow> nat" where
  "fill_len f = length (fl_bytes f)"

definition data_end :: "limba_initdata \<Rightarrow> nat" where
  "data_end d =
     (if id_fills d = [] then length (id_bytes d)
      else let f = last (id_fills d) in unat (fl_offset f) + fill_len f * unat (fl_count f))"

text \<open>The binary search of \<open>data_byte\<close>: how many of the fills begin at \<open>k\<close> or before.\<close>

function fill_search :: "limba_fill list \<Rightarrow> nat \<Rightarrow> nat \<Rightarrow> nat \<Rightarrow> nat option" where
  "fill_search fs k lo hi =
     (if lo < hi
      then let mid = lo + (hi - lo) div 2
        in do { f \<leftarrow> get fs mid; if unat (fl_offset f) \<le> k then fill_search fs k (mid + 1) hi else fill_search fs k lo mid }
      else Some lo)"
  by pat_completeness auto
termination
  by (relation "measure (\<lambda>(fs, k, lo, hi). hi - lo)") auto

declare fill_search.simps [simp del]

definition data_byte :: "limba_initdata \<Rightarrow> nat \<Rightarrow> u8 option" where
  "data_byte d k =
     (if k < length (id_bytes d) then get (id_bytes d) k
      else do {
        lo \<leftarrow> fill_search (id_fills d) k 0 (length (id_fills d));
        if lo = 0 then Some 0
        else do {
          f \<leftarrow> get (id_fills d) (lo - 1);
          let i = k - unat (fl_offset f)
          in if i < fill_len f * unat (fl_count f) then get (fl_bytes f) (i mod fill_len f) else Some 0
        }
      })"

definition bytes_zero :: "limba_initdata \<Rightarrow> nat list \<Rightarrow> bool option" where
  "bytes_zero d ks = all_of (\<lambda>k. do { b \<leftarrow> data_byte d k; Some (b = 0) }) ks"

primrec counted_zero_in :: "nat \<Rightarrow> limba_module \<Rightarrow> limba_id \<Rightarrow> nat \<Rightarrow> limba_initdata \<Rightarrow> nat \<Rightarrow> bool option" where
  "counted_zero_in 0 = (\<lambda>m t base d stop. None)"
| "counted_zero_in (Suc fuel) = (\<lambda>m t base d stop.
     if base \<ge> stop then Some True
     else do {
       counted \<leftarrow> limba_type_counted m t;
       if \<not> counted then Some True
       else do {
         ty \<leftarrow> get (md_types m) t;
         if t = LIMBA_T_STR \<or> t = LIMBA_T_REF
         then bytes_zero d (takeWhile (\<lambda>k. k < stop) [base ..< base + unat (ty_size ty)])
         else if ty_kind ty = LIMBA_TK_ARRAY
         then do {
           e \<leftarrow> get (md_types m) (ty_elem ty);
           let es = unat (ty_size e)
           in all_of (\<lambda>i. counted_zero_in fuel m (ty_elem ty) (base + i * es) d stop)
                (takeWhile (\<lambda>i. base + i * es < stop) [0 ..< ty_count ty])
         }
         else all_of (\<lambda>i. do {
             f \<leftarrow> get (md_members m) (ty_first ty + i);
             counted_zero_in fuel m (mb_type f) (base + unat (mb_offset f)) d stop
           }) [0 ..< ty_count ty]
       }
     })"

definition counted_zero :: "limba_module \<Rightarrow> limba_id \<Rightarrow> nat \<Rightarrow> limba_initdata \<Rightarrow> nat \<Rightarrow> bool option" where
  "counted_zero m t base d stop = counted_zero_in (Suc (length (md_types m))) m t base d stop"

text \<open>The fills come after the bytes and each other, within \<open>sz\<close>; \<open>past\<close> is the first byte after the one before.\<close>

fun check_fills :: "nat \<Rightarrow> nat \<Rightarrow> limba_fill list \<Rightarrow> bool" where
  "check_fills sz past [] = True"
| "check_fills sz past (f # fs) =
     (if fill_len f = 0 \<or> fl_count f = 0 then False
      else if unat (fl_offset f) < past then False
      else let past = unat (fl_offset f) + fill_len f * unat (fl_count f)
        in if past > sz then False else check_fills sz past fs)"

text \<open>What a relocation names; the address in a global is within it.\<close>

definition check_reloc_target :: "limba_module \<Rightarrow> limba_reloc \<Rightarrow> bool option" where
  "check_reloc_target m r =
     (case rl_kind r of
        LIMBA_RELOC_FUNC \<Rightarrow> Some (\<not> (rl_id r \<ge> length (md_funcs m) \<or> rl_addend r \<noteq> 0))
      | LIMBA_RELOC_GLOBAL \<Rightarrow>
          (if rl_id r \<ge> length (md_globals m) \<or> sint (rl_addend r) < 0 then Some False
           else do {
             g \<leftarrow> get (md_globals m) (rl_id r);
             ty \<leftarrow> get (md_types m) (gl_type g);
             Some (\<not> unat (rl_addend r) > unat (ty_size ty))
           })
      | LIMBA_RELOC_STR \<Rightarrow> Some (\<not> (rl_id r \<ge> limba_str_count m \<or> rl_addend r \<noteq> 0)))"

fun check_relocs :: "limba_module \<Rightarrow> limba_id \<Rightarrow> limba_initdata \<Rightarrow> nat \<Rightarrow> limba_reloc list \<Rightarrow> bool option" where
  "check_relocs m t d past [] = Some True"
| "check_relocs m t d past (r # rs) =
     (let want = (if rl_kind r = LIMBA_RELOC_STR then LIMBA_T_STR else LIMBA_T_PTR)
      in do {
        wt \<leftarrow> get (md_types m) want;
        let w = unat (ty_size wt)
        in if unat (rl_offset r) < past then Some False
           else do {
             s \<leftarrow> scalar_at m t (unat (rl_offset r));
             if s \<noteq> want then Some False
             else also_ok (bytes_zero d [unat (rl_offset r) ..< unat (rl_offset r) + w])
               (also_ok (check_reloc_target m r) (check_relocs m t d (unat (rl_offset r) + w) rs))
           }
      })"

definition check_data :: "limba_module \<Rightarrow> limba_global \<Rightarrow> bool list \<Rightarrow> (bool \<times> bool list) option" where
  "check_data m g seen =
     (let value = unat (gl_value g)
      in if value \<ge> length (md_inits m) then Some (False, seen)
         else do {
           s \<leftarrow> get seen value;
           let seen = seen[value := True]
           in if s then Some (False, seen)
              else do {
                d \<leftarrow> get (md_inits m) value;
                ty \<leftarrow> get (md_types m) (gl_type g);
                let sz = unat (ty_size ty)
                in if length (id_bytes d) > sz then Some (False, seen)
                   else if \<not> check_fills sz (length (id_bytes d)) (id_fills d) then Some (False, seen)
                   else map_option (\<lambda>ok. (ok, seen))
                     (also_ok (counted_zero m (gl_type g) 0 d (data_end d)) (check_relocs m (gl_type g) d 0 (id_relocs d)))
              }
         })"

fun check_globals :: "limba_module \<Rightarrow> bool list \<Rightarrow> limba_global list \<Rightarrow> bool option" where
  "check_globals m seen [] = Some True"
| "check_globals m seen (g # gs) =
     (let nstr = limba_str_count m
      in if gl_name g \<ge> nstr then Some False
         else if \<not> type_ok m (gl_type g) \<or> gl_type g = LIMBA_T_VOID then Some False
         else do {
           k \<leftarrow> kind_of m (gl_type g);
           if k = LIMBA_TK_FUNC then Some False
           else do {
             (ok, seen) \<leftarrow> (case gl_init g of
                 LIMBA_INIT_ZERO \<Rightarrow> Some (gl_value g = 0, seen)
               | LIMBA_INIT_INT \<Rightarrow> Some (limba_type_is_int (gl_type g) \<or> gl_type g = LIMBA_T_PTR, seen)
               | LIMBA_INIT_FLOAT \<Rightarrow> Some (limba_type_is_float (gl_type g) \<and>
                   (gl_type g \<noteq> LIMBA_T_F32 \<or> unat (gl_value g) \<le> LIMBA_NONE), seen)
               | LIMBA_INIT_STR \<Rightarrow> Some (gl_type g = LIMBA_T_STR \<and> unat (gl_value g) < nstr, seen)
               | LIMBA_INIT_DATA \<Rightarrow> check_data m g seen);
             if ok then check_globals m seen gs else Some False
           }
         })"

section \<open>Symbols\<close>

definition check_pointers :: "limba_module \<Rightarrow> bool option" where
  "check_pointers m =
     (if md_ptr_bits m \<noteq> 32 \<and> md_ptr_bits m \<noteq> 64 then Some False
      else all_of (\<lambda>t. do { ty \<leftarrow> get (md_types m) t; Some (ty_size ty * 8 = md_ptr_bits m) })
        [LIMBA_T_PTR, LIMBA_T_STR, LIMBA_T_REF])"

definition check_target :: "limba_module \<Rightarrow> bool" where
  "check_target m \<longleftrightarrow>
     md_target m = LIMBA_NONE \<or>
     (let s = (if md_target m < limba_str_count m then limba_str m (md_target m) else [])
      in md_target m < limba_str_count m \<and> limba_target_known s \<and> limba_target_ptr_bits s = md_ptr_bits m)"

definition check_message :: "limba_module \<Rightarrow> nat \<Rightarrow> bool" where
  "check_message m i \<longleftrightarrow>
     (let msg = md_messages m ! i
      in limba_trap_text (mg_code msg) \<noteq> None \<and>
         mg_text msg < limba_str_count m \<and> limba_str m (mg_text msg) \<noteq> [] \<and>
         list_all (\<lambda>g. mg_code g \<noteq> mg_code msg) (take i (md_messages m)))"

definition check_exception :: "limba_module \<Rightarrow> nat \<Rightarrow> bool" where
  "check_exception m i \<longleftrightarrow>
     (let x = md_excs m ! i
      in \<not> (xc_id x < 0 \<or> xc_id x < 1000 \<and> \<not> limba_exception_builtin (xc_id x)) \<and>
         xc_name x < limba_str_count m \<and> limba_str m (xc_name x) \<noteq> [] \<and>
         list_all (\<lambda>y. xc_id y \<noteq> xc_id x) (take i (md_excs m)) \<and>
         \<not> (xc_id x < 1000 \<and> xc_parent x \<noteq> - 1 \<and> xc_parent x \<noteq> builtin_family (xc_id x)))"

text \<open>
  The climb up the families: \<open>None\<close> when they make a cycle or name one that does not exist, otherwise where
  it stopped, an identity of Limba or a negative number.
\<close>

function climb_family :: "limba_exception list \<Rightarrow> nat \<Rightarrow> int \<Rightarrow> int option" where
  "climb_family xs steps at =
     (if at < 0 then Some at
      else if steps > length xs then None
      else case find (\<lambda>x. xc_id x = at) xs of
          None \<Rightarrow> (if limba_exception_builtin at then Some at else None)
        | Some x \<Rightarrow> (if at < 1000 then Some at else climb_family xs (steps + 1) (xc_parent x)))"
  by pat_completeness auto
termination
  by (relation "measure (\<lambda>(xs, steps, at). Suc (length xs) - steps)") auto

function in_storage :: "int \<Rightarrow> bool" where
  "in_storage at =
     (if at < 0 then False else if at = LIMBA_FAMILY_STORAGE then True else in_storage (builtin_family at))"
  by pat_completeness auto
termination
  by (relation "measure (\<lambda>at. if at < 0 then 0 else if at \<in> {900, 901, 902, 903} then 1 else 2)")
    (auto simp: builtin_family_def split: if_splits)

declare climb_family.simps [simp del] in_storage.simps [simp del]

definition check_family :: "limba_module \<Rightarrow> limba_exception \<Rightarrow> bool" where
  "check_family m x \<longleftrightarrow>
     (case climb_family (md_excs m) 0 (xc_parent x) of
        None \<Rightarrow> False
      | Some at \<Rightarrow> \<not> at < - 1 \<and> \<not> (xc_id x \<ge> 1000 \<and> in_storage at))"

definition check_extern :: "limba_module \<Rightarrow> limba_extern \<Rightarrow> bool option" where
  "check_extern m e =
     (let nstr = limba_str_count m
      in if ex_name e \<ge> nstr \<or> ex_symbol e \<ge> nstr \<or> ex_library e \<noteq> LIMBA_NONE \<and> ex_library e \<ge> nstr then Some False
         else if \<not> type_ok m (ex_type e) then Some False
         else do {
           ft \<leftarrow> get (md_types m) (ex_type e);
           if ty_kind ft \<noteq> LIMBA_TK_FUNC then Some False
           else all_of (\<lambda>k. do {
               t \<leftarrow> (if k < ty_count ft then map_option mb_type (get (md_members m) (ty_first ft + k)) else Some (ty_elem ft));
               c_type m t (k = ty_count ft)
             }) [0 ..< ty_count ft + 1]
         })"

definition check_func_decl :: "limba_module \<Rightarrow> limba_func \<Rightarrow> bool option" where
  "check_func_decl m f =
     (if fn_name f \<ge> limba_str_count m then Some False
      else if \<not> type_ok m (fn_type f) then Some False
      else do {
        ty \<leftarrow> get (md_types m) (fn_type f);
        if ty_kind ty \<noteq> LIMBA_TK_FUNC \<or> ty_variadic ty then Some False else scalar_sig m (fn_type f)
      })"

text \<open>The memory model is one of the two of the enumeration; the check that it is has no counterpart.\<close>

definition check_symbols :: "limba_module \<Rightarrow> bool option" where
  "check_symbols m =
     also_ok (check_pointers m)
       (let nstr = limba_str_count m
        in if md_name m \<noteq> LIMBA_NONE \<and> md_name m \<ge> nstr then Some False
           else if md_language m \<noteq> LIMBA_NONE \<and> md_language m \<ge> nstr then Some False
           else if \<not> check_target m then Some False
           else if \<not> list_all (check_message m) [0 ..< length (md_messages m)] then Some False
           else if \<not> list_all (check_exception m) [0 ..< length (md_excs m)] then Some False
           else if \<not> list_all (check_family m) (md_excs m) then Some False
           else also_ok (check_globals m (replicate (length (md_inits m)) False) (md_globals m))
             (also_ok (all_of (check_extern m) (md_externs m)) (all_of (check_func_decl m) (md_funcs m))))"

definition limba_verify_decls :: "limba_module \<Rightarrow> bool option" where
  "limba_verify_decls m =
     also_ok (check_types m)
       (also_ok (check_symbols m) (Some (list_all (\<lambda>p. ps_file p < limba_str_count m) (md_pos m))))"

section \<open>Checks that answer\<close>

text \<open>
  A check answers when it does not read outside an array and ends. The rules follow the form of a check.
\<close>

definition answers :: "'a option \<Rightarrow> bool" where
  "answers a \<longleftrightarrow> a \<noteq> None"

named_theorems answer_intros

lemma answersI [simp]: "answers (Some x)"
  by (simp add: answers_def)

lemma answersE: "answers a \<Longrightarrow> (\<And>x. a = Some x \<Longrightarrow> P) \<Longrightarrow> P"
  by (auto simp: answers_def)

lemma answers_if [answer_intros]:
  "(c \<Longrightarrow> answers a) \<Longrightarrow> (\<not> c \<Longrightarrow> answers b) \<Longrightarrow> answers (if c then a else b)"
  by simp

lemma answers_bind [answer_intros]: "answers a \<Longrightarrow> (\<And>x. a = Some x \<Longrightarrow> answers (f x)) \<Longrightarrow> answers (Option.bind a f)"
  by (auto simp: answers_def)

lemma answers_map [simp]: "answers (map_option f a) = answers a"
  by (simp add: answers_def)

lemma get_some [simp]: "get xs i = Some x \<longleftrightarrow> i < length xs \<and> x = xs ! i"
  by (auto simp: get_def)

lemma answers_get [simp]: "answers (get xs i) \<longleftrightarrow> i < length xs"
  by (simp add: answers_def get_def)

lemma answers_also [answer_intros]: "answers a \<Longrightarrow> (a = Some True \<Longrightarrow> answers b) \<Longrightarrow> answers (also_ok a b)"
  unfolding also_ok_def by (rule answers_bind) auto

lemma answers_given [answer_intros]:
  "answers a \<Longrightarrow> (\<And>x. a = Some (Some x) \<Longrightarrow> answers (f x)) \<Longrightarrow> answers (given a f)"
  unfolding given_def by (rule answers_bind) (auto split: option.splits)

lemma answers_all_of [answer_intros]: "(\<And>x. x \<in> set xs \<Longrightarrow> answers (f x)) \<Longrightarrow> answers (all_of f xs)"
  by (induction xs) (auto intro!: answers_bind)

lemma also_ok_true [simp]: "also_ok a b = Some True \<longleftrightarrow> a = Some True \<and> b = Some True"
  by (cases a) (auto simp: also_ok_def)

lemma given_true [simp]: "given a f = Some True \<longleftrightarrow> (\<exists>x. a = Some (Some x) \<and> f x = Some True)"
  by (cases a) (auto simp: given_def split: option.splits)

lemma all_of_true [simp]: "all_of f xs = Some True \<longleftrightarrow> (\<forall>x \<in> set xs. f x = Some True)"
proof (induction xs)
  case (Cons x xs)
  then show ?case by (cases "f x") auto
qed simp

section \<open>The types the verifier lets through\<close>

text \<open>The types every module begins with, as \<open>limba_module_new\<close> makes them.\<close>

definition builtins_ok :: "limba_module \<Rightarrow> bool" where
  "builtins_ok m \<longleftrightarrow> LIMBA_T_FIRST_USER \<le> length (md_types m) \<and>
     (\<forall>t < LIMBA_T_FIRST_USER. ty_kind (md_types m ! t) = scalar_kinds ! t)"

definition members_in :: "limba_module \<Rightarrow> limba_type \<Rightarrow> bool" where
  "members_in m ty \<longleftrightarrow> ty_first ty + ty_count ty \<le> length (md_members m)"

definition type_ranged :: "limba_module \<Rightarrow> limba_id \<Rightarrow> bool" where
  "type_ranged m t \<longleftrightarrow>
     (let ty = md_types m ! t
      in (ty_kind ty = LIMBA_TK_STRUCT \<longrightarrow> members_in m ty \<and> (\<forall>i < ty_count ty. mb_type (md_members m ! (ty_first ty + i)) < t)) \<and>
         (ty_kind ty = LIMBA_TK_ARRAY \<longrightarrow> ty_elem ty < t) \<and>
         (ty_kind ty = LIMBA_TK_FUNC \<longrightarrow> members_in m ty \<and> ty_elem ty < length (md_types m)))"

definition types_ranged :: "limba_module \<Rightarrow> bool" where
  "types_ranged m \<longleftrightarrow> LIMBA_T_FIRST_USER \<le> length (md_types m) \<and> (\<forall>t < length (md_types m). type_ranged m t)"

lemma ranged_struct:
  assumes "types_ranged m" "t < length (md_types m)" "ty_kind (md_types m ! t) = LIMBA_TK_STRUCT" "i < ty_count (md_types m ! t)"
  shows "ty_first (md_types m ! t) + i < length (md_members m)" "mb_type (md_members m ! (ty_first (md_types m ! t) + i)) < t"
  using assms by (auto simp: types_ranged_def type_ranged_def members_in_def Let_def)

lemma ranged_array:
  "types_ranged m \<Longrightarrow> t < length (md_types m) \<Longrightarrow> ty_kind (md_types m ! t) = LIMBA_TK_ARRAY \<Longrightarrow> ty_elem (md_types m ! t) < t"
  by (simp add: types_ranged_def type_ranged_def Let_def)

lemma ranged_func:
  assumes "types_ranged m" "t < length (md_types m)" "ty_kind (md_types m ! t) = LIMBA_TK_FUNC"
  shows "ty_elem (md_types m ! t) < length (md_types m)"
    "i < ty_count (md_types m ! t) \<Longrightarrow> ty_first (md_types m ! t) + i < length (md_members m)"
  using assms by (auto simp: types_ranged_def type_ranged_def members_in_def Let_def)

lemma ranged_builtin: "types_ranged m \<Longrightarrow> t < LIMBA_T_FIRST_USER \<Longrightarrow> t < length (md_types m)"
  by (simp add: types_ranged_def)

lemma ranged_below: "types_ranged m \<Longrightarrow> types_below m"
  by (auto simp: types_below_def types_ranged_def type_ranged_def members_of_def Let_def in_set_conv_nth members_in_def)

text \<open>The checks of the types answer on every module, and what passes them is in range.\<close>

lemma check_field_answers:
  assumes "t < length (md_types m)" "ty_first ty + i < length (md_members m)"
  shows "answers (check_field m t ty i)"
  unfolding check_field_def using assms by (auto intro!: answer_intros)

lemma check_func_type_answers: "answers (check_func_type m ty)"
  unfolding check_func_type_def kind_of_def check_param_ext_def check_param_def
  by (auto intro!: answer_intros)

lemma check_type_answers: "t < length (md_types m) \<Longrightarrow> answers (check_type m t)"
  unfolding check_type_def check_struct_def check_array_def kind_of_def
  by (auto intro!: answer_intros check_field_answers check_func_type_answers)

lemma check_types_answers: "answers (check_types m)"
  unfolding check_types_def by (auto intro!: answer_intros check_type_answers)

lemma check_type_ranged:
  assumes "check_type m t = Some True" "t < length (md_types m)"
  shows "type_ranged m t"
proof -
  let ?ty = "md_types m ! t"
  have field: "check_field m t ?ty i = Some True \<Longrightarrow> mb_type (md_members m ! (ty_first ?ty + i)) < t" for i
    by (auto simp: check_field_def bind_eq_Some_conv split: if_splits)
  have "check_struct m t ?ty = Some True \<Longrightarrow> members_in m ?ty \<and> (\<forall>i < ty_count ?ty. mb_type (md_members m ! (ty_first ?ty + i)) < t)"
    by (auto simp: check_struct_def members_in_def field dest!: field split: if_splits)
  moreover have "check_array m t ?ty = Some True \<Longrightarrow> ty_elem ?ty < t"
    by (auto simp: check_array_def split: if_splits)
  moreover have "check_func_type m ?ty = Some True \<Longrightarrow> members_in m ?ty \<and> ty_elem ?ty < length (md_types m)"
    by (auto simp: check_func_type_def members_in_def bind_eq_Some_conv split: if_splits)
  ultimately show ?thesis
    using assms by (auto simp: type_ranged_def check_type_def Let_def bind_eq_Some_conv split: if_splits)
qed

lemma builtin_kind:
  assumes "builtins_ok m" "t < LIMBA_T_FIRST_USER"
  shows "ty_kind (md_types m ! t) \<notin> {LIMBA_TK_STRUCT, LIMBA_TK_ARRAY, LIMBA_TK_FUNC}"
proof -
  have "list_all (\<lambda>k. k \<notin> {LIMBA_TK_STRUCT, LIMBA_TK_ARRAY, LIMBA_TK_FUNC}) scalar_kinds" "length scalar_kinds = 11"
    by (simp_all add: scalar_kinds_def)
  then show ?thesis using assms by (auto simp: builtins_ok_def list_all_length)
qed

lemma check_types_ranged:
  assumes "builtins_ok m" "check_types m = Some True"
  shows "types_ranged m"
proof -
  have "type_ranged m t" if "t < length (md_types m)" for t
  proof (cases "t < LIMBA_T_FIRST_USER")
    case True
    then show ?thesis using builtin_kind [OF assms(1)] by (auto simp: type_ranged_def Let_def)
  next
    case False
    then show ?thesis using assms(2) that check_type_ranged by (auto simp: check_types_def)
  qed
  then show ?thesis using assms(1) by (simp add: types_ranged_def builtins_ok_def)
qed

section \<open>The checks of the symbols answer\<close>

lemma scalar_sig_answers:
  assumes "types_ranged m" "t < length (md_types m)" "ty_kind (md_types m ! t) = LIMBA_TK_FUNC"
  shows "answers (scalar_sig m t)"
  unfolding scalar_sig_def using ranged_func [OF assms] assms(2) by (auto intro!: answer_intros)

lemma counted_answers: "types_ranged m \<Longrightarrow> answers (limba_type_counted m t)"
proof (cases "t < length (md_types m)")
  case True
  then show "types_ranged m \<Longrightarrow> ?thesis"
    using type_counted_enough [OF ranged_below, of m t "Suc (length (md_types m))"] by (simp add: limba_type_counted_def)
qed (simp add: limba_type_counted_def)

lemma array_base_ends:
  assumes "types_ranged m"
  shows "\<exists>b \<le> t. array_base m t = Some b"
proof (induction t rule: less_induct)
  case (less t)
  let ?b = "\<lambda>f. f < length (md_types m) \<and> ty_kind (md_types m ! f) = LIMBA_TK_ARRAY \<and> ty_count (md_types m ! f) \<noteq> 0"
  show ?case
  proof (cases "?b t")
    case True
    then have e: "ty_elem (md_types m ! t) < t" using ranged_array [OF assms] by simp
    have "array_base m t = array_base m (ty_elem (md_types m ! t))"
      unfolding array_base_def using True by (subst while_option_unfold) simp
    then show ?thesis using less [OF e] e by auto
  next
    case False
    then have "array_base m t = Some t" unfolding array_base_def while_option_unfold [of ?b _ t] by (rule if_not_P)
    then show ?thesis by blast
  qed
qed

lemma c_type_in_answers:
  assumes "types_ranged m" "t < fuel"
  shows "answers (c_type_in fuel m t result)"
  using assms(2)
proof (induction fuel arbitrary: t result)
  case (Suc fuel)
  show ?case
  proof (cases "t < length (md_types m) \<and> ty_kind (md_types m ! t) = LIMBA_TK_STRUCT")
    case True
    note s = ranged_struct [OF assms(1) True [THEN conjunct1] True [THEN conjunct2]]
    have base: "answers (array_base m u)" for u using array_base_ends [OF assms(1), of u] by auto
    have rec: "answers (c_type_in fuel m b False)"
      if i: "i < ty_count (md_types m ! t)" "array_base m (mb_type (md_members m ! (ty_first (md_types m ! t) + i))) = Some b" for i b
    proof -
      have "b < t" using array_base_ends [OF assms(1), of "mb_type (md_members m ! (ty_first (md_types m ! t) + i))"] s(2) [OF i(1)] i(2)
        by auto
      then show ?thesis using Suc by (intro Suc.IH) simp
    qed
    then show ?thesis using True counted_answers [OF assms(1)] base s by (auto intro!: answer_intros)
  next
    case False
    then show ?thesis by (auto intro!: answer_intros)
  qed
qed simp

lemma c_type_answers:
  assumes "types_ranged m"
  shows "answers (c_type m t result)"
proof (cases "t < length (md_types m)")
  case True
  then show ?thesis unfolding c_type_def by (intro c_type_in_answers [OF assms]) simp
qed (simp add: c_type_def)

lemma field_at_answers:
  assumes "\<forall>i \<in> set is. ty_first ty + i < length (md_members m)"
  shows "answers (field_at m ty is off)"
  using assms by (induction "is" arbitrary: off) (auto intro!: answer_intros)

text \<open>The type of the field that holds a byte is that of a field.\<close>

lemma field_at_field:
  assumes "field_at m ty is off = Some (t, r)"
  shows "t = LIMBA_NONE \<or> (\<exists>i \<in> set is. t = mb_type (md_members m ! (ty_first ty + i)))"
  using assms
proof (induction m ty "is" off rule: field_at.induct)
  case (2 m ty i "is" off)
  then show ?case by (auto simp: bind_eq_Some_conv split: if_splits)
qed simp

lemma scalar_at_answers:
  assumes "types_ranged m"
  shows "answers (scalar_at m t off)"
proof (induction t arbitrary: off rule: less_induct)
  case (less t)
  let ?ty = "md_types m ! t"
  show ?case
  proof (cases "t < length (md_types m)")
    case t: True
    have arr: "answers (scalar_at m (ty_elem ?ty) o')" if "ty_kind ?ty = LIMBA_TK_ARRAY" for o'
      using less ranged_array [OF assms t that] by blast
    have fld: "answers (field_at m ?ty [0 ..< ty_count ?ty] off)" if "ty_kind ?ty = LIMBA_TK_STRUCT"
      using ranged_struct [OF assms t that] by (intro field_at_answers) auto
    have str: "answers (scalar_at m u r)"
      if "ty_kind ?ty = LIMBA_TK_STRUCT" "field_at m ?ty [0 ..< ty_count ?ty] off = Some (u, r)" "u \<noteq> LIMBA_NONE" for u r
    proof -
      have "u < t" using field_at_field [OF that(2)] that(3) ranged_struct [OF assms t that(1)] by auto
      then show ?thesis by (rule less)
    qed
    show ?thesis
      using t arr fld str by (subst scalar_at.simps) (auto intro!: answer_intros)
  next
    case False
    then show ?thesis by (subst scalar_at.simps) simp
  qed
qed

lemma fill_search_answers:
  assumes "lo \<le> hi" "hi \<le> length fs"
  shows "\<exists>r \<le> hi. fill_search fs k lo hi = Some r"
  using assms
proof (induction fs k lo hi rule: fill_search.induct)
  case (1 fs k lo hi)
  show ?case
  proof (cases "lo < hi")
    case True
    define mid where "mid = lo + (hi - lo) div 2"
    have mid: "lo \<le> mid" "mid < hi" using True by (auto simp: mid_def)
    have g: "get fs mid = Some (fs ! mid)" using mid 1(4) by (simp add: get_def)
    have run: "fill_search fs k lo hi =
        (if unat (fl_offset (fs ! mid)) \<le> k then fill_search fs k (mid + 1) hi else fill_search fs k lo mid)"
      using True g by (subst fill_search.simps) (simp add: mid_def [symmetric] Let_def del: get_some)
    show ?thesis
    proof (cases "unat (fl_offset (fs ! mid)) \<le> k")
      case t: True
      have "\<exists>r \<le> hi. fill_search fs k (mid + 1) hi = Some r" using 1(1) [OF True mid_def g t] mid 1(4) by simp
      then show ?thesis using run t by simp
    next
      case f: False
      have "\<exists>r \<le> mid. fill_search fs k lo mid = Some r" using 1(2) [OF True mid_def g f] mid 1(4) by simp
      then show ?thesis using run f mid by auto
    qed
  next
    case False
    then show ?thesis using 1(3) by (subst fill_search.simps) simp
  qed
qed

lemma data_byte_answers [simp]: "answers (data_byte d k)"
proof -
  obtain r where r: "r \<le> length (id_fills d)" "fill_search (id_fills d) k 0 (length (id_fills d)) = Some r"
    using fill_search_answers [of 0 "length (id_fills d)" "id_fills d" k] by auto
  have "i < fill_len f * c \<Longrightarrow> i mod fill_len f < length (fl_bytes f)" for i f c
    by (cases "fill_len f = 0") (auto simp: fill_len_def)
  then show ?thesis unfolding data_byte_def Let_def using r by (auto intro!: answer_intros)
qed

lemma bytes_zero_answers [simp]: "answers (bytes_zero d ks)"
  unfolding bytes_zero_def by (auto intro!: answer_intros)

lemma counted_range: "types_ranged m \<Longrightarrow> limba_type_counted m t = Some True \<Longrightarrow> t < length (md_types m)"
  by (cases "t < length (md_types m)") (simp_all add: limba_type_counted_def)

lemma counted_kind:
  assumes "limba_type_counted m t = Some True" "t < length (md_types m)"
  shows "ty_kind (md_types m ! t) \<in> {LIMBA_TK_STR, LIMBA_TK_REF, LIMBA_TK_ARRAY, LIMBA_TK_STRUCT}"
  using assms by (auto simp: limba_type_counted_def Let_def split: if_splits)

lemma builtin_types:
  assumes "builtins_ok m" "t < length (md_types m)" "ty_kind (md_types m ! t) \<in> {LIMBA_TK_ARRAY, LIMBA_TK_STRUCT, LIMBA_TK_FUNC}"
  shows "LIMBA_T_FIRST_USER \<le> t"
  using assms builtin_kind [OF assms(1), of t] by (cases "t < LIMBA_T_FIRST_USER") auto

text \<open>
  Only str and ref are counted among the built-in types; a user type of their kind is refused by
  \<open>check_type\<close>, so the recursion of \<open>counted_zero\<close> always meets an array or a struct.
\<close>

definition kinds_known :: "limba_module \<Rightarrow> bool" where
  "kinds_known m \<longleftrightarrow> (\<forall>t < length (md_types m). LIMBA_T_FIRST_USER \<le> t \<longrightarrow>
     ty_kind (md_types m ! t) \<in> {LIMBA_TK_STRUCT, LIMBA_TK_ARRAY, LIMBA_TK_FUNC})"

lemma check_types_kinds: "check_types m = Some True \<Longrightarrow> kinds_known m"
  by (fastforce simp: kinds_known_def check_types_def check_type_def bind_eq_Some_conv split: if_splits)

lemma counted_zero_in_answers:
  assumes "types_ranged m" "builtins_ok m" "kinds_known m" "t < fuel"
  shows "answers (counted_zero_in fuel m t base d stop)"
  using assms(4)
proof (induction fuel arbitrary: t base)
  case (Suc fuel)
  let ?ty = "md_types m ! t"
  have rec: "answers (counted_zero_in fuel m u b d stop)" if "u < t" for u b
    using Suc that by simp
  show ?case
  proof (cases "limba_type_counted m t = Some True")
    case c: True
    have t: "t < length (md_types m)" using counted_range [OF assms(1) c] .
    show ?thesis
    proof (cases "t < LIMBA_T_FIRST_USER")
      case True
      have "\<forall>t < LIMBA_T_FIRST_USER. scalar_kinds ! t \<in> {LIMBA_TK_STR, LIMBA_TK_REF} \<longrightarrow> t = LIMBA_T_STR \<or> t = LIMBA_T_REF"
        by (simp add: scalar_kinds_def less_Suc_eq numeral_eq_Suc All_less_Suc)
      then have "t = LIMBA_T_STR \<or> t = LIMBA_T_REF"
        using counted_kind [OF c t] builtin_kind [OF assms(2) True] assms(2) True by (auto simp: builtins_ok_def)
      then show ?thesis using c t by (auto intro!: answer_intros)
    next
      case False
      then have k: "ty_kind ?ty = LIMBA_TK_ARRAY \<or> ty_kind ?ty = LIMBA_TK_STRUCT"
        using counted_kind [OF c t] assms(3) t by (auto simp: kinds_known_def)
      have arr: "ty_elem ?ty < t" if "ty_kind ?ty = LIMBA_TK_ARRAY" using ranged_array [OF assms(1) t that] .
      note str = ranged_struct [OF assms(1) t]
      show ?thesis using c t k arr str rec by (auto intro!: answer_intros simp: Let_def)
    qed
  next
    case False
    then show ?thesis using counted_answers [OF assms(1), of t] by (auto intro!: answer_intros)
  qed
qed simp

lemma counted_zero_answers:
  assumes "types_ranged m" "builtins_ok m" "kinds_known m"
  shows "answers (counted_zero m t base d stop)"
proof (cases "t < length (md_types m)")
  case True
  then show ?thesis unfolding counted_zero_def by (intro counted_zero_in_answers [OF assms]) simp
qed (simp add: counted_zero_def limba_type_counted_def)

text \<open>
  A relocation in a global asks for the type of another, which may come later and not be checked yet.
\<close>

definition globals_typed :: "limba_module \<Rightarrow> bool" where
  "globals_typed m \<longleftrightarrow> (\<forall>g \<in> set (md_globals m). gl_type g < length (md_types m))"

lemma check_reloc_target_answers: "globals_typed m \<Longrightarrow> answers (check_reloc_target m r)"
  unfolding check_reloc_target_def by (auto intro!: answer_intros simp: globals_typed_def split: limba_reloc_kind.split)

lemma check_relocs_answers:
  assumes "types_ranged m" "globals_typed m"
  shows "answers (check_relocs m t d past rs)"
  using assms ranged_builtin [OF assms(1), of LIMBA_T_STR] ranged_builtin [OF assms(1), of LIMBA_T_PTR]
  by (induction rs arbitrary: past) (auto intro!: answer_intros scalar_at_answers check_reloc_target_answers simp: Let_def)

lemma check_data_answers:
  assumes "types_ranged m" "builtins_ok m" "kinds_known m" "globals_typed m"
    "length seen = length (md_inits m)" "gl_type g < length (md_types m)"
  shows "answers (check_data m g seen)" "check_data m g seen = Some (ok, seen') \<Longrightarrow> length seen' = length (md_inits m)"
  using assms
  by (auto intro!: answer_intros counted_zero_answers check_relocs_answers simp: check_data_def Let_def bind_eq_Some_conv split: if_splits)

lemma check_globals_answers:
  assumes "types_ranged m" "builtins_ok m" "kinds_known m" "globals_typed m" "length seen = length (md_inits m)"
  shows "answers (check_globals m seen gs)"
  using assms(5)
proof (induction gs arbitrary: seen)
  case (Cons g gs)
  have data: "answers (check_data m g seen)" "check_data m g seen = Some (ok, seen') \<Longrightarrow> length seen' = length (md_inits m)"
    if "type_ok m (gl_type g)" for ok seen'
    using that check_data_answers [OF assms(1-4) Cons.prems] by (simp_all add: type_ok_def)
  show ?case
    using data Cons.prems
    by (auto intro!: answer_intros Cons.IH simp: Let_def kind_of_def type_ok_def split: limba_init.splits)
qed simp

lemma check_extern_answers: "types_ranged m \<Longrightarrow> answers (check_extern m e)"
  unfolding check_extern_def Let_def
  by (auto intro!: answer_intros c_type_answers simp: type_ok_def dest: ranged_func)

lemma check_func_decl_answers: "types_ranged m \<Longrightarrow> answers (check_func_decl m f)"
  unfolding check_func_decl_def by (auto intro!: answer_intros scalar_sig_answers simp: type_ok_def)

lemma check_symbols_answers:
  assumes "types_ranged m" "builtins_ok m" "kinds_known m" "globals_typed m"
  shows "answers (check_symbols m)"
  unfolding check_symbols_def check_pointers_def Let_def
  using ranged_builtin [OF assms(1)]
  by (intro answer_intros answersI check_globals_answers check_extern_answers check_func_decl_answers assms) auto

lemma limba_verify_decls_answers:
  assumes "builtins_ok m" "globals_typed m"
  shows "answers (limba_verify_decls m)"
  unfolding limba_verify_decls_def
  using check_types_ranged [OF assms(1)] check_types_kinds [of m] assms
  by (intro answer_intros check_types_answers check_symbols_answers) auto

text \<open>What a verified module gives the checks of its functions.\<close>

lemma verified_funcs:
  assumes "limba_verify_decls m = Some True" "f \<in> set (md_funcs m)"
  shows "fn_type f < length (md_types m)" "ty_kind (md_types m ! fn_type f) = LIMBA_TK_FUNC"
  using assms
  by (auto simp: limba_verify_decls_def check_symbols_def check_func_decl_def type_ok_def bind_eq_Some_conv Let_def split: if_splits)

lemma builtins_ok_new [simp]: "md_types m = md_types limba_module_new \<Longrightarrow> builtins_ok m"
  by (simp add: builtins_ok_def limba_module_new_def scalar_type_def Let_def del: upt_rec_numeral)

lemma new_type: "t < LIMBA_T_FIRST_USER \<Longrightarrow> md_types limba_module_new ! t = scalar_type t"
  "length (md_types limba_module_new) = LIMBA_T_FIRST_USER"
  by (simp_all add: limba_module_new_def del: upt_rec_numeral)

text \<open>
  A module with the built-in types only and two globals: the data of the first, a ptr, is the address of the
  second, whose type does not exist.
\<close>

definition forged_module :: limba_module where
  "forged_module = limba_module_new
     \<lparr>md_strings := limba_strtab_new\<lparr>st_start := [0], st_len := [0]\<rparr>,
      md_inits := [\<lparr>id_bytes = [], id_relocs = [\<lparr>rl_offset = 0, rl_kind = LIMBA_RELOC_GLOBAL, rl_id = 1, rl_addend = 0\<rparr>], id_fills = []\<rparr>],
      md_globals := [\<lparr>gl_name = 0, gl_type = LIMBA_T_PTR, gl_flags = 0, gl_init = LIMBA_INIT_DATA, gl_value = 0\<rparr>,
        \<lparr>gl_name = 0, gl_type = 11, gl_flags = 0, gl_init = LIMBA_INIT_ZERO, gl_value = 0\<rparr>]\<rparr>"

lemma forged_facts:
  "md_types forged_module = md_types limba_module_new" "limba_str_count forged_module = 1"
  "md_messages forged_module = []" "md_excs forged_module = []" "md_ptr_bits forged_module = 64"
  "md_name forged_module = LIMBA_NONE" "md_language forged_module = LIMBA_NONE" "md_target forged_module = LIMBA_NONE"
  "length (md_inits forged_module) = 1" "length (md_globals forged_module) = 2" "gl_type (md_globals forged_module ! Suc 0) = 11"
  by (simp_all add: forged_module_def limba_str_count_def limba_strtab_count_def limba_strtab_new_def limba_module_new_def)

lemma forged_ptr: "scalar_type LIMBA_T_PTR =
  \<lparr>ty_kind = LIMBA_TK_PTR, ty_variadic = False, ty_rext = 0, ty_size = 8, ty_align = 8, ty_name = LIMBA_NONE,
   ty_elem = LIMBA_NONE, ty_count = 0, ty_first = 0\<rparr>"
  by (simp add: scalar_type_def scalar_kinds_def scalars_def)

lemma forged_scalar: "scalar_at forged_module LIMBA_T_PTR 0 = Some LIMBA_T_PTR"
  by (subst scalar_at.simps) (simp add: forged_facts new_type)


text \<open>
  C11: A global whose data holds the address of a later global makes the verifier read the type of the later
  one before it is checked: on a module that passes the check of the types it
  reads outside the table of types.
\<close>

theorem verify_reads_outside:
  "builtins_ok forged_module \<and> check_types forged_module = Some True \<and> limba_verify_decls forged_module = None"
proof -
  define r where "r = \<lparr>rl_offset = 0, rl_kind = LIMBA_RELOC_GLOBAL, rl_id = 1, rl_addend = 0\<rparr>"
  define d where "d = \<lparr>id_bytes = [], id_relocs = [r], id_fills = []\<rparr>"
  define g where "g = \<lparr>gl_name = 0, gl_type = LIMBA_T_PTR, gl_flags = 0, gl_init = LIMBA_INIT_DATA, gl_value = 0\<rparr>"
  have inits: "md_inits forged_module = [d]" and gs: "\<exists>g'. md_globals forged_module = [g, g']"
    by (simp_all add: forged_module_def d_def r_def g_def)
  have t: "check_types forged_module = Some True"
    by (simp add: check_types_def forged_facts new_type)
  have target: "check_reloc_target forged_module r = None"
    by (simp add: check_reloc_target_def r_def forged_facts get_def new_type)
  have zero: "bytes_zero d ks = Some True" for ks
    by (simp add: bytes_zero_def data_byte_def d_def fill_search.simps)
  have relocs: "check_relocs forged_module LIMBA_T_PTR d 0 [r] = None"
    using target zero by (simp add: get_def forged_facts new_type r_def forged_scalar also_ok_def forged_ptr)
  have parts: "id_bytes d = []" "id_relocs d = [r]" "id_fills d = []" by (simp_all add: d_def)
  have counted: "counted_zero forged_module LIMBA_T_PTR 0 d 0 = Some True" by (simp add: counted_zero_def)
  have data: "check_data forged_module g [False] = None"
    using relocs counted
    by (simp add: check_data_def g_def inits get_def forged_facts new_type parts data_end_def also_ok_def del: check_relocs.simps)
  have "check_globals forged_module [False] (md_globals forged_module) = None"
    using gs data by (auto simp: g_def forged_facts type_ok_def kind_of_def get_def new_type forged_ptr Let_def)
  moreover have "check_pointers forged_module = Some True"
    by (simp add: check_pointers_def forged_facts get_def new_type scalar_type_def scalars_def Let_def)
  ultimately have "check_symbols forged_module = None"
    by (simp add: check_symbols_def forged_facts check_target_def inits also_ok_def)
  then show ?thesis using t by (simp add: limba_verify_decls_def also_ok_def forged_facts)
qed

end
