(* ===== verification/Verifyfunc.thy ===== *)
theory Verifyfunc
  imports Verifytypes Domtree Evalnum
begin

text \<open>
  The verifier inside a function and on a whole module: \<^verbatim>\<open>src/src/ir/verify.c\<close>. As in
  \<open>Verifytypes\<close>, \<open>Some False\<close> is a diagnostic and \<open>None\<close> a read outside an array of the module or of the
  verifier.
\<close>

unbundle bit_operations_syntax

section \<open>The function being checked\<close>

text \<open>
  What the verifier keeps of it: the position of each instruction in its block, the graph, the blocks that
  are handlers.
\<close>

record vctx =
  vc_pos :: "nat list"
  vc_cfg :: limba_cfg
  vc_ish :: "bool list"

definition op_has :: "limba_op \<Rightarrow> u16 \<Rightarrow> bool" where
  "op_has oper flag \<longleftrightarrow> op_flags (limba_ops oper) AND flag \<noteq> 0"

text \<open>The type of the value \<open>x\<close> used by instruction \<open>u\<close>.\<close>

definition use_type :: "limba_func \<Rightarrow> vctx \<Rightarrow> nat \<Rightarrow> nat \<Rightarrow> limba_id option option" where
  "use_type f v u x =
     (if x \<ge> length (fn_insts f) then Some None
      else do {
        d \<leftarrow> get (fn_insts f) x;
        if op_has (in_op d) LIMBA_OPF_NO_RESULT \<or> in_type d = LIMBA_T_VOID then Some None
        else do {
          w \<leftarrow> get (fn_insts f) u;
          let bu = in_block w; bd = in_block d
          in if limba_cfg_reachable (vc_cfg v) bu
             then do {
               ok \<leftarrow> (if bu = bd then do { px \<leftarrow> get (vc_pos v) x; pu \<leftarrow> get (vc_pos v) u; Some (px < pu) }
                      else Some (limba_cfg_reachable (vc_cfg v) bd \<and> limba_cfg_dominates (vc_cfg v) bd bu));
               Some (if ok then Some (in_type d) else None)
             }
             else Some (Some (in_type d))
        }
      })"

text \<open>The values at the operands \<open>ks\<close> of the pool, and the first \<open>n\<close> operands of an instruction.\<close>

fun vals_at :: "limba_func \<Rightarrow> vctx \<Rightarrow> nat \<Rightarrow> nat list \<Rightarrow> limba_id list option option" where
  "vals_at f v u [] = Some (Some [])"
| "vals_at f v u (k # ks) =
     do {
       x \<leftarrow> get (fn_operands f) k;
       r \<leftarrow> use_type f v u x;
       case r of None \<Rightarrow> Some None | Some t \<Rightarrow> map_option (map_option (Cons t)) (vals_at f v u ks)
     }"

definition vals :: "limba_func \<Rightarrow> vctx \<Rightarrow> nat \<Rightarrow> limba_inst \<Rightarrow> nat \<Rightarrow> limba_id list option option" where
  "vals f v u i n = vals_at f v u [in_first i ..< in_first i + n]"

primrec holds_empty_in :: "nat \<Rightarrow> limba_module \<Rightarrow> limba_id \<Rightarrow> bool option" where
  "holds_empty_in 0 = (\<lambda>m t. None)"
| "holds_empty_in (Suc fuel) = (\<lambda>m t. do {
     ty \<leftarrow> get (md_types m) t;
     if ty_kind ty = LIMBA_TK_ARRAY then (if ty_count ty = 0 then Some True else holds_empty_in fuel m (ty_elem ty))
     else if ty_kind ty = LIMBA_TK_STRUCT
     then map_option Not (all_of (\<lambda>i. do {
         f \<leftarrow> get (md_members m) (ty_first ty + i);
         map_option Not (holds_empty_in fuel m (mb_type f))
       }) [0 ..< ty_count ty])
     else Some False
   })"

definition holds_empty_array :: "limba_module \<Rightarrow> limba_id \<Rightarrow> bool option" where
  "holds_empty_array m t = holds_empty_in (Suc (length (md_types m))) m t"

definition counted_type :: "limba_module \<Rightarrow> limba_id \<Rightarrow> bool option" where
  "counted_type m t =
     (if t \<ge> length (md_types m) then Some False
      else do {
        c \<leftarrow> limba_type_counted m t;
        if c then map_option Not (holds_empty_array m t) else Some False
      })"

section \<open>Branches and calls\<close>

text \<open>The target at operand \<open>k\<close> of the pool, with its arguments.\<close>

fun check_args :: "limba_func \<Rightarrow> vctx \<Rightarrow> nat \<Rightarrow> limba_block \<Rightarrow> nat \<Rightarrow> nat list \<Rightarrow> bool option" where
  "check_args f v u bl a [] = Some True"
| "check_args f v u bl a (i # is) =
     do {
       x \<leftarrow> get (fn_operands f) (a + i);
       r \<leftarrow> use_type f v u x;
       case r of None \<Rightarrow> Some False
       | Some t \<Rightarrow> do {
           p \<leftarrow> get (bl_insts bl) i;
           d \<leftarrow> get (fn_insts f) p;
           if t \<noteq> in_type d then Some False else check_args f v u bl a is
         }
     }"

definition check_branch :: "limba_func \<Rightarrow> vctx \<Rightarrow> nat \<Rightarrow> nat \<Rightarrow> bool \<Rightarrow> bool option" where
  "check_branch f v u k allow_args =
     do {
       _ \<leftarrow> get (fn_operands f) k;
       _ \<leftarrow> get (fn_operands f) (k + 1);
       let (b, n, a) = limba_target f k
       in if b \<ge> length (fn_blocks f) \<or> b = 0 then Some False
          else do {
            h \<leftarrow> get (vc_ish v) b;
            bl \<leftarrow> get (fn_blocks f) b;
            if h \<or> n \<noteq> bl_nparams bl \<or> n \<noteq> 0 \<and> \<not> allow_args then Some False
            else check_args f v u bl a [0 ..< n]
          }
     }"

text \<open>
  The type an argument must have: a struct by value goes to C as the address of its bytes.
\<close>

definition want_type :: "limba_module \<Rightarrow> bool \<Rightarrow> limba_id \<Rightarrow> limba_id" where
  "want_type m ext want =
     (if ext \<and> want < length (md_types m) \<and> ty_kind (md_types m ! want) = LIMBA_TK_STRUCT then LIMBA_T_PTR else want)"

fun check_call_args :: "limba_module \<Rightarrow> limba_func \<Rightarrow> vctx \<Rightarrow> nat \<Rightarrow> limba_sig \<Rightarrow> bool \<Rightarrow> nat \<Rightarrow> nat list \<Rightarrow> bool option" where
  "check_call_args m f v u s ext a [] = Some True"
| "check_call_args m f v u s ext a (i # is) =
     do {
       x \<leftarrow> get (fn_operands f) (a + i);
       r \<leftarrow> use_type f v u x;
       case r of None \<Rightarrow> Some False
       | Some t \<Rightarrow>
           (if t \<noteq> want_type m ext (if i < length (sg_params s) then limba_sig_param s i else t) then Some False
            else check_call_args m f v u s ext a is)
     }"

text \<open>
  The operand before the arguments: the place of a struct result, or the callee of an indirect call, both
  addresses; the answer is how many there are.
\<close>

definition check_address :: "limba_func \<Rightarrow> vctx \<Rightarrow> nat \<Rightarrow> limba_inst \<Rightarrow> bool option" where
  "check_address f v u i =
     do {
       x \<leftarrow> get (fn_operands f) (in_first i);
       r \<leftarrow> use_type f v u x;
       Some (r = Some LIMBA_T_PTR)
     }"

definition returns_struct :: "limba_module \<Rightarrow> limba_inst \<Rightarrow> limba_sig \<Rightarrow> bool" where
  "returns_struct m i s \<longleftrightarrow>
     in_op i = LIMBA_OP_CALLEXT \<and> sg_ret s < length (md_types m) \<and> ty_kind (md_types m ! sg_ret s) = LIMBA_TK_STRUCT"

text \<open>
  The shape of the operands was checked before, so that an indirect call has one: the subtraction of
  \<open>nargs\<close> does not wrap.
\<close>

definition check_call :: "limba_module \<Rightarrow> limba_func \<Rightarrow> vctx \<Rightarrow> nat \<Rightarrow> limba_inst \<Rightarrow> bool option" where
  "check_call m f v u i =
     (case limba_call_sig m i of
        None \<Rightarrow> Some False
      | Some s \<Rightarrow>
          let sret = returns_struct m i s;
              ind = in_op i = LIMBA_OP_CALLIND;
              first = (if sret \<or> ind then 1 else 0);
              nargs = in_nops i - first
          in also_ok (if \<not> sret then Some True else if in_nops i < 1 then Some False else check_address f v u i)
               (also_ok (if \<not> ind then Some True
                   else also_ok (scalar_sig m (unat (ucast (in_imm i) :: u32))) (check_address f v u i))
                 (if nargs < length (sg_params s) \<or> nargs > length (sg_params s) \<and> \<not> sg_variadic s then Some False
                  else also_ok (check_call_args m f v u s (in_op i = LIMBA_OP_CALLEXT) (in_first i + first) [0 ..< nargs])
                    (Some (in_type i = (if sret then LIMBA_T_VOID else sg_ret s))))))"

section \<open>Instructions\<close>

definition check_conv :: "limba_op \<Rightarrow> limba_id \<Rightarrow> limba_id \<Rightarrow> bool" where
  "check_conv oper a r \<longleftrightarrow>
     (let ba = limba_type_bits a; br = limba_type_bits r
      in case oper of
           LIMBA_OP_TRUNC \<Rightarrow> ba \<noteq> 0 \<and> br \<noteq> 0 \<and> br < ba
         | LIMBA_OP_ZEXT \<Rightarrow> ba \<noteq> 0 \<and> br \<noteq> 0 \<and> br > ba
         | LIMBA_OP_SEXT \<Rightarrow> ba \<noteq> 0 \<and> br \<noteq> 0 \<and> br > ba
         | LIMBA_OP_FPTRUNC \<Rightarrow> a = LIMBA_T_F64 \<and> r = LIMBA_T_F32
         | LIMBA_OP_FPEXT \<Rightarrow> a = LIMBA_T_F32 \<and> r = LIMBA_T_F64
         | LIMBA_OP_SITOFP \<Rightarrow> ba \<noteq> 0 \<and> limba_type_is_float r
         | LIMBA_OP_UITOFP \<Rightarrow> ba \<noteq> 0 \<and> limba_type_is_float r
         | LIMBA_OP_FPTOSI \<Rightarrow> limba_type_is_float a \<and> br \<noteq> 0
         | LIMBA_OP_FPTOUI \<Rightarrow> limba_type_is_float a \<and> br \<noteq> 0
         | LIMBA_OP_BITCAST \<Rightarrow> a = LIMBA_T_I32 \<and> r = LIMBA_T_F32 \<or> a = LIMBA_T_F32 \<and> r = LIMBA_T_I32 \<or>
             a = LIMBA_T_I64 \<and> r = LIMBA_T_F64 \<or> a = LIMBA_T_F64 \<and> r = LIMBA_T_I64
         | LIMBA_OP_PTRTOINT \<Rightarrow> a = LIMBA_T_PTR \<and> br \<noteq> 0
         | LIMBA_OP_INTTOPTR \<Rightarrow> ba \<noteq> 0 \<and> r = LIMBA_T_PTR
         | _ \<Rightarrow> False)"

definition imm_fits :: "int \<Rightarrow> nat \<Rightarrow> bool" where
  "imm_fits x bits \<longleftrightarrow>
     (if bits \<ge> 64 then True else if bits = 1 then x = 0 \<or> x = 1 else x \<ge> - (2 ^ (bits - 1)) \<and> x < 2 ^ bits)"

definition trap_code_ok :: "limba_module \<Rightarrow> int \<Rightarrow> bool" where
  "trap_code_ok m code \<longleftrightarrow>
     (if code < 0 \<or> code > 2 ^ 31 - 1 then False
      else if code < 1000 then limba_trap_text code \<noteq> None
      else limba_exception_name m code \<noteq> None)"

text \<open>The cases of a switch: (lo, hi, block) each, from operand \<open>base\<close> of the pool.\<close>

definition check_case :: "limba_func \<Rightarrow> limba_id \<Rightarrow> nat \<Rightarrow> nat \<Rightarrow> bool option" where
  "check_case f t base c =
     do {
       lo \<leftarrow> get (fn_operands f) (base + 3 * c);
       hi \<leftarrow> get (fn_operands f) (base + 3 * c + 1);
       b \<leftarrow> get (fn_operands f) (base + 3 * c + 2);
       let value = sint (push_bit 32 (of_nat hi :: u64) OR of_nat lo)
       in if b \<ge> length (fn_blocks f) \<or> b = 0 then Some False
          else do {
            bl \<leftarrow> get (fn_blocks f) b;
            if bl_nparams bl \<noteq> 0 \<or> \<not> imm_fits value (limba_type_bits t) then Some False
            else all_of (\<lambda>e. do {
                lo' \<leftarrow> get (fn_operands f) (base + 3 * e);
                hi' \<leftarrow> get (fn_operands f) (base + 3 * e + 1);
                Some (\<not> (lo' = lo \<and> hi' = hi))
              }) [0 ..< c]
          }
     }"

definition check_switch :: "limba_func \<Rightarrow> limba_inst \<Rightarrow> limba_id \<Rightarrow> bool option" where
  "check_switch f i t =
     (let k = in_first i + 1
      in do {
        b \<leftarrow> get (fn_operands f) k;
        if b \<ge> length (fn_blocks f) \<or> b = 0 then Some False
        else do {
          bl \<leftarrow> get (fn_blocks f) b;
          if bl_nparams bl \<noteq> 0 then Some False
          else do {
            cases \<leftarrow> get (fn_operands f) (k + 1);
            all_of (check_case f t (k + 2)) [0 ..< cases]
          }
        }
      })"

text \<open>What each format asks of its operands and of its result; the types of the values come in order.\<close>

definition check_trap :: "limba_module \<Rightarrow> limba_inst \<Rightarrow> bool" where
  "check_trap m i \<longleftrightarrow> trap_code_ok m (sint (in_imm i))"

definition is_real_bin :: "limba_op \<Rightarrow> bool" where
  "is_real_bin oper \<longleftrightarrow> op_code LIMBA_OP_FADD \<le> op_code oper \<and> op_code oper \<le> op_code LIMBA_OP_FDIV"

definition check_cbr :: "limba_func \<Rightarrow> vctx \<Rightarrow> nat \<Rightarrow> limba_inst \<Rightarrow> bool option" where
  "check_cbr f v u i =
     also_ok (check_branch f v u (in_first i + 1) True)
       (do {
         skip \<leftarrow> get (fn_operands f) (in_first i + 2);
         check_branch f v u (in_first i + 3 + skip) True
       })"

definition check_ret :: "limba_module \<Rightarrow> limba_func \<Rightarrow> vctx \<Rightarrow> nat \<Rightarrow> limba_inst \<Rightarrow> bool option" where
  "check_ret m f v u i =
     do {
       s \<leftarrow> limba_type_sig m (fn_type f);
       if in_nops i = 0 then Some (sg_ret s = LIMBA_T_VOID)
       else given (vals f v u i 1) (\<lambda>ts. Some (ts ! 0 = sg_ret s))
     }"

definition check_format :: "limba_module \<Rightarrow> limba_func \<Rightarrow> vctx \<Rightarrow> nat \<Rightarrow> limba_inst \<Rightarrow> bool option" where
  "check_format m f v u i =
     (let r = in_type i; imm = in_imm i
      in case op_format (limba_ops (in_op i)) of
           LIMBA_F_ICONST \<Rightarrow> Some (limba_type_is_int r \<and> imm_fits (sint imm) (limba_type_bits r))
         | LIMBA_F_FCONST \<Rightarrow> Some (limba_type_is_float r \<and> \<not> (r = LIMBA_T_F32 \<and> unat imm > LIMBA_NONE))
         | LIMBA_F_SCONST \<Rightarrow> Some (r = LIMBA_T_STR \<and> unat imm < limba_str_count m)
         | LIMBA_F_TYPED \<Rightarrow> Some (\<not> (in_op i = LIMBA_OP_NULLV \<and> r \<noteq> LIMBA_T_PTR \<and> r \<noteq> LIMBA_T_STR \<and> r \<noteq> LIMBA_T_REF))
         | LIMBA_F_UN \<Rightarrow> given (vals f v u i 1) (\<lambda>ts. Some (ts ! 0 = r \<and>
             (if in_op i = LIMBA_OP_FNEG \<or> in_op i = LIMBA_OP_FROUND \<or> in_op i = LIMBA_OP_FROUNDA
              then limba_type_is_float r else limba_type_is_int r)))
         | LIMBA_F_BIN \<Rightarrow> given (vals f v u i 2) (\<lambda>ts. Some (ts ! 0 = r \<and> ts ! 1 = r \<and>
             (if is_real_bin (in_op i) then limba_type_is_float r else limba_type_is_int r)))
         | LIMBA_F_TERN \<Rightarrow> given (vals f v u i 3) (\<lambda>ts. Some
             (if in_op i = LIMBA_OP_SELECT then ts ! 0 = LIMBA_T_I1 \<and> ts ! 1 = r \<and> ts ! 2 = r
              else limba_type_is_float r \<and> ts ! 0 = r \<and> ts ! 1 = r \<and> ts ! 2 = r))
         | LIMBA_F_CMP \<Rightarrow> given (vals f v u i 2) (\<lambda>ts. let fl = (in_op i = LIMBA_OP_FCMP)
             in Some (fl = limba_cc_is_float (in_cc i) \<and> r = LIMBA_T_I1 \<and> ts ! 0 = ts ! 1 \<and>
               (if fl then limba_type_is_float (ts ! 0) else limba_type_is_int (ts ! 0) \<or> ts ! 0 = LIMBA_T_PTR)))
         | LIMBA_F_CONV \<Rightarrow> given (vals f v u i 1) (\<lambda>ts. Some (check_conv (in_op i) (ts ! 0) r))
         | LIMBA_F_LOAD \<Rightarrow> given (vals f v u i 1) (\<lambda>ts. Some (ts ! 0 = LIMBA_T_PTR))
         | LIMBA_F_STORE \<Rightarrow> given (vals f v u i 2) (\<lambda>ts. Some (ts ! 1 = LIMBA_T_PTR))
         | LIMBA_F_SLOT \<Rightarrow> Some (unat imm < length (fn_slots f) \<and> r = LIMBA_T_PTR)
         | LIMBA_F_GADDR \<Rightarrow> Some (unat imm < length (md_globals m) \<and> r = LIMBA_T_PTR)
         | LIMBA_F_FADDR \<Rightarrow> Some (unat imm < length (md_funcs m) \<and> r = LIMBA_T_PTR)
         | LIMBA_F_ADDR \<Rightarrow> given (vals f v u i 2) (\<lambda>ts. Some (ts ! 0 = LIMBA_T_PTR \<and> limba_type_is_int (ts ! 1) \<and>
             r = LIMBA_T_PTR \<and> sint imm \<ge> 0 \<and> sint imm \<le> 2 ^ 31 - 1))
         | LIMBA_F_MEM3 \<Rightarrow> given (vals f v u i 3) (\<lambda>ts. Some (ts ! 0 = LIMBA_T_PTR \<and> limba_type_is_int (ts ! 2) \<and>
             (if in_op i = LIMBA_OP_MEMCPY then ts ! 1 = LIMBA_T_PTR else limba_type_is_int (ts ! 1))))
         | LIMBA_F_CALL \<Rightarrow> check_call m f v u i
         | LIMBA_F_CALL_IND \<Rightarrow> check_call m f v u i
         | LIMBA_F_CALL_EXT \<Rightarrow> check_call m f v u i
         | LIMBA_F_CALL_RT \<Rightarrow> check_call m f v u i
         | LIMBA_F_BR \<Rightarrow> check_branch f v u (in_first i) True
         | LIMBA_F_CBR \<Rightarrow> given (vals f v u i 1) (\<lambda>ts. if ts ! 0 \<noteq> LIMBA_T_I1 then Some False else check_cbr f v u i)
         | LIMBA_F_SWITCH \<Rightarrow> given (vals f v u i 1) (\<lambda>ts. if \<not> limba_type_is_int (ts ! 0) then Some False else check_switch f i (ts ! 0))
         | LIMBA_F_RET \<Rightarrow> check_ret m f v u i
         | LIMBA_F_NONE \<Rightarrow> Some True
         | LIMBA_F_TRAP \<Rightarrow> Some (check_trap m i)
         | LIMBA_F_CHECK \<Rightarrow> given (vals f v u i 1) (\<lambda>ts. Some (ts ! 0 = LIMBA_T_I1 \<and> check_trap m i))
         | LIMBA_F_PARAM \<Rightarrow> Some True
         | LIMBA_F_RAISE \<Rightarrow> given (vals f v u i 3) (\<lambda>ts. Some (ts ! 0 = LIMBA_T_I32 \<and> ts ! 1 = LIMBA_T_I32 \<and> ts ! 2 = LIMBA_T_STR))
         | LIMBA_F_RC \<Rightarrow> given (vals f v u i 2) (\<lambda>ts. if \<not> (ts ! 0 = LIMBA_T_PTR \<and> limba_type_is_int (ts ! 1)) then Some False
             else if sint imm < 0 then Some False
             else counted_type m (unat (ucast imm :: u32))))"

definition check_inst :: "limba_module \<Rightarrow> limba_func \<Rightarrow> vctx \<Rightarrow> nat \<Rightarrow> bool option" where
  "check_inst m f v u =
     do {
       i \<leftarrow> get (fn_insts f) u;
       let r = in_type i
       in if \<not> type_ok m r \<or> r \<noteq> LIMBA_T_VOID \<and> \<not> is_value_type m r then Some False
          else if op_has (in_op i) LIMBA_OPF_NO_RESULT \<and> r \<noteq> LIMBA_T_VOID then Some False
          else if \<not> op_has (in_op i) (LIMBA_OPF_NO_RESULT OR LIMBA_OPF_CALL) \<and> r = LIMBA_T_VOID then Some False
          else if cc_code (in_cc i) \<noteq> 0 \<and> op_format (limba_ops (in_op i)) \<noteq> LIMBA_F_CMP then Some False
          else check_format m f v u i
     }"

section \<open>Functions\<close>

definition check_slot :: "limba_module \<Rightarrow> limba_slot \<Rightarrow> bool option" where
  "check_slot m sl =
     (if \<not> is_pow2 (sl_align sl) then Some False
      else if sl_type sl = LIMBA_NONE then Some True
      else also_ok (counted_type m (sl_type sl)) (do {
          ty \<leftarrow> get (md_types m) (sl_type sl);
          Some (\<not> (ty_size ty > sl_size sl \<or> ty_align ty > sl_align sl))
        }))"

text \<open>
  The instructions of a block, \<open>k\<close> the position of the next: the position of each is written, \<open>LIMBA_NONE\<close>
  being that of an instruction not seen. The shape of the operands is looked at once they are known to be
  in the pool.
\<close>

fun place_insts :: "limba_func \<Rightarrow> limba_id \<Rightarrow> limba_block \<Rightarrow> nat \<Rightarrow> nat list \<Rightarrow> nat list \<Rightarrow> nat list option option" where
  "place_insts f b bl k [] pos = Some (Some pos)"
| "place_insts f b bl k (x # xs) pos =
     (if x \<ge> length (fn_insts f) then Some None
      else do {
        p \<leftarrow> get pos x;
        i \<leftarrow> get (fn_insts f) x;
        if p \<noteq> LIMBA_NONE \<or> in_block i \<noteq> b then Some None
        else if (in_op i = LIMBA_OP_PARAM) \<noteq> (k < bl_nparams bl) then Some None
        else if op_has (in_op i) LIMBA_OPF_TERMINATOR \<noteq> (k = length (bl_insts bl) - 1) then Some None
        else if in_first i + in_nops i > length (fn_operands f) then Some None
        else if \<not> fst (limba_operand_kinds f i) then Some None
        else place_insts f b bl (k + 1) xs (pos[x := k])
      })"

fun place_blocks :: "limba_func \<Rightarrow> limba_id \<Rightarrow> limba_block list \<Rightarrow> nat list \<Rightarrow> nat list option option" where
  "place_blocks f b [] pos = Some (Some pos)"
| "place_blocks f b (bl # bls) pos =
     (if bl_insts bl = [] \<or> bl_nparams bl > length (bl_insts bl) then Some None
      else do {
        r \<leftarrow> place_insts f b bl 0 (bl_insts bl) pos;
        case r of None \<Rightarrow> Some None | Some pos \<Rightarrow> place_blocks f (b + 1) bls pos
      })"

text \<open>The types of the parameters of a block.\<close>

definition check_params :: "limba_func \<Rightarrow> limba_block \<Rightarrow> limba_id list \<Rightarrow> bool option" where
  "check_params f bl want =
     (if bl_nparams bl \<noteq> length want then Some False
      else all_of (\<lambda>k. do {
          x \<leftarrow> get (bl_insts bl) k;
          i \<leftarrow> get (fn_insts f) x;
          Some (in_type i = want ! k)
        }) [0 ..< length want])"

definition check_entry :: "limba_module \<Rightarrow> limba_func \<Rightarrow> bool option" where
  "check_entry m f =
     do {
       s \<leftarrow> limba_type_sig m (fn_type f);
       e \<leftarrow> get (fn_blocks f) 0;
       check_params f e (sg_params s)
     }"

text \<open>The handlers: blocks that exist, not the entry, which is not protected; each takes the three values.\<close>

fun mark_handlers :: "nat \<Rightarrow> limba_id \<Rightarrow> limba_block list \<Rightarrow> bool list \<Rightarrow> bool list option" where
  "mark_handlers n b [] ish = Some ish"
| "mark_handlers n b (bl # bls) ish =
     (let h = bl_handler bl
      in if h = 0 then mark_handlers n (b + 1) bls ish
         else if h - 1 \<ge> n \<or> h - 1 = 0 \<or> b = 0 then None
         else mark_handlers n (b + 1) bls (ish[h - 1 := True]))"

definition check_handler :: "limba_func \<Rightarrow> bool list \<Rightarrow> limba_id \<Rightarrow> bool option" where
  "check_handler f ish b =
     do {
       h \<leftarrow> get ish b;
       if \<not> h then Some True
       else do { hb \<leftarrow> get (fn_blocks f) b; check_params f hb [LIMBA_T_I32, LIMBA_T_I32, LIMBA_T_STR] }
     }"

definition check_body :: "limba_module \<Rightarrow> limba_func \<Rightarrow> nat list \<Rightarrow> bool list \<Rightarrow> bool option" where
  "check_body m f pos ish =
     do {
       (ok, c) \<leftarrow> limba_cfg_build f;
       if \<not> ok then Some False
       else all_of (\<lambda>bl. all_of (check_inst m f \<lparr>vc_pos = pos, vc_cfg = c, vc_ish = ish\<rparr>) (bl_insts bl)) (fn_blocks f)
     }"

definition check_func :: "limba_module \<Rightarrow> limba_func \<Rightarrow> bool option" where
  "check_func m f =
     (let n = length (fn_blocks f); ninsts = length (fn_insts f)
      in if n = 0 then Some False
         else also_ok (all_of (check_slot m) (fn_slots f))
           (if \<not> list_all (\<lambda>i. limba_inst_pos f i \<le> length (md_pos m)) [0 ..< ninsts] then Some False
            else given (place_blocks f 0 (fn_blocks f) (replicate ninsts LIMBA_NONE)) (\<lambda>pos.
              if LIMBA_NONE \<in> set pos then Some False
              else also_ok (check_entry m f)
                (case mark_handlers n 0 (fn_blocks f) (replicate n False) of
                   None \<Rightarrow> Some False
                 | Some ish \<Rightarrow> also_ok (all_of (check_handler f ish) [0 ..< n]) (check_body m f pos ish)))))"

definition limba_verifier_func :: "limba_module \<Rightarrow> limba_id \<Rightarrow> bool option" where
  "limba_verifier_func m fid = do { f \<leftarrow> get (md_funcs m) fid; check_func m f }"

definition limba_verify :: "limba_module \<Rightarrow> bool option" where
  "limba_verify m = also_ok (limba_verify_decls m) (all_of (limba_verifier_func m) [0 ..< length (md_funcs m)])"

end
