(* ===== verification/Verified.thy ===== *)
theory Verified
  imports Verifyfunc
begin

text \<open>
  What the verifier promises of a function it accepts, and that it always answers: the checks of
  \<open>Verifytypes\<close> and \<open>Verifyfunc\<close> against the graph of \<open>Cfg\<close> and the types of the evaluator.
\<close>

unbundle bit_operations_syntax

section \<open>Where the instructions are\<close>

text \<open>The counts are 32-bit words in the code: no position is \<open>LIMBA_NONE\<close>.\<close>

definition counts_ok :: "limba_func \<Rightarrow> bool" where
  "counts_ok f \<longleftrightarrow> length (fn_blocks f) < LIMBA_NONE \<and> (\<forall>bl \<in> set (fn_blocks f). length (bl_insts bl) \<le> LIMBA_NONE)"

text \<open>An instruction at position \<open>k\<close> of block \<open>b\<close> as the first pass wants it.\<close>

definition inst_placed :: "limba_func \<Rightarrow> limba_id \<Rightarrow> limba_block \<Rightarrow> nat \<Rightarrow> nat \<Rightarrow> bool" where
  "inst_placed f b bl k x \<longleftrightarrow>
     x < length (fn_insts f) \<and> in_block (fn_insts f ! x) = b \<and>
     ((in_op (fn_insts f ! x) = LIMBA_OP_PARAM) = (k < bl_nparams bl)) \<and>
     (op_has (in_op (fn_insts f ! x)) LIMBA_OPF_TERMINATOR = (k = length (bl_insts bl) - 1)) \<and>
     in_first (fn_insts f ! x) + in_nops (fn_insts f ! x) \<le> length (fn_operands f) \<and>
     fst (limba_operand_kinds f (fn_insts f ! x))"

definition block_placed :: "limba_func \<Rightarrow> nat list \<Rightarrow> limba_id \<Rightarrow> limba_block \<Rightarrow> bool" where
  "block_placed f pos b bl \<longleftrightarrow>
     bl_insts bl \<noteq> [] \<and> bl_nparams bl \<le> length (bl_insts bl) \<and>
     (\<forall>k < length (bl_insts bl). inst_placed f b bl k (bl_insts bl ! k) \<and> pos ! (bl_insts bl ! k) = k)"

definition laid_out :: "limba_func \<Rightarrow> nat list \<Rightarrow> bool" where
  "laid_out f pos \<longleftrightarrow>
     length pos = length (fn_insts f) \<and>
     (\<forall>b < length (fn_blocks f). block_placed f pos b (fn_blocks f ! b)) \<and>
     (\<forall>x < length (fn_insts f). \<exists>b < length (fn_blocks f). x \<in> set (bl_insts (fn_blocks f ! b)))"

lemma place_insts_answers:
  "length pos = length (fn_insts f) \<Longrightarrow> answers (place_insts f b bl k xs pos)"
  by (induction xs arbitrary: k pos) (auto intro!: answer_intros)

lemma place_insts_placed:
  assumes "place_insts f b bl k xs pos = Some (Some pos')" "length pos = length (fn_insts f)" "k + length xs \<le> LIMBA_NONE"
  shows "length pos' = length pos \<and>
    (\<forall>j < length xs. inst_placed f b bl (k + j) (xs ! j) \<and> pos ! (xs ! j) = LIMBA_NONE \<and> pos' ! (xs ! j) = k + j) \<and>
    (\<forall>x. x \<notin> set xs \<longrightarrow> pos' ! x = pos ! x)"
  using assms
proof (induction xs arbitrary: k pos)
  case (Cons x xs)
  let ?i = "fn_insts f ! x"
  have x: "inst_placed f b bl k x" "pos ! x = LIMBA_NONE"
    and run: "place_insts f b bl (k + 1) xs (pos[x := k]) = Some (Some pos')"
    using Cons.prems(1) by (auto simp: inst_placed_def bind_eq_Some_conv split: if_splits)
  have x': "x < length pos" using x(1) Cons.prems(2) by (simp add: inst_placed_def)
  have k: "k < LIMBA_NONE" using Cons.prems(3) by simp
  have ih: "length pos' = length pos"
    "\<And>j. j < length xs \<Longrightarrow> inst_placed f b bl (k + 1 + j) (xs ! j) \<and> pos[x := k] ! (xs ! j) = LIMBA_NONE \<and> pos' ! (xs ! j) = k + 1 + j"
    "\<And>y. y \<notin> set xs \<Longrightarrow> pos' ! y = pos[x := k] ! y"
    using Cons.IH [OF run] Cons.prems(2,3) by auto
  have new: "x \<notin> set xs"
  proof
    assume "x \<in> set xs"
    then obtain j where "j < length xs" "xs ! j = x" by (auto simp: in_set_conv_nth)
    then show False using ih(2) [of j] x' k by simp
  qed
  have rest: "pos ! (xs ! j) = LIMBA_NONE" if "j < length xs" for j
    using ih(2) [OF that] new that nth_mem [OF that] by (cases "xs ! j = x") auto
  have head: "pos' ! x = k" using ih(3) [OF new] x' by simp
  have all: "inst_placed f b bl (k + j) ((x # xs) ! j) \<and> pos ! ((x # xs) ! j) = LIMBA_NONE \<and> pos' ! ((x # xs) ! j) = k + j"
    if "j < length (x # xs)" for j
  proof (cases j)
    case 0
    then show ?thesis using x head by simp
  next
    case (Suc i)
    then show ?thesis using ih(2) [of i] rest [of i] that by simp
  qed
  then show ?case using ih(1,3) by auto
qed simp

lemma place_blocks_answers:
  assumes "length pos = length (fn_insts f)" "\<forall>bl \<in> set bls. length (bl_insts bl) \<le> LIMBA_NONE"
  shows "answers (place_blocks f b bls pos)"
  using assms
proof (induction bls arbitrary: b pos)
  case (Cons bl bls)
  have "answers (place_blocks f (b + 1) bls pos')" if "place_insts f b bl 0 (bl_insts bl) pos = Some (Some pos')" for pos'
    using Cons place_insts_placed [OF that] by simp
  then show ?case using Cons.prems(1) by (auto intro!: answer_intros place_insts_answers split: option.splits)
qed simp

lemma place_blocks_placed:
  assumes "place_blocks f b bls pos = Some (Some pos')" "length pos = length (fn_insts f)"
    "\<forall>bl \<in> set bls. length (bl_insts bl) \<le> LIMBA_NONE"
  shows "length pos' = length pos \<and>
    (\<forall>j < length bls. block_placed f pos' (b + j) (bls ! j) \<and> (\<forall>x \<in> set (bl_insts (bls ! j)). pos ! x = LIMBA_NONE)) \<and>
    (\<forall>x. (\<forall>bl \<in> set bls. x \<notin> set (bl_insts bl)) \<longrightarrow> pos' ! x = pos ! x)"
  using assms
proof (induction bls arbitrary: b pos)
  case (Cons bl bls)
  obtain pos1 where one: "place_insts f b bl 0 (bl_insts bl) pos = Some (Some pos1)"
    and run: "place_blocks f (b + 1) bls pos1 = Some (Some pos')"
    and shape: "bl_insts bl \<noteq> []" "bl_nparams bl \<le> length (bl_insts bl)"
    using Cons.prems(1) by (auto simp: bind_eq_Some_conv split: if_splits option.splits)
  have p: "length pos1 = length pos"
    "\<And>j. j < length (bl_insts bl) \<Longrightarrow> inst_placed f b bl j (bl_insts bl ! j) \<and> pos ! (bl_insts bl ! j) = LIMBA_NONE \<and>
      pos1 ! (bl_insts bl ! j) = j"
    "\<And>x. x \<notin> set (bl_insts bl) \<Longrightarrow> pos1 ! x = pos ! x"
    using place_insts_placed [OF one Cons.prems(2)] Cons.prems(3) by auto
  have ih: "length pos' = length pos1"
    "\<And>j. j < length bls \<Longrightarrow> block_placed f pos' (b + 1 + j) (bls ! j) \<and> (\<forall>x \<in> set (bl_insts (bls ! j)). pos1 ! x = LIMBA_NONE)"
    "\<And>x. (\<forall>bl \<in> set bls. x \<notin> set (bl_insts bl)) \<Longrightarrow> pos' ! x = pos1 ! x"
    using Cons.IH [OF run] p(1) Cons.prems(2,3) by auto
  have seen: "pos1 ! x \<noteq> LIMBA_NONE" "pos ! x = LIMBA_NONE" if "x \<in> set (bl_insts bl)" for x
  proof -
    from that obtain j where j: "j < length (bl_insts bl)" "x = bl_insts bl ! j" by (auto simp: in_set_conv_nth)
    have "length (bl_insts bl) \<le> LIMBA_NONE" using Cons.prems(3) by simp
    then show "pos1 ! x \<noteq> LIMBA_NONE" "pos ! x = LIMBA_NONE" using p(2) [OF j(1)] j by simp_all
  qed
  have kept: "pos' ! x = pos1 ! x" if "x \<in> set (bl_insts bl)" for x
  proof (rule ih(3), rule ballI, rule notI)
    fix bl' assume "bl' \<in> set bls" "x \<in> set (bl_insts bl')"
    then have "pos1 ! x = LIMBA_NONE" using ih(2) by (metis in_set_conv_nth)
    then show False using seen(1) [OF that] by simp
  qed
  have others: "pos ! x = LIMBA_NONE" if "pos1 ! x = LIMBA_NONE" for x
    using p(3) [of x] seen(2) [of x] that by (cases "x \<in> set (bl_insts bl)") auto
  have head: "block_placed f pos' b bl"
    using shape p(2) kept by (auto simp: block_placed_def)
  have all: "block_placed f pos' (b + j) ((bl # bls) ! j) \<and> (\<forall>x \<in> set (bl_insts ((bl # bls) ! j)). pos ! x = LIMBA_NONE)"
    if "j < length (bl # bls)" for j
  proof (cases j)
    case 0
    then show ?thesis using head seen(2) by simp
  next
    case (Suc i)
    then show ?thesis using ih(2) [of i] others that by auto
  qed
  then show ?case using ih(1,3) p(1,3) by auto
qed simp

lemma place_blocks_laid_out:
  assumes "counts_ok f" "place_blocks f 0 (fn_blocks f) (replicate (length (fn_insts f)) LIMBA_NONE) = Some (Some pos)"
    "LIMBA_NONE \<notin> set pos"
  shows "laid_out f pos"
proof -
  have p: "length pos = length (fn_insts f)"
    "\<And>b. b < length (fn_blocks f) \<Longrightarrow> block_placed f pos b (fn_blocks f ! b)"
    "\<And>x. (\<forall>bl \<in> set (fn_blocks f). x \<notin> set (bl_insts bl)) \<Longrightarrow> pos ! x = replicate (length (fn_insts f)) LIMBA_NONE ! x"
    using place_blocks_placed [OF assms(2)] assms(1) by (auto simp: counts_ok_def)
  have "\<exists>b < length (fn_blocks f). x \<in> set (bl_insts (fn_blocks f ! b))" if x: "x < length (fn_insts f)" for x
  proof (rule ccontr)
    assume "\<not> ?thesis"
    then have "\<forall>bl \<in> set (fn_blocks f). x \<notin> set (bl_insts bl)" by (metis in_set_conv_nth)
    then have "pos ! x = LIMBA_NONE" using p(3) [of x] x by simp
    then show False using assms(3) x p(1) by (metis nth_mem)
  qed
  then show ?thesis using p by (simp add: laid_out_def)
qed

section \<open>The values an instruction uses\<close>

text \<open>What \<open>use_type\<close> found out of the value \<open>x\<close> used by \<open>u\<close>; its type is that of the instruction.\<close>

definition use_ok :: "limba_func \<Rightarrow> vctx \<Rightarrow> nat \<Rightarrow> nat \<Rightarrow> bool" where
  "use_ok f v u x \<longleftrightarrow>
     x < length (fn_insts f) \<and> \<not> op_has (in_op (fn_insts f ! x)) LIMBA_OPF_NO_RESULT \<and> in_type (fn_insts f ! x) \<noteq> LIMBA_T_VOID \<and>
     (limba_cfg_reachable (vc_cfg v) (in_block (fn_insts f ! u)) \<longrightarrow>
        (if in_block (fn_insts f ! u) = in_block (fn_insts f ! x) then vc_pos v ! x < vc_pos v ! u
         else limba_cfg_reachable (vc_cfg v) (in_block (fn_insts f ! x)) \<and>
           limba_cfg_dominates (vc_cfg v) (in_block (fn_insts f ! x)) (in_block (fn_insts f ! u))))"

lemma use_type_ok:
  "use_type f v u x = Some (Some t) \<Longrightarrow> use_ok f v u x \<and> t = in_type (fn_insts f ! x)"
  by (auto simp: use_type_def use_ok_def bind_eq_Some_conv Let_def split: if_splits)

lemma use_type_answers:
  "u < length (fn_insts f) \<Longrightarrow> length (vc_pos v) = length (fn_insts f) \<Longrightarrow> answers (use_type f v u x)"
  by (auto simp: use_type_def Let_def intro!: answer_intros)

text \<open>The operands of the pool at \<open>ks\<close> are values the instruction may use.\<close>

definition uses_at :: "limba_func \<Rightarrow> vctx \<Rightarrow> nat \<Rightarrow> nat list \<Rightarrow> bool" where
  "uses_at f v u ks \<longleftrightarrow> (\<forall>k \<in> set ks. use_ok f v u (fn_operands f ! k))"

definition pool_type :: "limba_func \<Rightarrow> nat \<Rightarrow> limba_id" where
  "pool_type f k = in_type (fn_insts f ! (fn_operands f ! k))"

lemma vals_at_ok:
  "vals_at f v u ks = Some (Some ts) \<Longrightarrow> uses_at f v u ks \<and> ts = map (pool_type f) ks"
proof (induction ks arbitrary: ts)
  case (Cons k ks)
  then obtain t us where "use_type f v u (fn_operands f ! k) = Some (Some t)" "vals_at f v u ks = Some (Some us)" "ts = t # us"
    by (auto simp: bind_eq_Some_conv split: option.splits)
  then show ?case using Cons.IH use_type_ok by (auto simp: uses_at_def pool_type_def)
qed (simp add: uses_at_def)

lemma vals_ok:
  assumes "vals f v u i n = Some (Some ts)"
  shows "uses_at f v u [in_first i ..< in_first i + n]" "length ts = n" "j < n \<Longrightarrow> ts ! j = operand_type f i j"
  using vals_at_ok [OF assms [unfolded vals_def]] by (auto simp: pool_type_def operand_type_def operand_def)

lemma vals_at_answers:
  assumes "u < length (fn_insts f)" "length (vc_pos v) = length (fn_insts f)" "\<forall>k \<in> set ks. k < length (fn_operands f)"
  shows "answers (vals_at f v u ks)"
  using assms(3)
  by (induction ks) (auto intro!: answer_intros use_type_answers assms(1,2) split: option.splits)

lemma vals_answers:
  assumes "u < length (fn_insts f)" "length (vc_pos v) = length (fn_insts f)" "in_first i + n \<le> length (fn_operands f)"
  shows "answers (vals f v u i n)"
  unfolding vals_def using assms(3) by (intro vals_at_answers assms(1,2)) auto

lemma check_address_ok:
  assumes "check_address f v u i = Some True"
  shows "uses_at f v u [in_first i]" "operand_type f i 0 = LIMBA_T_PTR"
  using assms use_type_ok by (auto simp: check_address_def uses_at_def operand_type_def operand_def bind_eq_Some_conv)

lemma check_args_ok:
  assumes "check_args f v u bl a is = Some True"
  shows "\<forall>i \<in> set is. use_ok f v u (fn_operands f ! (a + i)) \<and> pool_type f (a + i) = in_type (fn_insts f ! (bl_insts bl ! i))"
  using assms
proof (induction "is")
  case (Cons i "is")
  then obtain t where "use_type f v u (fn_operands f ! (a + i)) = Some (Some t)"
      "t = in_type (fn_insts f ! (bl_insts bl ! i))" "check_args f v u bl a is = Some True"
    by (auto simp: bind_eq_Some_conv split: option.splits if_splits)
  then show ?case using Cons.IH use_type_ok by (auto simp: pool_type_def)
qed simp

text \<open>A branch that was let through: where it goes, and what it takes there.\<close>

lemma check_branch_ok:
  assumes "check_branch f v u k allow = Some True"
  shows "0 < fn_operands f ! k \<and> fn_operands f ! k < length (fn_blocks f) \<and> \<not> vc_ish v ! (fn_operands f ! k) \<and>
    fn_operands f ! (k + 1) = bl_nparams (fn_blocks f ! (fn_operands f ! k)) \<and>
    uses_at f v u [k + 2 ..< k + 2 + fn_operands f ! (k + 1)] \<and>
    (\<forall>i < fn_operands f ! (k + 1). pool_type f (k + 2 + i) = in_type (fn_insts f ! (bl_insts (fn_blocks f ! (fn_operands f ! k)) ! i)))"
proof -
  have c: "check_args f v u (fn_blocks f ! (fn_operands f ! k)) (k + 2) [0 ..< fn_operands f ! (k + 1)] = Some True"
    and t: "0 < fn_operands f ! k \<and> fn_operands f ! k < length (fn_blocks f) \<and> \<not> vc_ish v ! (fn_operands f ! k) \<and>
      fn_operands f ! (k + 1) = bl_nparams (fn_blocks f ! (fn_operands f ! k))"
    using assms by (auto simp: check_branch_def limba_target_def bind_eq_Some_conv Let_def split: if_splits)
  have "use_ok f v u (fn_operands f ! j)" if "k + 2 \<le> j" "j < k + 2 + fn_operands f ! (k + 1)" for j
  proof -
    from that obtain i where "j = k + 2 + i" using le_Suc_ex by blast
    then show ?thesis using check_args_ok [OF c, THEN bspec, of i] that by simp
  qed
  then show ?thesis using t check_args_ok [OF c] by (auto simp: uses_at_def)
qed

lemma check_call_args_ok:
  assumes "check_call_args m f v u s ext a is = Some True"
  shows "\<forall>i \<in> set is. use_ok f v u (fn_operands f ! (a + i)) \<and>
    (i < length (sg_params s) \<longrightarrow> pool_type f (a + i) = want_type m ext (sg_params s ! i))"
  using assms
proof (induction "is")
  case (Cons i "is")
  then obtain t where "use_type f v u (fn_operands f ! (a + i)) = Some (Some t)"
      "t = want_type m ext (if i < length (sg_params s) then limba_sig_param s i else t)"
      "check_call_args m f v u s ext a is = Some True"
    by (auto simp: bind_eq_Some_conv split: option.splits if_splits)
  then show ?case using Cons.IH use_type_ok by (auto simp: pool_type_def limba_sig_param_def)
qed simp

text \<open>A call that was let through: all its operands are values, and they suit the signature.\<close>

lemma check_call_ok:
  assumes "check_call m f v u i = Some True" "in_op i = LIMBA_OP_CALLIND \<Longrightarrow> 0 < in_nops i"
  shows "\<exists>s first. limba_call_sig m i = Some s \<and>
    first = (if returns_struct m i s \<or> in_op i = LIMBA_OP_CALLIND then 1 else 0) \<and>
    (\<forall>j < in_nops i. use_ok f v u (operand f i j)) \<and>
    (first = 1 \<longrightarrow> 0 < in_nops i \<and> operand_type f i 0 = LIMBA_T_PTR) \<and>
    (in_op i = LIMBA_OP_CALLIND \<longrightarrow> scalar_sig m (unat (ucast (in_imm i) :: u32)) = Some True) \<and>
    length (sg_params s) \<le> in_nops i - first \<and> (in_nops i - first \<le> length (sg_params s) \<or> sg_variadic s) \<and>
    (\<forall>j < length (sg_params s). operand_type f i (first + j) = want_type m (in_op i = LIMBA_OP_CALLEXT) (sg_params s ! j)) \<and>
    in_type i = (if returns_struct m i s then LIMBA_T_VOID else sg_ret s)"
proof -
  obtain s where s: "limba_call_sig m i = Some s" using assms(1) by (auto simp: check_call_def split: option.splits)
  let ?first = "if returns_struct m i s \<or> in_op i = LIMBA_OP_CALLIND then 1 else 0 :: nat"
  have c: "returns_struct m i s \<Longrightarrow> 0 < in_nops i \<and> check_address f v u i = Some True"
    "in_op i = LIMBA_OP_CALLIND \<Longrightarrow> check_address f v u i = Some True \<and> scalar_sig m (unat (ucast (in_imm i) :: u32)) = Some True"
    "check_call_args m f v u s (in_op i = LIMBA_OP_CALLEXT) (in_first i + ?first) [0 ..< in_nops i - ?first] = Some True"
    "length (sg_params s) \<le> in_nops i - ?first" "in_nops i - ?first \<le> length (sg_params s) \<or> sg_variadic s"
    "in_type i = (if returns_struct m i s then LIMBA_T_VOID else sg_ret s)"
    using assms(1) by (auto simp: check_call_def s Let_def split: if_splits)
  have addr: "check_address f v u i = Some True" if "?first = 1"
    using c(1,2) that by (auto split: if_splits)
  have callee: "0 < in_nops i \<and> operand_type f i 0 = LIMBA_T_PTR" if "?first = 1"
    using check_address_ok(2) [OF addr [OF that]] c(1) assms(2) that by (auto split: if_splits)
  have sig: "in_op i = LIMBA_OP_CALLIND \<Longrightarrow> scalar_sig m (unat (ucast (in_imm i) :: u32)) = Some True"
    using c(2) by blast
  have args: "use_ok f v u (operand f i (?first + j))" "j < length (sg_params s) \<Longrightarrow>
      operand_type f i (?first + j) = want_type m (in_op i = LIMBA_OP_CALLEXT) (sg_params s ! j)" if "j < in_nops i - ?first" for j
    using check_call_args_ok [OF c(3), THEN bspec, of j] that by (auto simp: operand_def operand_type_def pool_type_def add.assoc)
  have "use_ok f v u (operand f i j)" if j: "j < in_nops i" for j
  proof (cases "j < ?first")
    case True
    then have "j = 0" "?first = 1" by (auto split: if_splits)
    then show ?thesis using check_address_ok(1) [OF addr] by (simp add: uses_at_def operand_def)
  next
    case False
    then have "j = ?first + (j - ?first)" by simp
    moreover have "use_ok f v u (operand f i (?first + (j - ?first)))" using False j by (intro args) linarith
    ultimately show ?thesis by metis
  qed
  moreover have "operand_type f i (?first + j) = want_type m (in_op i = LIMBA_OP_CALLEXT) (sg_params s ! j)"
    if "j < length (sg_params s)" for j
    using args(2) [of j] that c(4) by linarith
  ultimately show ?thesis using s c(4-6) callee sig by blast
qed

section \<open>Every operand that is a value is checked\<close>

lemma branch_kinds_one:
  assumes "branch_kinds 1 ops n k kinds = (True, kinds')"
  shows "n = k + 2 + ops (k + 1)" "kinds' = kinds[k := LIMBA_OK_BLOCK, k + 1 := LIMBA_OK_RAW]"
  using assms by (auto simp: Let_def split: if_splits)

lemma branch_kinds_two:
  assumes "branch_kinds 2 ops n k kinds = (True, kinds')"
  shows "branch_kinds 1 ops n (k + 2 + ops (k + 1)) (kinds[k := LIMBA_OK_BLOCK, k + 1 := LIMBA_OK_RAW]) = (True, kinds')"
  using assms by (auto simp: numeral_2_eq_2 Let_def split: if_splits)

lemma branch_kinds_value:
  assumes "branch_kinds 1 ops n k kinds = (True, kinds')" "kinds' ! j = LIMBA_OK_VALUE" "k \<le> j" "j < n" "length kinds = n"
  shows "k + 2 \<le> j \<and> j < k + 2 + ops (k + 1)"
proof -
  note e = branch_kinds_one [OF assms(1)]
  have "j \<noteq> k" "j \<noteq> k + 1" using assms(2,4,5) e by auto
  then show ?thesis using assms(3,4) e by simp
qed

lemma cbr_kinds_value:
  assumes "branch_kinds 2 ops n 1 kinds = (True, kinds')" "kinds' ! j = LIMBA_OK_VALUE" "j < n" "length kinds = n"
  shows "j = 0 \<or> 3 \<le> j \<and> j < 3 + ops 2 \<or> (5 + ops 2 \<le> j \<and> j < 5 + ops 2 + ops (4 + ops 2))"
proof -
  have q: "(1 :: nat) + 2 = 3" "(1 :: nat) + 1 = 2" "3 + ops 2 + 1 = 4 + ops 2"
    by (simp_all flip: numeral_2_eq_2)
  note run = branch_kinds_two [OF assms(1), unfolded q]
  note e = branch_kinds_one [OF run, unfolded q]
  show ?thesis
  proof (cases "3 + ops 2 \<le> j")
    case True
    then show ?thesis using branch_kinds_value [OF run assms(2) True assms(3), unfolded q] assms(4) by simp
  next
    case False
    then have "j \<noteq> 1" "j \<noteq> 2" using assms(2-4) e by auto
    then show ?thesis using False by linarith
  qed
qed

lemma switch_kinds_value:
  assumes "switch_kinds cases kinds ! j = LIMBA_OK_VALUE" "j < length kinds" "length kinds = 3 + 3 * cases"
  shows "j < 3"
proof (rule ccontr)
  assume j: "\<not> j < 3"
  have "length (switch_kinds c kinds) = length kinds \<and> (3 \<le> j \<and> j < 3 + 3 * c \<longrightarrow> switch_kinds c kinds ! j \<noteq> LIMBA_OK_VALUE)"
    if "c \<le> cases" for c
    using that
  proof (induction c)
    case (Suc c)
    let ?ks = "switch_kinds c kinds"
    have step: "switch_kinds (Suc c) kinds = ?ks[3 + 3 * c := LIMBA_OK_RAW, 4 + 3 * c := LIMBA_OK_RAW, 5 + 3 * c := LIMBA_OK_BLOCK]"
      by (simp add: switch_kinds_def)
    have ih: "length ?ks = length kinds" "3 \<le> j \<Longrightarrow> j < 3 + 3 * c \<Longrightarrow> ?ks ! j \<noteq> LIMBA_OK_VALUE" using Suc by simp_all
    have room: "5 + 3 * c < length ?ks" using Suc.prems assms(3) ih(1) by simp
    have "switch_kinds (Suc c) kinds ! j \<noteq> LIMBA_OK_VALUE" if "3 \<le> j" "j < 3 + 3 * Suc c"
    proof (cases "j < 3 + 3 * c")
      case True
      then show ?thesis using ih(2) that(1) unfolding step by simp
    next
      case False
      then have "j = 3 + 3 * c \<or> j = 4 + 3 * c \<or> j = 5 + 3 * c" using that(2) by auto
      then show ?thesis using room unfolding step by auto
    qed
    then show ?case using ih(1) by (simp add: step)
  qed (auto simp: switch_kinds_def)
  then show False using assms j by (metis not_less order_refl)
qed

text \<open>An operand that is a value, by the kinds of \<open>limba_operand_kinds\<close>.\<close>

definition value_operand :: "limba_func \<Rightarrow> limba_inst \<Rightarrow> nat \<Rightarrow> bool" where
  "value_operand f i j \<longleftrightarrow> j < in_nops i \<and> snd (limba_operand_kinds f i) ! j = LIMBA_OK_VALUE"

lemma vals_operand: "vals f v u i n = Some (Some ts) \<Longrightarrow> j < n \<Longrightarrow> use_ok f v u (operand f i j)"
  using vals_ok(1) by (fastforce simp: uses_at_def operand_def)

lemma branch_operand:
  assumes "check_branch f v u (in_first i + k) allow = Some True" "k + 2 \<le> j" "j < k + 2 + operand f i (k + 1)"
  shows "use_ok f v u (operand f i j)"
proof -
  have e: "operand f i (k + 1) = fn_operands f ! (in_first i + k + 1)" by (simp add: operand_def)
  have "in_first i + j \<in> set [in_first i + k + 2 ..< in_first i + k + 2 + fn_operands f ! (in_first i + k + 1)]"
    unfolding set_upt atLeastLessThan_iff e [symmetric] using assms(2,3) by linarith
  then show ?thesis using check_branch_ok [OF assms(1)] unfolding uses_at_def operand_def by blast
qed

lemma br_used:
  assumes "op_format (limba_ops (in_op i)) = LIMBA_F_BR" "check_format m f v u i = Some True"
    "fst (limba_operand_kinds f i)" "value_operand f i j"
  shows "use_ok f v u (operand f i j)"
proof -
  have k: "branch_kinds 1 (operand f i) (in_nops i) 0 (replicate (in_nops i) LIMBA_OK_VALUE) = (True, snd (limba_operand_kinds f i))"
    using assms(1,3) by (simp add: limba_operand_kinds_def Let_def prod_eq_iff del: branch_kinds.simps One_nat_def)
  have "0 + 2 \<le> j \<and> j < 0 + 2 + operand f i (0 + 1)"
    using assms(4) by (intro branch_kinds_value [OF k]) (simp_all add: value_operand_def)
  moreover have "check_branch f v u (in_first i + 0) True = Some True"
    using assms(1,2) by (simp add: check_format_def)
  ultimately show ?thesis using branch_operand [of f v u i 0 True j] by blast
qed

lemma cbr_used:
  assumes "op_format (limba_ops (in_op i)) = LIMBA_F_CBR" "check_format m f v u i = Some True"
    "fst (limba_operand_kinds f i)" "value_operand f i j"
  shows "use_ok f v u (operand f i j)"
proof -
  have k: "branch_kinds 2 (operand f i) (in_nops i) 1 (replicate (in_nops i) LIMBA_OK_VALUE) = (True, snd (limba_operand_kinds f i))"
    using assms(1,3) by (auto simp: limba_operand_kinds_def Let_def prod_eq_iff simp del: branch_kinds.simps split: if_splits)
  have "j = 0 \<or> 3 \<le> j \<and> j < 3 + operand f i 2 \<or>
      (5 + operand f i 2 \<le> j \<and> j < 5 + operand f i 2 + operand f i (4 + operand f i 2))"
    using assms(4) by (intro cbr_kinds_value [OF k]) (simp_all add: value_operand_def)
  moreover obtain ts where "vals f v u i 1 = Some (Some ts)" "check_cbr f v u i = Some True"
    using assms(1,2) by (auto simp: check_format_def split: if_splits)
  moreover from this have "check_branch f v u (in_first i + 1) True = Some True"
      "check_branch f v u (in_first i + (3 + operand f i 2)) True = Some True"
    by (auto simp: check_cbr_def operand_def bind_eq_Some_conv add.assoc)
  moreover have "(1 :: nat) + 2 = 3" "(1 :: nat) + 1 = 2" "3 + operand f i 2 + 2 = 5 + operand f i 2"
      "3 + operand f i 2 + 1 = 4 + operand f i 2" by simp_all
  ultimately show ?thesis using vals_operand [of f v u i 1 ts j] branch_operand [of f v u i 1 True j]
      branch_operand [of f v u i "3 + operand f i 2" True j] by (metis less_one)
qed

lemma switch_used:
  assumes "op_format (limba_ops (in_op i)) = LIMBA_F_SWITCH" "check_format m f v u i = Some True"
    "fst (limba_operand_kinds f i)" "value_operand f i j"
  shows "use_ok f v u (operand f i j)"
proof -
  let ?ks = "(replicate (in_nops i) LIMBA_OK_VALUE)[1 := LIMBA_OK_BLOCK, 2 := LIMBA_OK_RAW]"
  have k: "snd (limba_operand_kinds f i) = switch_kinds (operand f i 2) ?ks" "in_nops i = 3 + 3 * operand f i 2"
    using assms(1,3) by (auto simp: limba_operand_kinds_def Let_def split: if_splits)
  have "j < 3"
    using assms(4) k by (intro switch_kinds_value [of "operand f i 2" ?ks]) (simp_all add: value_operand_def)
  moreover have "switch_kinds c ?ks ! 1 = LIMBA_OK_BLOCK \<and> switch_kinds c ?ks ! 2 = LIMBA_OK_RAW" for c
    by (induction c) (use k(2) in \<open>auto simp: switch_kinds_def\<close>)
  ultimately have "j = 0" using assms(4) k(1) by (auto simp: value_operand_def less_Suc_eq numeral_3_eq_3 numeral_2_eq_2)
  moreover obtain ts where "vals f v u i 1 = Some (Some ts)"
    using assms(1,2) by (auto simp: check_format_def split: if_splits)
  ultimately show ?thesis using vals_operand [of f v u i 1 ts j] by simp
qed

lemma operands_used:
  assumes "check_format m f v u i = Some True" "fst (limba_operand_kinds f i)" "value_operand f i j"
  shows "use_ok f v u (operand f i j)"
proof (cases "limba_only_values i")
  case False
  then show ?thesis using br_used cbr_used switch_used assms by (auto simp: limba_only_values_def)
next
  case True
  have ret: "use_ok f v u (operand f i j)" if "vals f v u i 1 = Some (Some ts)" "in_nops i \<le> 1" for ts
    using assms(3) that(2) by (intro vals_operand [OF that(1)]) (simp add: value_operand_def)
  have call: "check_call m f v u i = Some True \<Longrightarrow> (in_op i = LIMBA_OP_CALLIND \<Longrightarrow> 0 < in_nops i) \<Longrightarrow> use_ok f v u (operand f i j)"
    using check_call_ok [of m f v u i] assms(3) by (auto simp: value_operand_def)
  show ?thesis
    using True assms vals_operand [of f v u i "in_nops i" _ j] call ret
    by (cases "op_format (limba_ops (in_op i))")
      (auto simp: limba_only_values_def limba_operand_kinds_def check_format_def check_ret_def value_operand_def Let_def
        bind_eq_Some_conv split: if_splits)
qed

section \<open>A function that was let through\<close>

lemma cfg_built_facts:
  assumes "limba_cfg_build f = Some (ok, c)" "length (fn_blocks f) < LIMBA_NONE"
  shows "cf_n c = length (fn_blocks f)" "b < cf_n c \<Longrightarrow> limba_cfg_reachable c b \<longleftrightarrow> reach (succ_row c) b"
    "a < cf_n c \<Longrightarrow> b < cf_n c \<Longrightarrow> reach (succ_row c) b \<Longrightarrow> limba_cfg_dominates c a b \<longleftrightarrow> dominates (succ_row c) a b"
proof -
  obtain po order where b: "cfg_built f ok c po order" using cfg_build_spec [OF assms(2)] assms(1) by auto
  show "cf_n c = length (fn_blocks f)" using cfg_built_size [OF b] by simp
  show "b < cf_n c \<Longrightarrow> limba_cfg_reachable c b \<longleftrightarrow> reach (succ_row c) b" for b
    using idom_reachable [OF cfg_built_idom [OF \<open>cfg_built f ok c po order\<close>]] by (simp add: limba_cfg_reachable_def)
  show "a < cf_n c \<Longrightarrow> b < cf_n c \<Longrightarrow> reach (succ_row c) b \<Longrightarrow> limba_cfg_dominates c a b \<longleftrightarrow> dominates (succ_row c) a b" for a b
    using cfg_built_dominates [OF \<open>cfg_built f ok c po order\<close>] by simp
qed

text \<open>What the passes of \<open>check_func\<close> found, with what they left for the check of the instructions.\<close>

definition func_checked :: "limba_module \<Rightarrow> limba_func \<Rightarrow> vctx \<Rightarrow> bool" where
  "func_checked m f v \<longleftrightarrow>
     laid_out f (vc_pos v) \<and> check_entry m f = Some True \<and>
     mark_handlers (length (fn_blocks f)) 0 (fn_blocks f) (replicate (length (fn_blocks f)) False) = Some (vc_ish v) \<and>
     limba_cfg_build f = Some (True, vc_cfg v) \<and>
     (\<forall>x < length (fn_insts f). check_inst m f v x = Some True)"

lemma laid_out_block:
  "laid_out f pos \<Longrightarrow> x < length (fn_insts f) \<Longrightarrow> \<exists>b < length (fn_blocks f). x \<in> set (bl_insts (fn_blocks f ! b))"
  by (simp add: laid_out_def)

lemma check_func_checked:
  assumes "check_func m f = Some True" "counts_ok f"
  shows "\<exists>v. func_checked m f v"
proof -
  obtain pos where place: "place_blocks f 0 (fn_blocks f) (replicate (length (fn_insts f)) LIMBA_NONE) = Some (Some pos)"
      "LIMBA_NONE \<notin> set pos" and entry: "check_entry m f = Some True"
      and rest: "(case mark_handlers (length (fn_blocks f)) 0 (fn_blocks f) (replicate (length (fn_blocks f)) False) of
         None \<Rightarrow> Some False
       | Some ish \<Rightarrow> also_ok (all_of (check_handler f ish) [0 ..< length (fn_blocks f)]) (check_body m f pos ish)) = Some True"
    using assms(1) by (auto simp: check_func_def Let_def split: if_splits)
  obtain ish where ish: "mark_handlers (length (fn_blocks f)) 0 (fn_blocks f) (replicate (length (fn_blocks f)) False) = Some ish"
      and body: "check_body m f pos ish = Some True"
    using rest by (auto split: option.splits)
  obtain c where c: "limba_cfg_build f = Some (True, c)"
      and insts: "\<forall>bl \<in> set (fn_blocks f). \<forall>x \<in> set (bl_insts bl). check_inst m f \<lparr>vc_pos = pos, vc_cfg = c, vc_ish = ish\<rparr> x = Some True"
    using body by (auto simp: check_body_def bind_eq_Some_conv split: if_splits)
  have l: "laid_out f pos" by (rule place_blocks_laid_out [OF assms(2) place])
  have "check_inst m f \<lparr>vc_pos = pos, vc_cfg = c, vc_ish = ish\<rparr> x = Some True" if "x < length (fn_insts f)" for x
  proof -
    obtain b where "b < length (fn_blocks f)" "x \<in> set (bl_insts (fn_blocks f ! b))"
      using laid_out_block [OF l \<open>x < length (fn_insts f)\<close>] by blast
    then show ?thesis using insts nth_mem by blast
  qed
  then show ?thesis using l entry ish c
    by (intro exI [of _ "\<lparr>vc_pos = pos, vc_cfg = c, vc_ish = ish\<rparr>"]) (simp add: func_checked_def)
qed

text \<open>Where an instruction is.\<close>

lemma laid_out_inst:
  assumes "laid_out f pos" "x < length (fn_insts f)"
  shows "in_block (fn_insts f ! x) < length (fn_blocks f)"
    "pos ! x < length (bl_insts (fn_blocks f ! in_block (fn_insts f ! x)))"
    "bl_insts (fn_blocks f ! in_block (fn_insts f ! x)) ! (pos ! x) = x"
    "inst_placed f (in_block (fn_insts f ! x)) (fn_blocks f ! in_block (fn_insts f ! x)) (pos ! x) x"
proof -
  obtain b where b: "b < length (fn_blocks f)" "x \<in> set (bl_insts (fn_blocks f ! b))"
    using assms by (auto simp: laid_out_def)
  then obtain k where k: "k < length (bl_insts (fn_blocks f ! b))" "bl_insts (fn_blocks f ! b) ! k = x"
    by (auto simp: in_set_conv_nth)
  have "inst_placed f b (fn_blocks f ! b) k x" "pos ! x = k"
    using assms(1) b(1) k by (auto simp: laid_out_def block_placed_def)
  then show "in_block (fn_insts f ! x) < length (fn_blocks f)"
    "pos ! x < length (bl_insts (fn_blocks f ! in_block (fn_insts f ! x)))"
    "bl_insts (fn_blocks f ! in_block (fn_insts f ! x)) ! (pos ! x) = x"
    "inst_placed f (in_block (fn_insts f ! x)) (fn_blocks f ! in_block (fn_insts f ! x)) (pos ! x) x"
    using b(1) k by (simp_all add: inst_placed_def)
qed

lemma check_inst_format:
  assumes "check_inst m f v x = Some True"
  shows "check_format m f v x (fn_insts f ! x) = Some True"
    "in_type (fn_insts f ! x) = LIMBA_T_VOID \<or> is_value_type m (in_type (fn_insts f ! x))"
  using assms by (auto simp: check_inst_def bind_eq_Some_conv Let_def split: if_splits)

lemma checked_format:
  assumes "func_checked m f v" "x < length (fn_insts f)"
  shows "check_format m f v x (fn_insts f ! x) = Some True" "fst (limba_operand_kinds f (fn_insts f ! x))"
    "in_first (fn_insts f ! x) + in_nops (fn_insts f ! x) \<le> length (fn_operands f)"
    "in_type (fn_insts f ! x) = LIMBA_T_VOID \<or> is_value_type m (in_type (fn_insts f ! x))"
proof -
  have "check_inst m f v x = Some True" and l: "laid_out f (vc_pos v)" using assms by (simp_all add: func_checked_def)
  then show "check_format m f v x (fn_insts f ! x) = Some True"
    "in_type (fn_insts f ! x) = LIMBA_T_VOID \<or> is_value_type m (in_type (fn_insts f ! x))"
    using check_inst_format by blast+
  show "fst (limba_operand_kinds f (fn_insts f ! x))" "in_first (fn_insts f ! x) + in_nops (fn_insts f ! x) \<le> length (fn_operands f)"
    using laid_out_inst(4) [OF l assms(2)] by (simp_all add: inst_placed_def)
qed

text \<open>\<open>x\<close> comes before \<open>u\<close> in the instructions of block \<open>b\<close>.\<close>

definition before :: "limba_func \<Rightarrow> limba_id \<Rightarrow> nat \<Rightarrow> nat \<Rightarrow> bool" where
  "before f b x u \<longleftrightarrow> (\<exists>i j. i < j \<and> j < length (bl_insts (fn_blocks f ! b)) \<and>
     bl_insts (fn_blocks f ! b) ! i = x \<and> bl_insts (fn_blocks f ! b) ! j = u)"

section \<open>A function of one use\<close>

text \<open>\<open>() -> i32\<close>: \<open>v0 = iconst 5\<close>, \<open>ret v0\<close>.\<close>

definition const_inst :: limba_inst where
  "const_inst = \<lparr>in_op = LIMBA_OP_ICONST, in_cc = LIMBA_CC_EQ, in_type = LIMBA_T_I32, in_block = 0, in_nops = 0,
     in_first = 0, in_imm = 5, in_imm2 = 0\<rparr>"

definition ret_inst :: limba_inst where
  "ret_inst = \<lparr>in_op = LIMBA_OP_RET, in_cc = LIMBA_CC_EQ, in_type = LIMBA_T_VOID, in_block = 0, in_nops = 1,
     in_first = 0, in_imm = 0, in_imm2 = 0\<rparr>"

definition const_func :: limba_func where
  "const_func = \<lparr>fn_name = 0, fn_type = 11, fn_flags = 0, fn_locs = [], fn_pos_cur = 0, fn_insts = [const_inst, ret_inst],
     fn_operands = [0], fn_blocks = [\<lparr>bl_insts = [0, 1], bl_nparams = 0, bl_handler = 0\<rparr>], fn_slots = [], fn_sum = None\<rparr>"

definition const_module :: limba_module where
  "const_module = limba_module_new
     \<lparr>md_types := md_types limba_module_new @ [\<lparr>ty_kind = LIMBA_TK_FUNC, ty_variadic = False, ty_rext = 0, ty_size = 0,
        ty_align = 1, ty_name = LIMBA_NONE, ty_elem = LIMBA_T_I32, ty_count = 0, ty_first = 0\<rparr>],
      md_strings := limba_strtab_new\<lparr>st_start := [0], st_len := [0]\<rparr>, md_funcs := [const_func]\<rparr>"

lemma const_counts: "counts_ok const_func"
  by (simp add: counts_ok_def const_func_def)

lemma const_sig: "limba_type_sig const_module 11 = Some \<lparr>sg_ret = LIMBA_T_I32, sg_params = [], sg_variadic = False, sg_mem = Some []\<rparr>"
  by (simp add: limba_type_sig_def const_module_def new_type members_of_def nth_append Let_def)

lemma const_fields:
  "fn_insts const_func = [const_inst, ret_inst]" "fn_operands const_func = [0]" "fn_slots const_func = []" "fn_type const_func = 11"
  "fn_blocks const_func = [\<lparr>bl_insts = [0, 1], bl_nparams = 0, bl_handler = 0\<rparr>]" "fn_locs const_func = []"
  by (simp_all add: const_func_def)

lemma const_types: "length (md_types const_module) = 12"
  by (simp add: const_module_def new_type)

lemma const_cfg: "\<exists>c. limba_cfg_build const_func = Some (True, c) \<and> limba_cfg_reachable c 0"
proof -
  have len: "length (fn_blocks const_func) < LIMBA_NONE" by (simp add: const_func_def)
  obtain ok c po order where c: "limba_cfg_build const_func = Some (ok, c)" and b: "cfg_built const_func ok c po order"
    using cfg_build_spec [OF len] by blast
  have "block_succs const_func 0 = []"
    by (simp add: block_succs_def const_fields ret_inst_def limba_operand_kinds_def Let_def)
  then have ok: "ok" using cfg_built_ok [OF b] cfg_built_size [OF b] by (simp add: const_fields)
  have "limba_cfg_reachable c 0" using cfg_built_facts(1) [OF c len] cfg_built_facts(2) [OF c len, of 0] by (simp add: const_fields)
  then show ?thesis using c ok by simp
qed

lemma const_checked: "check_func const_module const_func = Some True"
proof -
  obtain c where c: "limba_cfg_build const_func = Some (True, c)" "limba_cfg_reachable c 0" using const_cfg by blast
  let ?v = "\<lparr>vc_pos = [0, 1], vc_cfg = c, vc_ish = [False]\<rparr>"
  have place: "place_blocks const_func 0 (fn_blocks const_func) (replicate (length (fn_insts const_func)) LIMBA_NONE) = Some (Some [0, 1])"
    by (simp add: const_fields const_inst_def ret_inst_def get_def op_has_def limba_operand_kinds_def Let_def)
  have use: "use_type const_func ?v 1 0 = Some (Some LIMBA_T_I32)"
    using c(2) by (simp add: use_type_def const_fields const_inst_def ret_inst_def get_def op_has_def Let_def)
  have "check_inst const_module const_func ?v 0 = Some True"
    by (simp add: check_inst_def check_format_def const_fields const_inst_def get_def op_has_def type_ok_def is_value_type_def
        const_types imm_fits_def limba_type_is_int_def limba_type_bits_def Let_def)
  moreover have "check_inst const_module const_func ?v 1 = Some True"
    using use by (simp add: check_inst_def check_format_def check_ret_def const_fields ret_inst_def get_def op_has_def type_ok_def
        const_types const_sig vals_def given_def Let_def)
  ultimately have "check_body const_module const_func [0, 1] [False] = Some True"
    using c(1) by (simp add: check_body_def const_fields)
  then show ?thesis
    unfolding check_func_def Let_def place
    by (simp add: const_fields limba_inst_pos_def given_def also_ok_def check_entry_def const_sig get_def check_params_def check_handler_def)
qed

text \<open>
  C2: In a function the verifier accepts, every operand that is a value names an instruction that gives
  one, and in every block in reach it is there before it is used: the definition comes earlier in the
  same block, or every path of the graph from the entry to the use passes the block of the definition.
\<close>

theorem verified_uses_dominated:
  assumes "check_func m f = Some True" "counts_ok f"
  shows "\<exists>c. limba_cfg_build f = Some (True, c) \<and>
    (\<forall>u < length (fn_insts f). \<forall>j. value_operand f (fn_insts f ! u) j \<longrightarrow>
      (let x = operand f (fn_insts f ! u) j; bx = in_block (fn_insts f ! x); bu = in_block (fn_insts f ! u)
       in x < length (fn_insts f) \<and> in_type (fn_insts f ! x) \<noteq> LIMBA_T_VOID \<and>
          (reach (succ_row c) bu \<longrightarrow> before f bu x u \<or> bx \<noteq> bu \<and> dominates (succ_row c) bx bu)))"
proof -
  obtain v where v: "func_checked m f v" using check_func_checked [OF assms] by blast
  then have l: "laid_out f (vc_pos v)" and c: "limba_cfg_build f = Some (True, vc_cfg v)" by (simp_all add: func_checked_def)
  note g = cfg_built_facts [OF c]
  have len: "length (fn_blocks f) < LIMBA_NONE" using assms(2) by (simp add: counts_ok_def)
  have "let x = operand f (fn_insts f ! u) j; bx = in_block (fn_insts f ! x); bu = in_block (fn_insts f ! u)
       in x < length (fn_insts f) \<and> in_type (fn_insts f ! x) \<noteq> LIMBA_T_VOID \<and>
          (reach (succ_row (vc_cfg v)) bu \<longrightarrow> before f bu x u \<or> bx \<noteq> bu \<and> dominates (succ_row (vc_cfg v)) bx bu)"
    if u: "u < length (fn_insts f)" and j: "value_operand f (fn_insts f ! u) j" for u j
  proof -
    define x where "x = operand f (fn_insts f ! u) j"
    have use: "use_ok f v u x"
      unfolding x_def by (rule operands_used [OF checked_format(1,2) [OF v u] j])
    then have x: "x < length (fn_insts f)" by (simp add: use_ok_def)
    note pu = laid_out_inst [OF l u] and px = laid_out_inst [OF l x]
    define bx bu where "bx = in_block (fn_insts f ! x)" and "bu = in_block (fn_insts f ! u)"
    have n: "bx < cf_n (vc_cfg v)" "bu < cf_n (vc_cfg v)" using pu(1) px(1) g(1) [OF len] by (simp_all add: bx_def bu_def)
    have "before f bu x u \<or> bx \<noteq> bu \<and> dominates (succ_row (vc_cfg v)) bx bu" if r: "reach (succ_row (vc_cfg v)) bu"
    proof (cases "bx = bu")
      case True
      then have "vc_pos v ! x < vc_pos v ! u" using use r g(2) [OF len n(2)] by (simp add: use_ok_def bx_def bu_def)
      then show ?thesis unfolding before_def bu_def
        using True pu px by (intro disjI1 exI [of _ "vc_pos v ! x"] exI [of _ "vc_pos v ! u"]) (simp add: bx_def bu_def)
    next
      case False
      then have "limba_cfg_dominates (vc_cfg v) bx bu" using use r g(2) [OF len n(2)] by (simp add: use_ok_def bx_def bu_def)
      then show ?thesis using False g(3) [OF len n r] by simp
    qed
    then show ?thesis
      using use unfolding Let_def x_def [symmetric] bx_def [symmetric] bu_def [symmetric] by (simp add: use_ok_def)
  qed
  then show ?thesis using c by blast
qed

theorem verified_uses_dominated_witness:
  "\<exists>c. limba_cfg_build const_func = Some (True, c) \<and> before const_func 0 0 1"
proof -
  have v: "value_operand const_func (fn_insts const_func ! 1) 0"
    by (simp add: value_operand_def const_fields ret_inst_def limba_operand_kinds_def)
  show ?thesis
    using verified_uses_dominated [OF const_checked const_counts] v
    by (fastforce simp: const_fields const_inst_def ret_inst_def operand_def Let_def)
qed

section \<open>The types of the evaluator\<close>

























section \<open>The checks of a function answer\<close>

text \<open>What a module whose declarations passed gives the checks of its functions.\<close>

definition decls_ok :: "limba_module \<Rightarrow> bool" where
  "decls_ok m \<longleftrightarrow> types_ranged m \<and> length (md_types m) \<le> LIMBA_NONE"

lemma holds_empty_in_answers:
  assumes "types_ranged m" "t < fuel" "t < length (md_types m)"
  shows "answers (holds_empty_in fuel m t)"
  using assms(2,3)
proof (induction fuel arbitrary: t)
  case (Suc fuel)
  have rec: "answers (holds_empty_in fuel m u)" if "u < t" for u using Suc that by simp
  show ?case
    using Suc.prems(2) ranged_array [OF assms(1) Suc.prems(2)] ranged_struct [OF assms(1) Suc.prems(2)] rec
    by (auto intro!: answer_intros)
qed simp

lemma counted_type_answers: "types_ranged m \<Longrightarrow> answers (counted_type m t)"
  unfolding counted_type_def holds_empty_array_def
  by (intro answer_intros counted_answers) (simp_all add: holds_empty_in_answers del: holds_empty_in.simps)

lemma counted_type_range: "counted_type m t = Some True \<Longrightarrow> t < length (md_types m)"
  by (simp add: counted_type_def split: if_splits)

lemma check_slot_answers: "types_ranged m \<Longrightarrow> answers (check_slot m sl)"
  unfolding check_slot_def by (intro answer_intros answersI counted_type_answers) (simp_all add: counted_type_range)

text \<open>The context of an instruction: the positions and the handlers are those of the function.\<close>

definition ctx_ok :: "limba_func \<Rightarrow> vctx \<Rightarrow> bool" where
  "ctx_ok f v \<longleftrightarrow> laid_out f (vc_pos v) \<and> length (vc_ish v) = length (fn_blocks f)"

lemma ctx_use: "ctx_ok f v \<Longrightarrow> u < length (fn_insts f) \<Longrightarrow> answers (use_type f v u x)"
  by (auto simp: ctx_ok_def laid_out_def intro!: use_type_answers)

lemma ctx_vals:
  "ctx_ok f v \<Longrightarrow> u < length (fn_insts f) \<Longrightarrow> in_first i + n \<le> length (fn_operands f) \<Longrightarrow> answers (vals f v u i n)"
  by (auto simp: ctx_ok_def laid_out_def intro!: vals_answers)

lemma laid_out_param:
  assumes "laid_out f pos" "b < length (fn_blocks f)" "k < bl_nparams (fn_blocks f ! b)"
  shows "k < length (bl_insts (fn_blocks f ! b))" "bl_insts (fn_blocks f ! b) ! k < length (fn_insts f)"
proof -
  have "block_placed f pos b (fn_blocks f ! b)" using assms(1,2) by (simp add: laid_out_def)
  then show k: "k < length (bl_insts (fn_blocks f ! b))" using assms(3) by (simp add: block_placed_def)
  then show "bl_insts (fn_blocks f ! b) ! k < length (fn_insts f)"
    using \<open>block_placed f pos b (fn_blocks f ! b)\<close> by (simp add: block_placed_def inst_placed_def)
qed

lemma check_args_answers:
  assumes "ctx_ok f v" "u < length (fn_insts f)"
    "\<forall>i \<in> set is. a + i < length (fn_operands f) \<and> i < length (bl_insts bl) \<and> bl_insts bl ! i < length (fn_insts f)"
  shows "answers (check_args f v u bl a is)"
  using assms(3)
  by (induction "is") (auto intro!: answer_intros ctx_use assms(1,2) split: option.splits)

lemma check_branch_answers:
  assumes "ctx_ok f v" "u < length (fn_insts f)" "k + 2 + fn_operands f ! (k + 1) \<le> length (fn_operands f)"
  shows "answers (check_branch f v u k allow)"
proof -
  have l: "laid_out f (vc_pos v)" "length (vc_ish v) = length (fn_blocks f)" using assms(1) by (simp_all add: ctx_ok_def)
  have args: "answers (check_args f v u (fn_blocks f ! b) (k + 2) [0 ..< bl_nparams (fn_blocks f ! b)])"
    if "b < length (fn_blocks f)" "fn_operands f ! (k + 1) = bl_nparams (fn_blocks f ! b)" for b
    using that assms(3) laid_out_param [OF l(1) that(1)] by (intro check_args_answers assms(1,2)) auto
  show ?thesis unfolding check_branch_def limba_target_def
    using args assms(3) l(2) by (auto intro!: answer_intros simp: Let_def simp del: check_args.simps)
qed

lemma check_call_args_answers:
  assumes "ctx_ok f v" "u < length (fn_insts f)" "\<forall>i \<in> set is. a + i < length (fn_operands f)"
  shows "answers (check_call_args m f v u s ext a is)"
  using assms(3)
  by (induction "is") (auto intro!: answer_intros ctx_use assms(1,2) split: option.splits)

lemma check_address_answers:
  "ctx_ok f v \<Longrightarrow> u < length (fn_insts f) \<Longrightarrow> in_first i < length (fn_operands f) \<Longrightarrow> answers (check_address f v u i)"
  unfolding check_address_def by (auto intro!: answer_intros ctx_use)

text \<open>The type an indirect call names is a function type.\<close>

lemma indirect_answers:
  assumes "decls_ok m" "in_op i = LIMBA_OP_CALLIND" "limba_call_sig m i = Some s"
  shows "answers (scalar_sig m (unat (ucast (in_imm i) :: u32)))"
proof -
  define t where "t = unat (in_imm i)"
  have t: "t < length (md_types m)" "ty_kind (md_types m ! t) = LIMBA_TK_FUNC"
    using assms(2,3) by (auto simp: limba_call_sig_def limba_type_sig_def Let_def t_def split: if_splits)
  have "unat (ucast (in_imm i) :: u32) = t"
    using t(1) assms(1) by (simp add: decls_ok_def t_def unsigned_ucast_eq take_bit_nat_eq_self)
  then show ?thesis using t assms(1) scalar_sig_answers by (simp add: decls_ok_def)
qed

lemma check_call_answers:
  assumes "decls_ok m" "ctx_ok f v" "u < length (fn_insts f)" "in_first i + in_nops i \<le> length (fn_operands f)"
    "in_op i = LIMBA_OP_CALLIND \<Longrightarrow> 0 < in_nops i"
  shows "answers (check_call m f v u i)"
proof (cases "limba_call_sig m i")
  case (Some s)
  have addr: "answers (check_address f v u i)" if "0 < in_nops i"
    using assms(4) that by (intro check_address_answers assms(2,3)) simp
  have args: "answers (check_call_args m f v u s ext (in_first i + a) [0 ..< in_nops i - a])" for ext a
    using assms(4) by (intro check_call_args_answers assms(2,3)) auto
  show ?thesis
    unfolding check_call_def Some option.case Let_def
    using addr args indirect_answers [OF assms(1) _ Some] assms(5)
    by (intro answer_intros) (auto simp: Suc_leI)
qed (simp add: check_call_def)

lemma check_case_answers:
  assumes "base + 3 * c + 3 \<le> length (fn_operands f)"
  shows "answers (check_case f t base c)"
  unfolding check_case_def Let_def using assms by (auto intro!: answer_intros)

lemma check_switch_answers:
  assumes "in_first i + 3 + 3 * operand f i 2 \<le> length (fn_operands f)"
  shows "answers (check_switch f i t)"
proof -
  have "answers (check_case f t (in_first i + 1 + 2) c)" if "c < operand f i 2" for c
    using assms that by (intro check_case_answers) simp
  then show ?thesis
    unfolding check_switch_def Let_def using assms by (auto intro!: answer_intros simp: operand_def)
qed

lemma check_ret_answers:
  assumes "ctx_ok f v" "u < length (fn_insts f)" "in_first i + in_nops i \<le> length (fn_operands f)"
    "limba_type_sig m (fn_type f) \<noteq> None"
  shows "answers (check_ret m f v u i)"
proof -
  have "answers (vals f v u i 1)" if "in_nops i \<noteq> 0" using assms(3) that by (intro ctx_vals assms(1,2)) simp
  then show ?thesis
    unfolding check_ret_def using assms(4) by (intro answer_intros) (auto simp: answers_def)
qed

lemma br_answers:
  assumes "ctx_ok f v" "u < length (fn_insts f)" "in_first i + in_nops i \<le> length (fn_operands f)"
    "fst (limba_operand_kinds f i)" "op_format (limba_ops (in_op i)) = LIMBA_F_BR"
  shows "answers (check_branch f v u (in_first i) True)"
proof -
  have k: "branch_kinds 1 (operand f i) (in_nops i) 0 (replicate (in_nops i) LIMBA_OK_VALUE) = (True, snd (limba_operand_kinds f i))"
    using assms(4,5) by (simp add: limba_operand_kinds_def Let_def prod_eq_iff del: branch_kinds.simps One_nat_def)
  show ?thesis using branch_kinds_one(1) [OF k] assms(3) by (intro check_branch_answers assms(1,2)) (simp add: operand_def)
qed

lemma cbr_answers:
  assumes "ctx_ok f v" "u < length (fn_insts f)" "in_first i + in_nops i \<le> length (fn_operands f)"
    "fst (limba_operand_kinds f i)" "op_format (limba_ops (in_op i)) = LIMBA_F_CBR"
  shows "answers (check_cbr f v u i)" "0 < in_nops i"
proof -
  have k: "branch_kinds 2 (operand f i) (in_nops i) 1 (replicate (in_nops i) LIMBA_OK_VALUE) = (True, snd (limba_operand_kinds f i))"
    using assms(4,5) by (auto simp: limba_operand_kinds_def Let_def prod_eq_iff simp del: branch_kinds.simps split: if_splits)
  have n: "in_nops i = 5 + operand f i 2 + operand f i (4 + operand f i 2)"
    using branch_kinds_one(1) [OF branch_kinds_two [OF k]] by (simp add: numeral_eq_Suc)
  then show "0 < in_nops i" by simp
  have o: "operand f i 2 = fn_operands f ! (in_first i + 2)"
      "operand f i (4 + operand f i 2) = fn_operands f ! (in_first i + 4 + operand f i 2)"
    by (simp_all add: operand_def add.assoc)
  have one: "answers (check_branch f v u (in_first i + 1) True)"
    using n assms(3) by (intro check_branch_answers assms(1,2)) (simp add: operand_def numeral_2_eq_2)
  have "(4 :: nat) = 3 + 1" by simp
  then have two: "answers (check_branch f v u (in_first i + 3 + operand f i 2) True)"
    using n o(2) assms(3) by (intro check_branch_answers assms(1,2)) (simp add: ac_simps)
  show "answers (check_cbr f v u i)"
    unfolding check_cbr_def using one two n assms(3) o(1) by (intro answer_intros) auto
qed

lemma check_format_answers:
  assumes "decls_ok m" "ctx_ok f v" "u < length (fn_insts f)" "in_first i + in_nops i \<le> length (fn_operands f)"
    "fst (limba_operand_kinds f i)" "limba_type_sig m (fn_type f) \<noteq> None"
  shows "answers (check_format m f v u i)"
proof -
  have vals: "answers (vals f v u i n)" if "n \<le> in_nops i" for n
    using assms(4) that by (intro ctx_vals assms(2,3)) simp
  have call: "(in_op i = LIMBA_OP_CALLIND \<Longrightarrow> 0 < in_nops i) \<Longrightarrow> answers (check_call m f v u i)"
    by (rule check_call_answers [OF assms(1-4)])
  have ind: "0 < in_nops i" if "in_op i = LIMBA_OP_CALLIND"
    using assms(5) that by (auto simp: limba_operand_kinds_def Let_def)
  have rc: "answers (counted_type m t)" for t using assms(1) counted_type_answers by (simp add: decls_ok_def)
  have switch: "answers (check_switch f i t)" if "op_format (limba_ops (in_op i)) = LIMBA_F_SWITCH" for t
    using assms(4,5) that by (intro check_switch_answers) (auto simp: limba_operand_kinds_def Let_def split: if_splits)
  show ?thesis
    using assms(5) vals call ind rc switch br_answers [OF assms(2-5)] cbr_answers [OF assms(2-5)] check_ret_answers [OF assms(2-4,6)]
    by (cases "op_format (limba_ops (in_op i))")
      (auto simp: check_format_def Let_def limba_operand_kinds_def intro!: answer_intros split: if_splits simp del: branch_kinds.simps)
qed

lemma check_inst_answers:
  assumes "decls_ok m" "ctx_ok f v" "u < length (fn_insts f)" "limba_type_sig m (fn_type f) \<noteq> None"
  shows "answers (check_inst m f v u)"
proof -
  have l: "laid_out f (vc_pos v)" using assms(2) by (simp add: ctx_ok_def)
  have "answers (check_format m f v u (fn_insts f ! u))"
    using laid_out_inst(4) [OF l assms(3)] by (intro check_format_answers assms) (simp_all add: inst_placed_def)
  then show ?thesis unfolding check_inst_def Let_def using assms(3) by (auto intro!: answer_intros)
qed

lemma mark_handlers_length: "mark_handlers n b bls ish = Some ish' \<Longrightarrow> length ish' = length ish"
  by (induction bls arbitrary: b ish) (auto simp: Let_def split: if_splits)

lemma check_params_answers:
  assumes "laid_out f pos" "b < length (fn_blocks f)"
  shows "answers (check_params f (fn_blocks f ! b) want)"
  unfolding check_params_def using laid_out_param [OF assms] by (auto intro!: answer_intros)

lemma func_type_sig:
  "fn_type f < length (md_types m) \<Longrightarrow> ty_kind (md_types m ! fn_type f) = LIMBA_TK_FUNC \<Longrightarrow> limba_type_sig m (fn_type f) \<noteq> None"
  by (simp add: limba_type_sig_def Let_def)

lemma check_func_answers:
  assumes "decls_ok m" "counts_ok f" "limba_type_sig m (fn_type f) \<noteq> None"
  shows "answers (check_func m f)"
proof (cases "fn_blocks f = []")
  case False
  have body: "answers (check_body m f pos ish)" if "laid_out f pos" "length ish = length (fn_blocks f)" for pos ish
  proof -
    have "answers (limba_cfg_build f)"
      using cfg_build_spec [of f] assms(2) by (auto simp: counts_ok_def)
    moreover have "answers (check_inst m f \<lparr>vc_pos = pos, vc_cfg = c, vc_ish = ish\<rparr> x)" if "bl \<in> set (fn_blocks f)" "x \<in> set (bl_insts bl)" for bl x c
    proof -
      have "x < length (fn_insts f)"
        using that \<open>laid_out f pos\<close> by (auto simp: laid_out_def block_placed_def inst_placed_def in_set_conv_nth)
      then show ?thesis using \<open>laid_out f pos\<close> \<open>length ish = length (fn_blocks f)\<close>
        by (intro check_inst_answers assms) (simp_all add: ctx_ok_def)
    qed
    ultimately show ?thesis unfolding check_body_def by (auto intro!: answer_intros)
  qed
  have place: "answers (place_blocks f 0 (fn_blocks f) (replicate (length (fn_insts f)) LIMBA_NONE))"
    using assms(2) by (intro place_blocks_answers) (simp_all add: counts_ok_def)
  have handler: "answers (check_handler f ish b)" if "laid_out f pos" "length ish = length (fn_blocks f)" "b < length (fn_blocks f)" for pos ish b
    unfolding check_handler_def using that check_params_answers [OF that(1,3)] by (auto intro!: answer_intros)
  have entry: "answers (check_entry m f)" if "laid_out f pos" for pos
    unfolding check_entry_def using assms(3) False check_params_answers [OF that, of 0]
    by (intro answer_intros) (simp_all add: answers_def)
  have rest: "answers (case mark_handlers (length (fn_blocks f)) 0 (fn_blocks f) (replicate (length (fn_blocks f)) False) of
       None \<Rightarrow> Some False
     | Some ish \<Rightarrow> also_ok (all_of (check_handler f ish) [0 ..< length (fn_blocks f)]) (check_body m f pos ish))"
    if "laid_out f pos" for pos
    using handler [OF that] body [OF that] mark_handlers_length [of "length (fn_blocks f)" 0 "fn_blocks f" "replicate (length (fn_blocks f)) False"]
    by (auto intro!: answer_intros split: option.splits)
  have slots: "answers (all_of (check_slot m) (fn_slots f))"
    using assms(1) by (auto intro!: answer_intros check_slot_answers simp: decls_ok_def)
  show ?thesis
    unfolding check_func_def Let_def
    by (intro answer_intros answersI slots place entry rest) (auto intro: place_blocks_laid_out [OF assms(2)])
qed (simp add: check_func_def)

text \<open>
  C10: The verifier answers. On a module with the built-in types whose globals have types that exist, and
  whose counts are 32-bit words, it reads outside no array and its recursions and loops all end, on
  whatever the types, the data, the names, the exceptions and the functions of the module hold.
\<close>

theorem verify_answers:
  assumes "builtins_ok m" "globals_typed m" "length (md_types m) \<le> LIMBA_NONE" "\<forall>f \<in> set (md_funcs m). counts_ok f"
  shows "\<exists>ok. limba_verify m = Some ok"
proof -
  have "answers (limba_verifier_func m fid)" if "limba_verify_decls m = Some True" "fid < length (md_funcs m)" for fid
  proof -
    have f: "md_funcs m ! fid \<in> set (md_funcs m)" using that(2) by simp
    have "decls_ok m"
      using check_types_ranged [OF assms(1)] that(1) assms(3) by (simp add: decls_ok_def limba_verify_decls_def)
    then have "answers (check_func m (md_funcs m ! fid))"
      using verified_funcs [OF that(1) f] assms(4) f by (intro check_func_answers func_type_sig) auto
    then show ?thesis using that(2) by (simp add: limba_verifier_func_def get_def)
  qed
  then have "answers (limba_verify m)"
    unfolding limba_verify_def by (auto intro!: answer_intros limba_verify_decls_answers assms(1,2))
  then show ?thesis by (auto simp: answers_def)
qed

theorem verify_answers_witness: "\<exists>ok. limba_verify const_module = Some ok"
proof (rule verify_answers)
  show "builtins_ok const_module"
    using builtins_ok_new [of limba_module_new] by (simp add: builtins_ok_def const_module_def nth_append)
  show "globals_typed const_module" by (simp add: globals_typed_def const_module_def limba_module_new_def)
  show "length (md_types const_module) \<le> LIMBA_NONE" by (simp add: const_types)
  show "\<forall>f \<in> set (md_funcs const_module). counts_ok f" using const_counts by (simp add: const_module_def)
qed

end
