(* ===== verification/Gvn.thy ===== *)
theory Gvn
  imports Fold Verified
begin

text \<open>
  The numbering of values: \<^verbatim>\<open>src/src/opt/gvn.c\<close>. The walk follows the dominator tree with a table scoped to
  it; each instruction is folded, then replaced by an equal one of the table, if any. The arrays of the
  table have indexes below \<open>LIMBA_NONE\<close>, the number of \<^verbatim>\<open>UINT32_MAX\<close>, which ends a chain. \<open>None\<close> is a loop
  that does not end.
\<close>

unbundle bit_operations_syntax

section \<open>The table\<close>

record gentry =
  ge_id :: nat
  ge_next :: nat
  ge_bucket :: nat

record gctx =
  gc_f :: limba_func
  gc_fold :: bool
  gc_e :: limba_edit
  gc_heads :: "nat list"
  gc_mask :: u32
  gc_ents :: "gentry list"

definition mergeable :: "limba_inst \<Rightarrow> bool" where
  "mergeable i \<longleftrightarrow>
     in_op i = LIMBA_OP_CHECK \<or>
     op_flags (limba_ops (in_op i)) AND LIMBA_OPF_PURE \<noteq> 0 \<and> in_op i \<noteq> LIMBA_OP_PARAM \<and> in_type i \<noteq> LIMBA_T_VOID"

definition key_imm :: "limba_inst \<Rightarrow> u64" where
  "key_imm i =
     (if in_op i = LIMBA_OP_CHECK then 0
      else if in_op i = LIMBA_OP_ICONST then limba_int_norm (in_imm i) (in_type i) else in_imm i)"

fun resolve_all :: "limba_edit \<Rightarrow> nat list \<Rightarrow> (limba_edit \<times> nat list) option" where
  "resolve_all e [] = Some (e, [])"
| "resolve_all e (p # ps) =
     do { (e, x) \<leftarrow> limba_edit_resolve e p; (e, xs) \<leftarrow> resolve_all e ps; Some (e, x # xs) }"

definition operands :: "limba_func \<Rightarrow> limba_edit \<Rightarrow> limba_inst \<Rightarrow> (limba_edit \<times> nat list) option" where
  "operands f e i =
     do {
       (e, os) \<leftarrow> resolve_all e (map (operand f i) [0 ..< in_nops i]);
       Some (e, if in_nops i = 2 \<and> commutative (in_op i) \<and> os ! 0 > os ! 1 then [os ! 1, os ! 0] else os)
     }"

text \<open>The three operands an instruction is compared by: those it does not have are 0.\<close>

definition three :: "nat list \<Rightarrow> nat list" where
  "three os = take 3 (os @ [0, 0, 0])"

definition hash :: "limba_func \<Rightarrow> limba_edit \<Rightarrow> limba_inst \<Rightarrow> (limba_edit \<times> u64) option" where
  "hash f e i =
     do {
       (e, os) \<leftarrow> operands f e i;
       let o3 = map (of_nat :: nat \<Rightarrow> u64) (three os);
           h = limba_mix LIMBA_FNV_SEED
             (push_bit 40 (of_nat (op_code (in_op i))) XOR push_bit 32 (of_nat (cc_code (in_cc i))) XOR of_nat (in_type i));
           h = limba_mix h (key_imm i);
           h = limba_mix h (in_imm2 i);
           h = limba_mix h (push_bit 32 (o3 ! 0) OR o3 ! 1)
       in Some (e, limba_mix h (o3 ! 2))
     }"

definition same :: "limba_func \<Rightarrow> limba_edit \<Rightarrow> limba_inst \<Rightarrow> limba_inst \<Rightarrow> (limba_edit \<times> bool) option" where
  "same f e a b =
     (if in_op a \<noteq> in_op b \<or> in_cc a \<noteq> in_cc b \<or> in_type a \<noteq> in_type b \<or> in_nops a \<noteq> in_nops b \<or>
         key_imm a \<noteq> key_imm b \<or> in_imm2 a \<noteq> in_imm2 b
      then Some (e, False)
      else do {
        (e, oa) \<leftarrow> operands f e a;
        (e, ob) \<leftarrow> operands f e b;
        Some (e, three oa = three ob)
      })"

text \<open>The chain of a bucket, from entry \<open>k\<close>: the instruction equal to \<open>i\<close>, if any.\<close>

partial_function (option) find_same :: "limba_func \<Rightarrow> limba_edit \<Rightarrow> gentry list \<Rightarrow> limba_inst \<Rightarrow> nat \<Rightarrow> (limba_edit \<times> nat option) option" where
  "find_same f e ents i k =
     (if k = LIMBA_NONE then Some (e, None)
      else Option.bind (same f e (fn_insts f ! ge_id (ents ! k)) i)
        (\<lambda>(e, eq). if eq then Some (e, Some (ge_id (ents ! k))) else find_same f e ents i (ge_next (ents ! k))))"

definition lookup_or_add :: "gctx \<Rightarrow> nat \<Rightarrow> (gctx \<times> nat) option" where
  "lookup_or_add c x =
     (let i = fn_insts (gc_f c) ! x
      in do {
        (e, h) \<leftarrow> hash (gc_f c) (gc_e c) i;
        let bucket = unat ((ucast h :: u32) AND gc_mask c);
        (e, r) \<leftarrow> find_same (gc_f c) e (gc_ents c) i (gc_heads c ! bucket);
        Some (case r of
            Some y \<Rightarrow> (c\<lparr>gc_e := e\<rparr>, y)
          | None \<Rightarrow> (c\<lparr>gc_e := e,
                gc_ents := gc_ents c @ [\<lparr>ge_id = x, ge_next = gc_heads c ! bucket, ge_bucket = bucket\<rparr>],
                gc_heads := (gc_heads c)[bucket := length (gc_ents c)]\<rparr>, x))
      })"

definition merge :: "gctx \<Rightarrow> nat \<Rightarrow> nat \<Rightarrow> gctx option" where
  "merge c x leader =
     (if in_op (fn_insts (gc_f c) ! x) = LIMBA_OP_CHECK
      then Some (c\<lparr>gc_e := (gc_e c)\<lparr>ed_dead := (ed_dead (gc_e c))[x := True]\<rparr>\<rparr>)
      else do { e \<leftarrow> limba_edit_replace (gc_e c) x leader; Some (c\<lparr>gc_e := e\<rparr>) })"

section \<open>A block, and the walk\<close>

text \<open>An instruction that is not a parameter is folded first. The functions of mathematics and the NaNs are those of the fold.\<close>

definition number_inst :: "gctx \<Rightarrow> nat \<Rightarrow> (gctx \<times> nat) option" where
  "number_inst c x =
     (if \<not> mergeable (fn_insts (gc_f c) ! x) then Some (c, 0)
      else do {
        (c, leader) \<leftarrow> lookup_or_add c x;
        if leader \<noteq> x then do { c \<leftarrow> merge c x leader; Some (c, 1) } else Some (c, 0)
      })"

definition visit_inst :: "(nat \<Rightarrow> u64 list \<Rightarrow> u64) \<Rightarrow> u64 \<Rightarrow> gctx \<Rightarrow> bool \<Rightarrow> nat \<Rightarrow> (gctx \<times> nat) option" where
  "visit_inst libm nan c param x =
     (if ed_dead (gc_e c) ! x then Some (c, 0)
      else do {
        (f, e, changed) \<leftarrow> (if gc_fold c \<and> \<not> param then limba_fold_inst libm nan (gc_f c) (gc_e c) x else Some (gc_f c, gc_e c, False));
        let c = c\<lparr>gc_f := f, gc_e := e\<rparr>
        in if changed \<and> ed_map e ! x \<noteq> x then Some (c, 1)
           else do { (c, n) \<leftarrow> number_inst c x; Some (c, of_bool changed + n) }
      })"

fun visit_insts :: "(nat \<Rightarrow> u64 list \<Rightarrow> u64) \<Rightarrow> u64 \<Rightarrow> gctx \<Rightarrow> nat \<Rightarrow> nat list \<Rightarrow> (gctx \<times> nat) option" where
  "visit_insts libm nan c nparams [] = Some (c, 0)"
| "visit_insts libm nan c nparams (x # xs) =
     do {
       (c, n) \<leftarrow> visit_inst libm nan c (nparams > 0) x;
       (c, m) \<leftarrow> visit_insts libm nan c (nparams - 1) xs;
       Some (c, n + m)
     }"

definition visit :: "(nat \<Rightarrow> u64 list \<Rightarrow> u64) \<Rightarrow> u64 \<Rightarrow> gctx \<Rightarrow> nat \<Rightarrow> (gctx \<times> nat) option" where
  "visit libm nan c b =
     (let bl = fn_blocks (gc_f c) ! b in visit_insts libm nan c (bl_nparams bl) (bl_insts bl))"

text \<open>The entries past \<open>mark\<close> go, the last first.\<close>

function drop_entries :: "nat \<Rightarrow> gctx \<Rightarrow> gctx" where
  "drop_entries mark c =
     (if length (gc_ents c) > mark
      then let en = last (gc_ents c)
        in drop_entries mark (c\<lparr>gc_ents := butlast (gc_ents c), gc_heads := (gc_heads c)[ge_bucket en := ge_next en]\<rparr>)
      else c)"
  by auto
termination by (relation "measure (\<lambda>(mark, c). length (gc_ents c))") auto

declare drop_entries.simps [simp del]

partial_function (option) gvn_walk ::
    "(nat \<Rightarrow> u64 list \<Rightarrow> u64) \<Rightarrow> u64 \<Rightarrow> nat list \<Rightarrow> nat list \<Rightarrow> gctx \<Rightarrow> nat list \<Rightarrow> nat list \<Rightarrow> nat list \<Rightarrow> nat \<Rightarrow> (gctx \<times> nat) option" where
  "gvn_walk libm nan cfirst child c stack next mark changes =
     (case stack of
        [] \<Rightarrow> Some (c, changes)
      | b # st \<Rightarrow>
          if cfirst ! b + next ! b < cfirst ! (b + 1)
          then let s = child ! (cfirst ! b + next ! b)
            in Option.bind (visit libm nan c s)
                (\<lambda>(c', n). gvn_walk libm nan cfirst child c' (s # stack) (next[b := next ! b + 1])
                   (mark[s := length (gc_ents c)]) (changes + n))
          else gvn_walk libm nan cfirst child (drop_entries (mark ! b) c) st next mark changes)"

definition table_size :: "nat \<Rightarrow> u32 option" where
  "table_size n = while_option (\<lambda>s. s < 2 * of_nat n) (\<lambda>s. s * 2) 64"

text \<open>The graph of the context, built if it has none.\<close>

definition limba_pass_cfg_of :: "limba_cfg option \<Rightarrow> limba_func \<Rightarrow> limba_cfg option" where
  "limba_pass_cfg_of have f = (case have of Some c \<Rightarrow> Some c | None \<Rightarrow> map_option snd (limba_cfg_build f))"

definition limba_pass_gvn ::
    "(nat \<Rightarrow> u64 list \<Rightarrow> u64) \<Rightarrow> u64 \<Rightarrow> bool \<Rightarrow> limba_cfg option \<Rightarrow> limba_func \<Rightarrow> limba_edit \<Rightarrow> (limba_func \<times> limba_edit \<times> nat) option" where
  "limba_pass_gvn libm nan folds have f e =
     do {
       cfg \<leftarrow> limba_pass_cfg_of have f;
       size \<leftarrow> table_size (length (fn_insts f));
       let n = length (fn_blocks f);
       let c = \<lparr>gc_f = f, gc_fold = folds, gc_e = e, gc_heads = replicate (unat size) LIMBA_NONE, gc_mask = size - 1, gc_ents = []\<rparr>;
       let (cfirst, child) = group_rows n (map (\<lambda>b. (cf_idom cfg ! b, b)) (filter (limba_cfg_reachable cfg) [1 ..< n]));
       (c, n0) \<leftarrow> visit libm nan c 0;
       (c, changes) \<leftarrow> gvn_walk libm nan cfirst child c [0] (replicate (n + 1) 0) (replicate (n + 1) 0) n0;
       Some (gc_f c, gc_e c, changes)
     }"

section \<open>What makes two instructions the same\<close>

definition root_ops :: "limba_func \<Rightarrow> limba_edit \<Rightarrow> limba_inst \<Rightarrow> nat list" where
  "root_ops f e i = map (\<lambda>k. edit_value e (operand f i k)) [0 ..< in_nops i]"

definition key_ops :: "limba_func \<Rightarrow> limba_edit \<Rightarrow> limba_inst \<Rightarrow> nat list" where
  "key_ops f e i =
     (let os = root_ops f e i
      in if in_nops i = 2 \<and> commutative (in_op i) \<and> os ! 0 > os ! 1 then [os ! 1, os ! 0] else os)"

definition same_key :: "limba_func \<Rightarrow> limba_edit \<Rightarrow> limba_inst \<Rightarrow> limba_inst \<Rightarrow> bool" where
  "same_key f e a b \<longleftrightarrow>
     in_op a = in_op b \<and> in_cc a = in_cc b \<and> in_type a = in_type b \<and> in_nops a = in_nops b \<and>
     key_imm a = key_imm b \<and> in_imm2 a = in_imm2 b \<and> three (key_ops f e a) = three (key_ops f e b)"

lemma resolve_all_reads: "edit_ok e \<Longrightarrow> reads e (resolve_all e ps) (map (edit_value e) ps)"
proof (induction ps arbitrary: e)
  case (Cons p ps)
  show ?case
    unfolding resolve_all.simps
    by (rule reads_bind [OF resolve_reads [OF Cons.prems]], rule reads_bind [OF Cons.IH])
      (auto simp: same_edit_def intro: reads_return)
qed (simp add: reads_return)

lemma operands_reads: "edit_ok e \<Longrightarrow> reads e (operands f e i) (key_ops f e i)"
  unfolding operands_def
  by (rule reads_bind [OF resolve_all_reads], assumption)
    (auto simp: key_ops_def root_ops_def o_def same_edit_def Let_def intro: reads_return)

lemma key_ops_same: "same_edit e e' \<Longrightarrow> key_ops f e' i = key_ops f e i" "same_edit e e' \<Longrightarrow> same_key f e' i j = same_key f e i j"
  by (simp_all add: same_edit_def key_ops_def root_ops_def same_key_def)

lemma hash_reads: "edit_ok e \<Longrightarrow> \<exists>h. reads e (hash f e i) h"
  unfolding hash_def Let_def
  by (rule exI, rule reads_bind [OF operands_reads], assumption, rule reads_return) (simp add: same_edit_def)

lemma same_reads:
  assumes "edit_ok e"
  shows "reads e (same f e a b) (same_key f e a b)"
proof (cases "in_op a \<noteq> in_op b \<or> in_cc a \<noteq> in_cc b \<or> in_type a \<noteq> in_type b \<or> in_nops a \<noteq> in_nops b \<or>
    key_imm a \<noteq> key_imm b \<or> in_imm2 a \<noteq> in_imm2 b")
  case True
  then show ?thesis using reads_return [OF assms] by (auto simp: same_def same_key_def)
next
  case False
  then have k: "same_key f e a b \<longleftrightarrow> three (key_ops f e a) = three (key_ops f e b)" by (simp add: same_key_def)
  show ?thesis
    unfolding same_def if_not_P [OF False] k
  proof (rule reads_bind [OF operands_reads [OF assms]])
    fix e1 assume e1: "same_edit e e1"
    then have ok: "edit_ok e1" by (simp add: same_edit_def)
    show "reads e1 (do { (e', ob) \<leftarrow> operands f e1 b; Some (e', three (key_ops f e a) = three ob) }) (three (key_ops f e a) = three (key_ops f e b))"
      unfolding key_ops_same(1) [OF e1, of f b, symmetric]
      by (rule reads_bind [OF operands_reads [OF ok]]) (auto simp: same_edit_def intro: reads_return)
  qed
qed

text \<open>Two instructions of three operands at most with the same key have the same operands, up to the order where it does not matter.\<close>

lemma three_inj: "three xs = three ys \<Longrightarrow> length xs = length ys \<Longrightarrow> length xs \<le> 3 \<Longrightarrow> xs = ys"
proof -
  assume a: "three xs = three ys" "length xs = length ys" "length xs \<le> 3"
  then have "take (length xs) (three xs) = take (length ys) (three ys)" by simp
  then show "xs = ys" using a(2,3) by (simp add: three_def min_def)
qed

lemma key_ops_length [simp]: "length (key_ops f e i) = in_nops i"
  by (simp add: key_ops_def root_ops_def Let_def)

lemma same_key_ops:
  assumes "same_key f e i j" "in_nops i \<le> 3"
  shows "root_ops f e i = root_ops f e j \<or>
    in_nops i = 2 \<and> commutative (in_op i) \<and> edit_value e (operand f i 0) = edit_value e (operand f j 1) \<and>
      edit_value e (operand f i 1) = edit_value e (operand f j 0)"
proof -
  have n: "in_nops j = in_nops i" "in_op j = in_op i" and "three (key_ops f e i) = three (key_ops f e j)"
    using assms(1) by (simp_all add: same_key_def)
  then have k: "key_ops f e i = key_ops f e j" using three_inj assms(2) by simp
  show ?thesis
  proof (cases "in_nops i = 2 \<and> commutative (in_op i)")
    case True
    have r: "root_ops f e i = [edit_value e (operand f i 0), edit_value e (operand f i 1)]"
        "root_ops f e j = [edit_value e (operand f j 0), edit_value e (operand f j 1)]"
      using True n by (simp_all add: root_ops_def upt_rec numeral_2_eq_2)
    show ?thesis using k True n unfolding key_ops_def r Let_def by (auto split: if_splits)
  next
    case False
    then show ?thesis using k n by (auto simp: key_ops_def Let_def)
  qed
qed

section \<open>Equal instructions have equal values\<close>

text \<open>
  The values \<open>v\<close> of a run agree with a function where every instruction the evaluator gives a value has it,
  and where the pure instructions it does not (the addresses of slots, globals, functions and strings) are
  functions of what they name and of their operands.
\<close>

definition alike :: "limba_func \<Rightarrow> u64 list \<Rightarrow> limba_inst \<Rightarrow> limba_inst \<Rightarrow> bool" where
  "alike f v i j \<longleftrightarrow>
     in_op i = in_op j \<and> in_cc i = in_cc j \<and> in_type i = in_type j \<and> in_nops i = in_nops j \<and> in_imm i = in_imm j \<and> in_imm2 i = in_imm2 j \<and>
     (\<forall>k < in_nops i. v ! operand f i k = v ! operand f j k \<and> operand_type f i k = operand_type f j k)"

definition run_ok :: "(nat \<Rightarrow> u64 list \<Rightarrow> u64) \<Rightarrow> u64 \<Rightarrow> limba_func \<Rightarrow> u64 list \<Rightarrow> bool" where
  "run_ok libm nan f v \<longleftrightarrow>
     (\<forall>x < length (fn_insts f). \<forall>r. eval_inst libm nan f v (fn_insts f ! x) = Some (EV_VALUE r) \<longrightarrow> v ! x = r) \<and>
     (\<forall>x < length (fn_insts f). \<forall>y < length (fn_insts f). mergeable (fn_insts f ! x) \<and> alike f v (fn_insts f ! x) (fn_insts f ! y) \<and>
        \<not> (\<exists>r. eval_inst libm nan f v (fn_insts f ! x) = Some (EV_VALUE r)) \<longrightarrow> v ! x = v ! y)"

definition ops_ok :: "limba_func \<Rightarrow> bool" where
  "ops_ok f \<longleftrightarrow> (\<forall>x < length (fn_insts f). let i = fn_insts f ! x
     in inst_typed f i \<and> (limba_only_values i \<longrightarrow> (\<forall>k < in_nops i. operand f i k < length (fn_insts f))) \<and> (mergeable i \<longrightarrow> in_nops i \<le> 3))"

lemma key_imm_norm: "key_imm i = key_imm j \<Longrightarrow> in_op i = LIMBA_OP_ICONST \<Longrightarrow> in_op j = LIMBA_OP_ICONST \<Longrightarrow> in_type i = in_type j \<Longrightarrow>
    norm (in_imm i) (in_type i) = norm (in_imm j) (in_type j)"
proof -
  assume k: "key_imm i = key_imm j" "in_op i = LIMBA_OP_ICONST" "in_op j = LIMBA_OP_ICONST" "in_type i = in_type j"
  then have "norm (limba_int_norm (in_imm i) (in_type i)) (in_type i) = norm (limba_int_norm (in_imm j) (in_type j)) (in_type j)"
    by (simp add: key_imm_def)
  then show ?thesis by (simp only: norm_int_norm)
qed

lemma eval_alike:
  assumes k: "in_op i = in_op j" "in_cc i = in_cc j" "in_type i = in_type j" "in_nops i = in_nops j" "key_imm i = key_imm j"
    and c: "in_op i \<noteq> LIMBA_OP_CHECK" and t: "inst_typed f i"
    and v: "\<And>k. k < in_nops i \<Longrightarrow> v ! operand f i k = v ! operand f j k \<and> operand_type f i k = operand_type f j k"
  shows "eval_inst libm nan f v i = eval_inst libm nan f v j"
proof -
  have imm: "in_op i \<noteq> LIMBA_OP_ICONST \<Longrightarrow> in_imm i = in_imm j" using k(1,5) c by (simp add: key_imm_def)
  have args: "map (\<lambda>k. v ! operand f i k) [0 ..< in_nops j] = map (\<lambda>k. v ! operand f j k) [0 ..< in_nops j]" using v k(4) by simp
  show ?thesis
  proof (cases "op_format (limba_ops (in_op i))")
    case LIMBA_F_ICONST
    then have "in_op i = LIMBA_OP_ICONST" by (simp add: op_formats)
    then show ?thesis using key_imm_norm [OF k(5)] k(1,3) by (simp add: eval_inst_def Let_def)
  next
    case LIMBA_F_FCONST
    then show ?thesis using k imm by (cases "in_op i = LIMBA_OP_ICONST") (simp_all add: eval_inst_def Let_def)
  next
    case LIMBA_F_UN
    then show ?thesis using k t v [of 0] by (simp add: eval_inst_def inst_typed_def Let_def)
  next
    case LIMBA_F_BIN
    then show ?thesis using k t v [of 0] v [of 1] by (simp add: eval_inst_def inst_typed_def Let_def)
  next
    case LIMBA_F_TERN
    then show ?thesis using k t v [of 0] v [of 1] v [of 2] by (simp add: eval_inst_def inst_typed_def Let_def)
  next
    case LIMBA_F_CMP
    then show ?thesis using k t v [of 0] v [of 1] by (simp add: eval_inst_def inst_typed_def operand_type_def Let_def)
  next
    case LIMBA_F_CONV
    then show ?thesis using k t v [of 0] by (simp add: eval_inst_def inst_typed_def operand_type_def Let_def)
  next
    case LIMBA_F_CHECK
    then show ?thesis using c by (simp add: op_formats)
  next
    case LIMBA_F_CALL_RT
    then have "in_op i \<noteq> LIMBA_OP_ICONST" by auto
    then show ?thesis using LIMBA_F_CALL_RT imm by (simp add: eval_inst_def Let_def k args)
  qed (use k in \<open>simp_all add: eval_inst_def Let_def\<close>)
qed

lemma pure_commutative:
  assumes "mergeable i" "commutative (in_op i)"
  shows "in_op i \<in> {LIMBA_OP_ADD, LIMBA_OP_MUL, LIMBA_OP_AND, LIMBA_OP_OR, LIMBA_OP_XOR}"
  using assms by (cases "in_op i") (simp_all add: mergeable_def commutative_def)

lemma int_bin_swap:
  assumes "oper \<in> {LIMBA_OP_ADD, LIMBA_OP_MUL, LIMBA_OP_AND, LIMBA_OP_OR, LIMBA_OP_XOR}"
  shows "int_bin oper t a b = int_bin oper t b a" "\<exists>r. int_bin oper t a b = EV_VALUE r"
  using assms
  by (elim insertE emptyE; simp add: int_bin_def Let_def add.commute mult.commute and.commute or.commute xor.commute)+

lemma eval_swapped:
  assumes k: "in_op i = in_op j" "in_type i = in_type j" and m: "mergeable i" "commutative (in_op i)" and t: "inst_typed f i"
    and v: "v ! operand f i 0 = v ! operand f j 1" "v ! operand f i 1 = v ! operand f j 0"
  shows "\<exists>r. eval_inst libm nan f v i = Some (EV_VALUE r) \<and> eval_inst libm nan f v j = Some (EV_VALUE r)"
proof -
  note o = pure_commutative [OF m]
  then have fmt: "op_format (limba_ops (in_op i)) = LIMBA_F_BIN" "\<not> float_bin (in_op i)" by (auto simp: float_bin_def)
  then have "limba_type_is_int (in_type i)" using t by (simp add: inst_typed_def Let_def)
  then have "\<not> limba_type_is_float (in_type i)" by (auto simp: limba_type_is_int_def limba_type_is_float_def)
  then have "eval_inst libm nan f v i = Some (int_bin (in_op i) (in_type i) (v ! operand f i 0) (v ! operand f i 1))"
      "eval_inst libm nan f v j = Some (int_bin (in_op i) (in_type i) (v ! operand f j 0) (v ! operand f j 1))"
    using fmt(1) by (simp_all add: eval_inst_def Let_def k [symmetric])
  then show ?thesis using int_bin_swap [OF o] v by metis
qed

lemma same_value:
  assumes env: "env_ok f e v {0 ..< length (fn_insts f)}" and ops: "ops_ok f" and run: "run_ok libm nan f v"
    and x: "x < length (fn_insts f)" "y < length (fn_insts f)" and key: "same_key f e (fn_insts f ! y) (fn_insts f ! x)"
    and m: "mergeable (fn_insts f ! x)" "in_op (fn_insts f ! x) \<noteq> LIMBA_OP_CHECK" "limba_only_values (fn_insts f ! x)"
  shows "v ! x = v ! y" "value_type f x = value_type f y"
proof -
  let ?i = "fn_insts f ! y" and ?j = "fn_insts f ! x"
  have k: "in_op ?i = in_op ?j" "in_cc ?i = in_cc ?j" "in_type ?i = in_type ?j" "in_nops ?i = in_nops ?j" "key_imm ?i = key_imm ?j"
      "in_imm2 ?i = in_imm2 ?j"
    using key by (simp_all add: same_key_def)
  show "value_type f x = value_type f y" using k(3) by (simp add: value_type_def)
  have mi: "mergeable ?i" "limba_only_values ?i" using m k by (simp_all add: mergeable_def limba_only_values_def)
  have typed: "inst_typed f ?i" and small: "in_nops ?i \<le> 3"
    using ops x mi by (auto simp: ops_ok_def Let_def)
  have lt: "operand f ?i k < length (fn_insts f)" "operand f ?j k < length (fn_insts f)" if "k < in_nops ?i" for k
    using ops x that k(4) m(3) mi(2) by (auto simp: ops_ok_def Let_def)
  have root: "v ! edit_value e p = v ! p \<and> value_type f (edit_value e p) = value_type f p" if "p < length (fn_insts f)" for p
    using env_value [OF env, of p] that by (simp add: value_ok_def)
  have ty: "operand_type f i k = value_type f (operand f i k)" for i k by (simp add: operand_type_def value_type_def)
  show "v ! x = v ! y"
    using same_key_ops [OF key small]
  proof
    assume r: "root_ops f e ?i = root_ops f e ?j"
    have eq: "v ! operand f ?i k = v ! operand f ?j k \<and> operand_type f ?i k = operand_type f ?j k" if kk: "k < in_nops ?i" for k
    proof -
      have "root_ops f e ?i ! k = root_ops f e ?j ! k" using r by simp
      then have "edit_value e (operand f ?i k) = edit_value e (operand f ?j k)" using kk k(4) by (simp add: root_ops_def)
      then show ?thesis using root [OF lt(1) [OF kk]] root [OF lt(2) [OF kk]] ty by metis
    qed
    note ev = eval_alike [OF k(1-5) _ typed eq, of libm nan]
    show ?thesis
    proof (cases "\<exists>r. eval_inst libm nan f v ?i = Some (EV_VALUE r)")
      case True
      then show ?thesis using run x ev m(2) k(1) by (auto simp: run_ok_def)
    next
      case False
      have "in_op ?i \<noteq> LIMBA_OP_ICONST" using False by (auto simp: eval_inst_def Let_def)
      then have "in_imm ?i = in_imm ?j" using k(1,5) m(2) by (simp add: key_imm_def)
      then have "alike f v ?i ?j" using k eq by (simp add: alike_def)
      then have "v ! y = v ! x" using run x mi(1) False unfolding run_ok_def by blast
      then show ?thesis by simp
    qed
  next
    assume s: "in_nops ?i = 2 \<and> commutative (in_op ?i) \<and> edit_value e (operand f ?i 0) = edit_value e (operand f ?j 1) \<and>
      edit_value e (operand f ?i 1) = edit_value e (operand f ?j 0)"
    then have "v ! operand f ?i 0 = v ! operand f ?j 1" "v ! operand f ?i 1 = v ! operand f ?j 0"
      using root lt by (metis one_less_numeral_iff semiring_norm(76) zero_less_numeral)+
    then show ?thesis using eval_swapped [OF k(1,3) mi(1) _ typed, of v libm nan] s run x by (auto simp: run_ok_def)
  qed
qed

section \<open>What is there earlier\<close>

text \<open>
  Each instruction of a placed function is in one block, once, and names it. A value is there earlier than
  an instruction when it is before it in its block or in another block that dominates it.
\<close>

definition placed :: "limba_func \<Rightarrow> bool" where
  "placed f \<longleftrightarrow> (\<forall>b < length (fn_blocks f). distinct (bl_insts (fn_blocks f ! b)) \<and>
     (\<forall>x \<in> set (bl_insts (fn_blocks f ! b)). x < length (fn_insts f) \<and> in_block (fn_insts f ! x) = b))"

definition earlier :: "limba_func \<Rightarrow> limba_cfg \<Rightarrow> nat \<Rightarrow> nat \<Rightarrow> bool" where
  "earlier f c y x \<longleftrightarrow>
     (let by = in_block (fn_insts f ! y); bx = in_block (fn_insts f ! x)
      in y < length (fn_insts f) \<and> x < length (fn_insts f) \<and>
         (if by = bx then before f bx y x else dominates (succ_row c) by bx))"

definition runs :: "limba_func \<Rightarrow> limba_cfg \<Rightarrow> nat \<Rightarrow> bool" where
  "runs f c x \<longleftrightarrow> x < length (fn_insts f) \<and> in_block (fn_insts f ! x) < length (fn_blocks f) \<and> reach (succ_row c) (in_block (fn_insts f ! x))"

lemma anc_antisym:
  assumes D: "dom_inv n R po D" and x: "known R D x" and a: "anc D x y" "anc D y x"
  shows "x = y"
proof (rule ccontr)
  assume ne: "x \<noteq> y"
  then have "x \<noteq> 0" "anc D (D ! x) y" using anc_cases [OF a(1)] by auto
  then have "po ! x < po ! y" using known_up [OF D x] anc_known [OF _ D, of "D ! x" y] by fastforce
  moreover have "known R D y" using anc_known [OF a(1) D x] by simp
  then have "po ! y \<le> po ! x" using anc_known [OF a(2) D] by simp
  ultimately show False by simp
qed

text \<open>Dominance by the tree of a graph that was built.\<close>

definition graph_ok :: "limba_func \<Rightarrow> limba_cfg \<Rightarrow> bool" where
  "graph_ok f c \<longleftrightarrow> cf_n c = length (fn_blocks f) \<and>
     (\<exists>po order. numbering (cf_n c) (succ_row c) po order \<and> idom_ok (cf_n c) (succ_row c) po (cf_idom c))"

lemma graph_anc: "graph_ok f c \<Longrightarrow> reach (succ_row c) b \<Longrightarrow> anc (cf_idom c) b a \<longleftrightarrow> dominates (succ_row c) a b"
  unfolding graph_ok_def using idom_anc by blast

lemma graph_dom:
  assumes "graph_ok f c" "reach (succ_row c) b" "dominates (succ_row c) a b"
  shows "reach (succ_row c) a" "a < length (fn_blocks f)" "dominates (succ_row c) d a \<Longrightarrow> dominates (succ_row c) d b"
    "dominates (succ_row c) b a \<Longrightarrow> a = b"
proof -
  obtain po order where g: "numbering (cf_n c) (succ_row c) po order" "idom_ok (cf_n c) (succ_row c) po (cf_idom c)" "cf_n c = length (fn_blocks f)"
    using assms(1) by (auto simp: graph_ok_def)
  note anc = graph_anc [OF assms(1)]
  have D: "dom_inv (cf_n c) (succ_row c) po (cf_idom c)" and k: "known (succ_row c) (cf_idom c) b"
    using g(2) assms(2) by (simp_all add: idom_ok_def)
  have ab: "anc (cf_idom c) b a" using anc [OF assms(2)] assms(3) by simp
  show r: "reach (succ_row c) a" using anc_known [OF ab D k] by (simp add: known_def)
  then show "a < length (fn_blocks f)" using g(1,3) by (simp add: numbering_def)
  show "dominates (succ_row c) d b" if "dominates (succ_row c) d a"
    using anc_trans [OF ab] anc [OF r, of d] anc [OF assms(2), of d] that by blast
  show "a = b" if "dominates (succ_row c) b a"
    using anc_antisym [OF D k ab] anc [OF r, of b] that by simp
qed

lemma before_trans:
  assumes "placed f" "b < length (fn_blocks f)" "before f b z y" "before f b y x"
  shows "before f b z x"
proof -
  let ?l = "bl_insts (fn_blocks f ! b)"
  obtain i j where ij: "i < j" "j < length ?l" "?l ! i = z" "?l ! j = y" using assms(3) by (auto simp: before_def)
  obtain i' j' where ij': "i' < j'" "j' < length ?l" "?l ! i' = y" "?l ! j' = x" using assms(4) by (auto simp: before_def)
  have "distinct ?l" using assms(1,2) by (simp add: placed_def)
  then have "j = i'" using ij ij' nth_eq_iff_index_eq [of ?l j i'] by simp
  then show ?thesis unfolding before_def using ij ij' by (intro exI [of _ i] exI [of _ j']) simp
qed

lemma before_irrefl: "placed f \<Longrightarrow> b < length (fn_blocks f) \<Longrightarrow> \<not> before f b x x"
  by (auto simp: before_def placed_def nth_eq_iff_index_eq)

lemma earlier_runs:
  assumes "graph_ok f c" "runs f c x" "earlier f c y x"
  shows "runs f c y"
proof (cases "in_block (fn_insts f ! y) = in_block (fn_insts f ! x)")
  case True
  then show ?thesis using assms(2,3) by (simp add: runs_def earlier_def Let_def)
next
  case False
  then have "dominates (succ_row c) (in_block (fn_insts f ! y)) (in_block (fn_insts f ! x))" "y < length (fn_insts f)"
    using assms(3) by (simp_all add: earlier_def Let_def)
  moreover have "reach (succ_row c) (in_block (fn_insts f ! x))" using assms(2) by (simp add: runs_def)
  ultimately show ?thesis using graph_dom(1,2) [OF assms(1)] by (simp add: runs_def)
qed

lemma earlier_irrefl: "placed f \<Longrightarrow> runs f c x \<Longrightarrow> \<not> earlier f c x x"
  using before_irrefl by (simp add: earlier_def runs_def)

lemma earlier_trans:
  assumes g: "graph_ok f c" and p: "placed f" and x: "runs f c x" and e: "earlier f c z y" "earlier f c y x"
  shows "earlier f c z x"
proof -
  let ?b = "\<lambda>x. in_block (fn_insts f ! x)"
  have y: "runs f c y" by (rule earlier_runs [OF g x e(2)])
  have bx: "?b x < length (fn_blocks f)" "reach (succ_row c) (?b x)" "reach (succ_row c) (?b y)" using x y by (simp_all add: runs_def)
  have lt: "z < length (fn_insts f)" "x < length (fn_insts f)" using e by (simp_all add: earlier_def Let_def)
  have zy: "if ?b z = ?b y then before f (?b y) z y else dominates (succ_row c) (?b z) (?b y)"
    and yx: "if ?b y = ?b x then before f (?b x) y x else dominates (succ_row c) (?b y) (?b x)"
    using e by (simp_all add: earlier_def Let_def)
  consider "?b z = ?b y" "?b y = ?b x" | "?b z = ?b y" "?b y \<noteq> ?b x" | "?b z \<noteq> ?b y" "?b y = ?b x" | "?b z \<noteq> ?b y" "?b y \<noteq> ?b x" by blast
  then show ?thesis
  proof cases
    case 1
    then show ?thesis using before_trans [OF p bx(1)] zy yx lt by (simp add: earlier_def Let_def)
  next
    case 4
    then have d: "dominates (succ_row c) (?b z) (?b y)" "dominates (succ_row c) (?b y) (?b x)" using zy yx by simp_all
    have "?b z \<noteq> ?b x" using graph_dom(4) [OF g bx(2) d(2)] d(1) 4(2) by metis
    then show ?thesis using graph_dom(3) [OF g bx(2) d(2) d(1)] lt by (simp add: earlier_def Let_def)
  qed (use zy yx lt in \<open>simp_all add: earlier_def Let_def\<close>)
qed

section \<open>The table\<close>

text \<open>The chain of a bucket: the last entry of it among the first \<open>m\<close>.\<close>

fun last_in :: "gentry list \<Rightarrow> nat \<Rightarrow> nat \<Rightarrow> nat" where
  "last_in ents 0 q = LIMBA_NONE"
| "last_in ents (Suc m) q = (if ge_bucket (ents ! m) = q then m else last_in ents m q)"

definition table_ok :: "gctx \<Rightarrow> bool" where
  "table_ok c \<longleftrightarrow>
     (\<forall>q < length (gc_heads c). gc_heads c ! q = last_in (gc_ents c) (length (gc_ents c)) q) \<and>
     (\<forall>k < length (gc_ents c). ge_bucket (gc_ents c ! k) < length (gc_heads c) \<and>
        ge_next (gc_ents c ! k) = last_in (gc_ents c) k (ge_bucket (gc_ents c ! k))) \<and>
     (\<forall>h. unat (h AND gc_mask c) < length (gc_heads c))"

definition ids :: "gctx \<Rightarrow> nat set" where
  "ids c = ge_id ` set (gc_ents c)"

lemma last_in_less: "last_in ents m q < m \<or> last_in ents m q = LIMBA_NONE"
  by (induction m) (auto simp: less_Suc_eq)

lemma last_in_append: "m \<le> length ents \<Longrightarrow> last_in (ents @ es) m q = last_in ents m q"
  by (induction m) (auto simp: nth_append)

lemma last_in_take: "m \<le> k \<Longrightarrow> last_in (take k ents) m q = last_in ents m q"
  by (induction m) auto

lemma find_same_spec:
  assumes tab: "table_ok c" and len: "length (gc_ents c) < LIMBA_NONE" and e: "edit_ok e" and k: "k < length (gc_ents c) \<or> k = LIMBA_NONE"
  shows "\<exists>e' r. find_same f e (gc_ents c) i k = Some (e', r) \<and> same_edit e e' \<and>
    (case r of None \<Rightarrow> True | Some y \<Rightarrow> y \<in> ids c \<and> same_key f e (fn_insts f ! y) i)"
  using e k
proof (induction k arbitrary: e rule: less_induct)
  case (less k)
  show ?case
  proof (cases "k = LIMBA_NONE")
    case True
    then show ?thesis using same_edit_refl [OF less.prems(1)] by (subst find_same.simps) simp
  next
    case False
    then have kl: "k < length (gc_ents c)" using less.prems(2) by simp
    let ?y = "ge_id (gc_ents c ! k)" and ?next = "ge_next (gc_ents c ! k)"
    obtain e1 where e1: "same f e (fn_insts f ! ?y) i = Some (e1, same_key f e (fn_insts f ! ?y) i)" "same_edit e e1"
      using same_reads [OF less.prems(1), of f "fn_insts f ! ?y" i] by (auto simp: reads_def)
    show ?thesis
    proof (cases "same_key f e (fn_insts f ! ?y) i")
      case True
      then show ?thesis using False e1 kl by (subst find_same.simps) (auto simp: ids_def)
    next
      case no: False
      have ok: "edit_ok e1" using e1(2) by (simp add: same_edit_def)
      have "?next < k \<or> ?next = LIMBA_NONE" using tab kl last_in_less [of "gc_ents c" k] by (simp add: table_ok_def)
      then have "\<exists>e' r. find_same f e1 (gc_ents c) i ?next = Some (e', r) \<and> same_edit e1 e' \<and>
          (case r of None \<Rightarrow> True | Some y \<Rightarrow> y \<in> ids c \<and> same_key f e1 (fn_insts f ! y) i)"
      proof
        assume "?next < k"
        then show ?thesis using less.IH ok kl by auto
      next
        assume "?next = LIMBA_NONE"
        then show ?thesis using same_edit_refl [OF ok] by (subst find_same.simps) simp
      qed
      then obtain e' r where r: "find_same f e1 (gc_ents c) i ?next = Some (e', r)" "same_edit e1 e'"
          "case r of None \<Rightarrow> True | Some y \<Rightarrow> y \<in> ids c \<and> same_key f e1 (fn_insts f ! y) i" by blast
      then show ?thesis
        using False no e1 same_edit_trans [OF e1(2) r(2)] key_ops_same(2) [OF e1(2)]
        by (subst find_same.simps) (cases r; simp)
    qed
  qed
qed

lemma table_add:
  assumes tab: "table_ok c" and q: "q < length (gc_heads c)"
  shows "table_ok (c\<lparr>gc_e := e, gc_ents := gc_ents c @ [\<lparr>ge_id = x, ge_next = gc_heads c ! q, ge_bucket = q\<rparr>],
    gc_heads := (gc_heads c)[q := length (gc_ents c)]\<rparr>)"
  using assms by (auto simp: table_ok_def nth_append last_in_append nth_list_update less_Suc_eq)

lemma table_same [simp]:
  "table_ok (c\<lparr>gc_e := e\<rparr>) = table_ok c" "table_ok (c\<lparr>gc_f := f\<rparr>) = table_ok c"
  "ids (c\<lparr>gc_e := e\<rparr>) = ids c" "ids (c\<lparr>gc_f := f\<rparr>) = ids c"
  by (simp_all add: table_ok_def ids_def)

lemma lookup_spec:
  assumes tab: "table_ok c" and len: "length (gc_ents c) < LIMBA_NONE" and e: "edit_ok (gc_e c)"
  shows "\<exists>c' y. lookup_or_add c x = Some (c', y) \<and> table_ok c' \<and> same_edit (gc_e c) (gc_e c') \<and> gc_f c' = gc_f c \<and> gc_fold c' = gc_fold c \<and>
    (gc_ents c' = gc_ents c \<and> y \<in> ids c \<and> same_key (gc_f c) (gc_e c) (fn_insts (gc_f c) ! y) (fn_insts (gc_f c) ! x) \<or>
     y = x \<and> (\<exists>en. gc_ents c' = gc_ents c @ [en] \<and> ge_id en = x))"
proof -
  let ?f = "gc_f c" and ?i = "fn_insts (gc_f c) ! x"
  obtain e1 h where h: "hash ?f (gc_e c) ?i = Some (e1, h)" "same_edit (gc_e c) e1"
    using hash_reads [OF e, of ?f ?i] by (auto simp: reads_def)
  define q where "q = unat ((ucast h :: u32) AND gc_mask c)"
  have q: "q < length (gc_heads c)" using tab by (simp add: table_ok_def q_def)
  have head: "gc_heads c ! q < length (gc_ents c) \<or> gc_heads c ! q = LIMBA_NONE"
    using tab q last_in_less [of "gc_ents c" "length (gc_ents c)" q] by (simp add: table_ok_def)
  have e1: "edit_ok e1" using h(2) by (simp add: same_edit_def)
  obtain e2 r where r: "find_same ?f e1 (gc_ents c) ?i (gc_heads c ! q) = Some (e2, r)" "same_edit e1 e2"
      "case r of None \<Rightarrow> True | Some y \<Rightarrow> y \<in> ids c \<and> same_key ?f e1 (fn_insts ?f ! y) ?i"
    using find_same_spec [OF tab len e1 head] by blast
  have s: "same_edit (gc_e c) e2" by (rule same_edit_trans [OF h(2) r(2)])
  show ?thesis
  proof (cases r)
    case None
    then show ?thesis using h(1) r(1) s table_add [OF tab q] by (simp add: lookup_or_add_def Let_def q_def [symmetric])
  next
    case (Some y)
    then show ?thesis using h r(1,3) s tab key_ops_same(2) [OF h(2)] by (simp add: lookup_or_add_def Let_def q_def [symmetric])
  qed
qed

text \<open>Dropping the last entries gives the table back as it was.\<close>

lemma table_drop:
  assumes "table_ok c" "gc_ents c \<noteq> []"
  shows "table_ok (c\<lparr>gc_ents := butlast (gc_ents c), gc_heads := (gc_heads c)[ge_bucket (last (gc_ents c)) := ge_next (last (gc_ents c))]\<rparr>)"
proof -
  obtain es en where es: "gc_ents c = es @ [en]" using assms(2) by (cases "gc_ents c" rule: rev_cases) auto
  have heads: "\<forall>q < length (gc_heads c). gc_heads c ! q = last_in (es @ [en]) (Suc (length es)) q"
    using assms(1) es by (simp add: table_ok_def)
  have ents: "ge_bucket ((es @ [en]) ! k) < length (gc_heads c) \<and> ge_next ((es @ [en]) ! k) = last_in (es @ [en]) k (ge_bucket ((es @ [en]) ! k))"
    if "k < Suc (length es)" for k
    using assms(1) es that by (simp add: table_ok_def)
  have "ge_bucket en < length (gc_heads c)" "ge_next en = last_in es (length es) (ge_bucket en)"
    using ents [of "length es"] by (simp_all add: last_in_append)
  moreover have "ge_bucket (es ! k) < length (gc_heads c) \<and> ge_next (es ! k) = last_in es k (ge_bucket (es ! k))" if "k < length es" for k
    using ents [of k] that by (simp add: nth_append last_in_append)
  ultimately show ?thesis
    using assms(1) heads unfolding table_ok_def es by (auto simp: nth_list_update last_in_append)
qed

lemma drop_entries_spec:
  assumes "table_ok c" "mark \<le> length (gc_ents c)"
  shows "table_ok (drop_entries mark c) \<and> gc_ents (drop_entries mark c) = take mark (gc_ents c) \<and>
    gc_f (drop_entries mark c) = gc_f c \<and> gc_e (drop_entries mark c) = gc_e c \<and> gc_fold (drop_entries mark c) = gc_fold c"
  using assms
proof (induction mark c rule: drop_entries.induct)
  case (1 mark c)
  show ?case
  proof (cases "length (gc_ents c) > mark")
    case True
    let ?c = "c\<lparr>gc_ents := butlast (gc_ents c), gc_heads := (gc_heads c)[ge_bucket (last (gc_ents c)) := ge_next (last (gc_ents c))]\<rparr>"
    have "gc_ents c \<noteq> []" using True by auto
    then have "table_ok ?c" using table_drop [OF 1(2)] by simp
    moreover have "drop_entries mark c = drop_entries mark ?c" using True by (subst drop_entries.simps) (simp add: Let_def)
    ultimately show ?thesis using 1(1) [OF True refl] True by (simp add: butlast_conv_take)
  next
    case False
    then have "drop_entries mark c = c" by (subst drop_entries.simps) simp
    then show ?thesis using 1(2,3) False by simp
  qed
qed

section \<open>What the pass keeps\<close>

text \<open>
  The function under edit agrees with the values \<open>v\<close> of a run; each value that runs stands for itself or for
  one that is there earlier, and uses what is there earlier; and what was not dead in the edit \<open>e0\<close> of the
  start and is now is either replaced or a check that cannot fail after those that stay.
\<close>

definition moves_up :: "limba_func \<Rightarrow> limba_cfg \<Rightarrow> limba_edit \<Rightarrow> bool" where
  "moves_up f c e \<longleftrightarrow> (\<forall>x. runs f c x \<longrightarrow> edit_value e x = x \<or> earlier f c (edit_value e x) x)"

definition uses_up :: "limba_func \<Rightarrow> limba_cfg \<Rightarrow> limba_edit \<Rightarrow> bool" where
  "uses_up f c e \<longleftrightarrow> (\<forall>x. runs f c x \<and> \<not> ed_dead e ! x \<and> limba_only_values (fn_insts f ! x) \<longrightarrow>
     (\<forall>k < in_nops (fn_insts f ! x). earlier f c (operand f (fn_insts f ! x) k) x))"

definition check_cond :: "limba_func \<Rightarrow> u64 list \<Rightarrow> nat \<Rightarrow> u64" where
  "check_cond f v x = v ! operand f (fn_insts f ! x) 0"

definition check_kept :: "limba_func \<Rightarrow> limba_cfg \<Rightarrow> u64 list \<Rightarrow> limba_edit \<Rightarrow> nat \<Rightarrow> bool" where
  "check_kept f c v e0 x \<longleftrightarrow> in_op (fn_insts f ! x) = LIMBA_OP_CHECK \<and>
     (check_cond f v x \<noteq> 0 \<or>
      (\<exists>y. earlier f c y x \<and> \<not> ed_dead e0 ! y \<and> in_op (fn_insts f ! y) = LIMBA_OP_CHECK \<and> check_cond f v y = check_cond f v x))"

definition drops_ok :: "limba_func \<Rightarrow> limba_cfg \<Rightarrow> u64 list \<Rightarrow> limba_edit \<Rightarrow> limba_edit \<Rightarrow> bool" where
  "drops_ok f c v e0 e \<longleftrightarrow>
     (\<forall>x < length (fn_insts f). (ed_dead e0 ! x \<longrightarrow> ed_dead e ! x) \<and>
        (ed_dead e ! x \<and> \<not> ed_dead e0 ! x \<longrightarrow>
           (if in_op (fn_insts f ! x) = LIMBA_OP_CHECK then check_kept f c v e0 x else edit_value e x \<noteq> x)))"

abbreviation (input) everywhere :: "limba_func \<Rightarrow> nat set" where
  "everywhere f \<equiv> {0 ..< length (fn_insts f)}"

definition gvn_ok :: "(nat \<Rightarrow> u64 list \<Rightarrow> u64) \<Rightarrow> u64 \<Rightarrow> limba_cfg \<Rightarrow> u64 list \<Rightarrow> limba_edit \<Rightarrow> limba_func \<Rightarrow> limba_edit \<Rightarrow> bool" where
  "gvn_ok libm nan c v e0 f e \<longleftrightarrow>
     graph_ok f c \<and> placed f \<and> env_ok f e v (everywhere f) \<and> ops_ok f \<and> run_ok libm nan f v \<and> moves_up f c e \<and> uses_up f c e \<and>
     drops_ok f c v e0 e"

lemma gvn_okD:
  assumes "gvn_ok libm nan c v e0 f e"
  shows "graph_ok f c" "placed f" "env_ok f e v (everywhere f)" "ops_ok f" "run_ok libm nan f v" "moves_up f c e" "uses_up f c e"
    "drops_ok f c v e0 e" "edit_ok e" "ed_ninsts e = length (fn_insts f)"
  using assms by (simp_all add: gvn_ok_def env_ok_def)

lemma gvn_same: "gvn_ok libm nan c v e0 f e \<Longrightarrow> same_edit e e' \<Longrightarrow> gvn_ok libm nan c v e0 f e'"
  using env_same by (auto simp: gvn_ok_def moves_up_def uses_up_def drops_ok_def same_edit_def)

lemma kill_nth: "y < length d \<Longrightarrow> d[x := True] ! y \<longleftrightarrow> y = x \<or> d ! y"
  by (cases "y = x") simp_all

lemma uses_up_kill:
  assumes "uses_up f c e" "length (ed_dead e) = length (fn_insts f)" "ed_dead e' = (ed_dead e)[x := True]"
  shows "uses_up f c e'"
  unfolding uses_up_def
proof (intro allI impI, elim conjE)
  fix y k assume y: "runs f c y" "\<not> ed_dead e' ! y" "limba_only_values (fn_insts f ! y)" "k < in_nops (fn_insts f ! y)"
  then have "\<not> ed_dead e ! y" using assms(2,3) kill_nth [of y "ed_dead e" x] by (simp add: runs_def)
  then show "earlier f c (operand f (fn_insts f ! y) k) y" using assms(1) y by (simp add: uses_up_def)
qed

text \<open>A check that may go is marked dead.\<close>

lemma gvn_kill:
  assumes g: "gvn_ok libm nan c v e0 f e" and k: "check_kept f c v e0 x"
  shows "gvn_ok libm nan c v e0 f (e\<lparr>ed_dead := (ed_dead e)[x := True]\<rparr>)"
proof -
  note d = dead_same [OF gvn_okD(9) [OF g], of x]
  have len: "length (ed_dead e) = length (fn_insts f)" using gvn_okD(9,10) [OF g] by (simp add: edit_ok_def)
  have "env_ok f (e\<lparr>ed_dead := (ed_dead e)[x := True]\<rparr>) v (everywhere f)"
    using gvn_okD(3) [OF g] d by (simp add: env_ok_def value_ok_def)
  moreover have "drops_ok f c v e0 (e\<lparr>ed_dead := (ed_dead e)[x := True]\<rparr>)"
    using gvn_okD(8) [OF g] k d(2) len by (auto simp: drops_ok_def kill_nth check_kept_def)
  moreover have "uses_up f c (e\<lparr>ed_dead := (ed_dead e)[x := True]\<rparr>)"
    by (rule uses_up_kill [OF gvn_okD(7) [OF g] len]) simp
  ultimately show ?thesis using g d(2) by (simp add: gvn_ok_def moves_up_def)
qed

text \<open>A value is replaced by an equal one that is there earlier.\<close>

lemma env_merge:
  assumes env: "env_ok f e v A" and n: "n \<in> A" "z \<in> A" "v ! n = v ! z" "value_type f n = value_type f z"
    and e': "edit_ok e'" "ed_ninsts e' = ed_ninsts e" "\<forall>x. edit_value e' x = (if edit_value e x = n then edit_value e z else edit_value e x)"
  shows "env_ok f e' v A"
proof -
  have zz: "value_ok f e v A z" by (rule env_value [OF env n(2)])
  have "value_ok f e' v A x" if x: "x \<in> A" for x
    using env_value [OF env x] zz n(3,4) e'(3) by (auto simp: value_ok_def)
  then show ?thesis using env e'(1,2) by (simp add: env_ok_def)
qed

lemma gvn_replace:
  assumes g: "gvn_ok libm nan c v e0 f e" and x: "runs f c x" "edit_value e x = x"
    and z: "earlier f c z x" "v ! x = v ! z" "value_type f x = value_type f z" and op: "in_op (fn_insts f ! x) \<noteq> LIMBA_OP_CHECK"
  shows "\<exists>e'. limba_edit_replace e x z = Some e' \<and> gvn_ok libm nan c v e0 f e' \<and> edit_value e' x \<noteq> x \<and>
    (\<forall>y. y \<noteq> x \<longrightarrow> ed_dead e' ! y = ed_dead e ! y \<and> (edit_value e y = y \<longrightarrow> edit_value e' y = y))"
proof -
  note I = gvn_okD [OF g]
  have lt: "x < length (fn_insts f)" "z < length (fn_insts f)" using x(1) z(1) by (simp_all add: runs_def earlier_def Let_def)
  have zr: "runs f c z" by (rule earlier_runs [OF I(1) x(1) z(1)])
  have wx: "earlier f c (edit_value e z) x"
    using I(6) zr z(1) earlier_trans [OF I(1,2) x(1) _ z(1)] by (auto simp: moves_up_def)
  then have wne: "edit_value e z \<noteq> x" using earlier_irrefl [OF I(2) x(1)] by auto
  obtain e' where r: "limba_edit_replace e x z = Some e'" "edit_ok e'" "ed_ninsts e' = ed_ninsts e"
      "\<forall>y. edit_value e' y = (if edit_value e y = x then edit_value e z else edit_value e y)" "ed_dead e' = (ed_dead e)[x := True]"
    using replace_spec [OF I(9) _ x(2), of z] lt I(10) wne by auto
  have len: "length (ed_dead e) = length (fn_insts f)" using I(9,10) by (simp add: edit_ok_def)
  have env: "env_ok f e' v (everywhere f)" by (rule env_merge [OF I(3) _ _ z(2,3) r(2-4)]) (use lt in simp_all)
  have "edit_value e' y = y \<or> earlier f c (edit_value e' y) y" if y: "runs f c y" for y
  proof (cases "edit_value e y = x")
    case True
    then have "y = x \<or> earlier f c x y" using I(6) y by (auto simp: moves_up_def)
    then have "earlier f c (edit_value e z) y" using wx earlier_trans [OF I(1,2) y wx] by auto
    then show ?thesis using True r(4) by simp
  next
    case False
    then show ?thesis using I(6) y r(4) by (simp add: moves_up_def)
  qed
  then have up: "moves_up f c e'" by (simp add: moves_up_def)
  have uses: "uses_up f c e'" by (rule uses_up_kill [OF I(7) len r(5)])
  have gone: "edit_value e' x \<noteq> x" using r(4) x(2) wne by simp
  have still: "edit_value e' y \<noteq> y" if "edit_value e y \<noteq> y" for y
  proof
    assume eq: "edit_value e' y = y"
    show False
    proof (cases "edit_value e y = x")
      case True
      then have "edit_value e z = y" using eq r(4) by simp
      then show False using edit_value_idem [OF I(9), of z] that by simp
    next
      case False
      then show False using eq r(4) that by simp
    qed
  qed
  have "drops_ok f c v e0 e'"
    using I(8) still gone r(5) len op by (auto simp: drops_ok_def kill_nth)
  then have "gvn_ok libm nan c v e0 f e'" using I env up uses by (simp add: gvn_ok_def)
  then show ?thesis using r gone by (intro exI [of _ e']) simp
qed

text \<open>A constant with the value takes the place of an instruction. What the rest says of it, its type and its block, stays.\<close>

lemma in_place_facts:
  assumes "const_in_place i j"
  shows "in_type j = in_type i" "in_block j = in_block i" "in_nops j = 0" "in_op j = LIMBA_OP_ICONST \<or> in_op j = LIMBA_OP_FCONST"
  using assms by (auto simp: const_in_place_def limba_inst_set_iconst_def limba_inst_set_fconst_def)

lemma const_eval:
  "in_op j = LIMBA_OP_ICONST \<or> in_op j = LIMBA_OP_FCONST \<Longrightarrow> eval_inst libm nan f v j = Some (EV_VALUE r) \<longleftrightarrow> const_value j = Some r"
  by (auto simp: eval_inst_def const_value_def Let_def)

lemma const_has_value: "in_op j = LIMBA_OP_ICONST \<or> in_op j = LIMBA_OP_FCONST \<Longrightarrow> \<exists>r. eval_inst libm nan f v j = Some (EV_VALUE r)"
  by (auto simp: eval_inst_def Let_def)

definition put_inst :: "limba_func \<Rightarrow> nat \<Rightarrow> limba_inst \<Rightarrow> limba_func" where
  "put_inst f x j = f\<lparr>fn_insts := (fn_insts f)[x := j]\<rparr>"

lemma put_fields [simp]:
  "fn_blocks (put_inst f x j) = fn_blocks f" "length (fn_insts (put_inst f x j)) = length (fn_insts f)"
  "operand (put_inst f x j) i k = operand f i k" "y \<noteq> x \<Longrightarrow> fn_insts (put_inst f x j) ! y = fn_insts f ! y"
  "x < length (fn_insts f) \<Longrightarrow> fn_insts (put_inst f x j) ! x = j"
  by (simp_all add: put_inst_def operand_def)

lemma put_same:
  assumes "x < length (fn_insts f)" "in_type j = in_type (fn_insts f ! x)" "in_block j = in_block (fn_insts f ! x)"
  shows "in_type (fn_insts (put_inst f x j) ! p) = in_type (fn_insts f ! p)" "in_block (fn_insts (put_inst f x j) ! p) = in_block (fn_insts f ! p)"
    "operand_type (put_inst f x j) i k = operand_type f i k" "eval_inst libm nan (put_inst f x j) v i = eval_inst libm nan f v i"
    "inst_typed (put_inst f x j) i = inst_typed f i" "earlier (put_inst f x j) c y z = earlier f c y z" "runs (put_inst f x j) c y = runs f c y"
    "placed (put_inst f x j) = placed f" "graph_ok (put_inst f x j) c = graph_ok f c" "alike (put_inst f x j) v i i' = alike f v i i'"
proof -
  show ty: "in_type (fn_insts (put_inst f x j) ! p) = in_type (fn_insts f ! p)" for p
    using assms(1,2) by (cases "p = x") simp_all
  show bl: "in_block (fn_insts (put_inst f x j) ! p) = in_block (fn_insts f ! p)" for p
    using assms(1,3) by (cases "p = x") simp_all
  show op: "operand_type (put_inst f x j) i k = operand_type f i k" for i k by (simp add: operand_type_def ty)
  show "eval_inst libm nan (put_inst f x j) v i = eval_inst libm nan f v i"
    unfolding eval_inst_def put_fields ty by (rule refl)
  have "operand_type (put_inst f x j) i = operand_type f i" by (simp add: op fun_eq_iff)
  then show "inst_typed (put_inst f x j) i = inst_typed f i" by (simp add: inst_typed_def)
  show "earlier (put_inst f x j) c y z = earlier f c y z" by (simp add: earlier_def bl before_def)
  show "runs (put_inst f x j) c y = runs f c y" by (simp add: runs_def bl)
  show "placed (put_inst f x j) = placed f" by (simp add: placed_def bl)
  show "graph_ok (put_inst f x j) c = graph_ok f c" by (simp add: graph_ok_def)
  show "alike (put_inst f x j) v i i' = alike f v i i'" by (simp add: alike_def op)
qed

lemma const_ops_ok: "const_typed j \<Longrightarrow> in_op j = LIMBA_OP_ICONST \<or> in_op j = LIMBA_OP_FCONST \<Longrightarrow> inst_typed f j"
  by (auto simp: const_typed_def inst_typed_def Let_def)

lemma run_ok_put:
  assumes run: "run_ok libm nan f v" and x: "x < length (fn_insts f)"
    and j: "in_type j = in_type (fn_insts f ! x)" "in_block j = in_block (fn_insts f ! x)" "in_op j = LIMBA_OP_ICONST \<or> in_op j = LIMBA_OP_FCONST"
      "const_value j = Some (v ! x)"
  shows "run_ok libm nan (put_inst f x j) v"
proof -
  let ?f = "put_inst f x j"
  note same = put_same [OF x j(1,2)]
  have "v ! y = r" if "y < length (fn_insts f)" "eval_inst libm nan f v (fn_insts ?f ! y) = Some (EV_VALUE r)" for y r
    using that run const_eval [OF j(3), of libm nan f v r] j(4) x by (cases "y = x") (auto simp: run_ok_def)
  moreover have "v ! y = v ! z"
    if yz: "y < length (fn_insts f)" "z < length (fn_insts f)" "mergeable (fn_insts ?f ! y)" "alike f v (fn_insts ?f ! y) (fn_insts ?f ! z)"
      and no: "\<not> (\<exists>r. eval_inst libm nan f v (fn_insts ?f ! y) = Some (EV_VALUE r))" for y z
  proof -
    have "y \<noteq> x" using no const_has_value [OF j(3), of libm nan f v] x by (cases "y = x") auto
    moreover have "z \<noteq> x"
    proof
      assume "z = x"
      then have "in_op (fn_insts ?f ! y) = in_op j" using yz(4) x by (simp add: alike_def)
      then show False using no const_has_value [of "fn_insts ?f ! y" libm nan f v] j(3) by auto
    qed
    ultimately show ?thesis using run yz no by (auto simp: run_ok_def)
  qed
  ultimately show ?thesis unfolding run_ok_def same put_fields by blast
qed

lemma gvn_set:
  assumes g: "gvn_ok libm nan c v e0 f e" and x: "x < length (fn_insts f)" "edit_value e x = x" "in_op (fn_insts f ! x) \<noteq> LIMBA_OP_CHECK"
    and j: "const_in_place (fn_insts f ! x) j" "const_value j = Some (v ! x)" "const_typed j" "canonical (in_type (fn_insts f ! x)) (v ! x)"
  shows "gvn_ok libm nan c v e0 (put_inst f x j) e"
proof -
  note I = gvn_okD [OF g] and J = in_place_facts [OF j(1)]
  note same = put_same [OF x(1) J(1,2)]
  have env: "env_ok (put_inst f x j) e v (everywhere f)"
    using env_set [OF I(3) x(1,2) j(2) _ j(3)] J(1) j(4) x(1) by (simp add: value_type_def put_inst_def insert_absorb)
  have ops: "ops_ok (put_inst f x j)"
    unfolding ops_ok_def Let_def same put_fields
  proof (intro allI impI)
    fix y assume y: "y < length (fn_insts f)"
    show "inst_typed f (fn_insts (put_inst f x j) ! y) \<and>
        (limba_only_values (fn_insts (put_inst f x j) ! y) \<longrightarrow> (\<forall>k < in_nops (fn_insts (put_inst f x j) ! y). operand f (fn_insts (put_inst f x j) ! y) k < length (fn_insts f))) \<and>
        (mergeable (fn_insts (put_inst f x j) ! y) \<longrightarrow> in_nops (fn_insts (put_inst f x j) ! y) \<le> 3)"
      using I(4) y x(1) J(3) const_ops_ok [OF j(3) J(4)] by (cases "y = x") (simp_all add: ops_ok_def Let_def)
  qed
  have kept: "check_kept (put_inst f x j) c v e0 y" if "check_kept f c v e0 y" for y
  proof -
    have ne: "z \<noteq> x" if "in_op (fn_insts f ! z) = LIMBA_OP_CHECK" for z using that x(3) by auto
    have "check_cond (put_inst f x j) v z = check_cond f v z" if "in_op (fn_insts f ! z) = LIMBA_OP_CHECK" for z
      using ne [OF that] by (simp add: check_cond_def)
    then show ?thesis using that ne unfolding check_kept_def same by (metis put_fields(4))
  qed
  have "(in_op (fn_insts (put_inst f x j) ! y) = LIMBA_OP_CHECK) = (in_op (fn_insts f ! y) = LIMBA_OP_CHECK)" for y
    using x(1,3) J(4) by (cases "y = x") auto
  then have "drops_ok (put_inst f x j) c v e0 e" using I(8) kept by (simp add: drops_ok_def)
  moreover have "uses_up (put_inst f x j) c e"
    unfolding uses_up_def same put_fields
  proof (intro allI impI, elim conjE)
    fix y k assume y: "runs f c y" "\<not> ed_dead e ! y" "limba_only_values (fn_insts (put_inst f x j) ! y)" "k < in_nops (fn_insts (put_inst f x j) ! y)"
    then have "y \<noteq> x" using J(3) x(1) by auto
    then show "earlier f c (operand f (fn_insts (put_inst f x j) ! y) k) y" using I(7) y by (simp add: uses_up_def)
  qed
  moreover have "run_ok libm nan (put_inst f x j) v" by (rule run_ok_put [OF I(5) x(1) J(1,2,4) j(2)])
  ultimately show ?thesis using I env ops unfolding gvn_ok_def same moves_up_def put_fields by simp
qed

section \<open>One instruction\<close>

text \<open>What a step at instruction \<open>x\<close> leaves alone.\<close>

definition touches :: "nat \<Rightarrow> limba_func \<Rightarrow> limba_edit \<Rightarrow> limba_func \<Rightarrow> limba_edit \<Rightarrow> bool" where
  "touches x f e f' e' \<longleftrightarrow>
     fn_blocks f' = fn_blocks f \<and> length (fn_insts f') = length (fn_insts f) \<and>
     (\<forall>p. in_block (fn_insts f' ! p) = in_block (fn_insts f ! p)) \<and>
     (\<forall>y. y \<noteq> x \<longrightarrow> ed_dead e' ! y = ed_dead e ! y \<and> (edit_value e y = y \<longrightarrow> edit_value e' y = y))"

lemma touches_trans: "touches x f e g h \<Longrightarrow> touches x g h k l \<Longrightarrow> touches x f e k l"
  by (simp add: touches_def)

lemma touches_same: "same_edit e e' \<Longrightarrow> touches x f e f e'"
  by (simp add: touches_def same_edit_def)

lemma touches_kill: "edit_ok e \<Longrightarrow> touches x f e f (e\<lparr>ed_dead := (ed_dead e)[x := True]\<rparr>)"
  using dead_same(2) [of e x] by (simp add: touches_def)

lemma touches_order:
  assumes "touches x f e f' e'"
  shows "earlier f' c = earlier f c" "runs f' c = runs f c"
  using assms by (simp_all add: fun_eq_iff touches_def earlier_def runs_def before_def)

lemma map_root: "edit_ok e \<Longrightarrow> x < ed_ninsts e \<Longrightarrow> ed_map e ! x = x \<longleftrightarrow> edit_value e x = x"
  using root_end [OF edit_root [of e x]] edit_value_root [of e x x] root.stop by metis

lemma alive_root: "edit_ok e \<Longrightarrow> x < ed_ninsts e \<Longrightarrow> \<not> ed_dead e ! x \<Longrightarrow> edit_value e x = x"
  using map_root [of e x] by (auto simp: edit_ok_def)

lemma env_earlier:
  assumes g: "gvn_ok libm nan c v e0 f e" and x: "runs f c x"
  shows "env_ok f e v {y. earlier f c y x}"
proof -
  note I = gvn_okD [OF g]
  have "value_ok f e v {y. earlier f c y x} y" if y: "earlier f c y x" for y
  proof -
    have "runs f c y" by (rule earlier_runs [OF I(1) x y])
    then have "earlier f c (edit_value e y) x" using I(6) y earlier_trans [OF I(1,2) x _ y] by (auto simp: moves_up_def)
    moreover have "value_ok f e v (everywhere f) y" using env_value [OF I(3)] y by (simp add: earlier_def Let_def)
    ultimately show ?thesis by (simp add: value_ok_def)
  qed
  then show ?thesis using I(9,10) by (simp add: env_ok_def)
qed

lemma gvn_fold:
  assumes g: "gvn_ok libm nan' c v e0 f e" and x: "runs f c x" and alive: "\<not> ed_dead e ! x"
  shows "\<exists>f' e' changed. limba_fold_inst libm nan f e x = Some (f', e', changed) \<and> gvn_ok libm nan' c v e0 f' e' \<and> touches x f e f' e' \<and>
    (changed \<or> edit_value e' x = x)"
proof (cases "limba_only_values (fn_insts f ! x)")
  case False
  then have "op_format (limba_ops (in_op (fn_insts f ! x))) \<in> {LIMBA_F_BR, LIMBA_F_CBR, LIMBA_F_SWITCH}" by (simp add: limba_only_values_def)
  then have "limba_fold_inst libm nan f e x = Some (f, e, False)"
    by (auto simp: limba_fold_inst_def fold_outcome_of_def Let_def)
  moreover have "edit_value e x = x" using alive_root gvn_okD(9,10) [OF g] x alive by (simp add: runs_def)
  ultimately show ?thesis using g by (intro exI [of _ f] exI [of _ e] exI [of _ False]) (simp add: touches_def)
next
  case True
  note I = gvn_okD [OF g]
  have lt: "x < length (fn_insts f)" using x by (simp add: runs_def)
  have root: "edit_value e x = x" using alive_root I(9,10) lt alive by simp
  have env: "inst_env f e v {y. earlier f c y x} (fn_insts f ! x)"
    using env_earlier [OF g x] I(4,7) True x alive lt by (auto simp: inst_env_def ops_ok_def uses_up_def Let_def)
  have run: "\<And>r. eval_inst libm nan' f v (fn_insts f ! x) = Some (EV_VALUE r) \<Longrightarrow> v ! x = r" using I(5) lt by (simp add: run_ok_def)
  obtain f' e1 e' changed where r: "limba_fold_inst libm nan f e x = Some (f', e', changed)" "same_edit e e1"
      "if changed then eval_inst libm nan' f v (fn_insts f ! x) = Some (EV_VALUE (v ! x)) \<and> fold_kept f v {y. earlier f c y x} x e1 f' e'
       else f' = f \<and> e' = e1"
    using fold_inst_step [OF env lt root, of libm nan' nan, OF run] by blast
  have g1: "gvn_ok libm nan' c v e0 f e1" by (rule gvn_same [OF g r(2)])
  have root1: "edit_value e1 x = x" and t1: "touches x f e f e1" using root r(2) touches_same by (simp_all add: same_edit_def)
  show ?thesis
  proof (cases changed)
    case False
    then show ?thesis using r g1 root1 t1 by (intro exI [of _ f] exI [of _ e1] exI [of _ False]) simp
  next
    case ch: True
    then have "fold_kept f v {y. earlier f c y x} x e1 f' e'" using r(3) by simp
    then have "gvn_ok libm nan' c v e0 f' e' \<and> touches x f e1 f' e'"
      unfolding fold_kept_def Let_def
    proof (elim disjE conjE exE bexE)
      assume k: "in_op (fn_insts f ! x) = LIMBA_OP_CHECK" "v ! operand f (fn_insts f ! x) 0 \<noteq> 0" "f' = f" "e' = e1\<lparr>ed_dead := (ed_dead e1)[x := True]\<rparr>"
      then have "check_kept f c v e0 x" by (simp add: check_kept_def check_cond_def)
      then show ?thesis using gvn_kill [OF g1] touches_kill gvn_okD(9) [OF g1] k(3,4) by simp
    next
      fix j assume j: "in_op (fn_insts f ! x) \<noteq> LIMBA_OP_CHECK" "const_in_place (fn_insts f ! x) j" "const_value j = Some (v ! x)"
        "const_typed j" "canonical (in_type (fn_insts f ! x)) (v ! x)" "f' = f\<lparr>fn_insts := (fn_insts f)[x := j]\<rparr>" "e' = e1"
      have "f' = put_inst f x j" using j(6) by (simp add: put_inst_def)
      moreover have "touches x f e1 (put_inst f x j) e1"
        using put_same(2) [OF lt in_place_facts(1,2) [OF j(2)]] by (simp add: touches_def)
      ultimately show ?thesis using gvn_set [OF g1 lt root1 j(1-5)] j(7) by simp
    next
      fix z assume z: "z \<in> {y. earlier f c y x}" "v ! x = v ! z" "value_type f z = value_type f x" "f' = f" "limba_edit_replace e1 x z = Some e'"
        "in_op (fn_insts f ! x) \<noteq> LIMBA_OP_CHECK"
      then show ?thesis using gvn_replace [OF g1 x root1, of z] by (auto simp: touches_def)
    qed
    then show ?thesis using r(1) ch touches_trans [OF t1] by blast
  qed
qed

lemma mergeable_only: "mergeable i \<Longrightarrow> limba_only_values i"
  by (cases "in_op i") (simp_all add: mergeable_def limba_only_values_def)

text \<open>What the table holds when instruction \<open>x\<close> is numbered: values that are there earlier, each standing for itself.\<close>

definition entry_ok :: "limba_func \<Rightarrow> limba_edit \<Rightarrow> limba_edit \<Rightarrow> nat \<Rightarrow> bool" where
  "entry_ok f e e0 y \<longleftrightarrow> y < length (fn_insts f) \<and> \<not> ed_dead e0 ! y \<and> edit_value e y = y"

lemma same_check:
  assumes g: "gvn_ok libm nan c v e0 f e" and key: "same_key f e (fn_insts f ! y) (fn_insts f ! x)"
    and x: "x < length (fn_insts f)" "y < length (fn_insts f)" and check: "in_op (fn_insts f ! x) = LIMBA_OP_CHECK"
  shows "in_op (fn_insts f ! y) = LIMBA_OP_CHECK" "check_cond f v y = check_cond f v x"
proof -
  note I = gvn_okD [OF g]
  show op: "in_op (fn_insts f ! y) = LIMBA_OP_CHECK" using key check by (simp add: same_key_def)
  then have n: "in_nops (fn_insts f ! y) = 1" "in_nops (fn_insts f ! x) = 1"
    using I(4) x check by (auto simp: ops_ok_def inst_typed_def Let_def)
  have only: "limba_only_values (fn_insts f ! x)" "limba_only_values (fn_insts f ! y)" using check op by (simp_all add: limba_only_values_def)
  have lt: "operand f (fn_insts f ! x) 0 < length (fn_insts f)" "operand f (fn_insts f ! y) 0 < length (fn_insts f)"
    using I(4) x n only by (auto simp: ops_ok_def Let_def)
  have "root_ops f e (fn_insts f ! y) = root_ops f e (fn_insts f ! x)" using same_key_ops [OF key] n by simp
  then have "edit_value e (operand f (fn_insts f ! y) 0) = edit_value e (operand f (fn_insts f ! x) 0)" using n by (simp add: root_ops_def)
  then show "check_cond f v y = check_cond f v x"
    using env_value [OF I(3), of "operand f (fn_insts f ! x) 0"] env_value [OF I(3), of "operand f (fn_insts f ! y) 0"] lt
    by (simp add: check_cond_def value_ok_def)
qed

lemma gvn_merge:
  assumes g: "gvn_ok libm nan c v e0 (gc_f k) (gc_e k)" and x: "runs (gc_f k) c x" "edit_value (gc_e k) x = x" "mergeable (fn_insts (gc_f k) ! x)"
    and y: "earlier (gc_f k) c y x" "entry_ok (gc_f k) (gc_e k) e0 y" "same_key (gc_f k) (gc_e k) (fn_insts (gc_f k) ! y) (fn_insts (gc_f k) ! x)"
  shows "\<exists>e'. merge k x y = Some (k\<lparr>gc_e := e'\<rparr>) \<and> gvn_ok libm nan c v e0 (gc_f k) e' \<and> touches x (gc_f k) (gc_e k) (gc_f k) e'"
proof -
  let ?f = "gc_f k" and ?e = "gc_e k"
  note I = gvn_okD [OF g]
  have lt: "x < length (fn_insts ?f)" "y < length (fn_insts ?f)" using x(1) y(2) by (simp_all add: runs_def entry_ok_def)
  show ?thesis
  proof (cases "in_op (fn_insts ?f ! x) = LIMBA_OP_CHECK")
    case True
    have "check_kept ?f c v e0 x"
      using same_check [OF g y(3) lt True] y(1,2) True by (auto simp: check_kept_def entry_ok_def)
    then show ?thesis
      using True gvn_kill [OF g] touches_kill [OF I(9)]
      by (intro exI [of _ "?e\<lparr>ed_dead := (ed_dead ?e)[x := True]\<rparr>"]) (simp add: merge_def)
  next
    case False
    have v: "v ! x = v ! y" "value_type ?f x = value_type ?f y"
      using same_value [OF I(3-5) lt y(3) x(3) False mergeable_only [OF x(3)]] by blast+
    obtain e' where "limba_edit_replace ?e x y = Some e'" "gvn_ok libm nan c v e0 ?f e'"
        "\<forall>z. z \<noteq> x \<longrightarrow> ed_dead e' ! z = ed_dead ?e ! z \<and> (edit_value ?e z = z \<longrightarrow> edit_value e' z = z)"
      using gvn_replace [OF g x(1,2) y(1) v False] by blast
    then show ?thesis using False by (intro exI [of _ e']) (simp add: merge_def touches_def)
  qed
qed

lemma number_spec:
  assumes g: "gvn_ok libm nan c v e0 (gc_f k) (gc_e k)" and tab: "table_ok k" "length (gc_ents k) < LIMBA_NONE"
    and x: "runs (gc_f k) c x" "edit_value (gc_e k) x = x" and ys: "\<forall>y \<in> ids k. earlier (gc_f k) c y x \<and> entry_ok (gc_f k) (gc_e k) e0 y"
  shows "\<exists>k' m. number_inst k x = Some (k', m) \<and> gvn_ok libm nan c v e0 (gc_f k) (gc_e k') \<and> table_ok k' \<and>
    gc_f k' = gc_f k \<and> gc_fold k' = gc_fold k \<and> touches x (gc_f k) (gc_e k) (gc_f k) (gc_e k') \<and>
    (gc_ents k' = gc_ents k \<or> (\<exists>en. gc_ents k' = gc_ents k @ [en] \<and> ge_id en = x \<and> edit_value (gc_e k') x = x))"
proof (cases "mergeable (fn_insts (gc_f k) ! x)")
  case False
  then show ?thesis using g tab by (intro exI [of _ k] exI [of _ 0]) (simp add: number_inst_def touches_def)
next
  case True
  obtain k1 y where l: "lookup_or_add k x = Some (k1, y)" "table_ok k1" "same_edit (gc_e k) (gc_e k1)" "gc_f k1 = gc_f k" "gc_fold k1 = gc_fold k"
      "gc_ents k1 = gc_ents k \<and> y \<in> ids k \<and> same_key (gc_f k) (gc_e k) (fn_insts (gc_f k) ! y) (fn_insts (gc_f k) ! x) \<or>
       y = x \<and> (\<exists>en. gc_ents k1 = gc_ents k @ [en] \<and> ge_id en = x)"
    using lookup_spec [OF tab gvn_okD(9) [OF g], of x] by blast
  have g1: "gvn_ok libm nan c v e0 (gc_f k1) (gc_e k1)" using gvn_same [OF g l(3)] l(4) by simp
  have t1: "touches x (gc_f k) (gc_e k) (gc_f k) (gc_e k1)" by (rule touches_same [OF l(3)])
  have x1: "edit_value (gc_e k1) x = x" using x(2) l(3) by (simp add: same_edit_def)
  show ?thesis
  proof (cases "y = x")
    case yx: True
    have "x \<notin> ids k" using ys earlier_irrefl [OF gvn_okD(2) [OF g] x(1)] by blast
    then have "\<exists>en. gc_ents k1 = gc_ents k @ [en] \<and> ge_id en = x" using l(6) yx by blast
    moreover have "number_inst k x = Some (k1, 0)" using True l(1) yx by (simp add: number_inst_def)
    ultimately show ?thesis using g1 l(2,4,5) t1 x1 by (intro exI [of _ k1] exI [of _ 0]) simp
  next
    case yx: False
    then have y: "gc_ents k1 = gc_ents k" "y \<in> ids k" "same_key (gc_f k) (gc_e k) (fn_insts (gc_f k) ! y) (fn_insts (gc_f k) ! x)"
      using l(6) by blast+
    have ey: "earlier (gc_f k1) c y x" "entry_ok (gc_f k1) (gc_e k1) e0 y" using ys y(2) l(3,4) by (auto simp: entry_ok_def same_edit_def)
    have "same_key (gc_f k1) (gc_e k1) (fn_insts (gc_f k1) ! y) (fn_insts (gc_f k1) ! x)"
      using y(3) key_ops_same(2) [OF l(3)] l(4) by simp
    from gvn_merge [OF g1 _ x1 _ ey this] obtain e' where
      "merge k1 x y = Some (k1\<lparr>gc_e := e'\<rparr>)" "gvn_ok libm nan c v e0 (gc_f k1) e'" "touches x (gc_f k1) (gc_e k1) (gc_f k1) e'"
      using x(1) True l(4) by auto
    moreover from this have "number_inst k x = Some (k1\<lparr>gc_e := e'\<rparr>, 1)" using True l(1) yx by (simp add: number_inst_def)
    ultimately show ?thesis
      using l(2,4,5) y(1) touches_trans [OF t1] by (intro exI [of _ "k1\<lparr>gc_e := e'\<rparr>"] exI [of _ 1]) simp
  qed
qed

lemma visit_inst_spec:
  assumes g: "gvn_ok libm nan' c v e0 (gc_f k) (gc_e k)" and tab: "table_ok k" "length (gc_ents k) < LIMBA_NONE"
    and x: "runs (gc_f k) c x" and ys: "\<forall>y \<in> ids k. earlier (gc_f k) c y x \<and> entry_ok (gc_f k) (gc_e k) e0 y"
  shows "\<exists>k' m. visit_inst libm nan k param x = Some (k', m) \<and> gvn_ok libm nan' c v e0 (gc_f k') (gc_e k') \<and> table_ok k' \<and>
    gc_fold k' = gc_fold k \<and> touches x (gc_f k) (gc_e k) (gc_f k') (gc_e k') \<and>
    (gc_ents k' = gc_ents k \<or> (\<exists>en. gc_ents k' = gc_ents k @ [en] \<and> ge_id en = x \<and> entry_ok (gc_f k') (gc_e k') e0 x))"
proof (cases "ed_dead (gc_e k) ! x")
  case True
  then show ?thesis using g tab by (intro exI [of _ k] exI [of _ 0]) (simp add: visit_inst_def touches_def)
next
  case alive: False
  have lt: "x < length (fn_insts (gc_f k))" using x by (simp add: runs_def)
  then have alive0: "\<not> ed_dead e0 ! x" using alive gvn_okD(8) [OF g] by (auto simp: drops_ok_def)
  obtain f e changed where f: "(if gc_fold k \<and> \<not> param then limba_fold_inst libm nan (gc_f k) (gc_e k) x else Some (gc_f k, gc_e k, False)) = Some (f, e, changed)"
      "gvn_ok libm nan' c v e0 f e" "touches x (gc_f k) (gc_e k) f e" "changed \<or> edit_value e x = x"
  proof (cases "gc_fold k \<and> \<not> param")
    case True
    then show ?thesis using gvn_fold [OF g x alive, of nan] that by auto
  next
    case False
    have "edit_value (gc_e k) x = x" using alive_root [OF gvn_okD(9) [OF g]] gvn_okD(10) [OF g] lt alive by simp
    then show ?thesis using that [OF if_not_P [OF False], of] g by (simp add: touches_def)
  qed
  let ?k = "k\<lparr>gc_f := f, gc_e := e\<rparr>"
  have lf: "length (fn_insts f) = length (fn_insts (gc_f k))" using f(3) by (simp add: touches_def)
  have step: "visit_inst libm nan k param x = (if changed \<and> ed_map e ! x \<noteq> x then Some (?k, 1)
      else do { (c, n) \<leftarrow> number_inst ?k x; Some (c, of_bool changed + n) })"
    using alive f(1) by (simp add: visit_inst_def Let_def)
  show ?thesis
  proof (cases "changed \<and> ed_map e ! x \<noteq> x")
    case True
    then show ?thesis using step f tab by (intro exI [of _ ?k] exI [of _ 1]) simp
  next
    case False
    then have root: "edit_value e x = x" using f(2,4) map_root [OF gvn_okD(9) [OF f(2)], of x] gvn_okD(10) [OF f(2)] lf lt by auto
    have "earlier f c y x \<and> entry_ok f e e0 y" if "y \<in> ids k" for y
    proof -
      have y: "earlier (gc_f k) c y x" "entry_ok (gc_f k) (gc_e k) e0 y" using ys that by blast+
      then have "y \<noteq> x" using earlier_irrefl [OF gvn_okD(2) [OF g] x] by blast
      then show ?thesis using y f(3) touches_order(1) [OF f(3)] by (simp add: entry_ok_def touches_def)
    qed
    then have "\<forall>y \<in> ids ?k. earlier (gc_f ?k) c y x \<and> entry_ok (gc_f ?k) (gc_e ?k) e0 y" by (simp add: ids_def)
    from number_spec [of libm nan' c v e0 ?k x, OF _ _ _ _ _ this] obtain k' m where r: "number_inst ?k x = Some (k', m)"
        "gvn_ok libm nan' c v e0 f (gc_e k')" "table_ok k'" "gc_f k' = f" "gc_fold k' = gc_fold k" "touches x f e f (gc_e k')"
        "gc_ents k' = gc_ents k \<or> (\<exists>en. gc_ents k' = gc_ents k @ [en] \<and> ge_id en = x \<and> edit_value (gc_e k') x = x)"
      using f(2) tab x root touches_order(2) [OF f(3)] by auto
    have "visit_inst libm nan k param x = Some (k', of_bool changed + m)" unfolding step if_not_P [OF False] by (simp add: r(1))
    then show ?thesis
      using r touches_trans [OF f(3)] lf lt alive0
      by (intro exI [of _ k'] exI [of _ "of_bool changed + m"]) (auto simp: entry_ok_def)
  qed
qed

section \<open>A block\<close>

definition moved :: "nat set \<Rightarrow> limba_func \<Rightarrow> limba_edit \<Rightarrow> limba_func \<Rightarrow> limba_edit \<Rightarrow> bool" where
  "moved X f e f' e' \<longleftrightarrow>
     fn_blocks f' = fn_blocks f \<and> length (fn_insts f') = length (fn_insts f) \<and>
     (\<forall>p. in_block (fn_insts f' ! p) = in_block (fn_insts f ! p)) \<and> (\<forall>y. y \<notin> X \<longrightarrow> edit_value e y = y \<longrightarrow> edit_value e' y = y)"

lemma touches_moved: "touches x f e f' e' \<Longrightarrow> moved {x} f e f' e'"
  by (simp add: touches_def moved_def)

lemma moved_trans: "moved X f e g h \<Longrightarrow> moved Y g h k l \<Longrightarrow> moved (X \<union> Y) f e k l"
  by (simp add: moved_def)

lemma moved_order: "moved X f e f' e' \<Longrightarrow> earlier f' c = earlier f c" "moved X f e f' e' \<Longrightarrow> runs f' c = runs f c"
  by (simp_all add: fun_eq_iff moved_def earlier_def runs_def before_def)

lemma moved_entry: "moved X f e f' e' \<Longrightarrow> y \<notin> X \<Longrightarrow> entry_ok f e e0 y \<Longrightarrow> entry_ok f' e' e0 y"
  by (simp add: moved_def entry_ok_def)

lemma ents_few:
  assumes "distinct (map ge_id (gc_ents k))" "\<forall>y \<in> ids k. y < n"
  shows "length (gc_ents k) \<le> n"
proof -
  have "length (gc_ents k) = card (ids k)" using distinct_card [OF assms(1)] by (simp add: ids_def)
  also have "\<dots> \<le> card {0 ..< n}" using assms(2) by (intro card_mono) auto
  finally show ?thesis by simp
qed

text \<open>The table while a block is walked.\<close>

definition table_holds :: "limba_edit \<Rightarrow> gctx \<Rightarrow> bool" where
  "table_holds e0 k \<longleftrightarrow> table_ok k \<and> distinct (map ge_id (gc_ents k)) \<and> (\<forall>y \<in> ids k. entry_ok (gc_f k) (gc_e k) e0 y)"

lemma visit_insts_spec:
  assumes "gvn_ok libm nan' c v e0 (gc_f k) (gc_e k)" "table_holds e0 k" "length (fn_insts (gc_f k)) < LIMBA_NONE"
    and "b < length (fn_blocks (gc_f k))" "reach (succ_row c) b" "bl_insts (fn_blocks (gc_f k) ! b) = pre @ xs"
    and "\<forall>y \<in> ids k. \<forall>x \<in> set xs. earlier (gc_f k) c y x"
  shows "\<exists>k' m es. visit_insts libm nan k np xs = Some (k', m) \<and> gvn_ok libm nan' c v e0 (gc_f k') (gc_e k') \<and> table_holds e0 k' \<and>
    moved (set xs) (gc_f k) (gc_e k) (gc_f k') (gc_e k') \<and> gc_ents k' = gc_ents k @ es \<and> ge_id ` set es \<subseteq> set xs"
  using assms
proof (induction xs arbitrary: k pre np)
  case Nil
  then show ?case by (intro exI [of _ k] exI [of _ 0] exI [of _ "[]"]) (simp add: moved_def)
next
  case (Cons x xs)
  let ?f = "gc_f k" and ?e = "gc_e k"
  note g = Cons.prems(1)
  have tab: "table_ok k" "distinct (map ge_id (gc_ents k))" "\<forall>y \<in> ids k. entry_ok ?f ?e e0 y"
    using Cons.prems(2) by (simp_all add: table_holds_def)
  have inb: "y < length (fn_insts ?f) \<and> in_block (fn_insts ?f ! y) = b" if "y \<in> set (x # xs)" for y
    using gvn_okD(2) [OF g] Cons.prems(4,6) that unfolding placed_def by auto
  have x: "runs ?f c x" using inb [of x] Cons.prems(4,5) by (simp add: runs_def)
  have few: "length (gc_ents k) < LIMBA_NONE"
    using ents_few [OF tab(2), of "length (fn_insts ?f)"] tab(3) Cons.prems(3) by (auto simp: entry_ok_def)
  have ys: "\<forall>y \<in> ids k. earlier ?f c y x \<and> entry_ok ?f ?e e0 y" using Cons.prems(7) tab(3) by simp
  then have xnew: "x \<notin> ids k" using earlier_irrefl [OF gvn_okD(2) [OF g] x] by blast
  obtain k1 m where k1: "visit_inst libm nan k (0 < np) x = Some (k1, m)" "gvn_ok libm nan' c v e0 (gc_f k1) (gc_e k1)" "table_ok k1"
      "touches x ?f ?e (gc_f k1) (gc_e k1)"
      "gc_ents k1 = gc_ents k \<or> (\<exists>en. gc_ents k1 = gc_ents k @ [en] \<and> ge_id en = x \<and> entry_ok (gc_f k1) (gc_e k1) e0 x)"
    using visit_inst_spec [OF g tab(1) few x ys, of nan "0 < np"] by blast
  note mv = touches_moved [OF k1(4)]
  obtain es1 where es1: "gc_ents k1 = gc_ents k @ es1" "es1 = [] \<or> (\<exists>en. es1 = [en] \<and> ge_id en = x \<and> entry_ok (gc_f k1) (gc_e k1) e0 x)"
    using k1(5) by auto
  have ids1: "y \<in> ids k1 \<Longrightarrow> y \<in> ids k \<or> y = x \<and> entry_ok (gc_f k1) (gc_e k1) e0 x" for y
    using es1 by (auto simp: ids_def)
  have before_x: "earlier ?f c x z" if z: "z \<in> set xs" for z
  proof -
    obtain j where "j < length xs" "xs ! j = z" using z by (auto simp: in_set_conv_nth)
    then have "before ?f b x z" unfolding before_def Cons.prems(6)
      by (intro exI [of _ "length pre"] exI [of _ "length pre + 1 + j"]) (simp add: nth_append)
    then show ?thesis using inb [of x] inb [of z] z by (simp add: earlier_def)
  qed
  have "entry_ok (gc_f k1) (gc_e k1) e0 y" if "y \<in> ids k1" for y
    using ids1 [OF that] tab(3) moved_entry [OF mv, of y] xnew by (cases "y = x") auto
  moreover have "distinct (map ge_id (gc_ents k) @ map ge_id es1)"
    unfolding distinct_append set_map ids_def [symmetric] using es1(2) tab(2) xnew by auto
  then have "distinct (map ge_id (gc_ents k1))" using es1(1) by simp
  ultimately have th: "table_holds e0 k1" using k1(3) by (simp add: table_holds_def)
  have earl: "\<forall>y \<in> ids k1. \<forall>z \<in> set xs. earlier (gc_f k1) c y z"
    unfolding moved_order(1) [OF mv] using ids1 before_x Cons.prems(7) by auto
  have same: "fn_blocks (gc_f k1) = fn_blocks ?f" "length (fn_insts (gc_f k1)) = length (fn_insts ?f)" using mv by (simp_all add: moved_def)
  obtain k' m' es where r: "visit_insts libm nan k1 (np - 1) xs = Some (k', m')" "gvn_ok libm nan' c v e0 (gc_f k') (gc_e k')" "table_holds e0 k'"
      "moved (set xs) (gc_f k1) (gc_e k1) (gc_f k') (gc_e k')" "gc_ents k' = gc_ents k1 @ es" "ge_id ` set es \<subseteq> set xs"
    using Cons.IH [OF k1(2) th _ _ Cons.prems(5) _ earl, of "pre @ [x]" "np - 1"] Cons.prems(3,4,6) same by auto
  have "moved (set (x # xs)) ?f ?e (gc_f k') (gc_e k')" using moved_trans [OF mv r(4)] by simp
  moreover have "ge_id ` set (es1 @ es) \<subseteq> set (x # xs)" using es1(2) r(6) by auto
  ultimately show ?case
    using k1(1) r(1-3,5) es1(1) by (intro exI [of _ k'] exI [of _ "m + m'"] exI [of _ "es1 @ es"]) simp
qed

section \<open>The walk\<close>

text \<open>The entries by the blocks on the stack: those past the mark of a block are of its instructions.\<close>

fun layered :: "limba_func \<Rightarrow> nat list \<Rightarrow> nat list \<Rightarrow> gentry list \<Rightarrow> bool" where
  "layered f mark [] ents \<longleftrightarrow> ents = []"
| "layered f mark (b # st) ents \<longleftrightarrow>
     mark ! b \<le> length ents \<and> layered f mark st (take (mark ! b) ents) \<and>
     (\<forall>en \<in> set (drop (mark ! b) ents). ge_id en \<in> set (bl_insts (fn_blocks f ! b)))"

lemma layered_ids: "layered f mark st ents \<Longrightarrow> en \<in> set ents \<Longrightarrow> \<exists>b \<in> set st. ge_id en \<in> set (bl_insts (fn_blocks f ! b))"
proof (induction st arbitrary: ents)
  case (Cons b st)
  have "en \<in> set (take (mark ! b) ents) \<or> en \<in> set (drop (mark ! b) ents)"
    using Cons.prems(2) by (metis append_take_drop_id Un_iff set_append)
  then show ?case using Cons by auto
qed simp

lemma layered_cong:
  "fn_blocks f' = fn_blocks f \<Longrightarrow> \<forall>b \<in> set st. mark' ! b = mark ! b \<Longrightarrow> layered f' mark' st ents = layered f mark st ents"
  by (induction st arbitrary: ents) simp_all

lemma tree_frame:
  "tree_sets n D F (pre, post, clock, st, next) \<Longrightarrow> length pre' = n + 1 \<Longrightarrow> length post' = n + 1 \<Longrightarrow> tree_sets n D F (pre', post', clock', st, next)"
  by (simp add: tree_sets_def)

definition open_tree :: "nat \<Rightarrow> nat list \<Rightarrow> nat list \<Rightarrow> nat list \<Rightarrow> bool" where
  "open_tree n D stack next \<longleftrightarrow> (\<exists>F pre post clock. tree_sets n D F (pre, post, clock, stack, next))"

lemma open_start: "0 < n \<Longrightarrow> open_tree n D [0] (replicate (n + 1) 0)"
  using tree_start [of n D] by (auto simp: open_tree_def tree_inv_def)

lemma open_push:
  assumes o: "open_tree n D (b # st) next" and i: "next ! b < length (tree_rows n D b)" and s: "s = tree_rows n D b ! (next ! b)"
  shows "s < n" "s \<notin> set (b # st)" "D ! s \<noteq> LIMBA_NONE" "open_tree n D (s # b # st) (next[b := next ! b + 1])"
    "\<forall>a \<in> set (b # st). anc D s a" "b < n" "length next = n + 1"
proof -
  obtain F pre post clock where t: "tree_sets n D F (pre, post, clock, b # st, next)" using o by (auto simp: open_tree_def)
  note p = tree_push_sets [OF t i s]
  show "s < n" "s \<notin> set (b # st)" using p by auto
  have "s \<in> set (tree_rows n D b)" using i s by simp
  then show "D ! s \<noteq> LIMBA_NONE" by (simp add: mem_tree_rows)
  show "open_tree n D (s # b # st) (next[b := next ! b + 1])" using p(5) by (auto simp: open_tree_def)
  have "successively (\<lambda>c b. c \<noteq> 0 \<and> D ! c = b) (s # b # st)" using p(5) by (simp add: tree_sets_def)
  then show "\<forall>a \<in> set (b # st). anc D s a" using stack_chain [of D s "b # st"] by simp
  show "b < n" "length next = n + 1" using t by (simp_all add: tree_sets_def)
qed

lemma open_pop: "open_tree n D (b # st) next \<Longrightarrow> \<not> next ! b < length (tree_rows n D b) \<Longrightarrow> open_tree n D st next"
  using tree_pop_sets by (fastforce simp: open_tree_def)

definition walk_ok :: "(nat \<Rightarrow> u64 list \<Rightarrow> u64) \<Rightarrow> u64 \<Rightarrow> limba_cfg \<Rightarrow> u64 list \<Rightarrow> limba_edit \<Rightarrow> gctx \<Rightarrow> nat list \<Rightarrow> nat list \<Rightarrow> nat list \<Rightarrow> bool" where
  "walk_ok libm nan c v e0 k stack next mark \<longleftrightarrow>
     gvn_ok libm nan c v e0 (gc_f k) (gc_e k) \<and> table_holds e0 k \<and> length (fn_insts (gc_f k)) < LIMBA_NONE \<and>
     open_tree (length (fn_blocks (gc_f k))) (cf_idom c) stack next \<and> layered (gc_f k) mark stack (gc_ents k) \<and>
     length mark = length (fn_blocks (gc_f k)) + 1 \<and> (\<forall>b \<in> set stack. reach (succ_row c) b)"

text \<open>The values of the table dominate a new block.\<close>

lemma entries_earlier:
  assumes g: "graph_ok f c" "placed f" and s: "s < length (fn_blocks f)" "reach (succ_row c) s" "\<forall>a \<in> set st. anc (cf_idom c) s a"
    and st: "s \<notin> set st" "\<forall>a \<in> set st. a < length (fn_blocks f)" and l: "layered f mark st ents" and y: "y \<in> ge_id ` set ents" and x: "x \<in> set (bl_insts (fn_blocks f ! s))"
  shows "earlier f c y x"
proof -
  obtain a where a: "a \<in> set st" "y \<in> set (bl_insts (fn_blocks f ! a))" using layered_ids [OF l] y by auto
  have "dominates (succ_row c) a s" using graph_anc [OF g(1) s(2)] s(3) a(1) by blast
  moreover have "in_block (fn_insts f ! y) = a" "y < length (fn_insts f)" "in_block (fn_insts f ! x) = s" "x < length (fn_insts f)"
    using g(2) s(1) st(2) a x by (auto simp: placed_def)
  moreover have "a \<noteq> s" using a(1) st(1) by auto
  ultimately show ?thesis by (simp add: earlier_def)
qed

lemma open_less: "open_tree n D st next \<Longrightarrow> a \<in> set st \<Longrightarrow> a < n"
  by (fastforce simp: open_tree_def tree_sets_def)

lemma walk_push:
  assumes w: "walk_ok libm nan' c v e0 k (b # st) next mark"
    and n: "n = length (fn_blocks (gc_f k))" and i: "next ! b < length (tree_rows n (cf_idom c) b)"
    and s: "s = tree_rows n (cf_idom c) b ! (next ! b)"
  shows "\<exists>k' m. visit libm nan k s = Some (k', m) \<and> moved UNIV (gc_f k) (gc_e k) (gc_f k') (gc_e k') \<and>
    walk_ok libm nan' c v e0 k' (s # b # st) (next[b := next ! b + 1]) (mark[s := length (gc_ents k)])"
proof -
  have W: "gvn_ok libm nan' c v e0 (gc_f k) (gc_e k)" "table_holds e0 k" "length (fn_insts (gc_f k)) < LIMBA_NONE"
    "open_tree n (cf_idom c) (b # st) next" "layered (gc_f k) mark (b # st) (gc_ents k)" "length mark = n + 1"
    "\<forall>b \<in> set (b # st). reach (succ_row c) b"
    using w n unfolding walk_ok_def by blast+
  note p = open_push [OF W(4) i s] and gr = gvn_okD(1,2) [OF W(1)]
  have r: "reach (succ_row c) s" using gr(1) p(1,3) n by (auto simp: graph_ok_def idom_ok_def dom_inv_def)
  have early: "\<forall>y \<in> ids k. \<forall>x \<in> set (bl_insts (fn_blocks (gc_f k) ! s)). earlier (gc_f k) c y x"
    using entries_earlier [OF gr _ r p(5,2) _ W(5)] p(1) n open_less [OF W(4)] by (simp add: ids_def)
  obtain k' m es where v: "visit libm nan k s = Some (k', m)" "gvn_ok libm nan' c v e0 (gc_f k') (gc_e k')" "table_holds e0 k'"
      "moved (set (bl_insts (fn_blocks (gc_f k) ! s))) (gc_f k) (gc_e k) (gc_f k') (gc_e k')" "gc_ents k' = gc_ents k @ es"
      "ge_id ` set es \<subseteq> set (bl_insts (fn_blocks (gc_f k) ! s))"
    using visit_insts_spec [OF W(1-3) _ r _ early, of "[]" nan "bl_nparams (fn_blocks (gc_f k) ! s)"] p(1) n
    unfolding visit_def Let_def by (metis append_Nil)
  have same: "fn_blocks (gc_f k') = fn_blocks (gc_f k)" "length (fn_insts (gc_f k')) = length (fn_insts (gc_f k))"
    using v(4) by (simp_all add: moved_def)
  have "layered (gc_f k') (mark[s := length (gc_ents k)]) (b # st) (gc_ents k)"
    using layered_cong [OF same(1), of "b # st" "mark[s := length (gc_ents k)]" mark] W(5) p(2) by (metis nth_list_update_neq)
  moreover have "mark[s := length (gc_ents k)] ! s = length (gc_ents k)" using p(1) W(6) by simp
  ultimately have "layered (gc_f k') (mark[s := length (gc_ents k)]) (s # b # st) (gc_ents k')"
    using v(5,6) same(1) by auto
  moreover have "moved UNIV (gc_f k) (gc_e k) (gc_f k') (gc_e k')" using v(4) by (simp add: moved_def)
  ultimately show ?thesis
    using v(1-3) same W(3,6,7) r p(4) n by (intro exI [of _ k'] exI [of _ m]) (simp add: walk_ok_def del: layered.simps)
qed

lemma walk_pop:
  assumes w: "walk_ok libm nan' c v e0 k (b # st) next mark"
    and n: "n = length (fn_blocks (gc_f k))" and i: "\<not> next ! b < length (tree_rows n (cf_idom c) b)"
  shows "walk_ok libm nan' c v e0 (drop_entries (mark ! b) k) st next mark" "gc_f (drop_entries (mark ! b) k) = gc_f k"
    "gc_e (drop_entries (mark ! b) k) = gc_e k"
proof -
  have W: "gvn_ok libm nan' c v e0 (gc_f k) (gc_e k)" "table_holds e0 k" "length (fn_insts (gc_f k)) < LIMBA_NONE"
    "open_tree n (cf_idom c) (b # st) next" "layered (gc_f k) mark (b # st) (gc_ents k)" "length mark = n + 1"
    "\<forall>b \<in> set (b # st). reach (succ_row c) b"
    using w n unfolding walk_ok_def by blast+
  have l: "mark ! b \<le> length (gc_ents k)" "layered (gc_f k) mark st (take (mark ! b) (gc_ents k))" using W(5) by simp_all
  have "table_ok k" using W(2) by (simp add: table_holds_def)
  note d = drop_entries_spec [OF this l(1)]
  then show "gc_f (drop_entries (mark ! b) k) = gc_f k" "gc_e (drop_entries (mark ! b) k) = gc_e k" by blast+
  have sub: "set (take (mark ! b) (gc_ents k)) \<subseteq> set (gc_ents k)" by (rule set_take_subset)
  have "distinct (map ge_id (take (mark ! b) (gc_ents k)))"
    using W(2) by (simp add: table_holds_def take_map [symmetric])
  then have "table_holds e0 (drop_entries (mark ! b) k)"
    using d W(2) sub by (auto simp: table_holds_def ids_def)
  then show "walk_ok libm nan' c v e0 (drop_entries (mark ! b) k) st next mark"
    unfolding walk_ok_def using W(1,3,6,7) l(2) d open_pop [OF W(4) i] n by simp
qed

definition walk_left :: "nat \<Rightarrow> nat list \<Rightarrow> nat list \<Rightarrow> nat list \<Rightarrow> nat" where
  "walk_left n D stack next = 2 * (\<Sum>b < n. length (tree_rows n D b) - next ! b) + length stack"

lemma walk_spec:
  assumes rows: "\<And>b. b < n \<Longrightarrow> row cfirst child b = tree_rows n (cf_idom c) b"
    and "walk_ok libm nan' c v e0 k stack next mark" "n = length (fn_blocks (gc_f k))"
  shows "\<exists>k' ch. gvn_walk libm nan cfirst child k stack next mark changes = Some (k', ch) \<and> gvn_ok libm nan' c v e0 (gc_f k') (gc_e k') \<and>
    moved UNIV (gc_f k) (gc_e k) (gc_f k') (gc_e k')"
  using assms(2,3)
proof (induction "walk_left n (cf_idom c) stack next" arbitrary: k stack "next" mark changes rule: less_induct)
  case less
  let ?D = "cf_idom c"
  show ?case
  proof (cases stack)
    case Nil
    then show ?thesis using less.prems(1) by (subst gvn_walk.simps) (simp add: walk_ok_def moved_def)
  next
    case (Cons b st)
    note w = less.prems(1) [unfolded Cons]
    have o: "open_tree n ?D (b # st) next" using w less.prems(2) by (simp add: walk_ok_def)
    have b: "b < n" "length next = n + 1" using o by (auto simp: open_tree_def tree_sets_def)
    have lt: "cfirst ! b + next ! b < cfirst ! (b + 1) \<longleftrightarrow> next ! b < length (tree_rows n ?D b)"
      using row_length [of cfirst b "next ! b" child] rows [OF b(1)] by simp
    show ?thesis
    proof (cases "next ! b < length (tree_rows n ?D b)")
      case True
      define s where "s = tree_rows n ?D b ! (next ! b)"
      have s: "child ! (cfirst ! b + next ! b) = s" using row_nth [of "next ! b" cfirst child b] rows [OF b(1)] True by (simp add: s_def)
      obtain k1 m where k1: "visit libm nan k s = Some (k1, m)" "moved UNIV (gc_f k) (gc_e k) (gc_f k1) (gc_e k1)"
          "walk_ok libm nan' c v e0 k1 (s # b # st) (next[b := next ! b + 1]) (mark[s := length (gc_ents k)])"
        using walk_push [OF w less.prems(2) True s_def] by blast
      have "(\<Sum>a < n. length (tree_rows n ?D a) - next[b := next ! b + 1] ! a) < (\<Sum>a < n. length (tree_rows n ?D a) - next ! a)"
        by (rule walk_measure_next [of b n "next" "tree_rows n ?D", OF b True])
      then have "walk_left n ?D (s # b # st) (next[b := next ! b + 1]) < walk_left n ?D stack next" by (simp add: walk_left_def Cons)
      from less.hyps [OF this k1(3), where changes = "changes + m"] obtain k' ch where
        "gvn_walk libm nan cfirst child k1 (s # b # st) (next[b := next ! b + 1]) (mark[s := length (gc_ents k)]) (changes + m) = Some (k', ch)"
        "gvn_ok libm nan' c v e0 (gc_f k') (gc_e k')" "moved UNIV (gc_f k1) (gc_e k1) (gc_f k') (gc_e k')"
        using k1(2) less.prems(2) by (auto simp: moved_def)
      moreover from this have "moved UNIV (gc_f k) (gc_e k) (gc_f k') (gc_e k')" using moved_trans [OF k1(2)] by simp
      ultimately show ?thesis using True lt s k1(1) by (subst gvn_walk.simps) (simp add: Cons)
    next
      case False
      note p = walk_pop [OF w less.prems(2) False]
      have "walk_left n ?D st next < walk_left n ?D stack next" by (simp add: walk_left_def Cons)
      from less.hyps [OF this p(1)] show ?thesis
        using False lt p(2,3) less.prems(2) by (subst gvn_walk.simps) (simp add: Cons)
    qed
  qed
qed

section \<open>The pass\<close>

lemma table_size_from:
  assumes "n \<le> 2 ^ 30" "k \<le> 31"
  shows "\<exists>j. while_option (\<lambda>s. s < 2 * of_nat n) (\<lambda>s. s * 2) (2 ^ k :: u32) = Some (2 ^ j) \<and> j \<le> 31"
  using assms(2)
proof (induction "31 - k" arbitrary: k)
  case 0
  then have k: "k = 31" by simp
  have "unat (2 * of_nat n :: u32) = 2 * n" using assms(1) by (simp add: unat_word_ariths unat_of_nat)
  moreover have "unat (2 ^ k :: u32) = 2 ^ 31" unfolding k by simp
  ultimately have "\<not> (2 ^ k :: u32) < 2 * of_nat n" using assms(1) by (simp add: word_less_nat_alt)
  then have "while_option (\<lambda>s. s < 2 * of_nat n) (\<lambda>s. s * 2) (2 ^ k :: u32) = Some (2 ^ k)"
    by (subst while_option_unfold) (simp del: numeral_power_eq_of_nat_cancel_iff)
  then show ?case using k by blast
next
  case (Suc d)
  then have "\<exists>j. while_option (\<lambda>s. s < 2 * of_nat n) (\<lambda>s. s * 2) (2 ^ (k + 1) :: u32) = Some (2 ^ j) \<and> j \<le> 31"
    using Suc(1) [of "k + 1"] by simp
  then show ?case using Suc(2,3) by (subst while_option_unfold) (auto simp: mult.commute)
qed

lemma table_size_spec:
  assumes "n \<le> 2 ^ 30"
  shows "\<exists>j. table_size n = Some (2 ^ j) \<and> j \<le> 31"
  using table_size_from [OF assms, of 6] by (simp add: table_size_def)

lemma start_table:
  assumes "j \<le> 31"
  shows "table_ok \<lparr>gc_f = f, gc_fold = fl, gc_e = e, gc_heads = replicate (unat (2 ^ j :: u32)) LIMBA_NONE, gc_mask = 2 ^ j - 1, gc_ents = []\<rparr>"
proof -
  have u: "unat (2 ^ j :: u32) = 2 ^ j" 
  proof -
    have "(2 ^ j :: nat) < 2 ^ 32" using assms by (intro power_strict_increasing) simp_all
    moreover have "(2 ^ j :: u32) = of_nat (2 ^ j)" by simp
    ultimately show ?thesis by (simp add: unat_of_nat take_bit_eq_mod del: of_nat_power of_nat_numeral)
  qed
  have "unat (h AND (2 ^ j - 1 :: u32)) < 2 ^ j" for h
  proof -
    have "(2 ^ j :: u32) \<noteq> 0" using u by (metis power_not_zero unat_0 zero_neq_numeral)
    then have "unat (2 ^ j - 1 :: u32) = 2 ^ j - 1" using u by (simp add: unat_minus_one)
    moreover have "unat (h AND (2 ^ j - 1 :: u32)) \<le> unat (2 ^ j - 1 :: u32)" by (simp add: word_and_le1 flip: word_le_nat_alt)
    moreover have "0 < (2 ^ j :: nat)" by simp
    ultimately show ?thesis by linarith
  qed
  then show ?thesis by (simp add: table_ok_def u)
qed

lemma cfg_graph: "cfg_built f ok c po order \<Longrightarrow> fn_blocks f \<noteq> [] \<Longrightarrow> graph_ok f c"
  unfolding cfg_built_def graph_ok_def by (elim conjE, intro conjI) (assumption, fastforce)

lemma gvn_pass_spec:
  assumes graph: "limba_pass_cfg_of have_cfg f = Some c" "graph_ok f c" "fn_blocks f \<noteq> []"
    and few: "length (fn_insts f) \<le> 2 ^ 30" and g: "gvn_ok libm nan' c v e f e"
  shows "\<exists>f' e' changes. limba_pass_gvn libm nan folds have_cfg f e = Some (f', e', changes) \<and> gvn_ok libm nan' c v e f' e' \<and> moved UNIV f e f' e'"
proof -
  let ?n = "length (fn_blocks f)" and ?D = "cf_idom c"
  obtain po order where D: "idom_ok (cf_n c) (succ_row c) po ?D" "numbering (cf_n c) (succ_row c) po order" "cf_n c = ?n"
    using graph(2) by (auto simp: graph_ok_def)
  then have inv: "dom_inv ?n (succ_row c) po ?D" by (simp add: idom_ok_def)
  have n: "0 < ?n" using graph(3) by simp
  have Dn: "?D ! b < ?n" if "b < ?n" "?D ! b \<noteq> LIMBA_NONE" for b
  proof (cases "b = 0")
    case False
    have "known (succ_row c) ?D b" using inv that by (auto simp: dom_inv_def known_def)
    then have "reach (succ_row c) (?D ! b)" using known_up [OF inv _ False] by (simp add: known_def)
    then show ?thesis using D(2,3) by (simp add: numbering_def)
  qed (use inv n in \<open>simp add: dom_inv_def\<close>)
  obtain j where j: "table_size (length (fn_insts f)) = Some (2 ^ j)" "j \<le> 31" using table_size_spec [OF few] by blast
  let ?k = "\<lparr>gc_f = f, gc_fold = folds, gc_e = e, gc_heads = replicate (unat (2 ^ j :: u32)) LIMBA_NONE, gc_mask = 2 ^ j - 1, gc_ents = []\<rparr>"
  let ?kids = "map (\<lambda>b. (?D ! b, b)) (filter (limba_cfg_reachable c) [1 ..< ?n])"
  have kids: "?kids = map (\<lambda>b. (?D ! b, b)) (filter (\<lambda>b. ?D ! b \<noteq> LIMBA_NONE) [1 ..< ?n])"
    using D(3) by (intro arg_cong [where f = "map (\<lambda>b. (?D ! b, b))"] filter_cong) (auto simp: limba_cfg_reachable_def)
  obtain cfirst child where gr: "group_rows ?n ?kids = (cfirst, child)" by fastforce
  have rows: "row cfirst child b = tree_rows ?n ?D b" if "b < ?n" for b
    using tree_rows_row [OF Dn that, of cfirst child] gr unfolding kids by blast
  have th: "table_holds e ?k" using start_table [OF j(2)] by (simp add: table_holds_def ids_def)
  have lt: "length (fn_insts (gc_f ?k)) < LIMBA_NONE" using few by simp
  obtain k0 m es where k0: "visit libm nan ?k 0 = Some (k0, m)" "gvn_ok libm nan' c v e (gc_f k0) (gc_e k0)" "table_holds e k0"
      "moved (set (bl_insts (fn_blocks f ! 0))) f e (gc_f k0) (gc_e k0)" "gc_ents k0 = es"
      "ge_id ` set es \<subseteq> set (bl_insts (fn_blocks f ! 0))"
    using visit_insts_spec [of libm nan' c v e ?k 0 "[]" "bl_insts (fn_blocks f ! 0)" nan "bl_nparams (fn_blocks f ! 0)"] g th lt n
    unfolding visit_def Let_def by (auto simp: ids_def)
  have same: "fn_blocks (gc_f k0) = fn_blocks f" "length (fn_insts (gc_f k0)) = length (fn_insts f)" using k0(4) by (simp_all add: moved_def)
  have lay: "layered (gc_f k0) (replicate (?n + 1) 0) [0] (gc_ents k0)" using k0(5,6) same(1) by auto
  have few': "length (fn_insts f) < LIMBA_NONE" using lt by simp
  have "walk_ok libm nan' c v e k0 [0] (replicate (?n + 1) 0) (replicate (?n + 1) 0)"
    unfolding walk_ok_def same by (intro conjI k0(2,3) lay few' open_start [OF n]) simp_all
  moreover have "?n = length (fn_blocks (gc_f k0))" using same(1) by simp
  ultimately obtain k' ch where k': "gvn_walk libm nan cfirst child k0 [0] (replicate (?n + 1) 0) (replicate (?n + 1) 0) m = Some (k', ch)"
      "gvn_ok libm nan' c v e (gc_f k') (gc_e k')" "moved UNIV (gc_f k0) (gc_e k0) (gc_f k') (gc_e k')"
    using walk_spec [OF rows] by blast
  have "limba_pass_gvn libm nan folds have_cfg f e = Some (gc_f k', gc_e k', ch)"
    using graph(1) j(1) gr k0(1) k'(1) by (simp add: limba_pass_gvn_def Let_def del: replicate_Suc)
  moreover have "moved UNIV f e (gc_f k') (gc_e k')" using k0(4) k'(3) by (simp add: moved_def)
  ultimately show ?thesis using k'(2) by blast
qed

text \<open>Following the checks that are there earlier comes to one that stays.\<close>

lemma earlier_wf:
  assumes "graph_ok f c" "placed f"
  shows "wf {(y, x). runs f c x \<and> earlier f c y x}"
proof (rule finite_acyclic_wf)
  let ?R = "{(y, x). runs f c x \<and> earlier f c y x}"
  have "?R \<subseteq> {0 ..< length (fn_insts f)} \<times> {0 ..< length (fn_insts f)}" by (auto simp: earlier_def Let_def)
  then show "finite ?R" by (rule finite_subset) simp
  have "trans ?R" using earlier_trans [OF assms] earlier_runs [OF assms(1)] by (auto intro!: transI)
  then show "acyclic ?R" using earlier_irrefl [OF assms(2)] by (auto simp: acyclic_def trancl_id)
qed

lemma check_stays:
  assumes g: "graph_ok f c" "placed f" and d: "drops_ok f c v e0 e"
    and x: "runs f c x" "in_op (fn_insts f ! x) = LIMBA_OP_CHECK" "ed_dead e ! x" "\<not> ed_dead e0 ! x"
  shows "check_cond f v x \<noteq> 0 \<or>
    (\<exists>y. earlier f c y x \<and> \<not> ed_dead e ! y \<and> in_op (fn_insts f ! y) = LIMBA_OP_CHECK \<and> check_cond f v y = check_cond f v x)"
  using x
proof (induction x rule: wf_induct_rule [OF earlier_wf [OF g]])
  case (1 x)
  have "check_kept f c v e0 x" using d 1(2-5) by (auto simp: drops_ok_def runs_def)
  then consider "check_cond f v x \<noteq> 0" | y where "earlier f c y x" "\<not> ed_dead e0 ! y" "in_op (fn_insts f ! y) = LIMBA_OP_CHECK"
      "check_cond f v y = check_cond f v x"
    unfolding check_kept_def by blast
  then show ?case
  proof cases
    case 2
    show ?thesis
    proof (cases "ed_dead e ! y")
      case True
      then show ?thesis using 1(1) [of y] 1(2) 2 earlier_runs [OF g(1) 1(2) 2(1)] earlier_trans [OF g 1(2) _ 2(1)] by fastforce
    qed (use 2 in blast)
  qed simp
qed

text \<open>
  C7: The numbering of values always ends and is sound, with the folding on the way or without, on a
  function of at most \<open>2 ^ 30\<close> instructions (beyond, the 32-bit size of the table wraps to 0 and the loop that
  doubles it does not end). Take such a function with its graph, under an edit with a replacement always
  earlier on every path, and the values of a run that agree with it. After the pass, the
  values still agree with the function and the edit: each value replaced has the value, and the type, of
  what it stands for, which is there earlier on every path; and each check that was dropped either holds
  or has a check of the same condition, still there, earlier on every path.
\<close>

theorem gvn_sound:
  assumes graph: "limba_cfg_build f = Some (ok, c)" "fn_blocks f \<noteq> []" "length (fn_blocks f) < LIMBA_NONE"
    and small: "length (fn_insts f) \<le> 2 ^ 30" and have_cfg: "have_cfg \<in> {None, Some c}"
    and input: "placed f" "ops_ok f" "moves_up f c e" "uses_up f c e" "env_ok f e v (everywhere f)" "run_ok libm nan' f v"
  shows "\<exists>f' e' changes. limba_pass_gvn libm nan folds have_cfg f e = Some (f', e', changes) \<and>
    fn_blocks f' = fn_blocks f \<and> env_ok f' e' v (everywhere f) \<and> run_ok libm nan' f' v \<and>
    (\<forall>x. runs f c x \<longrightarrow> edit_value e' x = x \<or> earlier f c (edit_value e' x) x) \<and>
    (\<forall>x. runs f c x \<and> ed_dead e' ! x \<and> \<not> ed_dead e ! x \<longrightarrow>
       (if in_op (fn_insts f' ! x) = LIMBA_OP_CHECK
        then check_cond f' v x \<noteq> 0 \<or>
          (\<exists>y. earlier f c y x \<and> \<not> ed_dead e' ! y \<and> in_op (fn_insts f' ! y) = LIMBA_OP_CHECK \<and> check_cond f' v y = check_cond f' v x)
        else edit_value e' x \<noteq> x))"
proof -
  obtain po order where "cfg_built f ok c po order" using cfg_build_spec [OF graph(3)] graph(1) by auto
  then have g: "graph_ok f c" using cfg_graph graph(2) by blast
  have "limba_pass_cfg_of have_cfg f = Some c" using have_cfg graph(1) by (auto simp: limba_pass_cfg_of_def)
  moreover have "gvn_ok libm nan' c v e f e" using g input by (simp add: gvn_ok_def drops_ok_def)
  ultimately obtain f' e' changes where r: "limba_pass_gvn libm nan folds have_cfg f e = Some (f', e', changes)"
      "gvn_ok libm nan' c v e f' e'" "moved UNIV f e f' e'"
    using gvn_pass_spec [OF _ g graph(2) small] by blast
  note I = gvn_okD [OF r(2)] and o = moved_order [OF r(3)]
  have len: "length (fn_insts f') = length (fn_insts f)" "fn_blocks f' = fn_blocks f" using r(3) by (simp_all add: moved_def)
  have drops: "if in_op (fn_insts f' ! x) = LIMBA_OP_CHECK
        then check_cond f' v x \<noteq> 0 \<or>
          (\<exists>y. earlier f c y x \<and> \<not> ed_dead e' ! y \<and> in_op (fn_insts f' ! y) = LIMBA_OP_CHECK \<and> check_cond f' v y = check_cond f' v x)
        else edit_value e' x \<noteq> x" if x: "runs f c x" "ed_dead e' ! x" "\<not> ed_dead e ! x" for x
    using check_stays [OF I(1,2,8), of x] I(8) x len(1) unfolding o by (auto simp: drops_ok_def runs_def)
  have "\<forall>x. runs f c x \<longrightarrow> edit_value e' x = x \<or> earlier f c (edit_value e' x) x" using I(6) o by (simp add: moves_up_def)
  moreover have "env_ok f' e' v (everywhere f)" using I(3) len(1) by simp
  ultimately show ?thesis
    using r(1) I(5) len(2) drops by (intro exI [of _ f'] exI [of _ e'] exI [of _ changes] conjI) blast+
qed

text \<open>The sample of the edit: two constants of zero and their sum, which is returned. Its run has zeros only.\<close>

lemma sample_insts:
  "length (fn_insts edit_sample) = 4" "fn_blocks edit_sample = [\<lparr>bl_insts = [0, 1, 2, 3], bl_nparams = 0, bl_handler = 0\<rparr>]"
  "fn_insts edit_sample ! 0 = edit_inst_of LIMBA_OP_ICONST LIMBA_T_I32 0 0" "fn_insts edit_sample ! 1 = edit_inst_of LIMBA_OP_ICONST LIMBA_T_I32 0 0"
  "fn_insts edit_sample ! 2 = edit_inst_of LIMBA_OP_ADD LIMBA_T_I32 0 2" "fn_insts edit_sample ! 3 = edit_inst_of LIMBA_OP_RET LIMBA_T_VOID 2 1"
  by (simp_all add: edit_sample_def)

lemma sample_operands:
  "operand edit_sample (edit_inst_of LIMBA_OP_ADD LIMBA_T_I32 0 2) 0 = 0" "operand edit_sample (edit_inst_of LIMBA_OP_ADD LIMBA_T_I32 0 2) 1 = 1"
  "operand edit_sample (edit_inst_of LIMBA_OP_RET LIMBA_T_VOID 2 1) 0 = 2"
  by (simp_all add: edit_sample_def edit_inst_of_def operand_def)

lemma sample_fields:
  "in_op (edit_inst_of oper t first n) = oper" "in_type (edit_inst_of oper t first n) = t" "in_nops (edit_inst_of oper t first n) = n"
  "in_block (edit_inst_of oper t first n) = 0" "in_imm (edit_inst_of oper t first n) = 0"
  by (simp_all add: edit_inst_of_def)

lemma sample_blocks: "x < 4 \<Longrightarrow> in_block (fn_insts edit_sample ! x) = 0"
  unfolding less_four using sample_insts by (auto simp: sample_fields)

lemma sample_placed: "placed edit_sample"
  using sample_blocks sample_insts(1) by (auto simp: placed_def sample_insts(2))

lemma sample_earlier: "y < x \<Longrightarrow> x < 4 \<Longrightarrow> earlier edit_sample c y x"
proof -
  assume l: "y < x" "x < 4"
  have n: "[0, Suc 0, 2, 3] ! i = i" if "i < 4" for i :: nat using that unfolding less_four by auto
  have "before edit_sample 0 y x"
    unfolding before_def sample_insts(2) using l n [of x] n [of y] by (intro exI [of _ y] exI [of _ x]) simp
  then show ?thesis using l sample_blocks [of x] sample_blocks [of y] sample_insts(1) by (simp add: earlier_def)
qed

lemma sample_ops_ok: "ops_ok edit_sample"
  unfolding ops_ok_def sample_insts(1) less_four Let_def
  using sample_insts(3-6) sample_operands
  by (auto simp: sample_fields inst_typed_def operand_type_def Let_def limba_type_is_int_def float_bin_def mergeable_def less_2_cases_iff)

lemma sample_uses_up: "uses_up edit_sample c e"
  unfolding uses_up_def
proof (intro allI impI, elim conjE)
  fix x k assume "runs edit_sample c x" and k: "k < in_nops (fn_insts edit_sample ! x)"
  then have x: "x < 4" using sample_insts(1) by (simp add: runs_def)
  have "operand edit_sample (fn_insts edit_sample ! x) k < x"
    using x k sample_insts(3-6) sample_operands unfolding less_four by (auto simp: sample_fields less_2_cases_iff)
  then show "earlier edit_sample c (operand edit_sample (fn_insts edit_sample ! x) k) x" using sample_earlier x by blast
qed

lemma sample_zeros: "x < 4 \<Longrightarrow> replicate 4 (0 :: u64) ! x = 0"
  by simp

lemma sample_run_ok: "run_ok libm nan edit_sample (replicate 4 0)"
proof -
  have "eval_inst libm nan edit_sample (replicate 4 0) (fn_insts edit_sample ! x) \<in> {None, Some (EV_VALUE 0)}" if "x < 4" for x
    using that sample_insts(3-6) sample_operands unfolding less_four
    by (auto simp: eval_inst_def sample_fields int_bin_def limba_type_is_float_def norm_signed limba_type_is_int_def Let_def)
  then have "0 = r" if "x < 4" "eval_inst libm nan edit_sample (replicate 4 0) (fn_insts edit_sample ! x) = Some (EV_VALUE r)" for x r
    using that by fastforce
  then show ?thesis unfolding run_ok_def sample_insts(1) using sample_zeros by simp
qed

lemma sample_env_ok: "env_ok edit_sample (limba_edit_begin edit_sample) (replicate 4 0) (everywhere edit_sample)"
proof -
  have "canonical t 0" for t by (simp add: canonical_def norm_signed limba_type_is_int_def)
  then have "value_ok edit_sample (limba_edit_begin edit_sample) (replicate 4 0) {0 ..< 4} x" if "x < 4" for x
    using that sample_insts(1,3-6) edit_begin_ok(2) [of edit_sample x] unfolding less_four
    by (auto simp: value_ok_def sample_fields const_typed_def const_value_def value_type_def limba_type_is_int_def norm_signed)
  then show ?thesis using edit_begin_ok(1) [of edit_sample] sample_insts(1) by (simp add: env_ok_def limba_edit_begin_def)
qed

theorem gvn_sound_witness:
  "\<exists>f' e' changes. limba_pass_gvn (\<lambda>rt args. 0) 0 True None edit_sample (limba_edit_begin edit_sample) = Some (f', e', changes) \<and>
     env_ok f' e' (replicate 4 0) {0 ..< 4}"
proof -
  have len: "length (fn_blocks edit_sample) < LIMBA_NONE" by (simp add: sample_insts)
  obtain ok c where c: "limba_cfg_build edit_sample = Some (ok, c)" using cfg_build_spec [OF len] by blast
  have few: "length (fn_insts edit_sample) \<le> 2 ^ 30" by (simp add: sample_insts(1))
  have "moves_up edit_sample c (limba_edit_begin edit_sample)" by (simp add: moves_up_def edit_begin_ok)
  from gvn_sound [OF c _ len few _ sample_placed sample_ops_ok this sample_uses_up sample_env_ok sample_run_ok, of None "\<lambda>rt args. 0" 0 True 0]
  obtain f' e' changes where "limba_pass_gvn (\<lambda>rt args. 0) 0 True None edit_sample (limba_edit_begin edit_sample) = Some (f', e', changes)"
      "env_ok f' e' (replicate 4 0) (everywhere edit_sample)"
    using sample_insts(2) by auto
  then show ?thesis using sample_insts(1) by auto
qed

end
