(* ===== verification/Spec2Isabelle.thy ===== *)
theory Spec2Isabelle
  imports Leb128 Strtab Bigdiv Bignum Bigtext Rational Runtime Domtree Handled Dce Fold Gvn Verified
begin

text \<open>
  A verification development of Limba, the C library for an intermediate representation (IR) in SSA
  form: its data model and builder, its analyses and passes, its reference evaluator, and the numbers
  and containers below them.

  \<^bold>\<open>The program.\<close> \<^verbatim>\<open>src/src/common\<close> holds what everything uses: a byte buffer with variable-length
  integers, a hash index, interned strings, integers and rationals of any size, the mathematics.
  \<^verbatim>\<open>src/src/ir\<close> is the IR: a module is a set of growing arrays of types, symbols, functions, blocks and
  instructions, built by \<^verbatim>\<open>module.c\<close> and found by name through the indexes; \<^verbatim>\<open>cfg.c\<close> computes the
  control-flow graph of a function and its dominator tree; \<^verbatim>\<open>edit.c\<close> changes a function in one go.
  \<^verbatim>\<open>src/src/opt\<close> are the passes, which read the graph and record their changes in an edit; \<^verbatim>\<open>fold.c\<close> is
  the folding of constants one of them does. \<^verbatim>\<open>src/src/eval\<close> is the reference evaluator, the
  specification the engines and the passes must agree with.

  \<^bold>\<open>The theories\<close>, each importing those it calls, and what they prove:
  \<^item> \<open>Prelude\<close>: the machine integers and the lemmas on words and lists the others share.
  \<^item> \<open>Leb128\<close> (\<^verbatim>\<open>common/leb128.c\<close>, \<^verbatim>\<open>leb128.h\<close>): the writer and the bounded reader. What is written is
    read back; a value that does not fit 64 bits is refused, not cut; a count is bounded by the input left.
  \<^item> \<open>Hash\<close> (\<^verbatim>\<open>common/hash.c\<close>): open addressing with growth. The locale \<open>id_index\<close> states what a client
    relies on and is interpreted on the table of the code (\<open>idx\<close>); a search after a put finds it.
  \<^item> \<open>Strtab\<close> (\<^verbatim>\<open>common/strtab.c\<close>): interning refines a list of distinct strings, and fails only when full.
  \<^item> \<open>Bigint\<close>, \<open>Bigdiv\<close>, \<open>Bignum\<close>, \<open>Bigtext\<close>, \<open>Rational\<close> (\<^verbatim>\<open>common/bigint.c\<close>): the words of an integer have
    a value, and each operation is the one of the integers on it, with its limits: sums, products, Knuth's
    division, powers, gcd, Newton's roots, modular powers, parsing and printing. The loops end. The limits
    are any 64-bit ones the evaluator passes; the count of the bits of a number is exact below \<open>2 ^ 27\<close> words
    (\<open>small\<close>), and a value is \<open>counted\<close> under a limit when the limit or the value itself keeps to that.
  \<^item> \<open>Ir\<close> (\<^verbatim>\<open>include/limba/ir.h\<close>, the \<^verbatim>\<open>.def\<close> tables, \<^verbatim>\<open>ir/ops.c\<close>): the records, enumerations and tables.
  \<^item> \<open>Runtime\<close> (\<^verbatim>\<open>ir/runtime.c\<close>): the table of the run-time library; every signature of it parses.
  \<^item> \<open>Module\<close> (\<^verbatim>\<open>ir/module.c\<close>): every operation that builds a module. Names stay unique and found, types are
    interned, a truncation keeps the indexes, and the search for counted types ends.
  \<^item> \<open>Cfg\<close>, \<open>Walk\<close>, \<open>Dominators\<close>, \<open>Domtree\<close> (\<^verbatim>\<open>ir/cfg.c\<close>): the whole file. The build returns for every
    function; the answers it gives are reachability and dominance by the paths of the graph, and the rows
    of predecessors are the edges, those of errors included.
  \<^item> \<open>Edit\<close> (\<^verbatim>\<open>ir/edit.c\<close>): an edit stands for a substitution (locale \<open>value_edit\<close>, interpreted as \<open>ed\<close>);
    replacing refines it, and the end of the edit writes the canonical form of what is left.
  \<^item> \<open>Handled\<close> (\<^verbatim>\<open>ir/handled.c\<close>): the set of functions an exception may cross on its way to a handler. What
    the code computes is the least set closed under calls; the summaries of freed bodies are enough for it;
    and one operation that changes what it looks at does not say so.
  \<^item> \<open>Dce\<close> (\<^verbatim>\<open>opt/dce.c\<close>): the pass that removes dead code. It ends, and takes away exactly the instructions
    without an effect whose uses, if any, are all in such instructions.
  \<^item> \<open>Ieee\<close>: the floating point of C, as binary32 and binary64 of IEEE 754 on bit patterns.
  \<^item> \<open>Evalnum\<close> (\<^verbatim>\<open>eval/eval.c\<close>, in part; \<^verbatim>\<open>common/math.c\<close>): the evaluator on the instructions that compute a
    value. What it gives is in the canonical form of the type of the instruction.
  \<^item> \<open>Fold\<close> (\<^verbatim>\<open>opt/fold.c\<close>): the whole file. Folding never changes a value, and never removes a trap.

  \<^item> \<open>Gvn\<close> (\<^verbatim>\<open>opt/gvn.c\<close>): the numbering of values, with the folding on the way. The walk of the dominator tree
    ends, the table holds what dominates the block at hand, and what is replaced has the value of what
    replaces it, which comes earlier on every path; a check that is dropped cannot fail where it stood.
  \<^item> \<open>Verifytypes\<close>, \<open>Verifyfunc\<close> (\<^verbatim>\<open>ir/verify.c\<close>): the whole file, every read of an array of the module an
    option. \<open>Verified\<close>: the verifier answers on every module whose globals have types that exist, and does
    not on one where a later global has none; in a function it accepts a definition dominates its uses, by
    the paths of the graph, and every instruction obeys the typing rule of its format.

  \<^bold>\<open>Conventions.\<close> A struct is a record with its fields prefixed, an enumeration a datatype, a \<^verbatim>\<open>uint64_t\<close> or
  \<^verbatim>\<open>int64_t\<close> whose bits matter a word of 64 bits, read by \<open>unat\<close> or \<open>sint\<close>; an identifier or an index is a
  natural number, with \<open>LIMBA_NONE\<close> the number of \<^verbatim>\<open>UINT32_MAX\<close>; an array with its count is a list. A
  pointer argument that an operation writes through is a component of its result. The order of the bytes
  in memory is little-endian where it shows (the fingerprint of the run-time table). A stop of the process
  for lack of memory is either not modelled or, where a theorem is about it, the value \<open>None\<close>.
  The stamp of \<^verbatim>\<open>ir/handled.c\<close>, a variable of the process, is passed through the operations that bump it.

  \<^bold>\<open>Loops.\<close> A structural recursion or a measure is used where the code's loop has one; where whether it
  ends is the question (probing the index, Newton's iteration, the chains of an edit, the iteration for the
  dominators), the loop is \<open>while_option\<close> or a partial function into an option, \<open>None\<close> is not ending, and
  the theorem is that the result is \<open>Some\<close>. The recursions over the types of a module (\<open>type_counted\<close>,
  \<open>c_type_in\<close>, \<open>counted_zero_in\<close>, \<open>holds_empty_in\<close>) take one more than the number of types as fuel: each step
  goes to a type with a smaller number when the types are built in order, which the verifier checks first,
  so that running out, \<open>None\<close>, is a type that holds itself.

  \<^bold>\<open>Floating point.\<close> Operations round once, to nearest, in their own precision (\<^verbatim>\<open>FLT_EVAL_METHOD\<close> 0). Which
  NaN an arithmetic makes is a parameter: the theorems hold for any, also for different ones in the fold
  and in the evaluator. The functions of the library of mathematics are a parameter as well.

  \<^bold>\<open>Not modelled.\<close> The text form, the binary form, SSA construction, the other passes, the
  memory, the calls, the handlers and the run-time library of the evaluator, decimal numbers and the text
  of reals: no theorem here says anything of them. The mathematics of \<^verbatim>\<open>common/math.c\<close> is called, not
  modelled. The random generator of modules is a test tool; \<^verbatim>\<open>common/xalloc.c\<close> and \<^verbatim>\<open>limba/main.c\<close> are memory and input and output;
  \<^verbatim>\<open>third_party\<close> is vendored. The text of a diagnostic is not a state of the model.
\<close>

end
